(* ===== verification/Sperm_Prelude.thy ===== *)
theory Sperm_Prelude
  imports Main "HOL-Library.Word" "HOL-Library.While_Combinator" "HOL-Library.Multiset"
begin

text \<open>
  Shared vocabulary of the development: the machine integer types, the outcome type of
  code that may abort, diverge or run into undefined behaviour, raw memory regions as
  lists, the little-endian object representation of a 64-bit integer, and the generic
  lemmas on lists and words that the component theories use.
\<close>

unbundle bit_operations_syntax

section \<open>Lemma collections\<close>

named_theorems exec_simps \<open>evaluation of outcome combinators\<close>
named_theorems mem_simps \<open>reading and writing memory regions\<close>

section \<open>Machine integers\<close>

type_synonym u8 = "8 word"
type_synonym u32 = "32 word"
type_synonym u64 = "64 word"

section \<open>Outcomes of C++ code\<close>

text \<open>
  \<open>Ret x\<close>: the code returns \<open>x\<close>. \<open>Fatal\<close>: \<^verbatim>\<open>SPERM_FATAL\<close>, a failed \<^verbatim>\<open>assert\<close> or an
  uncaught exception ends the process. \<open>Undefined\<close>: undefined behaviour (a read or write
  outside a memory region, a null dereference, the use of an indeterminate value).
  \<open>Diverge\<close>: a loop that never leaves.
\<close>

datatype 'a exec = Ret 'a | Fatal | Undefined | Diverge

primrec exec_bind :: "'a exec \<Rightarrow> ('a \<Rightarrow> 'b exec) \<Rightarrow> 'b exec" where
  "exec_bind (Ret x) f = f x"
| "exec_bind Fatal f = Fatal"
| "exec_bind Undefined f = Undefined"
| "exec_bind Diverge f = Diverge"

definition exec_assert :: "bool \<Rightarrow> unit exec" where
  "exec_assert b = (if b then Ret () else Fatal)"

definition exec_of_option :: "'a exec \<Rightarrow> 'a option \<Rightarrow> 'a exec" where
  "exec_of_option e m = (case m of None \<Rightarrow> e | Some x \<Rightarrow> Ret x)"

lemma exec_bind_Ret [exec_simps]:
  "exec_bind m f = Ret y \<longleftrightarrow> (\<exists>x. m = Ret x \<and> f x = Ret y)"
  by (cases m) auto

lemma exec_bind_cong [fundef_cong]:
  "m = m' \<Longrightarrow> (\<And>x. m' = Ret x \<Longrightarrow> f x = g x) \<Longrightarrow> exec_bind m f = exec_bind m' g"
  by (cases m') auto

lemma exec_bind_assoc: "exec_bind (exec_bind m f) g = exec_bind m (\<lambda>x. exec_bind (f x) g)"
  by (cases m) auto

lemma exec_assert_simps [simp]: "exec_assert True = Ret ()" "exec_assert False = Fatal"
  by (simp_all add: exec_assert_def)

lemma exec_assert_Ret [exec_simps]: "exec_assert b = Ret u \<longleftrightarrow> b"
  by (simp add: exec_assert_def)

lemma exec_of_option_simps [simp]:
  "exec_of_option e None = e" "exec_of_option e (Some x) = Ret x"
  by (simp_all add: exec_of_option_def)

lemma exec_of_option_Ret [exec_simps]:
  "e \<noteq> Ret x \<Longrightarrow> exec_of_option e m = Ret x \<longleftrightarrow> m = Some x"
  by (cases m) auto

text \<open>
  Total correctness: the code returns, and what it returns satisfies \<open>P\<close>. The rules push the
  postcondition backwards through the combinators, like a weakest precondition.
\<close>

primrec returns :: "'a exec \<Rightarrow> ('a \<Rightarrow> bool) \<Rightarrow> bool" where
  "returns (Ret x) P = P x"
| "returns Fatal P = False"
| "returns Undefined P = False"
| "returns Diverge P = False"

lemma returns_iff: "returns m P \<longleftrightarrow> (\<exists>x. m = Ret x \<and> P x)"
  by (cases m) auto

lemma returns_bind [simp]: "returns (exec_bind m f) P \<longleftrightarrow> returns m (\<lambda>x. returns (f x) P)"
  by (cases m) auto

lemma returns_if [simp]:
  "returns (if b then m else m') P \<longleftrightarrow> (b \<longrightarrow> returns m P) \<and> (\<not> b \<longrightarrow> returns m' P)"
  by simp

lemma returns_mono: "returns m P \<Longrightarrow> (\<And>x. P x \<Longrightarrow> Q x) \<Longrightarrow> returns m Q"
  by (cases m) auto

section \<open>Memory regions\<close>

text \<open>
  A region is the list of the cells it owns; an access that leaves it is \<open>None\<close>.
\<close>

definition mem_read :: "'a list \<Rightarrow> nat \<Rightarrow> nat \<Rightarrow> 'a list option" where
  "mem_read m off n = (if off + n \<le> length m then Some (take n (drop off m)) else None)"

definition mem_write :: "'a list \<Rightarrow> nat \<Rightarrow> 'a list \<Rightarrow> 'a list option" where
  "mem_write m off bs =
     (if off + length bs \<le> length m
      then Some (take off m @ bs @ drop (off + length bs) m) else None)"

lemma mem_read_Some [mem_simps]:
  "mem_read m off n = Some bs \<longleftrightarrow> off + n \<le> length m \<and> bs = take n (drop off m)"
  by (auto simp: mem_read_def)

lemma mem_read_None [mem_simps]: "mem_read m off n = None \<longleftrightarrow> length m < off + n"
  by (auto simp: mem_read_def)

lemma mem_write_Some [mem_simps]:
  "mem_write m off bs = Some m' \<longleftrightarrow>
     off + length bs \<le> length m \<and> m' = take off m @ bs @ drop (off + length bs) m"
  by (auto simp: mem_write_def)

lemma length_mem_write: "mem_write m off bs = Some m' \<Longrightarrow> length m' = length m"
  by (auto simp: mem_write_def split: if_splits)

lemma mem_read_append [simp]: "length xs = n \<Longrightarrow> mem_read (xs @ ys) 0 n = Some xs"
  by (simp add: mem_read_def)

text \<open>What was just written is what is read back, and the cells before it are untouched.\<close>

lemma take_mem_write:
  "mem_write m off bs = Some m' \<Longrightarrow> take (off + length bs) m' = take off m @ bs"
  by (auto simp: mem_write_def split: if_splits)

section \<open>Little-endian representation\<close>

text \<open>
  \<open>le_bytes n v\<close> is the first \<open>n\<close> bytes of the object representation of \<open>v\<close> on x86;
  \<open>le_word\<close> rebuilds the integer, \<open>le_poke\<close> overwrites bytes of the object in place, as
  \<^verbatim>\<open>reinterpret_cast<char*>(&v) + off\<close> does.
\<close>

fun le_bytes :: "nat \<Rightarrow> u64 \<Rightarrow> u8 list" where
  "le_bytes 0 v = []"
| "le_bytes (Suc n) v = ucast v # le_bytes n (drop_bit 8 v)"

fun le_word :: "u8 list \<Rightarrow> u64" where
  "le_word [] = 0"
| "le_word (b # bs) = ucast b OR push_bit 8 (le_word bs)"

definition le_poke :: "u64 \<Rightarrow> nat \<Rightarrow> u8 list \<Rightarrow> u64 option" where
  "le_poke v off bs = map_option le_word (mem_write (le_bytes 8 v) off bs)"

lemma length_le_bytes [simp]: "length (le_bytes n v) = n"
  by (induction n arbitrary: v) auto

lemma bit_le_word_Cons:
  "bit (le_word (b # bs)) i \<longleftrightarrow> i < 64 \<and> (if i < 8 then bit b i else bit (le_word bs) (i - 8))"
  by (auto simp: bit_simps dest: bit_imp_le_length)

lemma le_word_le_bytes: "le_word (le_bytes n v) = take_bit (8 * n) v"
proof (induction n arbitrary: v)
  case 0
  then show ?case by simp
next
  case (Suc n)
  show ?case
  proof (rule bit_word_eqI)
    fix i assume i: "i < LENGTH(64)"
    show "bit (le_word (le_bytes (Suc n) v)) i \<longleftrightarrow> bit (take_bit (8 * Suc n) v) i"
      using i unfolding le_bytes.simps bit_le_word_Cons Suc.IH
      by (auto simp: bit_simps)
  qed
qed

lemma bit_le_word_high: "8 * length bs \<le> i \<Longrightarrow> \<not> bit (le_word bs) i"
proof (induction bs arbitrary: i)
  case (Cons b bs)
  then show ?case unfolding bit_le_word_Cons by auto
qed simp

lemma le_word_append_zeros [simp]: "le_word (bs @ replicate n 0) = le_word bs"
proof (induction bs)
  case Nil
  show ?case by (induction n) auto
qed simp

lemma le_word_replicate_0 [simp]: "le_word (replicate n 0) = 0"
  using le_word_append_zeros [of "[]" n] by simp

lemma le_bytes_0 [simp]: "le_bytes n 0 = replicate n 0"
  by (induction n) auto

lemma le_bytes_ucast: "0 < n \<Longrightarrow> le_bytes n (ucast (b::u8)) = b # replicate (n - 1) 0"
proof (cases n)
  case (Suc k)
  have "drop_bit 8 (ucast b :: u64) = 0"
    by (rule bit_word_eqI) (auto simp: bit_simps dest: bit_imp_le_length)
  moreover have "ucast (ucast b :: u64) = b"
    by (rule bit_word_eqI) (auto simp: bit_simps)
  ultimately show ?thesis using Suc by simp
qed simp

text \<open>
  The pattern of the decoder: a byte is loaded into a cleared integer and the following
  bytes are copied behind it.
\<close>

lemma le_poke_ucast:
  assumes "length bs \<le> 7"
  shows "le_poke (ucast b) 1 bs = Some (le_word (b # bs))"
proof -
  have "le_bytes 8 (ucast b) = b # replicate 7 0"
    using le_bytes_ucast [of 8 b] by simp
  with assms show ?thesis
    by (simp add: le_poke_def mem_write_def del: le_word.simps)
       (simp flip: append_Cons)
qed

lemma take_le_bytes: "k \<le> n \<Longrightarrow> take k (le_bytes n v) = le_bytes k v"
proof (induction n arbitrary: k v)
  case (Suc n)
  then show ?case by (cases k) auto
qed simp

section \<open>Words\<close>

lemma unat_add_no_wrap:
  "unat (a::'a::len word) + unat b < 2 ^ LENGTH('a) \<Longrightarrow> unat (a + b) = unat a + unat b"
  by (simp add: unat_word_ariths)

lemma and_pow_tests:
  fixes x :: "'a::len word"
  shows "x AND 0x1 = 0 \<longleftrightarrow> \<not> bit x 0" "x AND 0x2 = 0 \<longleftrightarrow> \<not> bit x 1"
    "x AND 0x4 = 0 \<longleftrightarrow> \<not> bit x 2" "x AND 0x8 = 0 \<longleftrightarrow> \<not> bit x 3"
    "x AND 0x10 = 0 \<longleftrightarrow> \<not> bit x 4" "x AND 0x20 = 0 \<longleftrightarrow> \<not> bit x 5"
    "x AND 0x40 = 0 \<longleftrightarrow> \<not> bit x 6" "x AND 0x80 = 0 \<longleftrightarrow> \<not> bit x 7"
  using and_exp_eq_0_iff_not_bit [of x 0] and_exp_eq_0_iff_not_bit [of x 1]
    and_exp_eq_0_iff_not_bit [of x 2] and_exp_eq_0_iff_not_bit [of x 3]
    and_exp_eq_0_iff_not_bit [of x 4] and_exp_eq_0_iff_not_bit [of x 5]
    and_exp_eq_0_iff_not_bit [of x 6] and_exp_eq_0_iff_not_bit [of x 7]
  by simp_all

lemma u8_all_bits:
  assumes "bit (b::u8) 0" "bit b 1" "bit b 2" "bit b 3" "bit b 4" "bit b 5" "bit b 6" "bit b 7"
  shows "b = 0xff"
proof -
  have "b = - 1"
  proof (rule bit_word_eqI)
    fix n assume "n < LENGTH(8)"
    then have "n \<in> {0, 1, 2, 3, 4, 5, 6, 7}" by auto
    with assms show "bit b n \<longleftrightarrow> bit (- 1 :: u8) n" by (auto simp: bit_simps)
  qed
  then show ?thesis by simp
qed

lemma bit_ucast_u8 [simp]: "bit (ucast (b::u8) :: u64) n = bit b n"
  by (auto simp: bit_simps dest: bit_imp_le_length)

lemma unat_pow2: "j < LENGTH('a) \<Longrightarrow> unat (2 ^ j :: 'a::len word) = 2 ^ j"
  using unat_of_nat [of "2 ^ j", where 'a = 'a] by simp

lemma not_bit_ge: "v < 2 ^ m \<Longrightarrow> m \<le> n \<Longrightarrow> \<not> bit (v::'a::len word) n"
proof
  assume lt: "v < 2 ^ m" and le: "m \<le> n" and b: "bit v n"
  from b have n: "n < LENGTH('a)" by (rule bit_imp_le_length)
  with le have "unat (2 ^ m :: 'a word) = 2 ^ m" by (simp add: unat_pow2)
  with lt have "unat v < 2 ^ m" by (simp add: word_less_nat_alt)
  also have "(2::nat) ^ m \<le> 2 ^ n" using le by simp
  finally have "unat v div 2 ^ n = 0" by simp
  moreover have "bit (unat v) n" using b n by (simp add: bit_unsigned_iff)
  ultimately show False by (simp add: bit_iff_odd)
qed

text \<open>A 64-bit size below \<open>2 ^ 31\<close> is unchanged by the conversion to \<^verbatim>\<open>int\<close>.\<close>

lemma sint_ucast_small:
  assumes "unat (n::u64) < 2 ^ 31"
  shows "sint (ucast n :: u32) = int (unat n)"
proof -
  have "int (unat n) < int (2 ^ 31)" using assms by (simp only: of_nat_less_iff)
  then have n: "uint n < 2 ^ 31" by simp
  then have "take_bit 32 (uint n) = uint n" by (simp add: take_bit_int_eq_self)
  then have "uint (ucast n :: u32) = uint n" by (simp add: unsigned_ucast_eq)
  then have "sint (ucast n :: u32) = signed_take_bit 31 (uint n)" by (simp add: sint_uint)
  also have "\<dots> = uint n" using n uint_ge_0 [of n] by (intro signed_take_bit_int_eq_self) linarith+
  finally show ?thesis by simp
qed

section \<open>Arithmetic on \<^verbatim>\<open>int\<close> and indexing\<close>

text \<open>
  The result of a signed operation is a value of \<^verbatim>\<open>int\<close> or the behaviour is undefined; an index
  outside an array or a vector is undefined behaviour too.
\<close>

definition int_ok :: "int \<Rightarrow> bool" where
  "int_ok x \<longleftrightarrow> - (2 ^ 31) \<le> x \<and> x < 2 ^ 31"

definition c_int :: "int \<Rightarrow> int exec" where
  "c_int x = (if int_ok x then Ret x else Undefined)"

definition vec_at :: "'a list \<Rightarrow> int \<Rightarrow> 'a exec" where
  "vec_at xs i = (if 0 \<le> i \<and> i < int (length xs) then Ret (xs ! nat i) else Undefined)"

definition vec_put :: "'a list \<Rightarrow> int \<Rightarrow> 'a \<Rightarrow> 'a list exec" where
  "vec_put xs i x = (if 0 \<le> i \<and> i < int (length xs) then Ret (xs[nat i := x]) else Undefined)"

lemma c_int_ok [simp]: "int_ok x \<Longrightarrow> c_int x = Ret x"
  by (simp add: c_int_def)

text \<open>
  A conversion to \<^verbatim>\<open>int\<close> from a wider type, which keeps the value when it fits and the low 32 bits, read
  as a signed number, when it does not.
\<close>

definition to_int :: "int \<Rightarrow> int" where
  "to_int x = signed_take_bit 31 x"

lemma to_int_id [simp]: "int_ok x \<Longrightarrow> to_int x = x"
  unfolding to_int_def int_ok_def by (rule signed_take_bit_int_eq_self) simp_all

lemma to_int_mod: "to_int (x mod 2 ^ 64) = to_int x"
  unfolding to_int_def take_bit_eq_mod [symmetric] by (simp add: signed_take_bit_take_bit)

lemma to_int_large:
  assumes "2 ^ 31 \<le> x" "x < 2 ^ 32"
  shows "to_int x = x - 2 ^ 32"
proof -
  have "to_int x = to_int (x - 2 ^ 32)"
    using signed_take_bit_eq_iff_take_bit_eq [of 31 x "x - 2 ^ 32"]
    by (simp add: to_int_def take_bit_eq_mod mod_diff_eq)
  with assms show ?thesis by (simp add: int_ok_def)
qed

lemma returns_c_int [simp]: "returns (c_int x) P \<longleftrightarrow> int_ok x \<and> P x"
  by (auto simp: c_int_def)

lemma int_ok_between: "int_ok a \<Longrightarrow> int_ok b \<Longrightarrow> a \<le> x \<Longrightarrow> x \<le> b \<Longrightarrow> int_ok x"
  by (simp add: int_ok_def)

lemma int_ok_abs: "\<bar>x\<bar> < 2 ^ 31 \<Longrightarrow> int_ok x"
  by (auto simp: int_ok_def)

lemma vec_at_in [simp]: "0 \<le> i \<Longrightarrow> i < int (length xs) \<Longrightarrow> vec_at xs i = Ret (xs ! nat i)"
  by (simp add: vec_at_def)

lemma vec_at_nat [simp]: "i < length xs \<Longrightarrow> vec_at xs (int i) = Ret (xs ! i)"
  by (simp add: vec_at_def)

lemma returns_vec_at [simp]:
  "returns (vec_at xs i) P \<longleftrightarrow> 0 \<le> i \<and> i < int (length xs) \<and> P (xs ! nat i)"
  by (auto simp: vec_at_def)

lemma vec_put_in [simp]: "0 \<le> i \<Longrightarrow> i < int (length xs) \<Longrightarrow> vec_put xs i x = Ret (xs[nat i := x])"
  by (simp add: vec_put_def)

lemma vec_put_nat [simp]: "i < length xs \<Longrightarrow> vec_put xs (int i) x = Ret (xs[i := x])"
  by (simp add: vec_put_def)

lemma returns_vec_put [simp]:
  "returns (vec_put xs i x) P \<longleftrightarrow> 0 \<le> i \<and> i < int (length xs) \<and> P (xs[nat i := x])"
  by (auto simp: vec_put_def)

lemma nat_int_minus [simp]: "nat (int n - 1) = n - 1"
  by linarith

section \<open>Counting loops\<close>

text \<open>\<open>exec_fold f is s\<close> runs the body \<open>f\<close> for the values of the loop variable in turn.\<close>

primrec exec_fold :: "('i \<Rightarrow> 's \<Rightarrow> 's exec) \<Rightarrow> 'i list \<Rightarrow> 's \<Rightarrow> 's exec" where
  "exec_fold f [] s = Ret s"
| "exec_fold f (i # is) s = exec_bind (f i s) (exec_fold f is)"

lemma exec_fold_cong [fundef_cong]:
  "xs = ys \<Longrightarrow> s = t \<Longrightarrow> (\<And>i u. i \<in> set ys \<Longrightarrow> f i u = g i u) \<Longrightarrow> exec_fold f xs s = exec_fold g ys t"
proof (induction xs arbitrary: ys s t)
  case (Cons i xs)
  then show ?case by (cases "g i t") auto
qed simp

text \<open>The rules for loops that count up and down, with an invariant that is established before the first turn.\<close>

lemma exec_fold_upto:
  assumes "P a s" "a \<le> b + 1"
    and "\<And>i s. a \<le> i \<Longrightarrow> i \<le> b \<Longrightarrow> P i s \<Longrightarrow> returns (f i s) (P (i + 1))"
  shows "returns (exec_fold f [a..b] s) (P (b + 1))"
  using assms
proof (induction "nat (b + 1 - a)" arbitrary: a s)
  case 0
  then show ?case by simp
next
  case (Suc n)
  then have ab: "a \<le> b" by linarith
  have "returns (f a s) (P (a + 1))" using Suc.prems ab by auto
  moreover have "returns (exec_fold f [a + 1..b] s') (P (b + 1))" if "P (a + 1) s'" for s'
    using that Suc.prems Suc.hyps(2) ab by (intro Suc.hyps(1)) auto
  ultimately show ?case using ab by (simp add: upto_rec1 returns_mono)
qed

lemma exec_fold_downto:
  assumes "P b s" "a \<le> b + 1"
    and "\<And>i s. a \<le> i \<Longrightarrow> i \<le> b \<Longrightarrow> P i s \<Longrightarrow> returns (f i s) (P (i - 1))"
  shows "returns (exec_fold f (rev [a..b]) s) (P (a - 1))"
  using assms
proof (induction "nat (b + 1 - a)" arbitrary: b s)
  case 0
  then have "b = a - 1" by linarith
  with 0 show ?case by simp
next
  case (Suc n)
  then have ab: "a \<le> b" by linarith
  have "returns (f b s) (P (b - 1))" using Suc.prems ab by auto
  moreover have "returns (exec_fold f (rev [a..b - 1]) s') (P (a - 1))" if "P (b - 1) s'" for s'
    using that Suc.prems Suc.hyps(2) ab by (intro Suc.hyps(1)) auto
  ultimately show ?case using ab by (simp add: upto_rec2 returns_mono)
qed

lemma distinct_concat_map:
  "distinct xs \<Longrightarrow> (\<And>x. x \<in> set xs \<Longrightarrow> distinct (f x)) \<Longrightarrow>
   (\<And>x y. x \<in> set xs \<Longrightarrow> y \<in> set xs \<Longrightarrow> x \<noteq> y \<Longrightarrow> set (f x) \<inter> set (f y) = {}) \<Longrightarrow>
   distinct (concat (map f xs))"
proof (induction xs)
  case (Cons x xs)
  have "set (f x) \<inter> set (f y) = {}" if "y \<in> set xs" for y
    using Cons.prems that by (intro Cons.prems(3)) auto
  with Cons show ?case by auto
qed simp

section \<open>Greatest elements\<close>

definition best :: "'a::linorder set \<Rightarrow> 'a \<Rightarrow> bool" where
  "best A m \<longleftrightarrow> m \<in> A \<and> (\<forall>x \<in> A. x \<le> m)"

lemma bestI: "m \<in> A \<Longrightarrow> (\<And>x. x \<in> A \<Longrightarrow> x \<le> m) \<Longrightarrow> best A m"
  by (simp add: best_def)

lemma best_Un: "best A m \<Longrightarrow> best B n \<Longrightarrow> best (A \<union> B) (max m n)"
  unfolding best_def by (metis Un_iff le_max_iff_disj max_def)

lemma best_Max: "best A m \<Longrightarrow> finite A \<Longrightarrow> Max A = m"
  by (auto simp: best_def intro: Max_eqI)

lemma best_Un_opt:
  "best C c \<Longrightarrow> best A a \<or> A = {} \<and> a \<le> c \<Longrightarrow> best (A \<union> C) (max a c)"
  using best_Un [of A a C c] by (auto simp: max_def)

lemma best_insert: "best A m \<Longrightarrow> best (insert x A) (max x m)"
  by (auto simp: best_def max_def)

lemma fill_upto:
  assumes "a \<le> b + 1" "0 \<le> a" "b < int N" "length dp = N" "\<And>k. k < nat a \<Longrightarrow> dp ! k = F k"
    and "\<And>i dp. a \<le> i \<Longrightarrow> i \<le> b \<Longrightarrow> length dp = N \<Longrightarrow> (\<And>k. k < nat i \<Longrightarrow> dp ! k = F k) \<Longrightarrow>
       f i dp = Ret (dp[nat i := F (nat i)])"
  shows "returns (exec_fold f [a..b] dp) (\<lambda>dp. length dp = N \<and> (\<forall>k < nat (b + 1). dp ! k = F k))"
  using assms
  by (intro exec_fold_upto [where P = "\<lambda>i dp. length dp = N \<and> (\<forall>k < nat i. dp ! k = F k)"])
     (auto simp: nth_list_update nat_add_distrib less_Suc_eq)

lemma fill_downto:
  assumes "a \<le> b + 1" "0 \<le> a" "b < int N" "length dp = N" "\<And>k. nat (b + 1) \<le> k \<Longrightarrow> k < N \<Longrightarrow> dp ! k = F k"
    and "\<And>i dp. a \<le> i \<Longrightarrow> i \<le> b \<Longrightarrow> length dp = N \<Longrightarrow> (\<And>k. nat i < k \<Longrightarrow> k < N \<Longrightarrow> dp ! k = F k) \<Longrightarrow>
       f i dp = Ret (dp[nat i := F (nat i)])"
  shows "returns (exec_fold f (rev [a..b]) dp) (\<lambda>dp. length dp = N \<and> (\<forall>k. nat a \<le> k \<and> k < N \<longrightarrow> dp ! k = F k))"
proof -
  have "returns (exec_fold f (rev [a..b]) dp)
      (\<lambda>dp. length dp = N \<and> (\<forall>k. nat (a - 1 + 1) \<le> k \<and> k < N \<longrightarrow> dp ! k = F k))"
    using assms
    by (intro exec_fold_downto [where P = "\<lambda>i dp. length dp = N \<and> (\<forall>k. nat (i + 1) \<le> k \<and> k < N \<longrightarrow> dp ! k = F k)"])
       (auto simp: nth_list_update nat_add_distrib)
  then show ?thesis by simp
qed

section \<open>Runs\<close>

lemma two_steps: "r a b \<Longrightarrow> r b c \<Longrightarrow> r\<^sup>*\<^sup>* a c"
  by (blast intro: converse_rtranclp_into_rtranclp)

lemma three_steps: "r a b \<Longrightarrow> r b c \<Longrightarrow> r c d \<Longrightarrow> r\<^sup>*\<^sup>* a d"
  by (blast intro: converse_rtranclp_into_rtranclp)

end
