(* ===== verification/Linked_Queue.thy ===== *)
theory Linked_Queue
  imports Sperm_Prelude
begin

text \<open>
  The sequential queues of \<^verbatim>\<open>common/queue.h\<close>: the intrusive \<^verbatim>\<open>SLinkedListQueue\<close> and
  \<^verbatim>\<open>DLinkedListQueue\<close>, which link the caller's own nodes, and the adaptors \<^verbatim>\<open>STLQueue\<close>,
  \<^verbatim>\<open>STLDeque\<close> and \<^verbatim>\<open>STLPriorityQueue\<close>. The linked queues are modelled on an explicit heap of
  nodes, so that a missed pointer update, a null dereference or a node linked twice shows.
  The locale \<open>deque_impl\<close> states the contract the queues share; the concrete queues are
  interpretations of it.
\<close>

section \<open>The node heap\<close>

type_synonym ptr = nat

text \<open>\<open>0\<close> is the null pointer and is never allocated.\<close>

record node =
  prev :: ptr
  next_of :: ptr

type_synonym nheap = "ptr \<rightharpoonup> node"

definition null_ok :: "nheap \<Rightarrow> bool" where
  "null_ok h \<longleftrightarrow> h 0 = None"

definition get_next :: "nheap \<Rightarrow> ptr \<Rightarrow> ptr exec" where
  "get_next h p = (case h p of None \<Rightarrow> Undefined | Some n \<Rightarrow> Ret (next_of n))"

definition get_prev :: "nheap \<Rightarrow> ptr \<Rightarrow> ptr exec" where
  "get_prev h p = (case h p of None \<Rightarrow> Undefined | Some n \<Rightarrow> Ret (prev n))"

definition set_next :: "ptr \<Rightarrow> ptr \<Rightarrow> nheap \<Rightarrow> nheap exec" where
  "set_next p v h =
     (case h p of None \<Rightarrow> Undefined | Some n \<Rightarrow> Ret (h(p \<mapsto> n\<lparr>next_of := v\<rparr>)))"

definition set_prev :: "ptr \<Rightarrow> ptr \<Rightarrow> nheap \<Rightarrow> nheap exec" where
  "set_prev p v h =
     (case h p of None \<Rightarrow> Undefined | Some n \<Rightarrow> Ret (h(p \<mapsto> n\<lparr>prev := v\<rparr>)))"

lemma heap_access_simps [simp]:
  "h p = Some n \<Longrightarrow> get_next h p = Ret (next_of n)"
  "h p = Some n \<Longrightarrow> get_prev h p = Ret (prev n)"
  "h p = Some n \<Longrightarrow> set_next p v h = Ret (h(p \<mapsto> n\<lparr>next_of := v\<rparr>))"
  "h p = Some n \<Longrightarrow> set_prev p v h = Ret (h(p \<mapsto> n\<lparr>prev := v\<rparr>))"
  by (simp_all add: get_next_def get_prev_def set_next_def set_prev_def)

lemma heap_access_null [simp]:
  "h p = None \<Longrightarrow> get_next h p = Undefined"
  "h p = None \<Longrightarrow> get_prev h p = Undefined"
  "h p = None \<Longrightarrow> set_next p v h = Undefined"
  "h p = None \<Longrightarrow> set_prev p v h = Undefined"
  by (simp_all add: get_next_def get_prev_def set_next_def set_prev_def)

section \<open>Linked list queues\<close>

text \<open>A queue object together with the heap its nodes live in.\<close>

record lqueue =
  q_head :: ptr
  q_tail :: ptr
  nodes :: nheap

definition mk_lqueue :: "nheap \<Rightarrow> lqueue" where
  "mk_lqueue h = \<lparr>q_head = 0, q_tail = 0, nodes = h\<rparr>"

definition lq_empty :: "lqueue \<Rightarrow> bool" where
  "lq_empty q \<longleftrightarrow> q_head q = q_tail q \<and> q_head q = 0"

subsection \<open>SLinkedListQueue\<close>

definition sq_push :: "lqueue \<Rightarrow> ptr \<Rightarrow> lqueue exec" where
  "sq_push q item =
     exec_bind (set_next item 0 (nodes q)) (\<lambda>h.
       if lq_empty q
       then Ret (q\<lparr>q_head := item, q_tail := item, nodes := h\<rparr>)
       else exec_bind (set_next (q_tail q) item h) (\<lambda>h.
         Ret (q\<lparr>q_tail := item, nodes := h\<rparr>)))"

definition sq_push_front :: "lqueue \<Rightarrow> ptr \<Rightarrow> lqueue exec" where
  "sq_push_front q item =
     (if lq_empty q
      then exec_bind (set_next item 0 (nodes q)) (\<lambda>h.
        Ret (q\<lparr>q_head := item, q_tail := item, nodes := h\<rparr>))
      else exec_bind (set_next item (q_head q) (nodes q)) (\<lambda>h.
        Ret (q\<lparr>q_head := item, nodes := h\<rparr>)))"

definition sq_pop :: "lqueue \<Rightarrow> (ptr \<times> lqueue) exec" where
  "sq_pop q =
     (let x = q_head q in
      exec_bind (get_next (nodes q) (q_head q)) (\<lambda>hd'.
        let q = q\<lparr>q_head := hd'\<rparr>;
            q = (if q_head q = 0 then q\<lparr>q_tail := 0\<rparr> else q)
        in exec_bind (set_next x 0 (nodes q)) (\<lambda>h. Ret (x, q\<lparr>nodes := h\<rparr>))))"

subsection \<open>DLinkedListQueue\<close>

definition dq_push :: "lqueue \<Rightarrow> ptr \<Rightarrow> lqueue exec" where
  "dq_push q item =
     exec_bind (set_next item 0 (nodes q)) (\<lambda>h.
       if lq_empty q
       then exec_bind (set_prev item 0 h) (\<lambda>h.
         Ret (q\<lparr>q_head := item, q_tail := item, nodes := h\<rparr>))
       else exec_bind (set_next (q_tail q) item h) (\<lambda>h.
         exec_bind (set_prev item (q_tail q) h) (\<lambda>h.
           Ret (q\<lparr>q_tail := item, nodes := h\<rparr>))))"

definition dq_push_front :: "lqueue \<Rightarrow> ptr \<Rightarrow> lqueue exec" where
  "dq_push_front q item =
     exec_bind (set_prev item 0 (nodes q)) (\<lambda>h.
       if lq_empty q
       then exec_bind (set_next item 0 h) (\<lambda>h.
         Ret (q\<lparr>q_head := item, q_tail := item, nodes := h\<rparr>))
       else exec_bind (set_next item (q_head q) h) (\<lambda>h.
         exec_bind (set_prev (q_head q) item h) (\<lambda>h.
           Ret (q\<lparr>q_head := item, nodes := h\<rparr>))))"

definition dq_pop :: "lqueue \<Rightarrow> (ptr \<times> lqueue) exec" where
  "dq_pop q =
     (let x = q_head q in
      exec_bind (get_next (nodes q) (q_head q)) (\<lambda>hd'.
        let q = q\<lparr>q_head := hd'\<rparr> in
        exec_bind (if q_head q = 0 then Ret (q\<lparr>q_tail := 0\<rparr>)
                   else exec_bind (set_prev (q_head q) 0 (nodes q)) (\<lambda>h. Ret (q\<lparr>nodes := h\<rparr>)))
          (\<lambda>q. exec_bind (set_prev x 0 (nodes q)) (\<lambda>h.
               exec_bind (set_next x 0 h) (\<lambda>h. Ret (x, q\<lparr>nodes := h\<rparr>))))))"

definition dq_replace :: "lqueue \<Rightarrow> ptr \<Rightarrow> ptr \<Rightarrow> lqueue exec" where
  "dq_replace q old new =
     exec_bind (get_prev (nodes q) old) (\<lambda>p.
     exec_bind (if p \<noteq> 0 then set_next p new (nodes q) else Ret (nodes q)) (\<lambda>h.
     exec_bind (get_prev h old) (\<lambda>p.
     exec_bind (set_prev new p h) (\<lambda>h.
     exec_bind (get_next h old) (\<lambda>s.
     exec_bind (if s \<noteq> 0 then set_prev s new h else Ret h) (\<lambda>h.
     exec_bind (get_next h old) (\<lambda>s.
     exec_bind (set_next new s h) (\<lambda>h. Ret (q\<lparr>nodes := h\<rparr>)))))))))"

definition dq_remove :: "lqueue \<Rightarrow> ptr \<Rightarrow> lqueue exec" where
  "dq_remove q x =
     (if q_head q = x \<and> q_tail q = x then Ret (q\<lparr>q_head := 0, q_tail := 0\<rparr>)
      else if q_head q = x then
        exec_bind (get_next (nodes q) x) (\<lambda>s.
        exec_bind (set_prev s 0 (nodes q)) (\<lambda>h. Ret (q\<lparr>q_head := s, nodes := h\<rparr>)))
      else if q_tail q = x then
        exec_bind (get_prev (nodes q) x) (\<lambda>p.
        exec_bind (set_next p 0 (nodes q)) (\<lambda>h. Ret (q\<lparr>q_tail := p, nodes := h\<rparr>)))
      else
        exec_bind (get_prev (nodes q) x) (\<lambda>p.
        exec_bind (get_next (nodes q) x) (\<lambda>s.
        exec_bind (set_next p s (nodes q)) (\<lambda>h.
        exec_bind (get_next h x) (\<lambda>s.
        exec_bind (get_prev h x) (\<lambda>p.
        exec_bind (set_prev s p h) (\<lambda>h. Ret (q\<lparr>nodes := h\<rparr>))))))))"

text \<open>\<^verbatim>\<open>clear\<close> of the blocking variants hands the whole chain to the caller.\<close>

definition lq_clear :: "lqueue \<Rightarrow> ptr \<times> lqueue" where
  "lq_clear q = (q_head q, q\<lparr>q_head := 0, q_tail := 0\<rparr>)"

subsection \<open>The STL adaptors\<close>

text \<open>
  \<^verbatim>\<open>front\<close>, \<^verbatim>\<open>top\<close> and \<^verbatim>\<open>pop\<close> of an empty STL container are undefined. A
  \<^verbatim>\<open>std::priority_queue\<close> is kept as the list of its elements in descending order, which
  determines \<^verbatim>\<open>top\<close>; equal elements are indistinguishable under a total order.
\<close>

definition stl_front :: "'a list \<Rightarrow> 'a exec" where
  "stl_front xs = (case xs of [] \<Rightarrow> Undefined | x # _ \<Rightarrow> Ret x)"

definition stl_pop :: "'a list \<Rightarrow> ('a \<times> 'a list) exec" where
  "stl_pop xs = exec_bind (stl_front xs) (\<lambda>x. Ret (x, tl xs))"

definition stl_push :: "'a list \<Rightarrow> 'a \<Rightarrow> 'a list exec" where
  "stl_push xs x = Ret (xs @ [x])"

definition stl_push_front :: "'a list \<Rightarrow> 'a \<Rightarrow> 'a list exec" where
  "stl_push_front xs x = Ret (x # xs)"

definition stl_empty :: "'a list \<Rightarrow> bool" where
  "stl_empty xs \<longleftrightarrow> xs = []"

definition pq_push :: "'a::linorder list \<Rightarrow> 'a \<Rightarrow> 'a list exec" where
  "pq_push xs x = Ret (rev (insort x (rev xs)))"

definition pq_pop :: "'a::linorder list \<Rightarrow> ('a \<times> 'a list) exec" where
  "pq_pop xs = exec_bind (stl_front xs) (\<lambda>x. Ret (x, tl xs))"

section \<open>What the heap represents\<close>

text \<open>
  \<open>sseg h xs e\<close>: the nodes \<open>xs\<close> are chained by their \<open>next\<close> pointers and the last one
  points to \<open>e\<close>. \<open>dseg h p xs e\<close>: moreover the \<open>prev\<close> pointers lead back, the first one to \<open>p\<close>.
\<close>

fun sseg :: "nheap \<Rightarrow> ptr list \<Rightarrow> ptr \<Rightarrow> bool" where
  "sseg h [] e \<longleftrightarrow> True"
| "sseg h (x # xs) e \<longleftrightarrow>
     (case h x of None \<Rightarrow> False | Some n \<Rightarrow> next_of n = hd (xs @ [e])) \<and> sseg h xs e"

fun dseg :: "nheap \<Rightarrow> ptr \<Rightarrow> ptr list \<Rightarrow> ptr \<Rightarrow> bool" where
  "dseg h p [] e \<longleftrightarrow> True"
| "dseg h p (x # xs) e \<longleftrightarrow>
     (case h x of None \<Rightarrow> False | Some n \<Rightarrow> next_of n = hd (xs @ [e]) \<and> prev n = p) \<and> dseg h x xs e"

definition ends_ok :: "lqueue \<Rightarrow> ptr list \<Rightarrow> bool" where
  "ends_ok q xs \<longleftrightarrow> q_head q = hd (xs @ [0]) \<and> q_tail q = last (0 # xs)"

definition sq_rep :: "lqueue \<Rightarrow> ptr list \<Rightarrow> bool" where
  "sq_rep q xs \<longleftrightarrow>
     null_ok (nodes q) \<and> distinct xs \<and> ends_ok q xs \<and> sseg (nodes q) xs 0"

definition dq_rep :: "lqueue \<Rightarrow> ptr list \<Rightarrow> bool" where
  "dq_rep q xs \<longleftrightarrow>
     null_ok (nodes q) \<and> distinct xs \<and> ends_ok q xs \<and> dseg (nodes q) 0 xs 0"

definition allocated :: "lqueue \<Rightarrow> ptr list \<Rightarrow> ptr \<Rightarrow> bool" where
  "allocated q xs x \<longleftrightarrow> nodes q x \<noteq> None \<and> x \<notin> set xs"

lemma sseg_append:
  "sseg h (xs @ ys) e \<longleftrightarrow> sseg h xs (hd (ys @ [e])) \<and> sseg h ys e"
  by (induction xs) (auto simp: hd_append split: option.splits)

lemma dseg_append:
  "dseg h p (xs @ ys) e \<longleftrightarrow> dseg h p xs (hd (ys @ [e])) \<and> dseg h (last (p # xs)) ys e"
  by (induction xs arbitrary: p) (auto simp: hd_append split: option.splits)

lemma sseg_fun_upd [simp]: "x \<notin> set xs \<Longrightarrow> sseg (h(x \<mapsto> n)) xs e = sseg h xs e"
  by (induction xs) auto

lemma dseg_fun_upd [simp]: "x \<notin> set xs \<Longrightarrow> dseg (h(x \<mapsto> n)) p xs e = dseg h p xs e"
  by (induction xs arbitrary: p) auto

lemma sseg_allocated: "sseg h xs e \<Longrightarrow> x \<in> set xs \<Longrightarrow> h x \<noteq> None"
  by (induction xs) (auto split: option.splits)

lemma dseg_allocated: "dseg h p xs e \<Longrightarrow> x \<in> set xs \<Longrightarrow> h x \<noteq> None"
  by (induction xs arbitrary: p) (auto split: option.splits)

lemma sq_rep_nonnull: "sq_rep q xs \<Longrightarrow> 0 \<notin> set xs"
  by (auto simp: sq_rep_def null_ok_def dest: sseg_allocated)

lemma dq_rep_nonnull: "dq_rep q xs \<Longrightarrow> 0 \<notin> set xs"
  by (auto simp: dq_rep_def null_ok_def dest: dseg_allocated)

lemma ends_ok_empty: "ends_ok q xs \<Longrightarrow> 0 \<notin> set xs \<Longrightarrow> lq_empty q \<longleftrightarrow> xs = []"
  by (cases xs) (auto simp: ends_ok_def lq_empty_def)

lemma sq_rep_empty: "sq_rep q xs \<Longrightarrow> lq_empty q \<longleftrightarrow> xs = []"
  using sq_rep_nonnull by (auto simp: sq_rep_def ends_ok_empty)

lemma dq_rep_empty: "dq_rep q xs \<Longrightarrow> lq_empty q \<longleftrightarrow> xs = []"
  using dq_rep_nonnull by (auto simp: dq_rep_def ends_ok_empty)

lemmas rep_defs = sq_rep_def dq_rep_def null_ok_def ends_ok_def allocated_def

lemma rep_nonzero: "nodes q x = Some n \<Longrightarrow> nodes q 0 = None \<Longrightarrow> x \<noteq> 0"
  by (metis option.distinct(1))

section \<open>The singly linked queue\<close>

abbreviation sq_after :: "lqueue \<Rightarrow> ptr list \<Rightarrow> lqueue \<Rightarrow> bool" where
  "sq_after q xs q' \<equiv> sq_rep q' xs \<and> dom (nodes q') = dom (nodes q)"

lemma sq_push_rep:
  assumes "sq_rep q xs" "allocated q xs x"
  shows "returns (sq_push q x) (sq_after q (xs @ [x]))"
proof (cases xs rule: rev_cases)
  case Nil
  with assms show ?thesis
    by (auto simp: sq_push_def lq_empty_def rep_defs rep_nonzero)
next
  case (snoc ys t)
  with assms obtain nx nt where n: "nodes q x = Some nx" "nodes q t = Some nt" "t \<noteq> x" "q_tail q = t"
    by (auto simp: rep_defs sseg_append split: option.splits)
  have "nodes q 0 = None" using assms by (simp add: rep_defs)
  with n have x: "x \<noteq> 0" "t \<noteq> 0" using rep_nonzero by blast+
  have "\<not> lq_empty q" using n x by (auto simp: lq_empty_def)
  with assms snoc n x show ?thesis
    by (auto simp: sq_push_def rep_defs sseg_append hd_append split: option.splits)
qed

lemma sq_push_front_rep:
  assumes "sq_rep q xs" "allocated q xs x"
  shows "returns (sq_push_front q x) (sq_after q (x # xs))"
  using assms sq_rep_empty [OF assms(1)]
  by (cases xs) (auto simp: sq_push_front_def rep_defs rep_nonzero split: option.splits)

lemma sq_pop_rep:
  assumes "sq_rep q (x # xs)"
  shows "returns (sq_pop q) (\<lambda>(y, q'). y = x \<and> sq_after q xs q')"
proof -
  from assms obtain n where n: "nodes q x = Some n" "q_head q = x" "next_of n = hd (xs @ [0])"
    by (auto simp: rep_defs split: option.splits)
  show ?thesis using assms n sq_rep_nonnull [OF assms]
    by (cases xs) (auto simp: sq_pop_def rep_defs split: option.splits)
qed

text \<open>Popping an empty queue dereferences the null head.\<close>

lemma sq_pop_empty: "sq_rep q [] \<Longrightarrow> sq_pop q = Undefined"
  by (simp add: sq_pop_def rep_defs)

section \<open>The doubly linked queue\<close>

abbreviation dq_after :: "lqueue \<Rightarrow> ptr list \<Rightarrow> lqueue \<Rightarrow> bool" where
  "dq_after q xs q' \<equiv> dq_rep q' xs \<and> dom (nodes q') = dom (nodes q)"

lemma dq_push_rep:
  assumes "dq_rep q xs" "allocated q xs x"
  shows "returns (dq_push q x) (dq_after q (xs @ [x]))"
proof (cases xs rule: rev_cases)
  case Nil
  with assms show ?thesis
    by (auto simp: dq_push_def lq_empty_def rep_defs rep_nonzero)
next
  case (snoc ys t)
  with assms obtain nx nt where n: "nodes q x = Some nx" "nodes q t = Some nt" "t \<noteq> x" "q_tail q = t"
    by (auto simp: rep_defs dseg_append split: option.splits)
  have "nodes q 0 = None" using assms by (simp add: rep_defs)
  with n have x: "x \<noteq> 0" "t \<noteq> 0" using rep_nonzero by blast+
  have "\<not> lq_empty q" using n x by (auto simp: lq_empty_def)
  with assms snoc n x show ?thesis
    by (auto simp: dq_push_def rep_defs dseg_append hd_append split: option.splits)
qed

lemma dq_push_front_rep:
  assumes "dq_rep q xs" "allocated q xs x"
  shows "returns (dq_push_front q x) (dq_after q (x # xs))"
  using assms dq_rep_empty [OF assms(1)]
  by (cases xs) (auto simp: dq_push_front_def rep_defs rep_nonzero split: option.splits)

lemma dq_pop_rep:
  assumes "dq_rep q (x # xs)"
  shows "returns (dq_pop q) (\<lambda>(y, q'). y = x \<and> dq_after q xs q')"
proof -
  from assms obtain n where n: "nodes q x = Some n" "q_head q = x" "next_of n = hd (xs @ [0])"
    by (auto simp: rep_defs split: option.splits)
  show ?thesis using assms n dq_rep_nonnull [OF assms]
    by (cases xs) (auto simp: dq_pop_def rep_defs split: option.splits)
qed

lemma dq_pop_empty: "dq_rep q [] \<Longrightarrow> dq_pop q = Undefined"
  by (simp add: dq_pop_def rep_defs)

text \<open>
  \<^verbatim>\<open>remove\<close> takes a node out wherever it is, provided it is linked in this queue; the
  node's own pointers are left as they were.
\<close>

lemma dq_remove_rep:
  assumes "dq_rep q (as @ x # bs)"
  shows "returns (dq_remove q x) (dq_after q (as @ bs))"
proof -
  note nz = dq_rep_nonnull [OF assms]
  obtain n where n: "nodes q x = Some n" "next_of n = hd (bs @ [0])" "prev n = last (0 # as)"
    using assms by (auto simp: rep_defs dseg_append split: option.splits)
  consider (one) "as = []" "bs = []" | (first) b bs' where "as = []" "bs = b # bs'"
    | (last) as' a where "as = as' @ [a]" "bs = []"
    | (mid) as' a b bs' where "as = as' @ [a]" "bs = b # bs'"
    by (metis list.exhaust rev_exhaust)
  then show ?thesis
  proof cases
    case one
    with assms show ?thesis by (auto simp: dq_remove_def rep_defs)
  next
    case first
    with assms nz have "q_tail q \<noteq> x" using last_in_set [of bs] by (auto simp: rep_defs)
    with first assms n nz show ?thesis
      by (auto simp: dq_remove_def rep_defs split: option.splits)
  next
    case last
    with assms nz have "q_head q \<noteq> x" by (cases as') (auto simp: rep_defs)
    with last assms n nz show ?thesis
      by (auto simp: dq_remove_def rep_defs dseg_append hd_append split: option.splits)
  next
    case mid
    with assms n nz have "q_head q \<noteq> x" "q_tail q \<noteq> x"
      by (auto simp: rep_defs hd_append split: if_splits)
    with mid assms n nz show ?thesis
      by (auto simp: dq_remove_def rep_defs dseg_append hd_append split: option.splits)
  qed
qed

text \<open>\<^verbatim>\<open>replace\<close> is right between two neighbours.\<close>

lemma dq_replace_rep:
  assumes "dq_rep q (as @ a # x # b # bs)" "allocated q (as @ a # x # b # bs) y"
  shows "returns (dq_replace q x y) (dq_after q (as @ a # y # b # bs))"
proof -
  note nz = dq_rep_nonnull [OF assms(1)]
  obtain n na nb ny where n: "nodes q x = Some n" "next_of n = b" "prev n = a"
    "nodes q a = Some na" "nodes q b = Some nb" "nodes q y = Some ny"
    using assms by (auto simp: rep_defs dseg_append split: option.splits)
  have d: "distinct (as @ a # x # b # bs)" "y \<notin> set (as @ a # x # b # bs)" "y \<noteq> 0"
    using assms n rep_nonzero by (auto simp: rep_defs)
  then show ?thesis using assms(1) n nz
    by (auto simp: dq_replace_def rep_defs dseg_append hd_append split: option.splits)
qed

text \<open>
  At either end it is not: neither \<^verbatim>\<open>head_\<close> nor \<^verbatim>\<open>tail_\<close> is ever moved to the new node, so the
  next \<^verbatim>\<open>pop\<close> still hands out the node that was replaced.
\<close>

lemma dq_replace_head:
  assumes "dq_rep q (x # xs)" "allocated q (x # xs) y"
  shows "returns (dq_replace q x y) (\<lambda>q'. q_head q' = x
     \<and> returns (dq_pop q') (\<lambda>(z, _). z = x))"
proof -
  note nz = dq_rep_nonnull [OF assms(1)]
  obtain n ny where n: "nodes q x = Some n" "next_of n = hd (xs @ [0])" "prev n = 0"
    "nodes q y = Some ny" "q_head q = x" "x \<noteq> y" "y \<notin> set xs"
    using assms by (auto simp: rep_defs split: option.splits)
  show ?thesis using assms(1) n nz
    by (cases xs) (auto simp: dq_replace_def dq_pop_def rep_defs split: option.splits)
qed

section \<open>The contract of a sequential queue\<close>

text \<open>
  A client is a sequence of commands. \<open>run_queue\<close> executes it on an implementation and
  collects what the pops return; \<open>spec_queue\<close> executes it on a list. A client is \<open>legal\<close> when it
  pops only from a non-empty queue and pushes only items it may push: items of \<open>U\<close> and,
  unless \<open>dup\<close>, items that are not in the queue already.
\<close>

datatype 'a qcmd = QPush 'a | QPushFront 'a | QPop

fun run_queue :: "('s \<Rightarrow> 'a \<Rightarrow> 's exec) \<Rightarrow> ('s \<Rightarrow> 'a \<Rightarrow> 's exec) \<Rightarrow> ('s \<Rightarrow> ('a \<times> 's) exec) \<Rightarrow>
    's \<Rightarrow> 'a qcmd list \<Rightarrow> ('a list \<times> 's) exec" where
  "run_queue psh pshf pp s [] = Ret ([], s)"
| "run_queue psh pshf pp s (QPush x # cs) =
     exec_bind (psh s x) (\<lambda>s. run_queue psh pshf pp s cs)"
| "run_queue psh pshf pp s (QPushFront x # cs) =
     exec_bind (pshf s x) (\<lambda>s. run_queue psh pshf pp s cs)"
| "run_queue psh pshf pp s (QPop # cs) =
     exec_bind (pp s) (\<lambda>(x, s). exec_bind (run_queue psh pshf pp s cs) (\<lambda>(xs, s). Ret (x # xs, s)))"

fun spec_queue :: "'a list \<Rightarrow> 'a qcmd list \<Rightarrow> 'a list \<times> 'a list" where
  "spec_queue xs [] = ([], xs)"
| "spec_queue xs (QPush x # cs) = spec_queue (xs @ [x]) cs"
| "spec_queue xs (QPushFront x # cs) = spec_queue (x # xs) cs"
| "spec_queue xs (QPop # cs) = (let (out, ys) = spec_queue (tl xs) cs in (hd xs # out, ys))"

fun legal :: "'a set \<Rightarrow> bool \<Rightarrow> 'a list \<Rightarrow> 'a qcmd list \<Rightarrow> bool" where
  "legal U dup xs [] \<longleftrightarrow> True"
| "legal U dup xs (QPush x # cs) \<longleftrightarrow> x \<in> U \<and> (dup \<or> x \<notin> set xs) \<and> legal U dup (xs @ [x]) cs"
| "legal U dup xs (QPushFront x # cs) \<longleftrightarrow> x \<in> U \<and> (dup \<or> x \<notin> set xs) \<and> legal U dup (x # xs) cs"
| "legal U dup xs (QPop # cs) \<longleftrightarrow> xs \<noteq> [] \<and> legal U dup (tl xs) cs"

locale deque_impl =
  fixes rep :: "'s \<Rightarrow> 'a list \<Rightarrow> bool"
    and U :: "'s \<Rightarrow> 'a set"
    and dup :: bool
    and psh :: "'s \<Rightarrow> 'a \<Rightarrow> 's exec"
    and pshf :: "'s \<Rightarrow> 'a \<Rightarrow> 's exec"
    and pp :: "'s \<Rightarrow> ('a \<times> 's) exec"
    and is_empty :: "'s \<Rightarrow> bool"
  assumes push: "rep s xs \<Longrightarrow> x \<in> U s \<Longrightarrow> dup \<or> x \<notin> set xs \<Longrightarrow>
      returns (psh s x) (\<lambda>s'. rep s' (xs @ [x]) \<and> U s' = U s)"
    and push_front: "rep s xs \<Longrightarrow> x \<in> U s \<Longrightarrow> dup \<or> x \<notin> set xs \<Longrightarrow>
      returns (pshf s x) (\<lambda>s'. rep s' (x # xs) \<and> U s' = U s)"
    and pop: "rep s (x # xs) \<Longrightarrow> returns (pp s) (\<lambda>(y, s'). y = x \<and> rep s' xs \<and> U s' = U s)"
    and pop_empty: "rep s [] \<Longrightarrow> pp s = Undefined"
    and is_empty: "rep s xs \<Longrightarrow> is_empty s \<longleftrightarrow> xs = []"
begin

lemma run_refines:
  "rep s xs \<Longrightarrow> legal (U s) dup xs cs \<Longrightarrow>
   returns (run_queue psh pshf pp s cs)
     (\<lambda>(out, s'). out = fst (spec_queue xs cs) \<and> rep s' (snd (spec_queue xs cs)) \<and> U s' = U s)"
proof (induction xs cs arbitrary: s rule: spec_queue.induct)
  case (2 xs x cs)
  with push [of s xs x] obtain s' where "psh s x = Ret s'" "rep s' (xs @ [x])" "U s' = U s"
    by (auto simp: returns_iff)
  with 2 "2.IH" [of s'] show ?case by auto
next
  case (3 xs x cs)
  with push_front [of s xs x] obtain s' where "pshf s x = Ret s'" "rep s' (x # xs)" "U s' = U s"
    by (auto simp: returns_iff)
  with 3 "3.IH" [of s'] show ?case by auto
next
  case (4 xs cs)
  then obtain y ys where xs: "xs = y # ys" by (cases xs) auto
  from pop [of s y ys] 4 xs obtain s' where s': "pp s = Ret (y, s')" "rep s' ys" "U s' = U s"
    by (auto simp: returns_iff)
  with 4 "4.IH" [of s'] xs show ?case by (auto simp: returns_iff split_def Let_def)
qed simp

lemma pop_safe_iff: "rep s xs \<Longrightarrow> pp s = Undefined \<longleftrightarrow> is_empty s"
proof (cases xs)
  case (Cons y ys)
  assume "rep s xs"
  with Cons pop [of s y ys] is_empty [of s xs] show ?thesis by (auto simp: returns_iff)
qed (auto dest: pop_empty is_empty)

end

interpretation slq: deque_impl sq_rep "\<lambda>q. dom (nodes q)" False sq_push sq_push_front sq_pop lq_empty
proof
  fix s xs x assume "sq_rep s xs" "x \<in> dom (nodes s)" "False \<or> x \<notin> set xs"
  then have "allocated s xs x" by (auto simp: allocated_def)
  with \<open>sq_rep s xs\<close> sq_push_rep sq_push_front_rep
  show "returns (sq_push s x) (sq_after s (xs @ [x]))"
    "returns (sq_push_front s x) (sq_after s (x # xs))" by blast+
qed (auto intro: sq_pop_rep sq_pop_empty simp: sq_rep_empty)

interpretation dlq: deque_impl dq_rep "\<lambda>q. dom (nodes q)" False dq_push dq_push_front dq_pop lq_empty
proof
  fix s xs x assume "dq_rep s xs" "x \<in> dom (nodes s)" "False \<or> x \<notin> set xs"
  then have "allocated s xs x" by (auto simp: allocated_def)
  with \<open>dq_rep s xs\<close> dq_push_rep dq_push_front_rep
  show "returns (dq_push s x) (dq_after s (xs @ [x]))"
    "returns (dq_push_front s x) (dq_after s (x # xs))" by blast+
qed (auto intro: dq_pop_rep dq_pop_empty simp: dq_rep_empty)

interpretation std: deque_impl "(=)" "\<lambda>_. UNIV" True stl_push stl_push_front stl_pop stl_empty
  by unfold_locales (auto simp: stl_push_def stl_push_front_def stl_pop_def stl_front_def stl_empty_def)

lemma mk_lqueue_rep: "null_ok h \<Longrightarrow> sq_rep (mk_lqueue h) [] \<and> dq_rep (mk_lqueue h) []"
  by (simp add: mk_lqueue_def rep_defs)

section \<open>Properties\<close>

text \<open>
  C13. A singly linked queue that starts empty over any heap of nodes behaves, for every
  legal client, as a list: every operation returns, the pops deliver exactly what the list
  delivers, and the chain left in the heap is what remains in the list.
\<close>

theorem slinked_queue_refines_list:
  assumes "null_ok h" "legal (dom h) False [] cs"
  shows "returns (run_queue sq_push sq_push_front sq_pop (mk_lqueue h) cs)
     (\<lambda>(out, q'). out = fst (spec_queue [] cs) \<and> sq_rep q' (snd (spec_queue [] cs)))"
  using assms slq.run_refines [of "mk_lqueue h" "[]" cs] mk_lqueue_rep [of h]
  by (auto simp: mk_lqueue_def elim!: returns_mono)

definition sample_heap :: nheap where
  "sample_heap = (\<lambda>p. if p = 0 \<or> 5 < p then None else Some \<lparr>prev = 9, next_of = 9\<rparr>)"

theorem slinked_queue_refines_list_witness:
  "returns (run_queue sq_push sq_push_front sq_pop (mk_lqueue sample_heap)
      [QPush 3, QPush 1, QPushFront 2, QPop, QPop, QPush 2])
     (\<lambda>(out, q'). out = [2, 3] \<and> sq_rep q' [1, 2])"
  using slinked_queue_refines_list [of sample_heap "[QPush 3, QPush 1, QPushFront 2, QPop, QPop, QPush 2]"]
  by (simp add: null_ok_def sample_heap_def dom_def)

text \<open>
  C12. The doubly linked queue refines the same list: every legal client gets the same
  results, and both the \<open>next\<close> and the \<open>prev\<close> chains are exact afterwards.
\<close>

theorem dlinked_queue_refines_list:
  assumes "null_ok h" "legal (dom h) False [] cs"
  shows "returns (run_queue dq_push dq_push_front dq_pop (mk_lqueue h) cs)
     (\<lambda>(out, q'). out = fst (spec_queue [] cs) \<and> dq_rep q' (snd (spec_queue [] cs)))"
  using assms dlq.run_refines [of "mk_lqueue h" "[]" cs] mk_lqueue_rep [of h]
  by (auto simp: mk_lqueue_def elim!: returns_mono)

theorem dlinked_queue_refines_list_witness:
  "returns (run_queue dq_push dq_push_front dq_pop (mk_lqueue sample_heap)
      [QPush 3, QPush 1, QPushFront 2, QPop, QPop, QPush 2])
     (\<lambda>(out, q'). out = [2, 3] \<and> dq_rep q' [1, 2])"
  using dlinked_queue_refines_list [of sample_heap "[QPush 3, QPush 1, QPushFront 2, QPop, QPop, QPush 2]"]
  by (simp add: null_ok_def sample_heap_def dom_def)

text \<open>
  Removing a node from a doubly linked queue, at the head, at the tail, in the middle
  or alone, leaves exactly the other nodes, in their order.
\<close>

theorem dlinked_remove:
  assumes "dq_rep q xs" "x \<in> set xs"
  shows "returns (dq_remove q x) (\<lambda>q'. dq_rep q' (remove1 x xs))"
proof -
  from assms(2) obtain as bs where xs: "xs = as @ x # bs" "x \<notin> set as" by (meson split_list_first)
  then have "remove1 x xs = as @ bs" by (simp add: remove1_append)
  with dq_remove_rep [of q as x bs] assms(1) xs show ?thesis by (auto elim!: returns_mono)
qed

definition sample_dq :: lqueue where
  "sample_dq = \<lparr>q_head = 1, q_tail = 3, nodes = Map.empty(1 \<mapsto> \<lparr>prev = 0, next_of = 2\<rparr>,
     2 \<mapsto> \<lparr>prev = 1, next_of = 3\<rparr>, 3 \<mapsto> \<lparr>prev = 2, next_of = 0\<rparr>, 4 \<mapsto> \<lparr>prev = 7, next_of = 7\<rparr>)\<rparr>"

lemma sample_dq_rep: "dq_rep sample_dq [1, 2, 3]"
  by (simp add: sample_dq_def rep_defs)

theorem dlinked_remove_witness:
  "returns (dq_remove sample_dq 2) (\<lambda>q'. dq_rep q' [1, 3])"
  using dlinked_remove [of sample_dq "[1, 2, 3]" 2] sample_dq_rep by simp

text \<open>
  \<^verbatim>\<open>replace\<close> substitutes a node that has both neighbours, but at the head it leaves
  \<^verbatim>\<open>head_\<close> on the old node: the next \<^verbatim>\<open>pop\<close> returns the node that was replaced.
\<close>

theorem dlinked_replace:
  assumes "dq_rep q xs" "x \<in> set xs" "nodes q y \<noteq> None" "y \<notin> set xs"
  shows "if x = hd xs
     then returns (dq_replace q x y) (\<lambda>q'. returns (dq_pop q') (\<lambda>(z, _). z = x))
     else x \<noteq> last xs \<longrightarrow> returns (dq_replace q x y) (\<lambda>q'. dq_rep q' (map (\<lambda>z. if z = x then y else z) xs))"
proof (cases "x = hd xs")
  case True
  with assms obtain ys where "xs = x # ys" by (cases xs) auto
  with True dq_replace_head [of q x ys y] assms show ?thesis
    by (auto simp: allocated_def elim!: returns_mono)
next
  case False
  from assms(2) obtain as bs where xs: "xs = as @ x # bs" by (meson split_list)
  with False have "as \<noteq> []" by auto
  then obtain cs a where as: "as = cs @ [a]" by (cases as rule: rev_cases) auto
  show ?thesis
  proof (cases bs)
    case (Cons b ds)
    have "map (\<lambda>z. if z = x then y else z) xs = cs @ a # y # b # ds"
      using assms(1) xs as Cons by (auto simp: dq_rep_def intro!: map_idI)
    with False dq_replace_rep [of q cs a x b ds y] assms xs as Cons show ?thesis
      by (auto simp: allocated_def elim!: returns_mono)
  qed (use False xs in auto)
qed

theorem dlinked_replace_witness:
  "returns (dq_replace sample_dq 1 4) (\<lambda>q'. returns (dq_pop q') (\<lambda>(z, _). z = 1))
   \<and> returns (dq_replace sample_dq 2 4) (\<lambda>q'. dq_rep q' [1, 4, 3])"
  using dlinked_replace [of sample_dq "[1, 2, 3]" 1 4] dlinked_replace [of sample_dq "[1, 2, 3]" 2 4]
    sample_dq_rep by (simp add: sample_dq_def)

end
