(* ===== verification/Blocking_Queue.thy ===== *)
theory Blocking_Queue
  imports Linked_Queue "HOL-Library.Sublist"
begin

text \<open>
  The blocking queues of \<^verbatim>\<open>common/queue.h\<close> (\<^verbatim>\<open>BlockingQueue\<close>, \<^verbatim>\<open>BlockingPriorityQueue\<close>,
  \<^verbatim>\<open>BlockingDLinkedListQueue\<close>, \<^verbatim>\<open>BlockingSLinkedListQueue\<close>, \<^verbatim>\<open>BoundedBlockingQueue\<close>) as monitors:
  threads that interleave at the points where the code takes the mutex, waits on a condition
  or returns. Every method has the same shape, a \<^verbatim>\<open>LockGuard\<close>, a \<^verbatim>\<open>while\<close> loop around \<^verbatim>\<open>wait\<close> or
  \<^verbatim>\<open>timedWait\<close>, and a body that changes the container and notifies; a class is therefore
  given by its loop conditions, its bodies and its notifications, and one step relation
  runs any class; here a critical section is one step, and \<open>Blocking_Steps\<close> shows that runs
  which interleave its statements are among these. The locale \<open>monitor\<close> states what a class owes the step relation, the
  locale \<open>fair_monitor\<close> what it must add for wake-ups never to be lost.
\<close>

section \<open>Monitor classes\<close>

datatype cvar = NotEmpty | NotFull

datatype 'c tpc = Idle | Entering 'c | Critical 'c | Waiting 'c | Woken 'c | TimedOut 'c

text \<open>
  \<open>defined\<close>: the class has the method and the caller keeps its side of the contract (an
  intrusive queue is never given a node it already holds). \<open>blocked\<close>: the condition of the
  \<^verbatim>\<open>while\<close> loop. \<open>body\<close>: the code after the loop. \<open>timed\<close>: the call uses \<^verbatim>\<open>timedWait\<close>.
\<close>

record ('q, 'c, 'r) mclass =
  defined :: "'c \<Rightarrow> 'q \<Rightarrow> bool"
  blocked :: "'c \<Rightarrow> 'q \<Rightarrow> bool"
  body :: "'c \<Rightarrow> 'q \<Rightarrow> ('q \<times> 'r) exec"
  waits_on :: "'c \<Rightarrow> cvar option"
  timed :: "'c \<Rightarrow> bool"
  notifies :: "'c \<Rightarrow> cvar option"

record ('q, 'c, 'r) mstate =
  mutex :: "nat option"
  threads :: "'c tpc list"
  shared :: 'q
  hist :: "(nat \<times> 'c \<times> 'r option) list"

definition waiting_on :: "('q, 'c, 'r) mclass \<Rightarrow> cvar \<Rightarrow> 'c tpc \<Rightarrow> bool" where
  "waiting_on K d p \<longleftrightarrow> (case p of Waiting c \<Rightarrow> waits_on K c = Some d | _ \<Rightarrow> False)"

definition active_on :: "('q, 'c, 'r) mclass \<Rightarrow> cvar \<Rightarrow> 'c tpc \<Rightarrow> bool" where
  "active_on K d p \<longleftrightarrow>
     (case p of Woken c \<Rightarrow> waits_on K c = Some d | Critical c \<Rightarrow> waits_on K c = Some d | _ \<Rightarrow> False)"

lemma waiting_on_simps [simp]:
  "waiting_on K d Idle \<longleftrightarrow> False" "waiting_on K d (Entering c) \<longleftrightarrow> False"
  "waiting_on K d (Critical c) \<longleftrightarrow> False" "waiting_on K d (Waiting c) \<longleftrightarrow> waits_on K c = Some d"
  "waiting_on K d (Woken c) \<longleftrightarrow> False" "waiting_on K d (TimedOut c) \<longleftrightarrow> False"
  by (simp_all add: waiting_on_def)

lemma active_on_simps [simp]:
  "active_on K d Idle \<longleftrightarrow> False" "active_on K d (Entering c) \<longleftrightarrow> False"
  "active_on K d (Critical c) \<longleftrightarrow> waits_on K c = Some d" "active_on K d (Waiting c) \<longleftrightarrow> False"
  "active_on K d (Woken c) \<longleftrightarrow> waits_on K c = Some d" "active_on K d (TimedOut c) \<longleftrightarrow> False"
  by (simp_all add: active_on_def)

text \<open>
  \<^verbatim>\<open>Condition::notify\<close>: \<^verbatim>\<open>pthread_cond_signal\<close> unblocks one of the threads waiting on the
  condition, any of them, and does nothing when there is none.
\<close>

fun signalled :: "('q, 'c, 'r) mclass \<Rightarrow> cvar option \<Rightarrow> 'c tpc list \<Rightarrow> 'c tpc list \<Rightarrow> bool" where
  "signalled K None ths ths' \<longleftrightarrow> ths' = ths"
| "signalled K (Some d) ths ths' \<longleftrightarrow>
     (if \<exists>p\<in>set ths. waiting_on K d p
      then \<exists>w < length ths. \<exists>c. ths ! w = Waiting c \<and> waits_on K c = Some d \<and> ths' = ths[w := Woken c]
      else ths' = ths)"

inductive mstep :: "('q, 'c, 'r) mclass \<Rightarrow> ('q, 'c, 'r) mstate \<Rightarrow> ('q, 'c, 'r) mstate \<Rightarrow> bool"
  for K where
  call: "\<lbrakk>t < length (threads s); threads s ! t = Idle\<rbrakk> \<Longrightarrow>
    mstep K s (s\<lparr>threads := (threads s)[t := Entering c]\<rparr>)"
| lock: "\<lbrakk>t < length (threads s); threads s ! t = Entering c; mutex s = None\<rbrakk> \<Longrightarrow>
    mstep K s (s\<lparr>mutex := Some t, threads := (threads s)[t := Critical c]\<rparr>)"
| run: "\<lbrakk>t < length (threads s); threads s ! t = Critical c; mutex s = Some t;
     defined K c (shared s); \<not> blocked K c (shared s); body K c (shared s) = Ret (q', r);
     signalled K (notifies K c) ((threads s)[t := Idle]) ths'\<rbrakk> \<Longrightarrow>
    mstep K s (s\<lparr>mutex := None, threads := ths', shared := q', hist := hist s @ [(t, c, Some r)]\<rparr>)"
| wait: "\<lbrakk>t < length (threads s); threads s ! t = Critical c; mutex s = Some t;
     blocked K c (shared s)\<rbrakk> \<Longrightarrow>
    mstep K s (s\<lparr>mutex := None, threads := (threads s)[t := Waiting c]\<rparr>)"
| spurious: "\<lbrakk>t < length (threads s); threads s ! t = Waiting c\<rbrakk> \<Longrightarrow>
    mstep K s (s\<lparr>threads := (threads s)[t := Woken c]\<rparr>)"
| timeout: "\<lbrakk>t < length (threads s); threads s ! t = Waiting c; timed K c\<rbrakk> \<Longrightarrow>
    mstep K s (s\<lparr>threads := (threads s)[t := TimedOut c]\<rparr>)"
| relock: "\<lbrakk>t < length (threads s); threads s ! t = Woken c; mutex s = None\<rbrakk> \<Longrightarrow>
    mstep K s (s\<lparr>mutex := Some t, threads := (threads s)[t := Critical c]\<rparr>)"
| give_up: "\<lbrakk>t < length (threads s); threads s ! t = TimedOut c; mutex s = None\<rbrakk> \<Longrightarrow>
    mstep K s (s\<lparr>threads := (threads s)[t := Idle], hist := hist s @ [(t, c, None)]\<rparr>)"

inductive_cases mstepE: "mstep K s s'"

definition minit :: "nat \<Rightarrow> 'q \<Rightarrow> ('q, 'c, 'r) mstate" where
  "minit n q = \<lparr>mutex = None, threads = replicate n Idle, shared = q, hist = []\<rparr>"

abbreviation mreach :: "('q, 'c, 'r) mclass \<Rightarrow> nat \<Rightarrow> 'q \<Rightarrow> ('q, 'c, 'r) mstate \<Rightarrow> bool" where
  "mreach K n q \<equiv> (mstep K)\<^sup>*\<^sup>* (minit n q)"

text \<open>
  The log of a run, executed again by one thread: calls that returned \<^verbatim>\<open>false\<close> had no effect,
  the others must give the logged results.
\<close>

fun replay :: "('q, 'c, 'r) mclass \<Rightarrow> 'q \<Rightarrow> (nat \<times> 'c \<times> 'r option) list \<Rightarrow> 'q exec" where
  "replay K q [] = Ret q"
| "replay K q ((t, c, None) # es) = replay K q es"
| "replay K q ((t, c, Some r) # es) =
     exec_bind (body K c q) (\<lambda>(q', r'). if r' = r then replay K q' es else Fatal)"

text \<open>A thread that will still do something without being woken by another one.\<close>

definition runnable :: "'c tpc \<Rightarrow> bool" where
  "runnable p \<longleftrightarrow> (case p of Idle \<Rightarrow> False | Waiting c \<Rightarrow> False | _ \<Rightarrow> True)"

lemma replay_append:
  "replay K q (es @ fs) = exec_bind (replay K q es) (\<lambda>q'. replay K q' fs)"
proof (induction K q es rule: replay.induct)
  case (3 K q t c r es)
  then show ?case by (cases "body K c q") auto
qed auto

lemma length_filter_update:
  "i < length xs \<Longrightarrow> length (filter P (xs[i := v])) + (if P (xs ! i) then 1 else 0)
     = length (filter P xs) + (if P v then 1 else 0)"
proof (induction xs arbitrary: i)
  case (Cons x xs)
  then show ?case by (cases i) auto
qed simp

section \<open>What every monitor guarantees\<close>

definition mutual_exclusion :: "('q, 'c, 'r) mstate \<Rightarrow> bool" where
  "mutual_exclusion s \<longleftrightarrow>
     (\<forall>t < length (threads s). (\<exists>c. threads s ! t = Critical c) \<longleftrightarrow> mutex s = Some t)"

definition no_lost_wakeup ::
    "('q, 'c, 'r) mclass \<Rightarrow> (cvar \<Rightarrow> 'q \<Rightarrow> nat) \<Rightarrow> ('q, 'c, 'r) mstate \<Rightarrow> bool" where
  "no_lost_wakeup K avail s \<longleftrightarrow>
     (\<forall>d. (\<exists>p\<in>set (threads s). waiting_on K d p) \<longrightarrow>
        avail d (shared s) \<le> length (filter (active_on K d) (threads s)))"

lemma update_wakeup:
  assumes "t < length ths" "(\<exists>p\<in>set ths. W p) \<Longrightarrow> a \<le> length (filter A ths)"
    and "0 < a' \<Longrightarrow> W p' \<Longrightarrow> W (ths ! t)"
    and "a' + (if A (ths ! t) then 1 else 0) \<le> a + (if A p' then 1 else 0) \<or> a' = 0"
    and "\<exists>p\<in>set (ths[t := p']). W p"
  shows "a' \<le> length (filter A (ths[t := p']))"
proof (cases "a' = 0")
  case False
  from assms(5) have "W p' \<or> (\<exists>p\<in>set ths. W p)"
    using set_update_subset_insert [of ths t p'] by auto
  with False assms(1,3) have "\<exists>p\<in>set ths. W p" by auto
  with assms(2) False assms(4) length_filter_update [OF assms(1), of A p'] show ?thesis
    by (auto split: if_splits)
qed simp

lemma signalled_Critical:
  "signalled K n ths ths' \<Longrightarrow> t < length ths \<Longrightarrow>
     length ths' = length ths \<and> ((\<exists>c. ths' ! t = Critical c) \<longleftrightarrow> (\<exists>c. ths ! t = Critical c))"
  by (cases n) (auto simp: nth_list_update split: if_splits)

lemma signalled_length: "signalled K n ths ths' \<Longrightarrow> length ths' = length ths"
  by (cases n) (auto split: if_splits)

lemma mutual_exclusion_step: "mstep K s s' \<Longrightarrow> mutual_exclusion s \<Longrightarrow> mutual_exclusion s'"
proof (induction rule: mstep.induct)
  case (run t s c q' r ths')
  then show ?case
    using signalled_length [OF run.hyps(7)] signalled_Critical [OF run.hyps(7)]
    by (auto simp: mutual_exclusion_def nth_list_update) 
qed (auto simp: mutual_exclusion_def nth_list_update split: if_splits)

lemma replay_step:
  "mstep K s s' \<Longrightarrow> replay K q0 (hist s) = Ret (shared s) \<Longrightarrow> replay K q0 (hist s') = Ret (shared s')"
  by (induction rule: mstep.induct) (auto simp: replay_append)

lemma reach_mutual_exclusion: "mreach K n q0 s \<Longrightarrow> mutual_exclusion s"
  by (induction rule: rtranclp_induct)
     (auto simp: minit_def mutual_exclusion_def dest: mutual_exclusion_step [unfolded mutual_exclusion_def])

lemma reach_replay: "mreach K n q0 s \<Longrightarrow> replay K q0 (hist s) = Ret (shared s)"
  by (induction rule: rtranclp_induct) (auto simp: minit_def intro: replay_step)

locale monitor =
  fixes K :: "('q, 'c, 'r) mclass"
    and qinv :: "'q \<Rightarrow> bool"
    and avail :: "cvar \<Rightarrow> 'q \<Rightarrow> nat"
  assumes body_ok: "qinv q \<Longrightarrow> defined K c q \<Longrightarrow> \<not> blocked K c q \<Longrightarrow>
      returns (body K c q) (\<lambda>(q', r). qinv q'
        \<and> (\<forall>d. avail d q' \<le> avail d q + (if notifies K c = Some d then 1 else 0)))"
    and blocked_iff: "qinv q \<Longrightarrow> blocked K c q \<longleftrightarrow> (\<exists>d. waits_on K c = Some d \<and> avail d q = 0)"
begin

lemma reach_inv: "mreach K n q0 s \<Longrightarrow> qinv q0 \<Longrightarrow> qinv (shared s)"
proof (induction rule: rtranclp_induct)
  case (step s s')
  from step(2) step.IH [OF step.prems] show ?case
    by (induction rule: mstep.induct) (use body_ok in \<open>fastforce simp: returns_iff\<close>)+
qed (simp add: minit_def)

lemma body_safe:
  "mreach K n q0 s \<Longrightarrow> qinv q0 \<Longrightarrow> defined K c (shared s) \<Longrightarrow> \<not> blocked K c (shared s) \<Longrightarrow>
   \<exists>q' r. body K c (shared s) = Ret (q', r)"
  using body_ok [OF reach_inv] by (fastforce simp: returns_iff)

end

text \<open>A call that had to wait for a condition uses up what it waited for.\<close>

locale fair_monitor = monitor K qinv avail
  for K :: "('q, 'c, 'r) mclass" and qinv avail +
  assumes consumes: "qinv q \<Longrightarrow> defined K c q \<Longrightarrow> waits_on K c = Some d \<Longrightarrow>
      body K c q = Ret (q', r) \<Longrightarrow> 0 < avail d q \<Longrightarrow> avail d q' < avail d q"
begin

lemma wakeup_run:
  assumes inv: "qinv q" "defined K c q" "\<not> blocked K c q" "body K c q = Ret (q', r)"
    and t: "t < length ths" "ths ! t = Critical c"
    and sig: "signalled K (notifies K c) (ths[t := Idle]) ths'"
    and IH: "(\<exists>p\<in>set ths. waiting_on K d p) \<Longrightarrow> avail d q \<le> length (filter (active_on K d) ths)"
    and W: "\<exists>p\<in>set ths'. waiting_on K d p"
  shows "avail d q' \<le> length (filter (active_on K d) ths')"
proof -
  define own where "own = (if waits_on K c = Some d then 1 else (0::nat))"
  define sent where "sent = (if notifies K c = Some d \<and> waits_on K c \<noteq> Some d then 1 else (0::nat))"
  define mid where "mid = ths[t := Idle]"
  have own: "own \<le> avail d q"
    using blocked_iff [OF inv(1), of c] inv(3) by (auto simp: own_def)
  have le: "avail d q' \<le> avail d q - own + sent"
    using body_ok [OF inv(1-3)] consumes [OF inv(1,2) _ inv(4), of d] inv(4) own
    by (auto simp: own_def sent_def split: if_splits)
  have mid: "avail d q - own \<le> length (filter (active_on K d) mid)"
    if "\<exists>p\<in>set mid. waiting_on K d p"
    unfolding mid_def
    using own that t by (intro update_wakeup [OF t(1) IH]) (auto simp: mid_def own_def)
  show ?thesis
  proof (cases "notifies K c")
    case None
    with sig W mid le show ?thesis by (auto simp: mid_def sent_def)
  next
    case (Some e)
    show ?thesis
    proof (cases "\<exists>p\<in>set mid. waiting_on K e p")
      case True
      with sig Some obtain w c' where w: "w < length mid" "mid ! w = Waiting c'" "waits_on K c' = Some e"
        and ths': "ths' = mid[w := Woken c']" by (auto simp: mid_def)
      show ?thesis unfolding ths'
        using w le W ths' Some by (intro update_wakeup [OF w(1) mid])
          (auto simp: sent_def split: if_splits)
    next
      case False
      with sig Some have "ths' = mid" by (auto simp: mid_def)
      with W False Some have "e \<noteq> d" by auto
      with \<open>ths' = mid\<close> W mid le Some show ?thesis by (auto simp: sent_def)
    qed
  qed
qed

lemma wakeup_step:
  assumes "mstep K s s'" "qinv (shared s)" "no_lost_wakeup K avail s"
  shows "no_lost_wakeup K avail s'"
  unfolding no_lost_wakeup_def
proof (intro allI impI)
  fix d
  assume W: "\<exists>p\<in>set (threads s'). waiting_on K d p"
  have IH: "(\<exists>p\<in>set (threads s). waiting_on K d p) \<Longrightarrow>
      avail d (shared s) \<le> length (filter (active_on K d) (threads s))"
    using assms(3) by (auto simp: no_lost_wakeup_def)
  from assms(1) show "avail d (shared s') \<le> length (filter (active_on K d) (threads s'))"
  proof cases
    case (run t c q' r ths')
    with wakeup_run [OF assms(2), of c q' r t "threads s" ths' d] IH W show ?thesis by auto
  next
    case (wait t c)
    have "waits_on K c = Some d \<Longrightarrow> avail d (shared s) = 0"
      using blocked_iff [OF assms(2), of c] wait by auto
    with wait W IH show ?thesis
      by (auto intro!: update_wakeup [where W = "waiting_on K d" and a = "avail d (shared s)"])
  qed (use W IH in \<open>auto intro!: update_wakeup [where W = "waiting_on K d" and a = "avail d (shared s)"]\<close>)
qed

lemma reach_no_lost_wakeup:
  "mreach K n q0 s \<Longrightarrow> qinv q0 \<Longrightarrow> no_lost_wakeup K avail s"
proof (induction rule: rtranclp_induct)
  case (step s s')
  then show ?case using wakeup_step reach_inv by blast
qed (auto simp: minit_def no_lost_wakeup_def)

text \<open>When nothing is left to run, a thread that still waits has nothing to take.\<close>

lemma quiescent:
  assumes "mreach K n q0 s" "qinv q0" "\<forall>p\<in>set (threads s). \<not> runnable p"
    and "Waiting c \<in> set (threads s)" "waits_on K c = Some d"
  shows "avail d (shared s) = 0"
proof -
  have "filter (active_on K d) (threads s) = []"
    using assms(3) by (auto simp: filter_empty_conv active_on_def runnable_def split: tpc.splits)
  moreover have "\<exists>p\<in>set (threads s). waiting_on K d p" using assms(4,5) by force
  ultimately show ?thesis using reach_no_lost_wakeup [OF assms(1,2)] by (auto simp: no_lost_wakeup_def)
qed

end

section \<open>The classes\<close>

text \<open>
  The methods of the five classes. A call carries its \<^verbatim>\<open>wait_ms\<close> where the method has one; \<open>-1\<close>
  waits without a deadline. \<open>RValue v\<close>: the call returned \<^verbatim>\<open>true\<close> with \<open>v\<close> stored through its out
  parameter.
\<close>

datatype 'a qcall = CPush 'a | CPushFront 'a | CPop int | CTop int | CPushW 'a int
  | CPushFrontW 'a int | CSize | CClear | CReplace 'a 'a | CRemove 'a

datatype 'a qres = RVoid | RTrue | RValue 'a | RSize nat

definition pops :: "'a qcall \<Rightarrow> bool" where
  "pops c \<longleftrightarrow> (case c of CPop _ \<Rightarrow> True | CTop _ \<Rightarrow> True | _ \<Rightarrow> False)"

definition call_timed :: "'a qcall \<Rightarrow> bool" where
  "call_timed c = (case c of CPop ms \<Rightarrow> ms \<noteq> - 1 | CTop ms \<Rightarrow> ms \<noteq> - 1 | CPushW _ ms \<Rightarrow> ms \<noteq> - 1
     | CPushFrontW _ ms \<Rightarrow> ms \<noteq> - 1 | _ \<Rightarrow> False)"

definition push_notifies :: "'a qcall \<Rightarrow> cvar option" where
  "push_notifies c = (case c of CPush _ \<Rightarrow> Some NotEmpty | CPushFront _ \<Rightarrow> Some NotEmpty | _ \<Rightarrow> None)"

subsection \<open>BlockingQueue\<close>

definition bq_push :: "'a \<Rightarrow> 'a list \<Rightarrow> ('a list \<times> 'a qres) exec" where
  "bq_push x q = Ret (q @ [x], RVoid)"

definition bq_push_front :: "'a \<Rightarrow> 'a list \<Rightarrow> ('a list \<times> 'a qres) exec" where
  "bq_push_front x q = Ret (x # q, RVoid)"

definition bq_pop :: "'a list \<Rightarrow> ('a list \<times> 'a qres) exec" where
  "bq_pop q = exec_bind (exec_assert (q \<noteq> [])) (\<lambda>_.
     exec_bind (stl_front q) (\<lambda>v. Ret (tl q, RValue v)))"

definition bq_size :: "'a list \<Rightarrow> ('a list \<times> 'a qres) exec" where
  "bq_size q = Ret (q, RSize (length q))"

definition bq_class :: "('a list, 'a qcall, 'a qres) mclass" where
  "bq_class = \<lparr>
     defined = (\<lambda>c q. case c of CPush _ \<Rightarrow> True | CPushFront _ \<Rightarrow> True | CPop _ \<Rightarrow> True | CSize \<Rightarrow> True
        | _ \<Rightarrow> False),
     blocked = (\<lambda>c q. pops c \<and> q = []),
     body = (\<lambda>c q. case c of CPush x \<Rightarrow> bq_push x q | CPushFront x \<Rightarrow> bq_push_front x q
        | CPop _ \<Rightarrow> bq_pop q | CSize \<Rightarrow> bq_size q | _ \<Rightarrow> Undefined),
     waits_on = (\<lambda>c. if pops c then Some NotEmpty else None),
     timed = call_timed,
     notifies = push_notifies\<rparr>"

subsection \<open>BlockingPriorityQueue\<close>

definition bpq_push :: "'a::linorder \<Rightarrow> 'a list \<Rightarrow> ('a list \<times> 'a qres) exec" where
  "bpq_push x q = exec_bind (pq_push q x) (\<lambda>q. Ret (q, RVoid))"

definition bpq_pop :: "'a::linorder list \<Rightarrow> ('a list \<times> 'a qres) exec" where
  "bpq_pop q = exec_bind (exec_assert (q \<noteq> [])) (\<lambda>_.
     exec_bind (pq_pop q) (\<lambda>(v, q). Ret (q, RValue v)))"

definition bpq_top :: "'a::linorder list \<Rightarrow> ('a list \<times> 'a qres) exec" where
  "bpq_top q = exec_bind (exec_assert (q \<noteq> [])) (\<lambda>_.
     exec_bind (stl_front q) (\<lambda>v. Ret (q, RValue v)))"

definition bpq_class :: "('a::linorder list, 'a qcall, 'a qres) mclass" where
  "bpq_class = \<lparr>
     defined = (\<lambda>c q. case c of CPush _ \<Rightarrow> True | CPop _ \<Rightarrow> True | CTop _ \<Rightarrow> True | CSize \<Rightarrow> True
        | _ \<Rightarrow> False),
     blocked = (\<lambda>c q. pops c \<and> q = []),
     body = (\<lambda>c q. case c of CPush x \<Rightarrow> bpq_push x q | CPop _ \<Rightarrow> bpq_pop q | CTop _ \<Rightarrow> bpq_top q
        | CSize \<Rightarrow> bq_size q | _ \<Rightarrow> Undefined),
     waits_on = (\<lambda>c. if pops c then Some NotEmpty else None),
     timed = call_timed,
     notifies = push_notifies\<rparr>"

subsection \<open>BoundedBlockingQueue\<close>

text \<open>The constructor stores its \<^verbatim>\<open>int\<close> argument in a \<^verbatim>\<open>size_t\<close>.\<close>

definition bbq_limit :: "int \<Rightarrow> nat" where
  "bbq_limit max_size = nat (max_size mod 2 ^ 64)"

definition bbq_push :: "nat \<Rightarrow> 'a \<Rightarrow> 'a list \<Rightarrow> ('a list \<times> 'a qres) exec" where
  "bbq_push limit x q = exec_bind (exec_assert (length q \<noteq> limit)) (\<lambda>_. Ret (q @ [x], RTrue))"

definition bbq_push_front :: "nat \<Rightarrow> 'a \<Rightarrow> 'a list \<Rightarrow> ('a list \<times> 'a qres) exec" where
  "bbq_push_front limit x q = exec_bind (exec_assert (length q \<noteq> limit)) (\<lambda>_. Ret (x # q, RTrue))"

definition bbq_pushes :: "'a qcall \<Rightarrow> bool" where
  "bbq_pushes c \<longleftrightarrow> (case c of CPushW _ _ \<Rightarrow> True | CPushFrontW _ _ \<Rightarrow> True | _ \<Rightarrow> False)"

definition bbq_class :: "nat \<Rightarrow> ('a list, 'a qcall, 'a qres) mclass" where
  "bbq_class limit = \<lparr>
     defined = (\<lambda>c q. case c of CPushW _ _ \<Rightarrow> True | CPushFrontW _ _ \<Rightarrow> True | CPop _ \<Rightarrow> True
        | CSize \<Rightarrow> True | _ \<Rightarrow> False),
     blocked = (\<lambda>c q. if bbq_pushes c then length q = limit else pops c \<and> q = []),
     body = (\<lambda>c q. case c of CPushW x _ \<Rightarrow> bbq_push limit x q
        | CPushFrontW x _ \<Rightarrow> bbq_push_front limit x q | CPop _ \<Rightarrow> bq_pop q | CSize \<Rightarrow> bq_size q
        | _ \<Rightarrow> Undefined),
     waits_on = (\<lambda>c. if bbq_pushes c then Some NotFull else if pops c then Some NotEmpty else None),
     timed = call_timed,
     notifies = (\<lambda>c. if bbq_pushes c then Some NotEmpty else if pops c then Some NotFull else None)\<rparr>"

subsection \<open>BlockingSLinkedListQueue and BlockingDLinkedListQueue\<close>

text \<open>
  The bodies repeat the code of the sequential linked queues. Callers push a node of the
  heap that is not in the queue, remove a node that is, and replace a queued node by one that
  is not queued.
\<close>

definition lq_result :: "lqueue exec \<Rightarrow> (lqueue \<times> ptr qres) exec" where
  "lq_result m = exec_bind m (\<lambda>q. Ret (q, RVoid))"

definition lq_pop_result :: "bool \<Rightarrow> (ptr \<times> lqueue) exec \<Rightarrow> (lqueue \<times> ptr qres) exec" where
  "lq_pop_result ne m = exec_bind (exec_assert ne) (\<lambda>_. exec_bind m (\<lambda>(x, q). Ret (q, RValue x)))"

definition bsq_class :: "(lqueue, ptr qcall, ptr qres) mclass" where
  "bsq_class = \<lparr>
     defined = (\<lambda>c q. case c of CPush x \<Rightarrow> \<exists>xs. sq_rep q xs \<and> allocated q xs x
        | CPushFront x \<Rightarrow> \<exists>xs. sq_rep q xs \<and> allocated q xs x
        | CPop _ \<Rightarrow> True | CClear \<Rightarrow> True | _ \<Rightarrow> False),
     blocked = (\<lambda>c q. pops c \<and> lq_empty q),
     body = (\<lambda>c q. case c of CPush x \<Rightarrow> lq_result (sq_push q x)
        | CPushFront x \<Rightarrow> lq_result (sq_push_front q x)
        | CPop _ \<Rightarrow> lq_pop_result (\<not> lq_empty q) (sq_pop q)
        | CClear \<Rightarrow> (let (v, q) = lq_clear q in Ret (q, RValue v)) | _ \<Rightarrow> Undefined),
     waits_on = (\<lambda>c. if pops c then Some NotEmpty else None),
     timed = call_timed,
     notifies = push_notifies\<rparr>"

definition bdq_class :: "(lqueue, ptr qcall, ptr qres) mclass" where
  "bdq_class = \<lparr>
     defined = (\<lambda>c q. case c of CPush x \<Rightarrow> \<exists>xs. dq_rep q xs \<and> allocated q xs x
        | CPushFront x \<Rightarrow> \<exists>xs. dq_rep q xs \<and> allocated q xs x
        | CReplace x y \<Rightarrow> \<exists>xs. dq_rep q xs \<and> x \<in> set xs \<and> allocated q xs y
        | CRemove x \<Rightarrow> \<exists>xs. dq_rep q xs \<and> x \<in> set xs
        | CPop _ \<Rightarrow> True | CClear \<Rightarrow> True | _ \<Rightarrow> False),
     blocked = (\<lambda>c q. pops c \<and> lq_empty q),
     body = (\<lambda>c q. case c of CPush x \<Rightarrow> lq_result (dq_push q x)
        | CPushFront x \<Rightarrow> lq_result (dq_push_front q x)
        | CReplace x y \<Rightarrow> lq_result (dq_replace q x y)
        | CRemove x \<Rightarrow> lq_result (dq_remove q x)
        | CPop _ \<Rightarrow> lq_pop_result (\<not> lq_empty q) (dq_pop q)
        | CClear \<Rightarrow> (let (v, q) = lq_clear q in Ret (q, RValue v)) | _ \<Rightarrow> Undefined),
     waits_on = (\<lambda>c. if pops c then Some NotEmpty else None),
     timed = call_timed,
     notifies = push_notifies\<rparr>"

text \<open>
  \<^verbatim>\<open>replace\<close> does not look at \<^verbatim>\<open>head_\<close> and \<^verbatim>\<open>tail_\<close>. The clients that call it only for nodes that are
  at neither end, as a restriction of a class to their calls:
\<close>

definition inner_replaces :: "(lqueue, ptr qcall, 'r) mclass \<Rightarrow> (lqueue, ptr qcall, 'r) mclass" where
  "inner_replaces K = K\<lparr>defined := (\<lambda>c q. defined K c q \<and>
     (case c of CReplace x _ \<Rightarrow> x \<noteq> q_head q \<and> x \<noteq> q_tail q | _ \<Rightarrow> True))\<rparr>"

lemma inner_replaces_simps [simp]:
  "blocked (inner_replaces K) = blocked K" "body (inner_replaces K) = body K"
  "waits_on (inner_replaces K) = waits_on K" "timed (inner_replaces K) = timed K"
  "notifies (inner_replaces K) = notifies K"
  by (simp_all add: inner_replaces_def)

lemmas class_defs = pops_def push_notifies_def call_timed_def bbq_pushes_def
lemmas body_defs = bq_push_def bq_push_front_def bq_pop_def bq_size_def bpq_push_def bpq_pop_def
  bpq_top_def bbq_push_def bbq_push_front_def stl_front_def pq_push_def pq_pop_def
  lq_result_def lq_pop_result_def lq_clear_def

section \<open>The classes are monitors\<close>

definition items :: "nat \<Rightarrow> cvar \<Rightarrow> nat" where
  "items n d = (case d of NotEmpty \<Rightarrow> n | NotFull \<Rightarrow> 0)"

lemma items_simps [simp]: "items n NotEmpty = n" "items n NotFull = 0"
  by (simp_all add: items_def)

lemma cvar_all: "(\<forall>d. P d) \<longleftrightarrow> P NotEmpty \<and> P NotFull"
  by (metis cvar.exhaust)

interpretation bq: fair_monitor bq_class "\<lambda>_. True" "\<lambda>d q. items (length q) d"
  by unfold_locales
     (auto simp: bq_class_def class_defs body_defs cvar_all split: qcall.splits if_splits list.splits)

interpretation bpq: monitor bpq_class "\<lambda>q. sorted (rev q)" "\<lambda>d q. items (length q) d"
  by unfold_locales
     (auto simp: bpq_class_def class_defs body_defs cvar_all sorted_insort sorted_append
        split: qcall.splits if_splits list.splits)

interpretation bbq: fair_monitor "bbq_class limit" "\<lambda>q. length q \<le> limit"
    "\<lambda>d q. case d of NotEmpty \<Rightarrow> length q | NotFull \<Rightarrow> limit - length q"
  by unfold_locales
     (auto simp: bbq_class_def class_defs body_defs cvar_all exec_assert_def
        split: qcall.splits if_splits list.splits)

subsection \<open>The linked queues\<close>

lemma sseg_unique:
  "sseg h xs 0 \<Longrightarrow> sseg h ys 0 \<Longrightarrow> 0 \<notin> set xs \<Longrightarrow> 0 \<notin> set ys \<Longrightarrow> hd (xs @ [0]) = hd (ys @ [0]) \<Longrightarrow> xs = ys"
proof (induction xs arbitrary: ys)
  case Nil
  then show ?case by (cases ys) auto
next
  case (Cons x xs)
  then show ?case by (cases ys) (auto split: option.splits)
qed

lemma dseg_sseg: "dseg h p xs e \<Longrightarrow> sseg h xs e"
  by (induction xs arbitrary: p) (auto split: option.splits)

lemma dq_rep_sq_rep: "dq_rep q xs \<Longrightarrow> sq_rep q xs"
  by (auto simp: dq_rep_def sq_rep_def dest: dseg_sseg)

lemma sq_rep_unique: "sq_rep q xs \<Longrightarrow> sq_rep q ys \<Longrightarrow> xs = ys"
  using sseg_unique [of "nodes q" xs ys] sq_rep_nonnull [of q xs] sq_rep_nonnull [of q ys]
  by (auto simp: sq_rep_def ends_ok_def)

text \<open>The number of nodes of the chain that starts at the head.\<close>

definition chain_length :: "lqueue \<Rightarrow> nat" where
  "chain_length q = (THE n. \<exists>xs. sq_rep q xs \<and> n = length xs)"

lemma chain_length: "sq_rep q xs \<Longrightarrow> chain_length q = length xs"
  by (auto simp: chain_length_def dest: sq_rep_unique)

lemma chain_length_dq: "dq_rep q xs \<Longrightarrow> chain_length q = length xs"
  by (simp add: chain_length dq_rep_sq_rep)

lemma lq_clear_rep:
  "sq_rep q xs \<Longrightarrow> sq_rep (q\<lparr>q_head := 0, q_tail := 0\<rparr>) []"
  "dq_rep q xs \<Longrightarrow> dq_rep (q\<lparr>q_head := 0, q_tail := 0\<rparr>) []"
  by (simp_all add: rep_defs)

text \<open>
  The representation of a linked queue, with the number of queued nodes before and after a
  body: the shape in which the monitor laws follow.
\<close>

lemma lq_result_mono:
  "returns m (\<lambda>q'. R q' \<and> D q') \<Longrightarrow> (\<And>q'. R q' \<Longrightarrow> Q (q', RVoid)) \<Longrightarrow> returns (lq_result m) Q"
  by (auto simp: lq_result_def elim!: returns_mono)

lemma bsq_body:
  assumes "sq_rep q xs" "defined bsq_class c q" "\<not> blocked bsq_class c q"
  shows "returns (body bsq_class c q) (\<lambda>(q', r). \<exists>ys. sq_rep q' ys \<and>
     length ys + (if pops c then 1 else 0) \<le> length xs + (if push_notifies c = Some NotEmpty then 1 else 0))"
proof (cases c)
  case (CPush x)
  with assms have "allocated q xs x" by (auto simp: bsq_class_def dest: sq_rep_unique)
  from sq_push_rep [OF assms(1) this] CPush show ?thesis
    by (auto simp: bsq_class_def class_defs intro!: exI [of _ "xs @ [x]"] elim!: lq_result_mono)
next
  case (CPushFront x)
  with assms have "allocated q xs x" by (auto simp: bsq_class_def dest: sq_rep_unique)
  from sq_push_front_rep [OF assms(1) this] CPushFront show ?thesis
    by (auto simp: bsq_class_def class_defs intro!: exI [of _ "x # xs"] elim!: lq_result_mono)
next
  case (CPop ms)
  with assms obtain y ys where "xs = y # ys"
    using sq_rep_empty [OF assms(1)] by (cases xs) (auto simp: bsq_class_def class_defs)
  with CPop assms sq_pop_rep [of q y ys] show ?thesis
    by (auto simp: bsq_class_def class_defs lq_pop_result_def returns_iff)
next
  case CClear
  with assms show ?thesis
    by (auto simp: bsq_class_def class_defs lq_clear_def intro!: exI [of _ "[]"] dest: lq_clear_rep)
qed (use assms in \<open>auto simp: bsq_class_def\<close>)

lemma inner_split:
  assumes "dq_rep q xs" "x \<in> set xs" "x \<noteq> q_head q" "x \<noteq> q_tail q"
  shows "\<exists>as a b bs. xs = as @ a # x # b # bs"
proof -
  obtain us vs where xs: "xs = us @ x # vs" using assms(2) by (meson split_list)
  have "us \<noteq> []" using assms(1,3) xs by (auto simp: rep_defs)
  moreover have "vs \<noteq> []" using assms(1,4) xs by (auto simp: rep_defs)
  ultimately show ?thesis using xs by (metis append.assoc append_Cons append_Nil neq_Nil_conv rev_exhaust)
qed

lemma bdq_body:
  assumes "dq_rep q xs" "defined (inner_replaces bdq_class) c q" "\<not> blocked bdq_class c q"
  shows "returns (body bdq_class c q) (\<lambda>(q', r). \<exists>ys. dq_rep q' ys \<and>
     length ys + (if pops c then 1 else 0) \<le> length xs + (if push_notifies c = Some NotEmpty then 1 else 0))"
proof (cases c)
  case (CPush x)
  with assms have "allocated q xs x" by (auto simp: bdq_class_def inner_replaces_def dest: sq_rep_unique dq_rep_sq_rep)
  from dq_push_rep [OF assms(1) this] CPush show ?thesis
    by (auto simp: bdq_class_def class_defs intro!: exI [of _ "xs @ [x]"] elim!: lq_result_mono)
next
  case (CPushFront x)
  with assms have "allocated q xs x" by (auto simp: bdq_class_def inner_replaces_def dest: sq_rep_unique dq_rep_sq_rep)
  from dq_push_front_rep [OF assms(1) this] CPushFront show ?thesis
    by (auto simp: bdq_class_def class_defs intro!: exI [of _ "x # xs"] elim!: lq_result_mono)
next
  case (CReplace x y)
  with assms have y: "x \<in> set xs" "allocated q xs y" and e: "x \<noteq> q_head q" "x \<noteq> q_tail q"
    by (auto simp: bdq_class_def inner_replaces_def dest: sq_rep_unique dq_rep_sq_rep)
  from inner_split [OF assms(1) y(1) e] obtain as a b bs where xs: "xs = as @ a # x # b # bs" by blast
  with dq_replace_rep [of q as a x b bs y] assms(1) y CReplace show ?thesis
    by (auto simp: bdq_class_def class_defs intro!: exI [of _ "as @ a # y # b # bs"] elim!: lq_result_mono)
next
  case (CRemove x)
  with assms have "x \<in> set xs" by (auto simp: bdq_class_def inner_replaces_def dest: sq_rep_unique dq_rep_sq_rep)
  then obtain as bs where xs: "xs = as @ x # bs" by (meson split_list)
  with dq_remove_rep [of q as x bs] CRemove assms(1) show ?thesis
    by (auto simp: bdq_class_def class_defs intro!: exI [of _ "as @ bs"] elim!: lq_result_mono)
next
  case (CPop ms)
  with assms obtain y ys where "xs = y # ys"
    using dq_rep_empty [OF assms(1)] by (cases xs) (auto simp: bdq_class_def class_defs)
  with CPop assms dq_pop_rep [of q y ys] show ?thesis
    by (auto simp: bdq_class_def class_defs lq_pop_result_def returns_iff)
next
  case CClear
  with assms show ?thesis
    by (auto simp: bdq_class_def class_defs lq_clear_def intro!: exI [of _ "[]"] dest: lq_clear_rep)
qed (use assms in \<open>auto simp: bdq_class_def inner_replaces_def\<close>)

interpretation bsq: fair_monitor bsq_class "\<lambda>q. \<exists>xs. sq_rep q xs" "\<lambda>d q. items (chain_length q) d"
proof
  fix q c assume "\<exists>xs. sq_rep q xs" and d: "defined bsq_class c q" "\<not> blocked bsq_class c q"
  then obtain xs where xs: "sq_rep q xs" by blast
  from bsq_body [OF xs d] show "returns (body bsq_class c q) (\<lambda>(q', r). (\<exists>xs. sq_rep q' xs) \<and>
      (\<forall>d. items (chain_length q') d \<le> items (chain_length q) d + (if notifies bsq_class c = Some d then 1 else 0)))"
    by (rule returns_mono)
       (auto simp: chain_length [OF xs] cvar_all bsq_class_def chain_length split: if_splits)
next
  fix q c d q' r assume "\<exists>xs. sq_rep q xs" and d: "defined bsq_class c q" "waits_on bsq_class c = Some d"
    and b: "body bsq_class c q = Ret (q', r)" and a: "0 < items (chain_length q) d"
  then obtain xs where xs: "sq_rep q xs" by blast
  have p: "pops c" "d = NotEmpty" using d by (auto simp: bsq_class_def split: if_splits)
  have "\<not> blocked bsq_class c q"
    using a p sq_rep_empty [OF xs] by (auto simp: bsq_class_def chain_length [OF xs])
  from bsq_body [OF xs d(1) this] b p a show "items (chain_length q') d < items (chain_length q) d"
    by (auto simp: chain_length [OF xs] chain_length class_defs split: qcall.splits)
qed (auto simp: bsq_class_def chain_length sq_rep_empty)

interpretation bdq: fair_monitor "inner_replaces bdq_class" "\<lambda>q. \<exists>xs. dq_rep q xs" "\<lambda>d q. items (chain_length q) d"
proof
  fix q c assume "\<exists>xs. dq_rep q xs" and d: "defined (inner_replaces bdq_class) c q" "\<not> blocked (inner_replaces bdq_class) c q"
  then obtain xs where xs: "dq_rep q xs" by blast
  from bdq_body [OF xs d [simplified inner_replaces_simps]] show "returns (body (inner_replaces bdq_class) c q) (\<lambda>(q', r). (\<exists>xs. dq_rep q' xs) \<and>
      (\<forall>d. items (chain_length q') d \<le> items (chain_length q) d + (if notifies (inner_replaces bdq_class) c = Some d then 1 else 0)))"
    unfolding inner_replaces_simps by (rule returns_mono)
       (auto simp: chain_length_dq [OF xs] cvar_all bdq_class_def chain_length_dq split: if_splits)
next
  fix q c d q' r assume "\<exists>xs. dq_rep q xs" and d: "defined (inner_replaces bdq_class) c q" "waits_on (inner_replaces bdq_class) c = Some d"
    and b: "body (inner_replaces bdq_class) c q = Ret (q', r)" and a: "0 < items (chain_length q) d"
  then obtain xs where xs: "dq_rep q xs" by blast
  have p: "pops c" "d = NotEmpty" using d by (auto simp: bdq_class_def split: if_splits)
  have "\<not> blocked bdq_class c q"
    using a p dq_rep_empty [OF xs] by (auto simp: bdq_class_def chain_length_dq [OF xs])
  from bdq_body [OF xs d(1) this] b p a show "items (chain_length q') d < items (chain_length q) d"
    by (auto simp: chain_length_dq [OF xs] chain_length_dq class_defs split: qcall.splits)
qed (auto simp: bdq_class_def chain_length_dq dq_rep_empty)

section \<open>Schedules\<close>

text \<open>Steps of a run written out, for concrete schedules.\<close>

abbreviation mst :: "nat option \<Rightarrow> 'c tpc list \<Rightarrow> 'q \<Rightarrow> (nat \<times> 'c \<times> 'r option) list \<Rightarrow> ('q, 'c, 'r) mstate" where
  "mst m ths q h \<equiv> \<lparr>mutex = m, threads = ths, shared = q, hist = h\<rparr>"

lemma reach_start: "mreach K n q0 (mst None (replicate n Idle) q0 [])"
  by (simp add: minit_def)

lemma reach_enter:
  assumes "mreach K n q0 (mst None ths q h)" "t < length ths" "ths ! t = Idle"
  shows "mreach K n q0 (mst (Some t) (ths[t := Critical c]) q h)"
proof -
  have "mstep K (mst None ths q h) (mst None (ths[t := Entering c]) q h)"
    using assms mstep.call [of t "mst None ths q h" K c] by simp
  moreover have "mstep K (mst None (ths[t := Entering c]) q h) (mst (Some t) (ths[t := Critical c]) q h)"
    using assms mstep.lock [of t "mst None (ths[t := Entering c]) q h" c K] by simp
  ultimately show ?thesis using assms(1) by (meson rtranclp.rtrancl_into_rtrancl)
qed

lemma reach_relock:
  assumes "mreach K n q0 (mst None ths q h)" "t < length ths" "ths ! t = Woken c"
  shows "mreach K n q0 (mst (Some t) (ths[t := Critical c]) q h)"
  using assms mstep.relock [of t "mst None ths q h" c K] by (auto intro: rtranclp.rtrancl_into_rtrancl)

lemma reach_run:
  assumes "mreach K n q0 (mst (Some t) ths q h)" "t < length ths" "ths ! t = Critical c"
    and "defined K c q" "\<not> blocked K c q" "body K c q = Ret (q', r)"
    and "signalled K (notifies K c) (ths[t := Idle]) ths'"
  shows "mreach K n q0 (mst None ths' q' (h @ [(t, c, Some r)]))"
  using assms mstep.run [of t "mst (Some t) ths q h" c K q' r ths']
  by (auto intro: rtranclp.rtrancl_into_rtrancl)

lemma reach_wait:
  assumes "mreach K n q0 (mst (Some t) ths q h)" "t < length ths" "ths ! t = Critical c" "blocked K c q"
  shows "mreach K n q0 (mst None (ths[t := Waiting c]) q h)"
  using assms mstep.wait [of t "mst (Some t) ths q h" c K] by (auto intro: rtranclp.rtrancl_into_rtrancl)

text \<open>A whole call that does not block, and one that blocks.\<close>

lemma reach_call:
  assumes "mreach K n q0 (mst None ths q h)" "t < length ths" "ths ! t = Idle"
    and "defined K c q" "\<not> blocked K c q" "body K c q = Ret (q', r)"
    and "signalled K (notifies K c) ths ths'"
  shows "mreach K n q0 (mst None ths' q' (h @ [(t, c, Some r)]))"
proof -
  have "ths[t := Idle] = ths" using assms(3) by (metis list_update_id)
  with reach_run [OF reach_enter [OF assms(1-3), of c] _ _ assms(4-6)] assms(2,7) show ?thesis by simp
qed

lemma reach_block:
  assumes "mreach K n q0 (mst None ths q h)" "t < length ths" "ths ! t = Idle" "blocked K c q"
  shows "mreach K n q0 (mst None (ths[t := Waiting c]) q h)"
  using reach_wait [OF reach_enter [OF assms(1-3), of c] _ _ assms(4)] assms(2) by simp

section \<open>Properties\<close>

text \<open>
  What a log says: the items pushed at the back, those pushed at the front, and the items
  popped, in order. A call that timed out changed nothing.
\<close>

fun pushed :: "(nat \<times> 'a qcall \<times> 'a qres option) list \<Rightarrow> 'a list" where
  "pushed [] = []"
| "pushed ((t, c, r) # h) = (case c of CPush x \<Rightarrow> if r = None then [] else [x] | _ \<Rightarrow> []) @ pushed h"

fun pushed_front :: "(nat \<times> 'a qcall \<times> 'a qres option) list \<Rightarrow> 'a list" where
  "pushed_front [] = []"
| "pushed_front ((t, c, r) # h) =
     (case c of CPushFront x \<Rightarrow> if r = None then [] else [x] | _ \<Rightarrow> []) @ pushed_front h"

fun popped :: "(nat \<times> 'a qcall \<times> 'a qres option) list \<Rightarrow> 'a list" where
  "popped [] = []"
| "popped ((t, c, r) # h) =
     (case c of CPop _ \<Rightarrow> (case r of Some (RValue x) \<Rightarrow> [x] | _ \<Rightarrow> []) | _ \<Rightarrow> []) @ popped h"

lemma log_append [simp]:
  "pushed (h @ h') = pushed h @ pushed h'" "pushed_front (h @ h') = pushed_front h @ pushed_front h'"
  "popped (h @ h') = popped h @ popped h'"
  by (induction h) auto

text \<open>
  The order a log fixes: the items pushed at the back stay in the order they were pushed, the
  others are put in between, and nothing is added or left out.
\<close>

definition deque_order ::
    "'a list \<Rightarrow> (nat \<times> 'a qcall \<times> 'a qres option) list \<Rightarrow> bool" where
  "deque_order xs h \<longleftrightarrow> subseq (pushed h) xs \<and> mset xs = mset (pushed h) + mset (pushed_front h)"

lemma bq_body_order:
  assumes "deque_order (popped h @ q) h" "body bq_class c q = Ret (q', r)"
  shows "deque_order (popped (h @ [(t, c, Some r)]) @ q') (h @ [(t, c, Some r)])"
proof (cases c)
  case (CPush x)
  then have "q' = q @ [x]" using assms(2) by (simp add: bq_class_def body_defs)
  with CPush assms(1) list_emb_append_mono [of "(=)" "pushed h" "popped h @ q" "[x]" "[x]"] show ?thesis
    by (simp add: deque_order_def)
next
  case (CPushFront x)
  then have "q' = x # q" using assms(2) by (simp add: bq_class_def body_defs)
  moreover have "subseq (popped h @ q) (popped h @ x # q)" by (intro list_emb_append_mono) auto
  ultimately show ?thesis using CPushFront assms(1) subseq_order.trans by (fastforce simp: deque_order_def)
next
  case (CPop ms)
  then obtain x where "q = x # q'" "r = RValue x"
    using assms(2) by (cases q) (auto simp: bq_class_def body_defs)
  with CPop assms(1) show ?thesis by (simp add: deque_order_def)
next
  case CSize
  with assms show ?thesis by (simp add: bq_class_def body_defs deque_order_def)
qed (use assms(2) in \<open>simp_all add: bq_class_def\<close>)

lemma bq_order_step:
  "mstep bq_class s s' \<Longrightarrow> deque_order (popped (hist s) @ shared s) (hist s) \<Longrightarrow>
     deque_order (popped (hist s') @ shared s') (hist s')"
proof (induction rule: mstep.induct)
  case (run t s c q' r ths')
  then show ?case using bq_body_order [of "hist s" "shared s" c q' r t] by simp
next
  case (give_up t s c)
  then show ?case by (auto simp: deque_order_def split: qcall.splits)
qed simp_all

lemma bq_reach_order: "mreach bq_class n [] s \<Longrightarrow> deque_order (popped (hist s) @ shared s) (hist s)"
proof (induction rule: rtranclp_induct)
  case base
  show ?case by (simp add: minit_def deque_order_def)
qed (rule bq_order_step)

definition sample_bq :: "(nat list, nat qcall, nat qres) mstate" where
  "sample_bq = \<lparr>mutex = None, threads = [Idle, Waiting (CPop (- 1))], shared = [], hist = []\<rparr>"

lemma sample_bq_reach: "mreach bq_class 2 [] sample_bq"
proof -
  have "mreach bq_class 2 [] (mst None [Idle, Idle] ([] :: nat list) [])"
    using reach_start [of bq_class 2 "[]"] by (simp add: numeral_2_eq_2)
  from reach_block [OF this, of 1 "CPop (- 1)"] show ?thesis
    by (simp add: sample_bq_def bq_class_def class_defs)
qed

text \<open>
  Thread 1 blocks in \<^verbatim>\<open>pop\<close>; thread 0 pushes 5, which wakes it, and 6; thread 1 gets 5; then
  thread 0 pushes 9 at the front.
\<close>

abbreviation sample_log :: "(nat \<times> nat qcall \<times> nat qres option) list" where
  "sample_log \<equiv> [(0, CPush 5, Some RVoid), (0, CPush 6, Some RVoid), (1, CPop (- 1), Some (RValue 5))]"

lemma sample_fifo_reach: "mreach bq_class 2 [] (mst None [Idle, Idle] [6] sample_log)"
proof -
  note K = bq_class_def class_defs body_defs
  have 1: "mreach bq_class 2 [] (mst None [Idle, Woken (CPop (- 1))] [5::nat] [(0, CPush 5, Some RVoid)])"
    using reach_call [OF sample_bq_reach [unfolded sample_bq_def], of 0 "CPush 5" "[5]" RVoid
        "[Idle, Woken (CPop (- 1))]"] by (simp add: K) (force intro!: exI [of _ 1])
  have 2: "mreach bq_class 2 [] (mst None [Idle, Woken (CPop (- 1))] [5::nat, 6]
      [(0, CPush 5, Some RVoid), (0, CPush 6, Some RVoid)])"
    using reach_call [OF 1, of 0 "CPush 6" "[5, 6]" RVoid "[Idle, Woken (CPop (- 1))]"] by (simp add: K)
  show ?thesis
    using reach_run [OF reach_relock [OF 2, of 1 "CPop (- 1)"], of "CPop (- 1)" "[6]" "RValue 5" "[Idle, Idle]"]
    by (simp add: K)
qed

lemma sample_front_reach:
  "mreach bq_class 2 [] (mst None [Idle, Idle] [9, 6] (sample_log @ [(0, CPushFront 9, Some RVoid)]))"
  using reach_call [OF sample_fifo_reach, of 0 "CPushFront 9" "[9, 6]" RVoid "[Idle, Idle]"]
  by (simp add: bq_class_def class_defs body_defs)

text \<open>
  C1. Order and conservation in \<^verbatim>\<open>BlockingQueue\<close>, across threads: what has been popped, in the
  order it was popped, followed by what is still queued, holds exactly the items pushed so far,
  by \<^verbatim>\<open>push\<close> or by \<^verbatim>\<open>push_front\<close>, and the items of \<^verbatim>\<open>push\<close> stand in it in the order they were
  pushed. When nobody has called \<^verbatim>\<open>push_front\<close>, it is the sequence of the pushes: the queue is
  first-in first-out. Nothing is lost, duplicated or reordered, whatever the interleaving, the
  time-outs and the spurious wake-ups.
\<close>

theorem blocking_queue_fifo:
  assumes "mreach bq_class n [] s"
  shows "subseq (pushed (hist s)) (popped (hist s) @ shared s)
    \<and> mset (popped (hist s)) + mset (shared s) = mset (pushed (hist s)) + mset (pushed_front (hist s))
    \<and> (pushed_front (hist s) = [] \<longrightarrow> popped (hist s) @ shared s = pushed (hist s))"
proof -
  have o: "subseq (pushed (hist s)) (popped (hist s) @ shared s)"
    "mset (popped (hist s) @ shared s) = mset (pushed (hist s)) + mset (pushed_front (hist s))"
    using bq_reach_order [OF assms] by (simp_all add: deque_order_def)
  moreover have "popped (hist s) @ shared s = pushed (hist s)" if "pushed_front (hist s) = []"
    using o that subseq_same_length [OF o(1)] by (metis add.right_neutral mset.simps(1) size_mset)
  ultimately show ?thesis by simp
qed

theorem blocking_queue_fifo_witness:
  "mset [5, 9, 6] = mset [5, 6] + mset [9::nat] \<and> subseq [5, 6] [5, 9, 6::nat]
    \<and> popped sample_log @ [6] = pushed sample_log"
  using blocking_queue_fifo [OF sample_front_reach] blocking_queue_fifo [OF sample_fifo_reach] by simp

text \<open>
  C2. No wake-up of a \<^verbatim>\<open>BlockingQueue\<close> is lost: when no thread can run any more on its own and
  some thread is still blocked in \<^verbatim>\<open>pop\<close>, the queue is empty. More precisely, as long as a
  thread is blocked in \<^verbatim>\<open>pop\<close>, there are at least as many threads on their way to the queue as
  there are items in it.
\<close>

theorem blocking_queue_no_lost_wakeup:
  assumes "mreach bq_class n [] s" "Waiting (CPop ms) \<in> set (threads s)"
  shows "length (shared s) \<le> length (filter (active_on bq_class NotEmpty) (threads s))
    \<and> ((\<forall>p\<in>set (threads s). \<not> runnable p) \<longrightarrow> shared s = [])"
proof -
  have w: "waits_on bq_class (CPop ms) = Some NotEmpty" by (simp add: bq_class_def class_defs)
  then have "\<exists>p\<in>set (threads s). waiting_on bq_class NotEmpty p" using assms(2) by force
  with bq.reach_no_lost_wakeup [OF assms(1)] bq.quiescent [OF assms(1) _ _ assms(2) w] show ?thesis
    by (fastforce simp: no_lost_wakeup_def)
qed

theorem blocking_queue_no_lost_wakeup_witness: "shared sample_bq = []"
  using blocking_queue_no_lost_wakeup [OF sample_bq_reach, of "- 1"]
  by (simp add: sample_bq_def runnable_def)

text \<open>
  C9. A \<^verbatim>\<open>BoundedBlockingQueue\<close> never holds more than its limit. When no thread can run any more
  on its own, a thread blocked in \<^verbatim>\<open>pop\<close> means the queue is empty and a thread blocked in \<^verbatim>\<open>push\<close>
  or in \<^verbatim>\<open>push_front\<close> means it is full; so, unless the limit is 0, producers and consumers are
  never blocked together.
\<close>

theorem bounded_queue_safe:
  assumes "mreach (bbq_class limit) n [] s"
  shows "length (shared s) \<le> limit \<and>
    ((\<forall>p\<in>set (threads s). \<not> runnable p) \<longrightarrow>
       (Waiting (CPop ms) \<in> set (threads s) \<longrightarrow> shared s = []) \<and>
       (Waiting (CPushW x ms') \<in> set (threads s) \<longrightarrow> length (shared s) = limit) \<and>
       (Waiting (CPushFrontW y ms'') \<in> set (threads s) \<longrightarrow> length (shared s) = limit))"
proof -
  have w: "waits_on (bbq_class limit) (CPop ms) = Some NotEmpty"
    "waits_on (bbq_class limit) (CPushW x ms') = Some NotFull"
    "waits_on (bbq_class limit) (CPushFrontW y ms'') = Some NotFull"
    by (simp_all add: bbq_class_def class_defs)
  have "length (shared s) \<le> limit" using bbq.reach_inv [OF assms] by simp
  then show ?thesis
    using bbq.quiescent [OF assms _ _ _ w(1)] bbq.quiescent [OF assms _ _ _ w(2)]
      bbq.quiescent [OF assms _ _ _ w(3)] by auto
qed

text \<open>A queue of two places: two pushes fill it, then one producer blocks in each kind of push.\<close>

definition full_bbq :: "(nat list, nat qcall, nat qres) mstate" where
  "full_bbq = mst None [Waiting (CPushW 3 (- 1)), Waiting (CPushFrontW 4 100)] [1, 2]
     [(0, CPushW 1 (- 1), Some RTrue), (1, CPushW 2 0, Some RTrue)]"

lemma full_bbq_reach: "mreach (bbq_class 2) 2 [] full_bbq"
proof -
  note K = bbq_class_def class_defs body_defs exec_assert_def
  have 1: "mreach (bbq_class 2) 2 [] (mst None [Idle, Idle] ([] :: nat list) [])"
    using reach_start [of "bbq_class 2" 2 "[]"] by (simp add: numeral_2_eq_2)
  have 2: "mreach (bbq_class 2) 2 [] (mst None [Idle, Idle] [1::nat] [(0, CPushW 1 (- 1), Some RTrue)])"
    using reach_call [OF 1, of 0 "CPushW 1 (- 1)" "[1]" RTrue "[Idle, Idle]"] by (simp add: K)
  have 3: "mreach (bbq_class 2) 2 [] (mst None [Idle, Idle] [1::nat, 2]
      [(0, CPushW 1 (- 1), Some RTrue), (1, CPushW 2 0, Some RTrue)])"
    using reach_call [OF 2, of 1 "CPushW 2 0" "[1, 2]" RTrue "[Idle, Idle]"] by (simp add: K)
  have 4: "mreach (bbq_class 2) 2 [] (mst None [Waiting (CPushW 3 (- 1)), Idle] [1::nat, 2]
      [(0, CPushW 1 (- 1), Some RTrue), (1, CPushW 2 0, Some RTrue)])"
    using reach_block [OF 3, of 0 "CPushW 3 (- 1)"] by (simp add: K)
  show ?thesis using reach_block [OF 4, of 1 "CPushFrontW 4 100"] by (simp add: K full_bbq_def)
qed

theorem bounded_queue_safe_witness:
  "length (shared full_bbq) = 2 \<and> Waiting (CPushFrontW 4 100) \<in> set (threads full_bbq)
    \<and> Waiting (CPushW 3 (- 1)) \<in> set (threads full_bbq)"
  using bounded_queue_safe [OF full_bbq_reach, of "- 1" 3 "- 1" 4 100]
  by (simp add: full_bbq_def runnable_def)

text \<open>Queues over the sample heap: one, two and three nodes, and an inner node replaced.\<close>

abbreviation nd :: "ptr \<Rightarrow> ptr \<Rightarrow> node" where
  "nd p n \<equiv> \<lparr>prev = p, next_of = n\<rparr>"

definition chain1 :: lqueue where
  "chain1 = \<lparr>q_head = 1, q_tail = 1, nodes = sample_heap(1 \<mapsto> nd 0 0)\<rparr>"

definition chain2 :: lqueue where
  "chain2 = \<lparr>q_head = 1, q_tail = 2, nodes = sample_heap(1 \<mapsto> nd 0 2, 2 \<mapsto> nd 1 0)\<rparr>"

definition chain3 :: lqueue where
  "chain3 = \<lparr>q_head = 1, q_tail = 3, nodes = sample_heap(1 \<mapsto> nd 0 2, 2 \<mapsto> nd 1 3, 3 \<mapsto> nd 2 0)\<rparr>"

definition chain143 :: lqueue where
  "chain143 = \<lparr>q_head = 1, q_tail = 3,
     nodes = sample_heap(1 \<mapsto> nd 0 4, 2 \<mapsto> nd 1 3, 3 \<mapsto> nd 4 0, 4 \<mapsto> nd 1 3)\<rparr>"

lemmas chain_defs = chain1_def chain2_def chain3_def chain143_def mk_lqueue_def sample_heap_def
lemmas dq_defs = dq_push_def dq_replace_def lq_empty_def get_next_def get_prev_def set_next_def set_prev_def

lemma chain_reps:
  "dq_rep (mk_lqueue sample_heap) []" "dq_rep chain1 [1]" "dq_rep chain2 [1, 2]" "dq_rep chain3 [1, 2, 3]"
  by (simp_all add: rep_defs chain_defs)

lemma chain_steps:
  "dq_push (mk_lqueue sample_heap) 1 = Ret chain1" "dq_push chain1 2 = Ret chain2"
  "dq_push chain2 3 = Ret chain3" "dq_replace chain3 2 4 = Ret chain143"
  by (simp_all add: dq_defs chain_defs fun_eq_iff)

lemma bdq_push_step:
  assumes "mreach K n q0 (mst None ths q h)" "K = bdq_class \<or> K = inner_replaces bdq_class"
    and "dq_rep q xs" "allocated q xs x" "dq_push q x = Ret q'" "t < length ths" "ths ! t = Idle"
    and "signalled K (Some NotEmpty) ths ths'"
  shows "mreach K n q0 (mst None ths' q' (h @ [(t, CPush x, Some RVoid)]))"
proof (rule reach_call [OF assms(1)])
qed (use assms in \<open>auto simp: bdq_class_def inner_replaces_def class_defs body_defs\<close>)

lemma bdq_replace_step:
  assumes "mreach K n q0 (mst None ths q h)" "K = bdq_class \<or> K = inner_replaces bdq_class \<and> x \<noteq> q_head q \<and> x \<noteq> q_tail q"
    and "dq_rep q xs" "x \<in> set xs" "allocated q xs y" "dq_replace q x y = Ret q'" "t < length ths" "ths ! t = Idle"
  shows "mreach K n q0 (mst None ths q' (h @ [(t, CReplace x y, Some RVoid)]))"
proof (rule reach_call [OF assms(1)])
qed (use assms in \<open>auto simp: bdq_class_def inner_replaces_def class_defs body_defs\<close>)

text \<open>Thread 1 waits in \<^verbatim>\<open>pop\<close>; thread 0 pushes three nodes and replaces the middle one.\<close>

definition replaced_bdq :: "(lqueue, ptr qcall, ptr qres) mstate" where
  "replaced_bdq = mst None [Idle, Woken (CPop (- 1))] chain143
     [(0, CPush 1, Some RVoid), (0, CPush 2, Some RVoid), (0, CPush 3, Some RVoid), (0, CReplace 2 4, Some RVoid)]"

lemma replaced_bdq_reach:
  "mreach (inner_replaces bdq_class) 2 (mk_lqueue sample_heap) replaced_bdq"
proof -
  let ?K = "inner_replaces bdq_class" and ?q0 = "mk_lqueue sample_heap"
  have "mreach ?K 2 ?q0 (mst None [Idle, Idle] ?q0 [])"
    using reach_start [of ?K 2 ?q0] by (simp add: numeral_2_eq_2)
  from reach_block [OF this, of 1 "CPop (- 1)"]
  have 1: "mreach ?K 2 ?q0 (mst None [Idle, Waiting (CPop (- 1))] ?q0 [])"
    by (simp add: bdq_class_def class_defs lq_empty_def mk_lqueue_def)
  have 2: "mreach ?K 2 ?q0 (mst None [Idle, Woken (CPop (- 1))] chain1 [(0, CPush 1, Some RVoid)])"
    using bdq_push_step [OF 1 _ chain_reps(1) _ chain_steps(1), of 0 "[Idle, Woken (CPop (- 1))]"]
    by (simp add: allocated_def chain_defs bdq_class_def class_defs) (force intro!: exI [of _ 1])
  have 3: "mreach ?K 2 ?q0 (mst None [Idle, Woken (CPop (- 1))] chain2
      [(0, CPush 1, Some RVoid), (0, CPush 2, Some RVoid)])"
    using bdq_push_step [OF 2 _ chain_reps(2) _ chain_steps(2), of 0 "[Idle, Woken (CPop (- 1))]"]
    by (simp add: allocated_def chain_defs)
  have 4: "mreach ?K 2 ?q0 (mst None [Idle, Woken (CPop (- 1))] chain3
      [(0, CPush 1, Some RVoid), (0, CPush 2, Some RVoid), (0, CPush 3, Some RVoid)])"
    using bdq_push_step [OF 3 _ chain_reps(3) _ chain_steps(3), of 0 "[Idle, Woken (CPop (- 1))]"]
    by (simp add: allocated_def chain_defs)
  show ?thesis
    using bdq_replace_step [OF 4 _ chain_reps(4) _ _ chain_steps(4), of 0]
    by (simp add: allocated_def chain_defs replaced_bdq_def)
qed

lemma replace_end_breaks:
  "\<exists>s. mreach bdq_class 1 (mk_lqueue sample_heap) s \<and> (\<nexists>xs. dq_rep (shared s) xs)"
proof -
  let ?q0 = "mk_lqueue sample_heap"
  define broken where "broken = chain2\<lparr>nodes := (nodes chain2)(2 \<mapsto> nd 4 0, 4 \<mapsto> nd 0 2)\<rparr>"
  have r: "dq_replace chain2 1 4 = Ret broken"
    by (simp add: dq_defs chain_defs broken_def fun_eq_iff)
  have 1: "mreach bdq_class 1 ?q0 (mst None [Idle] ?q0 [])"
    using reach_start [of bdq_class 1 ?q0] by simp
  have 2: "mreach bdq_class 1 ?q0 (mst None [Idle] chain1 [(0, CPush 1, Some RVoid)])"
    using bdq_push_step [OF 1 _ chain_reps(1) _ chain_steps(1), of 0 "[Idle]"]
    by (simp add: allocated_def chain_defs)
  have 3: "mreach bdq_class 1 ?q0 (mst None [Idle] chain2 [(0, CPush 1, Some RVoid), (0, CPush 2, Some RVoid)])"
    using bdq_push_step [OF 2 _ chain_reps(2) _ chain_steps(2), of 0 "[Idle]"]
    by (simp add: allocated_def chain_defs)
  have 4: "mreach bdq_class 1 ?q0 (mst None [Idle] broken
      [(0, CPush 1, Some RVoid), (0, CPush 2, Some RVoid), (0, CReplace 1 4, Some RVoid)])"
    using bdq_replace_step [OF 3 _ chain_reps(3) _ _ r, of 0] by (simp add: allocated_def chain_defs)
  have "\<not> dq_rep broken xs" for xs
  proof (cases xs)
    case (Cons a ys)
    then show ?thesis by (cases ys) (auto simp: rep_defs broken_def chain_defs split: if_splits)
  qed (simp add: rep_defs broken_def chain_defs)
  with 4 show ?thesis by fastforce
qed

text \<open>
  C11. The intrusive blocking queue keeps its chain as long as its clients replace only nodes
  that are at neither end of the queue: from an empty queue over a heap of nodes, in every
  state they can reach the heap still holds an exact chain, the critical section of any such
  call runs without a null dereference or a failed assertion, and when nothing can run any more
  a thread blocked in \<^verbatim>\<open>pop\<close> means the chain is empty. The restriction is needed: \<^verbatim>\<open>replace\<close>
  does not move \<^verbatim>\<open>head_\<close> and \<^verbatim>\<open>tail_\<close>, and a client that replaces the first of two nodes
  leaves a state that is no chain any more.
\<close>

theorem blocking_dlinked_queue_safe:
  assumes "mreach (inner_replaces bdq_class) n (mk_lqueue h) s" "null_ok h"
  shows "(\<exists>xs. dq_rep (shared s) xs)
    \<and> (defined (inner_replaces bdq_class) c (shared s) \<and> \<not> blocked bdq_class c (shared s) \<longrightarrow>
         (\<exists>q r. body bdq_class c (shared s) = Ret (q, r)))
    \<and> ((\<forall>p\<in>set (threads s). \<not> runnable p) \<and> Waiting (CPop ms) \<in> set (threads s) \<longrightarrow>
         dq_rep (shared s) [])
    \<and> (\<exists>s'. mreach bdq_class 1 (mk_lqueue sample_heap) s' \<and> (\<nexists>xs. dq_rep (shared s') xs))"
proof -
  have i: "\<exists>xs. dq_rep (mk_lqueue h) xs" using mk_lqueue_rep [OF assms(2)] by blast
  have w: "waits_on (inner_replaces bdq_class) (CPop ms) = Some NotEmpty"
    by (simp add: bdq_class_def class_defs)
  obtain xs where xs: "dq_rep (shared s) xs" using bdq.reach_inv [OF assms(1) i] by blast
  have "xs = []" if "\<forall>p\<in>set (threads s). \<not> runnable p" "Waiting (CPop ms) \<in> set (threads s)"
    using bdq.quiescent [OF assms(1) i that w] chain_length_dq [OF xs] by simp
  with xs bdq.body_safe [OF assms(1) i] replace_end_breaks show ?thesis by auto
qed

theorem blocking_dlinked_queue_safe_witness:
  "(\<exists>xs. dq_rep chain143 xs) \<and> (\<exists>q r. body bdq_class (CPop (- 1)) chain143 = Ret (q, r))"
  using blocking_dlinked_queue_safe [OF replaced_bdq_reach, of "CPop (- 1)"]
  by (simp add: replaced_bdq_def null_ok_def sample_heap_def inner_replaces_def bdq_class_def class_defs
      lq_empty_def chain143_def)

text \<open>
  C34. \<^verbatim>\<open>BlockingPriorityQueue\<close> can lose a wake-up. One thread blocks in \<^verbatim>\<open>top\<close> and one in \<^verbatim>\<open>pop\<close>;
  a \<^verbatim>\<open>push\<close> notifies the thread in \<^verbatim>\<open>top\<close>, which reads the element, leaves it in the queue and
  does not pass the notification on. The thread in \<^verbatim>\<open>pop\<close> stays blocked although the queue holds
  an element and nobody else will run.
\<close>

theorem priority_queue_lost_wakeup:
  "\<exists>s :: (nat list, nat qcall, nat qres) mstate. mreach bpq_class 3 [] s
     \<and> filter runnable (threads s) = []
     \<and> Waiting (CPop (- 1)) \<in> set (threads s) \<and> shared s = [7]"
proof -
  let ?S = "\<lambda>m ths q h. \<lparr>mutex = m, threads = ths, shared = q, hist = h\<rparr>
     :: (nat list, nat qcall, nat qres) mstate"
  let ?t = "CTop (- 1)" and ?p = "CPop (- 1)" and ?u = "CPush (7::nat)"
  let ?M = "bpq_class :: (nat list, nat qcall, nat qres) mclass"
  note K = bpq_class_def class_defs body_defs
  have c: "mreach ?M 3 [] (?S m (ths[t := Entering c]) q h)"
    if "mreach ?M 3 [] (?S m ths q h)" "t < length ths" "ths ! t = Idle" for m ths q h t c
    using that mstep.call [of t "?S m ths q h" ?M c] by (auto intro: rtranclp.rtrancl_into_rtrancl)
  have l: "mreach ?M 3 [] (?S (Some t) (ths[t := Critical c]) q h)"
    if "mreach ?M 3 [] (?S None ths q h)" "t < length ths" "ths ! t = Entering c \<or> ths ! t = Woken c"
    for ths q h t c
    using that mstep.lock [of t "?S None ths q h" c ?M] mstep.relock [of t "?S None ths q h" c ?M]
    by (auto intro: rtranclp.rtrancl_into_rtrancl)
  have w: "mreach ?M 3 [] (?S None (ths[t := Waiting c]) [] h)"
    if "mreach ?M 3 [] (?S (Some t) ths [] h)" "t < length ths" "ths ! t = Critical c" "pops c" for ths h t c
    using that mstep.wait [of t "?S (Some t) ths [] h" c ?M]
    by (auto simp: bpq_class_def intro: rtranclp.rtrancl_into_rtrancl)
  have u: "mstep ?M (?S (Some 2) [Waiting ?t, Waiting ?p, Critical ?u] [] [])
      (?S None [Woken ?t, Waiting ?p, Idle] [7] [(2, ?u, Some RVoid)])"
    using mstep.run [of 2 "?S (Some 2) [Waiting ?t, Waiting ?p, Critical ?u] [] []" ?u ?M "[7]" RVoid
        "[Woken ?t, Waiting ?p, Idle]"]
    by (simp add: K) (force intro!: exI [of _ 0])
  have r: "mstep ?M (?S (Some 0) [Critical ?t, Waiting ?p, Idle] [7] [(2, ?u, Some RVoid)])
      (?S None [Idle, Waiting ?p, Idle] [7] [(2, ?u, Some RVoid), (0, ?t, Some (RValue 7))])"
    using mstep.run [of 0 "?S (Some 0) [Critical ?t, Waiting ?p, Idle] [7] [(2, ?u, Some RVoid)]" ?t ?M "[7]"
        "RValue 7" "[Idle, Waiting ?p, Idle]"] by (simp add: K)
  have "mreach ?M 3 [] (?S None [Idle, Idle, Idle] [] [])"
    by (simp add: minit_def numeral_3_eq_3)
  from w [OF l [OF c [OF this, of 0 ?t], of 0 ?t], of ?t]
  have "mreach ?M 3 [] (?S None [Waiting ?t, Idle, Idle] [] [])" by (simp add: class_defs)
  from w [OF l [OF c [OF this, of 1 ?p], of 1 ?p], of ?p]
  have "mreach ?M 3 [] (?S None [Waiting ?t, Waiting ?p, Idle] [] [])" by (simp add: class_defs)
  from l [OF c [OF this, of 2 ?u], of 2 ?u]
  have "mreach ?M 3 [] (?S (Some 2) [Waiting ?t, Waiting ?p, Critical ?u] [] [])" by simp
  from l [OF rtranclp.rtrancl_into_rtrancl [OF this u], of 0 ?t]
  have "mreach ?M 3 [] (?S (Some 0) [Critical ?t, Waiting ?p, Idle] [7] [(2, ?u, Some RVoid)])" by simp
  from rtranclp.rtrancl_into_rtrancl [OF this r] show ?thesis
    by (intro exI conjI, assumption) (simp_all add: runnable_def)
qed

text \<open>
  \<^verbatim>\<open>BlockingPriorityQueue\<close> hands out the highest value first: in every reachable state a
  \<^verbatim>\<open>pop\<close> that finds the queue non-empty returns its maximum and leaves all the other elements,
  and \<^verbatim>\<open>top\<close> returns the maximum and leaves the queue as it is.
\<close>

theorem priority_queue_max:
  assumes "mreach bpq_class n [] s" "shared s \<noteq> []"
  shows "returns (body bpq_class (CPop ms) (shared s)) (\<lambda>(q', r). r = RValue (Max (set (shared s)))
      \<and> mset q' = mset (shared s) - {#Max (set (shared s))#})
    \<and> body bpq_class (CTop ms) (shared s) = Ret (shared s, RValue (Max (set (shared s))))"
proof -
  obtain x q where q: "shared s = x # q" using assms(2) by (cases "shared s") auto
  have "sorted (rev (shared s))" using bpq.reach_inv [OF assms(1)] by simp
  then have "Max (set (shared s)) = x" using q by (intro Max_eqI) (auto simp: sorted_append)
  with q show ?thesis by (simp add: bpq_class_def body_defs)
qed

definition sample_bpq :: "(nat list, nat qcall, nat qres) mstate" where
  "sample_bpq = \<lparr>mutex = None, threads = [Idle], shared = [4], hist = [(0, CPush 4, Some RVoid)]\<rparr>"

lemma sample_bpq_reach: "mreach bpq_class 1 [] sample_bpq"
proof -
  let ?M = "bpq_class :: (nat list, nat qcall, nat qres) mclass"
  let ?s1 = "\<lparr>mutex = None, threads = [Entering (CPush 4)], shared = [], hist = []\<rparr>
     :: (nat list, nat qcall, nat qres) mstate"
  let ?s2 = "?s1\<lparr>mutex := Some 0, threads := [Critical (CPush 4)]\<rparr>"
  have "mstep ?M (minit 1 []) ?s1"
    using mstep.call [of 0 "minit 1 []" ?M "CPush 4"] by (simp add: minit_def)
  moreover have "mstep ?M ?s1 ?s2" using mstep.lock [of 0 ?s1 "CPush 4" ?M] by simp
  moreover have "mstep ?M ?s2 sample_bpq"
    using mstep.run [of 0 ?s2 "CPush 4" ?M "[4]" RVoid "[Idle]"]
    by (simp add: bpq_class_def class_defs body_defs sample_bpq_def)
  ultimately show ?thesis by (rule three_steps)
qed

theorem priority_queue_max_witness: "body bpq_class (CTop 5) [4] = Ret ([4], RValue (4::nat))"
  using priority_queue_max [OF sample_bpq_reach, of 5] by (simp add: sample_bpq_def)

end
