(* ===== verification/Blocking_Steps.thy ===== *)
theory Blocking_Steps
  imports Blocking_Queue
begin

text \<open>
  The blocking queues of \<^verbatim>\<open>common/queue.h\<close> statement by statement. \<open>Blocking_Queue\<close> runs a
  critical section as one step; here the guard's lock, the test of the wait loop, every
  statement after it, the notification and the guard's unlock are steps of their own, between
  which the other threads run. The locale \<open>statements\<close> asks that the statements of a method add
  up to its body; then every run of the fine steps is a run of the coarse ones (a forward
  simulation), so that what \<open>Blocking_Queue\<close> proves of its classes holds of the interleaved
  statements too.
\<close>

section \<open>Steps of single statements\<close>

text \<open>
  \<open>FRun c k r\<close>: about to execute statement \<open>k\<close>, with \<open>r\<close> in the out parameter or return value;
  \<open>FNotify c r\<close>: about to notify; \<open>FUnlock c r\<close>: about to return, in the destructor of the
  \<^verbatim>\<open>LockGuard\<close> (\<open>None\<close>: after a time-out).
\<close>

datatype ('c, 'r) fpc = FIdle | FEnter 'c | FTest 'c | FRun 'c nat 'r | FNotify 'c 'r
  | FWait 'c | FWoken 'c | FTimedOut 'c | FUnlock 'c "'r option"

type_synonym ('q, 'r) stmt = "'q \<times> 'r \<Rightarrow> ('q \<times> 'r) exec"

record ('q, 'c, 'r) fstate =
  f_mutex :: "nat option"
  f_threads :: "('c, 'r) fpc list"
  f_shared :: 'q
  f_hist :: "(nat \<times> 'c \<times> 'r option) list"

definition f_waiting :: "('q, 'c, 'r) mclass \<Rightarrow> cvar \<Rightarrow> ('c, 'r) fpc \<Rightarrow> bool" where
  "f_waiting K d p \<longleftrightarrow> (case p of FWait c \<Rightarrow> waits_on K c = Some d | _ \<Rightarrow> False)"

fun f_signalled :: "('q, 'c, 'r) mclass \<Rightarrow> cvar option \<Rightarrow> ('c, 'r) fpc list \<Rightarrow> ('c, 'r) fpc list \<Rightarrow> bool" where
  "f_signalled K None ths ths' \<longleftrightarrow> ths' = ths"
| "f_signalled K (Some d) ths ths' \<longleftrightarrow>
     (if \<exists>p\<in>set ths. f_waiting K d p
      then \<exists>w < length ths. \<exists>c. ths ! w = FWait c \<and> waits_on K c = Some d \<and> ths' = ths[w := FWoken c]
      else ths' = ths)"

inductive fstep :: "('q, 'c, 'r) mclass \<Rightarrow> ('c \<Rightarrow> ('q, 'r) stmt list) \<Rightarrow> 'r \<Rightarrow>
    ('q, 'c, 'r) fstate \<Rightarrow> ('q, 'c, 'r) fstate \<Rightarrow> bool"
  for K prog r0 where
  call: "\<lbrakk>t < length (f_threads s); f_threads s ! t = FIdle\<rbrakk> \<Longrightarrow>
    fstep K prog r0 s (s\<lparr>f_threads := (f_threads s)[t := FEnter c]\<rparr>)"
| lock: "\<lbrakk>t < length (f_threads s); f_threads s ! t = FEnter c; f_mutex s = None\<rbrakk> \<Longrightarrow>
    fstep K prog r0 s (s\<lparr>f_mutex := Some t, f_threads := (f_threads s)[t := FTest c]\<rparr>)"
| test: "\<lbrakk>t < length (f_threads s); f_threads s ! t = FTest c; defined K c (f_shared s);
     \<not> blocked K c (f_shared s)\<rbrakk> \<Longrightarrow>
    fstep K prog r0 s (s\<lparr>f_threads := (f_threads s)[t := FRun c 0 r0]\<rparr>)"
| wait: "\<lbrakk>t < length (f_threads s); f_threads s ! t = FTest c; blocked K c (f_shared s)\<rbrakk> \<Longrightarrow>
    fstep K prog r0 s (s\<lparr>f_mutex := None, f_threads := (f_threads s)[t := FWait c]\<rparr>)"
| stmt: "\<lbrakk>t < length (f_threads s); f_threads s ! t = FRun c k r; k < length (prog c);
     (prog c ! k) (f_shared s, r) = Ret (q', r')\<rbrakk> \<Longrightarrow>
    fstep K prog r0 s (s\<lparr>f_threads := (f_threads s)[t := FRun c (Suc k) r'], f_shared := q'\<rparr>)"
| last: "\<lbrakk>t < length (f_threads s); f_threads s ! t = FRun c (length (prog c)) r\<rbrakk> \<Longrightarrow>
    fstep K prog r0 s (s\<lparr>f_threads := (f_threads s)[t := FNotify c r]\<rparr>)"
| notify: "\<lbrakk>t < length (f_threads s); f_threads s ! t = FNotify c r;
     f_signalled K (notifies K c) ((f_threads s)[t := FUnlock c (Some r)]) ths'\<rbrakk> \<Longrightarrow>
    fstep K prog r0 s (s\<lparr>f_threads := ths'\<rparr>)"
| unlock: "\<lbrakk>t < length (f_threads s); f_threads s ! t = FUnlock c r\<rbrakk> \<Longrightarrow>
    fstep K prog r0 s (s\<lparr>f_mutex := None, f_threads := (f_threads s)[t := FIdle],
      f_hist := f_hist s @ [(t, c, r)]\<rparr>)"
| spurious: "\<lbrakk>t < length (f_threads s); f_threads s ! t = FWait c\<rbrakk> \<Longrightarrow>
    fstep K prog r0 s (s\<lparr>f_threads := (f_threads s)[t := FWoken c]\<rparr>)"
| timeout: "\<lbrakk>t < length (f_threads s); f_threads s ! t = FWait c; timed K c\<rbrakk> \<Longrightarrow>
    fstep K prog r0 s (s\<lparr>f_threads := (f_threads s)[t := FTimedOut c]\<rparr>)"
| relock: "\<lbrakk>t < length (f_threads s); f_threads s ! t = FWoken c; f_mutex s = None\<rbrakk> \<Longrightarrow>
    fstep K prog r0 s (s\<lparr>f_mutex := Some t, f_threads := (f_threads s)[t := FTest c]\<rparr>)"
| give_up: "\<lbrakk>t < length (f_threads s); f_threads s ! t = FTimedOut c; f_mutex s = None\<rbrakk> \<Longrightarrow>
    fstep K prog r0 s (s\<lparr>f_mutex := Some t, f_threads := (f_threads s)[t := FUnlock c None]\<rparr>)"

definition finit :: "nat \<Rightarrow> 'q \<Rightarrow> ('q, 'c, 'r) fstate" where
  "finit n q = \<lparr>f_mutex = None, f_threads = replicate n FIdle, f_shared = q, f_hist = []\<rparr>"

abbreviation freach :: "('q, 'c, 'r) mclass \<Rightarrow> ('c \<Rightarrow> ('q, 'r) stmt list) \<Rightarrow> 'r \<Rightarrow> nat \<Rightarrow> 'q \<Rightarrow>
    ('q, 'c, 'r) fstate \<Rightarrow> bool" where
  "freach K prog r0 n q \<equiv> (fstep K prog r0)\<^sup>*\<^sup>* (finit n q)"

fun run_stmts :: "('q, 'r) stmt list \<Rightarrow> 'q \<times> 'r \<Rightarrow> ('q \<times> 'r) exec" where
  "run_stmts [] x = Ret x"
| "run_stmts (f # fs) x = exec_bind (f x) (run_stmts fs)"

lemma run_stmts_append: "run_stmts (fs @ gs) x = exec_bind (run_stmts fs x) (run_stmts gs)"
proof (induction fs arbitrary: x)
  case (Cons g fs)
  then show ?case by (cases "g x") auto
qed simp

lemma run_stmts_take:
  "k < length fs \<Longrightarrow> run_stmts (take k fs) x = Ret y \<Longrightarrow> run_stmts (take (Suc k) fs) x = (fs ! k) y"
  by (cases "(fs ! k) y") (simp_all add: take_Suc_conv_app_nth run_stmts_append)

section \<open>Simulation by atomic critical sections\<close>

definition inside :: "('c, 'r) fpc \<Rightarrow> bool" where
  "inside p \<longleftrightarrow> (case p of FTest _ \<Rightarrow> True | FRun _ _ _ \<Rightarrow> True | FNotify _ _ \<Rightarrow> True | FUnlock _ _ \<Rightarrow> True
     | _ \<Rightarrow> False)"

definition abs_pc :: "('c, 'r) fpc \<Rightarrow> 'c tpc" where
  "abs_pc p = (case p of FIdle \<Rightarrow> Idle | FEnter c \<Rightarrow> Entering c | FTest c \<Rightarrow> Critical c
     | FRun c _ _ \<Rightarrow> Critical c | FNotify c _ \<Rightarrow> Critical c | FWait c \<Rightarrow> Waiting c | FWoken c \<Rightarrow> Woken c
     | FTimedOut c \<Rightarrow> TimedOut c | FUnlock _ _ \<Rightarrow> Idle)"

text \<open>
  The owner of the mutex decides how the two states correspond. A critical section takes effect
  when it notifies: until then the coarse queue is the one the section found, after that the
  coarse call has returned.
\<close>

definition owner_sim :: "('q, 'c, 'r) mclass \<Rightarrow> ('c \<Rightarrow> ('q, 'r) stmt list) \<Rightarrow> 'r \<Rightarrow>
    ('q, 'c, 'r) fstate \<Rightarrow> nat \<Rightarrow> ('q, 'c, 'r) mstate \<Rightarrow> bool" where
  "owner_sim K prog r0 s t a \<longleftrightarrow> (case f_threads s ! t of
       FRun c k r \<Rightarrow> mutex a = Some t \<and> hist a = f_hist s \<and> defined K c (shared a) \<and> \<not> blocked K c (shared a)
         \<and> k \<le> length (prog c) \<and> run_stmts (take k (prog c)) (shared a, r0) = Ret (f_shared s, r)
     | FNotify c r \<Rightarrow> mutex a = Some t \<and> hist a = f_hist s \<and> defined K c (shared a) \<and> \<not> blocked K c (shared a)
         \<and> run_stmts (prog c) (shared a, r0) = Ret (f_shared s, r)
     | FUnlock c r \<Rightarrow> mutex a = None \<and> hist a = f_hist s @ [(t, c, r)] \<and> shared a = f_shared s
     | _ \<Rightarrow> mutex a = Some t \<and> hist a = f_hist s \<and> shared a = f_shared s)"

definition sim :: "('q, 'c, 'r) mclass \<Rightarrow> ('c \<Rightarrow> ('q, 'r) stmt list) \<Rightarrow> 'r \<Rightarrow>
    ('q, 'c, 'r) fstate \<Rightarrow> ('q, 'c, 'r) mstate \<Rightarrow> bool" where
  "sim K prog r0 s a \<longleftrightarrow> threads a = map abs_pc (f_threads s)
     \<and> (\<forall>t < length (f_threads s). inside (f_threads s ! t) \<longleftrightarrow> f_mutex s = Some t)
     \<and> (case f_mutex s of None \<Rightarrow> mutex a = None \<and> hist a = f_hist s \<and> shared a = f_shared s
        | Some t \<Rightarrow> t < length (f_threads s) \<and> owner_sim K prog r0 s t a)"

lemma abs_pc_simps [simp]:
  "abs_pc FIdle = Idle" "abs_pc (FEnter c) = Entering c" "abs_pc (FTest c) = Critical c"
  "abs_pc (FRun c k r) = Critical c" "abs_pc (FNotify c r) = Critical c" "abs_pc (FWait c) = Waiting c"
  "abs_pc (FWoken c) = Woken c" "abs_pc (FTimedOut c) = TimedOut c" "abs_pc (FUnlock c v) = Idle"
  by (simp_all add: abs_pc_def)

lemma inside_simps [simp]:
  "\<not> inside FIdle" "\<not> inside (FEnter c)" "inside (FTest c)" "inside (FRun c k r)" "inside (FNotify c r)"
  "\<not> inside (FWait c)" "\<not> inside (FWoken c)" "\<not> inside (FTimedOut c)" "inside (FUnlock c v)"
  by (simp_all add: inside_def)

lemma abs_pc_Waiting [simp]: "abs_pc p = Waiting c \<longleftrightarrow> p = FWait c"
  by (cases p) simp_all

lemma waiting_on_abs [simp]: "waiting_on K d (abs_pc p) = f_waiting K d p"
  by (cases p) (simp_all add: f_waiting_def)

lemma signalled_abs:
  "f_signalled K d ths ths' \<Longrightarrow> signalled K d (map abs_pc ths) (map abs_pc ths')"
  by (cases d) (auto simp: map_update split: if_splits)

lemma f_signalled_inside:
  assumes "f_signalled K d ths ths'" "t < length ths"
  shows "length ths' = length ths \<and> inside (ths' ! t) = inside (ths ! t)
    \<and> (inside (ths ! t) \<longrightarrow> ths' ! t = ths ! t)"
  using assms by (cases d) (auto simp: nth_list_update split: if_splits)

text \<open>The owner of the mutex is the only thread inside, and every thread inside is the owner.\<close>

lemma sim_owner:
  "sim K prog r0 s a \<Longrightarrow> t < length (f_threads s) \<Longrightarrow> inside (f_threads s ! t) \<Longrightarrow>
     f_mutex s = Some t \<and> owner_sim K prog r0 s t a"
  by (auto simp: sim_def)

lemma sim_threads: "sim K prog r0 s a \<Longrightarrow> t < length (f_threads s) \<Longrightarrow>
    t < length (threads a) \<and> threads a ! t = abs_pc (f_threads s ! t)"
  by (simp add: sim_def)

lemma sim_free:
  "sim K prog r0 s a \<Longrightarrow> f_mutex s = None \<Longrightarrow>
     mutex a = None \<and> hist a = f_hist s \<and> shared a = f_shared s"
  by (simp add: sim_def)

lemma owner_sim_threads:
  "owner_sim K prog r0 s u a \<Longrightarrow> ths ! u = f_threads s ! u \<Longrightarrow>
     owner_sim K prog r0 (s\<lparr>f_threads := ths\<rparr>) u (a\<lparr>threads := ths'\<rparr>)"
  by (cases "f_threads s ! u") (simp_all add: owner_sim_def)

lemma sim_outside:
  assumes "sim K prog r0 s a" "t < length (f_threads s)" "\<not> inside (f_threads s ! t)" "\<not> inside p"
  shows "sim K prog r0 (s\<lparr>f_threads := (f_threads s)[t := p]\<rparr>) (a\<lparr>threads := (threads a)[t := abs_pc p]\<rparr>)"
proof -
  have "f_mutex s \<noteq> Some t" using assms by (auto simp: sim_def)
  then show ?thesis using assms
    by (auto simp: sim_def map_update nth_list_update intro: owner_sim_threads split: option.splits)
qed

lemma sim_lock:
  assumes "sim K prog r0 s a" "t < length (f_threads s)" "f_mutex s = None"
  shows "sim K prog r0 (s\<lparr>f_mutex := Some t, f_threads := (f_threads s)[t := FTest c]\<rparr>)
    (a\<lparr>mutex := Some t, threads := (threads a)[t := Critical c]\<rparr>)"
  using assms by (auto simp: sim_def owner_sim_def map_update nth_list_update)

text \<open>A step of the owner that keeps the mutex, as a stutter of the coarse run.\<close>

lemma sim_inside:
  assumes "sim K prog r0 s a" "t < length (f_threads s)" "inside (f_threads s ! t)" "inside p"
    and "abs_pc p = abs_pc (f_threads s ! t)"
    and "owner_sim K prog r0 (s\<lparr>f_threads := (f_threads s)[t := p], f_shared := q\<rparr>) t a"
  shows "sim K prog r0 (s\<lparr>f_threads := (f_threads s)[t := p], f_shared := q\<rparr>) a"
proof -
  have "map abs_pc ((f_threads s)[t := p]) = map abs_pc (f_threads s)"
    using assms(2,5) by (metis list_update_id map_update)
  with assms sim_owner [OF assms(1-3)] show ?thesis by (auto simp: sim_def nth_list_update)
qed

locale statements =
  fixes K :: "('q, 'c, 'r) mclass" and prog :: "'c \<Rightarrow> ('q, 'r) stmt list" and r0 :: 'r
  assumes prog_body: "defined K c q \<Longrightarrow> \<not> blocked K c q \<Longrightarrow> run_stmts (prog c) (q, r0) = body K c q"
begin

lemma sim_notify:
  assumes "sim K prog r0 s a" "t < length (f_threads s)" "f_threads s ! t = FNotify c r"
    and "f_signalled K (notifies K c) ((f_threads s)[t := FUnlock c (Some r)]) ths'"
  shows "\<exists>a'. mstep K a a' \<and> sim K prog r0 (s\<lparr>f_threads := ths'\<rparr>) a'"
proof -
  let ?a = "a\<lparr>mutex := None, threads := map abs_pc ths', shared := f_shared s, hist := hist a @ [(t, c, Some r)]\<rparr>"
  have m: "f_mutex s = Some t" and o: "owner_sim K prog r0 s t a"
    using sim_owner [OF assms(1,2)] assms(3) by simp_all
  have a: "mutex a = Some t" "defined K c (shared a)" "\<not> blocked K c (shared a)" "hist a = f_hist s"
    "run_stmts (prog c) (shared a, r0) = Ret (f_shared s, r)" using o assms(3) by (simp_all add: owner_sim_def)
  have th: "threads a = map abs_pc (f_threads s)" using assms(1) by (simp add: sim_def)
  have "mstep K a ?a"
  proof (rule mstep.run)
    show "signalled K (notifies K c) ((threads a)[t := Idle]) (map abs_pc ths')"
      using signalled_abs [OF assms(4)] by (simp add: th map_update)
  qed (use assms(2,3) a th prog_body in auto)
  moreover have "sim K prog r0 (s\<lparr>f_threads := ths'\<rparr>) ?a"
  proof -
    have i: "length ths' = length (f_threads s)"
      "u < length (f_threads s) \<Longrightarrow> inside (ths' ! u) = inside (f_threads s ! u)"
      "ths' ! t = FUnlock c (Some r)" for u
      using f_signalled_inside [OF assms(4), of u] f_signalled_inside [OF assms(4), of t] assms(2,3)
      by (auto simp: nth_list_update split: if_splits)
    then show ?thesis using assms(1,2) m a(4) by (auto simp: sim_def owner_sim_def)
  qed
  ultimately show ?thesis by blast
qed

lemma sim_step:
  assumes "fstep K prog r0 s s'" "sim K prog r0 s a"
  shows "\<exists>a'. (mstep K)\<^sup>*\<^sup>* a a' \<and> sim K prog r0 s' a'"
  using assms(1)
proof cases
  case (call t c)
  with sim_threads [OF assms(2), of t] sim_outside [OF assms(2), of t "FEnter c"] show ?thesis
    by (auto intro: mstep.call)
next
  case (lock t c)
  with sim_threads [OF assms(2), of t] sim_free [OF assms(2)] sim_lock [OF assms(2), of t c] show ?thesis
    by (auto intro: mstep.lock)
next
  case (test t c)
  with sim_owner [OF assms(2), of t] have "owner_sim K prog r0 s t a" by simp
  with test have "owner_sim K prog r0 (s\<lparr>f_threads := (f_threads s)[t := FRun c 0 r0], f_shared := f_shared s\<rparr>) t a"
    by (auto simp: owner_sim_def)
  from sim_inside [OF assms(2) _ _ _ _ this] test show ?thesis by auto
next
  case (wait t c)
  with sim_owner [OF assms(2), of t] have o: "f_mutex s = Some t" "mutex a = Some t" "shared a = f_shared s"
    "hist a = f_hist s" by (auto simp: owner_sim_def)
  have "mstep K a (a\<lparr>mutex := None, threads := (threads a)[t := Waiting c]\<rparr>)"
    using wait sim_threads [OF assms(2), of t] o by (auto intro: mstep.wait)
  moreover have "sim K prog r0 s' (a\<lparr>mutex := None, threads := (threads a)[t := Waiting c]\<rparr>)"
    using assms(2) wait o by (auto simp: sim_def map_update nth_list_update)
  ultimately show ?thesis by blast
next
  case (stmt t c k r q' r')
  with sim_owner [OF assms(2), of t] have "owner_sim K prog r0 s t a" by simp
  with stmt have "owner_sim K prog r0 (s\<lparr>f_threads := (f_threads s)[t := FRun c (Suc k) r'], f_shared := q'\<rparr>) t a"
    by (auto simp: owner_sim_def run_stmts_take)
  from sim_inside [OF assms(2) _ _ _ _ this] stmt show ?thesis by auto
next
  case (last t c r)
  with sim_owner [OF assms(2), of t] have "owner_sim K prog r0 s t a" by simp
  with last have "owner_sim K prog r0 (s\<lparr>f_threads := (f_threads s)[t := FNotify c r], f_shared := f_shared s\<rparr>) t a"
    by (auto simp: owner_sim_def)
  from sim_inside [OF assms(2) _ _ _ _ this] last show ?thesis by auto
next
  case (notify t c r ths')
  with sim_notify [OF assms(2), of t c r ths'] show ?thesis by blast
next
  case (unlock t c r)
  with sim_owner [OF assms(2), of t] have "f_mutex s = Some t" "mutex a = None" "shared a = f_shared s"
    "hist a = f_hist s @ [(t, c, r)]" by (auto simp: owner_sim_def)
  moreover have "map abs_pc ((f_threads s)[t := FIdle]) = map abs_pc (f_threads s)"
    using unlock by (metis abs_pc_simps(1,9) list_update_id map_update)
  ultimately have "sim K prog r0 s' a" using assms(2) unlock by (auto simp: sim_def nth_list_update)
  then show ?thesis by blast
next
  case (spurious t c)
  with sim_threads [OF assms(2), of t] sim_outside [OF assms(2), of t "FWoken c"] show ?thesis
    by (auto intro: mstep.spurious)
next
  case (timeout t c)
  with sim_threads [OF assms(2), of t] sim_outside [OF assms(2), of t "FTimedOut c"] show ?thesis
    by (auto intro: mstep.timeout)
next
  case (relock t c)
  with sim_threads [OF assms(2), of t] sim_free [OF assms(2)] sim_lock [OF assms(2), of t c] show ?thesis
    by (auto intro: mstep.relock)
next
  case (give_up t c)
  then have "mstep K a (a\<lparr>threads := (threads a)[t := Idle], hist := hist a @ [(t, c, None)]\<rparr>)"
    using sim_threads [OF assms(2), of t] sim_free [OF assms(2)] mstep.give_up [of t a c K] by simp
  moreover have "sim K prog r0 s' (a\<lparr>threads := (threads a)[t := Idle], hist := hist a @ [(t, c, None)]\<rparr>)"
    using assms(2) give_up by (auto simp: sim_def owner_sim_def map_update nth_list_update)
  ultimately show ?thesis by blast
qed

lemma sim_reach: "freach K prog r0 n q0 s \<Longrightarrow> \<exists>a. mreach K n q0 a \<and> sim K prog r0 s a"
proof (induction rule: rtranclp_induct)
  case base
  have "sim K prog r0 (finit n q0) (minit n q0)" by (simp add: sim_def finit_def minit_def)
  then show ?case by blast
next
  case (step s s')
  then show ?case using sim_step by (meson rtranclp_trans)
qed

end

text \<open>
  A state of the fine run that a coarse run explains: the threads are at the same places, the
  coarse log has the returned calls and at most the one that is about to return, and when no
  critical section is open the logs and the queues are the same.
\<close>

definition explained :: "('q, 'c, 'r) mclass \<Rightarrow> nat \<Rightarrow> 'q \<Rightarrow> ('q, 'c, 'r) fstate \<Rightarrow> bool" where
  "explained K n q0 s \<longleftrightarrow> (\<exists>a. mreach K n q0 a \<and> threads a = map abs_pc (f_threads s)
     \<and> (hist a = f_hist s \<or> (\<exists>e. hist a = f_hist s @ [e]))
     \<and> (f_mutex s = None \<longrightarrow> hist a = f_hist s \<and> shared a = f_shared s))"

lemma sim_explained: "\<exists>a. mreach K n q0 a \<and> sim K prog r0 s a \<Longrightarrow> explained K n q0 s"
  by (fastforce simp: explained_def sim_def owner_sim_def split: option.splits fpc.splits)

text \<open>Two threads are never inside together, and no statement fails.\<close>

definition exclusive :: "('q, 'c, 'r) fstate \<Rightarrow> bool" where
  "exclusive s \<longleftrightarrow> (\<forall>t < length (f_threads s). \<forall>u < length (f_threads s).
     inside (f_threads s ! t) \<and> inside (f_threads s ! u) \<longrightarrow> t = u)"

definition never_stuck :: "('c \<Rightarrow> ('q, 'r) stmt list) \<Rightarrow> ('q, 'c, 'r) fstate \<Rightarrow> bool" where
  "never_stuck prog s \<longleftrightarrow> (\<forall>t < length (f_threads s). \<forall>c k r.
     f_threads s ! t = FRun c k r \<and> k < length (prog c) \<longrightarrow>
       (\<exists>q' r'. (prog c ! k) (f_shared s, r) = Ret (q', r')))"

text \<open>With the laws of a monitor, no statement fails either.\<close>

locale monitor_statements = monitor K qinv avail + statements K prog r0
  for K :: "('q, 'c, 'r) mclass" and qinv avail prog r0
begin

lemma stmt_safe:
  assumes "freach K prog r0 n q0 s" "qinv q0" "t < length (f_threads s)" "f_threads s ! t = FRun c k r"
    and "k < length (prog c)"
  shows "\<exists>q' r'. (prog c ! k) (f_shared s, r) = Ret (q', r')"
proof -
  obtain a where a: "mreach K n q0 a" "sim K prog r0 s a" using sim_reach [OF assms(1)] by blast
  with sim_owner [OF a(2) assms(3)] assms(4) have d: "defined K c (shared a)" "\<not> blocked K c (shared a)"
    and k: "run_stmts (take k (prog c)) (shared a, r0) = Ret (f_shared s, r)" by (auto simp: owner_sim_def)
  obtain x where "body K c (shared a) = Ret x" using body_safe [OF a(1) assms(2) d] by blast
  then have "run_stmts (take k (prog c) @ prog c ! k # drop (Suc k) (prog c)) (shared a, r0) = Ret x"
    using prog_body [OF d] by (simp add: id_take_nth_drop [OF assms(5), symmetric])
  then show ?thesis using k by (auto simp: run_stmts_append exec_bind_Ret)
qed

lemma one_inside:
  assumes "freach K prog r0 n q0 s" "t < length (f_threads s)" "u < length (f_threads s)"
    and "inside (f_threads s ! t)" "inside (f_threads s ! u)"
  shows "t = u"
proof -
  obtain a where a: "sim K prog r0 s a" using sim_reach [OF assms(1)] by blast
  show ?thesis using sim_owner [OF a assms(2,4)] sim_owner [OF a assms(3,5)] by simp
qed

lemma fine_run:
  assumes "freach K prog r0 n q0 s" "qinv q0"
  shows "explained K n q0 s \<and> exclusive s \<and> never_stuck prog s"
  using sim_explained [OF sim_reach [OF assms(1)]] one_inside [OF assms(1)] stmt_safe [OF assms]
  by (auto simp: exclusive_def never_stuck_def)

end

section \<open>The statements of the classes\<close>

text \<open>The calls of the containers are the statements; \<^verbatim>\<open>pop_front\<close> of an empty deque is undefined.\<close>

definition st_assert :: "('q \<Rightarrow> bool) \<Rightarrow> ('q, 'r) stmt" where
  "st_assert P = (\<lambda>(q, r). exec_bind (exec_assert (P q)) (\<lambda>_. Ret (q, r)))"

definition st_front :: "('a list, 'a qres) stmt" where
  "st_front = (\<lambda>(q, r). exec_bind (stl_front q) (\<lambda>v. Ret (q, RValue v)))"

definition st_pop_front :: "('a list, 'a qres) stmt" where
  "st_pop_front = (\<lambda>(q, r). if q = [] then Undefined else Ret (tl q, r))"

definition st_push_back :: "'a \<Rightarrow> ('a list, 'a qres) stmt" where
  "st_push_back x = (\<lambda>(q, r). Ret (q @ [x], r))"

definition st_push_front :: "'a \<Rightarrow> ('a list, 'a qres) stmt" where
  "st_push_front x = (\<lambda>(q, r). Ret (x # q, r))"

definition st_push_heap :: "'a::linorder \<Rightarrow> ('a list, 'a qres) stmt" where
  "st_push_heap x = (\<lambda>(q, r). exec_bind (pq_push q x) (\<lambda>q. Ret (q, r)))"

definition st_size :: "('a list, 'a qres) stmt" where
  "st_size = (\<lambda>(q, r). Ret (q, RSize (length q)))"

definition st_return_true :: "('a list, 'a qres) stmt" where
  "st_return_true = (\<lambda>(q, r). Ret (q, RTrue))"

definition bq_prog :: "'a qcall \<Rightarrow> ('a list, 'a qres) stmt list" where
  "bq_prog c = (case c of CPush x \<Rightarrow> [st_push_back x] | CPushFront x \<Rightarrow> [st_push_front x]
     | CPop _ \<Rightarrow> [st_assert (\<lambda>q. q \<noteq> []), st_front, st_pop_front] | CSize \<Rightarrow> [st_size] | _ \<Rightarrow> [])"

definition bpq_prog :: "'a::linorder qcall \<Rightarrow> ('a list, 'a qres) stmt list" where
  "bpq_prog c = (case c of CPush x \<Rightarrow> [st_push_heap x]
     | CPop _ \<Rightarrow> [st_assert (\<lambda>q. q \<noteq> []), st_front, st_pop_front]
     | CTop _ \<Rightarrow> [st_assert (\<lambda>q. q \<noteq> []), st_front] | CSize \<Rightarrow> [st_size] | _ \<Rightarrow> [])"

definition bbq_prog :: "nat \<Rightarrow> 'a qcall \<Rightarrow> ('a list, 'a qres) stmt list" where
  "bbq_prog limit c = (case c of
       CPushW x _ \<Rightarrow> [st_assert (\<lambda>q. length q \<noteq> limit), st_push_back x, st_return_true]
     | CPushFrontW x _ \<Rightarrow> [st_assert (\<lambda>q. length q \<noteq> limit), st_push_front x, st_return_true]
     | CPop _ \<Rightarrow> [st_assert (\<lambda>q. q \<noteq> []), st_front, st_pop_front] | CSize \<Rightarrow> [st_size] | _ \<Rightarrow> [])"

lemmas st_defs = st_assert_def st_front_def st_pop_front_def st_push_back_def st_push_front_def
  st_push_heap_def st_size_def st_return_true_def
lemmas prog_defs = bq_prog_def bpq_prog_def bbq_prog_def

interpretation bq_st: monitor_statements bq_class "\<lambda>_. True" "\<lambda>d q. items (length q) d" bq_prog RVoid
  by unfold_locales
     (auto simp: bq_class_def class_defs body_defs prog_defs st_defs split: qcall.splits list.splits)

interpretation bpq_st: monitor_statements bpq_class "\<lambda>q. sorted (rev q)" "\<lambda>d q. items (length q) d" bpq_prog RVoid
  by unfold_locales
     (auto simp: bpq_class_def class_defs body_defs prog_defs st_defs split: qcall.splits list.splits)

interpretation bbq_st: monitor_statements "bbq_class limit" "\<lambda>q. length q \<le> limit"
    "\<lambda>d q. case d of NotEmpty \<Rightarrow> length q | NotFull \<Rightarrow> limit - length q" "bbq_prog limit" RVoid
  by unfold_locales
     (auto simp: bbq_class_def class_defs body_defs prog_defs st_defs split: qcall.splits list.splits)

section \<open>Properties\<close>

text \<open>
  C8. The critical sections of \<^verbatim>\<open>BlockingQueue\<close>, \<^verbatim>\<open>BlockingPriorityQueue\<close> and
  \<^verbatim>\<open>BoundedBlockingQueue\<close> are atomic, although lock, loop test, every call on the container,
  notification and unlock are separate steps of interleaved threads: every state such threads
  reach is explained by a run in which each critical section is one step, two threads are never
  inside together, and no statement (an assertion, \<^verbatim>\<open>front\<close> or \<^verbatim>\<open>pop_front\<close> of the container) ever
  fails or is undefined. So \<^verbatim>\<open>BlockingQueue\<close> keeps its order at this grain too: whenever the mutex
  is free, what was popped followed by what is queued is in the order the pushes fix.
\<close>

theorem critical_sections_atomic:
  "(freach bq_class bq_prog RVoid n [] s \<longrightarrow>
      explained bq_class n [] s \<and> exclusive s \<and> never_stuck bq_prog s
      \<and> (f_mutex s = None \<longrightarrow> deque_order (popped (f_hist s) @ f_shared s) (f_hist s)))
   \<and> (freach bpq_class bpq_prog RVoid n [] p \<longrightarrow>
      explained bpq_class n [] p \<and> exclusive p \<and> never_stuck bpq_prog p)
   \<and> (freach (bbq_class limit) (bbq_prog limit) RVoid n [] b \<longrightarrow>
      explained (bbq_class limit) n [] b \<and> exclusive b \<and> never_stuck (bbq_prog limit) b)"
proof -
  have "deque_order (popped (f_hist s) @ f_shared s) (f_hist s)"
    if "freach bq_class bq_prog RVoid n [] s" "f_mutex s = None"
    using bq_st.sim_reach [OF that(1)] bq_reach_order sim_free that(2) by metis
  then show ?thesis
    using bq_st.fine_run [of n "[]" s] bpq_st.fine_run [of n "[]" p] bbq_st.fine_run [of limit n "[]" b] by simp
qed

text \<open>
  Thread 1 blocks in \<^verbatim>\<open>pop\<close> of a \<^verbatim>\<open>BlockingQueue\<close>; thread 0 enters \<^verbatim>\<open>push\<close>, changes the deque and
  notifies. At that moment thread 1 is woken, but the mutex is still held.
\<close>

abbreviation fst_of :: "nat option \<Rightarrow> ('c, 'r) fpc list \<Rightarrow> 'q \<Rightarrow> (nat \<times> 'c \<times> 'r option) list \<Rightarrow>
    ('q, 'c, 'r) fstate" where
  "fst_of m ths q h \<equiv> \<lparr>f_mutex = m, f_threads = ths, f_shared = q, f_hist = h\<rparr>"

lemma sample_fine_reach:
  "freach bq_class bq_prog RVoid 2 []
     (fst_of (Some 0) [FUnlock (CPush 5) (Some RVoid), FWoken (CPop (- 1))] [5::nat] [])"
proof -
  let ?p = "CPop (- 1) :: nat qcall" and ?u = "CPush (5::nat)"
  let ?F = "fstep bq_class bq_prog RVoid"
  note K = bq_class_def class_defs body_defs bq_prog_def st_push_back_def
  have "?F (finit 2 []) (fst_of None [FIdle, FEnter ?p] [] [])"
    using fstep.call [of 1 "finit 2 []" bq_class bq_prog RVoid ?p] by (simp add: finit_def numeral_2_eq_2)
  moreover have "?F (fst_of None [FIdle, FEnter ?p] [] []) (fst_of (Some 1) [FIdle, FTest ?p] [] [])"
    using fstep.lock [of 1 "fst_of None [FIdle, FEnter ?p] [] []" ?p bq_class bq_prog RVoid] by simp
  moreover have "?F (fst_of (Some 1) [FIdle, FTest ?p] [] []) (fst_of None [FIdle, FWait ?p] [] [])"
    using fstep.wait [of 1 "fst_of (Some 1) [FIdle, FTest ?p] [] []" ?p bq_class bq_prog RVoid] by (simp add: K)
  ultimately have 1: "freach bq_class bq_prog RVoid 2 [] (fst_of None [FIdle, FWait ?p] [] [])"
    by (rule three_steps)
  have "?F (fst_of None [FIdle, FWait ?p] [] []) (fst_of None [FEnter ?u, FWait ?p] [] [])"
    using fstep.call [of 0 "fst_of None [FIdle, FWait ?p] [] []" bq_class bq_prog RVoid ?u] by simp
  moreover have "?F (fst_of None [FEnter ?u, FWait ?p] [] []) (fst_of (Some 0) [FTest ?u, FWait ?p] [] [])"
    using fstep.lock [of 0 "fst_of None [FEnter ?u, FWait ?p] [] []" ?u bq_class bq_prog RVoid] by simp
  moreover have "?F (fst_of (Some 0) [FTest ?u, FWait ?p] [] []) (fst_of (Some 0) [FRun ?u 0 RVoid, FWait ?p] [] [])"
    using fstep.test [of 0 "fst_of (Some 0) [FTest ?u, FWait ?p] [] []" ?u bq_class bq_prog RVoid] by (simp add: K)
  ultimately have 2: "?F\<^sup>*\<^sup>* (fst_of None [FIdle, FWait ?p] [] []) (fst_of (Some 0) [FRun ?u 0 RVoid, FWait ?p] [] [])"
    by (rule three_steps)
  have "?F (fst_of (Some 0) [FRun ?u 0 RVoid, FWait ?p] [] []) (fst_of (Some 0) [FRun ?u 1 RVoid, FWait ?p] [5] [])"
    using fstep.stmt [of 0 "fst_of (Some 0) [FRun ?u 0 RVoid, FWait ?p] [] []" ?u 0 RVoid bq_prog "[5]" RVoid bq_class RVoid]
    by (simp add: K)
  moreover have "?F (fst_of (Some 0) [FRun ?u 1 RVoid, FWait ?p] [5] []) (fst_of (Some 0) [FNotify ?u RVoid, FWait ?p] [5] [])"
    using fstep.last [of 0 "fst_of (Some 0) [FRun ?u 1 RVoid, FWait ?p] [5] []" ?u bq_prog RVoid bq_class RVoid]
    by (simp add: K)
  moreover have "?F (fst_of (Some 0) [FNotify ?u RVoid, FWait ?p] [5] [])
      (fst_of (Some 0) [FUnlock ?u (Some RVoid), FWoken ?p] [5] [])"
    using fstep.notify [of 0 "fst_of (Some 0) [FNotify ?u RVoid, FWait ?p] [5] []" ?u RVoid bq_class
        "[FUnlock ?u (Some RVoid), FWoken ?p]" bq_prog RVoid]
    by (simp add: K f_waiting_def) (force intro!: exI [of _ 1])
  ultimately have "?F\<^sup>*\<^sup>* (fst_of (Some 0) [FRun ?u 0 RVoid, FWait ?p] [] [])
      (fst_of (Some 0) [FUnlock ?u (Some RVoid), FWoken ?p] [5] [])" by (rule three_steps)
  with 1 2 show ?thesis by (meson rtranclp_trans)
qed

lemma sample_fine_done:
  "freach bq_class bq_prog RVoid 2 []
     (fst_of None [FIdle, FWoken (CPop (- 1))] [5::nat] [(0, CPush 5, Some RVoid)])"
  using fstep.unlock [of 0 "fst_of (Some 0) [FUnlock (CPush 5) (Some RVoid), FWoken (CPop (- 1))] [5::nat] []"
      "CPush 5" "Some RVoid" bq_class bq_prog RVoid] sample_fine_reach
  by (auto intro: rtranclp.rtrancl_into_rtrancl)

theorem critical_sections_atomic_witness:
  "explained bq_class 2 [] (fst_of (Some 0) [FUnlock (CPush 5) (Some RVoid), FWoken (CPop (- 1))] [5::nat] [])
    \<and> deque_order [5::nat] [(0, CPush 5, Some RVoid)]
    \<and> explained bpq_class 2 [] (finit 2 [] :: (nat list, nat qcall, nat qres) fstate)
    \<and> explained (bbq_class 4) 2 [] (finit 2 [] :: (nat list, nat qcall, nat qres) fstate)"
  using critical_sections_atomic [of 2 _ "finit 2 []" 4 "finit 2 []"] sample_fine_reach sample_fine_done
    critical_sections_atomic [of 2 "fst_of None [FIdle, FWoken (CPop (- 1))] [5::nat] [(0, CPush 5, Some RVoid)]"]
  by auto

end
