(* ===== verification/Locks.thy ===== *)
theory Locks
  imports Sperm_Prelude
begin

text \<open>
  \<^verbatim>\<open>common/lock.h\<close>, \<^verbatim>\<open>common/lock.cc\<close>, the \<^verbatim>\<open>Condition\<close> of \<^verbatim>\<open>common/cond.cc\<close> and the atomics of
  \<^verbatim>\<open>common/atomic.h\<close>. The result of a pthread call is an argument of the operation that makes
  it; pthread functions report failure by a positive error number, never by a negative one.
  The locks are also run as a step relation in which the two halves of \<^verbatim>\<open>lock\<close> and \<^verbatim>\<open>unlock\<close>, the
  pthread call and the update of \<^verbatim>\<open>holder_\<close>, interleave with other threads.
\<close>

section \<open>The operations\<close>

definition EBUSY :: int where "EBUSY = 16"
definition ETIMEDOUT :: int where "ETIMEDOUT = 110"

definition pthread_checked :: "int \<Rightarrow> 'a \<Rightarrow> 'a exec" where
  "pthread_checked ret x = (if ret < 0 then Fatal else Ret x)"

text \<open>\<^verbatim>\<open>MutexLock\<close> and \<^verbatim>\<open>SpinLock\<close> have the same fields; \<open>owner\<close> is the pthread lock.\<close>

record mutex_lock =
  owner :: "int option"
  holder :: int

definition MutexLock_ctor :: "int \<Rightarrow> mutex_lock exec" where
  "MutexLock_ctor ret = pthread_checked ret \<lparr>owner = None, holder = 0\<rparr>"

definition MutexLock_dtor :: "int \<Rightarrow> mutex_lock \<Rightarrow> unit exec" where
  "MutexLock_dtor ret l = exec_bind (exec_assert (holder l = 0)) (\<lambda>_. pthread_checked ret ())"

definition MutexLock_lock :: "int \<Rightarrow> int \<Rightarrow> mutex_lock \<Rightarrow> mutex_lock exec" where
  "MutexLock_lock ret tid l =
     exec_bind (pthread_checked ret (if ret = 0 then l\<lparr>owner := Some tid\<rparr> else l)) (\<lambda>l.
       Ret (l\<lparr>holder := tid\<rparr>))"

definition MutexLock_unlock :: "int \<Rightarrow> mutex_lock \<Rightarrow> mutex_lock exec" where
  "MutexLock_unlock ret l =
     exec_bind (pthread_checked ret (if ret = 0 then l\<lparr>owner := None\<rparr> else l)) (\<lambda>l.
       Ret (l\<lparr>holder := 0\<rparr>))"

definition MutexLock_trylock :: "int \<Rightarrow> int \<Rightarrow> mutex_lock \<Rightarrow> (bool \<times> mutex_lock) exec" where
  "MutexLock_trylock ret tid l =
     (let l = (if ret = 0 then l\<lparr>owner := Some tid\<rparr> else l) in
      if ret < 0 \<and> ret \<noteq> EBUSY then Fatal
      else if ret = EBUSY then Ret (False, l)
      else Ret (True, l))"

definition isLockedByThisThread :: "int \<Rightarrow> mutex_lock \<Rightarrow> bool" where
  "isLockedByThisThread tid l \<longleftrightarrow> holder l = tid"

definition Condition_timedWait :: "int \<Rightarrow> bool exec" where
  "Condition_timedWait ret =
     (if ret < 0 \<and> ret \<noteq> ETIMEDOUT then Fatal
      else if ret = ETIMEDOUT then Ret False
      else Ret True)"

definition Condition_wait :: "int \<Rightarrow> unit exec" where
  "Condition_wait ret = pthread_checked ret ()"

definition RWLock_lockForRead :: "int \<Rightarrow> unit exec" where
  "RWLock_lockForRead ret = pthread_checked ret ()"

definition RWLock_lockForWrite :: "int \<Rightarrow> unit exec" where
  "RWLock_lockForWrite ret = pthread_checked ret ()"

definition RWLock_unlock :: "int \<Rightarrow> unit exec" where
  "RWLock_unlock ret = pthread_checked ret ()"

text \<open>\<^verbatim>\<open>RWLock\<close> has no member beside the pthread lock; its destructor only warns.\<close>

definition RWLock_ctor :: "int \<Rightarrow> unit exec" where
  "RWLock_ctor ret = pthread_checked ret ()"

definition RWLock_dtor :: "int \<Rightarrow> unit exec" where
  "RWLock_dtor ret = Ret ()"

text \<open>The other members of \<^verbatim>\<open>Condition\<close>.\<close>

definition Condition_ctor :: "int \<Rightarrow> unit exec" where
  "Condition_ctor ret = pthread_checked ret ()"

definition Condition_dtor :: "int \<Rightarrow> unit exec" where
  "Condition_dtor ret = pthread_checked ret ()"

definition Condition_notify :: "int \<Rightarrow> unit exec" where
  "Condition_notify ret = pthread_checked ret ()"

definition Condition_notifyAll :: "int \<Rightarrow> unit exec" where
  "Condition_notifyAll ret = pthread_checked ret ()"

text \<open>\<^verbatim>\<open>SpinLock\<close>; the pthread spin lock is \<open>owner\<close>.\<close>

definition SpinLock_ctor :: "int \<Rightarrow> mutex_lock exec" where
  "SpinLock_ctor ret = pthread_checked ret \<lparr>owner = None, holder = 0\<rparr>"

definition SpinLock_dtor :: "int \<Rightarrow> mutex_lock \<Rightarrow> unit exec" where
  "SpinLock_dtor ret l = exec_bind (exec_assert (holder l = 0)) (\<lambda>_. pthread_checked ret ())"

definition SpinLock_lock :: "int \<Rightarrow> int \<Rightarrow> mutex_lock \<Rightarrow> mutex_lock exec" where
  "SpinLock_lock ret tid l =
     exec_bind (pthread_checked ret (if ret = 0 then l\<lparr>owner := Some tid\<rparr> else l)) (\<lambda>l.
       Ret (l\<lparr>holder := tid\<rparr>))"

definition SpinLock_unlock :: "int \<Rightarrow> mutex_lock \<Rightarrow> mutex_lock exec" where
  "SpinLock_unlock ret l =
     exec_bind (pthread_checked ret (if ret = 0 then l\<lparr>owner := None\<rparr> else l)) (\<lambda>l.
       Ret (l\<lparr>holder := 0\<rparr>))"

definition SpinLock_trylock :: "int \<Rightarrow> int \<Rightarrow> mutex_lock \<Rightarrow> (bool \<times> mutex_lock) exec" where
  "SpinLock_trylock ret tid l =
     (let l = (if ret = 0 then l\<lparr>owner := Some tid\<rparr> else l) in
      if ret < 0 \<and> ret \<noteq> EBUSY then Fatal
      else if ret = EBUSY then Ret (False, l)
      else Ret (True, l))"

definition SpinLock_isLockedByThisThread :: "int \<Rightarrow> mutex_lock \<Rightarrow> bool" where
  "SpinLock_isLockedByThisThread tid l \<longleftrightarrow> holder l = tid"

text \<open>\<^verbatim>\<open>NopLock\<close>, for queues that one thread uses: neither call does anything.\<close>

definition NopLock_lock :: "'s \<Rightarrow> 's exec" where
  "NopLock_lock s = Ret s"

definition NopLock_unlock :: "'s \<Rightarrow> 's exec" where
  "NopLock_unlock s = Ret s"

text \<open>\<^verbatim>\<open>LockGuard\<close>: lock, run the scope, unlock.\<close>

definition LockGuard_scope ::
    "int \<Rightarrow> int \<Rightarrow> int \<Rightarrow> ('s \<Rightarrow> ('s \<times> 'r) exec) \<Rightarrow> mutex_lock \<times> 's \<Rightarrow> ((mutex_lock \<times> 's) \<times> 'r) exec" where
  "LockGuard_scope ret ret' tid f ls =
     exec_bind (MutexLock_lock ret tid (fst ls)) (\<lambda>l.
     exec_bind (f (snd ls)) (\<lambda>(s, r).
     exec_bind (MutexLock_unlock ret' l) (\<lambda>l. Ret ((l, s), r))))"

text \<open>The template, for any type with \<^verbatim>\<open>lock\<close> and \<^verbatim>\<open>unlock\<close>.\<close>

definition LockGuard ::
    "('l \<Rightarrow> 'l exec) \<Rightarrow> ('l \<Rightarrow> 'l exec) \<Rightarrow> ('s \<Rightarrow> ('s \<times> 'r) exec) \<Rightarrow> 'l \<times> 's \<Rightarrow> (('l \<times> 's) \<times> 'r) exec" where
  "LockGuard lock unlock f ls =
     exec_bind (lock (fst ls)) (\<lambda>l.
     exec_bind (f (snd ls)) (\<lambda>(s, r).
     exec_bind (unlock l) (\<lambda>l. Ret ((l, s), r))))"

section \<open>Reference counts\<close>

text \<open>
  \<^verbatim>\<open>atomic_exchange_and_add\<close> and \<^verbatim>\<open>CompareAndSwap\<close> on a 32-bit cell: the new content and the
  value the primitive returns, the old content.
\<close>

definition exchange_and_add :: "u32 \<Rightarrow> u32 \<Rightarrow> u32 \<times> u32" where
  "exchange_and_add x v = (x + v, x)"

definition CompareAndSwap :: "'a \<Rightarrow> 'a \<Rightarrow> 'a \<Rightarrow> 'a \<times> 'a" where
  "CompareAndSwap x n o' = (if x = o' then n else x, x)"

definition AtomicGetValue :: "u32 \<Rightarrow> u32 \<times> u32" where
  "AtomicGetValue x = CompareAndSwap x 0 0"

definition RefCount_ctor :: u32 where
  "RefCount_ctor = 1"

definition RefCount_acquire :: "u32 \<Rightarrow> u32 \<times> u32" where
  "RefCount_acquire c = (let (c', o') = exchange_and_add c 1 in (c', o' + 1))"

definition RefCount_release :: "u32 \<Rightarrow> u32 \<times> u32" where
  "RefCount_release c = (let (c', o') = exchange_and_add c (- 1) in (c', o' - 1))"

definition RefCount_get :: "u32 \<Rightarrow> u32 \<times> u32" where
  "RefCount_get c = AtomicGetValue c"

text \<open>A run of acquires (\<open>True\<close>) and releases (\<open>False\<close>), in the order the hardware serialises them.\<close>

fun refcount_run :: "u32 \<Rightarrow> bool list \<Rightarrow> u32 list" where
  "refcount_run c [] = []"
| "refcount_run c (a # as) =
     (let (c', r) = (if a then RefCount_acquire c else RefCount_release c) in r # refcount_run c' as)"

section \<open>The locks as a step relation\<close>

datatype lock_pc = LIdle | LGot | LHeld | LReleased

record lock_state =
  lk :: mutex_lock
  lpc :: "int \<Rightarrow> lock_pc"

inductive lock_step :: "lock_state \<Rightarrow> lock_state \<Rightarrow> bool" where
  acquire: "\<lbrakk>t > 0; lpc s t = LIdle; owner (lk s) = None\<rbrakk> \<Longrightarrow>
    lock_step s (s\<lparr>lk := (lk s)\<lparr>owner := Some t\<rparr>, lpc := (lpc s)(t := LGot)\<rparr>)"
| set_holder: "lpc s t = LGot \<Longrightarrow>
    lock_step s (s\<lparr>lk := (lk s)\<lparr>holder := t\<rparr>, lpc := (lpc s)(t := LHeld)\<rparr>)"
| release: "lpc s t = LHeld \<Longrightarrow>
    lock_step s (s\<lparr>lk := (lk s)\<lparr>owner := None\<rparr>, lpc := (lpc s)(t := LReleased)\<rparr>)"
| clear_holder: "lpc s t = LReleased \<Longrightarrow>
    lock_step s (s\<lparr>lk := (lk s)\<lparr>holder := 0\<rparr>, lpc := (lpc s)(t := LIdle)\<rparr>)"
| trylock: "\<lbrakk>t > 0; lpc s t = LIdle; MutexLock_trylock ret t (lk s) = Ret (ok, l);
     ret = (if owner (lk s) = None then 0 else EBUSY)\<rbrakk> \<Longrightarrow>
    lock_step s (s\<lparr>lk := l, lpc := (lpc s)(t := if ok then LHeld else LIdle)\<rparr>)"

definition lock_init :: lock_state where
  "lock_init = \<lparr>lk = \<lparr>owner = None, holder = 0\<rparr>, lpc = (\<lambda>_. LIdle)\<rparr>"

definition lock_inv :: "lock_state \<Rightarrow> bool" where
  "lock_inv s \<longleftrightarrow> (\<forall>t. lpc s t \<in> {LGot, LHeld} \<longleftrightarrow> owner (lk s) = Some t)
     \<and> (\<forall>t. holder (lk s) = t \<and> t > 0 \<longrightarrow> lpc s t \<in> {LHeld, LReleased}) \<and> (\<forall>t. lpc s t \<noteq> LIdle \<longrightarrow> t > 0)"

lemma lock_inv_step: "lock_step s s' \<Longrightarrow> lock_inv s \<Longrightarrow> lock_inv s'"
proof (induction rule: lock_step.induct)
  case (acquire t s)
  then show ?case by (auto simp: lock_inv_def split: if_splits)
next
  case (set_holder s t)
  then show ?case by (auto simp: lock_inv_def split: if_splits)
next
  case (release s t)
  then show ?case by (auto simp: lock_inv_def split: if_splits) (metis lock_pc.distinct option.inject)+
next
  case (clear_holder s t)
  then show ?case by (auto simp: lock_inv_def split: if_splits) (metis lock_pc.distinct)+
next
  case (trylock t s ret ok l)
  then show ?case by (auto simp: lock_inv_def MutexLock_trylock_def EBUSY_def Let_def split: if_splits)
      (metis lock_pc.distinct)+
qed

lemma lock_inv_reach: "lock_step\<^sup>*\<^sup>* lock_init s \<Longrightarrow> lock_inv s"
  by (induction rule: rtranclp_induct) (auto simp: lock_inv_step, simp add: lock_init_def lock_inv_def)

section \<open>Properties\<close>

text \<open>
  A thread that is told it holds the lock does hold it: in every reachable state, when
  \<^verbatim>\<open>isLockedByThisThread\<close> answers \<^verbatim>\<open>true\<close> to a thread that is not in the middle of \<^verbatim>\<open>unlock\<close>, that
  thread owns the pthread lock; and at most one thread does.
\<close>

theorem holder_sound:
  assumes "lock_step\<^sup>*\<^sup>* lock_init s" "isLockedByThisThread t (lk s)" "t > 0" "lpc s t \<noteq> LReleased"
  shows "owner (lk s) = Some t \<and> (\<forall>u. lpc s u = LHeld \<longrightarrow> u = t)"
  using lock_inv_reach [OF assms(1)] assms(2-)
  unfolding lock_inv_def isLockedByThisThread_def by (metis insertCI insertE option.inject singletonD)

lemma lock_once:
  "lock_step\<^sup>*\<^sup>* lock_init \<lparr>lk = \<lparr>owner = Some 1, holder = 1\<rparr>, lpc = (\<lambda>_. LIdle)(1 := LHeld)\<rparr>"
proof -
  have "lock_step lock_init \<lparr>lk = \<lparr>owner = Some 1, holder = 0\<rparr>, lpc = (\<lambda>_. LIdle)(1 := LGot)\<rparr>"
    using acquire [of 1 lock_init] by (simp add: lock_init_def)
  moreover have "lock_step \<lparr>lk = \<lparr>owner = Some 1, holder = 0\<rparr>, lpc = (\<lambda>_. LIdle)(1 := LGot)\<rparr>
      \<lparr>lk = \<lparr>owner = Some 1, holder = 1\<rparr>, lpc = (\<lambda>_. LIdle)(1 := LHeld)\<rparr>"
    using set_holder [of "\<lparr>lk = \<lparr>owner = Some 1, holder = 0\<rparr>, lpc = (\<lambda>_. LIdle)(1 := LGot)\<rparr>" 1] by simp
  ultimately show ?thesis by (rule two_steps)
qed

theorem holder_sound_witness:
  "owner (lk \<lparr>lk = \<lparr>owner = Some 1, holder = 1\<rparr>, lpc = (\<lambda>_. LIdle)(1 := LHeld)\<rparr>) = Some 1"
  using holder_sound [OF lock_once, of 1] by (simp add: isLockedByThisThread_def)

text \<open>
  The converse fails. \<^verbatim>\<open>unlock\<close> clears \<^verbatim>\<open>holder_\<close> after it has given the lock away: the clearing
  store of the previous owner can hit after the next owner has entered its critical section, which
  then owns the lock while \<^verbatim>\<open>isLockedByThisThread\<close> denies it.
\<close>

theorem holder_cleared_by_previous_owner:
  "\<exists>s. lock_step\<^sup>*\<^sup>* lock_init s \<and> lpc s 2 = LHeld \<and> owner (lk s) = Some 2
     \<and> \<not> isLockedByThisThread 2 (lk s)"
proof -
  let ?S = "\<lambda>w h p. \<lparr>lk = \<lparr>owner = w, holder = h\<rparr>, lpc = p\<rparr>"
  let ?p = "\<lambda>_. LIdle"
  have 1: "lock_step (?S (Some 1) 1 (?p(1 := LHeld))) (?S None 1 (?p(1 := LReleased)))"
    using release [of "?S (Some 1) 1 (?p(1 := LHeld))" 1] by simp
  have 2: "lock_step (?S None 1 (?p(1 := LReleased))) (?S (Some 2) 1 (?p(1 := LReleased, 2 := LGot)))"
    using acquire [of 2 "?S None 1 (?p(1 := LReleased))"] by simp
  have 3: "lock_step (?S (Some 2) 1 (?p(1 := LReleased, 2 := LGot))) (?S (Some 2) 2 (?p(1 := LReleased, 2 := LHeld)))"
    using set_holder [of "?S (Some 2) 1 (?p(1 := LReleased, 2 := LGot))" 2] by simp
  have 4: "lock_step (?S (Some 2) 2 (?p(1 := LReleased, 2 := LHeld))) (?S (Some 2) 0 (?p(2 := LHeld)))"
    using clear_holder [of "?S (Some 2) 2 (?p(1 := LReleased, 2 := LHeld))" 1]
    by (simp add: fun_upd_twist fun_upd_idem)
  note to = rtranclp.rtrancl_into_rtrancl [of lock_step]
  from to [OF to [OF to [OF to [OF lock_once 1] 2] 3] 4] show ?thesis
    by (intro exI conjI, assumption) (simp_all add: isLockedByThisThread_def)
qed

text \<open>
  No failure of a pthread call is ever noticed: pthread functions return positive error
  numbers, all the tests are \<^verbatim>\<open>ret < 0\<close>, so \<^verbatim>\<open>lock\<close> returns normally and records the caller as holder even
  when the mutex was not acquired, and a failed \<^verbatim>\<open>timedWait\<close> other than a time-out counts as a wake-up.
\<close>

theorem pthread_errors_ignored:
  assumes "ret > 0"
  shows "MutexLock_lock ret tid l = Ret (l\<lparr>holder := tid\<rparr>)
    \<and> MutexLock_unlock ret l = Ret (l\<lparr>holder := 0\<rparr>)
    \<and> (ret \<noteq> EBUSY \<longrightarrow> MutexLock_trylock ret tid l = Ret (True, l))
    \<and> (ret \<noteq> ETIMEDOUT \<longrightarrow> Condition_timedWait ret = Ret True)
    \<and> RWLock_lockForRead ret = Ret () \<and> RWLock_lockForWrite ret = Ret () \<and> RWLock_unlock ret = Ret ()"
  using assms
  by (auto simp: MutexLock_lock_def MutexLock_unlock_def MutexLock_trylock_def Condition_timedWait_def
      RWLock_lockForRead_def RWLock_lockForWrite_def RWLock_unlock_def pthread_checked_def)

theorem pthread_errors_ignored_witness:
  "MutexLock_lock 35 7 \<lparr>owner = Some 3, holder = 3\<rparr> = Ret \<lparr>owner = Some 3, holder = 7\<rparr>"
  using pthread_errors_ignored [of 35 7 "\<lparr>owner = Some 3, holder = 3\<rparr>"] by simp

subsection \<open>Guards\<close>

text \<open>
  What \<^verbatim>\<open>LockGuard\<close> needs of the type it guards: locking a free lock succeeds, the lock is then held, and unlocking frees
  it again.
\<close>

locale lockable =
  fixes lock unlock :: "'l \<Rightarrow> 'l exec" and free :: "'l \<Rightarrow> bool"
  assumes lock_free: "free l \<Longrightarrow> returns (lock l) (\<lambda>l'. returns (unlock l') free)"
begin

lemma guard_scope:
  assumes "free l" "f s = Ret (s', r)"
  obtains l' where "LockGuard lock unlock f (l, s) = Ret ((l', s'), r)" "free l'"
  using lock_free [OF assms(1)] assms(2) by (auto simp: LockGuard_def returns_iff)

lemma guard_aborts: "free l \<Longrightarrow> f s = Fatal \<Longrightarrow> LockGuard lock unlock f (l, s) = Fatal"
  using lock_free [of l] by (auto simp: LockGuard_def returns_iff)

end

definition lock_free_for :: "mutex_lock \<Rightarrow> bool" where
  "lock_free_for l \<longleftrightarrow> owner l = None \<and> holder l = 0"

interpretation mutex: lockable "MutexLock_lock 0 tid" "MutexLock_unlock 0" lock_free_for
  by unfold_locales (simp add: lock_free_for_def MutexLock_lock_def MutexLock_unlock_def pthread_checked_def)

interpretation spin: lockable "SpinLock_lock 0 tid" "SpinLock_unlock 0" lock_free_for
  by unfold_locales (simp add: lock_free_for_def SpinLock_lock_def SpinLock_unlock_def pthread_checked_def)

interpretation nop: lockable NopLock_lock NopLock_unlock "\<lambda>_. True"
  by unfold_locales (simp add: NopLock_lock_def NopLock_unlock_def)

text \<open>
  A scope that is guarded by a lock of any of the three types runs as without the guard and leaves the lock as it was;
  the destructors accept it. A lock that \<^verbatim>\<open>trylock\<close> took has no holder: the destructor accepts it while it is locked.
\<close>

theorem guarded_scopes:
  assumes "lock_free_for l" "f s = Ret (s', r)"
  shows "LockGuard (MutexLock_lock 0 tid) (MutexLock_unlock 0) f (l, s) = Ret ((l, s'), r)
    \<and> LockGuard (SpinLock_lock 0 tid) (SpinLock_unlock 0) f (l, s) = Ret ((l, s'), r)
    \<and> LockGuard NopLock_lock NopLock_unlock f (n, s) = Ret ((n, s'), r)
    \<and> MutexLock_dtor 0 l = Ret () \<and> SpinLock_dtor 0 l = Ret ()
    \<and> SpinLock_trylock 0 tid l = Ret (True, l\<lparr>owner := Some tid\<rparr>) \<and> SpinLock_dtor 0 (l\<lparr>owner := Some tid\<rparr>) = Ret ()"
proof (intro conjI)
  have l: "l' = l" if "lock_free_for l'" for l' :: mutex_lock
    using that assms(1) by (auto simp: lock_free_for_def intro: mutex_lock.equality)
  show "LockGuard (MutexLock_lock 0 tid) (MutexLock_unlock 0) f (l, s) = Ret ((l, s'), r)"
    by (rule mutex.guard_scope [of l f s s' r tid, OF assms]) (simp add: l)
  show "LockGuard (SpinLock_lock 0 tid) (SpinLock_unlock 0) f (l, s) = Ret ((l, s'), r)"
    by (rule spin.guard_scope [of l f s s' r tid, OF assms]) (simp add: l)
  show "LockGuard NopLock_lock NopLock_unlock f (n, s) = Ret ((n, s'), r)"
    using assms(2) by (simp add: LockGuard_def NopLock_lock_def NopLock_unlock_def)
qed (use assms(1) in \<open>simp_all add: lock_free_for_def MutexLock_dtor_def SpinLock_dtor_def SpinLock_trylock_def
    pthread_checked_def EBUSY_def\<close>)

theorem guarded_scopes_witness:
  "LockGuard (SpinLock_lock 0 7) (SpinLock_unlock 0) (\<lambda>s. Ret (s + 1, s)) (\<lparr>owner = None, holder = 0\<rparr>, 4 :: nat)
     = Ret ((\<lparr>owner = None, holder = 0\<rparr>, 5), 4)"
  using guarded_scopes [of "\<lparr>owner = None, holder = 0\<rparr>" "\<lambda>s :: nat. Ret (s + 1, s)" 4 5 4 7 "()"] by (simp add: lock_free_for_def)

subsection \<open>Reference counts reach zero once\<close>

lemma refcount_run_nth:
  "i < length as \<Longrightarrow> refcount_run c as ! i =
     c + of_int (int (length (filter id (take (Suc i) as))) - int (length (filter Not (take (Suc i) as))))"
proof (induction as arbitrary: c i)
  case (Cons a as)
  then show ?case
    by (cases i) (auto simp: RefCount_acquire_def RefCount_release_def exchange_and_add_def Let_def)
qed simp

lemma filter_id_Not: "length (filter id bs) + length (filter Not bs) = length bs"
  by (induction bs) auto

lemma of_int_eq_0_small: "\<bar>k\<bar> < 2 ^ 32 \<Longrightarrow> (of_int k :: u32) = 0 \<longleftrightarrow> k = 0"
  by (auto simp: word_of_int_eq_0_iff dest: dvd_imp_le_int)

text \<open>
  C39. A reference count that starts at 1 returns 0 exactly once: when every prefix of the
  acquires and releases leaves at least one reference, up to the last release which drops the
  last one, that release, and no other, returns 0. The object is freed exactly once.
\<close>

theorem refcount_zero_once:
  assumes "length as < 2 ^ 31"
    and "\<forall>n < length as. length (filter Not (take n as)) \<le> length (filter id (take n as))"
    and "length (filter Not as) = Suc (length (filter id as))"
    and "i < length as"
  shows "refcount_run RefCount_ctor as ! i = 0 \<longleftrightarrow> i = length as - 1"
proof -
  let ?d = "1 + int (length (filter id (take (Suc i) as))) - int (length (filter Not (take (Suc i) as)))"
  have "refcount_run RefCount_ctor as ! i = of_int ?d"
    using refcount_run_nth [OF assms(4), of RefCount_ctor] by (simp add: RefCount_ctor_def)
  moreover have "\<bar>?d\<bar> < 2 ^ 32"
    using assms(1,4) filter_id_Not [of "take (Suc i) as"] by simp
  ultimately have "refcount_run RefCount_ctor as ! i = 0 \<longleftrightarrow> ?d = 0" by (simp only: of_int_eq_0_small)
  also have "\<dots> \<longleftrightarrow> i = length as - 1"
    using assms(2) [rule_format, of "Suc i"] assms(3,4) by (cases "Suc i < length as") auto
  finally show ?thesis .
qed

theorem refcount_zero_once_witness:
  "refcount_run RefCount_ctor [True, False, False] ! 2 = 0"
  using refcount_zero_once [of "[True, False, False]" 2] by (simp add: less_Suc_eq)

end
