(* ===== verification/Semaphores.thy ===== *)
theory Semaphores
  imports Linked_Queue Locks
begin

text \<open>
  The counting conditions of \<^verbatim>\<open>common/cond.h\<close> and \<^verbatim>\<open>common/cond.cc\<close>, \<^verbatim>\<open>FutexCondition\<close> and
  \<^verbatim>\<open>FileDescriptorCondition\<close>, and \<^verbatim>\<open>SyncedQueue\<close> of \<^verbatim>\<open>common/queue.h\<close>, which uses one of them to count the
  items of a queue. Threads are anonymous: the state counts how many of them are at each point of
  the code, which is all the steps depend on.
\<close>

section \<open>FutexCondition\<close>

text \<open>
  \<open>counter\<close> is the \<^verbatim>\<open>int32_t\<close> cell, changed by exchange-and-add and compared as a signed number.
  \<open>n_dec\<close>: in \<^verbatim>\<open>wait\<close>, after the decrement found no resource, before \<^verbatim>\<open>FUTEX_WAIT\<close>. \<open>n_sleep\<close>: asleep in
  \<^verbatim>\<open>FUTEX_WAIT\<close>. \<open>n_expired\<close>: back from it with \<^verbatim>\<open>ETIMEDOUT\<close>. \<open>n_wake\<close>: in \<^verbatim>\<open>anotify_\<close>, about to call
  \<^verbatim>\<open>FUTEX_WAKE\<close> once. \<open>n_notify\<close>: in the loop of \<^verbatim>\<open>notify\<close>. Four counts only observe: \<open>n_failed\<close> the calls of
  \<^verbatim>\<open>wait\<close> that returned \<^verbatim>\<open>false\<close> because \<^verbatim>\<open>FUTEX_WAIT\<close> failed with another error, \<open>waited\<close> the calls of
  \<^verbatim>\<open>wait\<close>, \<open>granted\<close> those that returned \<^verbatim>\<open>true\<close>, \<open>notified\<close> the calls of \<^verbatim>\<open>notify\<close> and \<^verbatim>\<open>anotify\<close>.
\<close>

record futex =
  counter :: u32
  n_dec :: nat
  n_sleep :: nat
  n_expired :: nat
  n_wake :: nat
  n_notify :: nat
  n_failed :: nat
  waited :: nat
  granted :: nat
  notified :: nat

definition futex_init :: "nat \<Rightarrow> futex" where
  "futex_init resource = \<lparr>counter = of_nat resource, n_dec = 0, n_sleep = 0, n_expired = 0, n_wake = 0,
     n_notify = 0, n_failed = 0, waited = 0, granted = 0, notified = 0\<rparr>"

text \<open>The first, atomic, part of \<^verbatim>\<open>wait\<close>.\<close>

definition futex_wait :: "futex \<Rightarrow> futex" where
  "futex_wait f =
     (let (c, n) = exchange_and_add (counter f) (- 1); f = f\<lparr>counter := c, waited := waited f + 1\<rparr> in
      if 1 \<le> sint n then f\<lparr>granted := granted f + 1\<rparr> else f\<lparr>n_dec := n_dec f + 1\<rparr>)"

text \<open>The increment and the test of \<^verbatim>\<open>anotify_(1, threshold)\<close>.\<close>

definition futex_anotify :: "int \<Rightarrow> futex \<Rightarrow> futex" where
  "futex_anotify threshold f =
     (let (c, n) = exchange_and_add (counter f) 1; f = f\<lparr>counter := c\<rparr> in
      if threshold \<le> sint n then f else f\<lparr>n_wake := n_wake f + 1\<rparr>)"

text \<open>The increment and the test of \<^verbatim>\<open>notify\<close>.\<close>

definition futex_notify :: "futex \<Rightarrow> futex" where
  "futex_notify f =
     (let (c, n) = exchange_and_add (counter f) 1; f = f\<lparr>counter := c\<rparr> in
      if 0 \<le> sint n then f else f\<lparr>n_notify := n_notify f + 1\<rparr>)"

text \<open>A sleeper whose \<^verbatim>\<open>FUTEX_WAIT\<close> returns 0 returns \<^verbatim>\<open>true\<close> from \<^verbatim>\<open>wait\<close>.\<close>

definition futex_wake_one :: "futex \<Rightarrow> futex" where
  "futex_wake_one f = f\<lparr>n_sleep := n_sleep f - 1, granted := granted f + 1\<rparr>"

text \<open>
  \<open>timeouts\<close> says whether some caller passes a deadline, \<open>spurious\<close> whether \<^verbatim>\<open>FUTEX_WAIT\<close> may return 0
  without a \<^verbatim>\<open>FUTEX_WAKE\<close>, which its manual page does not exclude. A signal (\<^verbatim>\<open>EINTR\<close>) sends a sleeper back
  to the call, any other failure makes \<^verbatim>\<open>wait\<close> return \<^verbatim>\<open>false\<close>; \<^verbatim>\<open>EWOULDBLOCK\<close> cannot occur, since the
  lock word is never written.
\<close>

inductive futex_step :: "bool \<Rightarrow> bool \<Rightarrow> futex \<Rightarrow> futex \<Rightarrow> bool" for timeouts spurious where
  wait: "futex_step timeouts spurious f (futex_wait f)"
| sleep: "0 < n_dec f \<Longrightarrow>
    futex_step timeouts spurious f (f\<lparr>n_dec := n_dec f - 1, n_sleep := n_sleep f + 1\<rparr>)"
| interrupt: "0 < n_sleep f \<Longrightarrow>
    futex_step timeouts spurious f (f\<lparr>n_sleep := n_sleep f - 1, n_dec := n_dec f + 1\<rparr>)"
| fail: "0 < n_sleep f \<Longrightarrow>
    futex_step timeouts spurious f (f\<lparr>n_sleep := n_sleep f - 1, n_failed := n_failed f + 1\<rparr>)"
| notify: "futex_step timeouts spurious f ((futex_notify f)\<lparr>notified := notified f + 1\<rparr>)"
| notify_wake: "\<lbrakk>0 < n_notify f; 0 < n_sleep f\<rbrakk> \<Longrightarrow>
    futex_step timeouts spurious f ((futex_wake_one f)\<lparr>n_notify := n_notify f - 1\<rparr>)"
| anotify: "futex_step timeouts spurious f ((futex_anotify 0 f)\<lparr>notified := notified f + 1\<rparr>)"
| expire: "\<lbrakk>timeouts; 0 < n_sleep f\<rbrakk> \<Longrightarrow>
    futex_step timeouts spurious f (f\<lparr>n_sleep := n_sleep f - 1, n_expired := n_expired f + 1\<rparr>)"
| give_up: "0 < n_expired f \<Longrightarrow>
    futex_step timeouts spurious f (futex_anotify (- 1) (f\<lparr>n_expired := n_expired f - 1\<rparr>))"
| wake: "0 < n_wake f \<Longrightarrow>
    futex_step timeouts spurious f
      (if 0 < n_sleep f then (futex_wake_one f)\<lparr>n_wake := n_wake f - 1\<rparr> else f\<lparr>n_wake := n_wake f - 1\<rparr>)"
| spurious_return: "\<lbrakk>spurious; 0 < n_sleep f\<rbrakk> \<Longrightarrow> futex_step timeouts spurious f (futex_wake_one f)"

text \<open>
  As long as fewer than \<open>2 ^ 31\<close> notifications and no more than \<open>2 ^ 31\<close> waits have happened, the 32-bit
  counter is the exact difference.
\<close>

definition futex_in_range :: "nat \<Rightarrow> futex \<Rightarrow> bool" where
  "futex_in_range resource f \<longleftrightarrow> resource + notified f < 2 ^ 31 \<and> waited f \<le> 2 ^ 31"

definition futex_inv :: "nat \<Rightarrow> futex \<Rightarrow> bool" where
  "futex_inv resource f \<longleftrightarrow> n_expired f = 0
     \<and> granted f + n_dec f + n_sleep f + n_failed f = waited f
     \<and> int (waited f) + sint (counter f) = int resource + int (notified f)
     \<and> n_notify f + n_wake f \<le> n_dec f + n_sleep f + n_failed f
     \<and> int (n_notify f + n_wake f) \<le> sint (counter f) + int (n_dec f) + int (n_sleep f) + int (n_failed f)"

lemma sint_add_exact:
  fixes w :: u32
  assumes "- (2 ^ 31) \<le> sint w + k" "sint w + k < 2 ^ 31"
  shows "sint (w + word_of_int k) = sint w + k"
proof -
  have "sint (w + word_of_int k) = sint (word_of_int (sint w + k) :: u32)" by simp
  also have "\<dots> = signed_take_bit 31 (sint w + k)" by (simp only: sint_sbintrunc') simp
  also have "\<dots> = sint w + k" using assms by (intro signed_take_bit_int_eq_self) auto
  finally show ?thesis .
qed

lemma sint_step [simp]:
  fixes w :: u32
  shows "- (2 ^ 31) < sint w \<Longrightarrow> sint (w - 1) = sint w - 1"
    and "sint w + 1 < 2 ^ 31 \<Longrightarrow> sint (w + 1) = sint w + 1"
  using sint_add_exact [of w "- 1"] sint_add_exact [of w 1] sint_lt [of w] sint_ge [of w] by simp_all

lemmas futex_defs = futex_wait_def futex_anotify_def futex_notify_def futex_wake_one_def
  exchange_and_add_def Let_def

lemma futex_step_counts:
  "futex_step b c f f' \<Longrightarrow>
     granted f \<le> granted f' \<and> notified f \<le> notified f' \<and> waited f \<le> waited f'"
  by (induction rule: futex_step.induct) (auto simp: futex_defs)

lemma futex_inv_step:
  assumes "futex_step False False f f'" "futex_inv r f" "futex_in_range r f'"
  shows "futex_inv r f'"
  using assms by (induction rule: futex_step.induct)
    (auto simp: futex_inv_def futex_in_range_def futex_defs split: if_splits)

lemma futex_inv_reach:
  "(futex_step False False)\<^sup>*\<^sup>* (futex_init r) f \<Longrightarrow> futex_in_range r f \<Longrightarrow> futex_inv r f"
proof (induction rule: rtranclp_induct)
  case base
  have "sint (of_nat r :: u32) = int r"
    using base sint_add_exact [of 0 "int r"] by (simp add: futex_in_range_def futex_init_def)
  then show ?case by (simp add: futex_init_def futex_inv_def)
next
  case (step f f')
  then have "futex_in_range r f" using futex_step_counts [OF step(2)] by (auto simp: futex_in_range_def)
  with step show ?case by (blast intro: futex_inv_step)
qed

section \<open>FileDescriptorCondition\<close>

text \<open>
  The result of a one-byte \<^verbatim>\<open>read\<close>: a byte, \<^verbatim>\<open>EAGAIN\<close>, or another failure. A round of the loop is the result
  of \<^verbatim>\<open>epoll_wait\<close>, of the \<^verbatim>\<open>read\<close> that follows it, and the milliseconds that went by. The function
  returns the answer and how many bytes were consumed; \<open>None\<close> while rounds are still to come.
\<close>

datatype fd_read = RdByte | RdAgain | RdError

fun fd_loop :: "int \<Rightarrow> (int \<times> fd_read \<times> int) list \<Rightarrow> (bool \<times> nat) option exec" where
  "fd_loop wait_ms rounds =
     (if \<not> 0 < wait_ms then Ret (Some (True, 0))
      else (case rounds of [] \<Rightarrow> Ret None
        | (n, rd, dt) # rounds \<Rightarrow>
            if n < 0 then Ret (Some (False, 0))
            else if n = 0 then Ret (Some (False, 0))
            else exec_bind (exec_assert (n = 1)) (\<lambda>_.
              case rd of RdByte \<Rightarrow> Ret (Some (True, 1))
              | RdError \<Rightarrow> Ret (Some (False, 0))
              | RdAgain \<Rightarrow> (let wait_ms = wait_ms - dt in
                  if wait_ms \<le> 0 then Ret (Some (False, 0)) else fd_loop wait_ms rounds))))"

declare fd_loop.simps [simp del]

definition fd_wait :: "int \<Rightarrow> fd_read \<Rightarrow> (int \<times> fd_read \<times> int) list \<Rightarrow> (bool \<times> nat) option exec" where
  "fd_wait wait_ms first rounds =
     (case first of RdByte \<Rightarrow> Ret (Some (True, 1))
      | RdError \<Rightarrow> Ret (Some (False, 0))
      | RdAgain \<Rightarrow> if wait_ms \<le> 0 then Ret (Some (False, 0)) else fd_loop wait_ms rounds)"

text \<open>\<^verbatim>\<open>anotify\<close> succeeds when the one-byte write does; \<^verbatim>\<open>notify\<close> repeats it as long as the pipe is full.\<close>

definition fd_anotify :: "int \<Rightarrow> bool" where
  "fd_anotify written = (if written \<noteq> 1 then False else True)"

fun fd_notify :: "(int \<times> bool) list \<Rightarrow> nat option" where
  "fd_notify [] = None"
| "fd_notify ((written, again) # ws) =
     (if fd_anotify written then Some 1 else if \<not> again then Some 0 else fd_notify ws)"

lemma fd_loop_token:
  "0 < wait_ms \<Longrightarrow> fd_loop wait_ms rounds = Ret (Some (b, k)) \<Longrightarrow> b \<longleftrightarrow> k = 1"
proof (induction wait_ms rounds rule: fd_loop.induct)
  case (1 wait_ms rounds)
  then show ?case
    by (subst (asm) (2) fd_loop.simps)
       (auto simp: Let_def exec_simps split: list.splits if_splits fd_read.splits)
qed

section \<open>SyncedQueue\<close>

text \<open>
  \<open>s_pushed\<close>: threads that have to notify, after their \<^verbatim>\<open>push\<close> or after a \<^verbatim>\<open>top\<close>. \<open>s_claims\<close>: threads whose
  \<^verbatim>\<open>wait\<close> returned \<^verbatim>\<open>true\<close> and that have not taken the lock yet. The queue \<open>Q\<close> is any of the sequential
  queues, here its list; \<^verbatim>\<open>pop\<close> and \<^verbatim>\<open>top\<close> of an empty queue are undefined.
\<close>

record 'a synced =
  s_queue :: "'a list"
  s_cond :: futex
  s_pushed :: nat
  s_claims :: nat

inductive synced_step :: "bool \<Rightarrow> bool \<Rightarrow> 'a synced \<Rightarrow> 'a synced \<Rightarrow> bool" for timeouts spurious where
  push: "stl_push (s_queue s) x = Ret q \<Longrightarrow>
    synced_step timeouts spurious s (s\<lparr>s_queue := q, s_pushed := s_pushed s + 1\<rparr>)"
| push_front: "stl_push_front (s_queue s) x = Ret q \<Longrightarrow>
    synced_step timeouts spurious s (s\<lparr>s_queue := q, s_pushed := s_pushed s + 1\<rparr>)"
| cond: "\<lbrakk>futex_step timeouts spurious (s_cond s) f; notified f - notified (s_cond s) \<le> s_pushed s\<rbrakk> \<Longrightarrow>
    synced_step timeouts spurious s (s\<lparr>s_cond := f,
      s_pushed := s_pushed s - (notified f - notified (s_cond s)),
      s_claims := s_claims s + (granted f - granted (s_cond s))\<rparr>)"
| pop: "\<lbrakk>0 < s_claims s; stl_pop (s_queue s) = Ret (x, q)\<rbrakk> \<Longrightarrow>
    synced_step timeouts spurious s (s\<lparr>s_queue := q, s_claims := s_claims s - 1\<rparr>)"
| pop_null: "0 < s_claims s \<Longrightarrow> synced_step timeouts spurious s (s\<lparr>s_claims := s_claims s - 1\<rparr>)"
| top: "\<lbrakk>0 < s_claims s; stl_front (s_queue s) = Ret x\<rbrakk> \<Longrightarrow>
    synced_step timeouts spurious s (s\<lparr>s_claims := s_claims s - 1, s_pushed := s_pushed s + 1\<rparr>)"

definition synced_init :: "'a synced" where
  "synced_init = \<lparr>s_queue = [], s_cond = futex_init 0, s_pushed = 0, s_claims = 0\<rparr>"

definition synced_inv :: "'a synced \<Rightarrow> bool" where
  "synced_inv s \<longleftrightarrow> futex_inv 0 (s_cond s)
     \<and> s_pushed s + notified (s_cond s) + s_claims s \<le> length (s_queue s) + granted (s_cond s)"

lemma synced_inv_step:
  assumes "synced_step False False s s'" "synced_inv s" "futex_in_range 0 (s_cond s')"
  shows "synced_inv s'"
  using assms
proof (induction rule: synced_step.induct)
  case (cond s f)
  then show ?case using futex_step_counts [OF cond.hyps(1)] futex_inv_step [OF cond.hyps(1)]
    by (auto simp: synced_inv_def)
qed (auto simp: synced_inv_def stl_push_def stl_push_front_def stl_pop_def stl_front_def split: list.splits)

lemma synced_step_counts:
  "synced_step b c s s' \<Longrightarrow> notified (s_cond s) \<le> notified (s_cond s') \<and> waited (s_cond s) \<le> waited (s_cond s')"
  by (induction rule: synced_step.induct) (auto dest: futex_step_counts)

lemma synced_inv_reach:
  "(synced_step False False)\<^sup>*\<^sup>* synced_init s \<Longrightarrow> futex_in_range 0 (s_cond s) \<Longrightarrow> synced_inv s"
proof (induction rule: rtranclp_induct)
  case base
  show ?case by (simp add: synced_init_def synced_inv_def futex_init_def futex_inv_def)
next
  case (step s s')
  then have "futex_in_range 0 (s_cond s)" using synced_step_counts [OF step(2)] by (auto simp: futex_in_range_def)
  with step show ?case by (blast intro: synced_inv_step)
qed

lemma futex_run_counts:
  "(futex_step b c)\<^sup>*\<^sup>* f f' \<Longrightarrow> granted f \<le> granted f' \<and> notified f \<le> notified f'"
  by (induction rule: rtranclp_induct) (auto dest: futex_step_counts)

text \<open>Runs of the condition alone are runs of the queue, as long as nobody notifies.\<close>

lemma synced_cond_run:
  "(futex_step b c)\<^sup>*\<^sup>* (s_cond s) f \<Longrightarrow> notified f = notified (s_cond s) \<Longrightarrow>
   (synced_step b c)\<^sup>*\<^sup>* s (s\<lparr>s_cond := f, s_claims := s_claims s + (granted f - granted (s_cond s))\<rparr>)"
proof (induction rule: rtranclp_induct)
  case (step f f')
  let ?s = "s\<lparr>s_cond := f, s_claims := s_claims s + (granted f - granted (s_cond s))\<rparr>"
  have le: "granted (s_cond s) \<le> granted f" "notified (s_cond s) \<le> notified f" "granted f \<le> granted f'"
    "notified f \<le> notified f'"
    using futex_run_counts [OF step(1)] futex_step_counts [OF step(2)] by auto
  with step.prems have n: "notified f = notified (s_cond s)" by simp
  have "synced_step b c ?s (s\<lparr>s_cond := f', s_claims := s_claims s + (granted f' - granted (s_cond s))\<rparr>)"
    using synced_step.cond [of b c ?s f'] step(2) step.prems n le by simp
  with step.IH [OF n] show ?case by (rule rtranclp.rtrancl_into_rtrancl)
qed simp

text \<open>Two waiters, of which one expires: giving up, it wakes the other one.\<close>

definition timed_grant :: futex where
  "timed_grant = (futex_init 0)\<lparr>counter := - 1, waited := 2, granted := 1\<rparr>"

lemma futex_timeout_run: "(futex_step True False)\<^sup>*\<^sup>* (futex_init 0) timed_grant"
proof -
  let ?f = "\<lambda>c d s e w n g. \<lparr>counter = c, n_dec = d, n_sleep = s, n_expired = e, n_wake = w, n_notify = 0,
     n_failed = 0, waited = n, granted = g, notified = 0\<rparr>"
  have 1: "futex_step True False (futex_init 0) (?f (- 1) 1 0 0 0 1 0)"
    using wait [of True False "futex_init 0"] by (simp add: futex_defs futex_init_def)
  have 2: "futex_step True False (?f (- 1) 1 0 0 0 1 0) (?f (- 2) 2 0 0 0 2 0)"
    using wait [of True False "?f (- 1) 1 0 0 0 1 0"] by (simp add: futex_defs numeral_2_eq_2)
  have 3: "futex_step True False (?f (- 2) 2 0 0 0 2 0) (?f (- 2) 1 1 0 0 2 0)"
    using sleep [of "?f (- 2) 2 0 0 0 2 0" True False] by simp
  have 4: "futex_step True False (?f (- 2) 1 1 0 0 2 0) (?f (- 2) 0 2 0 0 2 0)"
    using sleep [of "?f (- 2) 1 1 0 0 2 0" True False] by (simp add: numeral_2_eq_2)
  have 5: "futex_step True False (?f (- 2) 0 2 0 0 2 0) (?f (- 2) 0 1 1 0 2 0)"
    using expire [of True "?f (- 2) 0 2 0 0 2 0" False] by simp
  have 6: "futex_step True False (?f (- 2) 0 1 1 0 2 0) (?f (- 1) 0 1 0 1 2 0)"
    using give_up [of "?f (- 2) 0 1 1 0 2 0" True False] by (simp add: futex_defs)
  have 7: "futex_step True False (?f (- 1) 0 1 0 1 2 0) timed_grant"
    using wake [of "?f (- 1) 0 1 0 1 2 0" True False] by (simp add: futex_defs futex_init_def timed_grant_def)
  from three_steps [of "futex_step True False", OF 1 2 3] three_steps [of "futex_step True False", OF 4 5 6] 7
  show ?thesis by (meson rtranclp.rtrancl_into_rtrancl rtranclp_trans)
qed

text \<open>One waiter whose \<^verbatim>\<open>FUTEX_WAIT\<close> returns 0 although nobody called \<^verbatim>\<open>FUTEX_WAKE\<close>.\<close>

definition spurious_grant :: futex where
  "spurious_grant = (futex_init 0)\<lparr>counter := - 1, waited := 1, granted := 1\<rparr>"

lemma futex_spurious_run: "(futex_step False True)\<^sup>*\<^sup>* (futex_init 0) spurious_grant"
proof -
  let ?f = "(futex_init 0)\<lparr>counter := - 1, waited := 1\<rparr>"
  have 1: "futex_step False True (futex_init 0) (?f\<lparr>n_dec := 1\<rparr>)"
    using wait [of False True "futex_init 0"] by (simp add: futex_defs futex_init_def)
  have 2: "futex_step False True (?f\<lparr>n_dec := 1\<rparr>) (?f\<lparr>n_sleep := 1\<rparr>)"
    using sleep [of "?f\<lparr>n_dec := 1\<rparr>" False True] by (simp add: futex_init_def)
  have 3: "futex_step False True (?f\<lparr>n_sleep := 1\<rparr>) spurious_grant"
    using spurious_return [of True "?f\<lparr>n_sleep := 1\<rparr>" False]
    by (simp add: futex_init_def futex_defs spurious_grant_def)
  from 1 2 3 show ?thesis by (rule three_steps)
qed

text \<open>A queue nobody has pushed to, with a thread that believes to have an element.\<close>

definition empty_claim :: "bool \<Rightarrow> bool \<Rightarrow> bool" where
  "empty_claim timeouts spurious \<longleftrightarrow> (\<exists>s :: nat synced. (synced_step timeouts spurious)\<^sup>*\<^sup>* synced_init s
     \<and> notified (s_cond s) = 0 \<and> 0 < s_claims s \<and> stl_pop (s_queue s) = Undefined)"

lemma grant_claims:
  assumes "(futex_step b c)\<^sup>*\<^sup>* (futex_init 0) f" "notified f = 0" "granted f = 1"
  shows "empty_claim b c"
proof -
  let ?i = "synced_init :: nat synced"
  have "(synced_step b c)\<^sup>*\<^sup>* ?i (?i\<lparr>s_cond := f, s_claims := 1\<rparr>)"
    using synced_cond_run [of b c ?i f] assms by (simp add: synced_init_def futex_init_def)
  then show ?thesis unfolding empty_claim_def using assms
    by (intro exI [of _ "?i\<lparr>s_cond := f, s_claims := 1\<rparr>"])
       (simp add: synced_init_def stl_pop_def stl_front_def)
qed

section \<open>Properties\<close>

text \<open>
  Without time-outs and spurious returns, and with fewer than \<open>2 ^ 31\<close> notifications and waits,
  \<^verbatim>\<open>FutexCondition\<close> is a counting semaphore: \<^verbatim>\<open>wait\<close> never returns \<^verbatim>\<open>true\<close> more often than there were
  initial resources and notifications, and every thread that loops in \<^verbatim>\<open>notify\<close> has a thread in
  \<^verbatim>\<open>wait\<close> to wake, unless \<^verbatim>\<open>FUTEX_WAIT\<close> has failed.
\<close>

theorem futex_semaphore:
  assumes "(futex_step False False)\<^sup>*\<^sup>* (futex_init resource) f"
    and "resource + notified f < 2 ^ 31" "waited f \<le> 2 ^ 31"
  shows "granted f \<le> resource + notified f \<and> n_notify f \<le> n_dec f + n_sleep f + n_failed f
    \<and> int (waited f) + sint (counter f) = int (resource + notified f)"
  using futex_inv_reach [OF assms(1)] assms(2,3) by (auto simp: futex_inv_def futex_in_range_def)

theorem futex_semaphore_witness:
  "granted ((futex_init 1)\<lparr>counter := 0, waited := 1, granted := 1\<rparr>) \<le> 1"
proof -
  have "futex_step False False (futex_init 1) ((futex_init 1)\<lparr>counter := 0, waited := 1, granted := 1\<rparr>)"
    using futex_step.wait [of False False "futex_init 1"] by (simp add: futex_defs futex_init_def)
  from futex_semaphore [OF r_into_rtranclp, OF this] show ?thesis by (simp add: futex_init_def)
qed

text \<open>
  C5. A \<^verbatim>\<open>SyncedQueue\<close> over \<^verbatim>\<open>FutexCondition\<close> is safe for any number of readers and writers under three
  conditions: no caller passes a deadline, \<^verbatim>\<open>FUTEX_WAIT\<close> returns 0 only after a \<^verbatim>\<open>FUTEX_WAKE\<close>, and the
  \<^verbatim>\<open>int32_t\<close> counter does not wrap (fewer than \<open>2 ^ 31\<close> notifications and at most \<open>2 ^ 31\<close> waits so far).
  Then a thread whose \<^verbatim>\<open>wait\<close> returned \<^verbatim>\<open>true\<close> always finds an element to pop, and no element is
  popped or announced twice, whatever signals interrupt the waits and whichever waits fail. The
  conditions on time-outs and on spurious returns are needed: with either, a thread gets through
  \<^verbatim>\<open>wait\<close> without any notification and pops an empty queue.
\<close>

theorem synced_queue_pop_safe:
  assumes "(synced_step False False)\<^sup>*\<^sup>* synced_init s" "0 < s_claims s"
    and "notified (s_cond s) < 2 ^ 31" "waited (s_cond s) \<le> 2 ^ 31"
  shows "(\<exists>x q. stl_pop (s_queue s) = Ret (x, q)) \<and> s_pushed s + s_claims s \<le> length (s_queue s)
    \<and> empty_claim True False \<and> empty_claim False True"
proof -
  have "s_pushed s + s_claims s \<le> length (s_queue s)"
    using synced_inv_reach [OF assms(1)] assms(3,4)
    by (auto simp: synced_inv_def futex_inv_def futex_in_range_def)
  moreover have "\<exists>x q. stl_pop (s_queue s) = Ret (x, q)"
    using calculation assms(2) by (cases "s_queue s") (auto simp: stl_pop_def stl_front_def)
  moreover have "empty_claim True False"
    using grant_claims [OF futex_timeout_run] by (simp add: timed_grant_def futex_init_def)
  moreover have "empty_claim False True"
    using grant_claims [OF futex_spurious_run] by (simp add: spurious_grant_def futex_init_def)
  ultimately show ?thesis by blast
qed

text \<open>A push of 5, its notification, and a \<^verbatim>\<open>wait\<close> that finds it.\<close>

definition sample_synced :: "nat synced" where
  "sample_synced = \<lparr>s_queue = [5], s_cond = (futex_init 0)\<lparr>waited := 1, granted := 1, notified := 1\<rparr>,
     s_pushed = 0, s_claims = 1\<rparr>"

lemma sample_synced_reach: "(synced_step False False)\<^sup>*\<^sup>* synced_init sample_synced"
proof -
  let ?s1 = "(synced_init :: nat synced)\<lparr>s_queue := [5], s_pushed := 1\<rparr>"
  let ?s2 = "?s1\<lparr>s_cond := (futex_init 0)\<lparr>counter := 1, notified := 1\<rparr>, s_pushed := 0\<rparr>"
  have "synced_step False False synced_init ?s1"
    using synced_step.push [of synced_init "5::nat" "[5]" False False] by (simp add: synced_init_def stl_push_def)
  moreover have "synced_step False False ?s1 ?s2"
    using synced_step.cond [of False False ?s1, OF notify] by (simp add: synced_init_def futex_init_def futex_defs)
  moreover have "synced_step False False ?s2 sample_synced"
    using synced_step.cond [of False False ?s2, OF wait]
    by (simp add: synced_init_def futex_init_def futex_defs sample_synced_def)
  ultimately show ?thesis by (rule three_steps)
qed

theorem synced_queue_pop_safe_witness:
  "(\<exists>x q. stl_pop [5::nat] = Ret (x, q)) \<and> empty_claim False True"
  using synced_queue_pop_safe [OF sample_synced_reach] by (simp add: sample_synced_def futex_init_def)

text \<open>
  \<^verbatim>\<open>FileDescriptorCondition::wait\<close> answers \<^verbatim>\<open>true\<close> exactly when it consumed one byte, that is one
  notification, and with a \<^verbatim>\<open>wait_ms\<close> of \<^verbatim>\<open>-1\<close>, the default of \<^verbatim>\<open>SyncedQueue::pop\<close>, it does not wait at all.
\<close>

theorem fd_wait_token:
  "(fd_wait wait_ms first rounds = Ret (Some (b, k)) \<longrightarrow> (b \<longleftrightarrow> k = 1))
   \<and> fd_wait (- 1) RdAgain rounds = Ret (Some (False, 0))"
  using fd_loop_token [of wait_ms rounds b k]
  by (cases "wait_ms \<le> 0") (auto simp: fd_wait_def split: fd_read.splits if_splits)

theorem fd_wait_token_witness:
  "fd_wait 20 RdAgain [(1, RdAgain, 5), (1, RdByte, 2)] = Ret (Some (True, 1))
   \<and> fd_wait (- 1) RdAgain [(1, RdByte, 2)] = Ret (Some (False, 0))"
  using fd_wait_token [of 20 RdAgain "[(1, RdByte, 2)]" True 1] by (simp add: fd_wait_def fd_loop.simps)

end
