(* ===== verification/Utils.thy ===== *)
theory Utils
  imports Sperm_Prelude
begin

text \<open>
  The helpers of \<^verbatim>\<open>common/utils.h\<close>: byte and bit reversal, the power-of-two test, the
  arithmetic on \<^verbatim>\<open>struct timespec\<close>, number formatting and the 64-bit Murmur hash; and the wrappers of
  system calls and instructions, over what the system delivers.
\<close>

section \<open>Bit tricks\<close>

definition reverse_endian :: "u32 \<Rightarrow> u32" where
  "reverse_endian p =
     push_bit 24 (p AND 0x000000ff) + push_bit 8 (p AND 0x0000ff00)
     + drop_bit 8 (p AND 0x00ff0000) + drop_bit 24 (p AND 0xff000000)"

definition is_exp2 :: "u64 \<Rightarrow> bool" where
  "is_exp2 x = (if x AND (x - 1) \<noteq> 0 then False else True)"

definition reverse_uint32 :: "u32 \<Rightarrow> u32" where
  "reverse_uint32 x =
    (let x = push_bit 1 (x AND 0x55555555) OR drop_bit 1 (x AND 0xAAAAAAAA);
         x = push_bit 2 (x AND 0x33333333) OR drop_bit 2 (x AND 0xCCCCCCCC);
         x = push_bit 4 (x AND 0x0F0F0F0F) OR drop_bit 4 (x AND 0xF0F0F0F0);
         x = push_bit 8 (x AND 0x00FF00FF) OR drop_bit 8 (x AND 0xFF00FF00);
         x = push_bit 16 (x AND 0x0000FFFF) OR drop_bit 16 (x AND 0xFFFF0000)
     in x)"

text \<open>
  Each line of \<^verbatim>\<open>reverse_uint32\<close> exchanges the neighbouring blocks of \<open>k\<close> bits; the bit that ends up
  at position \<open>n\<close> is the one at \<open>swap_pos k n\<close>.
\<close>

definition swap_pos :: "nat \<Rightarrow> nat \<Rightarrow> nat" where
  "swap_pos k n = (if even (n div k) then n + k else n - k)"

definition swap_blocks :: "nat \<Rightarrow> u32 \<Rightarrow> u32 \<Rightarrow> u32 \<Rightarrow> u32" where
  "swap_blocks k lo hi x = push_bit k (x AND lo) OR drop_bit k (x AND hi)"

lemma bit_swap_blocks:
  fixes lo hi x :: u32
  assumes k: "0 < k" and lo: "\<forall>n < 32. bit lo n = even (n div k)" and hi: "\<forall>n < 32. bit hi n = odd (n div k)"
    and n: "n < 32"
  shows "bit (swap_blocks k lo hi x) n = bit x (swap_pos k n)"
proof -
  have bits: "bit (swap_blocks k lo hi x) n \<longleftrightarrow>
      k \<le> n \<and> bit x (n - k) \<and> bit lo (n - k) \<or> bit x (n + k) \<and> bit hi (n + k)"
    using n by (auto simp: swap_blocks_def bit_simps add.commute)
  have up: "odd ((n + k) div k) \<longleftrightarrow> even (n div k)" using k by (simp add: div_add_self2)
  have down: "k \<le> n \<Longrightarrow> odd ((n - k) div k) \<longleftrightarrow> even (n div k)"
    using k by (metis even_Suc le_div_geq)
  have range: "bit x i \<Longrightarrow> i < 32" for i using bit_imp_le_length [of x i] by simp
  show ?thesis
  proof (cases "even (n div k)")
    case True
    then show ?thesis using n lo hi up down range [of "n + k"] by (auto simp: bits swap_pos_def)
  next
    case False
    then have "k \<le> n" by (metis div_less dvd_0_right linorder_not_less)
    then show ?thesis using False n lo hi up down range [of "n + k"] by (auto simp: bits swap_pos_def)
  qed
qed

lemma upt_32:
  "[0..<32] = [0, 1, 2, 3, 4, 5, 6, 7, 8, 9, 10, 11, 12, 13, 14, 15, 16, 17, 18, 19, 20, 21,
     22, 23, 24, 25, 26, 27, 28, 29, 30, 31]"
  by code_simp

lemma all_less_32: "list_all P [0..<32] \<Longrightarrow> \<forall>n < 32. P n"
  by (auto simp: list_all_iff)

lemma block_masks:
  "\<forall>n < 32. bit (0x55555555 :: u32) n = even (n div 1)" "\<forall>n < 32. bit (0xAAAAAAAA :: u32) n = odd (n div 1)"
  "\<forall>n < 32. bit (0x33333333 :: u32) n = even (n div 2)" "\<forall>n < 32. bit (0xCCCCCCCC :: u32) n = odd (n div 2)"
  "\<forall>n < 32. bit (0x0F0F0F0F :: u32) n = even (n div 4)" "\<forall>n < 32. bit (0xF0F0F0F0 :: u32) n = odd (n div 4)"
  "\<forall>n < 32. bit (0x00FF00FF :: u32) n = even (n div 8)" "\<forall>n < 32. bit (0xFF00FF00 :: u32) n = odd (n div 8)"
  "\<forall>n < 32. bit (0x0000FFFF :: u32) n = even (n div 16)" "\<forall>n < 32. bit (0xFFFF0000 :: u32) n = odd (n div 16)"
  by (rule all_less_32, code_simp)+

lemma swap_pos_less: "\<forall>n < 32. \<forall>k \<in> set [2, 4, 8, 16]. swap_pos k n < 32"
  by (rule all_less_32) (simp add: upt_32 swap_pos_def)

lemma swap_pos_all:
  "\<forall>n < 32. swap_pos 1 (swap_pos 2 (swap_pos 4 (swap_pos 8 (swap_pos 16 n)))) = 31 - n"
  by (rule all_less_32) (simp add: upt_32 swap_pos_def)

lemma reverse_uint32_blocks:
  "reverse_uint32 x = swap_blocks 16 0x0000FFFF 0xFFFF0000 (swap_blocks 8 0x00FF00FF 0xFF00FF00
     (swap_blocks 4 0x0F0F0F0F 0xF0F0F0F0 (swap_blocks 2 0x33333333 0xCCCCCCCC
       (swap_blocks 1 0x55555555 0xAAAAAAAA x))))"
  by (simp only: reverse_uint32_def swap_blocks_def Let_def)

lemma bit_reverse_uint32:
  assumes "n < 32"
  shows "bit (reverse_uint32 x) n = bit x (31 - n)"
proof -
  note b = bit_swap_blocks [OF _ block_masks(1,2)] bit_swap_blocks [OF _ block_masks(3,4)]
    bit_swap_blocks [OF _ block_masks(5,6)] bit_swap_blocks [OF _ block_masks(7,8)]
    bit_swap_blocks [OF _ block_masks(9,10)]
  show ?thesis using swap_pos_less swap_pos_all assms
    by (simp add: reverse_uint32_blocks b del: One_nat_def)
qed

lemma byte_masks:
  "\<forall>n < 32. bit (0x000000ff :: u32) n = (n div 8 = 0)" "\<forall>n < 32. bit (0x0000ff00 :: u32) n = (n div 8 = 1)"
  "\<forall>n < 32. bit (0x00ff0000 :: u32) n = (n div 8 = 2)" "\<forall>n < 32. bit (0xff000000 :: u32) n = (n div 8 = 3)"
  by (rule all_less_32, code_simp)+

lemma byte_parts:
  fixes p :: u32
  assumes "n < 32"
  shows "bit (push_bit 24 (p AND 0x000000ff)) n \<longleftrightarrow> n div 8 = 3 \<and> bit p (n - 24)"
    "bit (push_bit 8 (p AND 0x0000ff00)) n \<longleftrightarrow> n div 8 = 2 \<and> bit p (n - 8)"
    "bit (drop_bit 8 (p AND 0x00ff0000)) n \<longleftrightarrow> n div 8 = 1 \<and> bit p (n + 8)"
    "bit (drop_bit 24 (p AND 0xff000000)) n \<longleftrightarrow> n div 8 = 0 \<and> bit p (n + 24)"
proof -
  have range: "bit p i \<Longrightarrow> i < 32" for i using bit_imp_le_length [of p i] by simp
  show "bit (push_bit 24 (p AND 0x000000ff)) n \<longleftrightarrow> n div 8 = 3 \<and> bit p (n - 24)"
    using assms byte_masks(1) range by (auto simp: bit_push_bit_iff bit_and_iff simp del: push_bit_and)
  show "bit (push_bit 8 (p AND 0x0000ff00)) n \<longleftrightarrow> n div 8 = 2 \<and> bit p (n - 8)"
    using assms byte_masks(2) range by (auto simp: bit_push_bit_iff bit_and_iff simp del: push_bit_and)
  show "bit (drop_bit 8 (p AND 0x00ff0000)) n \<longleftrightarrow> n div 8 = 1 \<and> bit p (n + 8)"
    using assms byte_masks(3) range [of "8 + n"] by (auto simp: bit_drop_bit_eq bit_and_iff add.commute simp del: drop_bit_and)
  show "bit (drop_bit 24 (p AND 0xff000000)) n \<longleftrightarrow> n div 8 = 0 \<and> bit p (n + 24)"
    using assms byte_masks(4) range [of "24 + n"] by (auto simp: bit_drop_bit_eq bit_and_iff add.commute simp del: drop_bit_and)
qed

lemma bit_reverse_endian:
  assumes "n < 32"
  shows "bit (reverse_endian p) n = bit p (8 * (3 - n div 8) + n mod 8)"
proof -
  have disj: "a + b = a OR b" if "\<And>n. n < 32 \<Longrightarrow> \<not> (bit a n \<and> bit b n)" for a b :: u32
    by (rule disjunctive_add_eq_or) (rule bit_word_eqI, use that in \<open>auto simp: bit_and_iff\<close>)
  let ?a = "push_bit 24 (p AND 0x000000ff)" and ?b = "push_bit 8 (p AND 0x0000ff00)"
    and ?c = "drop_bit 8 (p AND 0x00ff0000)" and ?d = "drop_bit 24 (p AND 0xff000000)"
  have "?a + ?b = ?a OR ?b" by (rule disj) (unfold byte_parts, auto)
  moreover have "(?a OR ?b) + ?c = (?a OR ?b) OR ?c"
    by (rule disj) (unfold bit_or_iff byte_parts, auto)
  moreover have "(?a OR ?b OR ?c) + ?d = (?a OR ?b OR ?c) OR ?d"
    by (rule disj) (unfold bit_or_iff byte_parts, auto)
  ultimately have e: "reverse_endian p = ?a OR ?b OR ?c OR ?d"
    by (simp only: reverse_endian_def or.assoc)
  have pos: "n div 8 = 3 \<Longrightarrow> 8 * (3 - n div 8) + n mod 8 = n - 24"
    "n div 8 = 2 \<Longrightarrow> 8 * (3 - n div 8) + n mod 8 = n - 8"
    "n div 8 = 1 \<Longrightarrow> 8 * (3 - n div 8) + n mod 8 = n + 8"
    "n div 8 = 0 \<Longrightarrow> 8 * (3 - n div 8) + n mod 8 = n + 24" by presburger+
  consider "n div 8 = 3" | "n div 8 = 2" | "n div 8 = 1" | "n div 8 = 0" using assms by linarith
  then show ?thesis
  proof cases
    case 1
    show ?thesis unfolding pos(1) [OF 1] e bit_or_iff byte_parts [OF assms] by (simp add: 1)
  next
    case 2
    show ?thesis unfolding pos(2) [OF 2] e bit_or_iff byte_parts [OF assms] by (simp add: 2)
  next
    case 3
    show ?thesis unfolding pos(3) [OF 3] e bit_or_iff byte_parts [OF assms] by (simp add: 3)
  next
    case 4
    show ?thesis unfolding pos(4) [OF 4] e bit_or_iff byte_parts [OF assms] by (simp add: 4)
  qed
qed

text \<open>
  \<^verbatim>\<open>reverse_endian\<close> reverses the order of the four bytes and \<^verbatim>\<open>reverse_uint32\<close> the order of the
  32 bits; both are their own inverse.
\<close>

theorem reversals_correct:
  "(n < 32 \<longrightarrow> bit (reverse_endian p) n = bit p (8 * (3 - n div 8) + n mod 8))
   \<and> (n < 32 \<longrightarrow> bit (reverse_uint32 p) n = bit p (31 - n))
   \<and> reverse_endian (reverse_endian p) = p \<and> reverse_uint32 (reverse_uint32 p) = p"
proof (intro conjI impI)
  show "reverse_endian (reverse_endian p) = p"
  proof (rule bit_word_eqI)
    fix m assume "m < LENGTH(32)"
    then have m: "m < 32" by simp
    let ?k = "8 * (3 - m div 8) + m mod 8"
    have k: "?k < 32" "8 * (3 - ?k div 8) + ?k mod 8 = m" using m by auto
    show "bit (reverse_endian (reverse_endian p)) m = bit p m"
      using bit_reverse_endian [OF m] bit_reverse_endian [OF k(1)] k(2) by simp
  qed
  show "reverse_uint32 (reverse_uint32 p) = p"
    by (rule bit_word_eqI) (simp add: bit_reverse_uint32)
qed (simp_all add: bit_reverse_endian bit_reverse_uint32)

theorem reversals_correct_witness:
  "bit (reverse_endian 0x12345678) 3 = bit (0x12345678 :: u32) 27"
  using reversals_correct [of 3 "0x12345678"] by simp

section \<open>The power-of-two test\<close>

lemma bit_top_interval: "2 ^ n \<le> unat x \<Longrightarrow> unat x < 2 ^ Suc n \<Longrightarrow> n < LENGTH('a) \<Longrightarrow> bit (x::'a::len word) n"
proof -
  assume "2 ^ n \<le> unat x" "unat x < 2 ^ Suc n" and n: "n < LENGTH('a)"
  then have "unat x div 2 ^ n = 1" by (intro div_nat_eqI) (auto simp: mult.commute)
  then have "bit (unat x) n" by (simp add: bit_iff_odd)
  with n show ?thesis by (simp add: bit_unsigned_iff)
qed

text \<open>
  \<^verbatim>\<open>is_exp2\<close> accepts exactly the powers of two, and 0.
\<close>

theorem is_exp2_correct: "is_exp2 x \<longleftrightarrow> x = 0 \<or> (\<exists>n < 64. x = 2 ^ n)"
proof (cases "x = 0")
  case True
  then show ?thesis by (simp add: is_exp2_def)
next
  case False
  then have pos: "1 \<le> unat x" by (metis Suc_leI One_nat_def neq0_conv unat_eq_zero)
  obtain n where n: "2 ^ n \<le> unat x" "unat x < 2 ^ (n + 1)"
    using ex_power_ivl1 [of 2 "unat x"] pos by auto
  have "unat x < 2 ^ 64" using unsigned_less [of x, where 'a = nat] by simp
  with n(1) have "(2::nat) ^ n < 2 ^ 64" by linarith
  then have n64: "n < 64" by (rule power_less_imp_less_exp [rotated]) simp
  show ?thesis
  proof (cases "unat x = 2 ^ n")
    case True
    have "x = of_nat (unat x)" by simp
    also have "\<dots> = 2 ^ n" unfolding True by simp
    finally have x: "x = 2 ^ n" .
    have "x AND (x - 1) = 0"
      by (rule bit_word_eqI) (auto simp: x bit_simps simp flip: mask_eq_exp_minus_1)
    with x n64 show ?thesis by (auto simp: is_exp2_def)
  next
    case False
    have m: "unat (x - 1) = unat x - 1" using \<open>x \<noteq> 0\<close> by (rule unat_minus_one)
    have "bit x n" using n n64 by (intro bit_top_interval) auto
    moreover have "bit (x - 1) n" using n n64 False m by (intro bit_top_interval) auto
    ultimately have "bit (x AND (x - 1)) n" by (simp add: bit_and_iff)
    then have "\<not> is_exp2 x" by (auto simp: is_exp2_def)
    moreover have "x \<noteq> 2 ^ k" if "k < 64" for k
    proof
      assume "x = 2 ^ k"
      then have k: "unat x = 2 ^ k" using that by (simp add: unat_pow2)
      with n have "(2::nat) ^ n \<le> 2 ^ k" "(2::nat) ^ k < 2 ^ Suc n" by simp_all
      then have "k = n" by (simp only: power_increasing_iff power_strict_increasing_iff)
      with k False show False by simp
    qed
    ultimately show ?thesis using \<open>x \<noteq> 0\<close> by auto
  qed
qed

section \<open>Time\<close>

record timespec =
  tv_sec :: int
  tv_nsec :: int

definition addtime_timespec :: "timespec \<Rightarrow> int \<Rightarrow> timespec" where
  "addtime_timespec tp ms =
    (let tp = (if 1000 \<le> ms
               then tp\<lparr>tv_sec := tv_sec tp + ms div 1000, tv_nsec := tv_nsec tp + (ms mod 1000) * 1000 * 1000\<rparr>
               else tp);
         m = 1000 * 1000 * 1000
     in tp\<lparr>tv_sec := tv_sec tp + tv_nsec tp div m, tv_nsec := tv_nsec tp mod m\<rparr>)"

definition timespec_ns :: "timespec \<Rightarrow> int" where
  "timespec_ns tp = tv_sec tp * 1000000000 + tv_nsec tp"

lemma timespec_ns_norm: "(s + n div m) * m + n mod m = s * m + (n::int)"
  by (simp add: algebra_simps)

text \<open>
  \<^verbatim>\<open>addtime_timespec\<close> always normalises the nanoseconds. For delays of a second or more it
  moves the time forward by exactly the delay; a shorter delay is dropped altogether, so the
  deadline computed for \<^verbatim>\<open>pop(&v, 500)\<close> is the present moment.
\<close>

theorem addtime_timespec_correct:
  assumes "0 \<le> tv_nsec tp"
  shows "0 \<le> tv_nsec (addtime_timespec tp ms) \<and> tv_nsec (addtime_timespec tp ms) < 1000000000
    \<and> timespec_ns (addtime_timespec tp ms) = timespec_ns tp + (if 1000 \<le> ms then ms * 1000000 else 0)"
proof -
  have "ms div 1000 * 1000000000 + ms mod 1000 * 1000000 = ms * 1000000"
    using div_mult_mod_eq [of ms 1000] by linarith
  then show ?thesis
    by (auto simp: addtime_timespec_def Let_def timespec_ns_def timespec_ns_norm algebra_simps)
qed

theorem addtime_timespec_correct_witness:
  "addtime_timespec \<lparr>tv_sec = 1, tv_nsec = 999999999\<rparr> 500 = \<lparr>tv_sec = 1, tv_nsec = 999999999\<rparr>
   \<and> timespec_ns (addtime_timespec \<lparr>tv_sec = 1, tv_nsec = 999999999\<rparr> 1500) = 3499999999"
  using addtime_timespec_correct [of "\<lparr>tv_sec = 1, tv_nsec = 999999999\<rparr>" 1500]
  by (simp add: addtime_timespec_def timespec_ns_def)

section \<open>Murmur hash\<close>

definition murmur_m :: u64 where
  "murmur_m = 0xc6a4a7935bd1e995"

text \<open>One 8-byte block \<open>k\<close> mixed into the hash \<open>h\<close>.\<close>

definition murmur_block :: "u64 \<Rightarrow> u64 \<Rightarrow> u64" where
  "murmur_block h k =
    (let k = k * murmur_m;
         k = k XOR drop_bit 47 k;
         k = k * murmur_m;
         h = h XOR k
     in h * murmur_m)"

text \<open>The \<^verbatim>\<open>while(data != end)\<close> loop: \<open>n\<close> more blocks to read from \<open>bs\<close>.\<close>

fun murmur_loop :: "nat \<Rightarrow> u64 \<Rightarrow> u8 list \<Rightarrow> (u64 \<times> u8 list) exec" where
  "murmur_loop 0 h bs = Ret (h, bs)"
| "murmur_loop (Suc n) h bs =
     exec_bind (exec_of_option Undefined (mem_read bs 0 8)) (\<lambda>k.
       murmur_loop n (murmur_block h (le_word k)) (drop 8 bs))"

text \<open>\<open>h ^= (unsigned long long)(data2[i]) << s\<close>.\<close>

definition murmur_xor :: "u8 list \<Rightarrow> nat \<Rightarrow> nat \<Rightarrow> u64 \<Rightarrow> u64 exec" where
  "murmur_xor bs i s h =
     (if i < length bs then Ret (h XOR push_bit s (ucast (bs ! i))) else Undefined)"

text \<open>The \<^verbatim>\<open>switch(len & 7)\<close>, every case falling through into the next one.\<close>

definition murmur_tail :: "nat \<Rightarrow> u8 list \<Rightarrow> u64 \<Rightarrow> u64 exec" where
  "murmur_tail r bs h =
     (let case1 = (\<lambda>h. exec_bind (murmur_xor bs 0 0 h) (\<lambda>h. Ret (h * murmur_m)));
          case2 = (\<lambda>h. exec_bind (murmur_xor bs 1 8 h) case1);
          case3 = (\<lambda>h. exec_bind (murmur_xor bs 2 16 h) case2);
          case4 = (\<lambda>h. exec_bind (murmur_xor bs 3 24 h) case3);
          case5 = (\<lambda>h. exec_bind (murmur_xor bs 4 32 h) case4);
          case6 = (\<lambda>h. exec_bind (murmur_xor bs 5 40 h) case5);
          case7 = (\<lambda>h. exec_bind (murmur_xor bs 6 48 h) case6)
      in if r = 7 then case7 h else if r = 6 then case6 h else if r = 5 then case5 h
         else if r = 4 then case4 h else if r = 3 then case3 h else if r = 2 then case2 h
         else if r = 1 then case1 h else Ret h)"

text \<open>\<open>key\<close> is the memory the pointer leads to, \<open>len\<close> a non-negative \<^verbatim>\<open>int\<close>.\<close>

definition murmur_hash :: "u8 list \<Rightarrow> nat \<Rightarrow> u32 \<Rightarrow> u64 exec" where
  "murmur_hash key len seed =
     exec_bind (murmur_loop (len div 8) (ucast seed XOR (of_nat len * murmur_m)) key) (\<lambda>(h, data2).
     exec_bind (murmur_tail (len mod 8) data2 h) (\<lambda>h.
       let h = h XOR drop_bit 47 h;
           h = h * murmur_m;
           h = h XOR drop_bit 47 h
       in Ret h))"

text \<open>
  The reference: cut the bytes into little-endian words of eight bytes, mix every full word,
  mix a shorter rest with a plain \<open>XOR\<close> and a multiplication.
\<close>

fun murmur_words :: "u64 \<Rightarrow> u8 list \<Rightarrow> u64" where
  "murmur_words h bs =
     (if bs = [] then h
      else if length bs < 8 then (h XOR le_word bs) * murmur_m
      else murmur_words (murmur_block h (le_word (take 8 bs))) (drop 8 bs))"

declare murmur_words.simps [simp del]

lemma le_word_snoc: "length bs < 8 \<Longrightarrow> le_word (bs @ [b]) = push_bit (8 * length bs) (ucast b) XOR le_word bs"
proof (induction bs)
  case (Cons c cs)
  have e: "le_word (c # xs) = ucast c XOR push_bit 8 (le_word xs)" for xs
    unfolding le_word.simps by (rule bit_word_eqI) (auto simp: bit_simps dest: bit_imp_le_length)
  from Cons have "le_word (cs @ [b]) = push_bit (8 * length cs) (ucast b) XOR le_word cs" by simp
  then show ?case
    by (simp add: e push_bit_xor xor.left_commute add.commute del: le_word.simps)
qed simp

lemma murmur_xor_take:
  "i < length bs \<Longrightarrow> i < 8 \<Longrightarrow> s = 8 * i \<Longrightarrow>
   murmur_xor bs i s h = Ret (h XOR le_word (take (Suc i) bs) XOR le_word (take i bs))"
  by (simp add: murmur_xor_def take_Suc_conv_app_nth le_word_snoc xor.assoc)

lemma murmur_tail_word:
  assumes "length bs < 8"
  shows "murmur_tail (length bs) bs h = Ret (if bs = [] then h else (h XOR le_word bs) * murmur_m)"
proof -
  have len: "length bs = 0 \<or> length bs = 1 \<or> length bs = 2 \<or> length bs = 3 \<or> length bs = 4
      \<or> length bs = 5 \<or> length bs = 6 \<or> length bs = 7" using assms by arith
  have [simp]: "(x XOR a XOR b) XOR b XOR c = x XOR a XOR c" for x a b c :: u64
    by (simp add: xor.assoc)
  show ?thesis using len
    by (auto simp: murmur_tail_def murmur_xor_take xor.assoc simp flip: numeral_2_eq_2)
qed

lemma murmur_loop_words:
  "length bs div 8 = n \<Longrightarrow>
   exec_bind (murmur_loop n h bs) (\<lambda>(h, rest). murmur_tail (length bs mod 8) rest h) = Ret (murmur_words h bs)"
proof (induction n h bs rule: murmur_loop.induct)
  case (1 h bs)
  then have "length bs < 8" by (simp add: div_eq_0_iff)
  then show ?case by (simp add: murmur_tail_word murmur_words.simps [of h bs])
next
  case (2 n h bs)
  then have l: "8 \<le> length bs" by (metis div_less not_less nat.distinct(1))
  then have "length (drop 8 bs) div 8 = n" "length (drop 8 bs) mod 8 = length bs mod 8"
    using 2(2) by (simp_all add: le_div_geq le_mod_geq)
  with 2(1) [of "take 8 bs"] l show ?case
    by (auto simp: mem_read_def murmur_words.simps [of h bs])
qed

text \<open>
  \<^verbatim>\<open>murmur_hash\<close> of a key of \<open>len\<close> bytes returns for every length, reads no byte outside the key,
  and its fall-through \<^verbatim>\<open>switch\<close> mixes exactly the remaining bytes as one little-endian word.
\<close>

theorem murmur_hash_correct:
  "murmur_hash key (length key) seed =
     (let h = murmur_words (ucast seed XOR (of_nat (length key) * murmur_m)) key;
          h = (h XOR drop_bit 47 h) * murmur_m
      in Ret (h XOR drop_bit 47 h))"
proof -
  have "murmur_hash key (length key) seed =
      exec_bind (exec_bind (murmur_loop (length key div 8) (ucast seed XOR (of_nat (length key) * murmur_m)) key)
        (\<lambda>(h, rest). murmur_tail (length key mod 8) rest h))
       (\<lambda>h. Ret ((h XOR drop_bit 47 h) * murmur_m XOR drop_bit 47 ((h XOR drop_bit 47 h) * murmur_m)))"
    by (simp add: murmur_hash_def exec_bind_assoc Let_def split_def)
  then show ?thesis by (simp add: murmur_loop_words Let_def)
qed

section \<open>Numbers as text\<close>

text \<open>\<^verbatim>\<open>snprintf(txt, 64, "%zd", number)\<close>: at most 63 characters are stored.\<close>

fun dec_digits :: "nat \<Rightarrow> string" where
  "dec_digits n = (if n < 10 then [] else dec_digits (n div 10)) @ [char_of (48 + n mod 10)]"

declare dec_digits.simps [simp del]

definition number_to_string :: "int \<Rightarrow> string" where
  "number_to_string number =
     take 63 (if number < 0 then CHR ''-'' # dec_digits (nat (- number)) else dec_digits (nat number))"

definition string_append_number :: "string \<Rightarrow> int \<Rightarrow> string" where
  "string_append_number s number =
     s @ take 63 (if number < 0 then CHR ''-'' # dec_digits (nat (- number)) else dec_digits (nat number))"

definition dec_value :: "string \<Rightarrow> nat" where
  "dec_value s = foldl (\<lambda>a c. 10 * a + (of_char c - 48)) 0 s"

lemma dec_value_digits: "dec_value (dec_digits n) = n"
proof (induction n rule: dec_digits.induct)
  case (1 n)
  have "(of_char (char_of (48 + n mod 10) :: char) :: nat) = 48 + n mod 10"
    by simp
  with 1 show ?case
    by (subst dec_digits.simps) (auto simp: dec_value_def)
qed

lemma length_dec_digits: "0 < k \<Longrightarrow> n < 10 ^ k \<Longrightarrow> length (dec_digits n) \<le> k"
proof (induction n arbitrary: k rule: dec_digits.induct)
  case (1 n)
  show ?case
  proof (cases "n < 10")
    case True
    with 1 show ?thesis by (simp add: dec_digits.simps [of n])
  next
    case False
    with 1 obtain j where k: "k = Suc j" "0 < j" by (cases k; cases "k - 1") auto
    with 1(3) have "n div 10 < 10 ^ j" by auto
    with 1(1) [OF False k(2)] False k show ?thesis by (simp add: dec_digits.simps [of n])
  qed
qed

text \<open>
  The 64-byte buffer is enough for every 64-bit number: \<^verbatim>\<open>number_to_string\<close> never truncates, its
  digits read back as the number, and \<^verbatim>\<open>string_append_number\<close> appends the same text.
\<close>

theorem number_to_string_exact:
  assumes "- (2 ^ 63) \<le> number" "number < 2 ^ 63"
  shows "length (number_to_string number) \<le> 20
    \<and> (if number < 0 then hd (number_to_string number) = CHR ''-''
          \<and> - int (dec_value (tl (number_to_string number))) = number
       else int (dec_value (number_to_string number)) = number)
    \<and> string_append_number s number = s @ number_to_string number"
proof -
  have "nat \<bar>number\<bar> < 10 ^ 19" using assms by simp
  then have "length (dec_digits (nat \<bar>number\<bar>)) \<le> 19" by (intro length_dec_digits) auto
  then show ?thesis
    by (auto simp: number_to_string_def string_append_number_def dec_value_digits)
qed

theorem number_to_string_exact_witness:
  "length (number_to_string (- 907)) \<le> 20 \<and> string_append_number ''n='' (- 907) = ''n=-907''"
proof -
  have "number_to_string (- 907) = ''-907''"
    by code_simp
  with number_to_string_exact [of "- 907" "''n=''"] show ?thesis by simp
qed

section \<open>Wrappers of the system\<close>

text \<open>\<^verbatim>\<open>string_as_array\<close>: null on the empty string, otherwise the address of the first character.\<close>

definition string_as_array :: "char list \<Rightarrow> nat option" where
  "string_as_array str = (if str = [] then None else Some 0)"

text \<open>The macro \<^verbatim>\<open>N_ONES_\<close> at 64 bits.\<close>

definition N_ONES :: "nat \<Rightarrow> u64" where
  "N_ONES n = (if n = 0 then 0 else push_bit (n - 1) 1 - 1 + push_bit (n - 1) 1)"

text \<open>\<^verbatim>\<open>set_nonblock\<close> on the status flags of a descriptor; \<open>getfl\<close> and \<open>setfl\<close> say whether the two calls of \<^verbatim>\<open>fcntl\<close> succeed.\<close>

definition O_NONBLOCK :: u32 where "O_NONBLOCK = 2048"

definition set_nonblock :: "bool \<Rightarrow> bool \<Rightarrow> u32 \<Rightarrow> u32" where
  "set_nonblock getfl setfl flags =
     (let x = (if getfl then flags else - 1); x = x OR O_NONBLOCK in if setfl then x else flags)"

text \<open>\<^verbatim>\<open>rdtsc\<close> joins the halves that the instruction leaves in \<^verbatim>\<open>edx\<close> and \<^verbatim>\<open>eax\<close>.\<close>

definition rdtsc :: "u32 \<Rightarrow> u32 \<Rightarrow> u64" where
  "rdtsc hi lo = ucast lo OR push_bit 32 (ucast hi)"

text \<open>\<^verbatim>\<open>get_hostname\<close>: a name that does not fit is not terminated.\<close>

definition get_hostname :: "string \<Rightarrow> string exec" where
  "get_hostname name = (if length name < 1024 then Ret name else Undefined)"

text \<open>The \<^verbatim>\<open>struct flock\<close> that \<^verbatim>\<open>LockOrUnlock\<close> passes to \<^verbatim>\<open>fcntl\<close>: a lock on the whole file. \<open>setlk\<close> is \<^verbatim>\<open>fcntl\<close> with \<^verbatim>\<open>F_SETLK\<close>.\<close>

datatype lock_type = F_WRLCK | F_UNLCK

record flock =
  l_type :: lock_type
  l_start :: int
  l_len :: int

definition LockOrUnlock :: "(flock \<Rightarrow> int) \<Rightarrow> bool \<Rightarrow> int" where
  "LockOrUnlock setlk lock = setlk \<lparr>l_type = (if lock then F_WRLCK else F_UNLCK), l_start = 0, l_len = 0\<rparr>"

definition lock_fd :: "(flock \<Rightarrow> int) \<Rightarrow> int" where
  "lock_fd setlk = LockOrUnlock setlk True"

definition unlock_fd :: "(flock \<Rightarrow> int) \<Rightarrow> int" where
  "unlock_fd setlk = LockOrUnlock setlk False"

text \<open>The processor features: \<^verbatim>\<open>cpuid\<close> leaves them in \<^verbatim>\<open>edx\<close> and \<^verbatim>\<open>ecx\<close>, each test looks at one bit.\<close>

definition support_mmx :: "u32 \<Rightarrow> int" where
  "support_mmx edx = (if edx AND 0x800000 = 0 then 0 else 1)"

definition support_sse :: "u32 \<Rightarrow> int" where
  "support_sse edx = (if edx AND 0x02000000 = 0 then 0 else 1)"

definition support_sse2 :: "u32 \<Rightarrow> int" where
  "support_sse2 edx = (if edx AND 0x04000000 = 0 then 0 else 1)"

definition support_sse3 :: "u32 \<Rightarrow> int" where
  "support_sse3 ecx = (if ecx AND 0x1 = 0 then 0 else 1)"

definition support_ssse3 :: "u32 \<Rightarrow> int" where
  "support_ssse3 ecx = (if ecx AND 0x0200 = 0 then 0 else 1)"

definition support_sse4_1 :: "u32 \<Rightarrow> int" where
  "support_sse4_1 ecx = (if ecx AND 0x80000 = 0 then 0 else 1)"

definition support_sse4_2 :: "u32 \<Rightarrow> int" where
  "support_sse4_2 ecx = (if ecx AND 0x0100000 = 0 then 0 else 1)"

lemma and_single_bit: "(x :: 'a :: len word) AND push_bit n 1 = 0 \<longleftrightarrow> \<not> bit x n"
  by (simp add: push_bit_eq_mult and_exp_eq_0_iff_not_bit)

text \<open>
  Every feature test looks at the bit that the processor manual gives: MMX, SSE and SSE2 at bits 23, 25 and 26 of
  \<^verbatim>\<open>edx\<close>, SSE3, SSSE3, SSE4.1 and SSE4.2 at bits 0, 9, 19 and 20 of \<^verbatim>\<open>ecx\<close>.
\<close>

theorem support_bits:
  "support_mmx d = of_bool (bit d 23) \<and> support_sse d = of_bool (bit d 25) \<and> support_sse2 d = of_bool (bit d 26)
   \<and> support_sse3 c = of_bool (bit c 0) \<and> support_ssse3 c = of_bool (bit c 9)
   \<and> support_sse4_1 c = of_bool (bit c 19) \<and> support_sse4_2 c = of_bool (bit c 20)"
  using and_single_bit [of d 23] and_single_bit [of d 25] and_single_bit [of d 26] and_single_bit [of c 0]
    and_single_bit [of c 9] and_single_bit [of c 19] and_single_bit [of c 20]
  by (simp add: support_mmx_def support_sse_def support_sse2_def support_sse3_def support_ssse3_def support_sse4_1_def
      support_sse4_2_def)

text \<open>
  \<^verbatim>\<open>N_ONES_\<close> has as many ones as it says, up to the full width where \<^verbatim>\<open>(1 << n) - 1\<close> would shift too far; \<^verbatim>\<open>rdtsc\<close> puts the
  two halves together; \<^verbatim>\<open>set_nonblock\<close> adds its flag and keeps the others, but sets every flag when reading them fails.
\<close>

theorem system_wrappers:
  assumes "n \<le> 64"
  shows "N_ONES n = mask n
    \<and> uint (rdtsc hi lo) = uint hi * 2 ^ 32 + uint lo
    \<and> bit (set_nonblock True True fl) k = (bit fl k \<or> k = 11) \<and> set_nonblock False True fl = - 1"
proof (intro conjI)
  show "N_ONES n = mask n"
  proof (cases n)
    case (Suc m)
    then have "push_bit m 1 - 1 + push_bit m 1 = (push_bit (Suc m) 1 - 1 :: u64)" by (simp add: push_bit_double)
    then show ?thesis using Suc by (simp add: N_ONES_def mask_eq_exp_minus_1 push_bit_eq_mult)
  qed (simp add: N_ONES_def)
  have "\<not> bit (ucast lo :: u64) k \<or> \<not> bit (push_bit 32 (ucast hi :: u64)) k" for k
    by (auto simp: bit_simps dest: bit_imp_le_length)
  then have "rdtsc hi lo = ucast lo + push_bit 32 (ucast hi)" unfolding rdtsc_def by (intro disjunctive_add [symmetric]) simp
  also have "\<dots> = word_of_int (uint lo + uint hi * 2 ^ 32)" unfolding push_bit_eq_mult ucast_eq by simp
  finally have "uint (rdtsc hi lo) = (uint lo + uint hi * 2 ^ 32) mod 2 ^ LENGTH(64)" by (simp only: uint_word_of_int)
  moreover have "0 \<le> uint lo + uint hi * 2 ^ 32" "uint lo + uint hi * 2 ^ 32 < 2 ^ 64"
    using uint_bounded [of lo] uint_bounded [of hi] by simp_all
  ultimately show "uint (rdtsc hi lo) = uint hi * 2 ^ 32 + uint lo" by simp
  show "bit (set_nonblock True True fl) k = (bit fl k \<or> k = 11)"
  proof -
    have "O_NONBLOCK = 2 ^ 11" by (simp add: O_NONBLOCK_def)
    moreover have "bit (2 ^ 11 :: u32) k \<longleftrightarrow> k = 11" unfolding bit_exp_iff by auto
    ultimately have "bit O_NONBLOCK k \<longleftrightarrow> k = 11" by metis
    then show ?thesis by (auto simp: set_nonblock_def bit_or_iff)
  qed
  show "set_nonblock False True fl = - 1" by (simp add: set_nonblock_def)
qed

theorem system_wrappers_witness: "N_ONES 64 = - 1 \<and> rdtsc 1 2 = 4294967298 \<and> N_ONES 64 = mask 64"
  using system_wrappers [of 64 1 2 0 0] by (simp add: N_ONES_def rdtsc_def)

end
