(* ===== verification/Itachi.thy ===== *)
theory Itachi
  imports Locks
begin

text \<open>
  The reactor of \<^verbatim>\<open>itachi/itachi.cc\<close> and \<^verbatim>\<open>itachi/handler.cc\<close>: reference-counted contexts that are launched
  into the queues of a pool of CPU threads or of a pool of poll threads, armed in libev by the poll
  threads, and completed by the CPU threads. Contexts live in a table, so that a use after the
  last release shows. The interleaving of the threads and of the users is a step relation.
\<close>

section \<open>Contexts\<close>

datatype ctx_type = CtNop | CtCpu | CtNet

record actx =
  ctype :: ctx_type
  action :: int
  urgent :: bool
  net_fd :: int
  net_events :: u32
  net_timeout_ms :: int
  net_timeout :: bool
  net_readable :: bool
  net_writeable :: bool
  refs :: u32
  client_itachi :: nat
  thread_hint :: u32

definition EV_READ :: u32 where "EV_READ = 1"
definition EV_WRITE :: u32 where "EV_WRITE = 2"
definition EV_TIMER :: u32 where "EV_TIMER = 0x100"
definition EV_ERROR :: u32 where "EV_ERROR = 0x80000000"

text \<open>A new context; \<open>net0\<close> gives the fields the constructor leaves indeterminate.\<close>

definition AsyncContext_ctor :: "nat \<Rightarrow> u32 \<Rightarrow> actx \<Rightarrow> actx" where
  "AsyncContext_ctor client hint net0 =
     net0\<lparr>ctype := CtNop, action := 0, client_itachi := client, thread_hint := hint, refs := 1\<rparr>"

definition initCpuEvent :: "int \<Rightarrow> bool \<Rightarrow> actx \<Rightarrow> actx" where
  "initCpuEvent act emergency x = x\<lparr>ctype := CtCpu, action := act, urgent := emergency\<rparr>"

definition initNetReadEvent :: "int \<Rightarrow> int \<Rightarrow> int \<Rightarrow> actx \<Rightarrow> actx" where
  "initNetReadEvent act fd ms x = x\<lparr>ctype := CtNet, action := act, net_fd := fd, net_events := EV_READ,
     net_timeout_ms := ms, net_timeout := False\<rparr>"

definition initNetWriteEvent :: "int \<Rightarrow> int \<Rightarrow> int \<Rightarrow> actx \<Rightarrow> actx" where
  "initNetWriteEvent act fd ms x = x\<lparr>ctype := CtNet, action := act, net_fd := fd, net_events := EV_WRITE,
     net_timeout_ms := ms, net_timeout := False\<rparr>"

definition initNetEvent :: "int \<Rightarrow> int \<Rightarrow> int \<Rightarrow> actx \<Rightarrow> actx" where
  "initNetEvent act fd ms x = x\<lparr>ctype := CtNet, action := act, net_fd := fd,
     net_events := EV_READ OR EV_WRITE, net_timeout_ms := ms, net_timeout := False\<rparr>"

section \<open>The reactor\<close>

text \<open>
  \<open>armed\<close>: per poll thread, the contexts handed to \<^verbatim>\<open>ev_once\<close> whose callback has not run.
  \<open>running\<close>: the contexts CPU threads have taken out of their queues and not released yet.
  \<open>lost\<close> only observes: the contexts that were still in a queue or a loop when \<^verbatim>\<open>stop\<close> deleted it.
\<close>

record itachi =
  self :: nat
  stop :: bool
  cpu_q :: "nat list list"
  poll_q :: "nat list list"
  armed :: "nat list list"
  running :: "nat list"
  lost :: "nat list"
  ctxs :: "nat \<rightharpoonup> actx"

definition ctx_get :: "itachi \<Rightarrow> nat \<Rightarrow> actx exec" where
  "ctx_get st c = exec_of_option Undefined (ctxs st c)"

definition ctx_acquire :: "nat \<Rightarrow> itachi \<Rightarrow> itachi exec" where
  "ctx_acquire c st = exec_bind (ctx_get st c) (\<lambda>x.
     Ret (st\<lparr>ctxs := (ctxs st)(c \<mapsto> x\<lparr>refs := fst (RefCount_acquire (refs x))\<rparr>)\<rparr>))"

definition ctx_release :: "nat \<Rightarrow> itachi \<Rightarrow> itachi exec" where
  "ctx_release c st = exec_bind (ctx_get st c) (\<lambda>x.
     let (n, r) = RefCount_release (refs x); x = x\<lparr>refs := n\<rparr> in
     if r = 0 then Ret (st\<lparr>ctxs := (ctxs st)(c := None)\<rparr>)
     else Ret (st\<lparr>ctxs := (ctxs st)(c \<mapsto> x)\<rparr>))"

lemma RefCount_simps [simp]:
  "fst (RefCount_acquire n) = n + 1" "RefCount_release n = (n - 1, n - 1)"
  by (simp_all add: RefCount_acquire_def RefCount_release_def exchange_and_add_def)

definition CpuHandler_push :: "nat \<Rightarrow> itachi \<Rightarrow> (int \<times> itachi) exec" where
  "CpuHandler_push c st =
     (if stop st then Ret (- 1, st)
      else exec_bind (ctx_get st c) (\<lambda>x.
        if length (cpu_q st) = 0 then Undefined
        else let i = unat (thread_hint x) mod length (cpu_q st);
                 q = cpu_q st ! i
             in if urgent x then Ret (0, st\<lparr>cpu_q := (cpu_q st)[i := c # q]\<rparr>)
                else Ret (0, st\<lparr>cpu_q := (cpu_q st)[i := q @ [c]]\<rparr>)))"

definition PollHandler_push :: "nat \<Rightarrow> itachi \<Rightarrow> (int \<times> itachi) exec" where
  "PollHandler_push c st =
     (if stop st then Ret (- 1, st)
      else exec_bind (ctx_get st c) (\<lambda>x.
        if length (poll_q st) = 0 then Undefined
        else let i = unat (thread_hint x) mod length (poll_q st)
             in Ret (0, st\<lparr>poll_q := (poll_q st)[i := poll_q st ! i @ [c]]\<rparr>)))"

definition Itachi_launch_impl :: "nat \<Rightarrow> bool \<Rightarrow> itachi \<Rightarrow> (int \<times> itachi) exec" where
  "Itachi_launch_impl c auto_acquire st =
     exec_bind (ctx_get st c) (\<lambda>x.
     if client_itachi x \<noteq> self st then Ret (- 1, st)
     else
       exec_bind (if auto_acquire then ctx_acquire c st else Ret st) (\<lambda>st.
       exec_bind (case ctype x of CtCpu \<Rightarrow> CpuHandler_push c st
          | CtNet \<Rightarrow> PollHandler_push c st | CtNop \<Rightarrow> Ret (- 1, st)) (\<lambda>(code, st).
       if code \<noteq> 0 \<and> auto_acquire
       then exec_bind (ctx_release c st) (\<lambda>st. Ret (code, st))
       else Ret (code, st))))"

definition Itachi_launch :: "nat \<Rightarrow> itachi \<Rightarrow> (int \<times> itachi) exec" where
  "Itachi_launch c st = Itachi_launch_impl c True st"

text \<open>
  \<^verbatim>\<open>start\<close> and \<^verbatim>\<open>stop\<close>; the threads themselves are the steps below. \<^verbatim>\<open>stop\<close> sets the flag, joins the
  CPU threads, which ends when none of them has a context in hand any more (\<open>None\<close>: the join still
  waits), and deletes their queues; then it does the same for the poll threads, whose loops are
  destroyed with the watchers in them. The contexts in the queues are not touched: \<^verbatim>\<open>delete [] queue_\<close>
  destroys the heads of the intrusive lists only.
\<close>

definition Itachi_start :: "nat \<Rightarrow> nat \<Rightarrow> itachi \<Rightarrow> int \<times> itachi" where
  "Itachi_start cpu_threads poll_threads st =
     (if \<not> stop st then (- 1, st)
      else (0, st\<lparr>stop := False, cpu_q := replicate cpu_threads [], poll_q := replicate poll_threads [],
              armed := replicate poll_threads []\<rparr>))"

definition stop_flag :: "itachi \<Rightarrow> itachi" where
  "stop_flag st = st\<lparr>stop := True\<rparr>"

definition CpuHandler_drop :: "itachi \<Rightarrow> itachi option" where
  "CpuHandler_drop st = (if running st \<noteq> [] then None
     else Some (st\<lparr>cpu_q := [], lost := concat (cpu_q st) @ lost st\<rparr>))"

definition PollHandler_drop :: "itachi \<Rightarrow> itachi option" where
  "PollHandler_drop st =
     Some (st\<lparr>poll_q := [], armed := [], lost := concat (poll_q st) @ concat (armed st) @ lost st\<rparr>)"

text \<open>The whole of \<^verbatim>\<open>stop\<close>, when nothing runs in between.\<close>

definition Itachi_stop :: "itachi \<Rightarrow> itachi option" where
  "Itachi_stop st = Option.bind (CpuHandler_drop (stop_flag st)) PollHandler_drop"

text \<open>\<^verbatim>\<open>CpuHandler::thread_function\<close>: take the first context, or the whole queue; release after \<^verbatim>\<open>onComplete\<close>.\<close>

definition cpu_take :: "nat \<Rightarrow> itachi \<Rightarrow> itachi option" where
  "cpu_take i st =
     (if i < length (cpu_q st) then
        (case cpu_q st ! i of [] \<Rightarrow> None
         | c # q \<Rightarrow> Some (st\<lparr>cpu_q := (cpu_q st)[i := q], running := c # running st\<rparr>))
      else None)"

definition cpu_clear :: "nat \<Rightarrow> itachi \<Rightarrow> itachi option" where
  "cpu_clear i st =
     (if i < length (cpu_q st)
      then Some (st\<lparr>cpu_q := (cpu_q st)[i := []], running := cpu_q st ! i @ running st\<rparr>) else None)"

definition cpu_done :: "nat \<Rightarrow> itachi \<Rightarrow> itachi exec" where
  "cpu_done c st = ctx_release c (st\<lparr>running := remove1 c (running st)\<rparr>)"

text \<open>\<^verbatim>\<open>PollHandler::thread_function\<close>: arm every queued context; only network contexts are expected.\<close>

fun poll_arm :: "nat list \<Rightarrow> itachi \<Rightarrow> bool exec" where
  "poll_arm [] st = Ret True"
| "poll_arm (c # cs) st = exec_bind (ctx_get st c) (\<lambda>x.
     case ctype x of CtNet \<Rightarrow> poll_arm cs st | _ \<Rightarrow> Fatal)"

definition poll_collect :: "nat \<Rightarrow> itachi \<Rightarrow> itachi exec" where
  "poll_collect i st = exec_bind (poll_arm (poll_q st ! i) st) (\<lambda>_.
     Ret (st\<lparr>poll_q := (poll_q st)[i := []], armed := (armed st)[i := armed st ! i @ poll_q st ! i]\<rparr>))"

definition net_callback :: "u32 \<Rightarrow> nat \<Rightarrow> itachi \<Rightarrow> itachi exec" where
  "net_callback revents c st =
     (if revents AND EV_ERROR \<noteq> 0 then Fatal
      else exec_bind (ctx_get st c) (\<lambda>x.
        let r = (revents AND EV_READ \<noteq> 0);
            w = (revents AND EV_WRITE \<noteq> 0);
            x = x\<lparr>net_readable := r, net_writeable := w,
                  net_timeout := (revents AND EV_TIMER \<noteq> 0 \<and> \<not> r \<and> \<not> w)\<rparr>;
            x = initCpuEvent (action x) False x
        in exec_bind (Itachi_launch_impl c False (st\<lparr>ctxs := (ctxs st)(c \<mapsto> x)\<rparr>)) (\<lambda>(code, st).
             if code = - 1 then Fatal else Ret st)))"

definition poll_fire :: "nat \<Rightarrow> nat \<Rightarrow> u32 \<Rightarrow> itachi \<Rightarrow> itachi exec" where
  "poll_fire i c revents st =
     net_callback revents c (st\<lparr>armed := (armed st)[i := remove1 c (armed st ! i)]\<rparr>)"

section \<open>Occurrences\<close>

definition pending :: "itachi \<Rightarrow> nat multiset" where
  "pending st = mset (concat (cpu_q st)) + mset (concat (poll_q st)) + mset (concat (armed st))"

definition occ :: "itachi \<Rightarrow> nat \<Rightarrow> nat" where
  "occ st c = count (pending st) c + count_list (running st) c + count_list (lost st) c"

text \<open>
  The users of the library: \<open>u c\<close> is the number of references to \<open>c\<close> that user code holds. A user, or
  a callback that is running for \<open>c\<close>, may set up \<open>c\<close> and launch it as long as it is not pending
  (\<^verbatim>\<open>you can't launch the same AsyncContext for twice\<close>). \<^verbatim>\<open>stop\<close> is called once per \<^verbatim>\<open>start\<close>, and \<^verbatim>\<open>start\<close>
  again only when \<^verbatim>\<open>stop\<close> has returned; a launch is one step, so it does not overlap the deletion of
  the queues.
\<close>

type_synonym istate = "itachi \<times> (nat \<Rightarrow> nat)"

definition may_use :: "istate \<Rightarrow> nat \<Rightarrow> bool" where
  "may_use s c \<longleftrightarrow> (0 < snd s c \<or> c \<in> set (running (fst s))) \<and> c \<notin># pending (fst s)"

definition same_refs :: "actx \<Rightarrow> actx \<Rightarrow> bool" where
  "same_refs x y \<longleftrightarrow> refs y = refs x"

inductive istep :: "istate \<Rightarrow> istate \<Rightarrow> bool" where
  create: "\<lbrakk>ctxs st c = None; x = AsyncContext_ctor cl h net0\<rbrakk> \<Longrightarrow>
    istep (st, u) (st\<lparr>ctxs := (ctxs st)(c \<mapsto> x)\<rparr>, u(c := 1))"
| user_init: "\<lbrakk>may_use (st, u) c; ctxs st c = Some x; same_refs x y\<rbrakk> \<Longrightarrow>
    istep (st, u) (st\<lparr>ctxs := (ctxs st)(c \<mapsto> y)\<rparr>, u)"
| user_launch: "\<lbrakk>may_use (st, u) c; Itachi_launch c st = Ret (code, st')\<rbrakk> \<Longrightarrow> istep (st, u) (st', u)"
| user_acquire: "\<lbrakk>0 < u c; ctx_acquire c st = Ret st'\<rbrakk> \<Longrightarrow> istep (st, u) (st', u(c := u c + 1))"
| user_release: "\<lbrakk>0 < u c; ctx_release c st = Ret st'\<rbrakk> \<Longrightarrow> istep (st, u) (st', u(c := u c - 1))"
| take: "cpu_take i st = Some st' \<Longrightarrow> istep (st, u) (st', u)"
| clear: "cpu_clear i st = Some st' \<Longrightarrow> istep (st, u) (st', u)"
| finish: "\<lbrakk>c \<in> set (running st); cpu_done c st = Ret st'\<rbrakk> \<Longrightarrow> istep (st, u) (st', u)"
| collect: "\<lbrakk>i < length (poll_q st); poll_collect i st = Ret st'\<rbrakk> \<Longrightarrow> istep (st, u) (st', u)"
| fire: "\<lbrakk>i < length (armed st); c \<in> set (armed st ! i); poll_fire i c revents st = Ret st'\<rbrakk> \<Longrightarrow>
    istep (st, u) (st', u)"
| stop: "istep (st, u) (stop_flag st, u)"
| cpu_stop: "\<lbrakk>stop st; CpuHandler_drop st = Some st'\<rbrakk> \<Longrightarrow> istep (st, u) (st', u)"
| poll_stop: "\<lbrakk>stop st; cpu_q st = []; PollHandler_drop st = Some st'\<rbrakk> \<Longrightarrow> istep (st, u) (st', u)"
| restart: "\<lbrakk>cpu_q st = []; poll_q st = []; Itachi_start n m st = (0, st')\<rbrakk> \<Longrightarrow> istep (st, u) (st', u)"

definition itachi_new :: "nat \<Rightarrow> itachi" where
  "itachi_new me = \<lparr>self = me, stop = True, cpu_q = [], poll_q = [], armed = [], running = [], lost = [], ctxs = Map.empty\<rparr>"

definition istart :: "nat \<Rightarrow> nat \<Rightarrow> nat \<Rightarrow> istate" where
  "istart me n m = (snd (Itachi_start n m (itachi_new me)), \<lambda>_. 0)"

text \<open>
  The counts are 32-bit numbers; \<open>few_refs\<close> says that no context has \<open>2 ^ 32\<close> references at once, and
  \<open>istep32\<close> is a step into such a state.
\<close>

definition few_refs :: "istate \<Rightarrow> bool" where
  "few_refs s \<longleftrightarrow> (\<forall>c. snd s c + occ (fst s) c < 2 ^ 32)"

definition istep32 :: "istate \<Rightarrow> istate \<Rightarrow> bool" where
  "istep32 s s' \<longleftrightarrow> istep s s' \<and> few_refs s'"

text \<open>
  Every reference is accounted for: the count of a live context is the number of user references
  plus the number of places the reactor holds it in, and a dead context is nowhere. No context is
  pending twice, and only network contexts wait for the poll threads.
\<close>

definition ref_ok :: "(nat \<rightharpoonup> actx) \<Rightarrow> nat \<Rightarrow> nat \<Rightarrow> nat \<Rightarrow> bool" where
  "ref_ok m c users n \<longleftrightarrow> (case m c of None \<Rightarrow> users = 0 \<and> n = 0 | Some x \<Rightarrow> unat (refs x) = users + n \<and> 0 < refs x)"

fun refs_ok :: "istate \<Rightarrow> bool" where
  "refs_ok (st, u) \<longleftrightarrow> (\<forall>c. ref_ok (ctxs st) c (u c) (occ st c)) \<and> length (armed st) = length (poll_q st)
     \<and> (\<forall>c. count (pending st) c \<le> 1)
     \<and> (\<forall>c \<in> set (concat (poll_q st)). \<forall>x. ctxs st c = Some x \<longrightarrow> ctype x = CtNet)"

declare refs_ok.simps [simp del]
lemmas refs_ok_alt = refs_ok.simps

lemma mset_concat_update:
  "i < length xss \<Longrightarrow> mset (concat (xss[i := ys])) + mset (xss ! i) = mset (concat xss) + mset ys"
proof (induction xss arbitrary: i)
  case (Cons xs xss)
  then show ?case by (cases i) auto
qed simp

lemma count_concat_update:
  "i < length xss \<Longrightarrow>
   count (mset (concat (xss[i := ys]))) c + count (mset (xss ! i)) c = count (mset (concat xss)) c + count (mset ys) c"
  using arg_cong [OF mset_concat_update [of i xss ys], of "\<lambda>m. count m c"] by simp

lemma occ_upd_simps [simp]:
  "occ (st\<lparr>ctxs := m\<rparr>) c = occ st c" "occ (st\<lparr>stop := b\<rparr>) c = occ st c"
  "pending (st\<lparr>stop := b\<rparr>) = pending st"
  "pending (st\<lparr>ctxs := m\<rparr>) = pending st" "pending (st\<lparr>running := r\<rparr>) = pending st"
  by (simp_all add: occ_def pending_def)

lemma pend_cpu_q:
  "i < length (cpu_q st) \<Longrightarrow>
   count (pending (st\<lparr>cpu_q := (cpu_q st)[i := ys]\<rparr>)) c + count (mset (cpu_q st ! i)) c = count (pending st) c + count (mset ys) c"
  using count_concat_update [of i "cpu_q st" ys c] by (simp add: pending_def)

lemma pend_poll_q:
  "i < length (poll_q st) \<Longrightarrow>
   count (pending (st\<lparr>poll_q := (poll_q st)[i := ys]\<rparr>)) c + count (mset (poll_q st ! i)) c = count (pending st) c + count (mset ys) c"
  using count_concat_update [of i "poll_q st" ys c] by (simp add: pending_def)

lemma pend_armed:
  "i < length (armed st) \<Longrightarrow>
   count (pending (st\<lparr>armed := (armed st)[i := ys]\<rparr>)) c + count (mset (armed st ! i)) c = count (pending st) c + count (mset ys) c"
  using count_concat_update [of i "armed st" ys c] by (simp add: pending_def)

lemma refs_ok_alive:
  "refs_ok (st, u) \<Longrightarrow> 0 < u c \<or> 0 < occ st c \<Longrightarrow>
   \<exists>x. ctxs st c = Some x \<and> unat (refs x) = u c + occ st c \<and> 0 < refs x"
proof -
  assume "refs_ok (st, u)" and p: "0 < u c \<or> 0 < occ st c"
  then have "ref_ok (ctxs st) c (u c) (occ st c)" by (simp add: refs_ok_alt)
  with p show ?thesis by (cases "ctxs st c") (auto simp: ref_ok_def)
qed

text \<open>A push adds one occurrence, or reports failure and changes nothing.\<close>

definition pushed_once :: "nat \<Rightarrow> itachi \<Rightarrow> int \<Rightarrow> itachi \<Rightarrow> bool" where
  "pushed_once c st code st' \<longleftrightarrow> ctxs st' = ctxs st \<and> running st' = running st \<and> lost st' = lost st \<and> self st' = self st
     \<and> length (armed st') = length (armed st) \<and> length (poll_q st') = length (poll_q st)
     \<and> (if code = 0 then \<forall>d. count (pending st') d = count (pending st) d + (if d = c then 1 else 0) else st' = st)"

lemma CpuHandler_push_once:
  assumes "CpuHandler_push c st = Ret (code, st')"
  shows "pushed_once c st code st' \<and> poll_q st' = poll_q st"
proof (cases "stop st")
  case False
  then obtain x where x: "ctxs st c = Some x" "code = 0" "cpu_q st \<noteq> []"
    and e: "st' = st\<lparr>cpu_q := (cpu_q st)[unat (thread_hint x) mod length (cpu_q st)
            := c # cpu_q st ! (unat (thread_hint x) mod length (cpu_q st))]\<rparr>
        \<or> st' = st\<lparr>cpu_q := (cpu_q st)[unat (thread_hint x) mod length (cpu_q st)
            := cpu_q st ! (unat (thread_hint x) mod length (cpu_q st)) @ [c]]\<rparr>"
    using assms by (auto simp: CpuHandler_push_def ctx_get_def exec_simps Let_def split: if_splits)
  define i where "i = unat (thread_hint x) mod length (cpu_q st)"
  have i: "i < length (cpu_q st)" using x by (simp add: i_def)
  note st' = e [folded i_def]
  have "count (pending st') d = count (pending st) d + (if d = c then 1 else 0)" for d
    using pend_cpu_q [OF i, of "c # cpu_q st ! i" d] pend_cpu_q [OF i, of "cpu_q st ! i @ [c]" d] st' by auto
  with st' x show ?thesis by (auto simp: pushed_once_def)
qed (use assms in \<open>auto simp: CpuHandler_push_def pushed_once_def\<close>)

lemma PollHandler_push_once:
  assumes "PollHandler_push c st = Ret (code, st')"
  shows "pushed_once c st code st' \<and> set (concat (poll_q st')) \<subseteq> insert c (set (concat (poll_q st)))"
proof (cases "stop st")
  case False
  then obtain x where x: "ctxs st c = Some x" "code = 0" "poll_q st \<noteq> []"
    and e: "st' = st\<lparr>poll_q := (poll_q st)[unat (thread_hint x) mod length (poll_q st)
            := poll_q st ! (unat (thread_hint x) mod length (poll_q st)) @ [c]]\<rparr>"
    using assms by (auto simp: PollHandler_push_def ctx_get_def exec_simps Let_def split: if_splits)
  define i where "i = unat (thread_hint x) mod length (poll_q st)"
  have i: "i < length (poll_q st)" using x by (simp add: i_def)
  note st' = e [folded i_def]
  have "count (pending st') d = count (pending st) d + (if d = c then 1 else 0)" for d
    using pend_poll_q [OF i, of "poll_q st ! i @ [c]" d] st' by auto
  moreover have "set (concat (poll_q st')) \<subseteq> insert c (set (concat (poll_q st)))"
    using set_update_subset_insert [of "poll_q st" i "poll_q st ! i @ [c]"] st' i nth_mem [OF i] by fastforce
  ultimately show ?thesis using st' x by (auto simp: pushed_once_def)
qed (use assms in \<open>auto simp: PollHandler_push_def pushed_once_def\<close>)

text \<open>
  Launching a live context: on success one occurrence and (with \<^verbatim>\<open>auto_acquire\<close>) one reference more,
  on failure nothing has changed.
\<close>

lemma launch_effect:
  assumes "Itachi_launch_impl c auto st = Ret (code, st')" "ctxs st c = Some x" "0 < refs x"
  shows "if code = 0
     then ctxs st' = (ctxs st)(c \<mapsto> x\<lparr>refs := refs x + (if auto then 1 else 0)\<rparr>)
       \<and> (\<forall>d. count (pending st') d = count (pending st) d + (if d = c then 1 else 0)) \<and> length (armed st') = length (armed st)
       \<and> length (poll_q st') = length (poll_q st) \<and> running st' = running st \<and> lost st' = lost st \<and> self st' = self st
       \<and> (set (concat (poll_q st')) \<subseteq> set (concat (poll_q st)) \<or>
           ctype x = CtNet \<and> set (concat (poll_q st')) \<subseteq> insert c (set (concat (poll_q st))))
     else st' = st"
proof (cases "client_itachi x = self st")
  case False
  with assms show ?thesis by (auto simp: Itachi_launch_impl_def ctx_get_def)
next
  case True
  let ?s1 = "if auto then st\<lparr>ctxs := (ctxs st)(c \<mapsto> x\<lparr>refs := refs x + 1\<rparr>)\<rparr> else st"
  obtain code2 s2 where p: "(case ctype x of CtCpu \<Rightarrow> CpuHandler_push c ?s1
          | CtNet \<Rightarrow> PollHandler_push c ?s1 | CtNop \<Rightarrow> Ret (- 1, ?s1)) = Ret (code2, s2)"
    and r: "(if code2 \<noteq> 0 \<and> auto then exec_bind (ctx_release c s2) (\<lambda>st. Ret (code2, st)) else Ret (code2, s2))
        = Ret (code, st')"
    using assms True
    by (auto simp: Itachi_launch_impl_def ctx_get_def ctx_acquire_def exec_bind_Ret split: if_splits)
  have once: "pushed_once c ?s1 code2 s2 \<and> (poll_q s2 = poll_q ?s1 \<or>
      ctype x = CtNet \<and> set (concat (poll_q s2)) \<subseteq> insert c (set (concat (poll_q ?s1))))"
    using p CpuHandler_push_once [of c ?s1 code2 s2] PollHandler_push_once [of c ?s1 code2 s2]
    by (cases "ctype x") (auto simp: pushed_once_def)
  show ?thesis
  proof (cases "code2 = 0")
    case True
    with r have "code = 0" "st' = s2" by auto
    with once True show ?thesis using assms(2)
      by (auto simp: pushed_once_def fun_upd_idem split: if_splits)
  next
    case False
    with once have "s2 = ?s1" by (simp add: pushed_once_def)
    with False r assms(2,3) show ?thesis
      by (cases auto) (auto simp: ctx_release_def ctx_get_def Let_def fun_upd_idem exec_bind_Ret split: if_splits)
  qed
qed

lemma launch_codes:
  "Itachi_launch_impl c auto st = Ret (code, st') \<Longrightarrow> code = 0 \<or> code = - 1"
  by (auto simp: Itachi_launch_impl_def CpuHandler_push_def PollHandler_push_def ctx_get_def Let_def exec_simps
      split: if_splits ctx_type.splits) (metis ctx_type.exhaust)+

lemma in_poll_q_pending: "c \<in> set (concat (poll_q st)) \<Longrightarrow> c \<in># pending st"
  by (auto simp: pending_def)

lemma in_armed_pending: "c \<in> set (armed st ! i) \<Longrightarrow> i < length (armed st) \<Longrightarrow> c \<in># pending st"
  by (fastforce simp: pending_def dest: nth_mem)

lemma count_list_pos: "x \<in> set xs \<Longrightarrow> 0 < count_list xs x"
  by (metis count_list_0_iff neq0_conv)

lemma unat_acquire:
  fixes n :: u32
  assumes "unat n + 1 < 2 ^ 32"
  shows "unat (n + 1) = unat n + 1 \<and> 0 < n + 1"
proof -
  have "unat (n + 1) = unat n + 1" using assms by (simp add: unat_word_ariths)
  then show ?thesis by (metis add_eq_0_iff_both_eq_0 one_neq_zero unat_0 word_gt_0)
qed

lemma unat_release:
  fixes n :: u32
  assumes "unat n = Suc k" "n \<noteq> 1"
  shows "unat (n - 1) = k \<and> 0 < n - 1"
proof -
  have "n \<noteq> 0" using assms(1) by auto
  then show ?thesis using unat_minus_one [of n] assms by (simp add: word_gt_0)
qed

lemma refs_ok_release:
  assumes "\<forall>d. ref_ok (ctxs st) d (u d) (occ st d + (if d = c then 1 else 0))" "ctx_release c st = Ret st'"
    "length (armed st) = length (poll_q st)" "\<forall>c. count (pending st) c \<le> 1"
    "\<forall>c \<in> set (concat (poll_q st)). \<forall>x. ctxs st c = Some x \<longrightarrow> ctype x = CtNet"
  shows "refs_ok (st', u)"
proof -
  obtain x where x: "ctxs st c = Some x" "unat (refs x) = u c + occ st c + 1"
    using assms(1,2) by (auto simp: ctx_release_def ctx_get_def ref_ok_def exec_simps dest!: spec [of _ c])
  then have st': "st' = st\<lparr>ctxs := (ctxs st)(c := if refs x = 1 then None else Some (x\<lparr>refs := refs x - 1\<rparr>))\<rparr>"
    using assms(2) by (auto simp: ctx_release_def ctx_get_def Let_def)
  have "ref_ok (ctxs st') d (u d) (occ st' d)" for d
    using assms(1) [rule_format, of d] x st' unat_release [of "refs x" "u c + occ st c"]
    by (auto simp: ref_ok_def split: option.splits)
  then show ?thesis using assms(3-) x(1) st' by (auto simp: refs_ok_alt split: if_splits)
qed

lemma refs_ok_launch:
  assumes "refs_ok (st, u)" "may_use (st, u) c" "Itachi_launch c st = Ret (code, st')" "few_refs (st', u)"
  shows "refs_ok (st', u)"
proof -
  have "0 < u c \<or> 0 < occ st c" using assms(2) by (auto simp: may_use_def occ_def count_list_pos)
  then obtain x where x: "ctxs st c = Some x" "unat (refs x) = u c + occ st c" "0 < refs x"
    using refs_ok_alive [OF assms(1), of c] by auto
  note eff = launch_effect [OF assms(3) [unfolded Itachi_launch_def] x(1,3)]
  show ?thesis
  proof (cases "code = 0")
    case True
    have np: "count (pending st) c = 0" using assms(2) by (simp add: may_use_def not_in_iff)
    have "occ st' c = occ st c + 1" using eff True by (simp add: occ_def)
    then have "unat (refs x) + 1 < 2 ^ 32"
      using assms(4) x(2) by (auto simp: few_refs_def dest: spec [of _ c])
    note n = unat_acquire [OF this]
    have "ref_ok (ctxs st') d (u d) (occ st' d)" for d
    proof -
      have "ref_ok (ctxs st) d (u d) (occ st d)" using assms(1) by (simp add: refs_ok_alt)
      then show ?thesis using eff True x n by (cases "d = c") (auto simp: ref_ok_def occ_def split: option.splits)
    qed
    moreover have "count (pending st') d \<le> 1" for d
      using assms(1) eff True np by (auto simp: refs_ok_alt)
    moreover have "ctype y = CtNet" if "d \<in> set (concat (poll_q st'))" "ctxs st' d = Some y" for d y
      using that assms(1) eff True x by (auto simp: refs_ok_alt split: if_splits)
    ultimately show ?thesis using assms(1) eff True by (auto simp: refs_ok_alt)
  next
    case False
    with eff assms(1) show ?thesis by simp
  qed
qed

lemma poll_fire_launch:
  assumes "poll_fire i c revents st = Ret st'" "ctxs st c = Some x"
  shows "\<exists>y. refs y = refs x \<and> ctype y = CtCpu \<and>
    Itachi_launch_impl c False (st\<lparr>armed := (armed st)[i := remove1 c (armed st ! i)], ctxs := (ctxs st)(c \<mapsto> y)\<rparr>)
      = Ret (0, st')"
proof -
  let ?r = "revents AND EV_READ \<noteq> 0" and ?w = "revents AND EV_WRITE \<noteq> 0"
  let ?y = "initCpuEvent (action x) False (x\<lparr>net_readable := ?r, net_writeable := ?w,
      net_timeout := (revents AND EV_TIMER \<noteq> 0 \<and> \<not> ?r \<and> \<not> ?w)\<rparr>)"
  obtain code where "code \<noteq> - 1" and l: "Itachi_launch_impl c False
      (st\<lparr>armed := (armed st)[i := remove1 c (armed st ! i)], ctxs := (ctxs st)(c \<mapsto> ?y)\<rparr>) = Ret (code, st')"
    using assms by (auto simp: poll_fire_def net_callback_def ctx_get_def Let_def exec_simps split: if_splits)
  with launch_codes [OF l] have "code = 0" by blast
  with l show ?thesis by (intro exI [of _ ?y]) (simp add: initCpuEvent_def)
qed

lemma refs_ok_fire:
  assumes "refs_ok (st, u)" "i < length (armed st)" "c \<in> set (armed st ! i)" "poll_fire i c revents st = Ret st'"
  shows "refs_ok (st', u)"
proof -
  have p1: "count (pending st) c = 1"
    using in_armed_pending [OF assms(3,2)] assms(1) by (simp add: refs_ok_alt) (metis One_nat_def le_antisym Suc_leI count_greater_zero_iff)
  then obtain x where x: "ctxs st c = Some x" "unat (refs x) = u c + occ st c" "0 < refs x"
    using refs_ok_alive [OF assms(1), of c] by (auto simp: occ_def)
  obtain y where y: "refs y = refs x" "ctype y = CtCpu" and l: "Itachi_launch_impl c False
      (st\<lparr>armed := (armed st)[i := remove1 c (armed st ! i)], ctxs := (ctxs st)(c \<mapsto> y)\<rparr>) = Ret (0, st')"
    using poll_fire_launch [OF assms(4) x(1)] by blast
  let ?s = "st\<lparr>armed := (armed st)[i := remove1 c (armed st ! i)], ctxs := (ctxs st)(c \<mapsto> y)\<rparr>"
  have pend: "count (pending ?s) d = count (pending st) d - (if d = c then 1 else 0)" for d
  proof -
    have "0 < count (mset (armed st ! i)) c" using assms(3) by simp
    then have "count (mset (remove1 c (armed st ! i))) d + (if d = c then 1 else 0) = count (mset (armed st ! i)) d"
      by (simp del: count_greater_zero_iff)
    with pend_armed [OF assms(2), of "remove1 c (armed st ! i)" d] show ?thesis
      by (simp del: mset_remove1 split: if_splits)
  qed
  note eff = launch_effect [OF l, of y]
  have pend': "count (pending st') d = count (pending st) d" for d using eff y x(3) pend [of d] p1 by auto
  have ref: "ref_ok (ctxs st') d (u d) (occ st' d)" for d
  proof -
    have "ref_ok (ctxs st) d (u d) (occ st d)" using assms(1) by (simp add: refs_ok_alt)
    then show ?thesis using eff x y pend' by (cases "d = c") (auto simp: ref_ok_def occ_def split: option.splits)
  qed
  have "c \<notin> set (concat (poll_q st))"
  proof
    assume "c \<in> set (concat (poll_q st))"
    then have "0 < count (mset (concat (poll_q st))) c" by (simp only: count_greater_zero_iff in_multiset_in_set)
    moreover have "0 < count (mset (concat (armed st))) c"
      using assms(2,3) nth_mem [OF assms(2)] by (auto simp only: count_greater_zero_iff in_multiset_in_set set_concat)
    ultimately show False using p1 by (simp only: pending_def count_union)
  qed
  then have "ctype z = CtNet" if "d \<in> set (concat (poll_q st'))" "ctxs st' d = Some z" for d z
    using that assms(1) eff y x(3) by (auto simp: refs_ok_alt split: if_splits)
  with ref pend' eff y x(3) assms(1) show ?thesis by (auto simp: refs_ok_alt)
qed

lemma refs_ok_same_occ:
  assumes "refs_ok (st, u)" "ctxs st' = ctxs st" "\<And>c. occ st' c = occ st c" "length (armed st') = length (poll_q st')"
    "\<And>c. count (pending st') c \<le> count (pending st) c" "set (concat (poll_q st')) \<subseteq> set (concat (poll_q st))"
  shows "refs_ok (st', u)"
  using assms unfolding refs_ok_alt by (metis le_trans subset_eq)

lemma refs_ok_take:
  assumes "refs_ok (st, u)" "cpu_take i st = Some st'"
  shows "refs_ok (st', u)"
proof -
  obtain c q where q: "i < length (cpu_q st)" "cpu_q st ! i = c # q"
    and st': "st' = st\<lparr>cpu_q := (cpu_q st)[i := q], running := c # running st\<rparr>"
    using assms(2) by (auto simp: cpu_take_def split: if_splits list.splits)
  have p: "count (pending st') d + (if d = c then 1 else 0) = count (pending st) d" for d
    using pend_cpu_q [OF q(1), of q d] q(2) st' by (auto split: if_splits)
  have "occ st' d = occ st d" for d using p [of d] st' by (auto simp: occ_def split: if_splits)
  moreover have "count (pending st') d \<le> count (pending st) d" for d using p [of d] by linarith
  ultimately show ?thesis using st' assms(1) by (intro refs_ok_same_occ [OF assms(1)]) (auto simp: refs_ok_alt)
qed

lemma refs_ok_clear:
  assumes "refs_ok (st, u)" "cpu_clear i st = Some st'"
  shows "refs_ok (st', u)"
proof -
  have q: "i < length (cpu_q st)" and st': "st' = st\<lparr>cpu_q := (cpu_q st)[i := []], running := cpu_q st ! i @ running st\<rparr>"
    using assms(2) by (auto simp: cpu_clear_def split: if_splits)
  have p: "count (pending st') d + count_list (cpu_q st ! i) d = count (pending st) d" for d
    using pend_cpu_q [OF q, of "[]" d] st' by (simp add: count_mset)
  then have "occ st' d = occ st d" for d
    using p [of d] st' by (simp add: occ_def)
  moreover have "count (pending st') d \<le> count (pending st) d" for d using p [of d] by linarith
  ultimately show ?thesis using st' assms(1) by (intro refs_ok_same_occ [OF assms(1)]) (auto simp: refs_ok_alt)
qed

lemma refs_ok_collect:
  assumes "refs_ok (st, u)" "i < length (poll_q st)" "poll_collect i st = Ret st'"
  shows "refs_ok (st', u)"
proof -
  have st': "st' = st\<lparr>poll_q := (poll_q st)[i := []], armed := (armed st)[i := armed st ! i @ poll_q st ! i]\<rparr>"
    using assms(3) by (auto simp: poll_collect_def exec_simps)
  have i: "i < length (armed st)" using assms(1,2) by (simp add: refs_ok_alt)
  have "count (pending st') d = count (pending st) d" for d
    using pend_poll_q [OF assms(2), of "[]" d] pend_armed [of i "st\<lparr>poll_q := (poll_q st)[i := []]\<rparr>" "armed st ! i @ poll_q st ! i" d]
      i st' by simp
  moreover have "set (concat (poll_q st')) \<subseteq> set (concat (poll_q st))"
    using st' set_update_subset_insert [of "poll_q st" i "[]"] by auto
  ultimately show ?thesis using st' assms(1) by (intro refs_ok_same_occ [OF assms(1)]) (auto simp: occ_def refs_ok_alt)
qed

lemma refs_ok_upd:
  assumes "refs_ok (st, u)" "ref_ok ((ctxs st)(c := m)) c k (occ st c)"
    and "c \<in> set (concat (poll_q st)) \<Longrightarrow> \<forall>x. m = Some x \<longrightarrow> ctype x = CtNet"
  shows "refs_ok (st\<lparr>ctxs := (ctxs st)(c := m)\<rparr>, u(c := k))"
proof -
  have "ref_ok ((ctxs st)(c := m)) d ((u(c := k)) d) (occ st d)" for d
  proof (cases "d = c")
    case False
    have "ref_ok (ctxs st) d (u d) (occ st d)" using assms(1) by (simp add: refs_ok_alt)
    with False show ?thesis by (simp add: ref_ok_def)
  qed (use assms(2) in simp)
  with assms show ?thesis by (auto simp: refs_ok_alt split: if_splits)
qed

lemma refs_ok_get: "refs_ok (st, u) \<Longrightarrow> ref_ok (ctxs st) c (u c) (occ st c)"
  by (simp add: refs_ok_alt)

lemma refs_ok_cpu_stop:
  assumes "refs_ok (st, u)" "CpuHandler_drop st = Some st'"
  shows "refs_ok (st', u)"
proof -
  have "length (armed st) = length (poll_q st)" using assms(1) by (simp add: refs_ok_alt)
  with assms(2) show ?thesis by (intro refs_ok_same_occ [OF assms(1)])
    (auto simp: CpuHandler_drop_def occ_def pending_def count_mset split: if_splits)
qed

lemma refs_ok_poll_stop:
  assumes "refs_ok (st, u)" "PollHandler_drop st = Some st'"
  shows "refs_ok (st', u)"
  using assms(2) by (intro refs_ok_same_occ [OF assms(1)])
    (auto simp: PollHandler_drop_def occ_def pending_def count_mset)

lemma refs_ok_restart:
  assumes "refs_ok (st, u)" "cpu_q st = []" "poll_q st = []" "Itachi_start n m st = (0, st')"
  shows "refs_ok (st', u)"
proof -
  have "armed st = []" using assms(1,3) by (simp add: refs_ok_alt)
  with assms(2-) show ?thesis by (intro refs_ok_same_occ [OF assms(1)])
    (auto simp: Itachi_start_def occ_def pending_def split: if_splits)
qed

lemma refs_ok_step: "istep s s' \<Longrightarrow> refs_ok s \<Longrightarrow> few_refs s' \<Longrightarrow> refs_ok s'"
proof (induction rule: istep.induct)
  case (create st c x cl h net0 u)
  then have "occ st c = 0" using refs_ok_get [of st u c] by (simp add: ref_ok_def)
  moreover from this have "c \<notin># pending st" by (simp add: occ_def not_in_iff)
  then have "c \<notin> set (concat (poll_q st))" using in_poll_q_pending [of c st] by blast
  ultimately show ?case using create
    by (intro refs_ok_upd) (auto simp: ref_ok_def AsyncContext_ctor_def)
next
  case (user_init st u c x y)
  then have "c \<notin> set (concat (poll_q st))" using in_poll_q_pending [of c st] by (auto simp: may_use_def)
  then have "refs_ok (st\<lparr>ctxs := (ctxs st)(c := Some y)\<rparr>, u(c := u c))"
    using user_init refs_ok_get [of st u c] by (intro refs_ok_upd) (auto simp: ref_ok_def same_refs_def)
  then show ?case by simp
next
  case (user_acquire u c st st')
  then obtain x where x: "ctxs st c = Some x" and st': "st' = st\<lparr>ctxs := (ctxs st)(c \<mapsto> x\<lparr>refs := refs x + 1\<rparr>)\<rparr>"
    by (auto simp: ctx_acquire_def ctx_get_def exec_simps)
  have "ctype x = CtNet" if "c \<in> set (concat (poll_q st))" using that x user_acquire(3) unfolding refs_ok_alt by blast
  moreover have "unat (refs x + 1) = unat (refs x) + 1 \<and> 0 < refs x + 1"
    using user_acquire(4) x refs_ok_get [OF user_acquire(3), of c]
    by (intro unat_acquire) (auto simp: few_refs_def st' ref_ok_def dest: spec [of _ c])
  ultimately show ?case unfolding st' using x user_acquire refs_ok_get [of st u c]
    by (intro refs_ok_upd) (auto simp: ref_ok_def)
next
  case (user_release u c st st')
  then have "ref_ok (ctxs st) d ((u(c := u c - 1)) d) (occ st d + (if d = c then 1 else 0))" for d
    using refs_ok_get [of st u d] by (cases "d = c") (auto simp: ref_ok_def split: option.splits)
  with user_release show ?case by (intro refs_ok_release [of st _ c]) (auto simp: refs_ok_alt)
next
  case (finish c st st' u)
  let ?s = "st\<lparr>running := remove1 c (running st)\<rparr>"
  have "occ ?s d + (if d = c then 1 else 0) = occ st d" for d
    using finish(1) by (cases "d = c") (auto simp: occ_def count_list_remove1 Suc_pred count_list_pos)
  with finish have "ref_ok (ctxs ?s) d (u d) (occ ?s d + (if d = c then 1 else 0))" for d
    by (simp add: refs_ok_alt)
  with finish show ?case by (intro refs_ok_release [of ?s _ c]) (auto simp: refs_ok_alt cpu_done_def)
next
  case (stop st u)
  then show ?case by (auto simp: refs_ok_alt stop_flag_def)
qed (auto intro: refs_ok_launch refs_ok_take refs_ok_clear refs_ok_collect refs_ok_fire refs_ok_cpu_stop
    refs_ok_poll_stop refs_ok_restart)

lemma refs_ok_reach: "istep32\<^sup>*\<^sup>* (istart me n m) s \<Longrightarrow> refs_ok s"
proof (induction rule: rtranclp_induct)
  case base
  show ?case by (simp add: istart_def Itachi_start_def itachi_new_def refs_ok_alt ref_ok_def occ_def pending_def)
next
  case (step s s')
  then show ?case using refs_ok_step [of s s'] by (simp add: istep32_def)
qed

section \<open>Properties\<close>


text \<open>
  A context is created, set up and launched; its user gives up its reference; then the reactor is
  stopped before a CPU thread gets to it.
\<close>

definition fresh_ctx :: actx where
  "fresh_ctx = AsyncContext_ctor 1 1 \<lparr>ctype = CtNop, action = 0, urgent = False, net_fd = - 1, net_events = 0,
     net_timeout_ms = 0, net_timeout = False, net_readable = False, net_writeable = False, refs = 0,
     client_itachi = 0, thread_hint = 0\<rparr>"

definition leak_state :: itachi where
  "leak_state = \<lparr>self = 1, stop = True, cpu_q = [], poll_q = [[]], armed = [[]], running = [], lost = [5],
     ctxs = [5 \<mapsto> initCpuEvent 3 False fresh_ctx]\<rparr>"

lemma leak_reach: "istep32\<^sup>*\<^sup>* (istart 1 2 1) (leak_state, \<lambda>_. 0)"
proof -
  let ?S = "\<lambda>b q m l. \<lparr>self = 1, stop = b, cpu_q = q, poll_q = [[]], armed = [[]], running = [], lost = l, ctxs = m\<rparr>"
  let ?x = "initCpuEvent 3 False fresh_ctx" and ?u = "(\<lambda>_. 0 :: nat)(5 := 1)"
  have two [simp]: "replicate 2 q = [q, q]" for q :: "nat list" by (simp add: numeral_2_eq_2)
  note D = few_refs_def occ_def pending_def fresh_ctx_def AsyncContext_ctor_def initCpuEvent_def
  have "istep32 (istart 1 2 1) (?S False [[], []] [5 \<mapsto> fresh_ctx] [], ?u)"
    using create [of "fst (istart 1 2 1)" 5 fresh_ctx 1 1 _ "\<lambda>_. 0", OF _ fresh_ctx_def]
    by (simp add: istep32_def istart_def Itachi_start_def itachi_new_def D)
  moreover have "istep32 (?S False [[], []] [5 \<mapsto> fresh_ctx] [], ?u) (?S False [[], []] [5 \<mapsto> ?x] [], ?u)"
    using user_init [of "?S False [[], []] [5 \<mapsto> fresh_ctx] []" ?u 5 fresh_ctx ?x]
    by (simp add: istep32_def may_use_def same_refs_def D)
  moreover have "istep32 (?S False [[], []] [5 \<mapsto> ?x] [], ?u) (?S False [[], [5]] [5 \<mapsto> ?x\<lparr>refs := 2\<rparr>] [], ?u)"
    using user_launch [of "?S False [[], []] [5 \<mapsto> ?x] []" ?u 5 0 "?S False [[], [5]] [5 \<mapsto> ?x\<lparr>refs := 2\<rparr>] []"]
    by (simp add: istep32_def may_use_def Itachi_launch_def Itachi_launch_impl_def ctx_get_def ctx_acquire_def
        CpuHandler_push_def Let_def D)
  ultimately have 1: "istep32\<^sup>*\<^sup>* (istart 1 2 1) (?S False [[], [5]] [5 \<mapsto> ?x\<lparr>refs := 2\<rparr>] [], ?u)"
    by (rule three_steps)
  have "istep32 (?S False [[], [5]] [5 \<mapsto> ?x\<lparr>refs := 2\<rparr>] [], ?u) (?S False [[], [5]] [5 \<mapsto> ?x] [], \<lambda>_. 0)"
    using user_release [of ?u 5 "?S False [[], [5]] [5 \<mapsto> ?x\<lparr>refs := 2\<rparr>] []" "?S False [[], [5]] [5 \<mapsto> ?x] []"]
    by (simp add: istep32_def ctx_release_def ctx_get_def Let_def D fun_upd_idem)
  moreover have "istep32 (?S False [[], [5]] [5 \<mapsto> ?x] [], \<lambda>_. 0) (?S True [[], [5]] [5 \<mapsto> ?x] [], \<lambda>_. 0)"
    using istep.stop [of "?S False [[], [5]] [5 \<mapsto> ?x] []" "\<lambda>_. 0"] by (simp add: istep32_def stop_flag_def D)
  moreover have "istep32 (?S True [[], [5]] [5 \<mapsto> ?x] [], \<lambda>_. 0) (leak_state, \<lambda>_. 0)"
    using cpu_stop [of "?S True [[], [5]] [5 \<mapsto> ?x] []" leak_state "\<lambda>_. 0"]
    by (simp add: istep32_def CpuHandler_drop_def leak_state_def D)
  ultimately have "istep32\<^sup>*\<^sup>* (?S False [[], [5]] [5 \<mapsto> ?x\<lparr>refs := 2\<rparr>] [], ?u) (leak_state, \<lambda>_. 0)"
    by (rule three_steps)
  with 1 show ?thesis by (rule rtranclp_trans)
qed


text \<open>
  C31. A launch that fails leaves no trace: for a live context, every error path of \<^verbatim>\<open>launch\<close> (foreign
  reactor, stopped reactor, unknown type) returns \<open>-1\<close> with the queues and the reference count as
  they were.
\<close>

theorem launch_rollback:
  assumes "ctxs st c = Some x" "0 < refs x" "Itachi_launch c st = Ret (code, st')"
  shows "(code = 0 \<or> code = - 1) \<and> (code = - 1 \<longrightarrow> st' = st)
    \<and> (code = 0 \<longrightarrow> (\<exists>y. ctxs st' c = Some y \<and> refs y = refs x + 1) \<and> count (pending st') c = count (pending st) c + 1)"
  using launch_effect [OF assms(3) [unfolded Itachi_launch_def] assms(1,2)]
    launch_codes [OF assms(3) [unfolded Itachi_launch_def]] by auto

definition sample_ctx :: actx where
  "sample_ctx = \<lparr>ctype = CtCpu, action = 3, urgent = False, net_fd = - 1, net_events = 0,
     net_timeout_ms = 0, net_timeout = False, net_readable = False, net_writeable = False, refs = 1,
     client_itachi = 1, thread_hint = 0\<rparr>"

definition sample_itachi :: "bool \<Rightarrow> itachi" where
  "sample_itachi stopped = \<lparr>self = 1, stop = stopped, cpu_q = [[], []], poll_q = [[]], armed = [[]], running = [],
     lost = [], ctxs = [5 \<mapsto> sample_ctx]\<rparr>"

theorem launch_rollback_witness:
  "Itachi_launch 5 (sample_itachi True) = Ret (- 1, sample_itachi True)"
proof -
  obtain st' where l: "Itachi_launch 5 (sample_itachi True) = Ret (- 1, st')"
    by (simp add: Itachi_launch_def Itachi_launch_impl_def sample_itachi_def sample_ctx_def ctx_get_def ctx_acquire_def
        CpuHandler_push_def ctx_release_def Let_def)
  from launch_rollback [OF _ _ l, of sample_ctx] l show ?thesis
    by (simp add: sample_itachi_def sample_ctx_def)
qed

text \<open>
  An event that fires after \<^verbatim>\<open>stop\<close> aborts the process: \<^verbatim>\<open>net_callback\<close> cannot launch the context
  into the stopped CPU pool, \<^verbatim>\<open>launch_\<close> returns \<open>-1\<close>, and the callback answers with \<^verbatim>\<open>SPERM_FATAL\<close>.
\<close>

theorem net_callback_after_stop:
  assumes "ctxs st c = Some x"
  shows "net_callback revents c (stop_flag st) = Fatal"
  using assms
  by (auto simp: net_callback_def stop_flag_def ctx_get_def Let_def Itachi_launch_impl_def initCpuEvent_def
      CpuHandler_push_def)

theorem net_callback_after_stop_witness: "net_callback 1 5 (stop_flag (sample_itachi False)) = Fatal"
  using net_callback_after_stop [of "sample_itachi False" 5] by (simp add: sample_itachi_def)

end
