(* ===== verification/Async_Message.thy ===== *)
theory Async_Message
  imports Sperm_Prelude
begin

text \<open>
  The length-prefixed messages of \<^verbatim>\<open>itachi/asocket.cc\<close>: \<^verbatim>\<open>Message::read\<close> and \<^verbatim>\<open>Message::write\<close> over a
  non-blocking socket. A socket is the list of the results its system calls will give; when the
  list is used up the call would block.
\<close>

section \<open>The code\<close>

record message =
  body_len :: u32
  body :: "u8 list"
  body_off :: u32

datatype msg_status = kDone | kWouldBlock | kEOF | kBrokenPipe | kError

datatype read_result = RBytes "u8 list" | REof | RAgain | RErr

datatype write_result = WSome nat | WAgain | WPipe | WErr

definition msg_onRecv :: "message \<Rightarrow> message" where
  "msg_onRecv m = m\<lparr>body_off := 0, body := []\<rparr>"

definition msg_onSend :: "message \<Rightarrow> message" where
  "msg_onSend m = m\<lparr>body_off := 0, body_len := of_nat (length (body m))\<rparr>"

text \<open>The four bytes of \<^verbatim>\<open>body_len\<close>, and writing into them.\<close>

definition len_bytes :: "u32 \<Rightarrow> u8 list" where
  "len_bytes n = le_bytes 4 (ucast n)"

definition len_poke :: "u32 \<Rightarrow> nat \<Rightarrow> u8 list \<Rightarrow> u32 exec" where
  "len_poke n off bs =
     exec_of_option Undefined (map_option (\<lambda>cs. ucast (le_word cs)) (mem_write (len_bytes n) off bs))"

text \<open>One turn of the loop of \<^verbatim>\<open>Message::read\<close>, after \<open>::read\<close> returned the bytes \<open>buf\<close>.\<close>

definition msg_read_turn :: "message \<Rightarrow> u8 list \<Rightarrow> (message \<times> msg_status option) exec" where
  "msg_read_turn m buf =
    (let code = length buf in
     exec_bind
       (if body_off m < 4
        then let x = min (4 - unat (body_off m)) code in
          exec_bind (len_poke (body_len m) (unat (body_off m)) (take x buf)) (\<lambda>n.
            Ret (m\<lparr>body_len := n, body_off := body_off m + of_nat x\<rparr>, x))
        else Ret (m, 0)) (\<lambda>(m, off).
     if body_off m < 4 \<or> code \<le> off then Ret (m, None)
     else
       let m = m\<lparr>body := body m @ drop off buf, body_off := body_off m + of_nat (code - off)\<rparr> in
       if length (body m) \<le> unat (body_len m)
       then exec_bind (exec_assert (4 + unat (body_len m) = unat (body_off m))) (\<lambda>_. Ret (m, Some kDone))
       else Ret (m, None)))"

fun msg_read :: "message \<Rightarrow> read_result list \<Rightarrow> (message \<times> msg_status \<times> read_result list) exec" where
  "msg_read m [] = Ret (m, kWouldBlock, [])"
| "msg_read m (REof # env) = Ret (m, kEOF, env)"
| "msg_read m (RAgain # env) = Ret (m, kWouldBlock, env)"
| "msg_read m (RErr # env) = Ret (m, kError, env)"
| "msg_read m (RBytes bs # env) =
     exec_bind (msg_read_turn m bs) (\<lambda>(m, r). case r of Some st \<Rightarrow> Ret (m, st, env) | None \<Rightarrow> msg_read m env)"

text \<open>What the next \<open>::write\<close> is given: the rest of the header, then the rest of the body.\<close>

definition msg_rest :: "message \<Rightarrow> int" where
  "msg_rest m = sint (ucast (of_nat (length (body m)) - ucast (body_off m) + 4 :: u64) :: u32)"

definition msg_pending :: "message \<Rightarrow> u8 list" where
  "msg_pending m =
     (if body_off m < 4 then drop (unat (body_off m)) (len_bytes (body_len m))
      else take (nat (msg_rest m)) (drop (unat (body_off m) - 4) (body m)))"

text \<open>
  \<^verbatim>\<open>Message::write\<close>; the second component of the result is what went into the socket. \<open>::write\<close> takes
  at most what it is given.
\<close>

fun msg_write ::
    "message \<Rightarrow> write_result list \<Rightarrow> (message \<times> u8 list \<times> msg_status \<times> write_result list) exec" where
  "msg_write m env =
    (if \<not> body_off m < 4 \<and> msg_rest m \<le> 0 then Ret (m, [], kDone, env)
     else case env of [] \<Rightarrow> Ret (m, [], kWouldBlock, [])
       | WAgain # env \<Rightarrow> Ret (m, [], kWouldBlock, env)
       | WPipe # env \<Rightarrow> Ret (m, [], kBrokenPipe, env)
       | WErr # env \<Rightarrow> Ret (m, [], kError, env)
       | WSome n # env \<Rightarrow>
           let out = take n (msg_pending m) in
           if out = [] then Fatal
           else exec_bind (msg_write (m\<lparr>body_off := body_off m + of_nat (length out)\<rparr>) env)
             (\<lambda>(m, out', st, env). Ret (m, out @ out', st, env)))"

declare msg_write.simps [simp del]

section \<open>Writing\<close>

definition frame :: "message \<Rightarrow> u8 list" where
  "frame m = len_bytes (body_len m) @ body m"

text \<open>Bodies are shorter than 2 GB, as the \<^verbatim>\<open>int rest\<close> of the code demands.\<close>

definition sendable :: "message \<Rightarrow> bool" where
  "sendable m \<longleftrightarrow> length (body m) < 2 ^ 31 - 8 \<and> unat (body_off m) \<le> 4 + length (body m)"

lemma length_len_bytes [simp]: "length (len_bytes n) = 4"
  by (simp add: len_bytes_def)

lemma unat_eq_4: "unat (x::u32) = 4 \<Longrightarrow> x = 4"
  by (simp add: word_unat_eq_iff)

lemma unat_le_4: "body_off m < 4 \<longleftrightarrow> unat (body_off m) < 4"
  by (simp add: word_less_nat_alt)

lemma msg_rest_eq:
  assumes "sendable m" "\<not> body_off m < 4"
  shows "msg_rest m = int (4 + length (body m) - unat (body_off m))"
proof -
  let ?w = "of_nat (length (body m)) - ucast (body_off m) + 4 :: u64"
  have le: "unat (body_off m) \<le> 4 + length (body m)" "length (body m) < 2 ^ 31 - 8"
    using assms by (auto simp: sendable_def)
  have "(ucast (body_off m) :: u64) = of_nat (unat (body_off m))" by simp
  then have w: "?w = of_nat (4 + length (body m) - unat (body_off m))"
    using le by (simp add: of_nat_diff algebra_simps)
  have "unat ?w = 4 + length (body m) - unat (body_off m)"
    unfolding w unat_of_nat using le by (intro mod_less) auto
  then show ?thesis unfolding msg_rest_def using le by (subst sint_ucast_small) auto
qed

lemma msg_pending_frame:
  assumes "sendable m"
  shows "msg_pending m = (if body_off m < 4 then drop (unat (body_off m)) (len_bytes (body_len m))
     else drop (unat (body_off m)) (frame m))"
proof (cases "body_off m < 4")
  case False
  then have "unat (body_off m) = 4 + (unat (body_off m) - 4)" by (simp add: unat_le_4)
  moreover have "length (drop (unat (body_off m) - 4) (body m)) = 4 + length (body m) - unat (body_off m)"
    using assms False by (auto simp: sendable_def unat_le_4)
  ultimately show ?thesis using False assms
    by (auto simp: msg_pending_def msg_rest_eq frame_def simp flip: drop_drop)
qed (simp add: msg_pending_def)

lemma take_pending:
  assumes "sendable m"
  shows "\<exists>k. take n (msg_pending m) = take k (drop (unat (body_off m)) (frame m))
     \<and> k = length (take n (msg_pending m))"
proof (cases "body_off m < 4")
  case True
  let ?x = "take n (drop (unat (body_off m)) (len_bytes (body_len m)))"
  have "take (length ?x) (drop (unat (body_off m)) (frame m)) = ?x"
    using True by (simp add: frame_def unat_le_4 min_def)
  with True show ?thesis by (auto simp: msg_pending_def)
next
  case False
  with msg_pending_frame [OF assms] show ?thesis
    by (auto simp: min_def intro!: exI [of _ "min n (length (frame m) - unat (body_off m))"])
qed

lemma body_off_add:
  assumes "sendable m" "length out \<le> 4 + length (body m) - unat (body_off m)"
  shows "unat (body_off m + of_nat (length out)) = unat (body_off m) + length out"
    "sendable (m\<lparr>body_off := body_off m + of_nat (length out)\<rparr>)"
proof -
  have "unat (body_off m) + length out < 2 ^ 32" using assms by (auto simp: sendable_def)
  then show u: "unat (body_off m + of_nat (length out)) = unat (body_off m) + length out"
    by (simp add: unat_word_ariths unat_of_nat)
  show "sendable (m\<lparr>body_off := body_off m + of_nat (length out)\<rparr>)"
    using assms u by (auto simp: sendable_def)
qed

lemma msg_done_iff:
  "sendable m \<Longrightarrow> \<not> body_off m < 4 \<and> msg_rest m \<le> 0 \<longleftrightarrow> unat (body_off m) = length (frame m)"
proof -
  assume s: "sendable m"
  have "\<not> body_off m < 4 \<Longrightarrow> msg_rest m \<le> 0 \<longleftrightarrow> 4 + length (body m) - unat (body_off m) = 0"
    unfolding msg_rest_eq [OF s] of_nat_le_0_iff ..
  with s show ?thesis by (auto simp: frame_def unat_le_4 sendable_def)
qed

lemma msg_write_frame:
  "sendable m \<Longrightarrow> msg_write m env = Ret (m', out, st, env') \<Longrightarrow>
   sendable m' \<and> frame m' = frame m \<and> unat (body_off m') = unat (body_off m) + length out
     \<and> out = take (length out) (drop (unat (body_off m)) (frame m))
     \<and> (st = kDone \<longleftrightarrow> unat (body_off m') = length (frame m))"
proof (induction m env arbitrary: m' out rule: msg_write.induct)
  case (1 m env)
  note IH = 1(1) and prems = 1(2,3) and dn = msg_done_iff [OF 1(2)]
  show ?case
  proof (cases "unat (body_off m) = length (frame m)")
    case True
    with dn prems show ?thesis by (subst (asm) msg_write.simps) auto
  next
    case False
    with dn have nd: "\<not> (\<not> body_off m < 4 \<and> msg_rest m \<le> 0)" by blast
    show ?thesis
    proof (cases "\<exists>n env1. env = WSome n # env1")
      case True
      then obtain n env1 where env: "env = WSome n # env1" by blast
      define o1 where "o1 = take n (msg_pending m)"
      define m1 where "m1 = m\<lparr>body_off := body_off m + of_nat (length o1)\<rparr>"
      from prems(2) nd obtain out1 where ne: "o1 \<noteq> []" and w: "msg_write m1 env1 = Ret (m', out1, st, env')"
        and out: "out = o1 @ out1"
        by (subst (asm) msg_write.simps) (auto simp: env Let_def o1_def m1_def exec_bind_Ret split: if_splits)
      have o1: "o1 = take (length o1) (drop (unat (body_off m)) (frame m))"
        using take_pending [OF prems(1), of n] unfolding o1_def by metis
      then have "length o1 \<le> length (drop (unat (body_off m)) (frame m))" by (metis length_take min.cobounded1)
      then have "length o1 \<le> 4 + length (body m) - unat (body_off m)" by (simp add: frame_def)
      note m1 = body_off_add [OF prems(1) this]
      have fr: "frame m1 = frame m" "unat (body_off m1) = unat (body_off m) + length o1" "sendable m1"
        using m1 by (simp_all add: m1_def frame_def)
      have ih: "sendable m' \<and> frame m' = frame m1 \<and> unat (body_off m') = unat (body_off m1) + length out1
          \<and> out1 = take (length out1) (drop (unat (body_off m1)) (frame m1))
          \<and> (st = kDone \<longleftrightarrow> unat (body_off m') = length (frame m1))"
        using IH [OF nd env refl] ne fr(3) w by (auto simp: o1_def m1_def)
      have "take (length out) (drop (unat (body_off m)) (frame m))
          = take (length o1) (drop (unat (body_off m)) (frame m)) @ take (length out1) (drop (unat (body_off m1)) (frame m))"
        by (simp add: out fr(2) take_add add.commute)
      with ih fr o1 out show ?thesis by auto
    next
      case noacc: False
      with prems(2) nd have "m' = m \<and> out = [] \<and> st \<noteq> kDone"
        by (subst (asm) msg_write.simps) (auto split: list.splits write_result.splits if_splits)
      with prems(1) False show ?thesis by simp
    qed
  qed
qed

section \<open>Reading\<close>

lemma le_bytes_le_word: "length bs \<le> 8 \<Longrightarrow> le_bytes (length bs) (le_word bs) = bs"
proof (induction bs)
  case (Cons b bs)
  have "ucast (le_word (b # bs)) = b"
    by (rule bit_word_eqI) (auto simp: bit_simps)
  moreover have "drop_bit 8 (le_word (b # bs)) = le_word bs"
  proof (rule bit_word_eqI)
    fix n assume "n < LENGTH(64)"
    have "bit (le_word bs) n \<Longrightarrow> n < 56"
      using bit_le_word_high [of bs n] Cons.prems by (cases "56 \<le> n") auto
    then show "bit (drop_bit 8 (le_word (b # bs))) n = bit (le_word bs) n"
      by (auto simp: bit_drop_bit_eq bit_le_word_Cons simp del: le_word.simps)
  qed
  ultimately show ?case using Cons by (simp del: le_word.simps)
qed simp

lemma le_bytes_take_bit: "k \<le> n \<Longrightarrow> le_bytes k (take_bit (8 * n) v) = le_bytes k v"
proof (induction k arbitrary: n v)
  case (Suc k)
  then obtain j where n: "n = Suc j" by (cases n) auto
  have "ucast (take_bit (8 * n) v) = (ucast v :: u8)"
    by (rule bit_word_eqI) (auto simp: n bit_simps)
  moreover have "drop_bit 8 (take_bit (8 * n) v) = take_bit (8 * j) (drop_bit 8 v)"
    by (rule bit_word_eqI) (auto simp: n bit_simps)
  ultimately show ?case using Suc n by simp
qed simp

lemma len_bytes_ucast_le_word: "length bs = 4 \<Longrightarrow> len_bytes (ucast (le_word bs)) = bs"
proof -
  assume l: "length bs = 4"
  have "(ucast (ucast (le_word bs) :: u32) :: u64) = take_bit (8 * 4) (le_word bs)"
    by (rule bit_word_eqI) (auto simp: bit_simps)
  with le_bytes_le_word [of bs] l show ?thesis
    unfolding len_bytes_def by (simp only: le_bytes_take_bit)
qed

lemma len_bytes_inject: "len_bytes a = len_bytes b \<Longrightarrow> a = b"
proof -
  assume "len_bytes a = len_bytes b"
  then have "take_bit 32 (ucast a :: u64) = take_bit 32 (ucast b :: u64)"
    using le_word_le_bytes [of 4 "ucast a"] le_word_le_bytes [of 4 "ucast b"] by (simp add: len_bytes_def)
  then have "(ucast (take_bit 32 (ucast a :: u64)) :: u32) = ucast (take_bit 32 (ucast b :: u64))" by simp
  moreover have "(ucast (take_bit 32 (ucast x :: u64)) :: u32) = x" for x :: u32
    by (rule bit_word_eqI) (auto simp: bit_simps)
  ultimately show ?thesis by simp
qed

text \<open>\<open>m\<close> has received the first bytes \<open>h\<close> of a header, and nothing else.\<close>

definition header_got :: "message \<Rightarrow> u8 list \<Rightarrow> bool" where
  "header_got m h \<longleftrightarrow> unat (body_off m) = length h \<and> length h \<le> 4 \<and> body m = []
     \<and> take (length h) (len_bytes (body_len m)) = h"

lemma header_fill:
  assumes "header_got m h" "length h < 4" "length h + length cs \<le> 4"
  shows "\<exists>n. len_poke (body_len m) (unat (body_off m)) cs = Ret n
     \<and> header_got (m\<lparr>body_len := n, body_off := body_off m + of_nat (length cs)\<rparr>) (h @ cs)"
proof -
  let ?bs = "h @ cs @ drop (length h + length cs) (len_bytes (body_len m))"
  have l: "length ?bs = 4" using assms by simp
  have "mem_write (len_bytes (body_len m)) (unat (body_off m)) cs = Some ?bs"
    using assms by (auto simp: mem_write_def header_got_def)
  moreover have "unat (body_off m + of_nat (length cs)) = length h + length cs"
    using assms by (auto simp: header_got_def unat_word_ariths unat_of_nat)
  ultimately show ?thesis using assms l
    by (auto simp: len_poke_def header_got_def len_bytes_ucast_le_word)
qed

lemma header_off: "header_got m h \<Longrightarrow> body_off m < 4 \<longleftrightarrow> length h < 4"
  by (simp add: header_got_def unat_le_4)

lemma read_turn_header:
  assumes "header_got m h" "length h + length cs \<le> 4"
  shows "\<exists>m'. msg_read_turn m cs = Ret (m', None) \<and> header_got m' (h @ cs)"
proof (cases "length h < 4")
  case True
  then obtain n where n: "len_poke (body_len m) (unat (body_off m)) cs = Ret n"
    and g: "header_got (m\<lparr>body_len := n, body_off := body_off m + of_nat (length cs)\<rparr>) (h @ cs)"
    using header_fill [OF assms(1)] assms(2) by blast
  have "min (4 - length h) (length cs) = length cs" using assms by simp
  moreover have "body_off m < 4" "unat (body_off m) = length h"
    using True assms(1) header_off [OF assms(1)] by (auto simp: header_got_def)
  ultimately show ?thesis using n g by (auto simp: msg_read_turn_def Let_def)
next
  case False
  then have "cs = []" using assms by (auto simp: header_got_def)
  with assms False show ?thesis by (auto simp: msg_read_turn_def header_off)
qed

lemma read_header:
  "header_got m h \<Longrightarrow> length (h @ concat hs) \<le> 4 \<Longrightarrow>
   \<exists>m'. header_got m' (h @ concat hs) \<and> msg_read m (map RBytes hs @ env) = msg_read m' env"
proof (induction hs arbitrary: m h)
  case (Cons c hs)
  then obtain m1 where "msg_read_turn m c = Ret (m1, None)" "header_got m1 (h @ c)"
    using read_turn_header [of m h c] by auto
  with Cons.IH [of m1 "h @ c"] Cons.prems show ?case by auto
qed auto

lemma unat_frame_off: "k \<le> 65536 \<Longrightarrow> unat (of_nat (4 + k) :: u32) = 4 + k"
  unfolding unat_of_nat by (rule mod_less) simp

text \<open>The turn that brings the first bytes \<open>b\<close> of the body, with what was missing of the header.\<close>

lemma read_turn_body:
  assumes "header_got m h" "h @ h2 = len_bytes L" "b \<noteq> []" "length b \<le> 65536"
  shows "msg_read_turn m (h2 @ b) =
     (let m' = \<lparr>body_len = L, body = b, body_off = of_nat (4 + length b)\<rparr> in
      if length b < unat L then Fatal
      else if length b = unat L then Ret (m', Some kDone) else Ret (m', None))"
proof -
  have len: "length h + length h2 = 4" using assms(2) by (metis length_append length_len_bytes)
  obtain m1 where m1: "header_got m1 (h @ h2)"
    and turn: "(if body_off m < 4
        then let x = min (4 - unat (body_off m)) (length (h2 @ b)) in
          exec_bind (len_poke (body_len m) (unat (body_off m)) (take x (h2 @ b))) (\<lambda>n.
            Ret (m\<lparr>body_len := n, body_off := body_off m + of_nat x\<rparr>, x))
        else Ret (m, 0)) = Ret (m1, length h2)"
  proof (cases "length h < 4")
    case True
    have "min (4 - unat (body_off m)) (length (h2 @ b)) = length h2"
      using assms(1) len by (auto simp: header_got_def)
    with header_fill [OF assms(1) True, of h2] len True that header_off [OF assms(1)] show ?thesis
      by (auto simp: Let_def)
  next
    case False
    with len have "h2 = []" by (cases h2) auto
    with False assms(1) that header_off [OF assms(1)] show ?thesis by auto
  qed
  have L: "body_len m1 = L" "unat (body_off m1) = 4" "body m1 = []"
    using m1 assms(2) len by (auto simp: header_got_def intro: len_bytes_inject)
  then have off: "body_off m1 = 4" by (simp add: unat_eq_4)
  have "unat (of_nat (4 + length b) :: u32) = 4 + length b" using assms(4) by (rule unat_frame_off)
  moreover have "\<lparr>body_len = L, body = b, body_off = x\<rparr> = m1\<lparr>body := b, body_off := x\<rparr>" for x
    using L by (cases m1) simp
  ultimately show ?thesis using assms(3) L off
    unfolding msg_read_turn_def turn [unfolded Let_def] Let_def
    by (auto simp: turn [unfolded Let_def])
qed

lemma header_got_onRecv: "header_got (msg_onRecv m) []"
  by (simp add: header_got_def msg_onRecv_def)

text \<open>The bytes the socket delivers, and a message that is read by as many calls as the events ask for.\<close>

definition wire :: "read_result list \<Rightarrow> u8 list" where
  "wire env = concat (map (\<lambda>r. case r of RBytes bs \<Rightarrow> bs | _ \<Rightarrow> []) env)"

lemma wire_Cons [simp]: "wire (r # env) = (case r of RBytes bs \<Rightarrow> bs | _ \<Rightarrow> []) @ wire env" "wire [] = []"
  by (simp_all add: wire_def)

fun read_calls :: "message \<Rightarrow> read_result list list \<Rightarrow> (message \<times> msg_status list) exec" where
  "read_calls m [] = Ret (m, [])"
| "read_calls m (env # envs) =
     exec_bind (msg_read m env) (\<lambda>(m, st, _).
     exec_bind (read_calls m envs) (\<lambda>(m, sts). Ret (m, st # sts)))"

text \<open>
  Once the body is longer than announced, no call of \<^verbatim>\<open>read\<close> reports a message, as long as the 32-bit
  offset does not wrap around.
\<close>

definition overfull :: "message \<Rightarrow> bool" where
  "overfull m \<longleftrightarrow> unat (body_len m) < length (body m) \<and> 4 \<le> unat (body_off m)"

lemma read_overfull:
  "overfull m \<Longrightarrow> unat (body_off m) + length (wire env) < 2 ^ 32 \<Longrightarrow>
   \<exists>m' st env'. msg_read m env = Ret (m', st, env') \<and> st \<noteq> kDone \<and> overfull m'
     \<and> unat (body_off m') \<le> unat (body_off m) + length (wire env)"
proof (induction env arbitrary: m)
  case (Cons e env)
  show ?case
  proof (cases e)
    case (RBytes bs)
    let ?m = "m\<lparr>body := body m @ bs, body_off := body_off m + of_nat (length bs)\<rparr>"
    have off: "unat (body_off m + of_nat (length bs)) = unat (body_off m) + length bs"
      using Cons.prems(2) RBytes by (simp add: unat_word_ariths unat_of_nat)
    have "overfull ?m" using Cons.prems(1) by (auto simp: overfull_def off)
    from Cons.IH [OF this] Cons.prems(2) off RBytes
    have "\<exists>m' st env'. msg_read ?m env = Ret (m', st, env') \<and> st \<noteq> kDone \<and> overfull m'
        \<and> unat (body_off m') \<le> unat (body_off m) + length bs + length (wire env)" by simp
    moreover have "msg_read_turn m bs = Ret (if bs = [] then m else ?m, None)"
      using Cons.prems(1) by (auto simp: msg_read_turn_def overfull_def unat_le_4)
    moreover have "bs = [] \<Longrightarrow> ?m = m" by simp
    ultimately show ?thesis using RBytes by (cases "bs = []") (auto simp: add.assoc)
  qed (use Cons in auto)
qed simp

lemma read_calls_overfull:
  "overfull m \<Longrightarrow> unat (body_off m) + length (wire (concat envs)) < 2 ^ 32 \<Longrightarrow>
   \<exists>m' sts. read_calls m envs = Ret (m', sts) \<and> kDone \<notin> set sts \<and> length sts = length envs"
proof (induction envs arbitrary: m)
  case (Cons env envs)
  have w: "wire (env @ es) = wire env @ wire es" for es by (simp add: wire_def)
  obtain m1 st env' where r: "msg_read m env = Ret (m1, st, env')" "st \<noteq> kDone" "overfull m1"
      "unat (body_off m1) \<le> unat (body_off m) + length (wire env)"
    using read_overfull [OF Cons.prems(1), of env] Cons.prems(2) by (auto simp: w)
  have "unat (body_off m1) + length (wire (concat envs)) < 2 ^ 32" using r(4) Cons.prems(2) by (simp add: w)
  from Cons.IH [OF r(3) this] obtain m2 sts where
    "read_calls m1 envs = Ret (m2, sts)" "kDone \<notin> set sts" "length sts = length envs" by blast
  with r show ?case by (intro exI [of _ m2] exI [of _ "st # sts"]) simp
qed simp

section \<open>Properties\<close>

text \<open>A message is sent by as many calls of \<^verbatim>\<open>write\<close> as the socket needs, one per readiness event.\<close>

fun write_calls :: "message \<Rightarrow> write_result list list \<Rightarrow> (message \<times> u8 list \<times> msg_status list) exec" where
  "write_calls m [] = Ret (m, [], [])"
| "write_calls m (env # envs) =
     exec_bind (msg_write m env) (\<lambda>(m, out, st, _).
     exec_bind (write_calls m envs) (\<lambda>(m, out', sts). Ret (m, out @ out', st # sts)))"

lemma write_calls_frame:
  "sendable m \<Longrightarrow> write_calls m envs = Ret (m', out, sts) \<Longrightarrow>
   out = take (length out) (drop (unat (body_off m)) (frame m))
   \<and> (envs \<noteq> [] \<longrightarrow> (last sts = kDone \<longleftrightarrow> unat (body_off m) + length out = length (frame m)))"
proof (induction envs arbitrary: m out sts)
  case (Cons env envs)
  obtain m1 o1 st e o2 sts2 where w: "msg_write m env = Ret (m1, o1, st, e)"
    and c: "write_calls m1 envs = Ret (m', o2, sts2)" and o: "out = o1 @ o2" "sts = st # sts2"
    using Cons.prems(2) by (auto simp: exec_bind_Ret split_def)
  note f = msg_write_frame [OF Cons.prems(1) w]
  have ih: "o2 = take (length o2) (drop (unat (body_off m1)) (frame m1))
      \<and> (envs \<noteq> [] \<longrightarrow> (last sts2 = kDone \<longleftrightarrow> unat (body_off m1) + length o2 = length (frame m1)))"
    using Cons.IH [OF _ c] f by blast
  have "take (length out) (drop (unat (body_off m)) (frame m))
      = take (length o1) (drop (unat (body_off m)) (frame m)) @ take (length o2) (drop (unat (body_off m1)) (frame m))"
    using f by (simp add: o take_add add.commute)
  with f ih have out: "out = take (length out) (drop (unat (body_off m)) (frame m))" by (simp add: o)
  have "envs = [] \<Longrightarrow> o2 = [] \<and> sts2 = []" using c by (cases envs) auto
  moreover have "envs \<noteq> [] \<Longrightarrow> sts2 \<noteq> []" using c by (cases envs) (auto simp: exec_bind_Ret split_def)
  moreover have "st = kDone \<longleftrightarrow> unat (body_off m) + length o1 = length (frame m)"
    "envs \<noteq> [] \<Longrightarrow> last sts2 = kDone \<longleftrightarrow> unat (body_off m) + length o1 + length o2 = length (frame m)"
    using f ih by auto
  ultimately have "last sts = kDone \<longleftrightarrow> unat (body_off m) + length out = length (frame m)"
    unfolding o by (cases "envs = []") (simp_all add: add.assoc)
  with out show ?case by blast
qed simp

text \<open>
  C19. \<^verbatim>\<open>Message::write\<close> delivers: however the socket splits, delays or interrupts the writes, and over
  however many calls, the bytes that have gone out are a prefix of the length header followed by
  the body, nothing is repeated or skipped, and the last call reports \<^verbatim>\<open>kDone\<close> exactly when all of it
  is out.
\<close>

theorem message_write_delivers:
  assumes "length (body m) < 2 ^ 31 - 8" "write_calls (msg_onSend m) envs = Ret (m', out, sts)" "envs \<noteq> []"
  shows "(\<exists>rest. len_bytes (of_nat (length (body m))) @ body m = out @ rest)
     \<and> (last sts = kDone \<longleftrightarrow> out = len_bytes (of_nat (length (body m))) @ body m)"
proof -
  have s: "sendable (msg_onSend m)" using assms(1) by (simp add: sendable_def msg_onSend_def)
  have fr: "frame (msg_onSend m) = len_bytes (of_nat (length (body m))) @ body m" "unat (body_off (msg_onSend m)) = 0"
    by (simp_all add: frame_def msg_onSend_def)
  have o: "out = take (length out) (frame (msg_onSend m))"
    and d: "last sts = kDone \<longleftrightarrow> length out = length (frame (msg_onSend m))"
    using write_calls_frame [OF s assms(2)] assms(3) by (simp_all add: fr(2))
  have "frame (msg_onSend m) = out @ drop (length out) (frame (msg_onSend m))" by (metis o append_take_drop_id)
  moreover have "length out = length (frame (msg_onSend m)) \<longleftrightarrow> out = frame (msg_onSend m)"
    using o by (metis take_all order_refl)
  ultimately show ?thesis using d unfolding fr(1) by blast
qed

theorem message_write_delivers_witness:
  "\<exists>m' sts. write_calls (msg_onSend \<lparr>body_len = 9, body = [7, 8], body_off = 9\<rparr>)
      [[WSome 3, WAgain], [WSome 9, WSome 1, WAgain], [WSome 5]] = Ret (m', [2, 0, 0, 0, 7, 8], sts) \<and> last sts = kDone"
proof -
  have e: "write_calls (msg_onSend \<lparr>body_len = 9, body = [7, 8], body_off = 9\<rparr>)
      [[WSome 3, WAgain], [WSome 9, WSome 1, WAgain], [WSome 5]]
     = Ret (\<lparr>body_len = 2, body = [7, 8], body_off = 6\<rparr>, [2, 0, 0, 0, 7, 8], [kWouldBlock, kWouldBlock, kDone])"
    by code_simp
  from message_write_delivers [OF _ e] have "last [kWouldBlock, kWouldBlock, kDone] = kDone" by simp
  with e show ?thesis by auto
qed

text \<open>
  C20. \<^verbatim>\<open>Message::read\<close> on the wire. The header may arrive in any pieces, in reads of at most 64 kB. When
  the read that brings the first bytes of the body brings exactly the body, the message is delivered; when it brings
  only a part of it, the assertion aborts the process; when it brings more (the beginning of the next
  message), \<^verbatim>\<open>read\<close> goes on, and neither this call nor any number of later ones reports the message, as
  long as fewer than \<open>2 ^ 32\<close> bytes have arrived, where the offset of the message would wrap around.
\<close>

theorem message_read_outcomes:
  assumes "concat hs @ h2 = len_bytes L" "b \<noteq> []" "length b \<le> 65536"
  shows "msg_read (msg_onRecv m) (map RBytes hs @ RBytes (h2 @ b) # env) =
     (if length b < unat L then Fatal
      else if length b = unat L then Ret (\<lparr>body_len = L, body = b, body_off = of_nat (4 + length b)\<rparr>, kDone, env)
      else msg_read \<lparr>body_len = L, body = b, body_off = of_nat (4 + length b)\<rparr> env)
   \<and> (unat L < length b \<and> 4 + length b + length (wire (env @ concat envs)) < 2 ^ 32 \<longrightarrow>
       (\<exists>m' sts. read_calls (msg_onRecv m) ((map RBytes hs @ RBytes (h2 @ b) # env) # envs) = Ret (m', sts)
          \<and> kDone \<notin> set sts \<and> length sts = Suc (length envs)))"
proof -
  let ?m = "\<lparr>body_len = L, body = b, body_off = of_nat (4 + length b)\<rparr>"
  have "length (concat hs) \<le> 4" using assms(1) by (metis length_append length_len_bytes le_add1)
  then obtain m' where m': "header_got m' (concat hs)"
    and r: "msg_read (msg_onRecv m) (map RBytes hs @ RBytes (h2 @ b) # env) = msg_read m' (RBytes (h2 @ b) # env)"
    using read_header [OF header_got_onRecv, of hs m "RBytes (h2 @ b) # env"] by auto
  have one: "msg_read (msg_onRecv m) (map RBytes hs @ RBytes (h2 @ b) # env) =
     (if length b < unat L then Fatal else if length b = unat L then Ret (?m, kDone, env) else msg_read ?m env)"
    by (simp add: r read_turn_body [OF m' assms] Let_def)
  have "unat (of_nat (4 + length b) :: u32) = 4 + length b" using assms(3) by (rule unat_frame_off)
  then have "\<exists>m' sts. read_calls ?m (env # envs) = Ret (m', sts) \<and> kDone \<notin> set sts \<and> length sts = Suc (length envs)"
    if "unat L < length b" "4 + length b + length (wire (env @ concat envs)) < 2 ^ 32"
    using that read_calls_overfull [of ?m "env # envs"] by (simp add: overfull_def)
  then show ?thesis using one by simp
qed

lemma len_bytes_2: "len_bytes 2 = [2, 0, 0, 0]"
  by code_simp

theorem message_read_outcomes_witness:
  "msg_read (msg_onRecv \<lparr>body_len = 9, body = [], body_off = 0\<rparr>) [RBytes [2, 0], RBytes [0], RBytes [0, 7, 8]] =
     Ret (\<lparr>body_len = 2, body = [7, 8], body_off = 6\<rparr>, kDone, [])
   \<and> msg_read (msg_onRecv \<lparr>body_len = 9, body = [], body_off = 0\<rparr>) [RBytes [2, 0, 0, 0, 7], RBytes [8]] = Fatal
   \<and> (\<exists>m' sts. read_calls (msg_onRecv \<lparr>body_len = 9, body = [], body_off = 0\<rparr>)
        [[RBytes [2, 0, 0, 0, 7, 8, 9], RAgain], [RBytes [9, 9], RAgain]] = Ret (m', sts) \<and> kDone \<notin> set sts)"
proof -
  let ?m = "\<lparr>body_len = 9, body = [], body_off = 0\<rparr>"
  have "\<exists>m' sts. read_calls (msg_onRecv ?m) [[RBytes [2, 0, 0, 0, 7, 8, 9], RAgain], [RBytes [9, 9], RAgain]] = Ret (m', sts)
      \<and> kDone \<notin> set sts \<and> length sts = Suc (length [[RBytes [9, 9], RAgain]])"
    using message_read_outcomes [of "[]" "[2, 0, 0, 0]" 2 "[7, 8, 9]" ?m "[RAgain]" "[[RBytes [9, 9], RAgain]]"]
    by (simp add: len_bytes_2 del: read_calls.simps msg_read.simps)
  moreover have "msg_read (msg_onRecv ?m) [RBytes [2, 0], RBytes [0], RBytes [0, 7, 8]] =
      Ret (\<lparr>body_len = 2, body = [7, 8], body_off = 6\<rparr>, kDone, [])"
    using message_read_outcomes [of "[[2, 0], [0]]" "[0]" 2 "[7, 8]" ?m "[]" "[]"] by (simp add: len_bytes_2)
  moreover have "msg_read (msg_onRecv ?m) [RBytes [2, 0, 0, 0, 7], RBytes [8]] = Fatal"
    using message_read_outcomes [of "[]" "[2, 0, 0, 0]" 2 "[7]" ?m "[RBytes [8]]" "[]"] by (simp add: len_bytes_2)
  ultimately show ?thesis by blast
qed

text \<open>
  A message with an empty body is never reported: after all its bytes have arrived \<^verbatim>\<open>read\<close> still
  answers \<^verbatim>\<open>kWouldBlock\<close>.
\<close>

theorem message_read_empty_body:
  assumes "concat hs = len_bytes L"
  shows "\<exists>m'. msg_read (msg_onRecv m) (map RBytes hs) = Ret (m', kWouldBlock, [])
     \<and> body_len m' = L \<and> body_off m' = 4 \<and> body m' = []"
proof -
  obtain m' where m': "header_got m' (concat hs)" and r: "msg_read (msg_onRecv m) (map RBytes hs) = msg_read m' []"
    using read_header [OF header_got_onRecv, of hs m "[]"] assms by auto
  have "body_len m' = L" "unat (body_off m') = 4" using m' assms by (auto simp: header_got_def intro: len_bytes_inject)
  moreover from this have "body_off m' = 4" by (simp add: unat_eq_4)
  ultimately show ?thesis using m' r by (simp add: header_got_def)
qed

theorem message_read_empty_body_witness:
  "\<exists>m'. msg_read (msg_onRecv \<lparr>body_len = 9, body = [], body_off = 0\<rparr>) [RBytes [0, 0, 0, 0]] = Ret (m', kWouldBlock, [])"
proof -
  have "len_bytes 0 = [0, 0, 0, 0]" by code_simp
  with message_read_empty_body [of "[[0, 0, 0, 0]]" 0 "\<lparr>body_len = 9, body = [], body_off = 0\<rparr>"]
  show ?thesis by simp blast
qed

end
