(* ===== verification/Sockets.thy ===== *)
theory Sockets
  imports Sperm_Prelude
begin

text \<open>
  The wrappers of system calls: \<^verbatim>\<open>common/socket.h\<close>, \<^verbatim>\<open>common/fs.h\<close>, and the descriptors of
  \<^verbatim>\<open>FileDescriptorCondition\<close> with its factories (\<^verbatim>\<open>common/cond.h\<close>, \<^verbatim>\<open>common/cond.cc\<close>). What a system call returns is an
  argument; a call that fails sets \<^verbatim>\<open>errno\<close>, one that succeeds leaves it as it was. A loop that repeats a call takes the
  list of the results, and waits for ever when it is used up.
\<close>

section \<open>Results of system calls\<close>

datatype sysres = Sys int | Err int

fun sys_ret :: "sysres \<Rightarrow> int" where
  "sys_ret (Sys r) = r"
| "sys_ret (Err e) = - 1"

fun sys_errno :: "sysres \<Rightarrow> int \<Rightarrow> int" where
  "sys_errno (Sys r) e = e"
| "sys_errno (Err e') e = e'"

definition EINTR :: int where "EINTR = 4"
definition ECONNABORTED :: int where "ECONNABORTED = 103"
definition EINPROGRESS :: int where "EINPROGRESS = 115"

section \<open>Socket functions\<close>

definition create_tcp_socket :: "sysres \<Rightarrow> int" where
  "create_tcp_socket r = sys_ret r"

text \<open>The options of a socket; a failing \<^verbatim>\<open>setsockopt\<close> is only logged.\<close>

record sock_opts =
  nodelay :: bool
  reuseaddr :: bool

definition set_tcp_nodelay :: "sysres \<Rightarrow> sock_opts \<Rightarrow> sock_opts" where
  "set_tcp_nodelay r k = (if sys_ret r \<noteq> 0 then k else k\<lparr>nodelay := True\<rparr>)"

definition set_ip_reuseaddr :: "sysres \<Rightarrow> sock_opts \<Rightarrow> sock_opts" where
  "set_ip_reuseaddr r k = (if sys_ret r \<noteq> 0 then k else k\<lparr>reuseaddr := True\<rparr>)"

definition get_socket_error :: "sysres \<Rightarrow> int \<Rightarrow> int" where
  "get_socket_error r value = (if sys_ret r \<noteq> 0 then 1 else value)"

fun tcp_accept :: "sysres list \<Rightarrow> int \<Rightarrow> (int \<times> int) exec" where
  "tcp_accept [] errno = Diverge"
| "tcp_accept (r # rs) errno =
     (let sock = sys_ret r; errno = sys_errno r errno in
      if sock < 0 \<and> (errno = EINTR \<or> errno = ECONNABORTED) then tcp_accept rs errno
      else Ret (sock, errno))"

text \<open>\<^verbatim>\<open>sockaddr_in\<close>, with the port in network order. \<open>aton\<close> is \<^verbatim>\<open>inet_aton\<close>; when it fails the address stays zero.\<close>

record sockaddr_in =
  sin_port :: "16 word"
  sin_addr :: u32

definition htons :: "16 word \<Rightarrow> 16 word" where
  "htons x = push_bit 8 x OR drop_bit 8 x"

definition make_addr :: "(string \<Rightarrow> u32 option) \<Rightarrow> string \<Rightarrow> int \<Rightarrow> sockaddr_in" where
  "make_addr aton ip port =
     \<lparr>sin_port = htons (of_int port), sin_addr = (case aton ip of None \<Rightarrow> 0 | Some a \<Rightarrow> a)\<rparr>"

text \<open>\<open>conn\<close> are the results of \<^verbatim>\<open>connect\<close> for an address.\<close>

fun connect_loop :: "sysres list \<Rightarrow> int \<Rightarrow> (int \<times> int) exec" where
  "connect_loop [] errno = Diverge"
| "connect_loop (r # rs) errno =
     (let ret = sys_ret r; errno = sys_errno r errno in
      if ret \<noteq> 0 \<and> errno \<noteq> EINPROGRESS
      then (if errno = EINTR then connect_loop rs errno else Ret (- 1, errno))
      else if errno = EINPROGRESS then Ret (1, errno)
      else Ret (0, errno))"

definition tcp_connect ::
    "(string \<Rightarrow> u32 option) \<Rightarrow> (sockaddr_in \<Rightarrow> sysres list) \<Rightarrow> string \<Rightarrow> int \<Rightarrow> int \<Rightarrow> (int \<times> int) exec" where
  "tcp_connect aton conn ip port errno = connect_loop (conn (make_addr aton ip port)) errno"

definition tcp_bind_listen ::
    "(string \<Rightarrow> u32 option) \<Rightarrow> (sockaddr_in \<Rightarrow> sysres) \<Rightarrow> sysres \<Rightarrow> string \<Rightarrow> int \<Rightarrow> int" where
  "tcp_bind_listen aton bind listen ip port =
     (if sys_ret (bind (make_addr aton ip port)) \<noteq> 0 then - 1
      else if sys_ret listen \<noteq> 0 then - 1
      else 0)"

text \<open>
  \<^verbatim>\<open>get_peer_name\<close> and \<^verbatim>\<open>get_sock_name\<close> differ in the system call only. \<open>ntop\<close> is \<^verbatim>\<open>inet_ntop\<close>; the result is the return
  value and what was stored.
\<close>

definition get_peer_name :: "(u32 \<Rightarrow> string) \<Rightarrow> sysres \<Rightarrow> sockaddr_in \<Rightarrow> int \<times> (string \<times> int) option" where
  "get_peer_name ntop r addr =
     (if sys_ret r \<noteq> 0 then (- 1, None) else (0, Some (ntop (sin_addr addr), uint (htons (sin_port addr)))))"

definition get_sock_name :: "(u32 \<Rightarrow> string) \<Rightarrow> sysres \<Rightarrow> sockaddr_in \<Rightarrow> int \<times> (string \<times> int) option" where
  "get_sock_name ntop r addr =
     (if sys_ret r \<noteq> 0 then (- 1, None) else (0, Some (ntop (sin_addr addr), uint (htons (sin_port addr)))))"

text \<open>\<open>hosts\<close> is \<^verbatim>\<open>gethostbyname2_r\<close>: the addresses of a host name, the first of which is used.\<close>

definition get_ip :: "(u32 \<Rightarrow> string) \<Rightarrow> (string \<Rightarrow> u32 list option) \<Rightarrow> string \<Rightarrow> (int \<times> string option) exec" where
  "get_ip ntop hosts hostname =
     (case hosts hostname of None \<Rightarrow> Ret (- 1, None)
      | Some [] \<Rightarrow> Undefined
      | Some (a # as) \<Rightarrow> Ret (0, Some (ntop a)))"

text \<open>The call of \<^verbatim>\<open>get_ip\<close> is inside an \<^verbatim>\<open>assert\<close>, which a build with \<^verbatim>\<open>NDEBUG\<close> drops.\<close>

definition get_local_ip :: "bool \<Rightarrow> (u32 \<Rightarrow> string) \<Rightarrow> (string \<Rightarrow> u32 list option) \<Rightarrow> string \<Rightarrow> string exec" where
  "get_local_ip ndebug ntop hosts hostname =
     (if ndebug then Ret []
      else exec_bind (get_ip ntop hosts hostname) (\<lambda>(ret, ip).
        exec_bind (exec_assert (ret = 0)) (\<lambda>_. Ret (case ip of None \<Rightarrow> [] | Some ip \<Rightarrow> ip))))"

text \<open>\<^verbatim>\<open>list_directory\<close>: the entries as \<^verbatim>\<open>readdir\<close> delivers them; on failure \<open>files\<close> is not touched.\<close>

fun list_loop :: "string list \<Rightarrow> string list \<Rightarrow> string list" where
  "list_loop [] files = files"
| "list_loop (e # es) files =
     (if e = ''.'' \<or> e = ''..'' then list_loop es files else list_loop es (files @ [e]))"

definition list_directory :: "string list option \<Rightarrow> string list \<Rightarrow> int \<times> string list" where
  "list_directory dir files = (case dir of None \<Rightarrow> (- 1, files) | Some es \<Rightarrow> (0, list_loop es []))"

section \<open>Descriptors\<close>

text \<open>The descriptors of the process that are open, and the calls of \<^verbatim>\<open>close\<close> on one that is not.\<close>

record fd_table =
  opened :: "int set"
  bad_closes :: "int list"

definition fd_open :: "int \<Rightarrow> fd_table \<Rightarrow> fd_table" where
  "fd_open fd t = (if fd < 0 then t else t\<lparr>opened := insert fd (opened t)\<rparr>)"

definition fd_close :: "int \<Rightarrow> fd_table \<Rightarrow> fd_table" where
  "fd_close fd t =
     (if fd \<in> opened t then t\<lparr>opened := opened t - {fd}\<rparr> else t\<lparr>bad_closes := bad_closes t @ [fd]\<rparr>)"

definition close_member :: "int \<Rightarrow> fd_table \<Rightarrow> fd_table" where
  "close_member fd t = (if fd \<noteq> - 1 then fd_close fd t else t)"

text \<open>
  \<^verbatim>\<open>pipe\<close> and \<^verbatim>\<open>socketpair\<close> give two descriptors. A result \<open>(ret, a, b)\<close> stands for \<^verbatim>\<open>create(fds)\<close> with the content of
  \<^verbatim>\<open>fds\<close> after it.
\<close>

definition pair_create :: "int \<times> int \<times> int \<Rightarrow> fd_table \<Rightarrow> (int \<times> int \<times> int) \<times> fd_table" where
  "pair_create r t = (case r of (ret, a, b) \<Rightarrow> (r, if ret = 0 then fd_open a (fd_open b t) else t))"

record tcp_pair =
  tp_rd :: int
  tp_wr :: int
  tp_server :: int

definition TcpPairFactory_ctor :: tcp_pair where
  "TcpPairFactory_ctor = \<lparr>tp_rd = - 1, tp_wr = - 1, tp_server = - 1\<rparr>"

definition TcpPairFactory_dtor :: "tcp_pair \<Rightarrow> fd_table \<Rightarrow> fd_table" where
  "TcpPairFactory_dtor f t = close_member (tp_server f) (close_member (tp_wr f) (close_member (tp_rd f) t))"

text \<open>
  \<^verbatim>\<open>TcpPairFactory::create\<close>: the results are those of the two calls of \<^verbatim>\<open>socket\<close> and of \<^verbatim>\<open>accept\<close>. The results of
  \<^verbatim>\<open>tcp_bind_listen\<close>, of \<^verbatim>\<open>pthread_create\<close> and of the \<^verbatim>\<open>tcp_connect\<close> in the other thread are not looked at.
\<close>

definition TcpPairFactory_create ::
    "sysres \<Rightarrow> sysres \<Rightarrow> sysres list \<Rightarrow> int \<Rightarrow> tcp_pair \<Rightarrow> fd_table \<Rightarrow> ((int \<times> int \<times> int) \<times> tcp_pair \<times> fd_table) exec" where
  "TcpPairFactory_create srv cli acc errno f t =
     (let server = create_tcp_socket srv; t = fd_open server t;
          rd = create_tcp_socket cli; t = fd_open rd t in
      exec_bind (tcp_accept acc errno) (\<lambda>(wr, errno).
        Ret ((0, rd, wr), f\<lparr>tp_server := server, tp_rd := rd, tp_wr := wr\<rparr>, fd_open wr t)))"

record fd_cond =
  fds0 :: int
  fds1 :: int
  epfd :: int

text \<open>
  The constructor body after \<^verbatim>\<open>factory_.create(fds_)\<close>: \<open>ep\<close> is the result of \<^verbatim>\<open>epoll_create\<close>, \<open>ctl\<close> of \<^verbatim>\<open>epoll_ctl\<close>. The
  destructor closes the three descriptors; then the members are destroyed, \<^verbatim>\<open>factory_\<close> among them.
\<close>

definition FDCondition_ctor :: "int \<times> int \<times> int \<Rightarrow> sysres \<Rightarrow> sysres \<Rightarrow> fd_table \<Rightarrow> (fd_cond \<times> fd_table) exec" where
  "FDCondition_ctor created ep ctl t = (case created of (ret, a, b) \<Rightarrow>
     if ret \<noteq> 0 then Fatal
     else if sys_ret ep = - 1 then Fatal
     else if sys_ret ctl \<noteq> 0 then Fatal
     else Ret (\<lparr>fds0 = a, fds1 = b, epfd = sys_ret ep\<rparr>, fd_open (sys_ret ep) t))"

definition FDCondition_dtor :: "fd_cond \<Rightarrow> fd_table \<Rightarrow> fd_table" where
  "FDCondition_dtor c t = close_member (epfd c) (close_member (fds1 c) (close_member (fds0 c) t))"

text \<open>The life of a \<^verbatim>\<open>PipePairCondition\<close> or \<^verbatim>\<open>SocketPairCondition\<close>, and of a \<^verbatim>\<open>TcpPairCondition\<close>.\<close>

definition PairCondition_life :: "int \<times> int \<times> int \<Rightarrow> sysres \<Rightarrow> sysres \<Rightarrow> fd_table \<Rightarrow> fd_table exec" where
  "PairCondition_life r ep ctl t =
     (let (created, t) = pair_create r t in
      exec_bind (FDCondition_ctor created ep ctl t) (\<lambda>(c, t). Ret (FDCondition_dtor c t)))"

definition TcpPairCondition_life :: "sysres \<Rightarrow> sysres \<Rightarrow> sysres list \<Rightarrow> sysres \<Rightarrow> sysres \<Rightarrow> int \<Rightarrow> fd_table \<Rightarrow> fd_table exec" where
  "TcpPairCondition_life srv cli acc ep ctl errno t =
     exec_bind (TcpPairFactory_create srv cli acc errno TcpPairFactory_ctor t) (\<lambda>(created, f, t).
     exec_bind (FDCondition_ctor created ep ctl t) (\<lambda>(c, t).
       Ret (TcpPairFactory_dtor f (FDCondition_dtor c t))))"

section \<open>Properties of the socket functions\<close>

definition transient :: "sysres \<Rightarrow> bool" where
  "transient r \<longleftrightarrow> r = Err EINTR \<or> r = Err ECONNABORTED"

lemma htons_htons [simp]: "htons (htons x) = x"
  by (rule bit_eqI) (auto simp: htons_def bit_simps)

text \<open>
  \<^verbatim>\<open>tcp_accept\<close> returns what the first call delivers that was not interrupted or aborted, over any number of such
  interruptions, and it returns as soon as there is one.
\<close>

theorem tcp_accept_first:
  assumes "\<forall>r \<in> set rs. transient r" "\<not> transient r" "sys_ret r \<ge> - 1" "\<forall>v. r = Sys v \<longrightarrow> 0 \<le> v"
  shows "\<exists>e. tcp_accept (rs @ r # rest) errno = Ret (sys_ret r, e) \<and> (sys_ret r = - 1 \<longrightarrow> r = Err e)"
  using assms
proof (induction rs arbitrary: errno)
  case Nil
  then show ?case by (cases r) (auto simp: transient_def Let_def)
next
  case (Cons a rs)
  then have "a = Err EINTR \<or> a = Err ECONNABORTED" by (simp add: transient_def)
  then show ?case using Cons by (auto simp: Let_def)
qed

theorem tcp_accept_first_witness:
  "\<exists>e. tcp_accept [Err EINTR, Err ECONNABORTED, Sys 7] 0 = Ret (7, e)"
  using tcp_accept_first [of "[Err EINTR, Err ECONNABORTED]" "Sys 7" "[]" 0]
  by (simp add: transient_def EINTR_def ECONNABORTED_def)

text \<open>
  \<^verbatim>\<open>tcp_connect\<close> reports the outcome of \<^verbatim>\<open>connect\<close>, 0 for connected, 1 for in progress, -1 for failed, when \<^verbatim>\<open>errno\<close> was not
  \<^verbatim>\<open>EINPROGRESS\<close> before the call. When it was, from an earlier connect, a connection that is established at once is
  reported as in progress, since \<^verbatim>\<open>errno\<close> is tested without looking at the result.
\<close>

definition connect_code :: "sysres \<Rightarrow> int" where
  "connect_code r = (case r of Sys v \<Rightarrow> 0 | Err e \<Rightarrow> if e = EINPROGRESS then 1 else - 1)"

lemma connect_loop_retry: "connect_loop (replicate n (Err EINTR) @ r # rest) errno = connect_loop (r # rest) (if n = 0 then errno else EINTR)"
  by (induction n arbitrary: errno) (auto simp: EINTR_def EINPROGRESS_def)

theorem tcp_connect_outcome:
  assumes "conn (make_addr aton ip port) = replicate n (Err EINTR) @ r # rest" "r = Sys 0 \<or> (\<exists>e. r = Err e \<and> e \<noteq> EINTR)"
  shows "(errno \<noteq> EINPROGRESS \<or> 0 < n \<longrightarrow> (\<exists>e. tcp_connect aton conn ip port errno = Ret (connect_code r, e)))
    \<and> (n = 0 \<longrightarrow> r = Sys 0 \<longrightarrow> tcp_connect aton conn ip port EINPROGRESS = Ret (1, EINPROGRESS))"
  using assms(2) unfolding tcp_connect_def assms(1) connect_loop_retry
  by (auto simp: connect_code_def EINTR_def EINPROGRESS_def)

theorem tcp_connect_outcome_witness:
  "(\<exists>e. tcp_connect (\<lambda>_. None) (\<lambda>_. [Err EINTR, Sys 0]) ''h'' 80 0 = Ret (0, e))
   \<and> tcp_connect (\<lambda>_. None) (\<lambda>_. [Sys 0]) ''h'' 80 EINPROGRESS = Ret (1, EINPROGRESS)"
  using tcp_connect_outcome [of "\<lambda>_. [Err EINTR, Sys 0]" "\<lambda>_. None" "''h''" 80 1 "Sys 0" "[]" 0]
    tcp_connect_outcome [of "\<lambda>_. [Sys 0]" "\<lambda>_. None" "''h''" 80 0 "Sys 0" "[]" 0]
  by (simp add: connect_code_def)

text \<open>
  The name of a socket reads back what it was bound to: the address, if \<open>ntop\<close> prints what \<open>aton\<close> reads, and the port
  modulo \<open>2 ^ 16\<close>. A text that is no address, for instance a host name, silently stands for \<^verbatim>\<open>0.0.0.0\<close>.
\<close>

theorem socket_name_roundtrip:
  assumes "\<And>a. aton ip = Some a \<Longrightarrow> ntop a = ip"
  shows "get_sock_name ntop (Sys 0) (make_addr aton ip port) =
      (0, Some (if aton ip = None then ntop 0 else ip, port mod 2 ^ 16))
    \<and> get_peer_name ntop r a = get_sock_name ntop r a"
  using assms by (auto simp: get_sock_name_def get_peer_name_def make_addr_def uint_word_of_int split: option.splits)

theorem socket_name_roundtrip_witness:
  "get_sock_name (\<lambda>a. ''1.0.0.0'') (Sys 0) (make_addr (\<lambda>_. Some 1) ''1.0.0.0'' 65616) = (0, Some (''1.0.0.0'', 80))"
  using socket_name_roundtrip [of "\<lambda>_. Some 1" "''1.0.0.0''" "\<lambda>a. ''1.0.0.0''" 65616] by simp

lemma list_loop_filter: "list_loop es files = files @ filter (\<lambda>e. e \<noteq> ''.'' \<and> e \<noteq> ''..'') es"
  by (induction es arbitrary: files) auto

text \<open>\<^verbatim>\<open>list_directory\<close> lists every entry but the two links of the directory, in the order of \<^verbatim>\<open>readdir\<close>.\<close>

lemma list_directory_entries:
  "list_directory (Some es) files = (0, filter (\<lambda>e. e \<noteq> ''.'' \<and> e \<noteq> ''..'') es) \<and> list_directory None files = (- 1, files)"
  by (simp add: list_directory_def list_loop_filter)

text \<open>Without assertions \<^verbatim>\<open>get_local_ip\<close> never asks for the address and returns the empty string.\<close>

lemma get_local_ip_ndebug:
  "hosts h = Some (a # as) \<Longrightarrow> get_local_ip False ntop hosts h = Ret (ntop a) \<and> get_local_ip True ntop hosts h = Ret []"
  by (simp add: get_local_ip_def get_ip_def)

section \<open>Properties of the descriptors\<close>

text \<open>
  A condition on a pipe or a socket pair closes each of its descriptors exactly once: after its life the table of
  descriptors is as before. The TCP factory keeps its own copies of the two descriptors and closes them in its destructor,
  after the condition has closed them: every \<^verbatim>\<open>TcpPairCondition\<close> closes two descriptors a second time.
\<close>

theorem condition_descriptors:
  assumes "0 \<le> a" "0 \<le> b" "0 \<le> e" "0 \<le> s" "distinct [a, b, e, s]" "{a, b, e, s} \<inter> opened t = {}"
  shows "PairCondition_life (0, a, b) (Sys e) (Sys 0) t = Ret t
    \<and> TcpPairCondition_life (Sys s) (Sys a) [Sys b] (Sys e) (Sys 0) errno t =
        Ret (t\<lparr>bad_closes := bad_closes t @ [a, b]\<rparr>)"
proof
  obtain S x where t: "t = \<lparr>opened = S, bad_closes = x\<rparr>" by (cases t)
  have d: "a \<noteq> b" "a \<noteq> e" "a \<noteq> s" "b \<noteq> a" "b \<noteq> e" "b \<noteq> s" "e \<noteq> a" "e \<noteq> b" "e \<noteq> s" "s \<noteq> a" "s \<noteq> b" "s \<noteq> e"
      "a \<notin> S" "b \<notin> S" "e \<notin> S" "s \<notin> S" "a \<noteq> - 1" "b \<noteq> - 1" "e \<noteq> - 1" "s \<noteq> - 1" "\<not> a < 0" "\<not> b < 0" "\<not> e < 0" "\<not> s < 0"
    using assms t by auto
  note red = d Let_def insert_Diff_if fd_close_def fd_open_def close_member_def FDCondition_ctor_def FDCondition_dtor_def t
  show "PairCondition_life (0, a, b) (Sys e) (Sys 0) t = Ret t"
    by (simp add: PairCondition_life_def pair_create_def red)
  show "TcpPairCondition_life (Sys s) (Sys a) [Sys b] (Sys e) (Sys 0) errno t = Ret (t\<lparr>bad_closes := bad_closes t @ [a, b]\<rparr>)"
    by (simp add: TcpPairCondition_life_def TcpPairFactory_create_def TcpPairFactory_ctor_def TcpPairFactory_dtor_def
        create_tcp_socket_def red)
qed

theorem condition_descriptors_witness:
  "TcpPairCondition_life (Sys 3) (Sys 4) [Sys 5] (Sys 6) (Sys 0) 0 \<lparr>opened = {0, 1, 2}, bad_closes = []\<rparr> =
     Ret \<lparr>opened = {0, 1, 2}, bad_closes = [4, 5]\<rparr>"
  using condition_descriptors [of 4 5 6 3 "\<lparr>opened = {0, 1, 2}, bad_closes = []\<rparr>" 0] by simp

text \<open>\<^verbatim>\<open>TcpPairFactory::create\<close> answers 0 whatever failed, so the check in the constructor of the condition is idle.\<close>

lemma TcpPairFactory_create_always_0:
  "TcpPairFactory_create srv cli acc errno f t = Ret (created, f', t') \<Longrightarrow> fst created = 0"
  by (cases "tcp_accept acc errno") (auto simp: TcpPairFactory_create_def Let_def)

end
