(* ===== verification/Async_Socket.thy ===== *)
theory Async_Socket
  imports Itachi Async_Message Sockets
begin

text \<open>
  \<^verbatim>\<open>AsyncSocket\<close> of \<^verbatim>\<open>itachi/asocket.cc\<close>: a context that owns a descriptor and at most one message. The results
  of the socket calls are arguments; open descriptors and live messages are tracked, so that leaks
  and double frees show. Launching goes through the reactor of theory \<open>Itachi\<close>.
\<close>

section \<open>State\<close>

record asock =
  s_msg :: "nat option"
  io_timestamp :: u64
  io_timeout_ms :: int
  s_ip :: string
  s_port :: int
  s_timeout_ms :: int
  open_fds :: "int set"
  live_msgs :: "nat set"

type_synonym sstate = "itachi \<times> asock"

definition AA_CONNECT :: int where "AA_CONNECT = 4"
definition AA_CONNECTED :: int where "AA_CONNECTED = 5"
definition AA_BIND_LISTEN :: int where "AA_BIND_LISTEN = 6"
definition AA_READ :: int where "AA_READ = 7"
definition AA_WRITE :: int where "AA_WRITE = 8"

lemmas actions = AA_CONNECT_def AA_CONNECTED_def AA_BIND_LISTEN_def AA_READ_def AA_WRITE_def

definition ctx_update :: "nat \<Rightarrow> (actx \<Rightarrow> actx) \<Rightarrow> itachi \<Rightarrow> itachi exec" where
  "ctx_update c f st = exec_bind (ctx_get st c) (\<lambda>x. Ret (st\<lparr>ctxs := (ctxs st)(c \<mapsto> f x)\<rparr>))"

section \<open>Operations\<close>

definition AsyncSocket_bindAndListen :: "nat \<Rightarrow> int \<Rightarrow> int \<Rightarrow> sstate \<Rightarrow> (int \<times> sstate) exec" where
  "AsyncSocket_bindAndListen c fd bind_code s = (case s of (st, sk) \<Rightarrow>
     if fd = - 1 then Ret (- 1, (st, sk))
     else let sk = sk\<lparr>open_fds := insert fd (open_fds sk)\<rparr> in
       if bind_code = - 1 then Ret (- 1, (st, sk))
       else exec_bind (ctx_update c (initNetReadEvent AA_BIND_LISTEN fd (- 1)) st) (\<lambda>st.
            exec_bind (Itachi_launch c st) (\<lambda>(code, st).
              if code = - 1 then Ret (- 1, (st, sk)) else Ret (0, (st, sk)))))"

definition AsyncSocket_connect ::
    "nat \<Rightarrow> string \<Rightarrow> int \<Rightarrow> int \<Rightarrow> int \<Rightarrow> int \<Rightarrow> sstate \<Rightarrow> (int \<times> sstate) exec" where
  "AsyncSocket_connect c ip port ms fd conn_code s = (case s of (st, sk) \<Rightarrow>
     let sk = sk\<lparr>s_ip := ip, s_port := port, s_timeout_ms := ms\<rparr> in
     if fd = - 1 then Ret (- 1, (st, sk))
     else let sk = sk\<lparr>open_fds := insert fd (open_fds sk)\<rparr> in
       if conn_code = - 1 then Ret (- 1, (st, sk))
       else exec_bind (ctx_update c (if conn_code = 0
               then (\<lambda>x. initCpuEvent AA_CONNECTED False (x\<lparr>net_fd := fd\<rparr>))
               else initNetWriteEvent AA_CONNECT fd ms) st) (\<lambda>st.
            exec_bind (Itachi_launch c st) (\<lambda>(code, st).
              if code = - 1 then Ret (- 1, (st, sk)) else Ret (0, (st, sk)))))"

text \<open>\<^verbatim>\<open>close_fd\<close> and \<^verbatim>\<open>delete msg_\<close>; deleting a message that is gone already is undefined.\<close>

definition AsyncSocket_close :: "nat \<Rightarrow> sstate \<Rightarrow> sstate exec" where
  "AsyncSocket_close c s = (case s of (st, sk) \<Rightarrow>
     exec_bind (ctx_get st c) (\<lambda>x.
     exec_bind (ctx_update c (\<lambda>x. x\<lparr>net_fd := - 1\<rparr>) st) (\<lambda>st.
       let sk = sk\<lparr>open_fds := open_fds sk - {net_fd x}\<rparr> in
       case s_msg sk of None \<Rightarrow> Ret (st, sk)
       | Some m \<Rightarrow> if m \<in> live_msgs sk then Ret (st, sk\<lparr>live_msgs := live_msgs sk - {m}\<rparr>) else Undefined)))"

text \<open>
  The constructors; \<open>net0\<close> and \<open>sk0\<close> give the fields they leave indeterminate, \<^verbatim>\<open>timeout_ms_\<close> and the \<^verbatim>\<open>io_\<close> fields among
  them. The second takes over the descriptor of an accepted connection.
\<close>

definition AsyncSocket_ctor :: "nat \<Rightarrow> nat \<Rightarrow> u32 \<Rightarrow> actx \<Rightarrow> asock \<Rightarrow> itachi \<Rightarrow> sstate" where
  "AsyncSocket_ctor c client hint net0 sk0 st =
     (st\<lparr>ctxs := (ctxs st)(c \<mapsto> (AsyncContext_ctor client hint net0)\<lparr>net_fd := - 1\<rparr>)\<rparr>,
      sk0\<lparr>s_msg := None, s_ip := ''255.255.255.255'', s_port := - 1\<rparr>)"

definition AsyncSocket_ctor_fd :: "nat \<Rightarrow> nat \<Rightarrow> u32 \<Rightarrow> actx \<Rightarrow> asock \<Rightarrow> int \<Rightarrow> itachi \<Rightarrow> sstate" where
  "AsyncSocket_ctor_fd c client hint net0 sk0 fd st =
     (st\<lparr>ctxs := (ctxs st)(c \<mapsto> (AsyncContext_ctor client hint net0)\<lparr>net_fd := fd\<rparr>)\<rparr>,
      sk0\<lparr>s_msg := None, s_ip := ''255.255.255.255'', s_port := - 1\<rparr>)"

definition AsyncSocket_dtor :: "nat \<Rightarrow> sstate \<Rightarrow> sstate exec" where
  "AsyncSocket_dtor c s = AsyncSocket_close c s"

text \<open>\<^verbatim>\<open>accept\<close>: the socket options are set without looking at the result.\<close>

definition AsyncSocket_accept :: "sysres list \<Rightarrow> int \<Rightarrow> sstate \<Rightarrow> (int \<times> sstate) exec" where
  "AsyncSocket_accept acc errno s = (case s of (st, sk) \<Rightarrow>
     exec_bind (tcp_accept acc errno) (\<lambda>(sock, errno).
       Ret (sock, (st, if sock < 0 then sk else sk\<lparr>open_fds := insert sock (open_fds sk)\<rparr>))))"

text \<open>The default body of all twelve callbacks: log and release the context.\<close>

definition sock_default_callback :: "nat \<Rightarrow> sstate \<Rightarrow> sstate exec" where
  "sock_default_callback c s = (case s of (st, sk) \<Rightarrow> exec_bind (ctx_release c st) (\<lambda>st. Ret (st, sk)))"

definition AsyncSocket_reconnect :: "nat \<Rightarrow> int \<Rightarrow> int \<Rightarrow> sstate \<Rightarrow> (int \<times> sstate) exec" where
  "AsyncSocket_reconnect c fd conn_code s =
     exec_bind (AsyncSocket_close c s) (\<lambda>s.
       AsyncSocket_connect c (s_ip (snd s)) (s_port (snd s)) (s_timeout_ms (snd s)) fd conn_code s)"

definition AsyncSocket_takeOutMessage :: "sstate \<Rightarrow> nat option \<times> sstate" where
  "AsyncSocket_takeOutMessage s = (s_msg (snd s), (fst s, (snd s)\<lparr>s_msg := None\<rparr>))"

text \<open>\<^verbatim>\<open>recv\<close> and \<^verbatim>\<open>send\<close> launch first and only then look at \<^verbatim>\<open>msg_\<close> and store the message.\<close>

definition sock_launch_io :: "(int \<Rightarrow> int \<Rightarrow> actx \<Rightarrow> actx) \<Rightarrow> nat \<Rightarrow> int \<Rightarrow> itachi \<Rightarrow> (int \<times> itachi) exec" where
  "sock_launch_io ini c ms st =
     exec_bind (ctx_get st c) (\<lambda>x.
     exec_bind (ctx_update c (ini (net_fd x) ms) st) (\<lambda>st. Itachi_launch c st))"

definition AsyncSocket_recv :: "nat \<Rightarrow> nat \<Rightarrow> int \<Rightarrow> u64 \<Rightarrow> sstate \<Rightarrow> (int \<times> sstate) exec" where
  "AsyncSocket_recv c msg ms now s = (case s of (st, sk) \<Rightarrow>
     exec_bind (sock_launch_io (initNetReadEvent AA_READ) c ms st) (\<lambda>(code, st).
       if code = - 1 then Ret (- 1, (st, sk))
       else if s_msg sk \<noteq> None then Ret (- 1, (st, sk))
       else Ret (0, (st, sk\<lparr>io_timestamp := now, io_timeout_ms := ms, s_msg := Some msg\<rparr>))))"

definition AsyncSocket_send :: "nat \<Rightarrow> nat \<Rightarrow> int \<Rightarrow> u64 \<Rightarrow> sstate \<Rightarrow> (int \<times> sstate) exec" where
  "AsyncSocket_send c msg ms now s = (case s of (st, sk) \<Rightarrow>
     exec_bind (sock_launch_io (initNetWriteEvent AA_WRITE) c ms st) (\<lambda>(code, st).
       if code = - 1 then Ret (- 1, (st, sk))
       else if s_msg sk \<noteq> None then Ret (- 1, (st, sk))
       else Ret (0, (st, sk\<lparr>io_timestamp := now, io_timeout_ms := ms, s_msg := Some msg\<rparr>))))"

section \<open>Completion\<close>

datatype sock_event = OnConnectTimeout | OnConnected | OnConnectFailed | OnAccept | OnRecvOK
  | OnRecvTimeout | OnPeerClosed | OnRecvFailed | OnSendOK | OnSendTimeout | OnBrokenPipe | OnSendFailed
  | Relaunched | NoEvent

text \<open>The remaining time, \<^verbatim>\<open>int64_t\<close> of a difference of unsigned 64-bit millisecond counts.\<close>

definition rest_ms :: "asock \<Rightarrow> u64 \<Rightarrow> int" where
  "rest_ms sk now = sint (io_timestamp sk + of_int (io_timeout_ms sk) - now)"

text \<open>The time that is left becomes the \<^verbatim>\<open>int timeout_ms\<close> of the event.\<close>

definition sock_again ::
    "(int \<Rightarrow> int \<Rightarrow> actx \<Rightarrow> actx) \<Rightarrow> sock_event \<Rightarrow> nat \<Rightarrow> u64 \<Rightarrow> sstate \<Rightarrow> (sock_event \<times> sstate) exec" where
  "sock_again ini expired c now s = (case s of (st, sk) \<Rightarrow>
     if 0 < io_timeout_ms sk \<and> rest_ms sk now \<le> 0 then Ret (expired, s)
     else exec_bind (sock_launch_io ini c (to_int (if 0 < io_timeout_ms sk then rest_ms sk now else - 1)) st) (\<lambda>(code, st).
       if code = - 1 then Fatal else Ret (Relaunched, (st, sk))))"

text \<open>
  \<^verbatim>\<open>AsyncSocket::Client::onComplete\<close>: \<open>sockerr\<close> is the pending socket error, \<open>io\<close> what \<^verbatim>\<open>Message::read\<close> or
  \<^verbatim>\<open>Message::write\<close> returned. The result names the virtual method that is called.
\<close>

definition AsyncSocket_onComplete ::
    "nat \<Rightarrow> int \<Rightarrow> msg_status \<Rightarrow> u64 \<Rightarrow> sstate \<Rightarrow> (sock_event \<times> sstate) exec" where
  "AsyncSocket_onComplete c sockerr io now s = (case s of (st, sk) \<Rightarrow>
     exec_bind (ctx_get st c) (\<lambda>x.
       if action x = AA_CONNECT then
         Ret (if net_timeout x then OnConnectTimeout else if sockerr = 0 then OnConnected else OnConnectFailed, s)
       else if action x = AA_CONNECTED then Ret (OnConnected, s)
       else if action x = AA_BIND_LISTEN then Ret (OnAccept, s)
       else if action x = AA_READ then
         exec_bind (exec_assert (s_msg sk \<noteq> None)) (\<lambda>_.
           case io of kDone \<Rightarrow> Ret (OnRecvOK, s)
           | kWouldBlock \<Rightarrow> sock_again (initNetReadEvent AA_READ) OnRecvTimeout c now s
           | kEOF \<Rightarrow> Ret (OnPeerClosed, s)
           | kError \<Rightarrow> Ret (OnRecvFailed, s)
           | kBrokenPipe \<Rightarrow> Ret (NoEvent, s))
       else if action x = AA_WRITE then
         exec_bind (exec_assert (s_msg sk \<noteq> None)) (\<lambda>_.
           case io of kDone \<Rightarrow> Ret (OnSendOK, s)
           | kWouldBlock \<Rightarrow> sock_again (initNetWriteEvent AA_WRITE) OnSendTimeout c now s
           | kBrokenPipe \<Rightarrow> Ret (OnBrokenPipe, s)
           | kError \<Rightarrow> Ret (OnSendFailed, s)
           | kEOF \<Rightarrow> Ret (NoEvent, s))
       else Fatal))"

section \<open>Properties\<close>

text \<open>A push leaves the context in one of the queues.\<close>

lemma in_updated:
  "xss \<noteq> [] \<Longrightarrow> c \<in> set ys \<Longrightarrow> \<exists>xs\<in>set (xss[i mod length xss := ys]). c \<in> set xs"
  by (metis length_greater_0_conv mod_less_divisor set_update_memI)

lemma ms_range:
  "(0::int) \<le> a \<Longrightarrow> a < 2 ^ 62 \<Longrightarrow> 0 \<le> t \<Longrightarrow> t < 2 ^ 31 \<Longrightarrow> 0 \<le> n \<Longrightarrow> n < 2 ^ 62 \<Longrightarrow>
   - (2 ^ 63) \<le> a + t - n \<and> a + t - n < 2 ^ 63"
  by simp

lemma rest_ms_exact:
  assumes "0 \<le> io_timeout_ms sk" "io_timeout_ms sk < 2 ^ 31" "uint (io_timestamp sk) < 2 ^ 62" "uint now < 2 ^ 62"
  shows "rest_ms sk now = uint (io_timestamp sk) + io_timeout_ms sk - uint now"
proof -
  have "(of_int (uint (io_timestamp sk) + io_timeout_ms sk - uint now) :: u64)
      = io_timestamp sk + of_int (io_timeout_ms sk) - now" by simp
  then have "rest_ms sk now = sint (word_of_int (uint (io_timestamp sk) + io_timeout_ms sk - uint now) :: u64)"
    by (simp only: rest_ms_def)
  also have "\<dots> = uint (io_timestamp sk) + io_timeout_ms sk - uint now"
  proof -
    have "signed_take_bit 63 (uint (io_timestamp sk) + io_timeout_ms sk - uint now)
        = uint (io_timestamp sk) + io_timeout_ms sk - uint now"
      using ms_range [OF uint_ge_0 assms(3,1,2) uint_ge_0 assms(4)]
      by (intro signed_take_bit_int_eq_self) blast+
    then show ?thesis unfolding signed_of_int by simp
  qed
  finally show ?thesis .
qed

text \<open>
  C32. A transfer that has to wait keeps its deadline: when \<^verbatim>\<open>Message::read\<close> or \<^verbatim>\<open>write\<close> would block, the timeout
  callback of the transfer is called exactly when the deadline set by \<^verbatim>\<open>recv\<close> or \<^verbatim>\<open>send\<close> has passed. Otherwise the
  context goes back to the poll threads, with the same action and for the same event, and with the
  time that is left, converted to an \<^verbatim>\<open>int\<close>; this is precisely the time left when the clock has not gone
  back behind the start of the transfer. Timestamps are below \<open>2 ^ 62\<close> milliseconds.
\<close>

theorem socket_deadline:
  assumes "ctxs st c = Some x" "action x = AA_READ \<or> action x = AA_WRITE" "s_msg sk \<noteq> None" "client_itachi x = self st"
    "\<not> stop st" "poll_q st \<noteq> []"
    and "0 < io_timeout_ms sk" "io_timeout_ms sk < 2 ^ 31" "uint (io_timestamp sk) < 2 ^ 62" "uint now < 2 ^ 62"
  shows "if uint (io_timestamp sk) + io_timeout_ms sk \<le> uint now
     then AsyncSocket_onComplete c sockerr kWouldBlock now (st, sk)
       = Ret (if action x = AA_READ then OnRecvTimeout else OnSendTimeout, (st, sk))
     else \<exists>st' y. AsyncSocket_onComplete c sockerr kWouldBlock now (st, sk) = Ret (Relaunched, (st', sk))
       \<and> ctxs st' c = Some y \<and> c \<in> set (concat (poll_q st')) \<and> refs y = refs x + 1 \<and> ctype y = CtNet
       \<and> action y = action x \<and> net_fd y = net_fd x \<and> net_events y = (if action x = AA_READ then EV_READ else EV_WRITE)
       \<and> net_timeout_ms y = to_int (uint (io_timestamp sk) + io_timeout_ms sk - uint now)
       \<and> (uint (io_timestamp sk) \<le> uint now \<longrightarrow>
            net_timeout_ms y = uint (io_timestamp sk) + io_timeout_ms sk - uint now)"
proof -
  have r: "rest_ms sk now = uint (io_timestamp sk) + io_timeout_ms sk - uint now"
    using assms by (intro rest_ms_exact) auto
  have a: "AA_READ \<noteq> AA_CONNECT" "AA_READ \<noteq> AA_CONNECTED" "AA_READ \<noteq> AA_BIND_LISTEN" "AA_WRITE \<noteq> AA_CONNECT"
    "AA_WRITE \<noteq> AA_CONNECTED" "AA_WRITE \<noteq> AA_BIND_LISTEN" "AA_READ \<noteq> AA_WRITE" by (simp_all add: actions)
  have n: "to_int (uint (io_timestamp sk) + io_timeout_ms sk - uint now)
      = uint (io_timestamp sk) + io_timeout_ms sk - uint now"
    if "uint (io_timestamp sk) \<le> uint now" "\<not> uint (io_timestamp sk) + io_timeout_ms sk \<le> uint now"
    using that assms(8) by (intro to_int_id) (simp add: int_ok_def)
  show ?thesis
  proof (cases "uint (io_timestamp sk) + io_timeout_ms sk \<le> uint now")
    case True
    then show ?thesis using assms a
      by (auto simp: AsyncSocket_onComplete_def sock_again_def ctx_get_def r)
  next
    case False
    show ?thesis using assms(2)
    proof
      assume "action x = AA_READ"
      with False assms a n show ?thesis
        by (auto simp: AsyncSocket_onComplete_def sock_again_def sock_launch_io_def ctx_update_def ctx_get_def r Let_def
            Itachi_launch_def Itachi_launch_impl_def ctx_acquire_def PollHandler_push_def initNetReadEvent_def in_updated)
    next
      assume "action x = AA_WRITE"
      with False assms a n show ?thesis
        by (auto simp: AsyncSocket_onComplete_def sock_again_def sock_launch_io_def ctx_update_def ctx_get_def r Let_def
            Itachi_launch_def Itachi_launch_impl_def ctx_acquire_def PollHandler_push_def initNetWriteEvent_def in_updated)
    qed
  qed
qed

definition sample_sock :: asock where
  "sample_sock = \<lparr>s_msg = Some 3, io_timestamp = 1000, io_timeout_ms = 50, s_ip = [], s_port = 0, s_timeout_ms = 0,
     open_fds = {9}, live_msgs = {3}\<rparr>"

definition sample_reading :: itachi where
  "sample_reading = (sample_itachi False)\<lparr>ctxs := [5 \<mapsto> sample_ctx\<lparr>action := AA_READ, net_fd := 9\<rparr>]\<rparr>"

definition sample_writing :: itachi where
  "sample_writing = (sample_itachi False)\<lparr>ctxs := [5 \<mapsto> sample_ctx\<lparr>action := AA_WRITE, net_fd := 9\<rparr>]\<rparr>"

theorem socket_deadline_witness:
  "AsyncSocket_onComplete 5 0 kWouldBlock 1050 (sample_reading, sample_sock)
     = Ret (OnRecvTimeout, (sample_reading, sample_sock))
   \<and> (\<exists>st' y. AsyncSocket_onComplete 5 0 kWouldBlock 1020 (sample_writing, sample_sock) = Ret (Relaunched, (st', sample_sock))
       \<and> ctxs st' 5 = Some y \<and> net_timeout_ms y = 30 \<and> net_events y = EV_WRITE)"
  using socket_deadline [of sample_reading 5 _ sample_sock 1050 0] socket_deadline [of sample_writing 5 _ sample_sock 1020 0]
  by (simp add: sample_reading_def sample_writing_def sample_itachi_def sample_sock_def sample_ctx_def actions) metis

text \<open>
  \<^verbatim>\<open>recv\<close> launches before it has stored the message. A CPU thread that completes the context between the two fails the
  assertion on \<^verbatim>\<open>msg_\<close>; and when a message still resides in the socket, \<^verbatim>\<open>recv\<close> reports failure although it
  has launched the context, which now is pending with one more reference.
\<close>

theorem recv_launches_first:
  assumes "ctxs st c = Some x" "refs x > 0" "client_itachi x = self st" "\<not> stop st" "poll_q st \<noteq> []"
  shows "\<exists>st'. sock_launch_io (initNetReadEvent AA_READ) c ms st = Ret (0, st')
     \<and> count (pending st') c = count (pending st) c + 1
     \<and> (s_msg sk = None \<longrightarrow> AsyncSocket_onComplete c sockerr io now (st', sk) = Fatal)
     \<and> (s_msg sk \<noteq> None \<longrightarrow> AsyncSocket_recv c msg ms now (st, sk) = Ret (- 1, (st', sk)))"
proof -
  let ?s1 = "st\<lparr>ctxs := (ctxs st)(c \<mapsto> initNetReadEvent AA_READ (net_fd x) ms x)\<rparr>"
  have "\<exists>st'. Itachi_launch_impl c True ?s1 = Ret (0, st')"
    using assms by (auto simp: Itachi_launch_impl_def ctx_get_def ctx_acquire_def PollHandler_push_def
        initNetReadEvent_def Let_def)
  then obtain st' where l: "Itachi_launch_impl c True ?s1 = Ret (0, st')" by blast
  from l have io: "sock_launch_io (initNetReadEvent AA_READ) c ms st = Ret (0, st')"
    using assms(1) by (simp add: sock_launch_io_def ctx_get_def ctx_update_def Itachi_launch_def)
  have eff: "ctxs st' = (ctxs ?s1)(c \<mapsto> (initNetReadEvent AA_READ (net_fd x) ms x)\<lparr>refs := refs x + 1\<rparr>)"
    "count (pending st') c = count (pending st) c + 1"
    using launch_effect [OF l, of "initNetReadEvent AA_READ (net_fd x) ms x"] assms(2)
    by (auto simp: initNetReadEvent_def)
  have "s_msg sk = None \<Longrightarrow> AsyncSocket_onComplete c sockerr io now (st', sk) = Fatal"
    by (simp add: AsyncSocket_onComplete_def ctx_get_def eff initNetReadEvent_def actions)
  then show ?thesis using io eff by (auto simp: AsyncSocket_recv_def)
qed

theorem recv_launches_first_witness:
  "\<exists>st'. AsyncSocket_recv 5 4 100 0 (sample_reading, sample_sock) = Ret (- 1, (st', sample_sock))"
  using recv_launches_first [of sample_reading 5 _ 100 sample_sock 0 kDone 0 4]
  by (simp add: sample_reading_def sample_itachi_def sample_sock_def sample_ctx_def) blast

text \<open>
  \<^verbatim>\<open>close\<close> deletes the resident message but keeps the pointer to it, so closing twice, as an explicit \<^verbatim>\<open>close\<close> or
  \<^verbatim>\<open>reconnect\<close> followed by the destructor does, deletes it twice. And a failed \<^verbatim>\<open>connect\<close> leaves its descriptor open with no field referring to it.
\<close>

theorem socket_close_twice:
  assumes "ctxs st c = Some x" "s_msg sk = Some m" "m \<in> live_msgs sk"
  shows "exec_bind (AsyncSocket_close c (st, sk)) (AsyncSocket_close c) = Undefined
    \<and> (fd \<noteq> - 1 \<longrightarrow> (\<exists>sk'. AsyncSocket_connect c ip port ms fd (- 1) (st, sk) = Ret (- 1, (st, sk')) \<and> fd \<in> open_fds sk'))"
  using assms
  by (auto simp: AsyncSocket_close_def AsyncSocket_connect_def ctx_get_def ctx_update_def Let_def)

theorem socket_close_twice_witness:
  "exec_bind (AsyncSocket_close 5 (sample_reading, sample_sock)) (AsyncSocket_close 5) = Undefined"
  using socket_close_twice [of sample_reading 5 _ sample_sock 3]
  by (simp add: sample_reading_def sample_itachi_def sample_sock_def)

section \<open>Connecting\<close>

text \<open>
  libev calls back with \<open>revents\<close>: the context goes to a CPU thread, and its completion calls the method \<open>e\<close>.
\<close>

definition fires :: "nat \<Rightarrow> u32 \<Rightarrow> int \<Rightarrow> sstate \<Rightarrow> sock_event \<Rightarrow> bool" where
  "fires c revents sockerr s e \<longleftrightarrow> (\<exists>st. net_callback revents c (fst s) = Ret st \<and> c \<in> set (concat (cpu_q st))
     \<and> (\<forall>io now. AsyncSocket_onComplete c sockerr io now (st, snd s) = Ret (e, (st, snd s))))"

lemma connect_fires:
  assumes "ctxs st c = Some y" "action y = AA_CONNECT" "client_itachi y = self st" "\<not> stop st" "cpu_q st \<noteq> []"
    and "revents AND EV_ERROR = 0"
  shows "fires c revents sockerr (st, sk)
     (if revents AND EV_TIMER \<noteq> 0 \<and> revents AND EV_READ = 0 \<and> revents AND EV_WRITE = 0
      then OnConnectTimeout else if sockerr = 0 then OnConnected else OnConnectFailed)"
  using assms
  by (simp add: fires_def net_callback_def ctx_get_def Let_def Itachi_launch_impl_def initCpuEvent_def
      CpuHandler_push_def AsyncSocket_onComplete_def actions in_updated)



end
