(* ===== verification/Handlers.thy ===== *)
theory Handlers
  imports Itachi
begin

text \<open>
  The thread pools of the reactor, \<^verbatim>\<open>itachi/handler.cc\<close>, and \<^verbatim>\<open>Itachi::start\<close> and \<^verbatim>\<open>stop\<close> over them: which arrays, threads and
  libev loops they create and destroy. What the threads do is in theory \<open>Itachi\<close>. An array is \<open>None\<close> for a null pointer,
  otherwise its length, or its contents. The results of \<^verbatim>\<open>pthread_create\<close> and \<^verbatim>\<open>ev_loop_new\<close> are arguments.
\<close>

section \<open>Handlers\<close>

text \<open>What is alive in the process.\<close>

record hres =
  live_threads :: int
  live_loops :: int
  live_arrays :: int

record handler =
  h_threads :: int
  h_tids :: "int option"
  h_args :: "int list option"

definition Handler_ctor :: handler where
  "Handler_ctor = \<lparr>h_threads = 0, h_tids = None, h_args = None\<rparr>"

definition free_array :: "'a option \<Rightarrow> hres \<Rightarrow> hres" where
  "free_array a r = (case a of None \<Rightarrow> r | Some _ \<Rightarrow> r\<lparr>live_arrays := live_arrays r - 1\<rparr>)"

definition Handler_fini :: "handler \<times> hres \<Rightarrow> handler \<times> hres" where
  "Handler_fini s = (case s of (h, r) \<Rightarrow> (h\<lparr>h_tids := None, h_args := None\<rparr>, free_array (h_args h) (free_array (h_tids h) r)))"

text \<open>A negative number of threads makes \<^verbatim>\<open>new\<close> throw.\<close>

definition Handler_init :: "int \<Rightarrow> handler \<times> hres \<Rightarrow> (handler \<times> hres) exec" where
  "Handler_init threads s =
     (let (h, r) = Handler_fini s in
      if threads < 0 then Fatal
      else Ret (h\<lparr>h_tids := Some threads, h_args := Some (replicate (nat threads) (- 1))\<rparr>,
                r\<lparr>live_arrays := live_arrays r + 2\<rparr>))"

definition spawn :: "(int \<Rightarrow> int) \<Rightarrow> int \<Rightarrow> handler \<times> hres \<Rightarrow> (handler \<times> hres) exec" where
  "spawn create i s = (case s of (h, r) \<Rightarrow>
     (case h_args h of None \<Rightarrow> Undefined
      | Some args \<Rightarrow> exec_bind (vec_put args i i) (\<lambda>args.
          if create i \<noteq> 0 then Fatal else Ret (h\<lparr>h_args := Some args\<rparr>, r\<lparr>live_threads := live_threads r + 1\<rparr>))))"

definition Handler_start :: "(int \<Rightarrow> int) \<Rightarrow> int \<Rightarrow> handler \<times> hres \<Rightarrow> (handler \<times> hres) exec" where
  "Handler_start create threads s =
     exec_bind (Handler_init threads s) (\<lambda>(h, r).
       exec_fold (spawn create) [0..threads - 1] (h\<lparr>h_threads := threads\<rparr>, r))"

text \<open>\<^verbatim>\<open>stop\<close> joins as many threads as there were, whether the array of their names is still there or not.\<close>

definition join_thread :: "int \<Rightarrow> handler \<times> hres \<Rightarrow> (handler \<times> hres) exec" where
  "join_thread i s = (case s of (h, r) \<Rightarrow>
     (case h_tids h of None \<Rightarrow> Undefined
      | Some n \<Rightarrow> if i < n then Ret (h, r\<lparr>live_threads := live_threads r - 1\<rparr>) else Undefined))"

definition Handler_stop :: "handler \<times> hres \<Rightarrow> (handler \<times> hres) exec" where
  "Handler_stop s = exec_bind (exec_fold join_thread [0..h_threads (fst s) - 1] s) (\<lambda>s. Ret (Handler_fini s))"

definition Handler_get_tid :: "int \<Rightarrow> handler \<Rightarrow> int exec" where
  "Handler_get_tid n h =
     (if h_threads h = 0 then Undefined
      else case h_args h of None \<Rightarrow> Undefined | Some args \<Rightarrow> vec_at args (n mod h_threads h))"

section \<open>The CPU handler\<close>

record cpu_handler = handler +
  c_queue :: "int option"

definition cpu_base :: "(handler \<times> hres \<Rightarrow> (handler \<times> hres) exec) \<Rightarrow> cpu_handler \<times> hres \<Rightarrow> (cpu_handler \<times> hres) exec" where
  "cpu_base f s = (case s of (h, r) \<Rightarrow> exec_bind (f (handler.truncate h, r)) (\<lambda>(b, r).
     Ret (handler.extend b \<lparr>c_queue = c_queue h\<rparr>, r)))"

definition CpuHandler_ctor :: cpu_handler where
  "CpuHandler_ctor = handler.extend Handler_ctor \<lparr>c_queue = None\<rparr>"

definition CpuHandler_fini :: "cpu_handler \<times> hres \<Rightarrow> cpu_handler \<times> hres" where
  "CpuHandler_fini s = (case s of (h, r) \<Rightarrow> (h\<lparr>c_queue := None\<rparr>, free_array (c_queue h) r))"

definition CpuHandler_init :: "int \<Rightarrow> cpu_handler \<times> hres \<Rightarrow> (cpu_handler \<times> hres) exec" where
  "CpuHandler_init threads s =
     (let (h, r) = CpuHandler_fini s in
      if threads < 0 then Fatal else Ret (h\<lparr>c_queue := Some threads\<rparr>, r\<lparr>live_arrays := live_arrays r + 1\<rparr>))"

definition CpuHandler_start :: "(int \<Rightarrow> int) \<Rightarrow> int \<Rightarrow> cpu_handler \<times> hres \<Rightarrow> (cpu_handler \<times> hres) exec" where
  "CpuHandler_start create threads s =
     exec_bind (CpuHandler_init threads s) (\<lambda>s. cpu_base (Handler_start create threads) s)"

definition CpuHandler_stop :: "cpu_handler \<times> hres \<Rightarrow> (cpu_handler \<times> hres) exec" where
  "CpuHandler_stop s = exec_bind (cpu_base Handler_stop s) (\<lambda>s. Ret (CpuHandler_fini s))"

section \<open>The poll handler\<close>

record poll_handler = handler +
  p_queue :: "int option"
  p_loop :: "int option"
  p_async :: "int option"

definition poll_base :: "(handler \<times> hres \<Rightarrow> (handler \<times> hres) exec) \<Rightarrow> poll_handler \<times> hres \<Rightarrow> (poll_handler \<times> hres) exec" where
  "poll_base f s = (case s of (h, r) \<Rightarrow> exec_bind (f (handler.truncate h, r)) (\<lambda>(b, r).
     Ret (handler.extend b \<lparr>p_queue = p_queue h, p_loop = p_loop h, p_async = p_async h\<rparr>, r)))"

definition PollHandler_ctor :: poll_handler where
  "PollHandler_ctor = handler.extend Handler_ctor \<lparr>p_queue = None, p_loop = None, p_async = None\<rparr>"

text \<open>\<^verbatim>\<open>fini\<close> destroys \<^verbatim>\<open>threads_\<close> loops, if there is an array of loops.\<close>

definition destroy_loop :: "int \<Rightarrow> int \<Rightarrow> hres \<Rightarrow> hres exec" where
  "destroy_loop n i r = (if i < n then Ret (r\<lparr>live_loops := live_loops r - 1\<rparr>) else Undefined)"

definition PollHandler_fini :: "poll_handler \<times> hres \<Rightarrow> (poll_handler \<times> hres) exec" where
  "PollHandler_fini s = (case s of (h, r) \<Rightarrow>
     exec_bind (case p_loop h of None \<Rightarrow> Ret (free_array (p_queue h) r)
       | Some n \<Rightarrow> exec_fold (destroy_loop n) [0..h_threads h - 1] (free_array (p_queue h) r)) (\<lambda>r.
     Ret (h\<lparr>p_queue := None, p_loop := None, p_async := None\<rparr>, free_array (p_async h) (free_array (p_loop h) r))))"

definition create_loop :: "(int \<Rightarrow> bool) \<Rightarrow> int \<Rightarrow> hres \<Rightarrow> hres exec" where
  "create_loop ev i r = (if \<not> ev i then Fatal else Ret (r\<lparr>live_loops := live_loops r + 1\<rparr>))"

definition PollHandler_init :: "(int \<Rightarrow> bool) \<Rightarrow> int \<Rightarrow> poll_handler \<times> hres \<Rightarrow> (poll_handler \<times> hres) exec" where
  "PollHandler_init ev threads s =
     exec_bind (PollHandler_fini s) (\<lambda>(h, r).
       if threads < 0 then Fatal
       else exec_bind (exec_fold (create_loop ev) [0..threads - 1] (r\<lparr>live_arrays := live_arrays r + 3\<rparr>)) (\<lambda>r.
         Ret (h\<lparr>p_queue := Some threads, p_loop := Some threads, p_async := Some threads\<rparr>, r)))"

definition PollHandler_start :: "(int \<Rightarrow> bool) \<Rightarrow> (int \<Rightarrow> int) \<Rightarrow> int \<Rightarrow> poll_handler \<times> hres \<Rightarrow> (poll_handler \<times> hres) exec" where
  "PollHandler_start ev create threads s =
     exec_bind (PollHandler_init ev threads s) (\<lambda>s. poll_base (Handler_start create threads) s)"

text \<open>\<^verbatim>\<open>ev_async_send\<close> to every loop, which must be there, then join and release.\<close>

definition wake_loop :: "poll_handler \<Rightarrow> int \<Rightarrow> unit \<Rightarrow> unit exec" where
  "wake_loop h i u = (case p_loop h of None \<Rightarrow> Undefined | Some n \<Rightarrow> if i < n then Ret () else Undefined)"

definition PollHandler_stop :: "poll_handler \<times> hres \<Rightarrow> (poll_handler \<times> hres) exec" where
  "PollHandler_stop s =
     exec_bind (exec_fold (wake_loop (fst s)) [0..h_threads (fst s) - 1] ()) (\<lambda>_.
     exec_bind (poll_base Handler_stop s) PollHandler_fini)"

section \<open>Starting and stopping the reactor\<close>

record reactor =
  r_stop :: bool
  r_cpu :: cpu_handler
  r_poll :: poll_handler

definition reactor_new :: reactor where
  "reactor_new = \<lparr>r_stop = True, r_cpu = CpuHandler_ctor, r_poll = PollHandler_ctor\<rparr>"

definition reactor_start ::
    "(int \<Rightarrow> int) \<Rightarrow> (int \<Rightarrow> bool) \<Rightarrow> (int \<Rightarrow> int) \<Rightarrow> int \<Rightarrow> int \<Rightarrow> reactor \<times> hres \<Rightarrow> (int \<times> reactor \<times> hres) exec" where
  "reactor_start create ev create' cpu_threads poll_threads s = (case s of (x, r) \<Rightarrow>
     if \<not> r_stop x then Ret (- 1, x, r)
     else exec_bind (CpuHandler_start create cpu_threads (r_cpu x, r)) (\<lambda>(c, r).
          exec_bind (PollHandler_start ev create' poll_threads (r_poll x, r)) (\<lambda>(p, r).
            Ret (0, \<lparr>r_stop = False, r_cpu = c, r_poll = p\<rparr>, r))))"

definition reactor_stop :: "reactor \<times> hres \<Rightarrow> (reactor \<times> hres) exec" where
  "reactor_stop s = (case s of (x, r) \<Rightarrow>
     exec_bind (CpuHandler_stop (r_cpu x, r)) (\<lambda>(c, r).
     exec_bind (PollHandler_stop (r_poll x, r)) (\<lambda>(p, r).
       Ret (\<lparr>r_stop = True, r_cpu = c, r_poll = p\<rparr>, r))))"

section \<open>Counting loops\<close>

lemma upto_0_snoc: "0 \<le> n \<Longrightarrow> [0..n] = [0..n - 1] @ [n]"
  by (rule upto_rec2)

lemma count_up:
  assumes "0 \<le> n" "\<And>i s. 0 \<le> i \<Longrightarrow> i < n \<Longrightarrow> P i s \<Longrightarrow> returns (f i s) (P (i + 1))" "P 0 s"
  shows "returns (exec_fold f [0..n - 1] s) (P n)"
proof -
  have "returns (exec_fold f [0..n - 1] s) (P (n - 1 + 1))" by (rule exec_fold_upto [where P = P]) (use assms in auto)
  then show ?thesis by simp
qed

lemma spawn_all:
  assumes "0 \<le> n" "\<forall>i. create i = 0"
  shows "exec_fold (spawn create) [0..n - 1] (\<lparr>h_threads = n, h_tids = t, h_args = Some (replicate (nat n) (- 1))\<rparr>, r) =
    Ret (\<lparr>h_threads = n, h_tids = t, h_args = Some [0..n - 1]\<rparr>, r\<lparr>live_threads := live_threads r + n\<rparr>)"
proof -
  let ?P = "\<lambda>i (h, r'). h = \<lparr>h_threads = n, h_tids = t, h_args = Some ([0..i - 1] @ replicate (nat (n - i)) (- 1))\<rparr>
    \<and> r' = r\<lparr>live_threads := live_threads r + i\<rparr>"
  have step: "returns (spawn create i s) (?P (i + 1))" if i: "0 \<le> i" "i < n" and s: "?P i s" for i s
  proof -
    have "nat (n - i) = Suc (nat (n - (i + 1)))" using i by simp
    then have "([0..i - 1] @ replicate (nat (n - i)) (- 1))[nat i := i] = [0..i - 1] @ i # replicate (nat (n - (i + 1))) (- 1)"
      using i by (simp add: list_update_append)
    also have "\<dots> = [0..i] @ replicate (nat (n - (i + 1))) (- 1)" using upto_0_snoc [of i] i by simp
    finally show ?thesis using s i assms(2) by (auto simp: spawn_def returns_iff)
  qed
  have "returns (exec_fold (spawn create) [0..n - 1] (\<lparr>h_threads = n, h_tids = t, h_args = Some (replicate (nat n) (- 1))\<rparr>, r)) (?P n)"
    by (rule count_up [where P = ?P, OF assms(1) step]) auto
  then show ?thesis by (auto simp: returns_iff)
qed

lemma join_all:
  assumes "0 \<le> n" "h_tids h = Some n"
  shows "exec_fold join_thread [0..n - 1] (h, r) = Ret (h, r\<lparr>live_threads := live_threads r - n\<rparr>)"
proof -
  have "returns (exec_fold join_thread [0..n - 1] (h, r)) (\<lambda>s. s = (h, r\<lparr>live_threads := live_threads r - n\<rparr>))"
    by (rule count_up [where P = "\<lambda>i s. s = (h, r\<lparr>live_threads := live_threads r - i\<rparr>)", OF assms(1)]) (auto simp: join_thread_def assms(2))
  then show ?thesis by (auto simp: returns_iff)
qed

lemma loops_all:
  assumes "0 \<le> n"
  shows "\<forall>i. ev i \<Longrightarrow> exec_fold (create_loop ev) [0..n - 1] r = Ret (r\<lparr>live_loops := live_loops r + n\<rparr>)"
    and "exec_fold (destroy_loop n) [0..n - 1] r = Ret (r\<lparr>live_loops := live_loops r - n\<rparr>)"
    and "p_loop h = Some n \<Longrightarrow> exec_fold (wake_loop h) [0..n - 1] () = Ret ()"
proof -
  have "returns (exec_fold (create_loop ev) [0..n - 1] r) (\<lambda>s. s = r\<lparr>live_loops := live_loops r + n\<rparr>)" if "\<forall>i. ev i"
    by (rule count_up [where P = "\<lambda>i s. s = r\<lparr>live_loops := live_loops r + i\<rparr>", OF assms]) (auto simp: create_loop_def that)
  then show "\<forall>i. ev i \<Longrightarrow> exec_fold (create_loop ev) [0..n - 1] r = Ret (r\<lparr>live_loops := live_loops r + n\<rparr>)" by (auto simp: returns_iff)
  have "returns (exec_fold (destroy_loop n) [0..n - 1] r) (\<lambda>s. s = r\<lparr>live_loops := live_loops r - n\<rparr>)"
    by (rule count_up [where P = "\<lambda>i s. s = r\<lparr>live_loops := live_loops r - i\<rparr>", OF assms]) (auto simp: destroy_loop_def)
  then show "exec_fold (destroy_loop n) [0..n - 1] r = Ret (r\<lparr>live_loops := live_loops r - n\<rparr>)" by (auto simp: returns_iff)
  have "returns (exec_fold (wake_loop h) [0..n - 1] ()) (\<lambda>s. True)" if "p_loop h = Some n"
    by (rule count_up [where P = "\<lambda>i s. True", OF assms]) (auto simp: wake_loop_def that)
  then show "p_loop h = Some n \<Longrightarrow> exec_fold (wake_loop h) [0..n - 1] () = Ret ()" by (auto simp: returns_iff)
qed

section \<open>Properties\<close>

text \<open>A handler that owns nothing: never started, or stopped.\<close>

definition cpu_idle :: "cpu_handler \<Rightarrow> bool" where
  "cpu_idle h \<longleftrightarrow> h_tids h = None \<and> h_args h = None \<and> c_queue h = None"

definition poll_idle :: "poll_handler \<Rightarrow> bool" where
  "poll_idle h \<longleftrightarrow> h_tids h = None \<and> h_args h = None \<and> p_queue h = None \<and> p_loop h = None \<and> p_async h = None"

definition cpu_running :: "int \<Rightarrow> cpu_handler" where
  "cpu_running n = \<lparr>h_threads = n, h_tids = Some n, h_args = Some [0..n - 1], c_queue = Some n\<rparr>"

definition poll_running :: "int \<Rightarrow> poll_handler" where
  "poll_running n = \<lparr>h_threads = n, h_tids = Some n, h_args = Some [0..n - 1], p_queue = Some n, p_loop = Some n, p_async = Some n\<rparr>"

lemma cpu_started:
  assumes "cpu_idle h" "0 \<le> n" "\<forall>i. create i = 0"
  shows "CpuHandler_start create n (h, r) = Ret (cpu_running n, r\<lparr>live_threads := live_threads r + n, live_arrays := live_arrays r + 3\<rparr>)"
  using assms(1,2)
  by (simp add: spawn_all [OF assms(2,3)] CpuHandler_start_def CpuHandler_init_def CpuHandler_fini_def cpu_idle_def free_array_def cpu_base_def Handler_start_def
      Handler_init_def Handler_fini_def handler.defs cpu_running_def)

lemma cpu_stopped:
  assumes "0 \<le> n"
  shows "CpuHandler_stop (cpu_running n, r) = Ret (\<lparr>h_threads = n, h_tids = None, h_args = None, c_queue = None\<rparr>,
    r\<lparr>live_threads := live_threads r - n, live_arrays := live_arrays r - 3\<rparr>)"
  using assms
  by (simp add: CpuHandler_stop_def CpuHandler_fini_def cpu_base_def Handler_stop_def join_all [OF assms] Handler_fini_def free_array_def
      handler.defs cpu_running_def)

lemma poll_started:
  assumes "poll_idle h" "0 \<le> n" "\<forall>i. create i = 0" "\<forall>i. ev i"
  shows "PollHandler_start ev create n (h, r) =
    Ret (poll_running n, r\<lparr>live_threads := live_threads r + n, live_loops := live_loops r + n, live_arrays := live_arrays r + 5\<rparr>)"
  using assms(1,2)
  by (simp add: spawn_all [OF assms(2,3)] loops_all(1) [OF assms(2,4)] PollHandler_start_def PollHandler_init_def PollHandler_fini_def poll_idle_def free_array_def poll_base_def Handler_start_def
      Handler_init_def Handler_fini_def handler.defs poll_running_def)

lemma poll_stopped:
  assumes "0 \<le> n"
  shows "PollHandler_stop (poll_running n, r) =
    Ret (\<lparr>h_threads = n, h_tids = None, h_args = None, p_queue = None, p_loop = None, p_async = None\<rparr>,
      r\<lparr>live_threads := live_threads r - n, live_loops := live_loops r - n, live_arrays := live_arrays r - 5\<rparr>)"
  using assms
  by (simp add: PollHandler_stop_def PollHandler_fini_def poll_base_def Handler_stop_def join_all [OF assms] Handler_fini_def free_array_def
      handler.defs poll_running_def loops_all [OF assms])

text \<open>
  C7. The reactor can be started, stopped and started again: \<^verbatim>\<open>start\<close> creates the threads and loops that were asked for,
  \<^verbatim>\<open>stop\<close> joins every thread and destroys every loop and array that \<^verbatim>\<open>start\<close> created, and leaves the handlers idle. A second
  \<^verbatim>\<open>start\<close> is refused, but a second \<^verbatim>\<open>stop\<close> is not: it joins through the array that the first one has deleted.
\<close>

theorem reactor_life:
  assumes "r_stop x" "cpu_idle (r_cpu x)" "poll_idle (r_poll x)" "0 < n" "0 < m"
    and "\<forall>i. create i = 0" "\<forall>i. create' i = 0" "\<forall>i. ev i"
  shows "\<exists>y r' z. reactor_start create ev create' n m (x, r) = Ret (0, y, r')
    \<and> live_threads r' = live_threads r + n + m \<and> live_loops r' = live_loops r + m
    \<and> reactor_start create ev create' n m (y, r') = Ret (- 1, y, r')
    \<and> reactor_stop (y, r') = Ret (z, r) \<and> r_stop z \<and> cpu_idle (r_cpu z) \<and> poll_idle (r_poll z)
    \<and> reactor_stop (z, r) = Undefined"
proof (intro exI conjI)
  let ?r1 = "r\<lparr>live_threads := live_threads r + n, live_arrays := live_arrays r + 3\<rparr>"
  let ?r = "?r1\<lparr>live_threads := live_threads ?r1 + m, live_loops := live_loops ?r1 + m, live_arrays := live_arrays ?r1 + 5\<rparr>"
  let ?y = "\<lparr>r_stop = False, r_cpu = cpu_running n, r_poll = poll_running m\<rparr>"
  let ?z = "\<lparr>r_stop = True, r_cpu = \<lparr>h_threads = n, h_tids = None, h_args = None, c_queue = None\<rparr>,
    r_poll = \<lparr>h_threads = m, h_tids = None, h_args = None, p_queue = None, p_loop = None, p_async = None\<rparr>\<rparr>"
  have nm: "0 \<le> n" "0 \<le> m" using assms by auto
  show "reactor_start create ev create' n m (x, r) = Ret (0, ?y, ?r)"
    using assms(1) unfolding reactor_start_def by (simp add: cpu_started [OF assms(2) nm(1) assms(6)] poll_started [OF assms(3) nm(2) assms(7,8)])
  show "reactor_stop (?y, ?r) = Ret (?z, r)"
    unfolding reactor_stop_def by (simp add: cpu_stopped [OF nm(1)] poll_stopped [OF nm(2)])
  have "[0..n - 1] = 0 # [1..n - 1]" using assms(4) by (simp add: upto_rec1)
  then show "reactor_stop (?z, r) = Undefined"
    by (simp add: reactor_stop_def CpuHandler_stop_def cpu_base_def Handler_stop_def handler.defs join_thread_def)
qed (simp_all add: reactor_start_def cpu_idle_def poll_idle_def)

theorem reactor_life_witness:
  "\<exists>y r' z. reactor_start (\<lambda>_. 0) (\<lambda>_. True) (\<lambda>_. 0) 4 2 (reactor_new, \<lparr>live_threads = 1, live_loops = 0, live_arrays = 0\<rparr>) = Ret (0, y, r')
    \<and> live_threads r' = 7 \<and> reactor_stop (y, r') = Ret (z, \<lparr>live_threads = 1, live_loops = 0, live_arrays = 0\<rparr>)"
proof -
  have "r_stop reactor_new" "cpu_idle (r_cpu reactor_new)" "poll_idle (r_poll reactor_new)"
    by (simp_all add: reactor_new_def cpu_idle_def poll_idle_def CpuHandler_ctor_def PollHandler_ctor_def Handler_ctor_def handler.defs)
  from reactor_life [OF this, of 4 2 "\<lambda>_. 0" "\<lambda>_. 0" "\<lambda>_. True" "\<lparr>live_threads = 1, live_loops = 0, live_arrays = 0\<rparr>"]
  show ?thesis by auto
qed

end
