(* ===== verification/Fast_Memcpy.thy ===== *)
theory Fast_Memcpy
  imports Sperm_Prelude
begin

text \<open>
  \<^verbatim>\<open>common/fast_memcpy.h\<close>: the struct-copy template, the jump table of 256 labels and the
  dispatching copy routine, over memory regions with offsets. The routine is shown equal to
  \<^verbatim>\<open>memcpy\<close> on every size, including its out-of-bounds behaviour.
\<close>

text \<open>The library call \<^verbatim>\<open>memcpy(dst + doff, src + soff, n)\<close> on two disjoint regions.\<close>

definition c_memcpy :: "'a list \<Rightarrow> nat \<Rightarrow> 'a list \<Rightarrow> nat \<Rightarrow> nat \<Rightarrow> 'a list exec" where
  "c_memcpy dst doff src soff n =
     exec_bind (exec_of_option Undefined (mem_read src soff n)) (\<lambda>bs.
       exec_of_option Undefined (mem_write dst doff bs))"

text \<open>
  The template: \<^verbatim>\<open>*(X*)dst = *(const X*)src\<close> with \<^verbatim>\<open>struct X { uint8_t byte[N]; }\<close>. The implicit
  assignment operator assigns the members one by one: \<open>assign_bytes\<close> assigns the array elements
  in order, each access being undefined outside its region. The instance for 0 is empty.
\<close>

fun assign_bytes :: "nat \<Rightarrow> u8 list \<Rightarrow> nat \<Rightarrow> u8 list \<Rightarrow> nat \<Rightarrow> u8 list exec" where
  "assign_bytes 0 dst doff src soff = Ret dst"
| "assign_bytes (Suc n) dst doff src soff =
     (if soff < length src \<and> doff < length dst
      then assign_bytes n (dst[doff := src ! soff]) (Suc doff) src (Suc soff)
      else Undefined)"

definition fast_memcpy_tpl :: "nat \<Rightarrow> u8 list \<Rightarrow> nat \<Rightarrow> u8 list \<Rightarrow> nat \<Rightarrow> u8 list exec" where
  "fast_memcpy_tpl N dst doff src soff =
     (if N = 0 then Ret dst else assign_bytes N dst doff src soff)"

text \<open>The table of label addresses, entry by entry: \<open>i\<close> stands for \<^verbatim>\<open>&& B<i>\<close>.\<close>

definition fast_memcpy_addrs :: "nat list" where
  "fast_memcpy_addrs =
    [
     0, 1, 2, 3, 4, 5, 6, 7, 8, 9, 10, 11, 12, 13, 14, 15,
     16, 17, 18, 19, 20, 21, 22, 23, 24, 25, 26, 27, 28, 29, 30, 31,
     32, 33, 34, 35, 36, 37, 38, 39, 40, 41, 42, 43, 44, 45, 46, 47,
     48, 49, 50, 51, 52, 53, 54, 55, 56, 57, 58, 59, 60, 61, 62, 63,
     64, 65, 66, 67, 68, 69, 70, 71, 72, 73, 74, 75, 76, 77, 78, 79,
     80, 81, 82, 83, 84, 85, 86, 87, 88, 89, 90, 91, 92, 93, 94, 95,
     96, 97, 98, 99, 100, 101, 102, 103, 104, 105, 106, 107, 108, 109, 110, 111,
     112, 113, 114, 115, 116, 117, 118, 119, 120, 121, 122, 123, 124, 125, 126, 127,
     128, 129, 130, 131, 132, 133, 134, 135, 136, 137, 138, 139, 140, 141, 142, 143,
     144, 145, 146, 147, 148, 149, 150, 151, 152, 153, 154, 155, 156, 157, 158, 159,
     160, 161, 162, 163, 164, 165, 166, 167, 168, 169, 170, 171, 172, 173, 174, 175,
     176, 177, 178, 179, 180, 181, 182, 183, 184, 185, 186, 187, 188, 189, 190, 191,
     192, 193, 194, 195, 196, 197, 198, 199, 200, 201, 202, 203, 204, 205, 206, 207,
     208, 209, 210, 211, 212, 213, 214, 215, 216, 217, 218, 219, 220, 221, 222, 223,
     224, 225, 226, 227, 228, 229, 230, 231, 232, 233, 234, 235, 236, 237, 238, 239,
     240, 241, 242, 243, 244, 245, 246, 247, 248, 249, 250, 251, 252, 253, 254, 255
    ]"

text \<open>
  The labelled statements, in order: \<open>(l, N)\<close> stands for
  \<^verbatim>\<open>B<l>: return _fast_memcpy<N>(dst, src);\<close>. Each returns, so that none falls into the next one.
\<close>

definition fast_memcpy_labels :: "(nat \<times> nat) list" where
  "fast_memcpy_labels =
    [
     (0, 0), (1, 1), (2, 2), (3, 3), (4, 4), (5, 5), (6, 6), (7, 7),
     (8, 8), (9, 9), (10, 10), (11, 11), (12, 12), (13, 13), (14, 14), (15, 15),
     (16, 16), (17, 17), (18, 18), (19, 19), (20, 20), (21, 21), (22, 22), (23, 23),
     (24, 24), (25, 25), (26, 26), (27, 27), (28, 28), (29, 29), (30, 30), (31, 31),
     (32, 32), (33, 33), (34, 34), (35, 35), (36, 36), (37, 37), (38, 38), (39, 39),
     (40, 40), (41, 41), (42, 42), (43, 43), (44, 44), (45, 45), (46, 46), (47, 47),
     (48, 48), (49, 49), (50, 50), (51, 51), (52, 52), (53, 53), (54, 54), (55, 55),
     (56, 56), (57, 57), (58, 58), (59, 59), (60, 60), (61, 61), (62, 62), (63, 63),
     (64, 64), (65, 65), (66, 66), (67, 67), (68, 68), (69, 69), (70, 70), (71, 71),
     (72, 72), (73, 73), (74, 74), (75, 75), (76, 76), (77, 77), (78, 78), (79, 79),
     (80, 80), (81, 81), (82, 82), (83, 83), (84, 84), (85, 85), (86, 86), (87, 87),
     (88, 88), (89, 89), (90, 90), (91, 91), (92, 92), (93, 93), (94, 94), (95, 95),
     (96, 96), (97, 97), (98, 98), (99, 99), (100, 100), (101, 101), (102, 102), (103, 103),
     (104, 104), (105, 105), (106, 106), (107, 107), (108, 108), (109, 109), (110, 110), (111, 111),
     (112, 112), (113, 113), (114, 114), (115, 115), (116, 116), (117, 117), (118, 118), (119, 119),
     (120, 120), (121, 121), (122, 122), (123, 123), (124, 124), (125, 125), (126, 126), (127, 127),
     (128, 128), (129, 129), (130, 130), (131, 131), (132, 132), (133, 133), (134, 134), (135, 135),
     (136, 136), (137, 137), (138, 138), (139, 139), (140, 140), (141, 141), (142, 142), (143, 143),
     (144, 144), (145, 145), (146, 146), (147, 147), (148, 148), (149, 149), (150, 150), (151, 151),
     (152, 152), (153, 153), (154, 154), (155, 155), (156, 156), (157, 157), (158, 158), (159, 159),
     (160, 160), (161, 161), (162, 162), (163, 163), (164, 164), (165, 165), (166, 166), (167, 167),
     (168, 168), (169, 169), (170, 170), (171, 171), (172, 172), (173, 173), (174, 174), (175, 175),
     (176, 176), (177, 177), (178, 178), (179, 179), (180, 180), (181, 181), (182, 182), (183, 183),
     (184, 184), (185, 185), (186, 186), (187, 187), (188, 188), (189, 189), (190, 190), (191, 191),
     (192, 192), (193, 193), (194, 194), (195, 195), (196, 196), (197, 197), (198, 198), (199, 199),
     (200, 200), (201, 201), (202, 202), (203, 203), (204, 204), (205, 205), (206, 206), (207, 207),
     (208, 208), (209, 209), (210, 210), (211, 211), (212, 212), (213, 213), (214, 214), (215, 215),
     (216, 216), (217, 217), (218, 218), (219, 219), (220, 220), (221, 221), (222, 222), (223, 223),
     (224, 224), (225, 225), (226, 226), (227, 227), (228, 228), (229, 229), (230, 230), (231, 231),
     (232, 232), (233, 233), (234, 234), (235, 235), (236, 236), (237, 237), (238, 238), (239, 239),
     (240, 240), (241, 241), (242, 242), (243, 243), (244, 244), (245, 245), (246, 246), (247, 247),
     (248, 248), (249, 249), (250, 250), (251, 251), (252, 252), (253, 253), (254, 254), (255, 255)
    ]"

text \<open>The jump \<^verbatim>\<open>goto* addrs[size]\<close>: undefined outside the table or at an address that is no label.\<close>

definition fast_memcpy_label :: "nat \<Rightarrow> u8 list \<Rightarrow> u8 list \<Rightarrow> u8 list exec" where
  "fast_memcpy_label l dst src =
     (case map_of fast_memcpy_labels l of
        Some N \<Rightarrow> fast_memcpy_tpl N dst 0 src 0
      | None \<Rightarrow> Undefined)"

definition fast_memcpy :: "u8 list \<Rightarrow> u8 list \<Rightarrow> u64 \<Rightarrow> u8 list exec" where
  "fast_memcpy dst src sz =
     (if sz \<le> 255
      then (if unat sz < length fast_memcpy_addrs
            then fast_memcpy_label (fast_memcpy_addrs ! unat sz) dst src
            else Undefined)
      else c_memcpy dst 0 src 0 (unat sz))"

lemma c_memcpy_Ret [mem_simps]:
  "c_memcpy dst doff src soff n = Ret dst' \<longleftrightarrow>
     soff + n \<le> length src \<and> doff + n \<le> length dst \<and>
     dst' = take doff dst @ take n (drop soff src) @ drop (doff + n) dst"
proof (cases "soff + n \<le> length src")
  case True
  then have "min (length src - soff) n = n" by simp
  with True show ?thesis
    by (auto simp: c_memcpy_def mem_read_def mem_write_def exec_simps)
qed (simp add: c_memcpy_def mem_read_def)

text \<open>The assignment of the struct, element by element, against the reading of the whole range.\<close>

lemma assign_bytes_in_bounds:
  assumes "soff + n \<le> length src" "doff + n \<le> length dst"
  shows "assign_bytes n dst doff src soff =
     Ret (take doff dst @ take n (drop soff src) @ drop (doff + n) dst)"
  using assms
proof (induction n arbitrary: dst doff soff)
  case (Suc n)
  then have "drop soff src = src ! soff # drop (Suc soff) src"
    by (simp add: Cons_nth_drop_Suc)
  with Suc show ?case
    by (simp add: take_Suc_conv_app_nth)
qed simp

lemma assign_bytes_out_of_bounds:
  "0 < n \<Longrightarrow> \<not> (soff + n \<le> length src \<and> doff + n \<le> length dst) \<Longrightarrow>
   assign_bytes n dst doff src soff = Undefined"
proof (induction n arbitrary: dst doff soff)
  case (Suc n)
  show ?case
  proof (cases "n = 0")
    case False
    with Suc.prems show ?thesis
      by (auto intro!: Suc.IH)
  qed (use Suc.prems in auto)
qed simp

lemma fast_memcpy_tpl_in_bounds:
  assumes "soff + N \<le> length src" "doff + N \<le> length dst"
  shows "fast_memcpy_tpl N dst doff src soff =
     Ret (take doff dst @ take N (drop soff src) @ drop (doff + N) dst)"
  using assms by (simp add: fast_memcpy_tpl_def assign_bytes_in_bounds)

lemma fast_memcpy_tpl_out_of_bounds:
  "0 < N \<Longrightarrow> \<not> (soff + N \<le> length src \<and> doff + N \<le> length dst) \<Longrightarrow>
   fast_memcpy_tpl N dst doff src soff = Undefined"
  by (simp add: fast_memcpy_tpl_def assign_bytes_out_of_bounds)

lemma fast_memcpy_tpl_src_short:
  "0 < N \<Longrightarrow> length src < soff + N \<Longrightarrow> fast_memcpy_tpl N dst doff src soff = Undefined"
  by (simp add: fast_memcpy_tpl_out_of_bounds)

lemma c_memcpy_out_of_bounds:
  "\<not> (soff + n \<le> length src \<and> doff + n \<le> length dst) \<Longrightarrow>
   c_memcpy dst doff src soff n = Undefined"
  by (auto simp: c_memcpy_def mem_read_def mem_write_def)

lemma fast_memcpy_tpl_memcpy:
  "fast_memcpy_tpl N dst 0 src 0 = c_memcpy dst 0 src 0 N"
proof (cases "0 + N \<le> length src \<and> 0 + N \<le> length dst")
  case True
  then have "c_memcpy dst 0 src 0 N = Ret (take 0 dst @ take N (drop 0 src) @ drop (0 + N) dst)"
    by (simp only: c_memcpy_Ret simp_thms)
  with True show ?thesis by (simp add: fast_memcpy_tpl_in_bounds)
next
  case False
  then show ?thesis
    by (cases "N = 0") (simp_all add: fast_memcpy_tpl_out_of_bounds c_memcpy_out_of_bounds)
qed

text \<open>Both tables, entry by entry: entry \<open>i\<close> is the label \<open>i\<close>, which copies \<open>i\<close> bytes.\<close>

lemma fast_memcpy_addrs_upt: "fast_memcpy_addrs = [0..<256]"
  by code_simp

lemma fast_memcpy_labels_upt: "fast_memcpy_labels = map (\<lambda>l. (l, l)) [0..<256]"
  by code_simp

lemma fast_memcpy_label_memcpy:
  assumes "l < 256"
  shows "fast_memcpy_label l dst src = c_memcpy dst 0 src 0 l"
proof -
  from assms have "map_of fast_memcpy_labels l = Some l"
    unfolding fast_memcpy_labels_upt by (simp add: map_of_map_restrict)
  then show ?thesis
    by (simp add: fast_memcpy_label_def fast_memcpy_tpl_memcpy)
qed

text \<open>
  C30. \<open>fast_memcpy\<close> is \<^verbatim>\<open>memcpy\<close>: for every size the entry of the jump table, the statement at
  its label and the member-wise struct assignment, or else the fallback, copy exactly \<open>sz\<close> bytes
  and leave the rest of the destination alone, and they leave a region exactly when \<^verbatim>\<open>memcpy\<close>
  does.
\<close>

theorem fast_memcpy_is_memcpy: "fast_memcpy dst src sz = c_memcpy dst 0 src 0 (unat sz)"
proof (cases "sz \<le> 255")
  case True
  then have "unat sz < 256" by (simp add: word_le_nat_alt)
  with True show ?thesis
    by (simp add: fast_memcpy_def fast_memcpy_addrs_upt fast_memcpy_label_memcpy)
qed (simp add: fast_memcpy_def)

end
