(* ===== verification/Byte_Array.thy ===== *)
theory Byte_Array
  imports Fast_Memcpy
begin

text \<open>
  \<^verbatim>\<open>common/byte_array.h\<close> and \<^verbatim>\<open>common/byte_array.cc\<close>: the read cursor, the growing write
  buffer with its inline small buffer, and the wrapper over \<^verbatim>\<open>std::string\<close>. Sizes are
  64-bit words that wrap around. The C allocator is a parameter: \<open>mal i n\<close> says whether the
  \<open>i\<close>-th allocator call of the buffer, for \<open>n\<close> bytes, succeeds.
\<close>

section \<open>ReadableByteArray\<close>

record reader =
  rd_bytes :: "u8 list" \<comment> \<open>the memory behind \<^verbatim>\<open>bytes_\<close>\<close>
  rd_size :: u64
  rd_cur :: u64

definition mk_reader :: "u8 list \<Rightarrow> u64 \<Rightarrow> reader" where
  "mk_reader bytes sz = \<lparr>rd_bytes = bytes, rd_size = sz, rd_cur = 0\<rparr>"

text \<open>\<open>dst\<close> says whether the caller passes a destination; the bytes copied are returned.\<close>

definition reader_read :: "bool \<Rightarrow> u64 \<Rightarrow> reader \<Rightarrow> (bool \<times> u8 list \<times> reader) exec" where
  "reader_read dst sz r =
     (if rd_cur r + sz > rd_size r then Ret (False, [], r)
      else exec_bind
        (if dst then exec_of_option Undefined (mem_read (rd_bytes r) (unat (rd_cur r)) (unat sz))
         else Ret [])
        (\<lambda>bs. Ret (True, bs, r\<lparr>rd_cur := rd_cur r + sz\<rparr>)))"

definition reader_remain :: "reader \<Rightarrow> u8 list \<times> u64" where
  "reader_remain r = (drop (unat (rd_cur r)) (rd_bytes r), rd_size r - rd_cur r)"

definition reader_data :: "reader \<Rightarrow> u8 list \<times> u64" where
  "reader_data r = (rd_bytes r, rd_size r)"

section \<open>WriteableByteArray\<close>

text \<open>
  \<^verbatim>\<open>bytes_\<close> is null, points to the inline array \<^verbatim>\<open>small_\<close> or to a block of the heap. A cell
  that was allocated and not yet written is \<open>None\<close>.
\<close>

datatype bufptr = NullP | SmallP | HeapP

record writer =
  wb_user_free :: bool
  wb_bytes :: bufptr
  wb_size :: u64
  wb_cur :: u64
  wb_small :: "u8 option list"
  wb_heap :: "u8 option list"
  wb_calls :: nat \<comment> \<open>allocator calls made so far\<close>

definition kSmallBufferSize :: u64 where
  "kSmallBufferSize = 128"

definition mk_writer :: "bool \<Rightarrow> writer" where
  "mk_writer user_free =
     \<lparr>wb_user_free = user_free,
      wb_bytes = (if user_free then NullP else SmallP),
      wb_size = (if user_free then 0 else kSmallBufferSize),
      wb_cur = 0,
      wb_small = replicate (unat kSmallBufferSize) None,
      wb_heap = [],
      wb_calls = 0\<rparr>"

text \<open>The destructor frees the block unless the user took it over or there is none.\<close>

definition writer_dtor_frees :: "writer \<Rightarrow> bool" where
  "writer_dtor_frees w = (\<not> wb_user_free w \<and> wb_bytes w \<noteq> SmallP)"

text \<open>
  The address \<^verbatim>\<open>bytes_ + cur_\<close>: an offset into the buffer, null, or a wild pointer (null
  plus a non-zero offset).
\<close>

datatype addr = Null_addr | Buf_addr nat | Wild_addr

definition writer_cells :: "writer \<Rightarrow> u8 option list" where
  "writer_cells w = (case wb_bytes w of NullP \<Rightarrow> [] | SmallP \<Rightarrow> wb_small w | HeapP \<Rightarrow> wb_heap w)"

definition writer_addr :: "writer \<Rightarrow> addr" where
  "writer_addr w =
     (if wb_bytes w = NullP then (if wb_cur w = 0 then Null_addr else Wild_addr)
      else Buf_addr (unat (wb_cur w)))"

text \<open>The doubling loop; \<open>None\<close> when it never leaves.\<close>

definition grow_size :: "u64 \<Rightarrow> u64 \<Rightarrow> u64 option" where
  "grow_size need start = while_option (\<lambda>n. need > n) (\<lambda>n. n * 2) start"

text \<open>A block of \<open>n\<close> cells that starts with the old cells, as \<^verbatim>\<open>realloc\<close> leaves it.\<close>

definition c_realloc :: "'a option list \<Rightarrow> nat \<Rightarrow> 'a option list" where
  "c_realloc old n = take n old @ replicate (n - length old) None"

text \<open>The memory that \<^verbatim>\<open>malloc\<close> and \<^verbatim>\<open>memcpy\<close>, or \<^verbatim>\<open>realloc\<close>, hand back on success.\<close>

definition grown_cells :: "writer \<Rightarrow> nat \<Rightarrow> u8 option list exec" where
  "grown_cells w n =
     (case wb_bytes w of
        SmallP \<Rightarrow> c_memcpy (replicate n None) 0 (wb_small w) 0 (unat (wb_cur w))
      | HeapP \<Rightarrow> Ret (c_realloc (wb_heap w) n)
      | NullP \<Rightarrow> Ret (c_realloc [] n))"

definition writer_allocate ::
    "(nat \<Rightarrow> u64 \<Rightarrow> bool) \<Rightarrow> u64 \<Rightarrow> writer \<Rightarrow> (addr \<times> writer) exec" where
  "writer_allocate mal sz w =
     (if wb_cur w + sz > wb_size w then
        (let size1 = (if wb_size w = 0 then kSmallBufferSize else wb_size w);
             w1 = w\<lparr>wb_size := size1, wb_calls := Suc (wb_calls w)\<rparr>
         in exec_bind (exec_of_option Diverge (grow_size (wb_cur w + sz) (size1 * 2))) (\<lambda>next_size.
              if \<not> mal (wb_calls w) next_size then Ret (Null_addr, w1)
              else exec_bind (grown_cells w (unat next_size)) (\<lambda>tmp.
                let w2 = w1\<lparr>wb_bytes := HeapP, wb_heap := tmp, wb_size := next_size\<rparr>
                in Ret (writer_addr w2, w2\<lparr>wb_cur := wb_cur w + sz\<rparr>))))
      else Ret (writer_addr w, w\<lparr>wb_cur := wb_cur w + sz\<rparr>))"

text \<open>Storing bytes through an address that \<open>writer_allocate\<close> returned.\<close>

definition writer_store :: "nat \<Rightarrow> u8 list \<Rightarrow> writer \<Rightarrow> writer exec" where
  "writer_store off bs w =
     exec_bind (exec_of_option Undefined (mem_write (writer_cells w) off (map Some bs))) (\<lambda>m.
       Ret (case wb_bytes w of
              HeapP \<Rightarrow> w\<lparr>wb_heap := m\<rparr> | SmallP \<Rightarrow> w\<lparr>wb_small := m\<rparr> | NullP \<Rightarrow> w))"

definition writer_write ::
    "(nat \<Rightarrow> u64 \<Rightarrow> bool) \<Rightarrow> u8 list \<Rightarrow> writer \<Rightarrow> (bool \<times> writer) exec" where
  "writer_write mal bs w =
     exec_bind (writer_allocate mal (of_nat (length bs)) w) (\<lambda>(a, w1).
       case a of
         Null_addr \<Rightarrow> Ret (False, w1)
       | Wild_addr \<Rightarrow> Undefined
       | Buf_addr off \<Rightarrow> exec_bind (writer_store off bs w1) (\<lambda>w2. Ret (True, w2)))"

definition writer_data :: "writer \<Rightarrow> u8 option list \<times> u64" where
  "writer_data w = (writer_cells w, wb_cur w)"

section \<open>STLStringByteArray\<close>

text \<open>
  The string, and the read cursor whose \<^verbatim>\<open>bytes_\<close> was taken when the object was built. The
  parameter \<open>cap\<close> is the largest length the string can reach; beyond it the library throws.
\<close>

record stl_array =
  stl_s :: "u8 list"
  stl_rd :: reader

definition mk_stl_array :: "u8 list \<Rightarrow> stl_array" where
  "mk_stl_array s = \<lparr>stl_s = s, stl_rd = mk_reader s (of_nat (length s))\<rparr>"

definition stl_read :: "bool \<Rightarrow> u64 \<Rightarrow> stl_array \<Rightarrow> (bool \<times> u8 list \<times> stl_array) exec" where
  "stl_read dst sz a =
     exec_bind (reader_read dst sz (stl_rd a)) (\<lambda>(ok, bs, r). Ret (ok, bs, a\<lparr>stl_rd := r\<rparr>))"

definition stl_write :: "nat \<Rightarrow> u8 list \<Rightarrow> stl_array \<Rightarrow> (bool \<times> stl_array) exec" where
  "stl_write cap bs a =
     (if length (stl_s a) + length bs > cap then Fatal
      else Ret (True, a\<lparr>stl_s := stl_s a @ bs\<rparr>))"

definition stl_data :: "stl_array \<Rightarrow> u8 list \<times> u64" where
  "stl_data a = (stl_s a, of_nat (length (stl_s a)))"

definition stl_remain :: "stl_array \<Rightarrow> u8 list \<times> u64" where
  "stl_remain a = reader_remain (stl_rd a)"

text \<open>\<^verbatim>\<open>string_as_array\<close> is null exactly on the empty string.\<close>

definition stl_allocate :: "nat \<Rightarrow> u64 \<Rightarrow> stl_array \<Rightarrow> (addr \<times> stl_array) exec" where
  "stl_allocate cap sz a =
     (let old_size = length (stl_s a); new_size = unat (of_nat old_size + sz)
      in if new_size > cap then Fatal
         else Ret (if new_size = 0 then (if old_size = 0 then Null_addr else Wild_addr)
                   else Buf_addr old_size,
                   a\<lparr>stl_s := take new_size (stl_s a) @ replicate (new_size - old_size) 0\<rparr>))"

section \<open>Invariants\<close>

definition reader_inv :: "reader \<Rightarrow> bool" where
  "reader_inv r \<longleftrightarrow> rd_cur r \<le> rd_size r \<and> length (rd_bytes r) = unat (rd_size r)"

definition writer_inv :: "writer \<Rightarrow> bool" where
  "writer_inv w \<longleftrightarrow> wb_cur w \<le> wb_size w \<and>
     (case wb_bytes w of
        NullP \<Rightarrow> wb_user_free w \<and> wb_size w = 0
      | SmallP \<Rightarrow> \<not> wb_user_free w \<and> wb_size w = kSmallBufferSize \<and>
                  length (wb_small w) = unat kSmallBufferSize
      | HeapP \<Rightarrow> length (wb_heap w) = unat (wb_size w) \<and>
                 (\<exists>j\<in>{7..63}. wb_size w = 2 ^ j))"

text \<open>What a client sees: the bytes written so far.\<close>

definition writer_holds :: "writer \<Rightarrow> u8 list \<Rightarrow> bool" where
  "writer_holds w bs \<longleftrightarrow> take (unat (wb_cur w)) (writer_cells w) = map Some bs"

section \<open>Lemmas on the growth loop\<close>

lemma grow_size_pow2:
  assumes "unat need \<le> 2 ^ 63" "j \<le> 63"
  shows "\<exists>i\<in>{j..63}. grow_size need (2 ^ j) = Some (2 ^ i) \<and> need \<le> 2 ^ i"
  using assms(2)
proof (induction "63 - j" arbitrary: j rule: less_induct)
  case less
  show ?case
  proof (cases "need > 2 ^ j")
    case True
    then have "unat need > 2 ^ j" using less.prems by (simp add: word_less_nat_alt unat_pow2)
    with assms(1) have "(2::nat) ^ j < 2 ^ 63" by linarith
    then have "j < 63" by (rule power_less_imp_less_exp [rotated]) simp
    then have "63 - Suc j < 63 - j" "Suc j \<le> 63" by simp_all
    from less.hyps [OF this] obtain i where i: "i \<in> {Suc j..63}"
        "grow_size need (2 ^ Suc j) = Some (2 ^ i)" "need \<le> 2 ^ i"
      by blast
    have "grow_size need (2 ^ j) = grow_size need (2 ^ Suc j)"
      using True unfolding grow_size_def
      by (subst while_option_unfold) (simp add: mult.commute)
    with i show ?thesis by auto
  next
    case False
    then have "grow_size need (2 ^ j) = Some (2 ^ j)"
      unfolding grow_size_def by (subst while_option_unfold) simp
    with False less.prems show ?thesis by auto
  qed
qed

text \<open>Beyond \<open>2 ^ 63\<close> the doubling passes through 0 and never reaches the request.\<close>

lemma grow_size_diverges:
  assumes "unat need > 2 ^ 63" "j \<le> 64"
  shows "grow_size need (2 ^ j) = None"
proof (rule ccontr)
  assume "grow_size need (2 ^ j) \<noteq> None"
  then obtain t where t: "while_option (\<lambda>n. need > n) (\<lambda>n. n * 2) (2 ^ j) = Some t"
    by (auto simp: grow_size_def)
  let ?P = "\<lambda>n::u64. unat n \<le> 2 ^ 63 \<and> (\<exists>i\<le>64. n = 2 ^ i)"
  have "?P t"
  proof (rule while_option_rule [OF _ t])
    have "unat (2 ^ j :: u64) \<le> 2 ^ 63"
      using assms(2) unat_pow2 [of j, where 'a = 64] power_increasing [of j 63 "2::nat"]
      by (cases "j = 64") auto
    with assms(2) show "?P (2 ^ j)" by auto
  next
    fix n assume "?P n"
    then obtain i where i: "i \<le> 64" "n = 2 ^ i" by auto
    show "?P (n * 2)"
    proof (cases "i \<ge> 63")
      case True
      with i(1) have "i = 63 \<or> i = 64" by auto
      then have "n * 2 = 2 ^ 64" using i(2) by auto
      then show ?thesis by auto
    next
      case False
      then have "n * 2 = 2 ^ Suc i" "Suc i < 64" using i by auto
      then show ?thesis
        using unat_pow2 [of "Suc i", where 'a = 64] power_increasing [of "Suc i" 63 "2::nat"]
        by (auto simp del: power_Suc intro!: exI [of _ "Suc i"])
    qed
  qed
  moreover have "\<not> need > t" using while_option_stop [OF t] .
  ultimately show False using assms(1) by (auto simp: word_less_nat_alt)
qed


section \<open>Lemmas on the write buffer\<close>

lemma mk_writer_inv: "writer_inv (mk_writer uf)"
  by (simp add: mk_writer_def writer_inv_def)

lemma mk_writer_holds: "writer_holds (mk_writer uf) []"
  by (simp add: mk_writer_def writer_holds_def)

lemma writer_inv_cells:
  "writer_inv w \<Longrightarrow> length (writer_cells w) = unat (wb_size w) \<and> wb_cur w \<le> wb_size w"
  by (auto simp: writer_inv_def writer_cells_def split: bufptr.splits)

lemma writer_holds_length: "writer_inv w \<Longrightarrow> writer_holds w bs \<Longrightarrow> length bs = unat (wb_cur w)"
  using writer_inv_cells [of w] unfolding writer_holds_def
  by (metis length_map length_take min.absorb2 word_le_nat_alt)

text \<open>The block after growth: as long as requested, and the old cells are kept.\<close>

lemma grown_cells_ok:
  assumes "writer_inv w" "unat (wb_size w) \<le> n"
  shows "\<exists>tmp. grown_cells w n = Ret tmp \<and> length tmp = n \<and>
     take (unat (wb_cur w)) tmp = take (unat (wb_cur w)) (writer_cells w)"
proof (cases "wb_bytes w")
  case SmallP
  then have "unat (wb_cur w) \<le> length (wb_small w)" "unat (wb_cur w) \<le> n"
    using assms by (auto simp: writer_inv_def word_le_nat_alt)
  then show ?thesis using SmallP
    by (auto simp: grown_cells_def c_memcpy_def mem_read_def mem_write_def writer_cells_def)
next
  case NullP
  then have "wb_cur w = 0" using assms by (auto simp: writer_inv_def)
  with NullP show ?thesis by (simp add: grown_cells_def c_realloc_def)
next
  case HeapP
  then show ?thesis
    using assms writer_inv_cells [OF assms(1)]
    by (simp add: grown_cells_def c_realloc_def writer_cells_def word_le_nat_alt)
qed

lemma writer_size_pow2:
  assumes "writer_inv w"
  shows "\<exists>j\<in>{7..63}. (wb_size w = 0 \<longrightarrow> j = 7) \<and>
     (if wb_size w = 0 then kSmallBufferSize else wb_size w) = 2 ^ j"
proof -
  have k: "kSmallBufferSize = 2 ^ 7" "kSmallBufferSize \<noteq> 0" by (simp_all add: kSmallBufferSize_def)
  show ?thesis
  proof (cases "wb_bytes w")
    case HeapP
    with assms obtain j where "j \<in> {7..63}" "wb_size w = 2 ^ j" by (auto simp: writer_inv_def)
    then show ?thesis by (intro bexI [of _ j]) auto
  qed (use assms k in \<open>auto simp: writer_inv_def intro!: bexI [of _ 7]\<close>)
qed

text \<open>The next size chosen by the loop, for a request that fits below \<open>2 ^ 63\<close>.\<close>

lemma writer_next_size:
  assumes "writer_inv w" "unat (wb_cur w + sz) \<le> 2 ^ 63" "wb_cur w + sz > wb_size w"
  shows "\<exists>i\<in>{7..63}. grow_size (wb_cur w + sz)
      ((if wb_size w = 0 then kSmallBufferSize else wb_size w) * 2) = Some (2 ^ i) \<and>
    wb_cur w + sz \<le> 2 ^ i \<and> wb_size w \<le> 2 ^ i"
proof -
  note need = assms(2)
  obtain j where j: "j \<in> {7..63}" "wb_size w = 0 \<longrightarrow> j = 7"
      "(if wb_size w = 0 then kSmallBufferSize else wb_size w) = 2 ^ j"
    using writer_size_pow2 [OF assms(1)] by blast
  have "j < 63"
  proof (cases "wb_size w = 0")
    case True
    with j show ?thesis by simp
  next
    case False
    with j assms(3) have "2 ^ j < unat (wb_cur w + sz)" by (simp add: word_less_nat_alt unat_pow2)
    with need have "(2::nat) ^ j < 2 ^ 63" by linarith
    then show ?thesis by (rule power_less_imp_less_exp [rotated]) simp
  qed
  then obtain i where "i \<in> {Suc j..63}" "grow_size (wb_cur w + sz) (2 ^ Suc j) = Some (2 ^ i)"
      "wb_cur w + sz \<le> 2 ^ i"
    using grow_size_pow2 [OF need, of "Suc j"] by auto
  then show ?thesis using j assms(3) by (auto simp: mult.commute intro!: bexI [of _ i])
qed

lemma writer_allocate_grows:
  assumes "writer_inv w" "unat (wb_cur w + sz) \<le> 2 ^ 63" "wb_cur w + sz > wb_size w"
  shows "\<exists>i tmp. i \<in> {7..63} \<and> length tmp = 2 ^ i \<and> wb_cur w + sz \<le> 2 ^ i \<and>
     take (unat (wb_cur w)) tmp = take (unat (wb_cur w)) (writer_cells w) \<and>
     writer_allocate mal sz w =
       (if mal (wb_calls w) (2 ^ i)
        then Ret (Buf_addr (unat (wb_cur w)),
          w\<lparr>wb_calls := Suc (wb_calls w), wb_bytes := HeapP, wb_heap := tmp,
            wb_size := 2 ^ i, wb_cur := wb_cur w + sz\<rparr>)
        else Ret (Null_addr,
          w\<lparr>wb_calls := Suc (wb_calls w),
            wb_size := (if wb_size w = 0 then kSmallBufferSize else wb_size w)\<rparr>))"
proof -
  obtain i where i: "i \<in> {7..63}" "wb_cur w + sz \<le> 2 ^ i" "wb_size w \<le> 2 ^ i"
    and g: "grow_size (wb_cur w + sz)
      ((if wb_size w = 0 then kSmallBufferSize else wb_size w) * 2) = Some (2 ^ i)"
    using writer_next_size [OF assms] by blast
  have u: "unat (2 ^ i :: u64) = 2 ^ i" using i(1) by (simp add: unat_pow2)
  with i(3) have "unat (wb_size w) \<le> 2 ^ i" by (simp add: word_le_nat_alt)
  then obtain tmp where t: "grown_cells w (2 ^ i) = Ret tmp" "length tmp = 2 ^ i"
      "take (unat (wb_cur w)) tmp = take (unat (wb_cur w)) (writer_cells w)"
    using grown_cells_ok [OF assms(1)] by blast
  have "writer_allocate mal sz w =
       (if mal (wb_calls w) (2 ^ i)
        then Ret (Buf_addr (unat (wb_cur w)),
          w\<lparr>wb_calls := Suc (wb_calls w), wb_bytes := HeapP, wb_heap := tmp,
            wb_size := 2 ^ i, wb_cur := wb_cur w + sz\<rparr>)
        else Ret (Null_addr,
          w\<lparr>wb_calls := Suc (wb_calls w),
            wb_size := (if wb_size w = 0 then kSmallBufferSize else wb_size w)\<rparr>))"
    using assms(3) g t(1) u
    by (simp add: writer_allocate_def Let_def writer_addr_def)
  with i t show ?thesis by blast
qed

lemma writer_allocate_ok:
  assumes inv: "writer_inv w" and fits: "unat (wb_cur w) + unat sz \<le> 2 ^ 63"
    and mal: "\<And>n. mal (wb_calls w) n" and addr: "wb_bytes w \<noteq> NullP \<or> sz \<noteq> 0"
  shows "\<exists>w'. writer_allocate mal sz w = Ret (Buf_addr (unat (wb_cur w)), w') \<and> writer_inv w' \<and>
     wb_cur w' = wb_cur w + sz \<and> wb_bytes w' \<noteq> NullP \<and>
     take (unat (wb_cur w)) (writer_cells w') = take (unat (wb_cur w)) (writer_cells w)"
proof (cases "wb_cur w + sz > wb_size w")
  case True
  have "unat (wb_cur w + sz) \<le> 2 ^ 63" using fits by (simp add: unat_add_no_wrap)
  from writer_allocate_grows [OF inv this True, of mal] mal
  obtain i tmp where "i \<in> {7..63}" "length tmp = 2 ^ i" "wb_cur w + sz \<le> 2 ^ i"
      "take (unat (wb_cur w)) tmp = take (unat (wb_cur w)) (writer_cells w)"
    and a: "writer_allocate mal sz w = Ret (Buf_addr (unat (wb_cur w)),
          w\<lparr>wb_calls := Suc (wb_calls w), wb_bytes := HeapP, wb_heap := tmp,
            wb_size := 2 ^ i, wb_cur := wb_cur w + sz\<rparr>)"
    by auto
  then show ?thesis by (auto simp: writer_inv_def writer_cells_def unat_pow2)
next
  case False
  have "wb_bytes w \<noteq> NullP"
  proof
    assume "wb_bytes w = NullP"
    with inv have "wb_size w = 0" "wb_cur w = 0" by (auto simp: writer_inv_def)
    with False addr \<open>wb_bytes w = NullP\<close> show False by (simp add: word_gt_0)
  qed
  with False inv show ?thesis
    by (auto simp: writer_allocate_def writer_addr_def writer_inv_def writer_cells_def
        split: bufptr.splits)
qed

lemma writer_store_ok:
  assumes "writer_inv w" "wb_bytes w \<noteq> NullP" "off + length bs \<le> unat (wb_size w)"
  shows "\<exists>w'. writer_store off bs w = Ret w' \<and> writer_inv w' \<and> wb_cur w' = wb_cur w \<and>
     wb_bytes w' = wb_bytes w \<and>
     take (off + length bs) (writer_cells w') = take off (writer_cells w) @ map Some bs"
proof -
  obtain m where m: "mem_write (writer_cells w) off (map Some bs) = Some m"
    using assms(3) writer_inv_cells [OF assms(1)] by (auto simp: mem_write_def)
  then have "length m = length (writer_cells w)"
    "take (off + length bs) m = take off (writer_cells w) @ map Some bs"
    using length_mem_write [OF m] take_mem_write [OF m] by simp_all
  with m assms show ?thesis
    by (cases "wb_bytes w") (auto simp: writer_store_def writer_cells_def writer_inv_def)
qed

lemma writer_write_ok:
  assumes inv: "writer_inv w" and holds: "writer_holds w bs"
    and fits: "length bs + length xs \<le> 2 ^ 63"
    and mal: "\<And>n. mal (wb_calls w) n" and ne: "bs \<noteq> [] \<or> xs \<noteq> []"
  shows "\<exists>w'. writer_write mal xs w = Ret (True, w') \<and> writer_inv w' \<and> writer_holds w' (bs @ xs)"
proof -
  have len: "length bs = unat (wb_cur w)" by (rule writer_holds_length [OF inv holds])
  have u: "unat (of_nat (length xs) :: u64) = length xs"
    using fits by (simp add: unat_of_nat)
  have addr: "wb_bytes w \<noteq> NullP \<or> of_nat (length xs) \<noteq> (0::u64)"
  proof (cases "bs = []")
    case True
    with ne have "length xs \<noteq> 0" by simp
    with u show ?thesis by (metis unat_0)
  next
    case False
    then show ?thesis using len inv by (auto simp: writer_inv_def)
  qed
  have "unat (wb_cur w) + unat (of_nat (length xs) :: u64) \<le> 2 ^ 63" using fits len u by simp
  from writer_allocate_ok [where mal = mal, OF inv this mal addr] obtain w1 where w1: "writer_allocate mal (of_nat (length xs)) w = Ret (Buf_addr (unat (wb_cur w)), w1)"
      "writer_inv w1" "wb_cur w1 = wb_cur w + of_nat (length xs)" "wb_bytes w1 \<noteq> NullP"
      "take (unat (wb_cur w)) (writer_cells w1) = take (unat (wb_cur w)) (writer_cells w)"
    by blast
  have cur: "unat (wb_cur w1) = unat (wb_cur w) + length xs"
    using w1(3) fits len u by (simp add: unat_add_no_wrap)
  then have "unat (wb_cur w) + length xs \<le> unat (wb_size w1)"
    using writer_inv_cells [OF w1(2)] by (simp add: word_le_nat_alt)
  from writer_store_ok [OF w1(2,4) this] obtain w2 where
      "writer_store (unat (wb_cur w)) xs w1 = Ret w2" "writer_inv w2" "wb_cur w2 = wb_cur w1"
      "take (unat (wb_cur w) + length xs) (writer_cells w2) =
         take (unat (wb_cur w)) (writer_cells w1) @ map Some xs"
    by blast
  then show ?thesis using w1 cur holds by (simp add: writer_write_def writer_holds_def)
qed

section \<open>The sink interface\<close>

text \<open>
  What the serialisers rely on: writing appends. \<open>room\<close> bounds the total length. The law is
  stated for a write that leaves the sink non-empty, since a buffer without storage answers
  an empty write with a null address, which \<^verbatim>\<open>write\<close> reports as a failure.
\<close>

locale byte_sink =
  fixes wr :: "u8 list \<Rightarrow> 'w \<Rightarrow> (bool \<times> 'w) exec"
    and sink_inv :: "'w \<Rightarrow> bool"
    and holds :: "'w \<Rightarrow> u8 list \<Rightarrow> bool"
    and room :: nat
  assumes sink_write:
    "sink_inv w \<Longrightarrow> holds w bs \<Longrightarrow> bs \<noteq> [] \<or> xs \<noteq> [] \<Longrightarrow> length bs + length xs \<le> room \<Longrightarrow>
     \<exists>w'. wr xs w = Ret (True, w') \<and> sink_inv w' \<and> holds w' (bs @ xs)"
begin

lemma sink_write2:
  assumes "sink_inv w" "holds w bs" "xs \<noteq> []" "length bs + length xs + length ys \<le> room"
  shows "\<exists>w' w''. wr xs w = Ret (True, w') \<and> sink_inv w' \<and> holds w' (bs @ xs) \<and>
     wr ys w' = Ret (True, w'') \<and> sink_inv w'' \<and> holds w'' (bs @ xs @ ys)"
proof -
  obtain w' where w': "wr xs w = Ret (True, w')" "sink_inv w'" "holds w' (bs @ xs)"
    using sink_write [of w bs xs] assms by auto
  obtain w'' where "wr ys w' = Ret (True, w'')" "sink_inv w''" "holds w'' ((bs @ xs) @ ys)"
    using sink_write [OF w'(2,3), of ys] assms by auto
  with w' show ?thesis by auto
qed

end

interpretation wba: byte_sink "writer_write (\<lambda>_ _. True)" writer_inv writer_holds "2 ^ 63"
  by unfold_locales (rule writer_write_ok, auto)

interpretation stl: byte_sink "stl_write cap" "\<lambda>_. True" "\<lambda>a bs. stl_s a = bs" cap for cap
  by unfold_locales (auto simp: stl_write_def)

section \<open>Properties\<close>

lemma mk_reader_inv: "length bs < 2 ^ 64 \<Longrightarrow> reader_inv (mk_reader bs (of_nat (length bs)))"
  by (simp add: reader_inv_def mk_reader_def unat_of_nat)

text \<open>
  Reading from a well-formed cursor, exactly: a request that does not fit is refused and
  leaves the cursor alone; one that fits returns precisely the next \<open>sz\<close> bytes and advances.
  The test \<^verbatim>\<open>(cur_ + size) > size_\<close> is done modulo \<open>2 ^ 64\<close>: a request that makes the sum
  wrap around passes it and reads outside the array.
\<close>

theorem reader_read_exact:
  assumes "reader_inv r"
  shows "reader_read True sz r =
     (if 2 ^ 64 \<le> unat (rd_cur r) + unat sz then Undefined
      else if unat (rd_size r) < unat (rd_cur r) + unat sz then Ret (False, [], r)
      else Ret (True, take (unat sz) (drop (unat (rd_cur r)) (rd_bytes r)),
                r\<lparr>rd_cur := rd_cur r + sz\<rparr>))"
proof -
  have cur: "unat (rd_cur r) \<le> unat (rd_size r)" and len: "length (rd_bytes r) = unat (rd_size r)"
    using assms by (auto simp: reader_inv_def word_le_nat_alt)
  have size: "unat (rd_size r) < 2 ^ 64" "unat sz < 2 ^ 64" "unat (rd_cur r) < 2 ^ 64"
    using unsigned_less [of "rd_size r"] unsigned_less [of sz] unsigned_less [of "rd_cur r"] by simp_all
  show ?thesis
  proof (cases "2 ^ 64 \<le> unat (rd_cur r) + unat sz")
    case True
    have "unat (rd_cur r + sz) = (unat (rd_cur r) + unat sz) mod 2 ^ 64"
      by (simp add: unat_word_ariths)
    also have "\<dots> = unat (rd_cur r) + unat sz - 2 ^ 64"
      using True size by (simp add: mod_if)
    finally have "unat (rd_cur r + sz) \<le> unat (rd_size r)" using cur size by linarith
    moreover have "unat (rd_size r) < unat (rd_cur r) + unat sz" using True size by linarith
    ultimately show ?thesis using True len
      by (simp add: reader_read_def word_less_nat_alt mem_read_def)
  next
    case False
    then have "unat (rd_cur r + sz) = unat (rd_cur r) + unat sz" by (simp add: unat_add_no_wrap)
    then show ?thesis using False len
      by (auto simp: reader_read_def word_less_nat_alt mem_read_def)
  qed
qed

theorem reader_read_exact_witness:
  "reader_read True 2 (mk_reader [1, 2, 3] 3) = Ret (True, [1, 2], (mk_reader [1, 2, 3] 3)\<lparr>rd_cur := 2\<rparr>)"
proof -
  have "reader_inv (mk_reader [1, 2, 3] 3)" by (simp add: reader_inv_def mk_reader_def)
  from reader_read_exact [OF this, of 2] show ?thesis by (simp add: mk_reader_def)
qed

text \<open>
  C26. Writing appends: on a well-formed buffer that holds \<open>bs\<close>, whatever mix of inline
  storage, first allocation and reallocation is needed, and as long as the allocator
  delivers and the total stays below \<open>2 ^ 63\<close> bytes, \<^verbatim>\<open>write\<close> returns true, the buffer stays
  well-formed and holds \<open>bs\<close> followed by the new bytes.
\<close>

theorem writer_write_appends:
  assumes "writer_inv w" "writer_holds w bs" "length bs + length xs \<le> 2 ^ 63"
    "\<And>n. mal (wb_calls w) n" "bs \<noteq> [] \<or> xs \<noteq> []"
  shows "\<exists>w'. writer_write mal xs w = Ret (True, w') \<and> writer_inv w' \<and> writer_holds w' (bs @ xs)"
  using assms by (rule writer_write_ok)

theorem writer_write_appends_witness:
  "\<exists>w'. writer_write (\<lambda>_ _. True) [7, 8] (mk_writer True) = Ret (True, w') \<and> writer_inv w' \<and>
     writer_holds w' [7, 8]"
  using writer_write_appends [OF mk_writer_inv mk_writer_holds, of "[7, 8]" "\<lambda>_ _. True" True]
  by simp

text \<open>
  C29. Termination of growth, exactly: when a request needs more room, \<^verbatim>\<open>allocate\<close> returns (an
  address or null) if the new total is at most \<open>2 ^ 63\<close>, and otherwise loops forever, because
  the doubled size overflows to 0.
\<close>

theorem writer_allocate_diverges:
  assumes "writer_inv w" "wb_cur w + sz > wb_size w"
  shows "(writer_allocate mal sz w = Diverge) = (unat (wb_cur w + sz) > 2 ^ 63) \<and>
     ((\<exists>x. writer_allocate mal sz w = Ret x) = (unat (wb_cur w + sz) \<le> 2 ^ 63))"
proof (cases "unat (wb_cur w + sz) \<le> 2 ^ 63")
  case True
  from writer_allocate_grows [OF assms(1) True assms(2), of mal]
  have "\<exists>x. writer_allocate mal sz w = Ret x" by (metis (full_types))
  then show ?thesis using True by auto
next
  case False
  obtain j where j: "j \<in> {7..63}" "(if wb_size w = 0 then kSmallBufferSize else wb_size w) = 2 ^ j"
    using writer_size_pow2 [OF assms(1)] by blast
  then have "(if wb_size w = 0 then kSmallBufferSize else wb_size w) * 2 = 2 ^ Suc j" by simp
  moreover have "grow_size (wb_cur w + sz) (2 ^ Suc j) = None"
    using False j by (intro grow_size_diverges) auto
  ultimately have "writer_allocate mal sz w = Diverge"
    using assms(2) by (simp add: writer_allocate_def Let_def del: power_Suc)
  then show ?thesis using False by simp
qed

theorem writer_allocate_diverges_witness:
  "writer_allocate (\<lambda>_ _. True) (2 ^ 63 + 1) (mk_writer False) = Diverge"
  using writer_allocate_diverges [OF mk_writer_inv, of False "2 ^ 63 + 1" "\<lambda>_ _. True"]
  by (simp add: mk_writer_def kSmallBufferSize_def)

text \<open>
  A failed first allocation of a \<^verbatim>\<open>user_free\<close> buffer corrupts it: \<^verbatim>\<open>size_\<close> was set to 128
  before \<^verbatim>\<open>realloc\<close> failed, so the next small write believes that there is room: it is
  refused too but advances \<^verbatim>\<open>cur_\<close>, and the write after it stores through a wild pointer.
\<close>

theorem writer_failed_growth_corrupts:
  assumes "xs \<noteq> []" "length xs \<le> 2 ^ 63" "ys \<noteq> []" "zs \<noteq> []" "length ys + length zs \<le> 128"
    and "\<And>n. \<not> mal 0 n"
  shows "\<exists>w1 w2. writer_write mal xs (mk_writer True) = Ret (False, w1) \<and>
     writer_write mal ys w1 = Ret (False, w2) \<and> wb_cur w2 = of_nat (length ys) \<and>
     writer_write mal zs w2 = Undefined"
proof -
  let ?w = "mk_writer True"
  have u: "unat (of_nat (length xs) :: u64) = length xs" "unat (of_nat (length ys) :: u64) = length ys"
      "unat (of_nat (length zs) :: u64) = length zs"
    using assms(2,5) by (simp_all add: unat_of_nat)
  have pos: "of_nat (length xs) > (0::u64)" "of_nat (length ys) \<noteq> (0::u64)"
    using assms(1,3) u by (auto simp: word_less_nat_alt unat_eq_zero dest: arg_cong [where f = unat])
  have yz: "\<not> of_nat (length ys) > (128::u64)" "\<not> of_nat (length ys) + of_nat (length zs) > (128::u64)"
    using assms(5) u by (auto simp: word_less_nat_alt unat_add_no_wrap)
  define w1 where "w1 = ?w\<lparr>wb_size := 128, wb_calls := 1\<rparr>"
  from writer_allocate_grows [OF mk_writer_inv, of True "of_nat (length xs)" mal] assms(6)
  have "writer_allocate mal (of_nat (length xs)) ?w = Ret (Null_addr, w1)"
    using pos(1) u(1) assms(2) by (auto simp: mk_writer_def kSmallBufferSize_def w1_def)
  then have "writer_write mal xs ?w = Ret (False, w1)" by (simp add: writer_write_def)
  moreover have "writer_write mal ys w1 = Ret (False, w1\<lparr>wb_cur := of_nat (length ys)\<rparr>)"
    using yz(1) by (simp add: writer_write_def writer_allocate_def writer_addr_def w1_def mk_writer_def)
  moreover have "writer_write mal zs (w1\<lparr>wb_cur := of_nat (length ys)\<rparr>) = Undefined"
    using yz(2) pos(2)
    by (simp add: writer_write_def writer_allocate_def writer_addr_def w1_def mk_writer_def)
  ultimately show ?thesis by auto
qed

theorem writer_failed_growth_corrupts_witness:
  "\<exists>w1 w2. writer_write (\<lambda>i _. 0 < i) [1] (mk_writer True) = Ret (False, w1) \<and>
     writer_write (\<lambda>i _. 0 < i) [2] w1 = Ret (False, w2) \<and> wb_cur w2 = 1 \<and>
     writer_write (\<lambda>i _. 0 < i) [3] w2 = Undefined"
  using writer_failed_growth_corrupts [of "[1]" "[2]" "[3]" "\<lambda>i _. 0 < i"] by simp

end
