(* ===== verification/Compress.thy ===== *)
theory Compress
  imports Fast_Memcpy
begin

text \<open>
  \<^verbatim>\<open>common/compress.h\<close>, the part on raw buffers: zigzag mapping of signed integers and the
  prefix code that stores a 64-bit integer in 1 to 9 bytes. The wrappers over byte arrays
  are in \<open>Serializer\<close>. An out parameter that the code leaves unwritten is \<open>None\<close>.
\<close>

section \<open>Definitions\<close>

definition zigzag_encode :: "u64 \<Rightarrow> u64" where
  "zigzag_encode v = push_bit 1 v XOR signed_drop_bit 63 v"

definition zigzag_decode :: "u64 \<Rightarrow> u64" where
  "zigzag_decode v = (- (v AND 1)) XOR drop_bit 1 v"

definition compress_uint64_size :: "u64 \<Rightarrow> nat" where
  "compress_uint64_size v =
     (if v < push_bit 7 1 then 1
      else if v < push_bit 14 1 then 2
      else if v < push_bit 21 1 then 3
      else if v < push_bit 28 1 then 4
      else if v < push_bit 35 1 then 5
      else if v < push_bit 42 1 then 6
      else if v < push_bit 49 1 then 7
      else if v < push_bit 56 1 then 8
      else 9)"

definition decompress_uint64_size :: "u8 \<Rightarrow> nat" where
  "decompress_uint64_size x =
     (if x AND 0x1 = 0 then 1
      else if x AND 0x2 = 0 then 2
      else if x AND 0x4 = 0 then 3
      else if x AND 0x8 = 0 then 4
      else if x AND 0x10 = 0 then 5
      else if x AND 0x20 = 0 then 6
      else if x AND 0x40 = 0 then 7
      else if x AND 0x80 = 0 then 8
      else 9)"

text \<open>
  The encoder over a buffer \<open>p\<close> of which the caller says that \<open>s\<close> bytes are usable. The
  result is the return value and the buffer.
\<close>

definition put_bytes :: "nat \<Rightarrow> u8 list \<Rightarrow> u64 \<Rightarrow> (nat \<times> u8 list) exec" where
  "put_bytes N p v = exec_bind (fast_memcpy_tpl N p 0 (le_bytes 8 v) 0) (\<lambda>p'. Ret (N, p'))"

definition compress_uint64_buf :: "u8 list \<Rightarrow> u64 \<Rightarrow> u64 \<Rightarrow> (nat \<times> u8 list) exec" where
  "compress_uint64_buf p s v =
     (if v < push_bit 7 1 then
        (if s < 1 then Ret (0, p) else put_bytes 1 p (push_bit 1 v))
      else if v < push_bit 14 1 then
        (if s < 2 then Ret (0, p) else put_bytes 2 p (push_bit 2 v OR 0x1))
      else if v < push_bit 21 1 then
        (if s < 3 then Ret (0, p) else put_bytes 3 p (push_bit 3 v OR 0x3))
      else if v < push_bit 28 1 then
        (if s < 4 then Ret (0, p) else put_bytes 4 p (push_bit 4 v OR 0x7))
      else if v < push_bit 35 1 then
        (if s < 5 then Ret (0, p) else put_bytes 5 p (push_bit 5 v OR 0xf))
      else if v < push_bit 42 1 then
        (if s < 6 then Ret (0, p) else put_bytes 6 p (push_bit 6 v OR 0x1f))
      else if v < push_bit 49 1 then
        (if s < 7 then Ret (0, p) else put_bytes 7 p (push_bit 7 v OR 0x3f))
      else if v < push_bit 56 1 then
        (if s < 8 then Ret (0, p) else put_bytes 8 p (push_bit 8 v OR 0x7f))
      else if s < 9 then Ret (0, p)
      else exec_bind (exec_of_option Undefined (mem_write p 0 [0xff])) (\<lambda>p'.
        exec_bind (fast_memcpy_tpl 8 p' 1 (le_bytes 8 v) 0) (\<lambda>p''. Ret (9, p''))))"

definition compress_int64_buf :: "u8 list \<Rightarrow> u64 \<Rightarrow> u64 \<Rightarrow> (nat \<times> u8 list) exec" where
  "compress_int64_buf p s v = compress_uint64_buf p s (zigzag_encode v)"

text \<open>
  The decoder: \<open>copy_into\<close> is \<^verbatim>\<open>_fast_memcpy<N>(reinterpret_cast<char*>(&tmp) + off, p + poff)\<close>;
  \<open>get_bytes\<close> is the body shared by the branches of 2 to 8 bytes, with the branch's length
  \<open>n\<close>. The last branch has no test of \<open>s\<close>, as in the source.
\<close>

definition copy_into :: "nat \<Rightarrow> u64 \<Rightarrow> nat \<Rightarrow> u8 list \<Rightarrow> nat \<Rightarrow> u64 exec" where
  "copy_into N tmp off p poff =
     exec_bind (fast_memcpy_tpl N (le_bytes 8 tmp) off p poff) (\<lambda>bs. Ret (le_word bs))"

definition get_bytes :: "nat \<Rightarrow> u64 \<Rightarrow> u8 list \<Rightarrow> u64 \<Rightarrow> (nat \<times> u64 option) exec" where
  "get_bytes n tmp p s =
     (if s < of_nat n then Ret (0, None)
      else exec_bind (copy_into (n - 1) tmp 1 p 1) (\<lambda>tmp'. Ret (n, Some (drop_bit n tmp'))))"

definition decompress_uint64_buf :: "u8 list \<Rightarrow> u64 \<Rightarrow> (nat \<times> u64 option) exec" where
  "decompress_uint64_buf p s =
     (if s < 1 then Ret (0, None)
      else exec_bind (copy_into 1 0 0 p 0) (\<lambda>tmp.
        if tmp AND 0x1 = 0 then Ret (1, Some (drop_bit 1 tmp))
        else if tmp AND 0x2 = 0 then get_bytes 2 tmp p s
        else if tmp AND 0x4 = 0 then get_bytes 3 tmp p s
        else if tmp AND 0x8 = 0 then get_bytes 4 tmp p s
        else if tmp AND 0x10 = 0 then get_bytes 5 tmp p s
        else if tmp AND 0x20 = 0 then get_bytes 6 tmp p s
        else if tmp AND 0x40 = 0 then get_bytes 7 tmp p s
        else if tmp AND 0x80 = 0 then get_bytes 8 tmp p s
        else exec_bind (exec_assert (p ! 0 = 0xff)) (\<lambda>_.
          exec_bind (copy_into 8 0 0 p 1) (\<lambda>v. Ret (9, Some v)))))"

text \<open>
  \<^verbatim>\<open>*v = zigzag_decode(x)\<close> is executed whatever the return code: when the decoder left \<open>x\<close>
  unwritten this reads an indeterminate value.
\<close>

definition decompress_int64_buf :: "u8 list \<Rightarrow> u64 \<Rightarrow> (nat \<times> u64) exec" where
  "decompress_int64_buf p s =
     exec_bind (decompress_uint64_buf p s) (\<lambda>(code, x).
       case x of None \<Rightarrow> Undefined | Some x \<Rightarrow> Ret (code, zigzag_decode x))"

text \<open>The code words, as a specification of what the encoder writes.\<close>

definition enc_uint64 :: "u64 \<Rightarrow> u8 list" where
  "enc_uint64 v =
     (let k = compress_uint64_size v
      in if k = 9 then 0xff # le_bytes 8 v
         else le_bytes k (push_bit k v OR mask (k - 1)))"

section \<open>Zigzag\<close>

lemma bit_zigzag_encode:
  "bit (zigzag_encode v) n \<longleftrightarrow>
     n < 64 \<and> ((n \<noteq> 0 \<and> bit v (n - 1)) \<noteq> bit v 63)"
  unfolding zigzag_encode_def bit_xor_iff bit_push_bit_iff bit_signed_drop_bit_iff
  by (cases n) (auto dest: bit_imp_le_length)

lemma bit_zigzag_decode:
  "bit (zigzag_decode v) n \<longleftrightarrow> n < 64 \<and> (bit v 0 \<noteq> bit v (Suc n))"
proof -
  have "- (v AND 1) = (if bit v 0 then - 1 else 0)"
    by (simp add: and_one_eq bit_0 mod_2_eq_odd)
  then show ?thesis
    by (auto simp: zigzag_decode_def bit_simps dest: bit_imp_le_length)
qed

lemma zigzag_decode_encode [simp]: "zigzag_decode (zigzag_encode v) = v"
proof (rule bit_word_eqI)
  fix n assume "n < LENGTH(64)"
  then have "n < 63 \<or> n = 63" by auto
  then show "bit (zigzag_decode (zigzag_encode v)) n \<longleftrightarrow> bit v n"
    by (auto simp: bit_zigzag_decode bit_zigzag_encode)
qed

lemma zigzag_encode_decode [simp]: "zigzag_encode (zigzag_decode v) = v"
proof (rule bit_word_eqI)
  fix n assume "n < LENGTH(64)"
  then show "bit (zigzag_encode (zigzag_decode v)) n \<longleftrightarrow> bit v n"
    by (cases n) (auto simp: bit_zigzag_decode bit_zigzag_encode dest: bit_imp_le_length)
qed

lemma zigzag_encode_cases: "zigzag_encode v = (if bit v 63 then - (v * 2) - 1 else v * 2)"
proof -
  have "zigzag_encode v = (if bit v 63 then NOT (push_bit 1 v) else push_bit 1 v)"
  proof (rule bit_word_eqI)
    fix n assume "n < LENGTH(64)"
    then show "bit (zigzag_encode v) n = bit (if bit v 63 then NOT (push_bit 1 v) else push_bit 1 v) n"
      unfolding bit_zigzag_encode if_distrib [of "\<lambda>w. bit w n"] bit_not_iff bit_push_bit_iff
      by auto
  qed
  then show ?thesis by (simp add: not_eq_complement)
qed

lemma sint_u64: "sint (v::u64) = uint v - (if bit v 63 then 2 ^ 64 else 0)"
proof -
  have "take_bit 64 (uint v) = uint v"
    using uint_bounded [of v] by (simp add: take_bit_int_eq_self)
  then show ?thesis
    by (simp add: sint_uint signed_take_bit_eq_take_bit_minus bit_uint_iff)
qed

lemma bit_63_iff: "bit (v::u64) 63 \<longleftrightarrow> 2 ^ 63 \<le> uint v"
proof -
  have "bit v 63 \<longleftrightarrow> odd (uint v div 2 ^ 63)"
    using bit_uint_iff [of v 63] by (simp add: bit_iff_odd)
  moreover have "uint v div 2 ^ 63 = (if 2 ^ 63 \<le> uint v then 1 else 0)"
    using uint_bounded[of v] by auto
  ultimately show ?thesis by simp
qed

lemma uint_zigzag_encode:
  "uint (zigzag_encode v) = (if 0 \<le> sint v then 2 * sint v else - 2 * sint v - 1)"
proof (cases "bit v 63")
  case True
  then have v: "2 ^ 63 \<le> uint v" "uint v < 2 ^ 64" using bit_63_iff [of v] uint_bounded [of v] by simp_all
  have "uint (zigzag_encode v) = (- (uint v * 2) - 1) mod 2 ^ 64"
    using True by (simp add: zigzag_encode_cases uint_word_ariths mod_simps)
  also have "\<dots> = 2 ^ 65 - uint v * 2 - 1" 
    using v by (intro int_mod_pos_eq [where q = "-2"]) auto
  finally show ?thesis using True v sint_u64 [of v] by simp
next
  case False
  then have v: "0 \<le> uint v" "uint v < 2 ^ 63" using bit_63_iff [of v] by simp_all
  have "uint (zigzag_encode v) = (uint v * 2) mod 2 ^ 64"
    using False by (simp add: zigzag_encode_cases uint_word_ariths)
  also have "\<dots> = uint v * 2" using v by simp
  finally show ?thesis using False v sint_u64 [of v] by simp
qed

section \<open>The prefix code\<close>

lemma put_bytes_eq:
  assumes "0 < N" "N \<le> 8"
  shows "put_bytes N p w = (if N \<le> length p then Ret (N, le_bytes N w @ drop N p) else Undefined)"
proof (cases "N \<le> length p")
  case True
  with assms show ?thesis
    by (simp add: put_bytes_def fast_memcpy_tpl_in_bounds take_le_bytes)
next
  case False
  with assms show ?thesis
    by (simp add: put_bytes_def fast_memcpy_tpl_out_of_bounds)
qed

lemma compress_uint64_buf_eq:
  "compress_uint64_buf p s v =
     (let k = compress_uint64_size v
      in if unat s < k then Ret (0, p)
         else if k \<le> length p then Ret (k, enc_uint64 v @ drop k p) else Undefined)"
proof -
  have last: "exec_bind (exec_of_option Undefined (mem_write p 0 [0xff])) (\<lambda>p'.
        exec_bind (fast_memcpy_tpl 8 p' 1 (le_bytes 8 v) 0) (\<lambda>p''. Ret (9::nat, p''))) =
      (if 9 \<le> length p then Ret (9, (0xff # le_bytes 8 v) @ drop 9 p) else Undefined)"
    by (cases p) (auto simp: mem_write_def fast_memcpy_tpl_in_bounds fast_memcpy_tpl_out_of_bounds)
  show ?thesis
    unfolding compress_uint64_buf_def enc_uint64_def compress_uint64_size_def Let_def last
    by (simp add: put_bytes_eq word_less_nat_alt mask_eq_exp_minus_1)
qed

lemma length_enc_uint64: "length (enc_uint64 v) = compress_uint64_size v"
  by (simp add: enc_uint64_def Let_def)

lemma copy_into_first: "copy_into (Suc 0) 0 0 (b # ps) 0 = Ret (ucast b)"
  by (simp add: copy_into_def fast_memcpy_tpl_in_bounds)

lemma copy_into_rest:
  assumes "n \<le> 7"
  shows "copy_into n (ucast b) (Suc 0) (b # ps) (Suc 0) =
     (if n \<le> length ps then Ret (le_word (b # take n ps)) else Undefined)"
proof (cases "n \<le> length ps")
  case True
  have "le_bytes 8 (ucast b :: u64) = b # replicate 7 0"
    using le_bytes_ucast [of 8 b] by simp
  then have "copy_into n (ucast b) (Suc 0) (b # ps) (Suc 0) =
      Ret (le_word ((b # take n ps) @ replicate (7 - n) 0))"
    using assms True
    by (simp add: copy_into_def fast_memcpy_tpl_in_bounds del: le_word.simps)
  with True show ?thesis
    by (simp only: le_word_append_zeros if_True)
next
  case False
  with assms show ?thesis
    by (simp add: copy_into_def fast_memcpy_tpl_src_short)
qed

lemma get_bytes_eq:
  assumes "2 \<le> n" "n \<le> 8"
  shows "get_bytes n (ucast b) (b # ps) s =
     (if unat s < n then Ret (0, None)
      else if n \<le> Suc (length ps) then Ret (n, Some (drop_bit n (le_word (b # take (n - 1) ps))))
      else Undefined)"
proof -
  have "(s < of_nat n) = (unat s < n)"
    using assms by (simp add: word_less_nat_alt unat_of_nat)
  with assms show ?thesis
    by (auto simp: get_bytes_def copy_into_rest simp del: le_word.simps)
qed

lemma decompress_uint64_buf_Cons:
  "decompress_uint64_buf (b # ps) s =
     (let k = decompress_uint64_size b
      in if s = 0 then Ret (0, None)
         else if k = 9 then
           (if 8 \<le> length ps then Ret (9, Some (le_word (take 8 ps))) else Undefined)
         else if unat s < k then Ret (0, None)
         else if k \<le> Suc (length ps) then
           Ret (k, Some (drop_bit k (le_word (b # take (k - 1) ps))))
         else Undefined)"
proof -
  have s: "s < 1 \<longleftrightarrow> s = 0" by (simp add: word_less_nat_alt unat_eq_zero)
  have nine: "copy_into 8 0 0 (c # ps) (Suc 0) =
      (if 8 \<le> length ps then Ret (le_word (take 8 ps)) else Undefined)" for c
    by (auto simp: copy_into_def fast_memcpy_tpl_in_bounds fast_memcpy_tpl_src_short)
  show ?thesis
  proof (cases "decompress_uint64_size b = 9")
    case True
    then have b: "bit b 0" "bit b 1" "bit b 2" "bit b 3" "bit b 4" "bit b 5" "bit b 6" "bit b 7"
      by (auto simp: decompress_uint64_size_def and_pow_tests split: if_splits)
    then show ?thesis
      using True u8_all_bits [OF b]
      by (simp add: decompress_uint64_buf_def copy_into_first and_pow_tests s nine Let_def)
  next
    case False
    then show ?thesis
      by (auto simp: decompress_uint64_buf_def decompress_uint64_size_def and_pow_tests
          copy_into_first s get_bytes_eq Let_def unat_eq_zero)
  qed
qed

lemma decompress_uint64_size_eqI:
  assumes "1 \<le> k" "k \<le> 8" "\<And>j. j < k - 1 \<Longrightarrow> bit b j" "\<not> bit b (k - 1)"
  shows "decompress_uint64_size b = k"
proof -
  have "k \<in> {1, 2, 3, 4, 5, 6, 7, 8}" using assms(1,2) by auto
  then show ?thesis using assms(3,4)
    by (elim insertE emptyE) (simp_all add: decompress_uint64_size_def and_pow_tests)
qed

lemma compress_uint64_size_bounds: "1 \<le> compress_uint64_size v" "compress_uint64_size v \<le> 9"
  by (simp_all add: compress_uint64_size_def)

lemma compress_uint64_size_less:
  "compress_uint64_size v \<noteq> 9 \<Longrightarrow> v < 2 ^ (7 * compress_uint64_size v)"
  by (simp add: compress_uint64_size_def split: if_splits)

lemma bit_code_word:
  "1 \<le> k \<Longrightarrow> bit (push_bit k v OR mask (k - 1) :: u64) n \<longleftrightarrow>
     n < 64 \<and> (n < k - 1 \<or> (k \<le> n \<and> bit v (n - k)))"
  by (auto simp: bit_or_iff bit_push_bit_iff bit_mask_iff)

lemma code_word_decodes:
  assumes "1 \<le> k" "k \<le> 8" "v < 2 ^ (7 * k)"
  shows "drop_bit k (take_bit (8 * k) (push_bit k v OR mask (k - 1))) = (v::u64)"
proof (rule bit_word_eqI)
  fix n assume "n < LENGTH(64)"
  have "bit v n \<Longrightarrow> n < 7 * k" using not_bit_ge [OF assms(3)] by (meson not_le)
  then show "bit (drop_bit k (take_bit (8 * k) (push_bit k v OR mask (k - 1)))) n = bit v n"
    unfolding bit_drop_bit_eq comp_def bit_take_bit_iff bit_code_word [OF assms(1)]
    using assms(1,2) by auto
qed

lemma enc_uint64_short:
  assumes "compress_uint64_size v = k" "k \<noteq> 9"
  shows "enc_uint64 v = ucast (push_bit k v OR mask (k - 1)) #
    le_bytes (k - 1) (drop_bit 8 (push_bit k v OR mask (k - 1)))"
  using assms compress_uint64_size_bounds [of v]
  by (cases k) (simp_all add: enc_uint64_def)

lemma decompress_uint64_size_enc:
  "decompress_uint64_size (hd (enc_uint64 v)) = compress_uint64_size v"
proof (cases "compress_uint64_size v = 9")
  case True
  then show ?thesis by (simp add: enc_uint64_def decompress_uint64_size_def)
next
  case False
  define k where "k = compress_uint64_size v"
  have k: "1 \<le> k" "k \<le> 8" using compress_uint64_size_bounds [of v] False by (auto simp: k_def)
  have "decompress_uint64_size (ucast (push_bit k v OR mask (k - 1))) = k"
    using k by (intro decompress_uint64_size_eqI)
      (auto simp: bit_unsigned_iff bit_code_word simp del: One_nat_def)
  then show ?thesis using enc_uint64_short [OF k_def [symmetric]] False by (simp add: k_def)
qed

lemma decompress_enc:
  assumes "compress_uint64_size v \<le> unat s"
  shows "decompress_uint64_buf (enc_uint64 v @ rest) s = Ret (compress_uint64_size v, Some v)"
proof -
  define k where "k = compress_uint64_size v"
  have k: "1 \<le> k" "k \<le> 9" using compress_uint64_size_bounds [of v] by (auto simp: k_def)
  have s: "s \<noteq> 0" "\<not> unat s < k" using assms k by (auto simp: k_def)
  obtain b ps where e: "enc_uint64 v = b # ps"
    using length_enc_uint64 [of v] k by (cases "enc_uint64 v") (auto simp: k_def)
  have b: "decompress_uint64_size b = k" using decompress_uint64_size_enc [of v] e by (simp add: k_def)
  have len: "k = Suc (length ps)" using length_enc_uint64 [of v] e by (simp add: k_def)
  show ?thesis
  proof (cases "k = 9")
    case True
    then have "ps = le_bytes 8 v" using e by (simp add: enc_uint64_def k_def)
    then have "le_word ps = v"
      by (simp add: le_word_le_bytes) (rule bit_word_eqI, simp add: bit_take_bit_iff)
    then show ?thesis using True b s e len by (simp add: decompress_uint64_buf_Cons k_def)
  next
    case False
    then have "enc_uint64 v = le_bytes k (push_bit k v OR mask (k - 1))"
      by (simp add: enc_uint64_def k_def Let_def)
    moreover have "v < 2 ^ (7 * k)" using compress_uint64_size_less False by (simp add: k_def)
    ultimately have "drop_bit k (le_word (b # ps)) = v"
      using code_word_decodes [of k v] k False e le_word_le_bytes by simp
    then show ?thesis using False b s e len
      by (simp add: decompress_uint64_buf_Cons k_def del: le_word.simps)
  qed
qed

section \<open>Properties\<close>

text \<open>
  Zigzag is a bijection between the signed and the unsigned 64-bit integers that sends
  small magnitudes to small codes: \<open>n\<close> to \<open>2 n\<close> and \<open>- n\<close> to \<open>2 n - 1\<close>; decoding undoes
  encoding and encoding undoes decoding.
\<close>

theorem zigzag_bijection:
  "zigzag_decode (zigzag_encode v) = v \<and> zigzag_encode (zigzag_decode u) = u \<and>
   uint (zigzag_encode v) = (if 0 \<le> sint v then 2 * sint v else - 2 * sint v - 1)"
  by (simp add: uint_zigzag_encode)

text \<open>
  C28. The encoder on every branch: with \<open>k\<close> the size announced by \<open>compress_uint64_size\<close>
  (1 to 9) it refuses a buffer declared shorter than \<open>k\<close>, and otherwise writes exactly the
  \<open>k\<close> bytes of the code word, whose first byte announces \<open>k\<close> to \<open>decompress_uint64_size\<close>.
\<close>

theorem compress_uint64_spec:
  "let k = compress_uint64_size v in
     1 \<le> k \<and> k \<le> 9 \<and> length (enc_uint64 v) = k \<and>
     decompress_uint64_size (hd (enc_uint64 v)) = k \<and>
     compress_uint64_buf p s v =
       (if unat s < k then Ret (0, p)
        else if k \<le> length p then Ret (k, enc_uint64 v @ drop k p) else Undefined)"
  using compress_uint64_size_bounds [of v]
  by (simp add: Let_def length_enc_uint64 decompress_uint64_size_enc compress_uint64_buf_eq)

text \<open>
  C27. Round trip through a raw buffer: if the buffer has room for the code word, encoding
  succeeds and decoding the buffer returns the value and consumes the same number of bytes.
\<close>

theorem compress_uint64_roundtrip:
  assumes "compress_uint64_size v \<le> length p" "compress_uint64_size v \<le> unat s"
  shows "\<exists>p'. compress_uint64_buf p s v = Ret (compress_uint64_size v, p') \<and> length p' = length p \<and>
     decompress_uint64_buf p' s = Ret (compress_uint64_size v, Some v)"
  using assms by (simp add: compress_uint64_buf_eq decompress_enc length_enc_uint64 Let_def)

theorem compress_uint64_roundtrip_witness:
  "\<exists>p'. compress_uint64_buf (replicate 9 0) 9 300 = Ret (2, p') \<and> length p' = 9 \<and>
     decompress_uint64_buf p' 9 = Ret (2, Some 300)"
proof -
  have k: "compress_uint64_size 300 = 2" by (simp add: compress_uint64_size_def)
  then show ?thesis using compress_uint64_roundtrip [of 300 "replicate 9 0" 9] by simp
qed

lemma decompress_uint64_size_9: "decompress_uint64_size b = 9 \<longleftrightarrow> b = 0xff"
proof
  assume "decompress_uint64_size b = 9"
  then show "b = 0xff"
    by (intro u8_all_bits) (auto simp: decompress_uint64_size_def and_pow_tests split: if_splits)
qed (simp add: decompress_uint64_size_def)

text \<open>
  Memory safety of the decoder, exactly: on a buffer of \<open>s\<close> bytes it leaves the buffer if
  and only if the first byte is 0xff and fewer than nine bytes are there. The branches of
  one to eight bytes are safe; the nine-byte branch lacks the test of \<open>s\<close>.
\<close>

theorem decompress_uint64_overread:
  assumes "length p = unat s"
  shows "decompress_uint64_buf p s = Undefined \<longleftrightarrow> p \<noteq> [] \<and> hd p = 0xff \<and> length p < 9"
proof (cases p)
  case Nil
  with assms have "s = 0" by (simp add: unat_eq_zero)
  with Nil show ?thesis by (simp add: decompress_uint64_buf_def)
next
  case (Cons b ps)
  with assms have "s \<noteq> 0" by auto
  then show ?thesis using assms Cons decompress_uint64_size_9 [of b]
    by (auto simp: decompress_uint64_buf_Cons Let_def split: if_splits)
qed

theorem decompress_uint64_overread_witness:
  "decompress_uint64_buf [0xff] 1 = Undefined"
  using decompress_uint64_overread [of "[0xff]" 1] by simp

end
