(* ===== verification/Serializer.thy ===== *)
theory Serializer
  imports Byte_Array Compress
begin

text \<open>
  The serialisers: the byte-array wrappers of \<^verbatim>\<open>common/compress.h\<close>, the primitive types of
  \<^verbatim>\<open>common/serializer.h\<close> and the protobuf framing of \<^verbatim>\<open>common/proto_serializer.h\<close>. A sink is
  anything with the virtual \<^verbatim>\<open>write\<close> of \<^verbatim>\<open>WriteableByteArray\<close>, passed as \<open>wr\<close>. Each type's
  pair of functions is shown to satisfy one contract, the locale \<open>codec\<close>, for both classes
  of sinks.
\<close>

section \<open>compress.h over byte arrays\<close>

definition compress_uint64 ::
    "(u8 list \<Rightarrow> 'w \<Rightarrow> (bool \<times> 'w) exec) \<Rightarrow> u64 \<Rightarrow> 'w \<Rightarrow> (bool \<times> 'w) exec" where
  "compress_uint64 wr v w =
     exec_bind (compress_uint64_buf (replicate 9 0) 9 v) (\<lambda>(s, p). wr (take s p) w)"

definition compress_int64 ::
    "(u8 list \<Rightarrow> 'w \<Rightarrow> (bool \<times> 'w) exec) \<Rightarrow> u64 \<Rightarrow> 'w \<Rightarrow> (bool \<times> 'w) exec" where
  "compress_int64 wr v w = compress_uint64 wr (zigzag_encode v) w"

text \<open>
  The decoders return the value, or \<open>None\<close> for \<^verbatim>\<open>false\<close>, and the cursor. The cursor is
  advanced inside an \<^verbatim>\<open>assert\<close>; the model is the build with assertions.
\<close>

definition decompress_uint64 :: "reader \<Rightarrow> (u64 option \<times> reader) exec" where
  "decompress_uint64 r =
     (case reader_remain r of (p, sz) \<Rightarrow>
        exec_bind (decompress_uint64_buf p sz) (\<lambda>(n, v).
          if n = 0 then Ret (None, r)
          else exec_bind (reader_read False (of_nat n) r) (\<lambda>(ok, _, r').
            exec_bind (exec_assert ok) (\<lambda>_. Ret (v, r')))))"

definition decompress_int64 :: "reader \<Rightarrow> (u64 option \<times> reader) exec" where
  "decompress_int64 r =
     exec_bind (decompress_uint64 r) (\<lambda>(x, r'). Ret (map_option zigzag_decode x, r'))"

section \<open>serializer.h\<close>

definition serialize_u64 ::
    "(u8 list \<Rightarrow> 'w \<Rightarrow> (bool \<times> 'w) exec) \<Rightarrow> u64 \<Rightarrow> 'w \<Rightarrow> (bool \<times> 'w) exec" where
  "serialize_u64 wr u w = compress_uint64 wr u w"

definition deserialize_u64 :: "reader \<Rightarrow> (u64 option \<times> reader) exec" where
  "deserialize_u64 r = decompress_uint64 r"

definition serialize_i64 ::
    "(u8 list \<Rightarrow> 'w \<Rightarrow> (bool \<times> 'w) exec) \<Rightarrow> u64 \<Rightarrow> 'w \<Rightarrow> (bool \<times> 'w) exec" where
  "serialize_i64 wr u w = compress_int64 wr u w"

definition deserialize_i64 :: "reader \<Rightarrow> (u64 option \<times> reader) exec" where
  "deserialize_i64 r = decompress_int64 r"

definition serialize_u32 ::
    "(u8 list \<Rightarrow> 'w \<Rightarrow> (bool \<times> 'w) exec) \<Rightarrow> u32 \<Rightarrow> 'w \<Rightarrow> (bool \<times> 'w) exec" where
  "serialize_u32 wr u w = compress_uint64 wr (ucast u) w"

definition deserialize_u32 :: "reader \<Rightarrow> (u32 option \<times> reader) exec" where
  "deserialize_u32 r = exec_bind (decompress_uint64 r) (\<lambda>(x, r'). Ret (map_option ucast x, r'))"

definition serialize_i32 ::
    "(u8 list \<Rightarrow> 'w \<Rightarrow> (bool \<times> 'w) exec) \<Rightarrow> u32 \<Rightarrow> 'w \<Rightarrow> (bool \<times> 'w) exec" where
  "serialize_i32 wr u w = compress_int64 wr (scast u) w"

definition deserialize_i32 :: "reader \<Rightarrow> (u32 option \<times> reader) exec" where
  "deserialize_i32 r = exec_bind (decompress_int64 r) (\<lambda>(x, r'). Ret (map_option ucast x, r'))"

definition serialize_string ::
    "(u8 list \<Rightarrow> 'w \<Rightarrow> (bool \<times> 'w) exec) \<Rightarrow> u8 list \<Rightarrow> 'w \<Rightarrow> (bool \<times> 'w) exec" where
  "serialize_string wr u w =
     exec_bind (serialize_u64 wr (of_nat (length u)) w) (\<lambda>(ok, w').
       if \<not> ok then Ret (False, w') else wr u w')"

text \<open>
  \<open>cap\<close> is the longest string the library can make: \<^verbatim>\<open>resize\<close> throws beyond it. An empty
  string has no array, so the read of size 0 gets a null destination.
\<close>

definition deserialize_string :: "nat \<Rightarrow> reader \<Rightarrow> (u8 list option \<times> reader) exec" where
  "deserialize_string cap r =
     exec_bind (deserialize_u64 r) (\<lambda>(sz, r1).
       case sz of
         None \<Rightarrow> Ret (None, r1)
       | Some n \<Rightarrow>
           if unat n > cap then Fatal
           else exec_bind (reader_read (n \<noteq> 0) n r1) (\<lambda>(ok, bs, r2).
             Ret (if ok then Some bs else None, r2)))"

section \<open>proto_serializer.h\<close>

text \<open>
  The protobuf object is a parameter: \<open>byte_size\<close> is \<^verbatim>\<open>ByteSize\<close>, \<open>to_array x n\<close> the bytes that
  \<^verbatim>\<open>SerializeToArray\<close> writes into \<open>n\<close> bytes of room (\<open>None\<close> when it fails), \<open>parse m n\<close> what
  \<^verbatim>\<open>ParseFromCodedStream\<close> makes of the first \<open>n\<close> bytes at \<open>m\<close>. The stream's length is an
  \<^verbatim>\<open>int\<close>. The sink and the source may be null pointers (\<open>None\<close>).
\<close>

definition SerializeToByteArray ::
    "(nat \<Rightarrow> u64 \<Rightarrow> bool) \<Rightarrow> ('m \<Rightarrow> u64) \<Rightarrow> ('m \<Rightarrow> u64 \<Rightarrow> u8 list option) \<Rightarrow>
     'm \<Rightarrow> writer option \<Rightarrow> (bool \<times> writer option) exec" where
  "SerializeToByteArray mal byte_size to_array obj bytes =
     (case bytes of
        None \<Rightarrow> Ret (False, None)
      | Some w \<Rightarrow>
          (let sz = byte_size obj in
           exec_bind (serialize_u64 (writer_write mal) sz w) (\<lambda>(ok, w1).
             if \<not> ok then Ret (False, Some w1)
             else exec_bind (writer_allocate mal sz w1) (\<lambda>(a, w2).
               case a of
                 Null_addr \<Rightarrow> Ret (False, Some w2)
               | Wild_addr \<Rightarrow> Undefined
               | Buf_addr off \<Rightarrow>
                   (case to_array obj sz of
                      None \<Rightarrow> Ret (False, Some w2)
                    | Some bs \<Rightarrow>
                        exec_bind (writer_store off bs w2) (\<lambda>w3. Ret (True, Some w3)))))))"

definition DeserizlizeFromByteArray ::
    "(u8 list \<Rightarrow> int \<Rightarrow> 'm option) \<Rightarrow> reader option \<Rightarrow> ('m option \<times> reader option) exec" where
  "DeserizlizeFromByteArray parse bytes =
     (case bytes of
        None \<Rightarrow> Ret (None, None)
      | Some r \<Rightarrow>
          exec_bind (deserialize_u64 r) (\<lambda>(n, r1).
            case n of
              None \<Rightarrow> Ret (None, Some r1)
            | Some sz \<Rightarrow>
                (case reader_remain r1 of (data, _) \<Rightarrow>
                   let len = sint (ucast sz :: u32) in
                   if len > int (length data) then Undefined
                   else case parse data len of
                          None \<Rightarrow> Ret (None, Some r1)
                        | Some obj \<Rightarrow>
                            exec_bind (reader_read False sz r1) (\<lambda>(_, _, r2).
                              Ret (Some obj, Some r2)))))"

section \<open>Cursors\<close>

text \<open>\<open>reader_at r xs\<close>: a well-formed cursor with exactly \<open>xs\<close> left to read.\<close>

definition reader_at :: "reader \<Rightarrow> u8 list \<Rightarrow> bool" where
  "reader_at r xs \<longleftrightarrow> reader_inv r \<and> drop (unat (rd_cur r)) (rd_bytes r) = xs"

lemma reader_at_mk: "length bs < 2 ^ 64 \<Longrightarrow> reader_at (mk_reader bs (of_nat (length bs))) bs"
  using mk_reader_inv [of bs] by (simp add: reader_at_def mk_reader_def)

lemma reader_at_remain: "reader_at r xs \<Longrightarrow> reader_remain r = (xs, of_nat (length xs))"
  by (auto simp: reader_at_def reader_remain_def reader_inv_def word_le_nat_alt of_nat_diff)

lemma reader_at_length: "reader_at r xs \<Longrightarrow> unat (of_nat (length xs) :: u64) = length xs"
proof -
  assume "reader_at r xs"
  then have "length xs \<le> unat (rd_size r)" by (auto simp: reader_at_def reader_inv_def)
  also have "\<dots> < 2 ^ 64" using unsigned_less [of "rd_size r", where 'a = nat] by simp
  finally show ?thesis by (simp add: unat_of_nat)
qed

lemma reader_at_read:
  assumes "reader_at r (xs @ rest)"
  shows "\<exists>r'. reader_read dst (of_nat (length xs)) r = Ret (True, if dst then xs else [], r') \<and>
     reader_at r' rest"
proof -
  have inv: "reader_inv r" and dr: "drop (unat (rd_cur r)) (rd_bytes r) = xs @ rest"
    using assms by (simp_all add: reader_at_def)
  have len: "length (rd_bytes r) = unat (rd_size r)" and cur: "unat (rd_cur r) \<le> unat (rd_size r)"
    using inv by (simp_all add: reader_inv_def word_le_nat_alt)
  have "length xs + length rest = unat (rd_size r) - unat (rd_cur r)"
    using arg_cong [OF dr, of length] len by simp
  then have fit: "unat (rd_cur r) + length xs \<le> unat (rd_size r)" using cur by linarith
  have lt: "unat (rd_size r) < 2 ^ 64" using unsigned_less [of "rd_size r", where 'a = nat] by simp
  have u: "unat (of_nat (length xs) :: u64) = length xs" using fit lt by (simp add: unat_of_nat)
  have sum: "unat (rd_cur r + of_nat (length xs)) = unat (rd_cur r) + length xs"
    using fit lt u by (simp add: unat_add_no_wrap)
  have "take (length xs) (drop (unat (rd_cur r)) (rd_bytes r)) = xs" using dr by simp
  moreover have "drop (unat (rd_cur r) + length xs) (rd_bytes r) = rest"
    using dr by (metis add.commute append_eq_conv_conj drop_drop)
  ultimately show ?thesis using fit sum u len
    by (auto simp: reader_read_def reader_at_def reader_inv_def word_le_nat_alt word_less_nat_alt mem_read_def)
qed

section \<open>The codec contract\<close>

text \<open>
  A codec over a sink: \<open>out\<close> appends \<open>enc x\<close> to the sink for a valid \<open>x\<close> with a non-empty
  encoding, \<open>inn\<close> reads it back from any cursor that starts with it and stops right behind
  it. This is what \<^verbatim>\<open>Stream<T>::out\<close> and \<^verbatim>\<open>Stream<T>::in\<close> promise each other.
\<close>

locale codec = byte_sink wr sink_inv holds room
  for wr :: "u8 list \<Rightarrow> 'w \<Rightarrow> (bool \<times> 'w) exec" and sink_inv holds room +
  fixes out :: "'a \<Rightarrow> 'w \<Rightarrow> (bool \<times> 'w) exec"
    and inn :: "reader \<Rightarrow> ('a option \<times> reader) exec"
    and enc :: "'a \<Rightarrow> u8 list"
    and valid :: "'a \<Rightarrow> bool"
  assumes enc_nonempty: "valid x \<Longrightarrow> enc x \<noteq> []"
    and out_enc: "sink_inv w \<Longrightarrow> holds w bs \<Longrightarrow> valid x \<Longrightarrow> length bs + length (enc x) \<le> room \<Longrightarrow>
      \<exists>w'. out x w = Ret (True, w') \<and> sink_inv w' \<and> holds w' (bs @ enc x)"
    and inn_enc: "valid x \<Longrightarrow> reader_at r (enc x @ rest) \<Longrightarrow>
      \<exists>r'. inn r = Ret (Some x, r') \<and> reader_at r' rest"
begin

text \<open>Encodings are prefix free, hence uniquely decodable.\<close>

lemma enc_prefix_free:
  assumes "valid x" "valid y" "enc x @ s = enc y @ t" "length (enc x @ s) < 2 ^ 64"
  shows "x = y \<and> s = t"
proof -
  let ?r = "mk_reader (enc x @ s) (of_nat (length (enc x @ s)))"
  have r: "reader_at ?r (enc x @ s)" using reader_at_mk [OF assms(4)] .
  then obtain r' where x: "inn ?r = Ret (Some x, r')" "reader_at r' s"
    using inn_enc [OF assms(1)] by blast
  from r have "reader_at ?r (enc y @ t)" using assms(3) by simp
  then obtain r'' where y: "inn ?r = Ret (Some y, r'')" "reader_at r'' t"
    using inn_enc [OF assms(2)] by blast
  from x y show ?thesis by (auto simp: reader_at_def)
qed

text \<open>Writing a list of values and reading it back.\<close>

primrec out_list :: "'a list \<Rightarrow> 'w \<Rightarrow> (bool \<times> 'w) exec" where
  "out_list [] w = Ret (True, w)"
| "out_list (x # xs) w = exec_bind (out x w) (\<lambda>(ok, w'). if ok then out_list xs w' else Ret (False, w'))"

primrec in_list :: "nat \<Rightarrow> reader \<Rightarrow> ('a list option \<times> reader) exec" where
  "in_list 0 r = Ret (Some [], r)"
| "in_list (Suc n) r = exec_bind (inn r) (\<lambda>(x, r'). case x of None \<Rightarrow> Ret (None, r')
     | Some x \<Rightarrow> exec_bind (in_list n r') (\<lambda>(xs, r''). Ret (map_option ((#) x) xs, r'')))"

lemma out_list_enc:
  "sink_inv w \<Longrightarrow> holds w bs \<Longrightarrow> \<forall>x\<in>set xs. valid x \<Longrightarrow>
   length bs + length (concat (map enc xs)) \<le> room \<Longrightarrow>
   \<exists>w'. out_list xs w = Ret (True, w') \<and> sink_inv w' \<and> holds w' (bs @ concat (map enc xs))"
proof (induction xs arbitrary: w bs)
  case (Cons x xs)
  then obtain w' where w': "out x w = Ret (True, w')" "sink_inv w'" "holds w' (bs @ enc x)"
    using out_enc [of w bs x] by auto
  with Cons show ?case using Cons.IH [of w' "bs @ enc x"] by (auto simp: add.assoc)
qed simp

lemma in_list_enc:
  "\<forall>x\<in>set xs. valid x \<Longrightarrow> reader_at r (concat (map enc xs) @ rest) \<Longrightarrow>
   \<exists>r'. in_list (length xs) r = Ret (Some xs, r') \<and> reader_at r' rest"
proof (induction xs arbitrary: r)
  case (Cons x xs)
  then have "reader_at r (enc x @ concat (map enc xs) @ rest)" by simp
  then obtain r' where r': "inn r = Ret (Some x, r')" "reader_at r' (concat (map enc xs) @ rest)"
    using inn_enc [of x r] Cons.prems by auto
  then show ?case using Cons.IH [of r'] Cons.prems by auto
qed simp

end

section \<open>The codecs of the primitive types\<close>

lemma enc_uint64_nonempty: "enc_uint64 v \<noteq> []"
  using length_enc_uint64 [of v] compress_uint64_size_bounds [of v] by auto

lemma length_enc_uint64_le: "length (enc_uint64 v) \<le> 9"
  using compress_uint64_size_bounds [of v] by (simp add: length_enc_uint64)

lemma compress_uint64_eq: "compress_uint64 wr v w = wr (enc_uint64 v) w"
  using compress_uint64_size_bounds [of v]
  by (simp add: compress_uint64_def compress_uint64_buf_eq Let_def length_enc_uint64)

lemma decompress_uint64_enc:
  assumes "reader_at r (enc_uint64 v @ rest)"
  shows "\<exists>r'. decompress_uint64 r = Ret (Some v, r') \<and> reader_at r' rest"
proof -
  have s: "unat (of_nat (length (enc_uint64 v @ rest)) :: u64) = length (enc_uint64 v @ rest)"
    using reader_at_length [OF assms] .
  then have "decompress_uint64_buf (enc_uint64 v @ rest) (of_nat (length (enc_uint64 v @ rest))) =
      Ret (compress_uint64_size v, Some v)"
    by (intro decompress_enc) (simp add: length_enc_uint64)
  moreover obtain r' where "reader_read False (of_nat (compress_uint64_size v)) r = Ret (True, [], r')"
      "reader_at r' rest"
    using reader_at_read [OF assms, of False] by (auto simp: length_enc_uint64)
  ultimately show ?thesis
    using reader_at_remain [OF assms] compress_uint64_size_bounds [of v]
    by (simp add: decompress_uint64_def)
qed

lemma decompress_int64_enc:
  "reader_at r (enc_uint64 (zigzag_encode v) @ rest) \<Longrightarrow>
   \<exists>r'. decompress_int64 r = Ret (Some v, r') \<and> reader_at r' rest"
  using decompress_uint64_enc [of r "zigzag_encode v" rest] by (auto simp: decompress_int64_def)

definition enc_string :: "u8 list \<Rightarrow> u8 list" where
  "enc_string u = enc_uint64 (of_nat (length u)) @ u"

lemma deserialize_string_enc:
  assumes "length u < 2 ^ 64" "length u \<le> cap" "reader_at r (enc_string u @ rest)"
  shows "\<exists>r'. deserialize_string cap r = Ret (Some u, r') \<and> reader_at r' rest"
proof -
  obtain r1 where r1: "decompress_uint64 r = Ret (Some (of_nat (length u)), r1)" "reader_at r1 (u @ rest)"
    using decompress_uint64_enc [of r "of_nat (length u)" "u @ rest"] assms(3)
    by (auto simp: enc_string_def)
  have u: "unat (of_nat (length u) :: u64) = length u" using assms(1) by (simp add: unat_of_nat)
  have ne: "(of_nat (length u) \<noteq> (0::u64)) = (u \<noteq> [])" 
    using u unat_eq_zero [of "of_nat (length u) :: u64"] by simp
  obtain r2 where "reader_read (u \<noteq> []) (of_nat (length u)) r1 = Ret (True, if u \<noteq> [] then u else [], r2)"
      "reader_at r2 rest"
    using reader_at_read [OF r1(2)] by blast
  then show ?thesis using r1(1) u ne assms(2)
    by (auto simp: deserialize_string_def deserialize_u64_def)
qed

context byte_sink
begin

lemma codec_u64:
  "codec wr sink_inv holds room (serialize_u64 wr) deserialize_u64 enc_uint64 (\<lambda>_. True)"
  by unfold_locales
     (auto simp: enc_uint64_nonempty serialize_u64_def deserialize_u64_def compress_uint64_eq
       intro: sink_write decompress_uint64_enc)

lemma codec_i64:
  "codec wr sink_inv holds room (serialize_i64 wr) deserialize_i64
     (\<lambda>v. enc_uint64 (zigzag_encode v)) (\<lambda>_. True)"
  by unfold_locales
     (auto simp: enc_uint64_nonempty serialize_i64_def deserialize_i64_def compress_int64_def
       compress_uint64_eq intro: sink_write decompress_int64_enc)

lemma codec_u32:
  "codec wr sink_inv holds room (serialize_u32 wr) deserialize_u32
     (\<lambda>v. enc_uint64 (ucast v)) (\<lambda>_. True)"
proof (unfold_locales, goal_cases)
  case (3 x r rest)
  have "ucast (ucast x :: u64) = x" by (rule bit_word_eqI) (auto simp: bit_simps)
  then show ?case using decompress_uint64_enc [OF 3(2)] by (auto simp: deserialize_u32_def)
qed (auto simp: enc_uint64_nonempty serialize_u32_def compress_uint64_eq intro: sink_write)

lemma codec_i32:
  "codec wr sink_inv holds room (serialize_i32 wr) deserialize_i32
     (\<lambda>v. enc_uint64 (zigzag_encode (scast v))) (\<lambda>_. True)"
proof (unfold_locales, goal_cases)
  case (3 x r rest)
  have "ucast (scast x :: u64) = x" by (rule bit_word_eqI) (auto simp: bit_simps)
  then show ?case using decompress_int64_enc [OF 3(2)] by (auto simp: deserialize_i32_def)
qed (auto simp: enc_uint64_nonempty serialize_i32_def compress_int64_def compress_uint64_eq
    intro: sink_write)

lemma codec_string:
  "codec wr sink_inv holds room (serialize_string wr) (deserialize_string cap) enc_string
     (\<lambda>u. length u < 2 ^ 64 \<and> length u \<le> cap)"
proof (unfold_locales, goal_cases)
  case (2 w bs u)
  then show ?case
    using sink_write2 [of w bs "enc_uint64 (of_nat (length u))" u]
    by (auto simp: enc_string_def serialize_string_def serialize_u64_def compress_uint64_eq
        enc_uint64_nonempty)
qed (auto simp: enc_string_def enc_uint64_nonempty deserialize_string_enc)

end

text \<open>Every codec, on both classes of sinks.\<close>

interpretation wba_u64: codec "writer_write (\<lambda>_ _. True)" writer_inv writer_holds "2 ^ 63"
  "serialize_u64 (writer_write (\<lambda>_ _. True))" deserialize_u64 enc_uint64 "\<lambda>_. True"
  by (rule wba.codec_u64)

interpretation wba_i64: codec "writer_write (\<lambda>_ _. True)" writer_inv writer_holds "2 ^ 63"
  "serialize_i64 (writer_write (\<lambda>_ _. True))" deserialize_i64
  "\<lambda>v. enc_uint64 (zigzag_encode v)" "\<lambda>_. True"
  by (rule wba.codec_i64)

interpretation wba_u32: codec "writer_write (\<lambda>_ _. True)" writer_inv writer_holds "2 ^ 63"
  "serialize_u32 (writer_write (\<lambda>_ _. True))" deserialize_u32
  "\<lambda>v. enc_uint64 (ucast v)" "\<lambda>_. True"
  by (rule wba.codec_u32)

interpretation wba_i32: codec "writer_write (\<lambda>_ _. True)" writer_inv writer_holds "2 ^ 63"
  "serialize_i32 (writer_write (\<lambda>_ _. True))" deserialize_i32
  "\<lambda>v. enc_uint64 (zigzag_encode (scast v))" "\<lambda>_. True"
  by (rule wba.codec_i32)

interpretation wba_string: codec "writer_write (\<lambda>_ _. True)" writer_inv writer_holds "2 ^ 63"
  "serialize_string (writer_write (\<lambda>_ _. True))" "deserialize_string cap" enc_string
  "\<lambda>u. length u < 2 ^ 64 \<and> length u \<le> cap" for cap
  by (rule wba.codec_string)

interpretation stl_string: codec "stl_write cap" "\<lambda>_. True" "\<lambda>a bs. stl_s a = bs" cap
  "serialize_string (stl_write cap)" "deserialize_string cap" enc_string
  "\<lambda>u. length u < 2 ^ 64 \<and> length u \<le> cap" for cap
  by (rule stl.codec_string)

section \<open>Properties\<close>

abbreviation heap_ok :: "nat \<Rightarrow> u64 \<Rightarrow> bool" where
  "heap_ok \<equiv> (\<lambda>_ _. True)"

abbreviation whole_reader :: "u8 list \<Rightarrow> reader" where
  "whole_reader bs \<equiv> mk_reader bs (of_nat (length bs))"

text \<open>The round trip of any codec through a fresh buffer.\<close>

lemma codec_fresh_roundtrip:
  assumes "codec (writer_write heap_ok) writer_inv writer_holds (2 ^ 63) out inn enc valid"
    and "valid x" "length (enc x) \<le> 2 ^ 63"
  shows "\<exists>w bs r. out x (mk_writer uf) = Ret (True, w) \<and> writer_holds w bs \<and>
     inn (whole_reader bs) = Ret (Some x, r) \<and> reader_at r []"
proof -
  obtain w where w: "out x (mk_writer uf) = Ret (True, w)" "writer_holds w (enc x)"
    using codec.out_enc [OF assms(1) mk_writer_inv mk_writer_holds assms(2)] assms(3) by auto
  have "reader_at (whole_reader (enc x)) (enc x @ [])"
    using reader_at_mk [of "enc x"] assms(3) by simp
  then obtain r where "inn (whole_reader (enc x)) = Ret (Some x, r)" "reader_at r []"
    using codec.inn_enc [OF assms(1,2)] by blast
  with w show ?thesis by blast
qed

text \<open>
  Integers of every width survive serialisation into a fresh byte array and back: for
  each of \<^verbatim>\<open>uint64_t\<close>, \<^verbatim>\<open>int64_t\<close>, \<^verbatim>\<open>uint32_t\<close> and \<^verbatim>\<open>int32_t\<close> the serialiser reports success, and
  the deserialiser returns the value and consumes all bytes.
\<close>

theorem serialize_ints_roundtrip:
  "(\<exists>w bs r. serialize_u64 (writer_write heap_ok) a (mk_writer uf) = Ret (True, w) \<and>
      writer_holds w bs \<and> deserialize_u64 (whole_reader bs) = Ret (Some a, r) \<and> reader_at r []) \<and>
   (\<exists>w bs r. serialize_i64 (writer_write heap_ok) b (mk_writer uf) = Ret (True, w) \<and>
      writer_holds w bs \<and> deserialize_i64 (whole_reader bs) = Ret (Some b, r) \<and> reader_at r []) \<and>
   (\<exists>w bs r. serialize_u32 (writer_write heap_ok) c (mk_writer uf) = Ret (True, w) \<and>
      writer_holds w bs \<and> deserialize_u32 (whole_reader bs) = Ret (Some c, r) \<and> reader_at r []) \<and>
   (\<exists>w bs r. serialize_i32 (writer_write heap_ok) d (mk_writer uf) = Ret (True, w) \<and>
      writer_holds w bs \<and> deserialize_i32 (whole_reader bs) = Ret (Some d, r) \<and> reader_at r [])"
  by (intro conjI codec_fresh_roundtrip [OF wba.codec_u64] codec_fresh_roundtrip [OF wba.codec_i64]
      codec_fresh_roundtrip [OF wba.codec_u32] codec_fresh_roundtrip [OF wba.codec_i32])
     (auto intro: order_trans [OF length_enc_uint64_le])

text \<open>
  C25. Strings survive serialisation: any byte string up to the library's limit \<open>cap\<close> is
  written with its length and read back unchanged, and two different lists of strings never
  have the same serialised form (the encoding is prefix free).
\<close>

theorem serialize_string_roundtrip:
  assumes "length u \<le> cap" "length u + 9 \<le> 2 ^ 63" "length v \<le> cap" "length v + 9 \<le> 2 ^ 63"
  shows "(\<exists>w bs r. serialize_string (writer_write heap_ok) u (mk_writer uf) = Ret (True, w) \<and>
      writer_holds w bs \<and> deserialize_string cap (whole_reader bs) = Ret (Some u, r) \<and> reader_at r []) \<and>
    (length s < 2 ^ 62 \<longrightarrow> enc_string u @ s = enc_string v @ t \<longrightarrow> u = v \<and> s = t)"
proof (intro conjI impI)
  have len: "length (enc_string x) \<le> length x + 9" for x
    using length_enc_uint64_le [of "of_nat (length x)"] by (simp add: enc_string_def)
  show "\<exists>w bs r. serialize_string (writer_write heap_ok) u (mk_writer uf) = Ret (True, w) \<and>
      writer_holds w bs \<and> deserialize_string cap (whole_reader bs) = Ret (Some u, r) \<and> reader_at r []"
    using assms(1,2) len [of u] by (intro codec_fresh_roundtrip [OF wba.codec_string]) auto
  assume "length s < 2 ^ 62" "enc_string u @ s = enc_string v @ t"
  moreover have "length (enc_string u @ s) < 2 ^ 64"
    using \<open>length s < 2 ^ 62\<close> assms(2) len [of u] by simp
  ultimately show "u = v" "s = t"
    using wba_string.enc_prefix_free [of u cap v s t] assms by auto
qed

theorem serialize_string_roundtrip_witness:
  "\<exists>w bs r. serialize_string (writer_write heap_ok) [104, 105] (mk_writer True) = Ret (True, w) \<and>
      writer_holds w bs \<and> deserialize_string 10 (whole_reader bs) = Ret (Some [104, 105], r) \<and> reader_at r []"
  using serialize_string_roundtrip [of "[104, 105]" 10 "[]" True "[]" "[]"] by simp

lemma writer_holds_store:
  assumes "writer_inv w" "writer_holds w bs" "wb_bytes w \<noteq> NullP" "unat (wb_cur w) + unat sz \<le> 2 ^ 63"
    "length xs = unat sz"
  shows "\<exists>w' w''. writer_allocate heap_ok sz w = Ret (Buf_addr (unat (wb_cur w)), w') \<and>
     writer_store (unat (wb_cur w)) xs w' = Ret w'' \<and> writer_inv w'' \<and> writer_holds w'' (bs @ xs)"
proof -
  obtain w' where w': "writer_allocate heap_ok sz w = Ret (Buf_addr (unat (wb_cur w)), w')" "writer_inv w'"
      "wb_cur w' = wb_cur w + sz" "wb_bytes w' \<noteq> NullP"
      "take (unat (wb_cur w)) (writer_cells w') = take (unat (wb_cur w)) (writer_cells w)"
    using writer_allocate_ok [OF assms(1,4), of heap_ok] assms(3) by auto
  have cur: "unat (wb_cur w') = unat (wb_cur w) + length xs"
    using w'(3) assms(4,5) by (simp add: unat_add_no_wrap)
  then have "unat (wb_cur w) + length xs \<le> unat (wb_size w')"
    using writer_inv_cells [OF w'(2)] by (simp add: word_le_nat_alt)
  from writer_store_ok [OF w'(2,4) this] show ?thesis
    using w' cur assms(2) by (auto simp: writer_holds_def)
qed

text \<open>
  A protobuf message framed as length and blob is read back unchanged, given what
  protobuf documents: \<^verbatim>\<open>SerializeToArray\<close> fills exactly \<^verbatim>\<open>ByteSize\<close> bytes and parsing those
  bytes yields an equal message. Messages of \<open>2 ^ 31\<close> bytes and more are excluded: their
  length does not fit the stream's \<^verbatim>\<open>int\<close>.
\<close>

theorem proto_roundtrip:
  assumes "to_array x (byte_size x) = Some blob" "length blob = unat (byte_size x)"
    and "\<And>rest. parse (blob @ rest) (int (length blob)) = Some x"
    and "length blob < 2 ^ 31"
  shows "\<exists>w bs r. SerializeToByteArray heap_ok byte_size to_array x (Some (mk_writer uf)) = Ret (True, Some w) \<and>
     writer_holds w bs \<and>
     DeserizlizeFromByteArray parse (Some (whole_reader bs)) = Ret (Some x, Some r) \<and> reader_at r []"
proof -
  let ?sz = "byte_size x" and ?e = "enc_uint64 (byte_size x)"
  have e: "length ?e \<le> 9" by (rule length_enc_uint64_le)
  obtain w1 where w1: "serialize_u64 (writer_write heap_ok) ?sz (mk_writer uf) = Ret (True, w1)"
      "writer_inv w1" "writer_holds w1 ?e"
    using wba_u64.out_enc [OF mk_writer_inv mk_writer_holds, of ?sz uf] e by auto
  have cur: "unat (wb_cur w1) = length ?e" using writer_holds_length [OF w1(2,3)] by simp
  have nn: "wb_bytes w1 \<noteq> NullP"
    using w1(2) cur enc_uint64_nonempty [of ?sz] by (auto simp: writer_inv_def)
  have "unat (wb_cur w1) + unat ?sz \<le> 2 ^ 63" using cur e assms(2,4) by simp
  from writer_holds_store [OF w1(2,3) nn this assms(2)] w1(1) assms(1)
  obtain w2 where ser: "SerializeToByteArray heap_ok byte_size to_array x (Some (mk_writer uf)) = Ret (True, Some w2)"
      "writer_holds w2 (?e @ blob)"
    by (auto simp: SerializeToByteArray_def)
  have "reader_at (whole_reader (?e @ blob)) (?e @ blob)"
    using e assms(4) by (intro reader_at_mk) simp
  then obtain r1 where r1: "deserialize_u64 (whole_reader (?e @ blob)) = Ret (Some ?sz, r1)" "reader_at r1 (blob @ [])"
    using wba_u64.inn_enc [where x = ?sz and rest = blob] by auto
  have len: "sint (ucast ?sz :: u32) = int (length blob)"
    using assms(2,4) by (simp add: sint_ucast_small)
  have sz: "of_nat (length blob) = ?sz" using assms(2) by simp
  obtain r2 where "reader_read False ?sz r1 = Ret (True, [], r2)" "reader_at r2 []"
    using reader_at_read [OF r1(2), of False] sz by auto
  then have "DeserizlizeFromByteArray parse (Some (whole_reader (?e @ blob))) = Ret (Some x, Some r2)"
    using r1(1) reader_at_remain [OF r1(2)] len assms(3) [of "[]"]
    by (simp add: DeserizlizeFromByteArray_def)
  with ser \<open>reader_at r2 []\<close> show ?thesis by blast
qed

text \<open>A message type to instantiate the protobuf parameters: a single byte, stored as itself.\<close>

theorem proto_roundtrip_witness:
  "\<exists>w bs r. SerializeToByteArray heap_ok (\<lambda>_. 1) (\<lambda>b _. Some [b]) (7::u8) (Some (mk_writer True)) = Ret (True, Some w) \<and>
     writer_holds w bs \<and>
     DeserizlizeFromByteArray (\<lambda>m n. if n = 1 \<and> m \<noteq> [] then Some (hd m) else None) (Some (whole_reader bs)) =
       Ret (Some 7, Some r) \<and> reader_at r []"
  by (rule proto_roundtrip [of "\<lambda>b _. Some [b]" 7 "\<lambda>_. 1" "[7]"]) simp_all

text \<open>
  The length prefix of a protobuf frame is not checked against the bytes that are there:
  on any cursor whose prefix announces more bytes than remain (below \<open>2 ^ 31\<close>), the parser is
  handed memory behind the buffer.
\<close>

theorem proto_length_unchecked:
  assumes "reader_at r (enc_uint64 n @ rest)" "length rest < unat n" "unat n < 2 ^ 31"
  shows "DeserizlizeFromByteArray parse (Some r) = Undefined"
proof -
  obtain r1 where r1: "deserialize_u64 r = Ret (Some n, r1)" "reader_at r1 rest"
    using wba_u64.inn_enc [OF _ assms(1)] by auto
  have "sint (ucast n :: u32) = int (unat n)" using assms(3) by (rule sint_ucast_small)
  then have "sint (ucast n :: u32) > int (length rest)" using assms(2) by linarith
  then show ?thesis using r1 reader_at_remain [OF r1(2)]
    by (simp add: DeserizlizeFromByteArray_def Let_def)
qed

theorem proto_length_unchecked_witness:
  "DeserizlizeFromByteArray (\<lambda>_ _. None :: unit option) (Some (whole_reader (enc_uint64 5 @ [1, 2]))) = Undefined"
proof -
  have "reader_at (whole_reader (enc_uint64 5 @ [1, 2])) (enc_uint64 5 @ [1, 2])"
    using length_enc_uint64_le [of 5] by (intro reader_at_mk) simp
  from proto_length_unchecked [OF this] show ?thesis by simp
qed

end
