(* ===== verification/Rpc.thy ===== *)
theory Rpc
  imports Serializer
begin

text \<open>
  The RPC layer of \<^verbatim>\<open>sasuke/rpc.h\<close> and \<^verbatim>\<open>sasuke/rpc.cc\<close> over ZeroMQ: the retrying wrappers, the request
  format, the dispatcher \<^verbatim>\<open>ServiceCallBack::handle\<close>, the worker threads, the forwarding device, and the
  life cycle of client and server. ZeroMQ itself is a parameter: the results of its calls are
  arguments. The objects of user services are given by their \<^verbatim>\<open>serialize\<close> and \<^verbatim>\<open>deserialize\<close>.
\<close>

section \<open>Wrappers of zmq\<close>

text \<open>
  The successive results of a call, each with whether \<^verbatim>\<open>errno\<close> is \<^verbatim>\<open>EINTR\<close>; \<open>None\<close> while the loop is still going.
\<close>

fun zmq_retry :: "(int \<times> bool) list \<Rightarrow> int option" where
  "zmq_retry [] = None"
| "zmq_retry ((ret, eintr) # rs) = (if ret < 0 \<and> eintr then zmq_retry rs else Some ret)"

fun zmq_poll_retry :: "(int \<times> bool) list \<Rightarrow> int option" where
  "zmq_poll_retry [] = None"
| "zmq_poll_retry ((ret, eintr) # rs) =
     (if ret < 0 then (if eintr then zmq_poll_retry rs else zmq_poll_retry rs) else Some ret)"

text \<open>The destructor of \<^verbatim>\<open>Context\<close>: it compares the return value, not \<^verbatim>\<open>errno\<close>, with \<^verbatim>\<open>EINTR\<close>.\<close>

fun Context_dtor :: "int list \<Rightarrow> nat" where
  "Context_dtor [] = 0"
| "Context_dtor (ret # rs) = (if ret < 0 then (if ret = 4 then Suc (Context_dtor rs) else 1) else 1)"

text \<open>A \<^verbatim>\<open>zmq_msg_t\<close>; closing one that was never initialised is undefined.\<close>

datatype zmsg = Indeterminate | Closed | Holds "u8 list"

definition zmq_msg_close :: "zmsg \<Rightarrow> zmsg exec" where
  "zmq_msg_close m = (case m of Indeterminate \<Rightarrow> Undefined | _ \<Rightarrow> Ret Closed)"

definition zmq_put_msg :: "zmsg \<Rightarrow> u8 list \<Rightarrow> int \<Rightarrow> (int \<times> zmsg) exec" where
  "zmq_put_msg msg data ret = exec_bind (zmq_msg_close msg) (\<lambda>m.
     if ret < 0 then Ret (ret, m) else Ret (ret, Holds data))"

definition zmq_put_msg_ptr_internal_free :: "zmsg \<Rightarrow> u8 list \<Rightarrow> (int \<times> zmsg) exec" where
  "zmq_put_msg_ptr_internal_free msg data = exec_bind (zmq_msg_close msg) (\<lambda>m. Ret (0, Holds data))"

section \<open>The format of requests and responses\<close>

definition serialize_request ::
    "(nat \<Rightarrow> u64 \<Rightarrow> bool) \<Rightarrow> ('q \<Rightarrow> writer \<Rightarrow> (bool \<times> writer) exec) \<Rightarrow> u8 list \<Rightarrow> 'q \<Rightarrow> writer \<Rightarrow> (bool \<times> writer) exec" where
  "serialize_request mal ser method request bytes =
     exec_bind (serialize_string (writer_write mal) method bytes) (\<lambda>(ok, bytes).
       if \<not> ok then Ret (False, bytes)
       else exec_bind (ser request bytes) (\<lambda>(ok, bytes).
         if \<not> ok then Ret (False, bytes) else Ret (True, bytes)))"

definition deserialize_method :: "nat \<Rightarrow> reader \<Rightarrow> (u8 list option \<times> reader) exec" where
  "deserialize_method cap bytes = deserialize_string cap bytes"

definition serialize_response ::
    "('p \<Rightarrow> writer \<Rightarrow> (bool \<times> writer) exec) \<Rightarrow> 'p \<Rightarrow> writer \<Rightarrow> (bool \<times> writer) exec" where
  "serialize_response ser response bytes = ser response bytes"

definition deserialize_response :: "(reader \<Rightarrow> ('p option \<times> reader) exec) \<Rightarrow> reader \<Rightarrow> ('p option \<times> reader) exec" where
  "deserialize_response deser bytes = deser bytes"

section \<open>The dispatcher\<close>

record ('q, 'p) service =
  req_deserialize :: "reader \<Rightarrow> ('q option \<times> reader) exec"
  srv_run :: "'q \<Rightarrow> 'p"
  res_serialize :: "'p \<Rightarrow> writer \<Rightarrow> (bool \<times> writer) exec"

datatype srv_event = NewRequest | NewResponse | Ran | FreeRequest | FreeResponse

text \<open>
  The local pointers \<^verbatim>\<open>request\<close> and \<^verbatim>\<open>response\<close> of \<^verbatim>\<open>handle\<close>, of which only whether they are null matters
  for the clean-up (\<open>True\<close>: not null), and what has been done with the objects so far.
\<close>

record hvars =
  request_ptr :: bool
  response_ptr :: bool
  hlog :: "srv_event list"

definition hvars_init :: hvars where
  "hvars_init = \<lparr>request_ptr = False, response_ptr = False, hlog = []\<rparr>"

definition alloc_request :: "hvars \<Rightarrow> hvars" where
  "alloc_request v = v\<lparr>request_ptr := True, hlog := hlog v @ [NewRequest]\<rparr>"

definition alloc_response :: "hvars \<Rightarrow> hvars" where
  "alloc_response v = v\<lparr>response_ptr := True, hlog := hlog v @ [NewResponse]\<rparr>"

definition run_service :: "hvars \<Rightarrow> hvars" where
  "run_service v = v\<lparr>hlog := hlog v @ [Ran]\<rparr>"

text \<open>\<^verbatim>\<open>if(request) \{ deallocateRequest(request); request = NULL; \}\<close>, and the same for the response.\<close>

definition free_request :: "hvars \<Rightarrow> hvars" where
  "free_request v =
     (if request_ptr v then v\<lparr>request_ptr := False, hlog := hlog v @ [FreeRequest]\<rparr> else v)"

definition free_response :: "hvars \<Rightarrow> hvars" where
  "free_response v =
     (if response_ptr v then v\<lparr>response_ptr := False, hlog := hlog v @ [FreeResponse]\<rparr> else v)"

text \<open>The two tests stand before \<^verbatim>\<open>ret = 0\<close> and again after the label \<^verbatim>\<open>fail\<close>.\<close>

definition handle_cleanup :: "hvars \<Rightarrow> hvars" where
  "handle_cleanup v = free_response (free_request v)"

definition handle_fail :: "int \<Rightarrow> writer \<Rightarrow> hvars \<Rightarrow> (int \<times> writer \<times> srv_event list) exec" where
  "handle_fail ret out_bytes v = Ret (ret, out_bytes, hlog (handle_cleanup v))"

definition registerService ::
    "u8 list \<Rightarrow> ('q, 'p) service \<Rightarrow> (u8 list \<rightharpoonup> ('q, 'p) service) \<Rightarrow> (u8 list \<rightharpoonup> ('q, 'p) service)" where
  "registerService method s dispatcher = dispatcher(method \<mapsto> s)"

definition ServiceCallBack_handle ::
    "nat \<Rightarrow> (u8 list \<rightharpoonup> ('q, 'p) service) \<Rightarrow> reader \<Rightarrow> writer \<Rightarrow> (int \<times> writer \<times> srv_event list) exec" where
  "ServiceCallBack_handle cap dispatcher in_bytes out_bytes =
    (let ret = - 1; v = hvars_init in
     exec_bind (deserialize_method cap in_bytes) (\<lambda>(method, in_bytes).
     case method of
       None \<Rightarrow> handle_fail ret out_bytes v
     | Some method \<Rightarrow>
       (case dispatcher method of
          None \<Rightarrow> handle_fail ret out_bytes v
        | Some s \<Rightarrow>
          (let v = alloc_request v in
           exec_bind (req_deserialize s in_bytes) (\<lambda>(request, _).
           case request of
             None \<Rightarrow> handle_fail ret out_bytes v
           | Some request \<Rightarrow>
             (let v = alloc_response v;
                  response = srv_run s request;
                  v = run_service v in
              exec_bind (serialize_response (res_serialize s) response out_bytes) (\<lambda>(ok, out_bytes).
                if \<not> ok then handle_fail ret out_bytes v
                else let v = handle_cleanup v; ret = 0 in handle_fail ret out_bytes v)))))))"

lemmas hvars_defs = hvars_init_def alloc_request_def alloc_response_def run_service_def free_request_def
  free_response_def handle_cleanup_def handle_fail_def Let_def

section \<open>Client calls\<close>

definition recvInternalMessage :: "int \<Rightarrow> int \<Rightarrow> int" where
  "recvInternalMessage poll recv =
     (if poll < 0 then - 1 else if poll = 0 then - 1 else if recv < 0 then - 1 else 0)"

text \<open>\<^verbatim>\<open>sendPtrInternalFree\<close>: the local \<^verbatim>\<open>zmq_msg_t\<close> is not initialised before its old content is closed.\<close>

definition sendPtrInternalFree :: "u8 list \<Rightarrow> int \<Rightarrow> (int \<times> zmsg) exec" where
  "sendPtrInternalFree data send =
     (let msg = Indeterminate in
      exec_bind (zmq_put_msg_ptr_internal_free msg data) (\<lambda>(_, msg).
        if send < 0 then exec_bind (zmq_msg_close msg) (\<lambda>msg. Ret (- 1, msg))
        else Ret (0, msg)))"

definition Client_send_bytes :: "u8 list \<Rightarrow> int \<Rightarrow> int \<Rightarrow> (int \<times> zmsg) exec" where
  "Client_send_bytes data put send =
     (let msg = Holds [] in
      exec_bind (zmq_put_msg msg data put) (\<lambda>(ret, msg).
        if ret < 0 then exec_bind (zmq_msg_close msg) (\<lambda>msg. Ret (- 1, msg))
        else if send < 0 then exec_bind (zmq_msg_close msg) (\<lambda>msg. Ret (- 1, msg))
        else exec_bind (zmq_msg_close msg) (\<lambda>msg. Ret (0, msg))))"

definition Client_recv ::
    "(reader \<Rightarrow> ('p option \<times> reader) exec) \<Rightarrow> int \<Rightarrow> int \<Rightarrow> u8 list \<Rightarrow> (int \<times> 'p option) exec" where
  "Client_recv deser poll recv content =
     (if recvInternalMessage poll recv < 0 then Ret (- 1, None)
      else exec_bind (deserialize_response deser (mk_reader content (of_nat (length content)))) (\<lambda>(r, _).
        case r of None \<Rightarrow> Ret (- 1, None) | Some r \<Rightarrow> Ret (0, Some r)))"

section \<open>The worker threads\<close>

text \<open>
  \<^verbatim>\<open>Server::rpc_thread_function\<close>. ZeroMQ is a parameter: what \<^verbatim>\<open>_zmq_poll\<close>, \<^verbatim>\<open>_zmq_recv\<close> and \<^verbatim>\<open>_zmq_send\<close> do with the
  state of the worker's socket. The list gives what the tests of \<^verbatim>\<open>stop_\<close> find, one per turn of the loop;
  when it is used up the worker is still running. The result is the log of the requests received
  and the replies sent, and how the worker ended.
\<close>

record ('z, 'i, 'o) zsock =
  z_poll :: "'z \<Rightarrow> int \<times> 'z"
  z_recv :: "'z \<Rightarrow> 'i option \<times> 'z"
  z_send :: "'o \<Rightarrow> 'z \<Rightarrow> bool \<times> 'z"

datatype ('i, 'o) wevent = Got 'i | Sent 'o

datatype wend = Running | Stopped | Failed

fun rpc_loop ::
    "('z, 'i, 'o) zsock \<Rightarrow> ('i \<Rightarrow> 'o option) option \<Rightarrow> 'z \<Rightarrow> bool list \<Rightarrow> (('i, 'o) wevent list \<times> wend) exec" where
  "rpc_loop Z call_back z [] = Ret ([], Running)"
| "rpc_loop Z call_back z (stop # stops) =
     (if stop then Ret ([], Stopped)
      else let (ret, z) = z_poll Z z in
        if ret < 0 then Ret ([], Failed)
        else if ret = 0 then rpc_loop Z call_back z stops
        else let (msg, z) = z_recv Z z in
          case msg of
            None \<Rightarrow> Ret ([], Failed)
          | Some m \<Rightarrow>
            (case call_back of
               None \<Rightarrow> Fatal
             | Some handle \<Rightarrow>
               (case handle m of
                  None \<Rightarrow> exec_bind (rpc_loop Z call_back z stops) (\<lambda>(es, e). Ret (Got m # es, e))
                | Some reply \<Rightarrow>
                  (let (ok, z) = z_send Z reply z in
                   if \<not> ok then Ret ([Got m], Failed)
                   else exec_bind (rpc_loop Z call_back z stops) (\<lambda>(es, e). Ret (Got m # Sent reply # es, e))))))"

definition rpc_thread_function ::
    "bool \<Rightarrow> bool \<Rightarrow> ('z, 'i, 'o) zsock \<Rightarrow> ('i \<Rightarrow> 'o option) option \<Rightarrow> 'z \<Rightarrow> bool list \<Rightarrow>
     (('i, 'o) wevent list \<times> wend) exec" where
  "rpc_thread_function socket_ok connect_ok Z call_back z stops =
     (if \<not> socket_ok then Ret ([], Failed)
      else if \<not> connect_ok then Ret ([], Failed)
      else rpc_loop Z call_back z stops)"

section \<open>The device\<close>

text \<open>
  One message is pumped part by part. Every part comes with the results of \<^verbatim>\<open>recv\<close>, of \<^verbatim>\<open>getsockopt\<close> and of \<^verbatim>\<open>send\<close>.
\<close>

record 'b part =
  content :: 'b
  more_parts :: bool
  recv_ok :: bool
  opt_ok :: bool
  send_ok :: bool

datatype 'b pumped = PumpDone "'b part list" | PumpFail | PumpWait

fun device_pump :: "'b part list \<Rightarrow> ('b \<times> bool) list \<times> 'b pumped" where
  "device_pump [] = ([], PumpWait)"
| "device_pump (p # ps) =
     (if \<not> recv_ok p then ([], PumpFail)
      else if \<not> opt_ok p then ([], PumpFail)
      else if \<not> send_ok p then ([], PumpFail)
      else if \<not> more_parts p then ([(content p, more_parts p)], PumpDone ps)
      else (let (out, r) = device_pump ps in ((content p, more_parts p) # out, r)))"

text \<open>A round of the loop: what is ready at the front goes to the back, what is ready at the back to the front.\<close>

definition device_round ::
    "bool \<Rightarrow> bool \<Rightarrow> 'b part list \<Rightarrow> 'b part list \<Rightarrow>
     (('b \<times> bool) list \<times> ('b \<times> bool) list \<times> 'b pumped \<times> 'b pumped)" where
  "device_round front_ready back_ready front back =
     (let (to_back, f) = (if front_ready then device_pump front else ([], PumpDone front)) in
      case f of PumpDone front' \<Rightarrow>
          (let (to_front, b) = (if back_ready then device_pump back else ([], PumpDone back))
           in (to_back, to_front, f, b))
      | _ \<Rightarrow> (to_back, [], f, PumpWait))"

section \<open>Life cycle\<close>

text \<open>\<open>open_socks\<close> is what ZeroMQ has open; sockets are numbered as they are created.\<close>

record conn =
  main_socket :: "nat option"
  back_socket :: "nat option"
  stopped :: bool
  threads_count :: "int option"
  open_socks :: "nat set"
  next_sock :: nat

definition Server_ctor :: conn where
  "Server_ctor = \<lparr>main_socket = None, back_socket = None, stopped = True, threads_count = None,
     open_socks = {}, next_sock = 0\<rparr>"

definition zmq_socket :: "bool \<Rightarrow> conn \<Rightarrow> nat option \<times> conn" where
  "zmq_socket ok c = (if ok then (Some (next_sock c), c\<lparr>open_socks := insert (next_sock c) (open_socks c),
     next_sock := Suc (next_sock c)\<rparr>) else (None, c))"

definition close_opt :: "nat option \<Rightarrow> nat set \<Rightarrow> nat set" where
  "close_opt s socks = (case s of None \<Rightarrow> socks | Some s \<Rightarrow> socks - {s})"

definition Server_close :: "conn \<Rightarrow> conn" where
  "Server_close c = c\<lparr>open_socks := close_opt (back_socket c) (close_opt (main_socket c) (open_socks c)),
     main_socket := None, back_socket := None\<rparr>"

definition Server_run :: "int \<Rightarrow> bool \<Rightarrow> bool \<Rightarrow> bool \<Rightarrow> bool \<Rightarrow> conn \<Rightarrow> (int \<times> conn) exec" where
  "Server_run callback_threads sock1 bind1 sock2 bind2 c =
     (if \<not> stopped c then Ret (- 1, c)
      else if callback_threads \<le> 0 then Fatal
      else
        let c = c\<lparr>threads_count := Some callback_threads\<rparr>;
            (s, c) = zmq_socket sock1 c;
            c = c\<lparr>main_socket := s\<rparr>
        in if s = None then Ret (- 1, Server_close c)
           else if \<not> bind1 then Ret (- 1, Server_close c)
           else
             let (s, c) = zmq_socket sock2 c;
                 c = c\<lparr>back_socket := s\<rparr>
             in if s = None then Ret (- 1, Server_close c)
                else if \<not> bind2 then Ret (- 1, Server_close c)
                else Ret (0, c\<lparr>stopped := False\<rparr>))"

text \<open>\<^verbatim>\<open>stop\<close> joins \<^verbatim>\<open>callback_threads_\<close> threads, a number only \<^verbatim>\<open>run\<close> sets.\<close>

definition Server_stop :: "conn \<Rightarrow> conn exec" where
  "Server_stop c = (case threads_count c of None \<Rightarrow> Undefined | Some _ \<Rightarrow> Ret (c\<lparr>stopped := True\<rparr>))"

definition Client_close :: "conn \<Rightarrow> conn" where
  "Client_close c = c\<lparr>open_socks := close_opt (main_socket c) (open_socks c), main_socket := None\<rparr>"

definition Client_connect :: "bool \<Rightarrow> bool \<Rightarrow> conn \<Rightarrow> int \<times> conn" where
  "Client_connect sock conn_ok c =
     (let (s, c) = zmq_socket sock c;
          c = c\<lparr>main_socket := s\<rparr>
      in if s = None then (- 1, Client_close c)
         else if \<not> conn_ok then (- 1, Client_close c)
         else (0, c))"

definition Client_reconnect :: "bool \<Rightarrow> bool \<Rightarrow> conn \<Rightarrow> int \<times> conn" where
  "Client_reconnect sock conn_ok c = Client_connect sock conn_ok (Client_close c)"

text \<open>Every open socket is referred to by the object.\<close>

definition no_leak :: "conn \<Rightarrow> bool" where
  "no_leak c \<longleftrightarrow> open_socks c = set_option (main_socket c) \<union> set_option (back_socket c)"

section \<open>Properties\<close>

abbreviation rpc_codec where
  "rpc_codec ser deser enc valid \<equiv> codec (writer_write heap_ok) writer_inv writer_holds (2 ^ 63) ser deser enc valid"

text \<open>The run of a remote call, byte by byte.\<close>

lemma rpc_call_run:
  assumes "rpc_codec qser (req_deserialize s) qenc qvalid" "rpc_codec (res_serialize s) pdeser penc pvalid"
    and "length mth \<le> cap" "qvalid q" "pvalid (srv_run s q)"
    and "length mth + 9 + length (qenc q) \<le> 2 ^ 63" "length (penc (srv_run s q)) \<le> 2 ^ 63"
  shows "\<exists>w bs w' out log. serialize_request heap_ok qser mth q (mk_writer True) = Ret (True, w) \<and> writer_holds w bs
    \<and> ServiceCallBack_handle cap (registerService mth s disp) (whole_reader bs) (mk_writer True) = Ret (0, w', log)
    \<and> count_list log Ran = 1 \<and> writer_holds w' out
    \<and> Client_recv pdeser 1 0 out = Ret (0, Some (srv_run s q))"
proof -
  let ?bs = "enc_string mth @ qenc q"
  have len: "length (enc_string mth) \<le> length mth + 9"
    using length_enc_uint64_le [of "of_nat (length mth)"] by (simp add: enc_string_def)
  have m: "length mth < 2 ^ 64" using assms(6) by simp
  obtain w1 where w1: "serialize_string (writer_write heap_ok) mth (mk_writer True) = Ret (True, w1)" "writer_inv w1"
      "writer_holds w1 (enc_string mth)"
    using wba_string.out_enc [OF mk_writer_inv [of True] mk_writer_holds, of "mth" "cap"] assms(3,6) len m by auto
  obtain w where w: "qser q w1 = Ret (True, w)" "writer_holds w ?bs"
    using codec.out_enc [OF assms(1) w1(2,3) assms(4)] assms(6) len by auto
  have bs: "length ?bs < 2 ^ 64" using assms(6) len by simp
  have "reader_at (whole_reader ?bs) (enc_string mth @ qenc q @ [])" using reader_at_mk [OF bs] by simp
  then obtain r where r: "deserialize_string cap (whole_reader ?bs) = Ret (Some mth, r)" "reader_at r (qenc q @ [])"
    using deserialize_string_enc [OF m assms(3)] by blast
  obtain r' where r': "req_deserialize s r = Ret (Some q, r')"
    using codec.inn_enc [OF assms(1,4) r(2)] by blast
  obtain w' where w': "res_serialize s (srv_run s q) (mk_writer True) = Ret (True, w')" "writer_holds w' (penc (srv_run s q))"
    using codec.out_enc [OF assms(2) mk_writer_inv mk_writer_holds assms(5)] assms(7) by auto
  have "reader_at (whole_reader (penc (srv_run s q))) (penc (srv_run s q) @ [])"
    using reader_at_mk [of "penc (srv_run s q)"] assms(7) by simp
  then obtain r'' where "pdeser (whole_reader (penc (srv_run s q))) = Ret (Some (srv_run s q), r'')"
    using codec.inn_enc [OF assms(2,5)] by blast
  then have "Client_recv pdeser 1 0 (penc (srv_run s q)) = Ret (0, Some (srv_run s q))"
    by (simp add: Client_recv_def recvInternalMessage_def deserialize_response_def)
  moreover have "serialize_request heap_ok qser mth q (mk_writer True) = Ret (True, w)"
    using w1 w by (simp add: serialize_request_def)
  moreover have "ServiceCallBack_handle cap (registerService mth s disp) (whole_reader ?bs) (mk_writer True)
      = Ret (0, w', [NewRequest, NewResponse, Ran, FreeRequest, FreeResponse])"
    using r r' w' by (simp add: ServiceCallBack_handle_def deserialize_method_def registerService_def serialize_response_def
        hvars_defs)
  ultimately show ?thesis using w w' by (intro exI conjI) (assumption | simp)+
qed

text \<open>
  C3. A remote call computes the service: when request and response objects round-trip through byte
  arrays, the bytes the client sends for a registered method make \<^verbatim>\<open>ServiceCallBack::handle\<close> succeed,
  run that service once on that request, and produce bytes that the client deserialises to the service's answer.
\<close>

theorem rpc_call_correct:
  assumes "rpc_codec qser (req_deserialize s) qenc qvalid" "rpc_codec (res_serialize s) pdeser penc pvalid"
    and "length method \<le> cap" "qvalid q" "pvalid (srv_run s q)"
    and "length method + 9 + length (qenc q) \<le> 2 ^ 63" "length (penc (srv_run s q)) \<le> 2 ^ 63"
  shows "\<exists>w bs w' out log. serialize_request heap_ok qser method q (mk_writer True) = Ret (True, w) \<and> writer_holds w bs
    \<and> ServiceCallBack_handle cap (registerService method s disp) (whole_reader bs) (mk_writer True) = Ret (0, w', log)
    \<and> count_list log Ran = 1 \<and> writer_holds w' out
    \<and> Client_recv pdeser 1 0 out = Ret (0, Some (srv_run s q))"
  using assms by (rule rpc_call_run)

definition echo_service :: "(u8 list, u8 list) service" where
  "echo_service = \<lparr>req_deserialize = deserialize_string 100, srv_run = rev, res_serialize = serialize_string (writer_write heap_ok)\<rparr>"

theorem rpc_call_correct_witness:
  "\<exists>w bs w' out log. serialize_request heap_ok (serialize_string (writer_write heap_ok)) [101] [1, 2] (mk_writer True) = Ret (True, w)
    \<and> writer_holds w bs
    \<and> ServiceCallBack_handle 100 (registerService [101] echo_service Map.empty) (whole_reader bs) (mk_writer True) = Ret (0, w', log)
    \<and> count_list log Ran = 1 \<and> writer_holds w' out
    \<and> Client_recv (deserialize_string 100) 1 0 out = Ret (0, Some [2, 1])"
proof -
  have len: "length (enc_string [1, 2]) \<le> 11" "length (enc_string [2, 1]) \<le> 11"
    using length_enc_uint64_le [of 2] by (simp_all add: enc_string_def)
  show ?thesis
    using rpc_call_correct [of "serialize_string (writer_write heap_ok)" echo_service enc_string
        "\<lambda>u. length u < 2 ^ 64 \<and> length u \<le> 100" "deserialize_string 100" enc_string
        "\<lambda>u. length u < 2 ^ 64 \<and> length u \<le> 100" "[101]" 100 "[1, 2]" Map.empty]
      wba.codec_string [of 100] len by (simp add: echo_service_def)
qed

text \<open>The paths through the dispatcher.\<close>

lemma handle_log:
  assumes "ServiceCallBack_handle cap disp r w = Ret (ret, w', log)"
  shows "(ret = - 1 \<and> (log = [] \<or> log = [NewRequest, FreeRequest])) \<or>
    ((ret = 0 \<or> ret = - 1) \<and> log = [NewRequest, NewResponse, Ran, FreeRequest, FreeResponse])"
proof -
  obtain m r1 where m: "deserialize_method cap r = Ret (m, r1)"
    using assms by (auto simp: ServiceCallBack_handle_def exec_bind_Ret Let_def)
  show ?thesis
  proof (cases "m = None \<or> disp (the m) = None")
    case True
    with assms m show ?thesis by (auto simp: ServiceCallBack_handle_def hvars_defs split: option.splits)
  next
    case False
    then obtain x s where x: "m = Some x" "disp x = Some s" by auto
    with assms m obtain q r2 where q: "req_deserialize s r1 = Ret (q, r2)"
      by (auto simp: ServiceCallBack_handle_def exec_bind_Ret Let_def)
    show ?thesis
    proof (cases q)
      case None
      with assms m x q show ?thesis by (auto simp: ServiceCallBack_handle_def hvars_defs)
    next
      case (Some y)
      with assms m x q show ?thesis
        by (auto simp: ServiceCallBack_handle_def hvars_defs exec_bind_Ret split: if_splits)
    qed
  qed
qed

text \<open>The request and response objects alive after a log, and a log that treats them properly.\<close>

definition live_objects :: "srv_event list \<Rightarrow> int \<times> int" where
  "live_objects log = (int (count_list log NewRequest) - int (count_list log FreeRequest),
     int (count_list log NewResponse) - int (count_list log FreeResponse))"

definition handle_ok :: "srv_event list \<Rightarrow> bool" where
  "handle_ok log \<longleftrightarrow> live_objects log = (0, 0) \<and> count_list log NewRequest \<le> 1 \<and> count_list log NewResponse \<le> 1
     \<and> (\<forall>k. fst (live_objects (take k log)) \<in> {0, 1} \<and> snd (live_objects (take k log)) \<in> {0, 1})
     \<and> (\<forall>k < length log. log ! k = Ran \<longrightarrow> live_objects (take k log) = (1, 1))"

text \<open>
  C21. The dispatcher neither leaks nor double-frees: on every path through \<^verbatim>\<open>handle\<close>, including every
  \<^verbatim>\<open>goto fail\<close>, the null tests of the clean-up free each request and response object that was allocated
  exactly once and never one that is not there, the service runs at most once, while both objects are
  alive, and \<open>0\<close> is returned only after it ran.
\<close>

theorem handle_balanced:
  "ServiceCallBack_handle cap disp r w = Ret (ret, w', log) \<longrightarrow>
     live_objects log = (0, 0) \<and> count_list log NewRequest \<le> 1 \<and> count_list log NewResponse \<le> 1
     \<and> (\<forall>k. fst (live_objects (take k log)) \<in> {0, 1} \<and> snd (live_objects (take k log)) \<in> {0, 1})
     \<and> (\<forall>k < length log. log ! k = Ran \<longrightarrow> live_objects (take k log) = (1, 1))
     \<and> (ret = 0 \<or> ret = - 1) \<and> (ret = 0 \<longrightarrow> count_list log Ran = 1) \<and> count_list log Ran \<le> 1"
proof -
  have "fst (live_objects (take k [NewRequest, FreeRequest])) \<in> {0, 1}
      \<and> snd (live_objects (take k [NewRequest, FreeRequest])) \<in> {0, 1}" for k
    by (auto simp: live_objects_def take_Cons split: nat.splits)
  moreover have "fst (live_objects (take k [NewRequest, NewResponse, Ran, FreeRequest, FreeResponse])) \<in> {0, 1}
      \<and> snd (live_objects (take k [NewRequest, NewResponse, Ran, FreeRequest, FreeResponse])) \<in> {0, 1}" for k
    by (auto simp: live_objects_def take_Cons split: nat.splits)
  moreover have "\<forall>k < 5. [NewRequest, NewResponse, Ran, FreeRequest, FreeResponse] ! k = Ran \<longrightarrow>
      live_objects (take k [NewRequest, NewResponse, Ran, FreeRequest, FreeResponse]) = (1, 1)"
    by (auto simp: live_objects_def less_Suc_eq numeral_eq_Suc)
  moreover have "\<forall>k < 2. [NewRequest, FreeRequest] ! k \<noteq> Ran" by (auto simp: less_Suc_eq numeral_eq_Suc)
  ultimately have "handle_ok log \<and> count_list log Ran \<le> 1 \<and> (ret = 0 \<or> ret = - 1) \<and> (ret = 0 \<longrightarrow> count_list log Ran = 1)"
    if "ServiceCallBack_handle cap disp r w = Ret (ret, w', log)"
    using handle_log [OF that] by (elim disjE conjE) (simp_all add: handle_ok_def live_objects_def)
  then show ?thesis by (auto simp: handle_ok_def)
qed

text \<open>A request of a known method whose object does not deserialise, and one that is served.\<close>

theorem handle_balanced_witness:
  "live_objects [NewRequest, FreeRequest] = (0, 0)
   \<and> live_objects [NewRequest, NewResponse, Ran, FreeRequest, FreeResponse] = (0, 0)"
proof -
  let ?H = "\<lambda>bs. ServiceCallBack_handle 100 [[101] \<mapsto> echo_service] (whole_reader bs) (mk_writer True)"
  have "(case ?H [2, 101, 5] of Ret (r, _, log) \<Rightarrow> log = [NewRequest, FreeRequest] | _ \<Rightarrow> False)"
    by code_simp
  then obtain r1 w1 where "?H [2, 101, 5] = Ret (r1, w1, [NewRequest, FreeRequest])"
    by (cases "?H [2, 101, 5]") auto
  moreover have "(case ?H [2, 101, 4, 7, 8] of
      Ret (r, _, log) \<Rightarrow> log = [NewRequest, NewResponse, Ran, FreeRequest, FreeResponse] | _ \<Rightarrow> False)"
    by code_simp
  then obtain r2 w2 where "?H [2, 101, 4, 7, 8] = Ret (r2, w2, [NewRequest, NewResponse, Ran, FreeRequest, FreeResponse])"
    by (cases "?H [2, 101, 4, 7, 8]") auto
  ultimately show ?thesis using handle_balanced by blast
qed

text \<open>
  What the \<^verbatim>\<open>ZMQ_REP\<close> pattern promises: a receive that succeeds leaves a reply due, and while a reply is
  due another receive fails (\<^verbatim>\<open>EFSM\<close>); polling does not change that.
\<close>

definition rep_socket :: "('z, 'i, 'o) zsock \<Rightarrow> ('z \<Rightarrow> bool) \<Rightarrow> bool" where
  "rep_socket Z due \<longleftrightarrow> (\<forall>z m z'. z_recv Z z = (Some m, z') \<longrightarrow> due z')
     \<and> (\<forall>z. due z \<longrightarrow> fst (z_recv Z z) = None) \<and> (\<forall>z. due z \<longrightarrow> due (snd (z_poll Z z)))"

lemma worker_due:
  "rep_socket Z due \<Longrightarrow> due z \<Longrightarrow> \<exists>e. rpc_loop Z (Some handle) z stops = Ret ([], e)"
proof (induction stops arbitrary: z)
  case (Cons st stops)
  obtain ret z1 where p: "z_poll Z z = (ret, z1)" by (cases "z_poll Z z")
  with Cons.prems have d: "due z1" by (auto simp: rep_socket_def dest: spec [of _ z])
  then obtain z2 where "z_recv Z z1 = (None, z2)"
    using Cons.prems(1) by (cases "z_recv Z z1") (auto simp: rep_socket_def dest: spec [of _ z1])
  with p Cons.IH [OF Cons.prems(1) d] show ?case by auto
qed simp

abbreviation served :: "('i \<Rightarrow> 'o option) \<Rightarrow> 'i list \<Rightarrow> ('i, 'o) wevent list" where
  "served handle ms \<equiv> concat (map (\<lambda>m. [Got m, Sent (the (handle m))]) ms)"

lemma worker_log:
  "rep_socket Z due \<Longrightarrow> \<exists>good rest e. rpc_loop Z (Some handle) z stops = Ret (served handle good @ rest, e)
     \<and> (\<forall>m \<in> set good. handle m \<noteq> None)
     \<and> (rest = [] \<or> (\<exists>m. rest = [Got m] \<and> (handle m = None \<or> e = Failed)))"
proof (induction stops arbitrary: z)
  case Nil
  show ?case by (intro exI [of _ "[]"]) simp
next
  case (Cons st stops)
  obtain ret z1 where p: "z_poll Z z = (ret, z1)" by (cases "z_poll Z z")
  obtain msg z2 where r: "z_recv Z z1 = (msg, z2)" by (cases "z_recv Z z1")
  show ?case
  proof (cases "st \<or> ret < 0 \<or> (ret \<noteq> 0 \<and> msg = None)")
    case True
    with p r show ?thesis by (intro exI [of _ "[]"]) auto
  next
    case False
    show ?thesis
    proof (cases "ret = 0")
      case True
      with False p Cons.IH [OF Cons.prems, of z1] show ?thesis by simp
    next
      case nz: False
      with False obtain m where m: "msg = Some m" by auto
      show ?thesis
      proof (cases "handle m")
        case None
        have "due z2" using Cons.prems r m by (auto simp: rep_socket_def)
        from worker_due [OF Cons.prems this] obtain e where "rpc_loop Z (Some handle) z2 stops = Ret ([], e)" by blast
        with False nz p r m None show ?thesis by (intro exI [of _ "[]"] exI [of _ "[Got m]"] exI [of _ e]) auto
      next
        case (Some reply)
        obtain ok z3 where s: "z_send Z reply z2 = (ok, z3)" by (cases "z_send Z reply z2")
        show ?thesis
        proof (cases ok)
          case False
          with \<open>\<not> (st \<or> ret < 0 \<or> ret \<noteq> 0 \<and> msg = None)\<close> nz p r m Some s show ?thesis
            by (intro exI [of _ "[]"] exI [of _ "[Got m]"] exI [of _ Failed]) auto
        next
          case True
          from Cons.IH [OF Cons.prems, of z3] obtain good rest e where
            "rpc_loop Z (Some handle) z3 stops = Ret (served handle good @ rest, e)"
            "\<forall>m \<in> set good. handle m \<noteq> None"
            "rest = [] \<or> (\<exists>m. rest = [Got m] \<and> (handle m = None \<or> e = Failed))" by blast
          with False True nz p r m Some s show ?thesis by (intro exI [of _ "m # good"] exI [of _ rest]) auto
        qed
      qed
    qed
  qed
qed

text \<open>
  C22. What a worker does over its lifetime, on any socket that keeps the \<^verbatim>\<open>ZMQ_REP\<close> pattern and with any
  failures of \<^verbatim>\<open>poll\<close>, \<^verbatim>\<open>recv\<close> and \<^verbatim>\<open>send\<close>: it answers each request it receives with the answer \<^verbatim>\<open>handle\<close> gave
  for it, before it receives the next one. At most one request stays unanswered, the last one: its
  \<^verbatim>\<open>handle\<close> failed, or sending its answer failed and ended the worker. So one request that \<^verbatim>\<open>handle\<close>
  refuses silences the worker for good, since the code goes on without a reply.
\<close>

theorem worker_answers:
  assumes "rep_socket Z due"
  shows "\<exists>good rest e. rpc_thread_function True True Z (Some handle) z stops = Ret (served handle good @ rest, e)
     \<and> (\<forall>m \<in> set good. handle m \<noteq> None)
     \<and> (rest = [] \<or> (\<exists>m. rest = [Got m] \<and> (handle m = None \<or> e = Failed)))"
  using worker_log [OF assms] by (simp add: rpc_thread_function_def)

text \<open>A socket with a queue of requests that keeps the pattern, and a handler that refuses 0.\<close>

definition sample_rep :: "(nat list \<times> bool, nat, nat) zsock" where
  "sample_rep = \<lparr>z_poll = (\<lambda>z. (if fst z = [] then 0 else 1, z)),
     z_recv = (\<lambda>(q, due). if due \<or> q = [] then (None, (q, due)) else (Some (hd q), (tl q, True))),
     z_send = (\<lambda>r (q, due). (due, (q, False)))\<rparr>"

definition sample_handle :: "nat \<Rightarrow> nat option" where
  "sample_handle m = (if m = 0 then None else Some (m + 1))"

theorem worker_answers_witness:
  "rpc_thread_function True True sample_rep (Some sample_handle) ([3, 4, 0, 5], False) (replicate 9 False)
     = Ret (served sample_handle [3, 4] @ [Got 0], Failed)
   \<and> (\<exists>good rest e. served sample_handle [3, 4] @ [Got 0] = served sample_handle good @ rest
        \<and> (\<forall>m \<in> set good. sample_handle m \<noteq> None) \<and> (rest = [] \<or> (\<exists>m. rest = [Got m])))"
proof -
  have run: "rpc_thread_function True True sample_rep (Some sample_handle) ([3, 4, 0, 5], False) (replicate 9 False)
     = Ret (served sample_handle [3, 4] @ [Got 0], Failed)"
    by code_simp
  have "rep_socket sample_rep snd"
    by (auto simp: rep_socket_def sample_rep_def split: if_splits prod.splits)
  from worker_answers [OF this, of sample_handle "([3, 4, 0, 5], False)" "replicate 9 False"] run show ?thesis by auto
qed

definition message_parts :: "'b part list \<Rightarrow> bool" where
  "message_parts ps \<longleftrightarrow> ps \<noteq> [] \<and> (\<forall>p \<in> set (butlast ps). more_parts p) \<and> \<not> more_parts (last ps)"

abbreviation sent_parts :: "'b part list \<Rightarrow> ('b \<times> bool) list" where
  "sent_parts ps \<equiv> map (\<lambda>p. (content p, more_parts p)) ps"

abbreviation part_ok :: "'b part \<Rightarrow> bool" where
  "part_ok p \<equiv> recv_ok p \<and> opt_ok p \<and> send_ok p"

lemma device_pump_ok:
  "message_parts ps \<Longrightarrow> \<forall>p \<in> set ps. part_ok p \<Longrightarrow> device_pump (ps @ rest) = (sent_parts ps, PumpDone rest)"
proof (induction ps)
  case (Cons p ps)
  then show ?case by (cases "ps = []") (auto simp: message_parts_def)
qed (simp add: message_parts_def)

lemma device_pump_prefix:
  "message_parts ps \<Longrightarrow> \<exists>n. fst (device_pump (ps @ rest)) = take n (sent_parts ps)"
proof (induction ps)
  case (Cons p ps)
  show ?case
  proof (cases "ps = [] \<or> \<not> part_ok p")
    case True
    with Cons.prems have "fst (device_pump ((p # ps) @ rest)) = take (if part_ok p then 1 else 0) (sent_parts (p # ps))"
      by (auto simp: message_parts_def)
    then show ?thesis by blast
  next
    case False
    with Cons.prems have mp: "message_parts ps" "more_parts p" by (auto simp: message_parts_def)
    then obtain n where "fst (device_pump (ps @ rest)) = take n (sent_parts ps)" using Cons.IH by blast
    with False mp have "fst (device_pump ((p # ps) @ rest)) = take (Suc n) (sent_parts (p # ps))"
      by (auto simp: split_def Let_def)
    then show ?thesis by blast
  qed
qed (simp add: message_parts_def)

text \<open>
  C23. The device forwards whole messages: when no call fails, pumping a message of any number of parts
  sends exactly its parts, in order and with the same continuation flags, and stops after the last part;
  when some call fails, what has been sent is a prefix of the parts.
\<close>

theorem device_forwards_message:
  assumes "message_parts ps"
  shows "((\<forall>p \<in> set ps. part_ok p) \<longrightarrow> device_pump (ps @ rest) = (sent_parts ps, PumpDone rest))
    \<and> (\<exists>n. fst (device_pump (ps @ rest)) = take n (sent_parts ps))"
  using device_pump_ok [OF assms] device_pump_prefix [OF assms] by blast

definition sample_part :: "nat \<Rightarrow> bool \<Rightarrow> nat part" where
  "sample_part c m = \<lparr>content = c, more_parts = m, recv_ok = True, opt_ok = True, send_ok = True\<rparr>"

theorem device_forwards_message_witness:
  "device_pump [sample_part 1 True, sample_part 2 False, sample_part 3 False]
     = ([(1, True), (2, False)], PumpDone [sample_part 3 False])"
  using device_forwards_message [of "[sample_part 1 True, sample_part 2 False]" "[sample_part 3 False]"]
  by (simp add: message_parts_def sample_part_def)

text \<open>
  \<^verbatim>\<open>run\<close> cleans up behind itself the first time: from a server with no open socket every failing path
  closes what it opened, and success leaves exactly the two sockets of the object. But \<^verbatim>\<open>stop\<close> closes
  nothing, so a second \<^verbatim>\<open>run\<close>, successful or not, leaves the sockets of the first one open and unreachable.
\<close>

theorem server_lifecycle:
  assumes "stopped c" "main_socket c = None" "back_socket c = None" "open_socks c = {}" "0 < n"
    and "Server_run n s1 b1 s2 b2 c = Ret (ret, c')"
  shows "no_leak c' \<and> (ret = - 1 \<longrightarrow> open_socks c' = {}) \<and>
    (ret = 0 \<longrightarrow> (\<exists>c''. Server_stop c' = Ret c'' \<and> open_socks c'' = open_socks c' \<and>
       (\<forall>n' s1' b1' s2' b2' ret' d. Server_run n' s1' b1' s2' b2' c'' = Ret (ret', d) \<and> s1' \<longrightarrow> \<not> no_leak d)))"
proof -
  have run: "(ret = - 1 \<and> open_socks c' = {} \<and> main_socket c' = None \<and> back_socket c' = None) \<or>
     (ret = 0 \<and> main_socket c' = Some (next_sock c) \<and> back_socket c' = Some (Suc (next_sock c))
       \<and> open_socks c' = {next_sock c, Suc (next_sock c)} \<and> next_sock c' = Suc (Suc (next_sock c))
       \<and> threads_count c' = Some n)"
    using assms
    by (auto simp: Server_run_def Server_close_def zmq_socket_def close_opt_def Let_def split: if_splits)
  moreover have "\<not> no_leak d" if "ret = 0" "Server_run n' True b1' s2' b2' (c'\<lparr>stopped := True\<rparr>) = Ret (ret', d)"
    for n' b1' s2' b2' ret' d
  proof -
    have "next_sock c \<in> open_socks d \<and> main_socket d \<noteq> Some (next_sock c) \<and> back_socket d \<noteq> Some (next_sock c)"
      using run that
      by (auto simp: Server_run_def Server_close_def zmq_socket_def close_opt_def Let_def split: if_splits)
    then show ?thesis by (auto simp: no_leak_def)
  qed
  ultimately show ?thesis by (auto simp: no_leak_def Server_stop_def)
qed

theorem server_lifecycle_witness:
  "\<exists>c'. Server_run 4 True True True False Server_ctor = Ret (- 1, c') \<and> open_socks c' = {}"
proof -
  obtain c' where r: "Server_run 4 True True True False Server_ctor = Ret (- 1, c')"
    by (simp add: Server_run_def Server_ctor_def zmq_socket_def Let_def)
  with server_lifecycle [OF _ _ _ _ _ r] show ?thesis by (auto simp: Server_ctor_def)
qed

text \<open>
  \<^verbatim>\<open>Client::reconnect\<close> never leaks, and a failed \<^verbatim>\<open>connect\<close> leaves no socket behind; every request that goes through
  \<^verbatim>\<open>sendPtrInternalFree\<close>, and so every \<^verbatim>\<open>Client::call\<close>, first closes a \<^verbatim>\<open>zmq_msg_t\<close> that was never initialised.
\<close>

theorem client_lifecycle:
  assumes "no_leak c" "back_socket c = None"
  shows "no_leak (snd (Client_reconnect s k c)) \<and> open_socks (snd (Client_reconnect False k c)) = {}
    \<and> open_socks (snd (Client_reconnect True False c)) \<subseteq> {}
    \<and> sendPtrInternalFree data send = Undefined"
  using assms
  by (auto simp: no_leak_def Client_reconnect_def Client_connect_def Client_close_def zmq_socket_def close_opt_def
      sendPtrInternalFree_def zmq_put_msg_ptr_internal_free_def zmq_msg_close_def Let_def split: option.splits)

theorem client_lifecycle_witness: "no_leak (snd (Client_reconnect True True Server_ctor))"
  using client_lifecycle [of Server_ctor True True] by (simp add: no_leak_def Server_ctor_def)

text \<open>
  The wrappers hide interruptions: \<^verbatim>\<open>_zmq_recv\<close> and \<^verbatim>\<open>_zmq_send\<close> return the first result that is not an interruption,
  and \<^verbatim>\<open>_zmq_poll\<close> retries on every failure, so it never returns a negative value and the error branches of its callers are dead.
\<close>

theorem zmq_wrappers:
  "(zmq_poll_retry rs = Some ret \<longrightarrow> 0 \<le> ret)
   \<and> (zmq_retry rs = Some ret \<longrightarrow> (\<exists>pre e post. rs = pre @ (ret, e) # post \<and> (\<forall>p \<in> set pre. fst p < 0 \<and> snd p)
        \<and> \<not> (ret < 0 \<and> e)))"
proof (intro conjI impI)
  show "zmq_poll_retry rs = Some ret \<Longrightarrow> 0 \<le> ret"
    by (induction rs rule: zmq_poll_retry.induct) (auto split: if_splits)
  show "zmq_retry rs = Some ret \<Longrightarrow> \<exists>pre e post. rs = pre @ (ret, e) # post \<and> (\<forall>p \<in> set pre. fst p < 0 \<and> snd p)
        \<and> \<not> (ret < 0 \<and> e)"
  proof (induction rs rule: zmq_retry.induct)
    case (2 r e rs)
    show ?case
    proof (cases "r < 0 \<and> e")
      case True
      with 2 obtain pre e' post where "rs = pre @ (ret, e') # post" "\<forall>p \<in> set pre. fst p < 0 \<and> snd p" "\<not> (ret < 0 \<and> e')"
        by auto
      with True show ?thesis by (intro exI [of _ "(r, e) # pre"] exI [of _ e'] exI [of _ post]) auto
    next
      case False
      with 2 show ?thesis by (intro exI [of _ "[]"] exI [of _ e] exI [of _ rs]) auto
    qed
  qed simp
qed

theorem zmq_wrappers_witness: "zmq_retry [(- 1, True), (- 1, True), (5, False)] = Some 5 \<and> 0 \<le> (5 :: int)"
  using zmq_wrappers [of "[(5, False)]" 5] by simp

end
