(* ===== verification/Tree_Problems.thy ===== *)
theory Tree_Problems
  imports Sperm_Prelude "HOL-Library.Tree"
begin

text \<open>
  The binary tree programs of \<^verbatim>\<open>code/leetcode\<close>. A \<^verbatim>\<open>TreeNode*\<close> that is only read or built
  bottom-up is a value of \<^typ>\<open>int tree\<close>, with \<^const>\<open>Leaf\<close> for \<^verbatim>\<open>NULL\<close>; an output parameter is a
  component of the result, a vector that is filled by reference is passed and returned.
  The reference definitions (\<^const>\<open>height\<close>, \<^const>\<open>inorder\<close>, \<^const>\<open>preorder\<close>, \<^const>\<open>postorder\<close>,
  \<^const>\<open>mirror\<close>, binary search trees) are those of the library's theory of trees.
\<close>

type_synonym TreeNode = "int tree"

section \<open>Depths\<close>

subsection \<open>Programs\<close>

text \<open>\<^verbatim>\<open>maximum-depth-of-binary-tree.cc\<close>, \<^verbatim>\<open>minimum-depth-of-binary-tree.cc\<close> and \<^verbatim>\<open>balanced-binary-tree.cc\<close>.\<close>

fun maxDepth :: "TreeNode \<Rightarrow> int" where
  "maxDepth Leaf = 0"
| "maxDepth (Node l v r) = max (maxDepth l) (maxDepth r) + 1"

fun minDepth :: "TreeNode \<Rightarrow> int" where
  "minDepth Leaf = 0"
| "minDepth (Node l v r) =
     (if l = Leaf \<and> r = Leaf then 1
      else if l = Leaf then 1 + minDepth r
      else if r = Leaf then 1 + minDepth l
      else 1 + min (minDepth l) (minDepth r))"

fun isBalanced_R :: "TreeNode \<Rightarrow> bool \<times> int" where
  "isBalanced_R Leaf = (True, 0)"
| "isBalanced_R (Node x v y) =
     (let (lb, l) = isBalanced_R x; (rb, r) = isBalanced_R y
      in (\<not> (\<not> lb \<or> \<not> rb \<or> \<bar>l - r\<bar> > 1), 1 + max l r))"

definition isBalanced :: "TreeNode \<Rightarrow> bool" where
  "isBalanced root = fst (isBalanced_R root)"

subsection \<open>Correctness\<close>

text \<open>The depths of the leaves of a tree, a leaf being a node without children.\<close>

fun leaf_depths :: "'a tree \<Rightarrow> nat set" where
  "leaf_depths Leaf = {}"
| "leaf_depths (Node l v r) =
     (if l = Leaf \<and> r = Leaf then {1} else Suc ` (leaf_depths l \<union> leaf_depths r))"

lemma maxDepth_height: "maxDepth t = int (height t)"
  by (induction t) auto

lemma finite_leaf_depths [simp]: "finite (leaf_depths t)"
  by (induction t) auto

lemma leaf_depths_empty [simp]: "leaf_depths t = {} \<longleftrightarrow> t = Leaf"
  by (induction t) auto

lemma Min_Suc: "finite A \<Longrightarrow> A \<noteq> {} \<Longrightarrow> Min (Suc ` A) = Suc (Min A)"
  by (rule mono_Min_commute [symmetric]) (auto simp: mono_def)

lemma minDepth_Min: "t \<noteq> Leaf \<Longrightarrow> minDepth t = int (Min (leaf_depths t))"
proof (induction t)
  case (Node l v r)
  show ?case
  proof (cases "l = Leaf \<or> r = Leaf")
    case True
    with Node show ?thesis by (auto simp: Min_Suc)
  next
    case False
    with Node show ?thesis by (simp add: Min_Suc Min_Un flip: image_Un)
  qed
qed simp

lemma isBalanced_R_eq:
  "isBalanced_R t =
     ((\<forall>l x r. Node l x r \<in> subtrees t \<longrightarrow> \<bar>int (height l) - int (height r)\<bar> \<le> 1), int (height t))"
proof (induction t)
  case (Node x v y)
  then show ?case by (simp add: Let_def not_less of_nat_max) blast
qed simp

text \<open>
  \<^verbatim>\<open>isBalanced\<close> decides the height balance of every subtree in one pass; \<^verbatim>\<open>maxDepth\<close> is the
  height and \<^verbatim>\<open>minDepth\<close> the depth of the highest leaf.
\<close>

theorem tree_depths:
  "isBalanced t \<longleftrightarrow>
     (\<forall>l x r. Node l x r \<in> subtrees t \<longrightarrow> \<bar>maxDepth l - maxDepth r\<bar> \<le> 1)"
  "maxDepth t = int (height t)"
  "t \<noteq> Leaf \<Longrightarrow> minDepth t = int (Min (leaf_depths t))"
  by (simp_all add: isBalanced_def isBalanced_R_eq maxDepth_height minDepth_Min)

section \<open>Comparison of trees\<close>

text \<open>\<^verbatim>\<open>same-tree.cc\<close> and \<^verbatim>\<open>symmetric-tree.cc\<close>.\<close>

fun isSameTree :: "TreeNode \<Rightarrow> TreeNode \<Rightarrow> bool" where
  "isSameTree Leaf Leaf = True"
| "isSameTree Leaf (Node _ _ _) = False"
| "isSameTree (Node _ _ _) Leaf = False"
| "isSameTree (Node xl xv xr) (Node yl yv yr) =
     (if xv \<noteq> yv then False else isSameTree xl yl \<and> isSameTree xr yr)"

fun isMirror :: "TreeNode \<Rightarrow> TreeNode \<Rightarrow> bool" where
  "isMirror Leaf Leaf = True"
| "isMirror Leaf (Node _ _ _) = False"
| "isMirror (Node _ _ _) Leaf = False"
| "isMirror (Node xl xv xr) (Node yl yv yr) =
     (if xv \<noteq> yv then False else isMirror xl yr \<and> isMirror xr yl)"

fun isSymmetric :: "TreeNode \<Rightarrow> bool" where
  "isSymmetric Leaf = True"
| "isSymmetric (Node l v r) = isMirror l r"

lemma isSameTree_eq: "isSameTree x y \<longleftrightarrow> x = y"
  by (induction x y rule: isSameTree.induct) auto

lemma isMirror_eq: "isMirror x y \<longleftrightarrow> x = mirror y"
  by (induction x y rule: isMirror.induct) auto

lemma isSymmetric_mirror: "isSymmetric t \<longleftrightarrow> mirror t = t"
  by (cases t) (auto simp: isMirror_eq)

section \<open>Traversals\<close>

subsection \<open>Programs\<close>

text \<open>\<^verbatim>\<open>binary-tree-inorder-traversal.cc\<close>\<close>

fun inorderTraversal_R :: "TreeNode \<Rightarrow> int list \<Rightarrow> int list" where
  "inorderTraversal_R Leaf vs = vs"
| "inorderTraversal_R (Node l v r) vs =
     (let vs = inorderTraversal_R l vs; vs = vs @ [v] in inorderTraversal_R r vs)"

definition inorderTraversal :: "TreeNode \<Rightarrow> int list" where
  "inorderTraversal root = inorderTraversal_R root []"

text \<open>\<^verbatim>\<open>binary-tree-level-order-traversal-2.cc\<close>; \<^verbatim>\<open>vvi[depth]\<close> must exist.\<close>

fun levelOrderBottom_R :: "TreeNode \<Rightarrow> int \<Rightarrow> int list list \<Rightarrow> int list list exec" where
  "levelOrderBottom_R Leaf depth vvi = Ret vvi"
| "levelOrderBottom_R (Node l v r) depth vvi =
     (let vvi = (if depth = int (length vvi) then vvi @ [[]] else vvi)
      in exec_bind (levelOrderBottom_R l (depth + 1) vvi) (\<lambda>vvi.
         exec_bind (levelOrderBottom_R r (depth + 1) vvi) (\<lambda>vvi.
         exec_bind (vec_at vvi depth) (\<lambda>vi. vec_put vvi depth (vi @ [v])))))"

definition levelOrderBottom :: "TreeNode \<Rightarrow> int list list exec" where
  "levelOrderBottom root =
     exec_bind (levelOrderBottom_R root 0 []) (\<lambda>vvi.
       Ret (map (\<lambda>i. vvi ! i) (rev [0..<length vvi])))"

text \<open>
  \<^verbatim>\<open>binary-tree-level-order-traversal.cc\<close>: a pointer in a queue is never \<^verbatim>\<open>NULL\<close>, so it is the
  triple of the fields of its node. The two queues \<^verbatim>\<open>S[sw]\<close> and \<^verbatim>\<open>S[1 - sw]\<close> change roles after
  each level.
\<close>

type_synonym node = "TreeNode \<times> int \<times> TreeNode"

fun push_child :: "TreeNode \<Rightarrow> node list \<Rightarrow> node list" where
  "push_child Leaf q = q"
| "push_child (Node l v r) q = q @ [(l, v, r)]"

fun levelOrder_inner :: "node list \<Rightarrow> node list \<Rightarrow> int list \<Rightarrow> int list \<times> node list" where
  "levelOrder_inner [] other vs = (vs, other)"
| "levelOrder_inner ((l, v, r) # s) other vs =
     (let vs = vs @ [v]; other = push_child l other; other = push_child r other
      in levelOrder_inner s other vs)"

text \<open>\<^verbatim>\<open>binary-tree-zigzag-level-order-traversal.cc\<close>: the same with two stacks, top first.\<close>

fun push_stack :: "TreeNode \<Rightarrow> node list \<Rightarrow> node list" where
  "push_stack Leaf st = st"
| "push_stack (Node l v r) st = (l, v, r) # st"

fun zigzag_inner :: "bool \<Rightarrow> node list \<Rightarrow> node list \<Rightarrow> int list \<Rightarrow> int list \<times> node list" where
  "zigzag_inner sw [] other vs = (vs, other)"
| "zigzag_inner sw ((l, v, r) # s) other vs =
     (let vs = vs @ [v];
          other = (if sw then push_stack l (push_stack r other) else push_stack r (push_stack l other))
      in zigzag_inner sw s other vs)"

text \<open>The nodes of the next level, from left to right; every level is smaller than the one before.\<close>

fun kids :: "TreeNode \<Rightarrow> node list" where
  "kids Leaf = []"
| "kids (Node l v r) = [(l, v, r)]"

fun next_level :: "node list \<Rightarrow> node list" where
  "next_level [] = []"
| "next_level ((l, v, r) # s) = kids l @ kids r @ next_level s"

definition vals :: "node list \<Rightarrow> int list" where
  "vals s = map (\<lambda>(l, v, r). v) s"

definition weight :: "node list \<Rightarrow> nat" where
  "weight s = (\<Sum>(l, v, r) \<leftarrow> s. size l + size r + 1)"

lemma vals_simps [simp]:
  "vals [] = []" "vals ((l, v, r) # s) = v # vals s" "vals (s @ s') = vals s @ vals s'"
  "vals (rev s) = rev (vals s)"
  by (simp_all add: vals_def rev_map)

lemma weight_simps [simp]:
  "weight [] = 0" "weight ((l, v, r) # s) = size l + size r + 1 + weight s"
  "weight (s @ s') = weight s + weight s'" "weight (rev s) = weight s"
  by (simp_all add: weight_def sum_list_rev flip: rev_map)

lemma weight_kids [simp]: "weight (kids t) = size t"
  by (cases t) simp_all

lemma weight_next_level: "s \<noteq> [] \<Longrightarrow> weight (next_level s) < weight s"
proof (induction s rule: next_level.induct)
  case (2 l v r s)
  then show ?case by (cases "s = []") auto
qed simp

lemma push_child_eq: "push_child t q = q @ kids t"
  by (cases t) simp_all

lemma push_stack_eq: "push_stack t st = kids t @ st"
  by (cases t) simp_all

lemma rev_kids [simp]: "rev (kids t) = kids t"
  by (cases t) simp_all

lemma next_level_append [simp]: "next_level (s @ s') = next_level s @ next_level s'"
  by (induction s rule: next_level.induct) simp_all

lemma levelOrder_inner_eq:
  "levelOrder_inner s other vs = (vs @ vals s, other @ next_level s)"
  by (induction s other vs rule: levelOrder_inner.induct) (simp_all add: Let_def push_child_eq)

lemma zigzag_inner_eq:
  "zigzag_inner sw s other vs =
     (vs @ vals s, (if sw then next_level (rev s) else rev (next_level s)) @ other)"
  by (induction sw s other vs rule: zigzag_inner.induct) (simp_all add: Let_def push_stack_eq)

function levelOrder_loop :: "node list \<Rightarrow> int list list \<Rightarrow> int list list" where
  "levelOrder_loop s res =
     (if s = [] then res
      else let (vs, other) = levelOrder_inner s [] [] in levelOrder_loop other (res @ [vs]))"
  by auto
termination
  by (relation "measure (\<lambda>(s, res). weight s)") (auto simp: levelOrder_inner_eq weight_next_level)

definition levelOrder :: "TreeNode \<Rightarrow> int list list" where
  "levelOrder root = (if root = Leaf then [] else levelOrder_loop (push_child root []) [])"

function zigzag_loop :: "bool \<Rightarrow> node list \<Rightarrow> int list list \<Rightarrow> int list list" where
  "zigzag_loop sw s res =
     (if s = [] then res
      else let (vs, other) = zigzag_inner sw s [] [] in zigzag_loop (\<not> sw) other (res @ [vs]))"
  by auto
termination
proof (relation "measure (\<lambda>(sw, s, res). weight s)")
  fix sw :: bool and s x and y :: "int list" and z and res :: "int list list"
  assume "s \<noteq> []" "x = zigzag_inner sw s [] []" "(y, z) = x"
  then show "((\<not> sw, z, res @ [y]), sw, s, res) \<in> measure (\<lambda>(sw, s, res). weight s)"
    using weight_next_level [of s] weight_next_level [of "rev s"]
    by (auto simp: zigzag_inner_eq split: if_splits)
qed simp

definition zigzagLevelOrder :: "TreeNode \<Rightarrow> int list list" where
  "zigzagLevelOrder root = (if root = Leaf then [] else zigzag_loop False (push_stack root []) [])"

declare levelOrder_loop.simps [simp del] zigzag_loop.simps [simp del]

subsection \<open>Correctness\<close>

text \<open>The levels of a tree, by merging the levels of its two subtrees.\<close>

fun zip_levels :: "'a list list \<Rightarrow> 'a list list \<Rightarrow> 'a list list" where
  "zip_levels [] ys = ys"
| "zip_levels (x # xs) [] = x # xs"
| "zip_levels (x # xs) (y # ys) = (x @ y) # zip_levels xs ys"

fun levels :: "'a tree \<Rightarrow> 'a list list" where
  "levels Leaf = []"
| "levels (Node l v r) = [v] # zip_levels (levels l) (levels r)"

text \<open>Every second level backwards.\<close>

fun zigzag :: "bool \<Rightarrow> 'a list list \<Rightarrow> 'a list list" where
  "zigzag sw [] = []"
| "zigzag sw (x # xs) = (if sw then rev x else x) # zigzag (\<not> sw) xs"

lemma zip_levels_Nil [simp]: "zip_levels xs [] = xs"
  by (cases xs) simp_all

lemma zip_levels_assoc: "zip_levels (zip_levels xs ys) zs = zip_levels xs (zip_levels ys zs)"
proof (induction xs ys arbitrary: zs rule: zip_levels.induct)
  case (3 x xs y ys)
  then show ?case by (cases zs) simp_all
qed simp_all

fun forest_levels :: "node list \<Rightarrow> int list list" where
  "forest_levels [] = []"
| "forest_levels ((l, v, r) # s) = zip_levels (levels (Node l v r)) (forest_levels s)"

lemma forest_levels_append: "forest_levels (s @ s') = zip_levels (forest_levels s) (forest_levels s')"
  by (induction s rule: forest_levels.induct) (simp_all add: zip_levels_assoc del: levels.simps)

lemma forest_levels_kids [simp]: "forest_levels (kids t) = levels t"
  by (cases t) simp_all

lemma forest_levels_next: "s \<noteq> [] \<Longrightarrow> forest_levels s = vals s # forest_levels (next_level s)"
proof (induction s rule: forest_levels.induct)
  case (2 l v r s)
  then show ?case
    by (cases "s = []") (simp_all add: forest_levels_append zip_levels_assoc)
qed simp

lemma levelOrder_loop_eq: "levelOrder_loop s res = res @ forest_levels s"
proof (induction s res rule: levelOrder_loop.induct)
  case (1 s res)
  show ?case
  proof (cases "s = []")
    case False
    with 1 show ?thesis
      by (subst levelOrder_loop.simps) (simp add: levelOrder_inner_eq forest_levels_next [OF False])
  qed (simp add: levelOrder_loop.simps)
qed

lemma zigzag_loop_eq:
  "zigzag_loop sw s res = res @ zigzag sw (forest_levels (if sw then rev s else s))"
proof (induction sw s res rule: zigzag_loop.induct)
  case (1 sw s res)
  show ?case
  proof (cases "s = []")
    case False
    with 1 show ?thesis
      by (subst zigzag_loop.simps)
         (simp add: zigzag_inner_eq forest_levels_next [of s] forest_levels_next [of "rev s"])
  qed (simp add: zigzag_loop.simps)
qed

lemma levelOrderBottom_R_eq:
  "n \<le> length vvi \<Longrightarrow>
   levelOrderBottom_R t (int n) vvi = Ret (take n vvi @ zip_levels (drop n vvi) (levels t))"
proof (induction t arbitrary: n vvi)
  case (Node l v r)
  define w where "w = (if n = length vvi then vvi @ [[]] else vvi)"
  from Node.prems have n: "n < length w" by (auto simp: w_def)
  have w: "take n w = take n vvi" "zip_levels (drop n w) (levels (Node l v r)) =
      zip_levels (drop n vvi) (levels (Node l v r))"
    using Node.prems by (auto simp: w_def)
  obtain x y z where w': "w = x @ y # z" and len: "length x = n"
    using n id_take_nth_drop [OF n] by (metis length_take min.absorb4)
  have step: "levelOrderBottom_R t (int n + 1) (x @ y # z') =
      Ret (x @ y # zip_levels z' (levels t))" if "t \<in> {l, r}" for t z'
    using that Node.IH [of "Suc n" "x @ y # z'"] by (auto simp: len add.commute)
  have "levelOrderBottom_R (Node l v r) (int n) vvi =
      Ret (x @ (y @ [v]) # zip_levels z (zip_levels (levels l) (levels r)))"
    using len by (simp add: step Let_def zip_levels_assoc nth_append list_update_append
        flip: w_def) (simp add: w' step nth_append list_update_append zip_levels_assoc)
  also have "\<dots> = Ret (take n w @ zip_levels (drop n w) (levels (Node l v r)))"
    using len by (simp add: w')
  finally show ?case by (simp only: w)
qed simp

lemma map_nth_rev: "map (\<lambda>i. xs ! i) (rev [0..<length xs]) = rev xs"
  by (simp only: rev_map [symmetric] map_nth)

lemma inorderTraversal_R_eq: "inorderTraversal_R t vs = vs @ inorder t"
  by (induction t arbitrary: vs) (simp_all add: Let_def)

text \<open>
  The four traversals. The recursive inorder program yields the inorder sequence; the program
  with two queues yields the levels, the one with two stacks the levels with every second one
  backwards, and the recursive one, which never leaves \<^verbatim>\<open>vvi\<close>, the levels from the bottom up.
\<close>

theorem traversals:
  "inorderTraversal t = inorder t
   \<and> levelOrder t = levels t
   \<and> levelOrderBottom t = Ret (rev (levels t))
   \<and> zigzagLevelOrder t = zigzag False (levels t)"
proof (intro conjI)
  show "inorderTraversal t = inorder t"
    by (simp add: inorderTraversal_def inorderTraversal_R_eq)
  show "levelOrder t = levels t"
    by (simp add: levelOrder_def levelOrder_loop_eq push_child_eq)
  show "levelOrderBottom t = Ret (rev (levels t))"
    using levelOrderBottom_R_eq [of 0 "[]" t] by (simp add: levelOrderBottom_def map_nth_rev)
  show "zigzagLevelOrder t = zigzag False (levels t)"
    by (simp add: zigzagLevelOrder_def zigzag_loop_eq push_stack_eq)
qed

section \<open>Paths\<close>

subsection \<open>Programs\<close>

text \<open>
  \<^verbatim>\<open>path-sum.cc\<close>, \<^verbatim>\<open>path-sum-2.cc\<close> and \<^verbatim>\<open>sum-root-to-leaf-numbers.cc\<close>. The last ones thread the
  trace, the path list and the sum through the recursion. \<^verbatim>\<open>R\<close> of a null pointer would be
  undefined; the callers test for it.
\<close>

fun hasPathSum_R :: "TreeNode \<Rightarrow> int \<Rightarrow> bool exec" where
  "hasPathSum_R Leaf sm = Undefined"
| "hasPathSum_R (Node l v r) sm =
     (if l = Leaf \<and> r = Leaf then Ret (sm = v)
      else exec_bind (if l \<noteq> Leaf then exec_bind (c_int (sm - v)) (hasPathSum_R l) else Ret False) (\<lambda>b.
           if b then Ret True
           else exec_bind (if r \<noteq> Leaf then exec_bind (c_int (sm - v)) (hasPathSum_R r) else Ret False)
                  (\<lambda>b. if b then Ret True else Ret False)))"

definition hasPathSum :: "TreeNode \<Rightarrow> int \<Rightarrow> bool exec" where
  "hasPathSum root sm = (if root \<noteq> Leaf then hasPathSum_R root sm else Ret False)"

fun pathSum_R :: "TreeNode \<Rightarrow> int list \<Rightarrow> int \<Rightarrow> int list list \<Rightarrow> (int list \<times> int list list) exec" where
  "pathSum_R Leaf trace sm path = Undefined"
| "pathSum_R (Node l v r) trace sm path =
     (if l = Leaf \<and> r = Leaf
      then if sm = v then Ret (trace, path @ [trace @ [v]]) else Ret (trace, path)
      else let trace = trace @ [v]
           in exec_bind (if l \<noteq> Leaf then exec_bind (c_int (sm - v)) (\<lambda>s. pathSum_R l trace s path)
                         else Ret (trace, path)) (\<lambda>(trace, path).
              exec_bind (if r \<noteq> Leaf then exec_bind (c_int (sm - v)) (\<lambda>s. pathSum_R r trace s path)
                         else Ret (trace, path)) (\<lambda>(trace, path).
              Ret (butlast trace, path))))"

definition pathSum :: "TreeNode \<Rightarrow> int \<Rightarrow> int list list exec" where
  "pathSum root sm =
     (if root \<noteq> Leaf then exec_bind (pathSum_R root [] sm []) (\<lambda>(trace, path). Ret path) else Ret [])"

fun sumNumbers_R :: "int \<Rightarrow> TreeNode \<Rightarrow> int \<Rightarrow> int exec" where
  "sumNumbers_R v Leaf sm = Undefined"
| "sumNumbers_R v (Node l x r) sm =
     exec_bind (c_int (v * 10)) (\<lambda>v10.
     exec_bind (c_int (v10 + x)) (\<lambda>v.
       if l = Leaf \<and> r = Leaf then c_int (sm + v)
       else exec_bind (if l \<noteq> Leaf then sumNumbers_R v l sm else Ret sm) (\<lambda>sm.
            if r \<noteq> Leaf then sumNumbers_R v r sm else Ret sm)))"

definition sumNumbers :: "TreeNode \<Rightarrow> int exec" where
  "sumNumbers root = (if root = Leaf then Ret 0 else sumNumbers_R 0 root 0)"

text \<open>
  \<^verbatim>\<open>binary-tree-max-path-sum.cc\<close>: \<^verbatim>\<open>side\<close> returns the best path that starts at the root and goes
  down, and \<^verbatim>\<open>*path\<close> the best of some other paths.
\<close>

fun side :: "TreeNode \<Rightarrow> (int \<times> int) exec" where
  "side Leaf = Undefined"
| "side (Node lt v rt) =
     (if lt = Leaf \<and> rt = Leaf then Ret (v, v)
      else if lt = Leaf then
        exec_bind (side rt) (\<lambda>(r, rp).
        exec_bind (c_int (max 0 r + v)) (\<lambda>s. Ret (s, max r rp)))
      else if rt = Leaf then
        exec_bind (side lt) (\<lambda>(l, lp).
        exec_bind (c_int (max 0 l + v)) (\<lambda>s. Ret (s, max l lp)))
      else
        exec_bind (side lt) (\<lambda>(l, lp).
        exec_bind (side rt) (\<lambda>(r, rp).
        let p = max (max l r) (max lp rp) in
        exec_bind (c_int (max 0 l + max 0 r)) (\<lambda>lr.
        exec_bind (c_int (lr + v)) (\<lambda>lrv.
        let p = max p lrv in
        exec_bind (c_int (max (max 0 l) (max 0 r) + v)) (\<lambda>s. Ret (s, p)))))))"

definition maxPathSum :: "TreeNode \<Rightarrow> int exec" where
  "maxPathSum root = (if root = Leaf then Ret 0 else exec_bind (side root) (\<lambda>(s, p). Ret (max s p)))"

subsection \<open>Correctness\<close>

text \<open>The root-to-leaf paths from left to right.\<close>

fun leaf_paths :: "'a tree \<Rightarrow> 'a list list" where
  "leaf_paths Leaf = []"
| "leaf_paths (Node l v r) =
     (if l = Leaf \<and> r = Leaf then [[v]] else map ((#) v) (leaf_paths l @ leaf_paths r))"

text \<open>No arithmetic overflows when the absolute values add up to less than \<open>2 ^ 31\<close>.\<close>

definition abs_total :: "TreeNode \<Rightarrow> int" where
  "abs_total t = (\<Sum>x \<leftarrow> inorder t. \<bar>x\<bar>)"

lemma abs_total_simps [simp]:
  "abs_total Leaf = 0" "abs_total (Node l v r) = abs_total l + \<bar>v\<bar> + abs_total r"
  by (simp_all add: abs_total_def)

lemma abs_total_nonneg [simp]: "0 \<le> abs_total t"
  by (induction t) auto

lemma path_bound:
  assumes "\<bar>s\<bar> + abs_total (Node l v r) < 2 ^ 31"
  shows "int_ok (s - v)" "\<bar>s - v\<bar> + abs_total l < 2 ^ 31" "\<bar>s - v\<bar> + abs_total r < 2 ^ 31"
proof -
  have "\<bar>s - v\<bar> \<le> \<bar>s\<bar> + \<bar>v\<bar>" by (rule abs_triangle_ineq4)
  then show "\<bar>s - v\<bar> + abs_total l < 2 ^ 31" "\<bar>s - v\<bar> + abs_total r < 2 ^ 31"
    using assms abs_total_nonneg [of l] abs_total_nonneg [of r] unfolding abs_total_simps by linarith+
  then show "int_ok (s - v)" using abs_total_nonneg [of l] by (intro int_ok_abs) linarith
qed

lemma hasPathSum_R_eq:
  assumes "t \<noteq> Leaf" "\<bar>s\<bar> + abs_total t < 2 ^ 31"
  shows "hasPathSum_R t s = Ret (\<exists>p \<in> set (leaf_paths t). sum_list p = s)"
  using assms
proof (induction t arbitrary: s)
  case (Node l v r)
  note ok = path_bound [OF Node.prems(2)]
  have eq: "v + x = s \<longleftrightarrow> x = s - v" for x by auto
  from ok show ?case
    by (auto simp: Node.IH bex_Un eq)
qed simp

lemma pathSum_R_eq:
  assumes "t \<noteq> Leaf" "\<bar>s\<bar> + abs_total t < 2 ^ 31"
  shows "pathSum_R t trace s path =
    Ret (trace, path @ map ((@) trace) (filter (\<lambda>p. sum_list p = s) (leaf_paths t)))"
  using assms
proof (induction t arbitrary: s trace path)
  case (Node l v r)
  note ok = path_bound [OF Node.prems(2)]
  have eq: "v + x = s \<longleftrightarrow> x = s - v" for x by auto
  from ok show ?case
    by (auto simp: Let_def filter_map comp_def eq Node.IH)
qed simp

text \<open>The number that a root-to-leaf path spells below the prefix \<open>v\<close>.\<close>

definition spell :: "int \<Rightarrow> int list \<Rightarrow> int" where
  "spell v p = foldl (\<lambda>v x. v * 10 + x) v p"

lemma spell_simps [simp]: "spell v [] = v" "spell v (x # p) = spell (v * 10 + x) p"
  by (simp_all add: spell_def)

lemma spell_nonneg: "0 \<le> v \<Longrightarrow> \<forall>x \<in> set p. 0 \<le> x \<Longrightarrow> v \<le> spell v p"
proof (induction p arbitrary: v)
  case (Cons x p)
  then have "v * 10 + x \<le> spell (v * 10 + x) p" by (intro Cons.IH) auto
  with Cons.prems show ?case by simp
qed simp

definition number_total :: "int \<Rightarrow> TreeNode \<Rightarrow> int" where
  "number_total v t = (\<Sum>p \<leftarrow> leaf_paths t. spell v p)"

lemma leaf_paths_sub: "p \<in> set (leaf_paths t) \<Longrightarrow> set p \<subseteq> set_tree t"
proof (induction t arbitrary: p)
  case (Node l v r)
  then show ?case by (fastforce split: if_splits)
qed simp

lemma leaf_paths_ne [simp]: "leaf_paths t = [] \<longleftrightarrow> t = Leaf"
  by (induction t) auto

lemma number_total_ge:
  assumes "0 \<le> v" "\<forall>x \<in> set_tree t. 0 \<le> x"
  shows "0 \<le> number_total v t" "t \<noteq> Leaf \<Longrightarrow> v \<le> number_total v t"
proof -
  have ge: "v \<le> spell v p" if "p \<in> set (leaf_paths t)" for p
    using that assms leaf_paths_sub [of p t] by (intro spell_nonneg) auto
  then have nn: "0 \<le> y" if "y \<in> set (map (spell v) (leaf_paths t))" for y
    using that assms by fastforce
  from nn show "0 \<le> number_total v t" unfolding number_total_def by (rule sum_list_nonneg)
  assume "t \<noteq> Leaf"
  then obtain p where p: "p \<in> set (leaf_paths t)" by (meson leaf_paths_ne list.set_sel(1))
  with nn have "spell v p \<le> number_total v t"
    unfolding number_total_def by (intro member_le_sum_list) auto
  with ge [OF p] show "v \<le> number_total v t" by simp
qed

lemma number_total_Node:
  "number_total v (Node l x r) =
     (if l = Leaf \<and> r = Leaf then v * 10 + x
      else number_total (v * 10 + x) l + number_total (v * 10 + x) r)"
  by (simp add: number_total_def comp_def)

lemma sumNumbers_R_eq:
  assumes "t \<noteq> Leaf" "0 \<le> v" "0 \<le> s" "\<forall>x \<in> set_tree t. 0 \<le> x" "s + number_total v t < 2 ^ 31"
  shows "sumNumbers_R v t s = Ret (s + number_total v t)"
  using assms
proof (induction t arbitrary: v s)
  case (Node l x r)
  let ?v = "v * 10 + x"
  from Node.prems have x: "0 \<le> x" "0 \<le> ?v" and sub: "\<forall>y \<in> set_tree l. 0 \<le> y" "\<forall>y \<in> set_tree r. 0 \<le> y"
    by auto
  note ge = number_total_ge [OF x(2) sub(1)] number_total_ge [OF x(2) sub(2)]
  have v: "?v < 2 ^ 31 - s"
    using Node.prems(5) ge unfolding number_total_Node by (auto split: if_splits)
  have ok: "int_ok (v * 10)" "int_ok ?v" using v x Node.prems by (auto simp: int_ok_def)
  have l: "sumNumbers_R ?v l s = Ret (s + number_total ?v l)" if "l \<noteq> Leaf"
    using that Node.prems(3,5) ge x sub by (intro Node.IH(1)) (auto simp: number_total_Node)
  have r: "sumNumbers_R ?v r (s + number_total ?v l) = Ret (s + number_total ?v l + number_total ?v r)"
    if "r \<noteq> Leaf"
    using that Node.prems(3,5) ge x sub by (intro Node.IH(2)) (auto simp: number_total_Node)
  show ?case
  proof (cases "l = Leaf \<and> r = Leaf")
    case True
    then show ?thesis using ok v Node.prems x by (simp add: number_total_Node int_ok_def)
  next
    case False
    have "number_total ?v Leaf = 0" by (simp add: number_total_def)
    with False show ?thesis using ok l r by (auto simp: number_total_Node)
  qed
qed simp

text \<open>
  The programs on root-to-leaf paths, when nothing overflows: \<^verbatim>\<open>hasPathSum\<close> decides whether
  some path has the given sum, \<^verbatim>\<open>pathSum\<close> lists these paths from left to right, and
  \<^verbatim>\<open>sumNumbers\<close> adds up the decimal numbers the paths spell.
\<close>

theorem root_to_leaf_paths:
  assumes "\<bar>s\<bar> + abs_total t < 2 ^ 31"
  shows "hasPathSum t s = Ret (\<exists>p \<in> set (leaf_paths t). sum_list p = s)"
    and "pathSum t s = Ret (filter (\<lambda>p. sum_list p = s) (leaf_paths t))"
    and "\<lbrakk>\<forall>x \<in> set_tree t. 0 \<le> x; (\<Sum>p \<leftarrow> leaf_paths t. spell 0 p) < 2 ^ 31\<rbrakk>
      \<Longrightarrow> sumNumbers t = Ret (\<Sum>p \<leftarrow> leaf_paths t. spell 0 p)"
proof -
  show "hasPathSum t s = Ret (\<exists>p \<in> set (leaf_paths t). sum_list p = s)"
    using hasPathSum_R_eq [OF _ assms] by (simp add: hasPathSum_def)
  show "pathSum t s = Ret (filter (\<lambda>p. sum_list p = s) (leaf_paths t))"
    using pathSum_R_eq [OF _ assms] by (simp add: pathSum_def map_idI)
  assume "\<forall>x \<in> set_tree t. 0 \<le> x" "(\<Sum>p \<leftarrow> leaf_paths t. spell 0 p) < 2 ^ 31"
  then show "sumNumbers t = Ret (\<Sum>p \<leftarrow> leaf_paths t. spell 0 p)"
    using sumNumbers_R_eq [of t 0 0] by (auto simp: sumNumbers_def number_total_def)
qed

text \<open>
  The paths that start at the root and go down, and all paths of a tree: those inside a
  subtree, and those that come up on the left, pass the root and go down on the right.
\<close>

fun down_paths :: "'a tree \<Rightarrow> 'a list set" where
  "down_paths Leaf = {}"
| "down_paths (Node l v r) = insert [v] ((#) v ` (down_paths l \<union> down_paths r))"

fun tree_paths :: "'a tree \<Rightarrow> 'a list set" where
  "tree_paths Leaf = {}"
| "tree_paths (Node l v r) = tree_paths l \<union> tree_paths r \<union>
     (\<Union>p \<in> insert [] (down_paths l). \<Union>q \<in> insert [] (down_paths r). {rev p @ v # q})"

abbreviation down_sums :: "TreeNode \<Rightarrow> int set" where
  "down_sums t \<equiv> sum_list ` down_paths t"

abbreviation path_sums :: "TreeNode \<Rightarrow> int set" where
  "path_sums t \<equiv> sum_list ` tree_paths t"

lemma down_sums_Node:
  "down_sums (Node l v r) = insert v ((+) v ` (down_sums l \<union> down_sums r))"
  by (auto simp: image_Un image_image)

lemma path_sums_Node:
  "path_sums (Node l v r) = path_sums l \<union> path_sums r \<union>
     (\<Union>a \<in> insert 0 (down_sums l). \<Union>b \<in> insert 0 (down_sums r). {a + v + b})"
  by (auto simp: image_Un image_UN sum_list_rev add.assoc)

lemma best_insert_0: "best A m \<Longrightarrow> best (insert 0 A) (max 0 m)" for m :: int
  by (auto simp: best_def max_def)

lemma best_sums:
  "best A m \<Longrightarrow> best B n \<Longrightarrow> best (\<Union>a \<in> A. \<Union>b \<in> B. {a + v + b}) (m + v + n)"
  for m n v :: int
  unfolding best_def by (auto intro: add_mono)

lemma finite_tree_paths [simp]: "finite (down_paths t)" "finite (tree_paths t)"
proof -
  show fin: "finite (down_paths t)" for t :: "'a tree" by (induction t) auto
  show "finite (tree_paths t)" by (induction t) (auto simp: fin)
qed

lemma best_down:
  assumes "best (insert 0 (down_sums l)) m" "best (insert 0 (down_sums r)) n"
  shows "best (down_sums (Node l v r)) (max m n + v)"
proof -
  have "down_sums (Node l v r) = (+) v ` (insert 0 (down_sums l) \<union> insert 0 (down_sums r))"
    unfolding down_sums_Node by auto
  then show ?thesis
    using best_Un [OF assms] by (auto simp: best_def)
qed

lemma down_sums_bound: "x \<in> down_sums t \<Longrightarrow> \<bar>x\<bar> \<le> abs_total t"
proof (induction t arbitrary: x)
  case (Node l v r)
  then consider "x = v" | y where "x = v + y" "\<bar>y\<bar> \<le> abs_total l \<or> \<bar>y\<bar> \<le> abs_total r"
    unfolding down_sums_Node by blast
  then show ?case
  proof cases
    case 2
    then show ?thesis
      using abs_total_nonneg [of l] abs_total_nonneg [of r] unfolding abs_total_simps by linarith
  qed simp
qed simp

lemma best_bound: "best (insert 0 (down_sums t)) m \<Longrightarrow> 0 \<le> m \<and> m \<le> abs_total t"
  using down_sums_bound [of m t] by (auto simp: best_def)

text \<open>
  What \<^verbatim>\<open>side\<close> returns: the best sum downwards, and together with \<^verbatim>\<open>*path\<close> the best sum of all.
\<close>

definition side_ok :: "TreeNode \<Rightarrow> int \<times> int \<Rightarrow> bool" where
  "side_ok t = (\<lambda>(s, p). best (down_sums t) s \<and> best (path_sums t) (max s p))"

lemma best_path_sums_Node:
  assumes "best (insert 0 (down_sums l)) m" "best (insert 0 (down_sums r)) n"
    and "best (path_sums l) a \<or> l = Leaf \<and> a \<le> m + n + v"
    and "best (path_sums r) b \<or> r = Leaf \<and> b \<le> m + n + v"
  shows "best (path_sums (Node l v r)) (max a (max b (m + n + v)))"
proof -
  have c: "best (\<Union>a \<in> insert 0 (down_sums l). \<Union>b \<in> insert 0 (down_sums r). {a + v + b}) (m + n + v)"
    using best_sums [OF assms(1,2), of v] by (simp add: add.commute add.left_commute)
  have empty: "path_sums Leaf = {}" by simp
  note d = best_Un_opt [OF c, of "path_sums r" b]
  show ?thesis
    unfolding path_sums_Node Un_assoc
    by (intro best_Un_opt d) (use assms(3,4) empty in auto)
qed

lemma best_Leaf: "best (insert 0 (down_sums Leaf)) 0"
  by (simp add: best_def)

lemma side_returns:
  "t \<noteq> Leaf \<Longrightarrow> abs_total t < 2 ^ 31 \<Longrightarrow> returns (side t) (side_ok t)"
proof (induction t)
  case (Node lt v rt)
  have tot: "abs_total lt < 2 ^ 31" "abs_total rt < 2 ^ 31"
    using Node.prems abs_total_nonneg [of lt] abs_total_nonneg [of rt] by (auto simp del: abs_total_nonneg)
  have ok: "int_ok (m + n)" "int_ok (m + n + v)" "int_ok (max m n + v)" "int_ok (m + v)" "int_ok (n + v)"
    if "best (insert 0 (down_sums lt)) m" "best (insert 0 (down_sums rt)) n" for m n
    using best_bound [OF that(1)] best_bound [OF that(2)] Node.prems by (auto intro!: int_ok_abs)
  have up: "best (insert 0 (down_sums t)) (max 0 s)" if "side_ok t (s, p)" for t s p
    using that by (simp add: side_ok_def best_insert_0)
  have all: "best (path_sums t) (max s p)" if "side_ok t (s, p)" for t s p
    using that by (simp add: side_ok_def)
  consider (leaf) "lt = Leaf" "rt = Leaf" | (right) "lt = Leaf" "rt \<noteq> Leaf"
    | (left) "lt \<noteq> Leaf" "rt = Leaf" | (both) "lt \<noteq> Leaf" "rt \<noteq> Leaf" by blast
  then show ?case
  proof cases
    case leaf
    then show ?thesis by (simp add: side_ok_def best_def)
  next
    case right
    have "int_ok (max 0 r + v) \<and> side_ok (Node Leaf v rt) (max 0 r + v, max r rp)"
      if *: "side_ok rt (r, rp)" for r rp
      using ok [OF _ up [OF *], of 0] best_down [OF best_Leaf up [OF *], of v]
        best_path_sums_Node [OF best_Leaf up [OF *], of "max 0 r + v" v "max r rp"] all [OF *] right
      by (auto simp: best_Leaf side_ok_def max.commute max.left_commute simp del: down_paths.simps tree_paths.simps)
    with Node.IH(2) [OF right(2) tot(2)] right show ?thesis
      by (auto elim!: returns_mono)
  next
    case left
    have "int_ok (max 0 l + v) \<and> side_ok (Node lt v Leaf) (max 0 l + v, max l lp)"
      if *: "side_ok lt (l, lp)" for l lp
      using ok [OF up [OF *], of 0] best_down [OF up [OF *] best_Leaf, of v]
        best_path_sums_Node [OF up [OF *] best_Leaf, of "max l lp" v "max 0 l + v"] all [OF *] left
      by (auto simp: best_Leaf side_ok_def max.commute max.left_commute simp del: down_paths.simps tree_paths.simps)
    with Node.IH(1) [OF left(1) tot(1)] left show ?thesis
      by (auto elim!: returns_mono)
  next
    case both
    have "int_ok (max 0 l + max 0 r) \<and> int_ok (max 0 l + max 0 r + v) \<and>
        int_ok (max (max 0 l) (max 0 r) + v) \<and>
        side_ok (Node lt v rt) (max (max 0 l) (max 0 r) + v,
          max (max (max l r) (max lp rp)) (max 0 l + max 0 r + v))"
      (is "_ \<and> _ \<and> _ \<and> side_ok _ (?s, max ?p ?c)")
      if *: "side_ok lt (l, lp)" "side_ok rt (r, rp)" for l lp r rp
    proof -
      have "max (max (max 0 l) (max 0 r) + v) (max (max (max l r) (max lp rp)) (max 0 l + max 0 r + v)) =
          max (max l lp) (max (max r rp) (max 0 l + max 0 r + v))" 
      proof -
        have "?s \<le> ?c" by simp
        then have "max ?s (max ?p ?c) = max ?p ?c" by (intro max.absorb2) (rule max.coboundedI2)
        also have "\<dots> = max (max l lp) (max (max r rp) ?c)"
          by (simp only: max.assoc max.commute max.left_commute)
        finally show ?thesis .
      qed
      then have "side_ok (Node lt v rt) (?s, max ?p ?c)"
        unfolding side_ok_def prod.case
        using best_down [OF up [OF *(1)] up [OF *(2)], of v]
          best_path_sums_Node [OF up [OF *(1)] up [OF *(2)] disjI1 disjI1, OF all [OF *(1)] all [OF *(2)], of v]
        by argo
      with ok [OF up [OF *(1)] up [OF *(2)]] show ?thesis by blast
    qed
    with Node.IH(1) [OF both(1) tot(1)] Node.IH(2) [OF both(2) tot(2)] both show ?thesis
      by (auto simp: Let_def elim!: returns_mono)
  qed
qed simp

text \<open>
  \<^verbatim>\<open>maxPathSum\<close> is the maximum of the sums of all paths of the tree, although \<^verbatim>\<open>*path\<close> alone is
  not: where a node has one child, it leaves out the paths through the node itself. Nothing
  overflows when the absolute values add up to less than \<open>2 ^ 31\<close>.
\<close>

theorem maxPathSum_correct:
  assumes "t \<noteq> Leaf" "abs_total t < 2 ^ 31"
  shows "maxPathSum t = Ret (Max (sum_list ` tree_paths t))"
  using side_returns [OF assms] assms(1)
  by (auto simp: maxPathSum_def returns_iff side_ok_def best_Max)

theorem maxPathSum_correct_witness:
  "maxPathSum (Node (Node Leaf 9 Leaf) (-10) (Node (Node Leaf 15 Leaf) 20 (Node Leaf 7 Leaf))) = Ret 42 \<and>
   maxPathSum (Node (Node Leaf 9 Leaf) (-10) (Node (Node Leaf 15 Leaf) 20 (Node Leaf 7 Leaf))) =
     Ret (Max (sum_list ` tree_paths
       (Node (Node Leaf 9 Leaf) (-10) (Node (Node Leaf 15 Leaf) 20 (Node Leaf 7 Leaf)))))"
  by (rule conjI, code_simp, rule maxPathSum_correct) simp_all

end
