(* ===== verification/Tree_Builders.thy ===== *)
theory Tree_Builders
  imports Tree_Problems
begin

text \<open>
  The programs of \<^verbatim>\<open>code/leetcode\<close> that build binary trees or check the order of their keys:
  reconstruction from two traversals, balanced search trees from sorted arrays and lists, the
  validity check of search trees, the enumeration of all search trees and their number.
\<close>

section \<open>Validity of search trees\<close>

text \<open>
  \<^verbatim>\<open>valid-binary-search-tree.cc\<close>: \<^verbatim>\<open>isValid\<close> returns its verdict and, when it is true, the least
  and the greatest key; after a false verdict the output parameters are not used.
\<close>

fun isValid_bst :: "TreeNode \<Rightarrow> (int \<times> int) option exec" where
  "isValid_bst Leaf = Undefined"
| "isValid_bst (Node l v r) =
     exec_bind
       (if l \<noteq> Leaf then
          exec_bind (isValid_bst l) (\<lambda>m. case m of
            None \<Rightarrow> Ret None
          | Some (t1, t2) \<Rightarrow> if t2 \<ge> v then Ret None else Ret (Some (min v t1, max v t2)))
        else Ret (Some (v, v))) (\<lambda>m. case m of
         None \<Rightarrow> Ret None
       | Some (xmin, xmax) \<Rightarrow>
           if r \<noteq> Leaf then
             exec_bind (isValid_bst r) (\<lambda>m. case m of
               None \<Rightarrow> Ret None
             | Some (t1, t2) \<Rightarrow>
                 if t1 \<le> v then Ret None else Ret (Some (min xmin t1, max xmax t2)))
           else Ret (Some (xmin, xmax)))"

definition isValidBST :: "TreeNode \<Rightarrow> bool exec" where
  "isValidBST root =
     (if root = Leaf then Ret True else exec_bind (isValid_bst root) (\<lambda>m. Ret (m \<noteq> None)))"

lemma bst_Node_Min_Max:
  "bst (Node l v r) \<longleftrightarrow>
     (l \<noteq> Leaf \<longrightarrow> bst l \<and> Max (set_tree l) < v) \<and> (r \<noteq> Leaf \<longrightarrow> bst r \<and> v < Min (set_tree r))"
  by (cases "l = Leaf"; cases "r = Leaf") auto

lemma Min_set_tree:
  "Min (set_tree (Node l v r)) =
     (let m = (if l \<noteq> Leaf then min v (Min (set_tree l)) else v)
      in if r \<noteq> Leaf then min m (Min (set_tree r)) else m)"
  by (cases "l = Leaf"; cases "r = Leaf") (simp_all add: Min_Un min.assoc)

lemma Max_set_tree:
  "Max (set_tree (Node l v r)) =
     (let m = (if l \<noteq> Leaf then max v (Max (set_tree l)) else v)
      in if r \<noteq> Leaf then max m (Max (set_tree r)) else m)"
  by (cases "l = Leaf"; cases "r = Leaf") (simp_all add: Max_Un max.assoc)

lemma isValid_bst_eq:
  "t \<noteq> Leaf \<Longrightarrow>
   isValid_bst t = Ret (if bst t then Some (Min (set_tree t), Max (set_tree t)) else None)"
proof (induction t)
  case (Node l v r)
  then show ?case
    unfolding bst_Node_Min_Max Min_set_tree Max_set_tree
    by (cases "l = Leaf"; cases "r = Leaf"; cases "bst l"; cases "bst r")
       (auto simp: Let_def not_le simp del: Max_less_iff Min_gr_iff)
qed simp

text \<open>
  The check accepts exactly the binary search trees with distinct keys.
\<close>

theorem isValidBST_correct: "isValidBST t = Ret (bst t)"
  by (simp add: isValidBST_def isValid_bst_eq)

section \<open>Reconstruction from traversals\<close>

text \<open>
  \<^verbatim>\<open>construct-binary-tree-from-preorder-and-inorder-traversal.cc\<close>: \<^verbatim>\<open>find_root\<close> is the loop that
  looks for \<^verbatim>\<open>x\<close> between \<^verbatim>\<open>is\<close> and \<^verbatim>\<open>ie\<close>; it ends at \<^verbatim>\<open>ie + 1\<close> when there is none.
\<close>

function find_root :: "int list \<Rightarrow> int \<Rightarrow> int \<Rightarrow> int \<Rightarrow> int exec" where
  "find_root inord x i ie =
     (if i \<le> ie then
        exec_bind (vec_at inord i) (\<lambda>y.
          if y = x then Ret i
          else exec_bind (c_int (i + 1)) (\<lambda>i'. find_root inord x i' ie))
      else Ret i)"
  by auto
termination
  by (relation "measure (\<lambda>(inord, x, i, ie). nat (ie + 1 - i))") (auto simp: c_int_def split: if_splits)

declare find_root.simps [simp del]

text \<open>
  Every call reads \<^verbatim>\<open>preorder[ps]\<close> before it recurses with a larger \<^verbatim>\<open>ps\<close>, so the recursion ends,
  for arguments that are no traversals too.
\<close>

lemma find_root_ge: "find_root inord x i ie = Ret j \<Longrightarrow> i \<le> j"
proof (induction inord x i ie rule: find_root.induct)
  case (1 inord x i ie)
  then show ?case
    by (subst (asm) (2) find_root.simps) (fastforce simp: exec_simps c_int_def split: if_splits)
qed

function buildTree_pre_R ::
  "int list \<Rightarrow> int \<Rightarrow> int \<Rightarrow> int list \<Rightarrow> int \<Rightarrow> int \<Rightarrow> TreeNode exec" where
  "buildTree_pre_R preord ps pe inord is ie =
     (if ps > pe then Ret Leaf
      else if ps = pe then exec_bind (vec_at preord ps) (\<lambda>x. Ret (Node Leaf x Leaf))
      else exec_bind (vec_at preord ps) (\<lambda>x.
           exec_bind (find_root inord x is ie) (\<lambda>i.
           exec_bind (c_int (ps + 1)) (\<lambda>ps'.
           exec_bind (c_int (i - is)) (\<lambda>d.
           exec_bind (c_int (d + ps)) (\<lambda>pe'.
           exec_bind (c_int (i - 1)) (\<lambda>ie'.
           exec_bind (buildTree_pre_R preord ps' pe' inord is ie') (\<lambda>l.
           exec_bind (c_int (pe' + 1)) (\<lambda>ps''.
           exec_bind (c_int (i + 1)) (\<lambda>is'.
           exec_bind (buildTree_pre_R preord ps'' pe inord is' ie) (\<lambda>r.
           Ret (Node l x r))))))))))))"
  by auto
termination
  by (relation "measure (\<lambda>(preord, ps, pe, inord, is, ie). nat (int (length preord) - ps))")
     (auto simp: vec_at_def c_int_def dest: find_root_ge split: if_splits)

declare buildTree_pre_R.simps [simp del]

text \<open>
  The argument \<^verbatim>\<open>v.size() - 1\<close>: the subtraction is one of \<^verbatim>\<open>size_t\<close> and wraps around, and the result is
  narrowed to the parameter type \<^verbatim>\<open>int\<close>.
\<close>

definition last_index :: "int list \<Rightarrow> int" where
  "last_index v = to_int ((int (length v) - 1) mod 2 ^ 64)"

definition buildTree_pre :: "int list \<Rightarrow> int list \<Rightarrow> TreeNode exec" where
  "buildTree_pre preord inord =
     buildTree_pre_R preord 0 (last_index preord) inord 0 (last_index inord)"

text \<open>
  \<^verbatim>\<open>construct-binary-tree-from-inorder-and-postorder-traversal.cc\<close>: when the root is not found the
  left call may get the same arguments again, so the recursion need not end. The fuel counts
  the depth of the recursion; a tree of \<open>n\<close> nodes needs no more than \<open>n + 1\<close>.
\<close>

fun buildTree_post_R ::
  "nat \<Rightarrow> int list \<Rightarrow> int \<Rightarrow> int \<Rightarrow> int list \<Rightarrow> int \<Rightarrow> int \<Rightarrow> TreeNode exec" where
  "buildTree_post_R 0 inord is ie postord ps pe = Diverge"
| "buildTree_post_R (Suc n) inord is ie postord ps pe =
     (if ps > pe then Ret Leaf
      else if ps = pe then exec_bind (vec_at postord ps) (\<lambda>x. Ret (Node Leaf x Leaf))
      else exec_bind (vec_at postord pe) (\<lambda>x.
           exec_bind (find_root inord x is ie) (\<lambda>i.
           exec_bind (c_int (i - 1)) (\<lambda>ie'.
           exec_bind (c_int (i - is)) (\<lambda>d.
           exec_bind (c_int (d + ps)) (\<lambda>ps'.
           exec_bind (c_int (ps' - 1)) (\<lambda>pe'.
           exec_bind (buildTree_post_R n inord is ie' postord ps pe') (\<lambda>l.
           exec_bind (c_int (i + 1)) (\<lambda>is'.
           exec_bind (c_int (pe - 1)) (\<lambda>pe''.
           exec_bind (buildTree_post_R n inord is' ie postord ps' pe'') (\<lambda>r.
           Ret (Node l x r))))))))))))"

definition buildTree_post :: "int list \<Rightarrow> int list \<Rightarrow> TreeNode exec" where
  "buildTree_post inord postord =
     buildTree_post_R (length postord + 1) inord 0 (last_index inord) postord 0 (last_index postord)"

lemma last_index_small: "length v < 2 ^ 31 \<Longrightarrow> last_index v = int (length v) - 1"
proof -
  assume "length v < 2 ^ 31"
  then have "int_ok (int (length v) - 1)" by (simp add: int_ok_def)
  then show ?thesis
    by (simp only: last_index_def to_int_mod to_int_id)
qed

lemma last_index_large: "2 ^ 31 < length v \<Longrightarrow> length v \<le> 2 ^ 32 \<Longrightarrow> last_index v < 0"
proof -
  assume v: "2 ^ 31 < length v" "length v \<le> 2 ^ 32"
  have "to_int (int (length v) - 1) = int (length v) - 1 - 2 ^ 32"
    using v by (intro to_int_large) simp_all
  with v show ?thesis by (simp only: last_index_def to_int_mod) simp
qed

lemma find_root_found:
  "x \<notin> set u \<Longrightarrow> int (length a + length u) \<le> ie \<Longrightarrow> int (length a + length u) < 2 ^ 31 \<Longrightarrow>
   find_root (a @ u @ x # b) x (int (length a)) ie = Ret (int (length a + length u))"
proof (induction u arbitrary: a)
  case Nil
  then show ?case by (subst find_root.simps) (simp add: nth_append)
next
  case (Cons y u)
  from Cons.prems have "x \<noteq> y" "int_ok (int (length a) + 1)" by (auto simp: int_ok_def)
  then show ?case
    using Cons.prems Cons.IH [of "a @ [y]"]
    by (subst find_root.simps) (auto simp: nth_append add.commute)
qed

text \<open>The part of \<open>xs\<close> at \<open>i\<close> is \<open>ys\<close>.\<close>

definition at_slice :: "'a list \<Rightarrow> int \<Rightarrow> 'a list \<Rightarrow> bool" where
  "at_slice xs i ys \<longleftrightarrow> (\<exists>p q. xs = p @ ys @ q \<and> int (length p) = i)"

lemma at_sliceI: "xs = p @ ys @ q \<Longrightarrow> int (length p) = i \<Longrightarrow> at_slice xs i ys"
  by (auto simp: at_slice_def)

lemma at_slice_append:
  assumes "at_slice xs i (ys @ zs)"
  shows "at_slice xs i ys" "at_slice xs (i + int (length ys)) zs"
proof -
  from assms obtain p q where pq: "xs = p @ ys @ zs @ q" "int (length p) = i"
    by (auto simp: at_slice_def)
  then show "at_slice xs i ys" by (intro at_sliceI [of xs p ys "zs @ q"]) auto
  from pq show "at_slice xs (i + int (length ys)) zs" by (intro at_sliceI [of xs "p @ ys" zs q]) auto
qed

lemma at_slice_Cons:
  assumes "at_slice xs i (y # zs)"
  shows "vec_at xs i = Ret y" "at_slice xs (i + 1) zs"
proof -
  show "vec_at xs i = Ret y" using assms by (auto simp: at_slice_def nth_append)
  show "at_slice xs (i + 1) zs" using at_slice_append(2) [of xs i "[y]" zs] assms by simp
qed

lemma at_slice_full [simp]: "at_slice xs 0 xs"
  by (rule at_sliceI [of xs "[]" xs "[]"]) auto

lemma size_sum_0 [simp]: "int (size l) + int (size r) = 0 \<longleftrightarrow> l = Leaf \<and> r = Leaf" for l r :: "'a tree"
proof -
  have "int (size l) + int (size r) = 0 \<longleftrightarrow> size l + size r = 0" by linarith
  then show ?thesis by simp
qed

text \<open>A traversal starts with, or ends in, the part of the left subtree.\<close>

lemma inorder_slices:
  assumes "at_slice inord i (inorder (Node l x r))"
  shows "at_slice inord i (inorder l)" "at_slice inord (i + int (size l) + 1) (inorder r)"
  using assms at_slice_append [of inord i "inorder l" "x # inorder r"]
    at_slice_Cons(2) [of inord "i + int (size l)" x "inorder r"] by auto

lemma preorder_slices:
  assumes "at_slice preord i (preorder (Node l x r))"
  shows "vec_at preord i = Ret x" "at_slice preord (i + 1) (preorder l)"
    "at_slice preord (i + 1 + int (size l)) (preorder r)"
  using assms at_slice_Cons [of preord i x "preorder l @ preorder r"]
    at_slice_append [of preord "i + 1" "preorder l" "preorder r"] by auto

lemma postorder_slices:
  assumes "at_slice postord i (postorder (Node l x r))"
  shows "at_slice postord i (postorder l)" "at_slice postord (i + int (size l)) (postorder r)"
    "vec_at postord (i + int (size l) + int (size r)) = Ret x"
proof -
  have a: "at_slice postord i (postorder l)" "at_slice postord (i + int (size l)) (postorder r @ [x])"
    using assms at_slice_append [of postord i "postorder l" "postorder r @ [x]"] by auto
  then show "at_slice postord i (postorder l)" "at_slice postord (i + int (size l)) (postorder r)"
    using at_slice_append(1) by auto
  show "vec_at postord (i + int (size l) + int (size r)) = Ret x"
    using at_slice_append(2) [OF a(2)] at_slice_Cons(1) [of postord "i + int (size l) + int (size r)" x "[]"]
    by auto
qed

lemma find_root_slice:
  assumes "at_slice inord i (u @ x # v)" "x \<notin> set u" "i + int (length u) \<le> ie" "i + int (length u) < 2 ^ 31"
  shows "find_root inord x i ie = Ret (i + int (length u))"
proof -
  from assms(1) obtain p q where pq: "inord = p @ u @ x # (v @ q)" "int (length p) = i"
    by (auto simp: at_slice_def)
  with assms(2-4) find_root_found [of x u p ie "v @ q"] show ?thesis by simp
qed

lemma at_slice_nonneg: "at_slice xs i ys \<Longrightarrow> 0 \<le> i"
  by (auto simp: at_slice_def)

lemma buildTree_pre_R_eq:
  assumes "at_slice preord ps (preorder t)" "at_slice inord is (inorder t)" "distinct (inorder t)"
    and "ps + int (size t) < 2 ^ 31" "is + int (size t) < 2 ^ 31"
  shows "buildTree_pre_R preord ps (ps + int (size t) - 1) inord is (is + int (size t) - 1) = Ret t"
  using assms
proof (induction t arbitrary: ps "is")
  case Leaf
  then show ?case by (simp add: buildTree_pre_R.simps)
next
  case (Node l x r)
  note pre = preorder_slices [OF Node.prems(1)] and ino = inorder_slices [OF Node.prems(2)]
  have pos: "0 \<le> ps" "0 \<le> is" using Node.prems(1,2) by (simp_all add: at_slice_nonneg)
  have root: "find_root inord x is (is + int (size (Node l x r)) - 1) = Ret (is + int (size l))"
    using find_root_slice [of inord "is" "inorder l" x "inorder r"] Node.prems by simp
  have l: "buildTree_pre_R preord (ps + 1) (int (size l) + ps) inord is (is + int (size l) - 1) = Ret l"
    using Node.IH(1) [OF pre(2) ino(1)] Node.prems(3-5) by (simp add: algebra_simps)
  have r: "buildTree_pre_R preord (int (size l) + ps + 1) (ps + int (size (Node l x r)) - 1) inord
      (is + int (size l) + 1) (is + int (size (Node l x r)) - 1) = Ret r"
    using Node.IH(2) [OF pre(3) ino(2)] Node.prems(3-5) by (simp add: algebra_simps)
  have ok: "int_ok (ps + 1)" "int_ok (int (size l))" "int_ok (int (size l) + ps)" "int_ok (is + int (size l) - 1)"
    "int_ok (int (size l) + ps + 1)" "int_ok (is + int (size l) + 1)"
    using Node.prems(4,5) pos by (simp_all add: int_ok_def)
  have i: "is + int (size l) - is = int (size l)" by simp
  show ?case
    by (subst buildTree_pre_R.simps) (use pre(1) root l r ok i in auto)
qed

lemma buildTree_post_R_eq:
  assumes "at_slice postord ps (postorder t)" "at_slice inord is (inorder t)" "distinct (inorder t)"
    "size t < n" "ps + int (size t) < 2 ^ 31" "is + int (size t) < 2 ^ 31"
  shows "buildTree_post_R n inord is (is + int (size t) - 1) postord ps (ps + int (size t) - 1) = Ret t"
  using assms
proof (induction t arbitrary: ps "is" n)
  case Leaf
  then show ?case by (cases n) auto
next
  case (Node l x r)
  then obtain m where m: "n = Suc m" "size l < m" "size r < m" by (cases n) auto
  note post = postorder_slices [OF Node.prems(1)] and ino = inorder_slices [OF Node.prems(2)]
  have pos: "0 \<le> ps" "0 \<le> is" using Node.prems(1,2) by (simp_all add: at_slice_nonneg)
  have root: "find_root inord x is (is + int (size (Node l x r)) - 1) = Ret (is + int (size l))"
    using find_root_slice [of inord "is" "inorder l" x "inorder r"] Node.prems by simp
  have l: "buildTree_post_R m inord is (is + int (size l) - 1) postord ps (int (size l) + ps - 1) = Ret l"
    using Node.IH(1) [OF post(1) ino(1) _ m(2)] Node.prems(3-) by (simp add: algebra_simps)
  have r: "buildTree_post_R m inord (is + int (size l) + 1) (is + int (size (Node l x r)) - 1) postord
      (int (size l) + ps) (ps + int (size (Node l x r)) - 1 - 1) = Ret r"
    using Node.IH(2) [OF post(2) ino(2) _ m(3)] Node.prems(3-) by (simp add: algebra_simps)
  have ok: "int_ok (is + int (size l) - 1)" "int_ok (int (size l))" "int_ok (int (size l) + ps)"
    "int_ok (int (size l) + ps - 1)" "int_ok (is + int (size l) + 1)"
    "int_ok (ps + int (size (Node l x r)) - 1 - 1)"
    using Node.prems(5,6) pos by (simp_all add: int_ok_def)
  have i: "is + int (size l) - is = int (size l)" by simp
  have last: "ps + int (size (Node l x r)) - 1 = ps + int (size l) + int (size r)" by simp
  show ?case
    using post(3) root l r ok i unfolding m(1) buildTree_post_R.simps last by auto
qed

text \<open>
  C38. Both programs rebuild a tree with distinct keys and fewer than \<open>2\<^sup>3\<^sup>1\<close> nodes from its traversals,
  without overflow. With more than \<open>2\<^sup>3\<^sup>1\<close> and up to \<open>2\<^sup>3\<^sup>2\<close> nodes the last index, narrowed to \<^verbatim>\<open>int\<close>, is
  negative and both return the empty tree. On two sequences that belong to no tree the second may
  recurse for ever with the same arguments.
\<close>

theorem buildTree_roundtrip:
  assumes "distinct (inorder t)"
  shows "(size t < 2 ^ 31 \<longrightarrow> buildTree_pre (preorder t) (inorder t) = Ret t
      \<and> buildTree_post (inorder t) (postorder t) = Ret t)
    \<and> (2 ^ 31 < size t \<and> size t \<le> 2 ^ 32 \<longrightarrow> buildTree_pre (preorder t) (inorder t) = Ret Leaf
      \<and> buildTree_post (inorder t) (postorder t) = Ret Leaf)
    \<and> buildTree_post_R n [1, 2] 0 1 [3, 4] 0 1 = Diverge"
proof (intro conjI impI; (elim conjE)?)
  show "buildTree_pre (preorder t) (inorder t) = Ret t" if "size t < 2 ^ 31"
    using buildTree_pre_R_eq [of "preorder t" 0 t "inorder t" 0] assms that
    by (simp add: buildTree_pre_def last_index_small)
  show "buildTree_post (inorder t) (postorder t) = Ret t" if "size t < 2 ^ 31"
    using buildTree_post_R_eq [of "postorder t" 0 t "inorder t" 0 "size t + 1"] assms that
    by (simp add: buildTree_post_def last_index_small)
  show "buildTree_pre (preorder t) (inorder t) = Ret Leaf" if "2 ^ 31 < size t" "size t \<le> 2 ^ 32"
    using that last_index_large [of "preorder t"] by (simp add: buildTree_pre_def buildTree_pre_R.simps)
  show "buildTree_post (inorder t) (postorder t) = Ret Leaf" if "2 ^ 31 < size t" "size t \<le> 2 ^ 32"
    using that last_index_large [of "postorder t"] by (simp add: buildTree_post_def)
  show "buildTree_post_R n [1, 2] 0 1 [3, 4] 0 1 = Diverge"
  proof (induction n)
    case (Suc n)
    have "find_root [1, 2] 4 0 1 = Ret 2" by code_simp
    with Suc show ?case by (simp add: vec_at_def int_ok_def)
  qed simp
qed

theorem buildTree_roundtrip_witness:
  "buildTree_pre [2, 1, 3] [1, 2, 3] = Ret (Node (Node Leaf 1 Leaf) 2 (Node Leaf 3 Leaf)) \<and>
   buildTree_post [1, 2, 3] [1, 3, 2] = Ret (Node (Node Leaf 1 Leaf) 2 (Node Leaf 3 Leaf)) \<and>
   buildTree_post_R 5 [1, 2] 0 1 [3, 4] 0 1 = Diverge"
  using buildTree_roundtrip [of "Node (Node Leaf 1 Leaf) 2 (Node Leaf 3 Leaf)"] by simp

section \<open>Balanced search trees from sorted sequences\<close>

text \<open>\<^verbatim>\<open>convert-sorted-array-to-binary-search-tree.cc\<close>\<close>

function sortedArrayToBST_R :: "int list \<Rightarrow> int \<Rightarrow> int \<Rightarrow> TreeNode exec" where
  "sortedArrayToBST_R num s e =
     (if e < s then Ret Leaf
      else if e = s then exec_bind (vec_at num s) (\<lambda>x. Ret (Node Leaf x Leaf))
      else exec_bind (c_int (e + s)) (\<lambda>es.
           let n = (if es < 0 then - ((- es) div 2) else es div 2) in
           exec_bind (vec_at num n) (\<lambda>x.
           exec_bind (sortedArrayToBST_R num s (n - 1)) (\<lambda>l.
           exec_bind (sortedArrayToBST_R num (n + 1) e) (\<lambda>r.
           Ret (Node l x r))))))"
  by auto
termination
  by (relation "measure (\<lambda>(num, s, e). nat (e + 1 - s))")
     (auto simp: c_int_def split: if_splits)

declare sortedArrayToBST_R.simps [simp del]

definition sortedArrayToBST :: "int list \<Rightarrow> TreeNode exec" where
  "sortedArrayToBST num =
     (if length num = 0 then Ret Leaf else sortedArrayToBST_R num 0 (int (length num) - 1))"

text \<open>
  \<^verbatim>\<open>convert-sorted-list-to-binary-search-tree.cc\<close>, on the list of the values of the nodes: the
  slow pointer \<^verbatim>\<open>s1\<close> and the fast pointer \<^verbatim>\<open>s2\<close> are positions, \<^verbatim>\<open>prev\<close> is the node before \<^verbatim>\<open>s1\<close>, and
  \<^verbatim>\<open>prev->next = NULL\<close> leaves the nodes before \<^verbatim>\<open>s1\<close> reachable from the head. A position \<open>i\<close> with
  \<open>i + 1 = n\<close> is the last node. \<^verbatim>\<open>s2\<close> is always before the end, so its tests never dereference
  \<^verbatim>\<open>NULL\<close>; that \<^verbatim>\<open>s1\<close> is checked where its value is read.
\<close>

function list_split :: "nat \<Rightarrow> nat \<Rightarrow> nat \<Rightarrow> nat" where
  "list_split n s1 s2 =
     (let s1 = s1 + 1 in
      if \<not> (s2 + 1 < n) \<or> \<not> (s2 + 2 < n) then s1
      else let s2 = s2 + 2 in
           if \<not> (s2 + 1 < n) then s1 else list_split n s1 s2)"
  by auto
termination by (relation "measure (\<lambda>(n, s1, s2). n - s2)") auto

declare list_split.simps [simp del]

lemma list_split_eq:
  "s2 < n \<Longrightarrow> list_split n s1 s2 = s1 + max 1 ((n - s2) div 2)"
proof (induction n s1 s2 rule: list_split.induct)
  case (1 n s1 s2)
  then show ?case by (subst list_split.simps) (auto simp: Let_def max_def)
qed

function sortedListToBST_R :: "int list \<Rightarrow> TreeNode exec" where
  "sortedListToBST_R head =
     (case head of
        [] \<Rightarrow> Undefined
      | [a] \<Rightarrow> Ret (Node Leaf a Leaf)
      | [a, b] \<Rightarrow> Ret (Node Leaf a (Node Leaf b Leaf))
      | _ \<Rightarrow>
          let s1 = list_split (length head) 0 0 in
          if s1 < length head then
            exec_bind (sortedListToBST_R (take s1 head)) (\<lambda>l.
            exec_bind (sortedListToBST_R (drop (s1 + 1) head)) (\<lambda>r.
            Ret (Node l (head ! s1) r)))
          else Undefined)"
  by auto
termination
  by (relation "measure length") (auto simp: list_split_eq)

declare sortedListToBST_R.simps [simp del]

text \<open>
  \<^verbatim>\<open>sortedListToBST\<close> calls \<^verbatim>\<open>R\<close> and then runs off the end of the function without a \<^verbatim>\<open>return\<close>.
\<close>

definition sortedListToBST :: "int list \<Rightarrow> TreeNode exec" where
  "sortedListToBST head =
     (if head = [] then Ret Leaf else exec_bind (sortedListToBST_R head) (\<lambda>_. Undefined))"

text \<open>
  In a weight balanced tree the height is least possible for the number of nodes, and the
  heights of two siblings differ by at most one.
\<close>

lemma wbalanced_height: "wbalanced t \<Longrightarrow> t = Leaf \<or> 2 ^ height t \<le> 2 * size t"
proof (induction t)
  case (Node l v r)
  have sub: "2 * 2 ^ height t \<le> 2 * Suc (size l + size r)"
    if "t = Leaf \<or> 2 ^ height t \<le> 2 * size t" "t = l \<or> t = r" for t
    using that Node.prems by auto
  have "2 * 2 ^ height l \<le> 2 * Suc (size l + size r)" "2 * 2 ^ height r \<le> 2 * Suc (size l + size r)"
    using sub Node.IH Node.prems by auto
  then show ?case by (simp add: max_def)
qed simp

lemma size_less_height: "size t < 2 ^ height t" for t :: "'a tree"
  using size1_height [of t] by (simp add: size1_size)

lemma wbalanced_minimal:
  fixes t t' :: "'a tree"
  assumes "wbalanced t" "size t \<le> size t'"
  shows "height t \<le> height t'"
proof (cases "t = Leaf")
  case False
  then have "2 ^ height t \<le> 2 * size t" using wbalanced_height [OF assms(1)] by simp
  also have "\<dots> < 2 ^ Suc (height t')" using size_less_height [of t'] assms(2) by simp
  finally have "height t < Suc (height t')" by (rule power_less_imp_less_exp [rotated]) simp
  then show ?thesis by simp
qed simp

lemma wbalanced_siblings:
  fixes l r :: "'a tree"
  assumes "wbalanced l" "size l \<le> Suc (size r)"
  shows "height l \<le> Suc (height r)"
proof (cases "l = Leaf")
  case False
  then have "2 ^ height l \<le> 2 * size l" using wbalanced_height [OF assms(1)] by simp
  also have "\<dots> \<le> 2 ^ Suc (height r)" using size_less_height [of r] assms(2) by simp
  finally show ?thesis by (rule power_le_imp_le_exp [rotated]) simp
qed simp

lemma wbalanced_isBalanced: "wbalanced t \<Longrightarrow> isBalanced t"
proof -
  have "wbalanced t \<Longrightarrow> Node l x r \<in> subtrees t \<Longrightarrow> \<bar>int (height l) - int (height r)\<bar> \<le> 1" for l x r
  proof (induction t)
    case (Node a v b)
    have "height a \<le> Suc (height b)" "height b \<le> Suc (height a)"
      using Node.prems(1) by (auto intro!: wbalanced_siblings)
    with Node show ?case by auto
  qed simp
  then show "wbalanced t \<Longrightarrow> isBalanced t"
    by (simp add: isBalanced_def isBalanced_R_eq)
qed

lemma take_drop_split:
  "a + k \<le> length xs \<Longrightarrow> m < k \<Longrightarrow>
   take k (drop a xs) = take m (drop a xs) @ xs ! (a + m) # take (k - m - 1) (drop (a + m + 1) xs)"
proof -
  assume "a + k \<le> length xs" "m < k"
  then have "take k (drop a xs) = take m (drop a xs) @ take (k - m) (drop (a + m) xs)"
    using take_add [of m "k - m" "drop a xs"] by (simp add: add.commute)
  also have "take (k - m) (drop (a + m) xs) = xs ! (a + m) # take (k - m - 1) (drop (a + m + 1) xs)"
    using \<open>a + k \<le> length xs\<close> \<open>m < k\<close> by (cases "k - m") (auto simp: Cons_nth_drop_Suc [symmetric])
  finally show ?thesis .
qed

lemma sortedArrayToBST_R_eq:
  assumes "a + k \<le> length num" "length num < 2 ^ 30"
  shows "\<exists>t. sortedArrayToBST_R num (int a) (int a + int k - 1) = Ret t \<and> wbalanced t \<and>
    inorder t = take k (drop a num)"
  using assms
proof (induction k arbitrary: a rule: less_induct)
  case (less k)
  consider "k = 0" | "k = 1" | "2 \<le> k" by linarith
  then show ?case
  proof cases
    case 3
    define m where "m = (k - 1) div 2"
    have m: "m < k" "k - m - 1 < k" using 3 by (auto simp: m_def)
    have mid: "(int a + int k - 1 + int a) div 2 = int (a + m)" using 3 by (simp add: m_def)
    obtain l where l: "sortedArrayToBST_R num (int a) (int (a + m) - 1) = Ret l" "wbalanced l"
        "inorder l = take m (drop a num)"
      using less.IH [OF m(1), of a] less.prems m by auto
    have last: "int (a + m) + 1 + int (k - m - 1) - 1 = int a + int k - 1" using m by simp
    obtain r where r: "sortedArrayToBST_R num (int (a + m) + 1) (int a + int k - 1) = Ret r" "wbalanced r"
        "inorder r = take (k - m - 1) (drop (a + m + 1) num)"
      using less.IH [OF m(2), of "a + m + 1"] less.prems m(1) last by (auto simp: algebra_simps)
    have sz: "size l = m" "size r = k - m - 1"
      using l(3) r(3) less.prems m by (simp_all flip: length_inorder)
    have "sortedArrayToBST_R num (int a) (int a + int k - 1) = Ret (Node l (num ! (a + m)) r)"
      by (subst sortedArrayToBST_R.simps)
         (use 3 less.prems m mid l(1) r(1) in \<open>auto simp: int_ok_def Let_def nat_add_distrib\<close>)
    moreover have "wbalanced (Node l (num ! (a + m)) r)"
      using l r sz 3 by (auto simp: m_def)
    ultimately show ?thesis
      using l(3) r(3) take_drop_split [OF less.prems(1) m(1)] by auto
  qed (use less.prems in \<open>auto simp: sortedArrayToBST_R.simps take_Suc_conv_app_nth\<close>)
qed

lemma sortedListToBST_R_eq:
  "xs \<noteq> [] \<Longrightarrow> \<exists>t. sortedListToBST_R xs = Ret t \<and> wbalanced t \<and> inorder t = xs"
proof (induction "length xs" arbitrary: xs rule: less_induct)
  case less
  consider a where "xs = [a]" | a b where "xs = [a, b]" | a b c ys where "xs = a # b # c # ys"
    using less.prems by (metis list.exhaust)
  then show ?case
  proof cases
    case (3 a b c ys)
    define m where "m = length xs div 2"
    have m: "list_split (length xs) 0 0 = m" "0 < m" "m + 1 < length xs"
      using 3 by (auto simp: list_split_eq m_def max_def)
    obtain l where l: "sortedListToBST_R (take m xs) = Ret l" "wbalanced l" "inorder l = take m xs"
      using less.hyps [of "take m xs"] m(2,3) by fastforce
    obtain r where r: "sortedListToBST_R (drop (m + 1) xs) = Ret r" "wbalanced r" "inorder r = drop (m + 1) xs"
      using less.hyps [of "drop (m + 1) xs"] m(2,3) by fastforce
    have sz: "size l = m" "size r = length xs - m - 1"
      using l(3) r(3) m by (simp_all flip: length_inorder)
    have "sortedListToBST_R xs = Ret (Node l (xs ! m) r)"
      using m l(1) r(1) by (subst sortedListToBST_R.simps) (auto simp: 3 Let_def)
    moreover have "wbalanced (Node l (xs ! m) r)" using l r sz m by (auto simp: m_def)
    moreover have "xs = take m xs @ xs ! m # drop (m + 1) xs" using m id_take_nth_drop [of m xs] by simp
    ultimately show ?thesis using l(3) r(3) by auto
  qed (auto simp: sortedListToBST_R.simps)
qed

text \<open>
  A sorted array becomes a search tree with the same keys, height balanced and of the least
  possible height; the midpoint does not overflow for fewer than \<open>2 ^ 30\<close> keys. The recursion
  on lists builds such a tree too, but its caller does not return it: for a nonempty list the
  result of \<^verbatim>\<open>sortedListToBST\<close> is undefined.
\<close>

theorem sorted_to_BST:
  assumes "length num < 2 ^ 30" "xs \<noteq> []"
  shows "returns (sortedArrayToBST num) (\<lambda>t. inorder t = num \<and> isBalanced t \<and>
      (sorted_wrt (<) num \<longrightarrow> bst t) \<and> (\<forall>t' :: TreeNode. inorder t' = num \<longrightarrow> height t \<le> height t'))
    \<and> returns (sortedListToBST_R xs) (\<lambda>t. inorder t = xs \<and> isBalanced t \<and>
      (sorted_wrt (<) xs \<longrightarrow> bst t) \<and> (\<forall>t' :: TreeNode. inorder t' = xs \<longrightarrow> height t \<le> height t'))
    \<and> sortedListToBST xs = Undefined"
proof (intro conjI)
  have good: "inorder t = zs \<and> isBalanced t \<and> (sorted_wrt (<) zs \<longrightarrow> bst t) \<and>
      (\<forall>t' :: TreeNode. inorder t' = zs \<longrightarrow> height t \<le> height t')"
    if "wbalanced t" "inorder t = zs" for t :: TreeNode and zs
  proof -
    have "size t \<le> size t'" if "inorder t' = zs" for t' :: TreeNode
      using that \<open>inorder t = zs\<close> by (metis length_inorder order.refl)
    with that show ?thesis
      by (auto simp: wbalanced_isBalanced bst_iff_sorted_wrt_less intro!: wbalanced_minimal)
  qed
  show "returns (sortedArrayToBST num) (\<lambda>t. inorder t = num \<and> isBalanced t \<and>
      (sorted_wrt (<) num \<longrightarrow> bst t) \<and> (\<forall>t' :: TreeNode. inorder t' = num \<longrightarrow> height t \<le> height t'))"
    using sortedArrayToBST_R_eq [of 0 "length num" num] assms good [of Leaf "[]"] good
    by (auto simp: sortedArrayToBST_def)
  show r: "returns (sortedListToBST_R xs) (\<lambda>t. inorder t = xs \<and> isBalanced t \<and>
      (sorted_wrt (<) xs \<longrightarrow> bst t) \<and> (\<forall>t' :: TreeNode. inorder t' = xs \<longrightarrow> height t \<le> height t'))"
    using sortedListToBST_R_eq [OF assms(2)] good by auto
  then show "sortedListToBST xs = Undefined"
    using assms(2) by (auto simp: sortedListToBST_def returns_iff)
qed

theorem sorted_to_BST_witness:
  "returns (sortedArrayToBST [1, 2, 3]) (\<lambda>t. inorder t = [1, 2, 3] \<and> isBalanced t) \<and>
   sortedArrayToBST [1, 2, 3] = Ret (Node (Node Leaf 1 Leaf) 2 (Node Leaf 3 Leaf)) \<and>
   sortedListToBST [1, 2, 3] = Undefined"
proof (intro conjI)
  show "returns (sortedArrayToBST [1, 2, 3]) (\<lambda>t. inorder t = [1, 2, 3] \<and> isBalanced t)"
    by (rule returns_mono [OF conjunct1 [OF sorted_to_BST [of "[1, 2, 3]" "[1, 2, 3]"]]]) auto
  show "sortedArrayToBST [1, 2, 3] = Ret (Node (Node Leaf 1 Leaf) 2 (Node Leaf 3 Leaf))" by code_simp
  show "sortedListToBST [1, 2, 3] = Undefined" using sorted_to_BST [of "[]" "[1, 2, 3]"] by simp
qed

section \<open>All search trees\<close>

text \<open>
  \<^verbatim>\<open>unique-binary-search-trees-2.cc\<close>. The trees of the result share subtrees, which nobody
  changes; \<^verbatim>\<open>copy\<close> is not called.
\<close>

function generateTrees_R :: "int \<Rightarrow> int \<Rightarrow> TreeNode list" where
  "generateTrees_R s e =
     (if s > e then [Leaf]
      else if s = e then [Node Leaf s Leaf]
      else concat (map (\<lambda>i.
             let ls = generateTrees_R s (i - 1); rs = generateTrees_R (i + 1) e
             in concat (map (\<lambda>l. map (\<lambda>r. Node l i r) rs) ls)) [s..e]))"
  by auto
termination by (relation "measure (\<lambda>(s, e). nat (e + 1 - s))") auto

declare generateTrees_R.simps [simp del]

definition generateTrees :: "int \<Rightarrow> TreeNode list" where
  "generateTrees n = generateTrees_R 1 n"

fun copy_tree :: "TreeNode \<Rightarrow> TreeNode" where
  "copy_tree Leaf = Leaf"
| "copy_tree (Node l v r) = Node (copy_tree l) v (copy_tree r)"

text \<open>\<^verbatim>\<open>unique-binary-search-trees.cc\<close>: the array \<^verbatim>\<open>dp\<close> has \<^verbatim>\<open>N + 1\<close> elements.\<close>

definition numTrees_body :: "int \<Rightarrow> int \<Rightarrow> int list \<Rightarrow> int list exec" where
  "numTrees_body i j dp =
     exec_bind (vec_at dp (j - 1)) (\<lambda>a.
     exec_bind (vec_at dp (i - j)) (\<lambda>b.
     exec_bind (c_int (a * b)) (\<lambda>ab.
     exec_bind (vec_at dp i) (\<lambda>d.
     exec_bind (c_int (d + ab)) (\<lambda>v. vec_put dp i v)))))"

definition numTrees :: "int \<Rightarrow> int exec" where
  "numTrees n =
     (if n < 0 then Undefined
      else exec_bind (vec_put (replicate (nat (n + 1)) 0) 0 1) (\<lambda>dp.
           exec_bind (vec_put dp 1 1) (\<lambda>dp.
           exec_bind (exec_fold (\<lambda>i. exec_fold (numTrees_body i) [1..i]) [2..n] dp) (\<lambda>dp.
           vec_at dp n))))"

subsection \<open>Correctness\<close>

lemma copy_tree_eq: "copy_tree t = t"
  by (induction t) auto

lemma generateTrees_R_empty: "e < s \<Longrightarrow> generateTrees_R s e = [Leaf]"
  by (simp add: generateTrees_R.simps)

lemma generateTrees_R_split:
  "s \<le> e \<Longrightarrow> generateTrees_R s e =
     concat (map (\<lambda>i. concat (map (\<lambda>l. map (Node l i) (generateTrees_R (i + 1) e))
       (generateTrees_R s (i - 1)))) [s..e])"
  by (cases "s = e"; subst generateTrees_R.simps) (simp_all add: generateTrees_R_empty Let_def)

lemma generateTrees_R_induct [case_names empty split]:
  fixes s e :: int
  assumes "\<And>s e. e < s \<Longrightarrow> P s e"
    and "\<And>s e. s \<le> e \<Longrightarrow> (\<And>i. s \<le> i \<Longrightarrow> i \<le> e \<Longrightarrow> P s (i - 1) \<and> P (i + 1) e) \<Longrightarrow> P s e"
  shows "P s e"
proof (induction "nat (e + 1 - s)" arbitrary: s e rule: less_induct)
  case less
  then show ?case using assms by (cases "e < s") auto
qed

lemma inorder_upto:
  "inorder (Node l i r) = [s..e] \<longleftrightarrow> s \<le> i \<and> i \<le> e \<and> inorder l = [s..i - 1] \<and> inorder r = [i + 1..e]"
proof
  assume "inorder (Node l i r) = [s..e]"
  then have eq: "inorder l @ i # inorder r = [s..e]" by simp
  have "i \<in> set (inorder l @ i # inorder r)" by simp
  then have i: "s \<le> i" "i \<le> e" unfolding eq by simp_all
  have "distinct (inorder l @ i # inorder r)" unfolding eq by simp
  then have "i \<notin> set (inorder l)" "i \<notin> set (inorder r)" by simp_all
  moreover have "inorder l @ i # inorder r = [s..i - 1] @ i # [i + 1..e]"
    unfolding eq using i by (rule upto_split3)
  ultimately show "s \<le> i \<and> i \<le> e \<and> inorder l = [s..i - 1] \<and> inorder r = [i + 1..e]"
    using i append_Cons_eq_iff [of i "inorder l" "inorder r" "[s..i - 1]" "[i + 1..e]"] by simp
qed (use upto_split3 [of s i e] in auto)

text \<open>The trees are those whose inorder sequence is the interval, each once.\<close>

lemma set_generateTrees_R: "set (generateTrees_R s e) = {t. inorder t = [s..e]}"
proof (induction s e rule: generateTrees_R_induct)
  case (split s e)
  have "t \<in> set (generateTrees_R s e) \<longleftrightarrow> inorder t = [s..e]" for t
  proof (cases t)
    case Leaf
    with split.hyps show ?thesis by (auto simp: generateTrees_R_split)
  next
    case (Node l i r)
    have "Node l i r \<in> set (generateTrees_R s e) \<longleftrightarrow>
        s \<le> i \<and> i \<le> e \<and> l \<in> set (generateTrees_R s (i - 1)) \<and> r \<in> set (generateTrees_R (i + 1) e)"
      using split.hyps by (force simp: generateTrees_R_split)
    with split.IH [of i] show ?thesis unfolding Node inorder_upto by blast
  qed
  then show ?case by blast
qed (auto simp: generateTrees_R_empty)

lemma distinct_generateTrees_R: "distinct (generateTrees_R s e)"
proof (induction s e rule: generateTrees_R_induct)
  case (split s e)
  have "distinct (concat (map (\<lambda>l. map (Node l i) (generateTrees_R (i + 1) e)) (generateTrees_R s (i - 1))))"
    if "i \<in> set [s..e]" for i
    using that split.IH [of i] by (intro distinct_concat_map) (auto simp: distinct_map inj_on_def)
  with split.hyps show ?case
    by (subst generateTrees_R_split) (auto intro!: distinct_concat_map [where xs = "[s..e]"])
qed (simp add: generateTrees_R_empty)

text \<open>The number of search trees with \<open>n\<close> keys.\<close>

fun cat :: "nat \<Rightarrow> int" where
  "cat 0 = 1"
| "cat (Suc n) = (\<Sum>i \<le> n. cat i * cat (n - i))"

declare cat.simps(2) [simp del]

lemma cat_pos: "0 < cat n"
proof (induction n rule: cat.induct)
  case (2 n)
  then show ?case by (auto simp: cat.simps(2) intro!: sum_pos)
qed simp

lemma cat_mono: "m \<le> n \<Longrightarrow> cat m \<le> cat n"
proof (rule lift_Suc_mono_le [of cat])
  fix n
  have "cat 0 * cat (n - 0) \<le> cat (Suc n)"
    unfolding cat.simps(2) by (intro member_le_sum) (auto simp: cat_pos less_imp_le)
  then show "cat n \<le> cat (Suc n)" by simp
qed

lemma int_length_concat: "int (length (concat (map f xs))) = (\<Sum>x \<leftarrow> xs. int (length (f x)))"
  by (induction xs) auto

lemma length_generateTrees_R: "int (length (generateTrees_R s e)) = cat (nat (e + 1 - s))"
proof (induction s e rule: generateTrees_R_induct)
  case (split s e)
  define n where "n = nat (e - s)"
  have len: "nat (e + 1 - s) = Suc n" and e: "e = s + int n" using split.hyps by (auto simp: n_def)
  have idx: "n - nat (a - s) = nat (s + int n - a)" if "s \<le> a" "a \<le> s + int n" for a
    using that by linarith
  have "int (length (generateTrees_R s e)) = (\<Sum>i \<leftarrow> [s..e]. cat (nat (i - s)) * cat (nat (e - i)))"
    unfolding generateTrees_R_split [OF split.hyps] int_length_concat
    by (intro arg_cong [where f = sum_list] map_cong refl)
       (use split.IH in \<open>simp add: sum_list_triv of_nat_mult\<close>)
  also have "\<dots> = (\<Sum>i \<in> {s..e}. cat (nat (i - s)) * cat (nat (e - i)))"
    by (simp add: sum_list_distinct_conv_sum_set)
  also have "\<dots> = (\<Sum>i \<le> n. cat i * cat (n - i))"
    by (rule sum.reindex_bij_witness [of _ "\<lambda>i. s + int i" "\<lambda>i. nat (i - s)"]) (auto simp: e idx)
  finally show ?case by (simp add: len cat.simps(2))
qed (simp add: generateTrees_R_empty)

text \<open>The array before the inner loop of turn \<open>i\<close> starts its turn \<open>j\<close>.\<close>

definition dp_ok :: "int \<Rightarrow> int \<Rightarrow> int \<Rightarrow> int list \<Rightarrow> bool" where
  "dp_ok n i j dp \<longleftrightarrow> length dp = nat (n + 1) \<and>
     (\<forall>k < nat (n + 1). dp ! k =
        (if int k < i then cat k
         else if int k = i then \<Sum>m < nat (j - 1). cat m * cat (nat i - 1 - m) else 0))"

lemma cat_partial:
  assumes "j \<le> nat i" "0 < i"
  shows "(\<Sum>m < j. cat m * cat (nat i - 1 - m)) \<le> cat (nat i)"
proof -
  obtain p where p: "nat i = Suc p" using assms(2) by (metis gr0_implies_Suc zero_less_nat_eq)
  have "(\<Sum>m < j. cat m * cat (p - m)) \<le> (\<Sum>m \<le> p. cat m * cat (p - m))"
    using assms(1) p by (intro sum_mono2) (auto simp: cat_pos less_imp_le)
  then show ?thesis by (simp add: p cat.simps(2))
qed

lemma numTrees_inner_step:
  assumes "dp_ok n i j dp" "1 \<le> j" "j \<le> i" "2 \<le> i" "i \<le> n" "cat (nat n) < 2 ^ 31"
  shows "returns (numTrees_body i j dp) (dp_ok n i (j + 1))"
proof -
  let ?S = "\<lambda>j. \<Sum>m < j. cat m * cat (nat i - 1 - m)"
  have a: "dp ! nat (j - 1) = cat (nat (j - 1))" and b: "dp ! nat (i - j) = cat (nat (i - j))"
    and d: "dp ! nat i = ?S (nat (j - 1))" and len: "length dp = nat (n + 1)"
    using assms(1-5) by (auto simp: dp_ok_def)
  have ij: "nat i - Suc (nat (j - 1)) = nat (i - j)" and j: "nat j = Suc (nat (j - 1))"
    using assms(2,3) by linarith+
  have S: "?S (nat j) = ?S (nat (j - 1)) + cat (nat (j - 1)) * cat (nat (i - j))"
    by (simp add: j ij)
  have "?S (nat j) \<le> cat (nat n)"
    using cat_partial [of "nat j" i] cat_mono [of "nat i" "nat n"] assms by linarith
  moreover have "0 \<le> ?S (nat (j - 1))" by (intro sum_nonneg) (auto simp: cat_pos less_imp_le)
  moreover have "0 \<le> cat (nat (j - 1)) * cat (nat (i - j))" by (simp add: cat_pos less_imp_le)
  ultimately have ok: "int_ok (cat (nat (j - 1)) * cat (nat (i - j)))" "int_ok (?S (nat j))"
    using assms(6) S by (auto simp: int_ok_def)
  have "dp_ok n i (j + 1) (dp[nat i := ?S (nat j)])"
    using assms(1-5) by (auto simp: dp_ok_def nth_list_update)
  then show ?thesis using assms(2-5) ok len S by (simp add: numTrees_body_def a b d)
qed

lemma dp_ok_next: "dp_ok n i (i + 1) dp \<Longrightarrow> 2 \<le> i \<Longrightarrow> i \<le> n \<Longrightarrow> dp_ok n (i + 1) 1 dp"
proof -
  assume dp: "dp_ok n i (i + 1) dp" and i: "2 \<le> i" "i \<le> n"
  obtain p where p: "nat i = Suc p" using i by (metis gr0_implies_Suc less_le_trans zero_less_nat_eq zero_less_numeral)
  have full: "(\<Sum>m < nat i. cat m * cat (nat i - 1 - m)) = cat (nat i)"
    by (simp add: p cat.simps(2) lessThan_Suc_atMost)
  have "dp ! k = (if int k < i + 1 then cat k else if int k = i + 1 then 0 else 0)" if "k < nat (n + 1)" for k
    using dp that full i unfolding dp_ok_def by (cases "int k = i") auto
  then show "dp_ok n (i + 1) 1 dp" using dp by (auto simp: dp_ok_def)
qed

lemma numTrees_eq:
  assumes "1 \<le> n" "cat (nat n) < 2 ^ 31"
  shows "numTrees n = Ret (cat (nat n))"
proof -
  let ?dp = "(replicate (nat (n + 1)) 0)[0 := 1, Suc 0 := 1]"
  have init: "dp_ok n 2 1 ?dp"
    using assms(1) by (auto simp: dp_ok_def nth_list_update cat.simps(2) less_Suc_eq numeral_2_eq_2)
  have inner: "returns (exec_fold (numTrees_body i) [1..i] dp) (dp_ok n (i + 1) 1)"
    if "2 \<le> i" "i \<le> n" "dp_ok n i 1 dp" for i dp
    using that assms(2)
    by (intro returns_mono [OF exec_fold_upto [where P = "dp_ok n i"]])
       (auto intro: numTrees_inner_step dp_ok_next)
  have "returns (exec_fold (\<lambda>i. exec_fold (numTrees_body i) [1..i]) [2..n] ?dp) (dp_ok n (n + 1) 1)"
    using assms(1) by (intro exec_fold_upto [where P = "\<lambda>i. dp_ok n i 1"] init inner) auto
  then show ?thesis
    using assms(1) by (auto simp: numTrees_def dp_ok_def returns_iff)
qed

text \<open>
  \<^verbatim>\<open>generateTrees\<close> lists every search tree on the keys \<open>1 \<dots> n\<close> exactly once, and \<^verbatim>\<open>numTrees\<close>
  computes the length of this list whenever it is an \<^verbatim>\<open>int\<close>. For \<^verbatim>\<open>n = 0\<close> it writes behind its array.
\<close>

theorem all_search_trees:
  "set (generateTrees n) = {t. bst t \<and> set_tree t = {1..n}}
   \<and> distinct (generateTrees n)
   \<and> (1 \<le> n \<and> int (length (generateTrees n)) < 2 ^ 31 \<longrightarrow>
        numTrees n = Ret (int (length (generateTrees n))))
   \<and> numTrees 0 = Undefined"
proof (intro conjI impI; (elim conjE)?)
  have "bst t \<and> set_tree t = {1..n} \<longleftrightarrow> inorder t = [1..n]" for t
  proof -
    have "inorder t = [1..n]" if "sorted_wrt (<) (inorder t)" "set (inorder t) = set [1..n]"
      using that by (intro strict_sorted_equal) auto
    then show ?thesis by (auto simp: bst_iff_sorted_wrt_less simp flip: set_inorder)
  qed
  then show "set (generateTrees n) = {t. bst t \<and> set_tree t = {1..n}}"
    by (simp add: generateTrees_def set_generateTrees_R)
  show "distinct (generateTrees n)" by (simp add: generateTrees_def distinct_generateTrees_R)
  show "numTrees 0 = Undefined" by (simp add: numTrees_def vec_put_def)
  assume n: "1 \<le> n" and "int (length (generateTrees n)) < 2 ^ 31"
  then have small: "cat (nat n) < 2 ^ 31" by (simp add: generateTrees_def length_generateTrees_R)
  with n show "numTrees n = Ret (int (length (generateTrees n)))"
    by (simp add: numTrees_eq generateTrees_def length_generateTrees_R)
qed

theorem all_search_trees_witness:
  "numTrees 3 = Ret 5 \<and> length (generateTrees 3) = 5 \<and> numTrees 3 = Ret (int (length (generateTrees 3)))"
proof (intro conjI)
  show "numTrees 3 = Ret 5" by code_simp
  show "length (generateTrees 3) = 5" by code_simp
  then show "numTrees 3 = Ret (int (length (generateTrees 3)))" using all_search_trees [of 3] by simp
qed

end
