(* ===== verification/Array_Problems.thy ===== *)
theory Array_Problems
  imports Sperm_Prelude
begin

text \<open>
  Dynamic programs of \<^verbatim>\<open>code/leetcode\<close> over one array: \<^verbatim>\<open>candy.cc\<close> and the three programs on
  stock prices. A local array is an argument,
  with arbitrary contents, as the code does not initialise it.
\<close>

section \<open>Candy\<close>

definition candy_L_body :: "int list \<Rightarrow> int \<Rightarrow> int list \<Rightarrow> int list exec" where
  "candy_L_body ratings i dp =
     exec_bind (vec_at ratings i) (\<lambda>r.
     exec_bind (vec_at ratings (i - 1)) (\<lambda>r'.
     if r > r' then exec_bind (vec_at dp (i - 1)) (\<lambda>d. exec_bind (c_int (d + 1)) (vec_put dp i))
     else vec_put dp i 1))"

definition candy_L :: "int list \<Rightarrow> int list \<Rightarrow> int list exec" where
  "candy_L ratings dp =
     exec_bind (vec_put dp 0 1) (exec_fold (candy_L_body ratings) [1..int (length ratings) - 1])"

definition candy_R_body :: "int list \<Rightarrow> int \<Rightarrow> int list \<Rightarrow> int list exec" where
  "candy_R_body ratings i dp =
     exec_bind (vec_at ratings i) (\<lambda>r.
     exec_bind (vec_at ratings (i + 1)) (\<lambda>r'.
     if r > r' then exec_bind (vec_at dp (i + 1)) (\<lambda>d. exec_bind (c_int (d + 1)) (vec_put dp i))
     else vec_put dp i 1))"

definition candy_R :: "int list \<Rightarrow> int list \<Rightarrow> int list exec" where
  "candy_R ratings dp =
     exec_bind (vec_put dp (int (length ratings) - 1) 1)
       (exec_fold (candy_R_body ratings) (rev [0..int (length ratings) - 2]))"

definition candy :: "int list \<Rightarrow> int list \<Rightarrow> int list \<Rightarrow> int exec" where
  "candy dp0 dp1 ratings =
     (if length ratings = 0 then Ret 0
      else exec_bind (candy_L ratings dp0) (\<lambda>dp0.
           exec_bind (candy_R ratings dp1) (\<lambda>dp1.
           exec_fold (\<lambda>i sm. exec_bind (vec_at dp0 i) (\<lambda>a. exec_bind (vec_at dp1 i) (\<lambda>b. c_int (sm + max a b))))
             [0..int (length ratings) - 1] 0)))"

text \<open>
  An assignment is fair when everybody gets something and a child with a higher rating than a
  neighbour gets more. The lengths of the rising runs to the left and to the right are what is
  needed at least.
\<close>

definition fair :: "int list \<Rightarrow> int list \<Rightarrow> bool" where
  "fair r c \<longleftrightarrow> length c = length r \<and> (\<forall>i < length r. 1 \<le> c ! i) \<and>
     (\<forall>i. Suc i < length r \<longrightarrow> (r ! i < r ! Suc i \<longrightarrow> c ! i < c ! Suc i) \<and> (r ! Suc i < r ! i \<longrightarrow> c ! Suc i < c ! i))"

fun rise :: "int list \<Rightarrow> nat \<Rightarrow> int" where
  "rise r 0 = 1"
| "rise r (Suc i) = (if r ! Suc i > r ! i then rise r i + 1 else 1)"

function fall :: "int list \<Rightarrow> nat \<Rightarrow> int" where
  "fall r i = (if Suc i < length r \<and> r ! i > r ! Suc i then fall r (Suc i) + 1 else 1)"
  by auto
termination by (relation "measure (\<lambda>(r, i). length r - i)") auto

declare fall.simps [simp del]

lemma fair_ge: "fair r c \<Longrightarrow> i < length r \<Longrightarrow> 1 \<le> c ! i"
  by (simp add: fair_def)

lemma fair_up: "fair r c \<Longrightarrow> Suc i < length r \<Longrightarrow> r ! i < r ! Suc i \<Longrightarrow> c ! i < c ! Suc i"
  by (simp add: fair_def)

lemma fair_down: "fair r c \<Longrightarrow> Suc i < length r \<Longrightarrow> r ! Suc i < r ! i \<Longrightarrow> c ! Suc i < c ! i"
  by (simp add: fair_def)

lemma rise_bounds: "1 \<le> rise r i \<and> rise r i \<le> int i + 1"
  by (induction i) auto

lemma fall_bounds: "i < length r \<Longrightarrow> 1 \<le> fall r i \<and> fall r i \<le> int (length r - i)"
proof (induction r i rule: fall.induct)
  case (1 r i)
  then show ?case by (subst (1 2) fall.simps) (auto simp: Suc_diff_Suc)
qed

lemma rise_least: "fair r c \<Longrightarrow> i < length r \<Longrightarrow> rise r i \<le> c ! i"
proof (induction i)
  case (Suc i)
  then show ?case using fair_ge [of r c "Suc i"] fair_up [of r c i] by auto
qed (auto simp: fair_ge)

lemma fall_least: "fair r c \<Longrightarrow> i < length r \<Longrightarrow> fall r i \<le> c ! i"
proof (induction r i rule: fall.induct)
  case (1 r i)
  then show ?case using fair_ge [of r c i] fair_down [of r c i] by (subst fall.simps) auto
qed

definition least_candies :: "int list \<Rightarrow> int list" where
  "least_candies r = map (\<lambda>i. max (rise r i) (fall r i)) [0..<length r]"

lemma least_candies_fair: "fair r (least_candies r)"
proof -
  have "max (rise r i) (fall r i) < max (rise r (Suc i)) (fall r (Suc i))"
    if "Suc i < length r" "r ! i < r ! Suc i" for i
    using that rise_bounds [of r i] fall.simps [of r i] by auto
  moreover have "max (rise r (Suc i)) (fall r (Suc i)) < max (rise r i) (fall r i)"
    if "Suc i < length r" "r ! Suc i < r ! i" for i
    using that fall_bounds [of "Suc i" r] fall.simps [of r i] by auto
  ultimately show ?thesis
    using rise_bounds by (auto simp: fair_def least_candies_def le_max_iff_disj)
qed

lemma least_candies_least: "fair r c \<Longrightarrow> i < length r \<Longrightarrow> least_candies r ! i \<le> c ! i"
  by (simp add: least_candies_def rise_least fall_least)

lemma candy_L_eq:
  assumes "r \<noteq> []" "length dp = length r" "length r < 2 ^ 31"
  shows "returns (candy_L r dp) (\<lambda>dp. length dp = length r \<and> (\<forall>k < length r. dp ! k = rise r k))"
proof -
  have "returns (exec_fold (candy_L_body r) [1..int (length r) - 1] (dp[0 := 1]))
     (\<lambda>dp. length dp = length r \<and> (\<forall>k < nat (int (length r) - 1 + 1). dp ! k = rise r k))"
  proof (rule fill_upto, goal_cases)
    case (6 i dp)
    define k where "k = nat (i - 1)"
    have k: "i = int k + 1" "nat i = Suc k" using 6(1) by (auto simp: k_def)
    have "int_ok (rise r k + 1)" using rise_bounds [of r k] 6(2) assms(3) k by (simp add: int_ok_def)
    then show ?case using 6(2-4) by (auto simp: candy_L_body_def k nat_add_distrib)
  qed (use assms in \<open>auto simp: Suc_le_eq\<close>)
  then show ?thesis using assms by (simp add: candy_L_def)
qed

lemma candy_R_eq:
  assumes "r \<noteq> []" "length dp = length r" "length r < 2 ^ 31"
  shows "returns (candy_R r dp) (\<lambda>dp. length dp = length r \<and> (\<forall>k < length r. dp ! k = fall r k))"
proof -
  have "returns (exec_fold (candy_R_body r) (rev [0..int (length r) - 2]) (dp[length r - 1 := 1]))
     (\<lambda>dp. length dp = length r \<and> (\<forall>k. nat 0 \<le> k \<and> k < length r \<longrightarrow> dp ! k = fall r k))"
  proof (rule fill_downto, goal_cases)
    case (5 k)
    then have "k = length r - 1" by linarith
    then show ?case using assms fall.simps [of r k] by simp
  next
    case (6 i dp)
    define k where "k = nat i"
    have k: "i = int k" "Suc k < length r" using 6(1,2) by (auto simp: k_def)
    have "int_ok (fall r (Suc k) + 1)" using fall_bounds [of "Suc k" r] assms(3) k by (simp add: int_ok_def)
    then show ?case using 6(3,4) k by (auto simp: candy_R_body_def nat_add_distrib fall.simps [of r k])
  qed (use assms in auto)
  then show ?thesis using assms by (simp add: candy_R_def)
qed

lemma sum_list_take_nonneg:
  fixes xs :: "int list"
  assumes "\<And>x. x \<in> set xs \<Longrightarrow> 0 \<le> x \<and> x \<le> m"
  shows "0 \<le> sum_list (take k xs)" "sum_list (take k xs) \<le> int (length xs) * m"
proof -
  show "0 \<le> sum_list (take k xs)" using assms by (intro sum_list_nonneg) (auto dest: in_set_takeD)
  have "sum_list xs \<le> int (length xs) * m" using assms
    by (induction xs) (auto simp: algebra_simps intro: add_mono)
  moreover have "sum_list (take k xs) + sum_list (drop k xs) = sum_list xs"
    by (metis append_take_drop_id sum_list_append)
  moreover have "0 \<le> sum_list (drop k xs)" using assms by (intro sum_list_nonneg) (auto dest: in_set_dropD)
  ultimately show "sum_list (take k xs) \<le> int (length xs) * m" by linarith
qed

lemma least_candies_bound:
  assumes "x \<in> set (least_candies r)"
  shows "0 \<le> x \<and> x \<le> int (length r)"
proof -
  from assms obtain i where "i < length r" "x = max (rise r i) (fall r i)" by (auto simp: least_candies_def)
  with rise_bounds [of r i] fall_bounds [of i r] show ?thesis by auto
qed

lemma candy_sum:
  assumes "length r \<le> 46340" "length d0 = length r" "\<forall>k < length r. d0 ! k = rise r k"
    "length d1 = length r" "\<forall>k < length r. d1 ! k = fall r k"
  shows "returns (exec_fold (\<lambda>i sm. exec_bind (vec_at d0 i) (\<lambda>a. exec_bind (vec_at d1 i) (\<lambda>b. c_int (sm + max a b))))
        [0..int (length r) - 1] 0) (\<lambda>v. v = sum_list (least_candies r))"
proof -
  let ?c = "least_candies r"
  have len: "length ?c = length r" by (simp add: least_candies_def)
  have "int (length r) * int (length r) \<le> 46340 * 46340" using assms(1) by (intro mult_mono) auto
  then have ok: "int_ok (sum_list (take k ?c))" for k
    using sum_list_take_nonneg [of ?c "int (length r)" k] least_candies_bound [of _ r] len by (simp add: int_ok_def)
  have "returns (exec_fold (\<lambda>i sm. exec_bind (vec_at d0 i) (\<lambda>a. exec_bind (vec_at d1 i) (\<lambda>b. c_int (sm + max a b))))
        [0..int (length r) - 1] 0) (\<lambda>v. v = sum_list (take (nat (int (length r) - 1 + 1)) ?c))"
  proof (rule exec_fold_upto [where P = "\<lambda>i v. v = sum_list (take (nat i) ?c)"], goal_cases)
    case (3 i v)
    then have i: "nat i < length r" "nat (i + 1) = Suc (nat i)" by auto
    then have "sum_list (take (Suc (nat i)) ?c) = v + max (rise r (nat i)) (fall r (nat i))"
      using 3 len by (simp add: take_Suc_conv_app_nth least_candies_def)
    then show ?case using 3 i assms ok [of "Suc (nat i)"] by simp
  qed auto
  then show ?thesis using len by simp
qed

lemma sum_list_mono_nth:
  fixes xs ys :: "int list"
  assumes "length xs = length ys" "\<And>i. i < length xs \<Longrightarrow> xs ! i \<le> ys ! i"
  shows "sum_list xs \<le> sum_list ys"
  using assms by (intro sum_list_mono2) auto

text \<open>
  \<^verbatim>\<open>candy\<close> returns the total of a fair assignment in which every single child gets as little as in
  any fair assignment, so the total is the least possible. The bound on the number of children
  keeps the total below \<open>2 ^ 31\<close>.
\<close>

theorem candy_least:
  assumes "length r \<le> 46340" "length dp0 = length r" "length dp1 = length r"
  shows "\<exists>c. fair r c \<and> candy dp0 dp1 r = Ret (sum_list c)
    \<and> (\<forall>c'. fair r c' \<longrightarrow> (\<forall>i < length r. c ! i \<le> c' ! i) \<and> sum_list c \<le> sum_list c')"
proof (intro exI conjI allI impI)
  show "fair r (least_candies r)" by (rule least_candies_fair)
  have "returns (candy dp0 dp1 r) (\<lambda>v. v = sum_list (least_candies r))"
  proof (cases "r = []")
    case False
    then show ?thesis
      using candy_L_eq [OF False assms(2)] candy_R_eq [OF False assms(3)] assms(1) candy_sum [OF assms(1)]
      by (auto simp: candy_def elim!: returns_mono)
  qed (simp add: candy_def least_candies_def)
  then show "candy dp0 dp1 r = Ret (sum_list (least_candies r))" by (auto simp: returns_iff)
next
  fix c' assume "fair r c'"
  then show le: "least_candies r ! i \<le> c' ! i" if "i < length r" for i using that by (rule least_candies_least)
  show "sum_list (least_candies r) \<le> sum_list c'"
    using le \<open>fair r c'\<close> by (intro sum_list_mono_nth) (auto simp: fair_def least_candies_def)
qed

theorem candy_least_witness:
  "candy [0, 0, 0] [0, 0, 0] [1, 0, 2] = Ret 5 \<and> (\<exists>c. fair [1, 0, 2] c \<and> candy [0, 0, 0] [0, 0, 0] [1, 0, 2] = Ret (sum_list c))"
proof (intro conjI)
  show "candy [0, 0, 0] [0, 0, 0] [1, 0, 2] = Ret 5" by code_simp
  show "\<exists>c. fair [1, 0, 2] c \<and> candy [0, 0, 0] [0, 0, 0] [1, 0, 2] = Ret (sum_list c)"
    using candy_least [of "[1, 0, 2]" "[0, 0, 0]" "[0, 0, 0]"] by auto
qed

section \<open>Stock prices\<close>

subsection \<open>Programs\<close>

text \<open>
  \<^verbatim>\<open>best-time-to-buy-and-sell-stock.cc\<close> and \<^verbatim>\<open>-3.cc\<close>. The state of the loops is the array and the least,
  or greatest, price so far.
\<close>

definition stock_P0_body :: "int list \<Rightarrow> int \<Rightarrow> int list \<times> int \<Rightarrow> (int list \<times> int) exec" where
  "stock_P0_body prices i = (\<lambda>(dp, s).
     exec_bind (vec_at dp (i - 1)) (\<lambda>d.
     exec_bind (vec_at prices i) (\<lambda>p.
     exec_bind (c_int (p - s)) (\<lambda>g.
     exec_bind (vec_put dp i (max d g)) (\<lambda>dp. Ret (dp, min s p))))))"

definition stock_P0 :: "int list \<Rightarrow> int list \<Rightarrow> int list exec" where
  "stock_P0 prices dp =
     exec_bind (vec_put dp 0 0) (\<lambda>dp.
     exec_bind (vec_at prices 0) (\<lambda>s.
     exec_bind (exec_fold (stock_P0_body prices) [1..int (length prices) - 1] (dp, s)) (\<lambda>(dp, s). Ret dp)))"

definition stock_P1_body :: "int list \<Rightarrow> int \<Rightarrow> int list \<times> int \<Rightarrow> (int list \<times> int) exec" where
  "stock_P1_body prices i = (\<lambda>(dp, s).
     exec_bind (vec_at dp (i + 1)) (\<lambda>d.
     exec_bind (vec_at prices i) (\<lambda>p.
     exec_bind (c_int (s - p)) (\<lambda>g.
     exec_bind (vec_put dp i (max d g)) (\<lambda>dp. Ret (dp, max s p))))))"

definition stock_P1 :: "int list \<Rightarrow> int list \<Rightarrow> int list exec" where
  "stock_P1 prices dp =
     (let t = int (length prices) - 1 in
      exec_bind (vec_put dp t 0) (\<lambda>dp.
      exec_bind (vec_at prices t) (\<lambda>s.
      exec_bind (exec_fold (stock_P1_body prices) (rev [0..t - 1]) (dp, s)) (\<lambda>(dp, s). Ret dp))))"

definition maxProfit :: "int list \<Rightarrow> int list \<Rightarrow> int exec" where
  "maxProfit dp prices =
     (if length prices = 0 then Ret 0
      else exec_bind (stock_P0 prices dp) (\<lambda>dp. vec_at dp (int (length prices) - 1)))"

definition maxProfit3_body :: "int list \<Rightarrow> int list \<Rightarrow> int \<Rightarrow> int \<Rightarrow> int exec" where
  "maxProfit3_body dp0 dp1 i result =
     exec_bind (if i \<noteq> 0 then vec_at dp0 (i - 1) else Ret 0) (\<lambda>v1.
     exec_bind (vec_at dp1 i) (\<lambda>v2.
     exec_bind (c_int (v1 + v2)) (\<lambda>v. Ret (max v result))))"

definition maxProfit3 :: "int list \<Rightarrow> int list \<Rightarrow> int list \<Rightarrow> int exec" where
  "maxProfit3 dp0 dp1 prices =
     (if length prices = 0 then Ret 0
      else exec_bind (stock_P0 prices dp0) (\<lambda>dp0.
           exec_bind (stock_P1 prices dp1) (\<lambda>dp1.
           exec_fold (maxProfit3_body dp0 dp1) [0..int (length prices) - 1] 0)))"

text \<open>
  \<^verbatim>\<open>best-time-to-buy-and-sell-stock-2.cc\<close>: the inner loop climbs to the end of a rising run; what
  it finds is not added to \<^verbatim>\<open>result\<close>.
\<close>

function stock2_climb :: "int list \<Rightarrow> int \<Rightarrow> int exec" where
  "stock2_climb prices x =
     (if x < int (length prices) then
        exec_bind (vec_at prices x) (\<lambda>p.
        exec_bind (vec_at prices (x - 1)) (\<lambda>q.
        if p \<le> q then Ret x else stock2_climb prices (x + 1)))
      else Ret x)"
  by auto
termination by (relation "measure (\<lambda>(prices, x). nat (int (length prices) - x))") auto

declare stock2_climb.simps [simp del]

lemma stock2_climb_ge: "stock2_climb prices x = Ret y \<Longrightarrow> x \<le> y"
proof (induction prices x rule: stock2_climb.induct)
  case (1 prices x)
  then show ?case
    by (subst (asm) (2) stock2_climb.simps) (fastforce simp: exec_simps split: if_splits)
qed

text \<open>The first turn of the climb always goes on, as the condition of the outer loop is the same.\<close>

lemma stock2_climb_gt:
  "x < int (length prices) \<Longrightarrow> vec_at prices x = Ret p \<Longrightarrow> vec_at prices (x - 1) = Ret q \<Longrightarrow> \<not> p \<le> q \<Longrightarrow>
   stock2_climb prices x = Ret y \<Longrightarrow> x < y"
  using stock2_climb_ge [of prices "x + 1" y] by (auto simp: stock2_climb.simps [of prices x])

function stock2_loop :: "int list \<Rightarrow> int \<Rightarrow> int \<Rightarrow> int exec" where
  "stock2_loop prices x result =
     (if x < int (length prices) then
        if x = 0 then stock2_loop prices (x + 1) result
        else exec_bind (vec_at prices x) (\<lambda>p.
             exec_bind (vec_at prices (x - 1)) (\<lambda>q.
             if p \<le> q then stock2_loop prices (x + 1) result
             else exec_bind (vec_at prices (x - 1)) (\<lambda>s.
                  exec_bind (stock2_climb prices x) (\<lambda>x.
                  exec_bind (vec_at prices (x - 1)) (\<lambda>l.
                  stock2_loop prices (x - 1 + 1) result)))))
      else Ret result)"
  by auto
termination
  by (relation "measure (\<lambda>(prices, x, result). nat (int (length prices) - x))")
     (auto dest: stock2_climb_gt)

declare stock2_loop.simps [simp del]

definition maxProfit2 :: "int list \<Rightarrow> int exec" where
  "maxProfit2 prices = (if length prices = 0 then Ret 0 else stock2_loop prices 0 0)"

subsection \<open>Correctness\<close>

text \<open>The gains of one purchase and one sale between the days \<open>a\<close> and \<open>b\<close>.\<close>

definition gains :: "int list \<Rightarrow> nat \<Rightarrow> nat \<Rightarrow> int set" where
  "gains p a b = {p ! j - p ! i | i j. a \<le> i \<and> i \<le> j \<and> j \<le> b}"

fun low :: "int list \<Rightarrow> nat \<Rightarrow> int" where
  "low p 0 = p ! 0"
| "low p (Suc k) = min (low p k) (p ! Suc k)"

fun gain :: "int list \<Rightarrow> nat \<Rightarrow> int" where
  "gain p 0 = 0"
| "gain p (Suc k) = max (gain p k) (p ! Suc k - low p k)"

lemma low_le: "i \<le> k \<Longrightarrow> low p k \<le> p ! i"
  by (induction k) (auto simp: le_Suc_eq min_le_iff_disj)

lemma low_ex: "\<exists>i \<le> k. low p k = p ! i"
proof (induction k)
  case (Suc k)
  then show ?case by (auto simp: min_def intro: le_SucI)
qed simp

lemma gains_Suc: "a \<le> Suc k \<Longrightarrow> gains p a (Suc k) = gains p a k \<union> {p ! Suc k - p ! i | i. a \<le> i \<and> i \<le> Suc k}"
  by (fastforce simp: gains_def le_Suc_eq)

lemma best_gain: "best (gains p 0 k) (gain p k)"
proof (induction k)
  case (Suc k)
  have zero: "0 \<in> gains p 0 k" by (auto simp: gains_def intro!: exI [of _ 0])
  obtain i where i: "i \<le> k" "low p k = p ! i" using low_ex [of k p] by blast
  have "gain p (Suc k) \<in> gains p 0 (Suc k)"
    using Suc i unfolding gains_Suc [of 0 k p, simplified] by (auto simp: best_def max_def intro: le_SucI)
  moreover have "x \<le> gain p (Suc k)" if "x \<in> gains p 0 (Suc k)" for x
    using that Suc zero low_le [of _ k p] unfolding gains_Suc [of 0 k p, simplified]
    by (fastforce simp: best_def le_max_iff_disj le_Suc_eq)
  ultimately show ?case by (rule bestI)
qed (auto simp: best_def gains_def)

text \<open>Seen from the last day, with the signs changed, a sale is a purchase.\<close>

definition flip :: "int list \<Rightarrow> int list" where
  "flip p = map uminus (rev p)"

lemma flip_nth: "k < length p \<Longrightarrow> flip p ! k = - p ! (length p - 1 - k)"
  by (simp add: flip_def rev_nth)

lemma gainsI: "x = p ! j - p ! i \<Longrightarrow> a \<le> i \<Longrightarrow> i \<le> j \<Longrightarrow> j \<le> b \<Longrightarrow> x \<in> gains p a b"
  by (auto simp: gains_def)

lemma gains_flip:
  assumes "k < length p"
  shows "gains (flip p) 0 (length p - 1 - k) = gains p k (length p - 1)"
proof (intro set_eqI iffI)
  let ?n = "length p - 1"
  fix x assume "x \<in> gains (flip p) 0 (?n - k)"
  then obtain i j where "x = flip p ! j - flip p ! i" "i \<le> j" "j \<le> ?n - k" by (auto simp: gains_def)
  then show "x \<in> gains p k ?n"
    using assms by (intro gainsI [of x p "?n - i" "?n - j"]) (auto simp: flip_nth)
next
  let ?n = "length p - 1"
  fix x assume "x \<in> gains p k ?n"
  then obtain i j where "x = p ! j - p ! i" "k \<le> i" "i \<le> j" "j \<le> ?n" by (auto simp: gains_def)
  then show "x \<in> gains (flip p) 0 (?n - k)"
    using assms by (intro gainsI [of x "flip p" "?n - i" "?n - j"]) (auto simp: flip_nth)
qed

definition prices_ok :: "int \<Rightarrow> int list \<Rightarrow> bool" where
  "prices_ok m p \<longleftrightarrow> (\<forall>x \<in> set p. 0 \<le> x \<and> x < m)"

lemma prices_okD: "prices_ok m p \<Longrightarrow> k < length p \<Longrightarrow> 0 \<le> p ! k \<and> p ! k < m"
  by (simp add: prices_ok_def)

lemma low_bounds: "prices_ok m p \<Longrightarrow> k < length p \<Longrightarrow> 0 \<le> low p k \<and> low p k < m"
  using low_ex [of k p] prices_okD [of m p] by fastforce

lemma gains_bounds: "prices_ok m p \<Longrightarrow> b < length p \<Longrightarrow> x \<in> gains p a b \<Longrightarrow> - m < x \<and> x < m"
proof -
  assume *: "prices_ok m p" "b < length p" "x \<in> gains p a b"
  then obtain i j where ij: "x = p ! j - p ! i" "i < length p" "j < length p" by (auto simp: gains_def)
  show ?thesis using prices_okD [OF *(1) ij(2)] prices_okD [OF *(1) ij(3)] ij(1) by linarith
qed

lemma stock_P0_eq:
  assumes "p \<noteq> []" "length dp = length p" "prices_ok (2 ^ 31) p"
  shows "returns (stock_P0 p dp) (\<lambda>dp. length dp = length p \<and> (\<forall>k < length p. dp ! k = gain p k))"
proof -
  let ?P = "\<lambda>i (dp, s). length dp = length p \<and> (\<forall>k < nat i. dp ! k = gain p k) \<and> s = low p (nat i - 1)"
  have "returns (exec_fold (stock_P0_body p) [1..int (length p) - 1] (dp[0 := 0], p ! 0))
      (?P (int (length p) - 1 + 1))"
  proof (rule exec_fold_upto [where P = ?P], goal_cases)
    case (3 i st)
    obtain d where st: "st = (d, low p (nat i - 1))" using 3(3) by (cases st) auto
    define k where "k = nat (i - 1)"
    have k: "i = int k + 1" "nat i = Suc k" "Suc k < length p" using 3(1,2) by (auto simp: k_def)
    have "int_ok (p ! Suc k - low p k)"
      using prices_okD [OF assms(3) k(3)] low_bounds [OF assms(3), of k] k(3) by (simp add: int_ok_def)
    then show ?case using 3(3) st k
      by (auto simp: stock_P0_body_def nat_add_distrib nth_list_update less_Suc_eq)
  qed (use assms in \<open>auto simp: Suc_le_eq\<close>)
  then show ?thesis using assms by (auto simp: stock_P0_def elim!: returns_mono)
qed

lemma stock_P1_eq:
  assumes "p \<noteq> []" "length dp = length p" "prices_ok (2 ^ 31) p"
  shows "returns (stock_P1 p dp)
    (\<lambda>dp. length dp = length p \<and> (\<forall>k < length p. dp ! k = gain (flip p) (length p - 1 - k)))"
proof -
  let ?n = "length p - 1"
  let ?P = "\<lambda>i (dp, s). length dp = length p \<and> (\<forall>k. nat (i + 1) \<le> k \<and> k < length p \<longrightarrow> dp ! k = gain (flip p) (?n - k))
     \<and> s = - low (flip p) (?n - nat (i + 1))"
  have len: "0 < length p" using assms(1) by simp
  have "returns (exec_fold (stock_P1_body p) (rev [0..int (length p) - 1 - 1]) (dp[?n := 0], p ! ?n))
      (?P (0 - 1))"
  proof (rule exec_fold_downto [where P = ?P], goal_cases)
    case 1
    have "k = ?n" if "?n \<le> k" "k < length p" for k using that by simp
    then show ?case using assms len by (auto simp: flip_nth nth_list_update)
  next
    case (3 i st)
    obtain d where st: "st = (d, - low (flip p) (?n - nat (i + 1)))" using 3(3) by (cases st) auto
    define k where "k = nat i"
    have k: "i = int k" "Suc k < length p" using 3(1,2) by (auto simp: k_def)
    have m: "?n - k = Suc (?n - Suc k)" "flip p ! (?n - k) = - p ! k" using k by (auto simp: flip_nth)
    obtain j where j: "j \<le> ?n - Suc k" "low (flip p) (?n - Suc k) = - p ! (?n - j)"
      using low_ex [of "?n - Suc k" "flip p"] k len by (auto simp: flip_nth)
    have "int_ok (- low (flip p) (?n - Suc k) - p ! k)"
      using prices_okD [OF assms(3), of k] prices_okD [OF assms(3), of "?n - j"] k j len
      by (auto simp: int_ok_def)
    then show ?case using 3(3) st k m
      by (auto simp: stock_P1_body_def nat_add_distrib nth_list_update Suc_le_eq)
  qed (use assms in auto)
  then show ?thesis using assms len by (auto simp: stock_P1_def Let_def elim!: returns_mono)
qed

text \<open>The gains of at most two trades, the second after the first.\<close>

definition two_trades :: "int list \<Rightarrow> int set" where
  "two_trades p = gains p 0 (length p - 1) \<union>
     {x + y | x y m. m + 1 < length p \<and> x \<in> gains p 0 m \<and> y \<in> gains p (m + 1) (length p - 1)}"

text \<open>The best gain before day \<open>i\<close> and from day \<open>i\<close> on.\<close>

definition split_gain :: "int list \<Rightarrow> nat \<Rightarrow> int" where
  "split_gain p i = (if i = 0 then 0 else gain p (i - 1)) + gain (flip p) (length p - 1 - i)"

lemma gain_flip: "k < length p \<Longrightarrow> best (gains p k (length p - 1)) (gain (flip p) (length p - 1 - k))"
  using best_gain [of "flip p" "length p - 1 - k"] by (simp only: gains_flip)

lemma gain_nonneg: "0 \<le> gain p k"
  by (induction k) (auto simp: le_max_iff_disj)

lemma split_gain_in: "i < length p \<Longrightarrow> split_gain p i \<in> two_trades p"
proof (cases i)
  case 0
  then show "i < length p \<Longrightarrow> ?thesis"
    using gain_flip [of 0 p] by (auto simp: split_gain_def two_trades_def best_def)
next
  case (Suc m)
  then show "i < length p \<Longrightarrow> ?thesis"
    using gain_flip [of i p] best_gain [of p m] unfolding split_gain_def two_trades_def best_def by fastforce
qed

lemma split_gain_ge: "x \<in> two_trades p \<Longrightarrow> p \<noteq> [] \<Longrightarrow> \<exists>i < length p. x \<le> split_gain p i"
proof -
  assume x: "x \<in> two_trades p" and p: "p \<noteq> []"
  then consider "x \<in> gains p 0 (length p - 1)"
    | u v m where "x = u + v" "m + 1 < length p" "u \<in> gains p 0 m" "v \<in> gains p (m + 1) (length p - 1)"
    by (auto simp: two_trades_def)
  then show ?thesis
  proof cases
    case 1
    then have "x \<le> split_gain p 0" using gain_flip [of 0 p] p by (auto simp: split_gain_def best_def)
    then show ?thesis using p by blast
  next
    case 2
    have "u \<le> gain p m" "v \<le> gain (flip p) (length p - 1 - (m + 1))"
      using 2 best_gain [of p m] gain_flip [of "m + 1" p] by (auto simp: best_def)
    then have "x \<le> split_gain p (m + 1)" using 2(1) by (simp add: split_gain_def)
    then show ?thesis using 2(2) by blast
  qed
qed

lemma maxProfit3_loop:
  assumes "p \<noteq> []" "prices_ok (2 ^ 30) p" "length d0 = length p" "\<forall>k < length p. d0 ! k = gain p k"
    "length d1 = length p" "\<forall>k < length p. d1 ! k = gain (flip p) (length p - 1 - k)"
  shows "returns (exec_fold (maxProfit3_body d0 d1) [0..int (length p) - 1] 0)
    (best (two_trades p))"
proof -
  let ?P = "\<lambda>i v. v \<in> insert 0 (two_trades p) \<and> 0 \<le> v \<and> (\<forall>k < nat i. split_gain p k \<le> v)"
  have bound: "gain p k < 2 ^ 30" "gain (flip p) (length p - 1 - k) < 2 ^ 30" if "k < length p" for k
    using that gains_bounds [OF assms(2) that, of "gain p k" 0] best_gain [of p k]
      gains_bounds [OF assms(2), of "length p - 1" "gain (flip p) (length p - 1 - k)" k] gain_flip [OF that] assms(1)
    by (auto simp: best_def)
  have zero: "0 \<in> two_trades p" using assms(1) by (auto simp: two_trades_def gains_def intro!: exI [of _ 0])
  have "returns (exec_fold (maxProfit3_body d0 d1) [0..int (length p) - 1] 0)
    (?P (int (length p) - 1 + 1))"
  proof (rule exec_fold_upto [where P = ?P], goal_cases)
    case (3 i v)
    define k where "k = nat i"
    have k: "i = int k" "k < length p" using 3(1,2) by (auto simp: k_def)
    have "k - 1 < length p" using k(2) by simp
    then have "int_ok (split_gain p k)"
      using bound(1) [of "k - 1"] bound(2) [OF k(2)] gain_nonneg [of p "k - 1"] gain_nonneg [of "flip p" "length p - 1 - k"]
      by (auto simp: split_gain_def int_ok_def)
    moreover have "(if i \<noteq> 0 then vec_at d0 (i - 1) else Ret 0) = Ret (if k = 0 then 0 else gain p (k - 1))"
      using assms(3,4) k by auto
    ultimately have body: "maxProfit3_body d0 d1 i v = Ret (max (split_gain p k) v)"
      using assms(5,6) k by (cases "k = 0") (simp_all add: maxProfit3_body_def split_gain_def)
    have "nat (i + 1) = Suc k" using k(1) by simp
    then show ?case
      using 3(3) split_gain_in [OF k(2)] k(1) unfolding body
      by (cases "split_gain p k \<le> v") (auto simp: less_Suc_eq max_def not_le intro: order_trans less_imp_le)
  qed auto
  then show ?thesis using zero split_gain_ge [of _ p] assms(1)
    by (fastforce simp: best_def elim!: returns_mono)
qed

lemma finite_gains: "finite (gains p a b)"
proof -
  have "gains p a b \<subseteq> (\<lambda>(i, j). p ! j - p ! i) ` ({..b} \<times> {..b})" by (force simp: gains_def)
  then show ?thesis by (rule finite_subset) auto
qed

lemma finite_two_trades: "finite (two_trades p)"
proof -
  have "two_trades p \<subseteq> gains p 0 (length p - 1) \<union>
      (\<Union>m < length p. (\<lambda>(x, y). x + y) ` (gains p 0 m \<times> gains p (m + 1) (length p - 1)))"
    by (force simp: two_trades_def)
  then show ?thesis by (rule finite_subset) (auto simp: finite_gains)
qed

lemma stock2_climb_returns:
  "1 \<le> x \<Longrightarrow> x \<le> int (length p) \<Longrightarrow> returns (stock2_climb p x) (\<lambda>y. x \<le> y \<and> y \<le> int (length p))"
proof (induction p x rule: stock2_climb.induct)
  case (1 p x)
  show ?case
  proof (cases "x < int (length p) \<and> \<not> p ! nat x \<le> p ! nat (x - 1)")
    case True
    then have "returns (stock2_climb p (x + 1)) (\<lambda>y. x + 1 \<le> y \<and> y \<le> int (length p))"
      using "1.prems" by (intro "1.IH") auto
    then show ?thesis using True "1.prems" by (subst stock2_climb.simps) (auto elim: returns_mono)
  next
    case False
    then show ?thesis using "1.prems" by (subst stock2_climb.simps) auto
  qed
qed

lemma stock2_loop_eq: "0 \<le> x \<Longrightarrow> stock2_loop p x result = Ret result"
proof (induction p x result rule: stock2_loop.induct)
  case (1 p x result)
  consider "\<not> x < int (length p)" | "x < int (length p)" "x = 0" | "x < int (length p)" "0 < x" using "1.prems" by linarith
  then show ?case
  proof cases
    case 3
    then obtain y where y: "stock2_climb p x = Ret y" "x \<le> y" "y \<le> int (length p)"
      using stock2_climb_returns [of x p] by (auto simp: returns_iff)
    show ?thesis using 3 y "1.IH" by (subst stock2_loop.simps) auto
  next
    case 2
    then show ?thesis using "1.IH" by (subst stock2_loop.simps) simp
  qed (simp add: stock2_loop.simps)
qed

text \<open>
  The programs on stock prices: with one trade, and with at most two trades of which the second
  starts after the first ends, they return the greatest gain. The program for any number of
  trades returns \<open>0\<close> on every input. Sums of two gains may overflow for prices of \<open>2 ^ 30\<close> or more.
\<close>

theorem stock_profits:
  assumes "p \<noteq> []" "prices_ok (2 ^ 30) p" "length dp0 = length p" "length dp1 = length p"
  shows "maxProfit dp0 p = Ret (Max (gains p 0 (length p - 1)))
    \<and> maxProfit3 dp0 dp1 p = Ret (Max (two_trades p))
    \<and> maxProfit2 p = Ret 0"
proof (intro conjI)
  have ok: "prices_ok (2 ^ 31) p" using assms(2) by (auto simp: prices_ok_def)
  note P0 = stock_P0_eq [OF assms(1,3) ok] and P1 = stock_P1_eq [OF assms(1,4) ok]
  show "maxProfit dp0 p = Ret (Max (gains p 0 (length p - 1)))"
    using P0 best_Max [OF best_gain finite_gains, of p "length p - 1"] assms(1)
    by (auto simp: maxProfit_def returns_iff)
  have "returns (maxProfit3 dp0 dp1 p) (best (two_trades p))"
    using P0 P1 maxProfit3_loop [OF assms(1,2)] assms(1)
    by (auto simp: maxProfit3_def elim!: returns_mono)
  then show "maxProfit3 dp0 dp1 p = Ret (Max (two_trades p))"
    by (auto simp: returns_iff best_Max finite_two_trades)
  show "maxProfit2 p = Ret 0" by (simp add: maxProfit2_def stock2_loop_eq)
qed

theorem stock_profits_witness:
  "maxProfit [0, 0, 0, 0] [1, 5, 2, 6] = Ret 5 \<and> maxProfit3 [0, 0, 0, 0] [0, 0, 0, 0] [1, 5, 2, 6] = Ret 8 \<and>
   maxProfit2 [1, 5, 2, 6] = Ret 0 \<and> Max (two_trades [1, 5, 2, 6]) = 8"
proof -
  have e: "maxProfit [0, 0, 0, 0] [1, 5, 2, 6] = Ret 5"
    "maxProfit3 [0, 0, 0, 0] [0, 0, 0, 0] [1, 5, 2, 6] = Ret 8" by code_simp+
  show ?thesis
    using stock_profits [of "[1, 5, 2, 6]" "[0, 0, 0, 0]" "[0, 0, 0, 0]"] e by (simp add: prices_ok_def)
qed

end
