(* ===== verification/Array_Scans.thy ===== *)
theory Array_Scans
  imports Sperm_Prelude
begin

text \<open>
  Programs of \<^verbatim>\<open>code/leetcode\<close> that scan an array for an optimum: \<^verbatim>\<open>container-with-most-water.cc\<close> and
  \<^verbatim>\<open>gas-station.cc\<close>. Each is compared with the declarative statement of its problem.
\<close>

section \<open>Container with most water\<close>

text \<open>The inner loop runs \<^verbatim>\<open>j\<close> downwards and leaves at the first wall that is as high as wall \<^verbatim>\<open>i\<close>.\<close>

function maxArea_inner :: "int list \<Rightarrow> int \<Rightarrow> int \<Rightarrow> int \<Rightarrow> int exec" where
  "maxArea_inner height i j res =
     (if j > i then
        exec_bind (vec_at height i) (\<lambda>hi.
        exec_bind (vec_at height j) (\<lambda>hj.
        exec_bind (c_int ((j - i) * min hi hj)) (\<lambda>a.
        let res = max res a in
        if hj \<ge> hi then Ret res else maxArea_inner height i (j - 1) res)))
      else Ret res)"
  by auto
termination by (relation "measure (\<lambda>(height, i, j, res). nat (j - i))") auto

declare maxArea_inner.simps [simp del]

definition maxArea_body :: "int list \<Rightarrow> int \<Rightarrow> int \<times> int \<Rightarrow> (int \<times> int) exec" where
  "maxArea_body height i = (\<lambda>(res, lm).
     exec_bind (vec_at height i) (\<lambda>hi.
     if hi \<le> lm then Ret (res, lm)
     else exec_bind (maxArea_inner height i (int (length height) - 1) res) (\<lambda>res. Ret (res, hi))))"

definition maxArea :: "int list \<Rightarrow> int exec" where
  "maxArea height =
     (if length height = 0 then Ret 0
      else exec_bind (exec_fold (maxArea_body height) [0..int (length height) - 1] (0, 0)) (\<lambda>(res, lm). Ret res))"

definition area :: "int list \<Rightarrow> nat \<Rightarrow> nat \<Rightarrow> int" where
  "area h i j = int (j - i) * min (h ! i) (h ! j)"

definition areas :: "int list \<Rightarrow> int set" where
  "areas h = {area h i j | i j. i < j \<and> j < length h}"

definition walls_ok :: "int list \<Rightarrow> bool" where
  "walls_ok h \<longleftrightarrow> (\<forall>x \<in> set h. 0 \<le> x) \<and> (\<forall>a \<in> areas h. a < 2 ^ 31)"

lemma area_nonneg: "walls_ok h \<Longrightarrow> i < j \<Longrightarrow> j < length h \<Longrightarrow> 0 \<le> area h i j"
  by (auto simp: walls_ok_def area_def)

lemma area_ok: "walls_ok h \<Longrightarrow> i < j \<Longrightarrow> j < length h \<Longrightarrow> int_ok (area h i j)"
  using area_nonneg [of h i j] by (force simp: walls_ok_def areas_def int_ok_def)

text \<open>Walls that the pruning and the early exit skip are never better.\<close>

lemma area_skip_left:
  assumes "walls_ok h" "i' \<le> i" "i < j" "j < length h" "h ! i \<le> h ! i'"
  shows "area h i j \<le> area h i' j"
proof -
  have "0 \<le> min (h ! i) (h ! j)" "min (h ! i) (h ! j) \<le> min (h ! i') (h ! j)"
    using assms by (auto simp: walls_ok_def)
  then show ?thesis unfolding area_def using assms by (intro mult_mono) auto
qed

lemma area_skip_right:
  assumes "walls_ok h" "i < j'" "j' \<le> j" "j < length h" "h ! i \<le> h ! j"
  shows "area h i j' \<le> area h i j"
proof -
  have "0 \<le> min (h ! i) (h ! j')" "min (h ! i) (h ! j') \<le> min (h ! i) (h ! j)"
    using assms by (auto simp: walls_ok_def)
  then show ?thesis unfolding area_def using assms by (intro mult_mono) auto
qed

lemma maxArea_inner_returns:
  assumes "walls_ok h" "i \<le> j" "j < length h"
  shows "returns (maxArea_inner h (int i) (int j) res)
    (\<lambda>res'. (res' = res \<or> res' \<in> areas h) \<and> res \<le> res' \<and> (\<forall>k. i < k \<and> k \<le> j \<longrightarrow> area h i k \<le> res'))"
  using assms(2,3)
proof (induction "j - i" arbitrary: j res)
  case 0
  then show ?case by (subst maxArea_inner.simps) auto
next
  case (Suc n)
  then have ij: "i < j" "j < length h" by auto
  have a: "(int j - int i) * min (h ! i) (h ! j) = area h i j" using ij by (simp add: area_def)
  have ok: "int_ok (area h i j)" "area h i j \<in> areas h" using area_ok [OF assms(1) ij] ij by (auto simp: areas_def)
  show ?case
  proof (cases "h ! i \<le> h ! j")
    case True
    then have "area h i k \<le> area h i j" if "i < k" "k \<le> j" for k
      using area_skip_right [OF assms(1) that(1,2) ij(2)] by simp
    then show ?thesis using True ij ok a
      by (subst maxArea_inner.simps) (auto simp: Let_def max_def not_le intro: order_trans less_imp_le)
  next
    case False
    have ih: "returns (maxArea_inner h (int i) (int (j - 1)) (max res (area h i j)))
      (\<lambda>res'. (res' = max res (area h i j) \<or> res' \<in> areas h) \<and> max res (area h i j) \<le> res' \<and>
         (\<forall>k. i < k \<and> k \<le> j - 1 \<longrightarrow> area h i k \<le> res'))"
      using Suc.hyps(2) ij by (intro Suc.hyps(1)) auto
    have post: "(r = res \<or> r \<in> areas h) \<and> res \<le> r \<and> (\<forall>k. i < k \<and> k \<le> j \<longrightarrow> area h i k \<le> r)"
      if "r = max res (area h i j) \<or> r \<in> areas h" "max res (area h i j) \<le> r"
        "\<forall>k. i < k \<and> k \<le> j - 1 \<longrightarrow> area h i k \<le> r" for r
    proof (intro conjI allI impI)
      show "r = res \<or> r \<in> areas h" using that(1) ok(2) by (auto simp: max_def)
      show "res \<le> r" using that(2) by simp
      fix k assume "i < k \<and> k \<le> j"
      then show "area h i k \<le> r" using that(2,3) by (cases "k = j") auto
    qed
    have "maxArea_inner h (int i) (int j) res = maxArea_inner h (int i) (int (j - 1)) (max res (area h i j))"
      using False ij ok a by (subst maxArea_inner.simps) (simp add: Let_def of_nat_diff)
    then show ?thesis by (simp only:) (rule returns_mono [OF ih], use post in blast)
  qed
qed

definition scan_inv :: "int list \<Rightarrow> int \<Rightarrow> int \<times> int \<Rightarrow> bool" where
  "scan_inv h i = (\<lambda>(res, lm). res \<in> insert 0 (areas h) \<and> 0 \<le> res
     \<and> (\<forall>a < nat i. \<forall>b. a < b \<and> b < length h \<longrightarrow> area h a b \<le> res)
     \<and> 0 \<le> lm \<and> (0 < lm \<longrightarrow> (\<exists>a < nat i. lm = h ! a)))"

lemma maxArea_body_returns:
  assumes "walls_ok h" "scan_inv h (int i) st" "i < length h"
  shows "returns (maxArea_body h (int i) st) (scan_inv h (int i + 1))"
proof -
  obtain res lm where st: "st = (res, lm)" by (cases st)
  have i: "nat (int i + 1) = Suc i" by simp
  show ?thesis
  proof (cases "h ! i \<le> lm")
    case True
    have "area h i b \<le> res" if "i < b" "b < length h" for b
    proof (cases "0 < lm")
      case True
      then obtain a where "a < i" "lm = h ! a" using assms(2) st by (auto simp: scan_inv_def)
      then have "area h i b \<le> area h a b" using area_skip_left [OF assms(1) _ that, of a] \<open>h ! i \<le> lm\<close> by simp
      also have "\<dots> \<le> res" using assms(2) st that \<open>a < i\<close> by (auto simp: scan_inv_def)
      finally show ?thesis .
    next
      case False
      then have "h ! i = 0" using assms \<open>h ! i \<le> lm\<close> st by (auto simp: walls_ok_def intro!: antisym)
      then have "area h i b \<le> 0" by (auto simp: area_def intro: mult_nonneg_nonpos)
      then show ?thesis using assms(2) st by (auto simp: scan_inv_def)
    qed
    then show ?thesis using True assms(2,3) st i
      by (auto simp: maxArea_body_def scan_inv_def less_Suc_eq)
  next
    case False
    have "returns (maxArea_inner h (int i) (int (length h - 1)) res)
      (\<lambda>res'. (res' = res \<or> res' \<in> areas h) \<and> res \<le> res' \<and> (\<forall>k. i < k \<and> k \<le> length h - 1 \<longrightarrow> area h i k \<le> res'))"
      using assms by (intro maxArea_inner_returns) auto
    moreover have "int (length h - 1) = int (length h) - 1" using assms(3) by simp
    moreover have "scan_inv h (int i + 1) (r, h ! i)"
      if r: "r = res \<or> r \<in> areas h" "res \<le> r" "\<forall>k. i < k \<and> k \<le> length h - 1 \<longrightarrow> area h i k \<le> r" for r
    proof -
      have "area h a b \<le> r" if "a < Suc i" "a < b" "b < length h" for a b
      proof (cases "a = i")
        case False
        then have "area h a b \<le> res" using assms(2) st that by (auto simp: scan_inv_def)
        with r(2) show ?thesis by simp
      qed (use that r(3) in auto)
      with assms(2) st r(1,2) False i show ?thesis by (auto simp: scan_inv_def)
    qed
    ultimately show ?thesis using False assms(3) st by (auto simp: maxArea_body_def elim!: returns_mono)
  qed
qed

lemma finite_areas: "finite (areas h)"
proof -
  have "areas h \<subseteq> (\<lambda>(i, j). area h i j) ` ({..<length h} \<times> {..<length h})" by (force simp: areas_def)
  then show ?thesis by (rule finite_subset) auto
qed

text \<open>
  \<^verbatim>\<open>maxArea\<close> is the greatest area between two walls, although it skips walls that are not higher
  than an earlier one and leaves the inner loop early.
\<close>

theorem maxArea_correct:
  assumes "walls_ok h"
  shows "maxArea h = Ret (Max (insert 0 (areas h)))"
proof -
  have "returns (maxArea h) (best (insert 0 (areas h)))"
  proof (cases "h = []")
    case False
    have "returns (exec_fold (maxArea_body h) [0..int (length h) - 1] (0, 0)) (scan_inv h (int (length h) - 1 + 1))"
    proof (rule exec_fold_upto [where P = "scan_inv h"], goal_cases)
      case (3 i st)
      then show ?case using maxArea_body_returns [OF assms, of "nat i" st] by simp
    qed (auto simp: scan_inv_def)
    moreover have "best (insert 0 (areas h)) res" if "scan_inv h (int (length h) - 1 + 1) (res, lm)" for res lm
      using that by (auto simp: scan_inv_def best_def areas_def)
    ultimately show ?thesis using False by (auto simp: maxArea_def elim!: returns_mono)
  qed (simp add: maxArea_def best_def areas_def)
  then show ?thesis by (auto simp: returns_iff best_Max finite_areas)
qed

theorem maxArea_correct_witness:
  "maxArea [1, 8, 6, 2, 5] = Ret 15 \<and> Max (insert 0 (areas [1, 8, 6, 2, 5])) = 15"
proof -
  have e: "maxArea [1, 8, 6, 2, 5] = Ret 15" by code_simp
  have "area [1, 8, 6, 2, 5] i j < 2 ^ 31" if "i < j" "j < 5" for i j
  proof -
    have "i \<in> {0, 1, 2, 3}" "j \<in> {1, 2, 3, 4}" using that by auto
    then show ?thesis by (auto simp: area_def)
  qed
  then have "walls_ok [1, 8, 6, 2, 5]" by (auto simp: walls_ok_def areas_def)
  from maxArea_correct [OF this] e show ?thesis by simp
qed

section \<open>Gas station\<close>

text \<open>The sums \<^verbatim>\<open>g\<close> and \<^verbatim>\<open>c\<close> are kept separately; the second loop runs until \<^verbatim>\<open>id\<close> is back at \<open>0\<close>.\<close>

definition gas_total :: "int list \<Rightarrow> int list \<Rightarrow> (int \<times> int) exec" where
  "gas_total gas cost =
     exec_fold (\<lambda>i (g, c).
       exec_bind (vec_at gas i) (\<lambda>x. exec_bind (c_int (g + x)) (\<lambda>g.
       exec_bind (vec_at cost i) (\<lambda>y. exec_bind (c_int (c + y)) (\<lambda>c. Ret (g, c))))))
       [0..int (length gas) - 1] (0, 0)"

function gas_loop :: "int list \<Rightarrow> int list \<Rightarrow> int \<Rightarrow> int \<Rightarrow> int \<Rightarrow> int \<Rightarrow> int exec" where
  "gas_loop gas cost idx sv g c =
     exec_bind (vec_at gas idx) (\<lambda>x. exec_bind (c_int (g + x)) (\<lambda>g.
     exec_bind (vec_at cost idx) (\<lambda>y. exec_bind (c_int (c + y)) (\<lambda>c.
     let idx = (idx + 1) mod int (length gas);
         (g, c, sv) = (if g < c then (0, 0, idx) else (g, c, sv))
     in if idx = 0 then Ret sv else gas_loop gas cost idx sv g c))))"
  by auto
termination
proof (relation "measure (\<lambda>(gas, cost, idx, sv, g, c). nat (int (length gas) - idx))", goal_cases)
  case (2 gas cost idx sv g c x g' y c' idx' p1 g'' p2 c'' sv')
  then have "0 \<le> idx" "idx < int (length gas)" by (auto simp: vec_at_def split: if_splits)
  moreover have "idx + 1 \<noteq> int (length gas)" using 2 by auto
  ultimately show ?case using 2 by auto
qed simp

declare gas_loop.simps [simp del]

definition canCompleteCircuit :: "int list \<Rightarrow> int list \<Rightarrow> int exec" where
  "canCompleteCircuit gas cost =
     exec_bind (gas_total gas cost) (\<lambda>(g, c). if g < c then Ret (- 1) else gas_loop gas cost 0 0 0 0)"

text \<open>What is left in the tank after the first \<open>k\<close> stations, counted from station \<open>0\<close>.\<close>

definition tank :: "int list \<Rightarrow> int list \<Rightarrow> nat \<Rightarrow> int" where
  "tank gas cost k = sum_list (take k gas) - sum_list (take k cost)"

text \<open>The tank on the way from station \<open>s\<close>, after \<open>k\<close> stations, never is below zero.\<close>

definition round_trip :: "int list \<Rightarrow> int list \<Rightarrow> nat \<Rightarrow> bool" where
  "round_trip gas cost s \<longleftrightarrow>
     (\<forall>k \<le> length gas. 0 \<le> (\<Sum>t < k. gas ! ((s + t) mod length gas) - cost ! ((s + t) mod length gas)))"

definition fuel_ok :: "int list \<Rightarrow> bool" where
  "fuel_ok xs \<longleftrightarrow> (\<forall>x \<in> set xs. 0 \<le> x) \<and> sum_list xs < 2 ^ 31"

lemma sum_take_split: "i \<le> j \<Longrightarrow> sum_list (take j xs) - sum_list (take i xs) = sum_list (take (j - i) (drop i xs))"
  for xs :: "int list"
  by (metis add_diff_cancel_left' le_add_diff_inverse sum_list_append take_add)

lemma fuel_part:
  assumes "fuel_ok xs" "i \<le> j"
  shows "0 \<le> sum_list (take j xs) - sum_list (take i xs)"
    "sum_list (take j xs) - sum_list (take i xs) < 2 ^ 31"
proof -
  have nn: "0 \<le> sum_list ys" if "set ys \<subseteq> set xs" for ys
    using that assms(1) by (intro sum_list_nonneg) (auto simp: fuel_ok_def)
  have s: "sum_list (take j xs) - sum_list (take i xs) = sum_list (take (j - i) (drop i xs))"
    using assms(2) by (rule sum_take_split)
  show "0 \<le> sum_list (take j xs) - sum_list (take i xs)"
    unfolding s by (rule nn) (auto dest: in_set_takeD in_set_dropD)
  have "sum_list xs = sum_list (take j xs) + sum_list (drop j xs)" by (metis append_take_drop_id sum_list_append)
  then show "sum_list (take j xs) - sum_list (take i xs) < 2 ^ 31"
    using assms(1) nn [of "take i xs"] nn [of "drop j xs"]
    by (auto simp: fuel_ok_def set_take_subset set_drop_subset)
qed

lemma fuel_part_ok: "fuel_ok xs \<Longrightarrow> i \<le> j \<Longrightarrow> int_ok (sum_list (take j xs) - sum_list (take i xs))"
  using fuel_part [of xs i j] by (simp add: int_ok_def)

lemma gas_total_returns:
  assumes "length cost = length gas" "fuel_ok gas" "fuel_ok cost"
  shows "gas_total gas cost = Ret (sum_list gas, sum_list cost)"
proof -
  let ?P = "\<lambda>i st. st = (sum_list (take (nat i) gas), sum_list (take (nat i) cost))"
  have "returns (gas_total gas cost) (?P (int (length gas) - 1 + 1))"
    unfolding gas_total_def
  proof (rule exec_fold_upto [where P = ?P], goal_cases)
    case (3 i st)
    then have i: "nat i < length gas" "nat (i + 1) = Suc (nat i)" by auto
    then show ?case
      using 3 assms fuel_part_ok [OF assms(2), of 0 "Suc (nat i)"] fuel_part_ok [OF assms(3), of 0 "Suc (nat i)"]
      by (simp add: take_Suc_conv_app_nth)
  qed auto
  then show ?thesis using assms(1) by (auto simp: returns_iff)
qed

lemma tank_Suc: "k < length gas \<Longrightarrow> length cost = length gas \<Longrightarrow>
    tank gas cost (Suc k) = tank gas cost k + gas ! k - cost ! k"
  by (simp add: tank_def take_Suc_conv_app_nth)

text \<open>
  The invariant of the loop: the tank was lowest at \<^verbatim>\<open>sv\<close>, and \<^verbatim>\<open>g\<close> and \<^verbatim>\<open>c\<close> are the sums since then.
\<close>

definition gas_inv :: "int list \<Rightarrow> int list \<Rightarrow> nat \<Rightarrow> nat \<Rightarrow> int \<Rightarrow> int \<Rightarrow> bool" where
  "gas_inv gas cost k sv g c \<longleftrightarrow> sv \<le> k \<and> k \<le> length gas
     \<and> g = sum_list (take k gas) - sum_list (take sv gas)
     \<and> c = sum_list (take k cost) - sum_list (take sv cost)
     \<and> (\<forall>j \<le> k. tank gas cost sv \<le> tank gas cost j)"

lemma gas_inv_step:
  assumes "gas_inv gas cost k sv g c" "k < length gas" "length cost = length gas"
  shows "if g + gas ! k < c + cost ! k then gas_inv gas cost (Suc k) (Suc k) 0 0
    else gas_inv gas cost (Suc k) sv (g + gas ! k) (c + cost ! k)"
proof -
  have t: "tank gas cost (Suc k) - tank gas cost sv = g + gas ! k - (c + cost ! k)"
    using assms tank_Suc [OF assms(2,3)] by (simp add: gas_inv_def tank_def)
  have "tank gas cost (Suc k) \<le> tank gas cost j" if "g + gas ! k < c + cost ! k" "j \<le> Suc k" for j
  proof (cases "j = Suc k")
    case False
    then have "tank gas cost sv \<le> tank gas cost j" using that assms(1) by (auto simp: gas_inv_def)
    with t that(1) show ?thesis by linarith
  qed simp
  moreover have "tank gas cost sv \<le> tank gas cost j" if "\<not> g + gas ! k < c + cost ! k" "j \<le> Suc k" for j
  proof (cases "j = Suc k")
    case True
    with t that(1) show ?thesis by simp
  next
    case False
    with that assms(1) show ?thesis by (auto simp: gas_inv_def)
  qed
  ultimately show ?thesis
    using assms by (auto simp: gas_inv_def take_Suc_conv_app_nth)
qed

lemma gas_loop_returns:
  assumes "gas_inv gas cost k sv g c" "k < length gas" "length cost = length gas" "fuel_ok gas" "fuel_ok cost"
    "0 \<le> tank gas cost (length gas)"
  shows "returns (gas_loop gas cost (int k) (int sv) g c)
    (\<lambda>r. 0 \<le> r \<and> r < int (length gas) \<and> (\<forall>j \<le> length gas. tank gas cost (nat r) \<le> tank gas cost j))"
  using assms(1,2)
proof (induction "length gas - k" arbitrary: k sv g c)
  case (Suc m)
  let ?g = "g + gas ! k" and ?c = "c + cost ! k"
  have le: "sv \<le> Suc k" using Suc.prems(1) by (simp add: gas_inv_def)
  have "?g = sum_list (take (Suc k) gas) - sum_list (take sv gas)" "?c = sum_list (take (Suc k) cost) - sum_list (take sv cost)"
    using Suc.prems assms(3) by (auto simp: gas_inv_def take_Suc_conv_app_nth)
  then have ok: "int_ok ?g" "int_ok ?c"
    using fuel_part_ok [OF assms(4) le] fuel_part_ok [OF assms(5) le] by auto
  note inv = gas_inv_step [OF Suc.prems assms(3)]
  have body: "gas_loop gas cost (int k) (int sv) g c =
      (let idx = (int k + 1) mod int (length gas); (g, c, sv) = (if ?g < ?c then (0, 0, idx) else (?g, ?c, int sv))
       in if idx = 0 then Ret sv else gas_loop gas cost idx sv g c)"
    using Suc.prems(2) assms(3) ok by (subst gas_loop.simps) simp
  have kk: "int k + 1 = int (Suc k)" by simp
  show ?case
  proof (cases "Suc k = length gas")
    case True
    have zero: "tank gas cost 0 \<le> tank gas cost j" if "?g < ?c" "j \<le> length gas" for j
    proof -
      have "tank gas cost (length gas) \<le> tank gas cost j" using inv that True by (auto simp: gas_inv_def)
      with assms(6) show ?thesis by (simp add: tank_def)
    qed
    have "sv < length gas" if "\<not> ?g < ?c" using Suc.prems by (simp add: gas_inv_def)
    then show ?thesis
      using zero inv True unfolding body kk by (auto simp: Let_def gas_inv_def split: if_splits)
  next
    case False
    then have lt: "Suc k < length gas" "(int k + 1) mod int (length gas) = int (Suc k)" using Suc.prems(2) by auto
    have m: "m = length gas - Suc k" using Suc.hyps(2) by simp
    show ?thesis
      unfolding body lt(2) Let_def
      using Suc.hyps(1) [OF m, of "Suc k" 0 0] Suc.hyps(1) [OF m, of sv ?g ?c] inv lt(1) by (auto split: if_splits)
  qed
qed simp

lemma round_sum:
  assumes "length cost = length gas" "s < length gas" "k \<le> length gas"
  shows "(\<Sum>t < k. gas ! ((s + t) mod length gas) - cost ! ((s + t) mod length gas)) =
    (if s + k \<le> length gas then tank gas cost (s + k) - tank gas cost s
     else tank gas cost (length gas) - tank gas cost s + tank gas cost (s + k - length gas))"
  using assms(3)
proof (induction k)
  case (Suc k)
  let ?n = "length gas"
  have "tank gas cost (Suc ((s + k) mod ?n)) =
      tank gas cost ((s + k) mod ?n) + gas ! ((s + k) mod ?n) - cost ! ((s + k) mod ?n)"
    using assms(1,2) by (intro tank_Suc mod_less_divisor) auto
  moreover have "(s + k) mod ?n = (if s + k < ?n then s + k else s + k - ?n)"
    using assms(2) Suc.prems by (auto simp: mod_if)
  moreover have "tank gas cost 0 = 0" by (simp add: tank_def)
  ultimately show ?case using Suc by (auto simp: not_less Suc_diff_le split: if_splits)
qed (use assms in simp)

text \<open>
  \<^verbatim>\<open>canCompleteCircuit\<close> returns a station from which the round trip succeeds whenever there is
  enough fuel in total, and \<open>-1\<close> otherwise. Without any station it reads \<^verbatim>\<open>gas[0]\<close> of an empty vector.
\<close>

theorem gas_station_correct:
  assumes "length cost = length gas" "fuel_ok gas" "fuel_ok cost" "gas \<noteq> []"
  shows "(sum_list gas < sum_list cost \<longrightarrow> canCompleteCircuit gas cost = Ret (- 1))
    \<and> (sum_list cost \<le> sum_list gas \<longrightarrow>
         returns (canCompleteCircuit gas cost) (\<lambda>r. 0 \<le> r \<and> r < int (length gas) \<and> round_trip gas cost (nat r)))
    \<and> canCompleteCircuit [] [] = Undefined"
proof (intro conjI impI)
  note total = gas_total_returns [OF assms(1-3)]
  show "sum_list gas < sum_list cost \<Longrightarrow> canCompleteCircuit gas cost = Ret (- 1)"
    by (simp add: canCompleteCircuit_def total)
  show "canCompleteCircuit [] [] = Undefined" by code_simp
  assume ge: "sum_list cost \<le> sum_list gas"
  then have tank: "0 \<le> tank gas cost (length gas)" using assms(1) by (simp add: tank_def)
  have "round_trip gas cost s"
    if s: "s < length gas" "\<forall>j \<le> length gas. tank gas cost s \<le> tank gas cost j" for s
    unfolding round_trip_def
  proof (intro allI impI)
    fix k assume k: "k \<le> length gas"
    have "tank gas cost s \<le> tank gas cost (s + k)" if "s + k \<le> length gas" using s that by blast
    moreover have "tank gas cost s \<le> tank gas cost (s + k - length gas)" using s k by auto
    ultimately show "0 \<le> (\<Sum>t < k. gas ! ((s + t) mod length gas) - cost ! ((s + t) mod length gas))"
      unfolding round_sum [OF assms(1) s(1) k] using tank by auto
  qed
  moreover have "gas_inv gas cost 0 0 0 0" by (simp add: gas_inv_def)
  ultimately show "returns (canCompleteCircuit gas cost) (\<lambda>r. 0 \<le> r \<and> r < int (length gas) \<and> round_trip gas cost (nat r))"
    using gas_loop_returns [OF _ _ assms(1-3) tank, of 0 0 0 0] assms(4) ge
    by (auto simp: canCompleteCircuit_def total elim!: returns_mono)
qed

theorem gas_station_correct_witness:
  "canCompleteCircuit [1, 2, 3, 4, 5] [3, 4, 5, 1, 2] = Ret 3 \<and> round_trip [1, 2, 3, 4, 5] [3, 4, 5, 1, 2] 3"
proof -
  have e: "canCompleteCircuit [1, 2, 3, 4, 5] [3, 4, 5, 1, 2] = Ret 3" by code_simp
  from gas_station_correct [of "[3, 4, 5, 1, 2]" "[1, 2, 3, 4, 5]"] e show ?thesis by (simp add: fuel_ok_def)
qed

end
