(* ===== verification/Array_Inplace.thy ===== *)
theory Array_Inplace
  imports Sperm_Prelude
begin

text \<open>
  Programs of \<^verbatim>\<open>code/leetcode\<close> that rearrange an array in place (\<^verbatim>\<open>merge-sort-array.cc\<close>,
  \<^verbatim>\<open>remove-duplicates-from-sorted-array.cc\<close>, \<^verbatim>\<open>remove-element.cc\<close>), that search it (\<^verbatim>\<open>two-sum.cc\<close>),
  or that work on the bits of its elements (\<^verbatim>\<open>single-number.cc\<close>, \<^verbatim>\<open>single-number-2.cc\<close>).
\<close>

section \<open>Merging sorted arrays\<close>

text \<open>The array \<^verbatim>\<open>A\<close> is filled from behind; its first \<^verbatim>\<open>m\<close> elements are the input.\<close>

function merge_rest :: "int list \<Rightarrow> int list \<Rightarrow> int \<Rightarrow> int \<Rightarrow> int list exec" where
  "merge_rest A B y p =
     (if y \<ge> 0 then
        exec_bind (vec_at B y) (\<lambda>b. exec_bind (vec_put A p b) (\<lambda>A. merge_rest A B (y - 1) (p - 1)))
      else Ret A)"
  by auto
termination by (relation "measure (\<lambda>(A, B, y, p). nat (y + 1))") auto

function merge_loop :: "int list \<Rightarrow> int list \<Rightarrow> int \<Rightarrow> int \<Rightarrow> int \<Rightarrow> int list exec" where
  "merge_loop A B x y p =
     (if x \<ge> 0 \<and> y \<ge> 0 then
        exec_bind (vec_at A x) (\<lambda>a.
        exec_bind (vec_at B y) (\<lambda>b.
        if a \<ge> b then exec_bind (vec_put A p a) (\<lambda>A. merge_loop A B (x - 1) y (p - 1))
        else exec_bind (vec_put A p b) (\<lambda>A. merge_loop A B x (y - 1) (p - 1))))
      else merge_rest A B y p)"
  by auto
termination by (relation "measure (\<lambda>(A, B, x, y, p). nat (x + 1) + nat (y + 1))") auto

declare merge_rest.simps [simp del] merge_loop.simps [simp del]

definition merge_arrays :: "int list \<Rightarrow> int \<Rightarrow> int list \<Rightarrow> int \<Rightarrow> int list exec" where
  "merge_arrays A m B n = merge_loop A B (m - 1) (n - 1) (m + n - 1)"

text \<open>The first \<open>k\<close> elements are \<open>xs\<close> in order, the others are those of \<open>A\<close>.\<close>

definition merged :: "int list \<Rightarrow> nat \<Rightarrow> int multiset \<Rightarrow> int list \<Rightarrow> bool" where
  "merged A k M A' \<longleftrightarrow> length A' = length A \<and> sorted (take k A') \<and> mset (take k A') = M \<and> drop k A' = drop k A"

lemma merged_Suc:
  assumes "merged (A[k := a]) k M A'" "k < length A" "\<And>x. x \<in># M \<Longrightarrow> x \<le> a"
  shows "merged A (Suc k) (add_mset a M) A'"
proof -
  from assms(1) have A': "length A' = length A" "sorted (take k A')" "mset (take k A') = M" "drop k A' = drop k (A[k := a])"
    by (auto simp: merged_def)
  have "drop k (A[k := a]) = a # drop (Suc k) A"
    using assms(2) by (metis Cons_nth_drop_Suc drop_update_cancel length_list_update lessI nth_list_update_eq)
  then have d: "drop k A' = a # drop (Suc k) A" using A'(4) by simp
  then have "A' ! k = a" "drop (Suc k) A' = drop (Suc k) A"
    using assms(2) A'(1) by (metis Cons_nth_drop_Suc list.inject)+
  moreover have "x \<le> a" if "x \<in> set (take k A')" for x using that A'(3) assms(3) by (metis set_mset_mset)
  ultimately show ?thesis
    using A'(1-3) assms(2) by (auto simp: merged_def take_Suc_conv_app_nth sorted_append)
qed

lemma merge_rest_returns:
  "y \<le> length A \<Longrightarrow> y \<le> length B \<Longrightarrow> sorted (take y B) \<Longrightarrow>
   returns (merge_rest A B (int y - 1) (int y - 1)) (merged A y (mset (take y B)))"
proof (induction y arbitrary: A)
  case 0
  then show ?case by (simp add: merge_rest.simps merged_def)
next
  case (Suc y)
  let ?A = "A[y := B ! y]"
  have B: "take (Suc y) B = take y B @ [B ! y]" using Suc.prems by (simp add: take_Suc_conv_app_nth)
  have "returns (merge_rest ?A B (int y - 1) (int y - 1)) (merged ?A y (mset (take y B)))"
    using Suc.prems B by (intro Suc.IH) (auto simp: sorted_append)
  moreover have "x \<le> B ! y" if "x \<in># mset (take y B)" for x
    using that Suc.prems(3) B by (auto simp: sorted_append)
  ultimately show ?case
    using Suc.prems by (subst merge_rest.simps) (auto simp: B intro: merged_Suc elim!: returns_mono)
qed

lemma merge_loop_returns:
  assumes "x + y \<le> length A" "y \<le> length B" "sorted (take x A)" "sorted (take y B)"
  shows "returns (merge_loop A B (int x - 1) (int y - 1) (int (x + y) - 1))
    (merged A (x + y) (mset (take x A) + mset (take y B)))"
  using assms
proof (induction "x + y" arbitrary: x y A)
  case (Suc n)
  show ?case
  proof (cases "x = 0 \<or> y = 0")
    case True
    then show ?thesis
    proof
      assume "x = 0"
      then show ?thesis using merge_rest_returns [of y A B] Suc.prems by (subst merge_loop.simps) simp
    next
      assume "y = 0"
      then show ?thesis using Suc.prems
        by (subst merge_loop.simps, subst merge_rest.simps) (simp add: merged_def)
    qed
  next
    case False
    then obtain i j where ij: "x = Suc i" "y = Suc j" by (metis not0_implies_Suc)
    have A: "take x A = take i A @ [A ! i]" and B: "take y B = take j B @ [B ! j]"
      using Suc.prems ij by (simp_all add: take_Suc_conv_app_nth)
    have n: "n = i + y" "n = x + j" "n < length A" using Suc.hyps(2) Suc.prems ij by auto
    have p: "int (x + y) - 1 = int n" and il: "i < length A" using Suc.hyps(2) n by simp_all
    have le: "z \<le> A ! i" if "z \<in># mset (take i A)" for z using that Suc.prems(3) A by (auto simp: sorted_append)
    have le': "z \<le> B ! j" if "z \<in># mset (take j B)" for z using that Suc.prems(4) B by (auto simp: sorted_append)
    show ?thesis
    proof (cases "A ! i \<ge> B ! j")
      case True
      let ?A = "A[n := A ! i]"
      have t: "take i ?A = take i A" using n by simp
      have "returns (merge_loop ?A B (int i - 1) (int y - 1) (int (i + y) - 1))
        (merged ?A (i + y) (mset (take i ?A) + mset (take y B)))"
        using Suc.prems n A t by (intro Suc.hyps(1)) (auto simp: sorted_append)
      moreover have "z \<le> A ! i" if "z \<in># mset (take i A) + mset (take y B)" for z
        using that le [of z] le' [of z] True by (auto simp: B)
      ultimately have "returns (merge_loop ?A B (int i - 1) (int y - 1) (int n - 1))
        (merged A (Suc n) (add_mset (A ! i) (mset (take i A) + mset (take y B))))"
        unfolding t n(1) [symmetric] using n(3) by (elim returns_mono) (rule merged_Suc)
      then show ?thesis using True Suc.prems(1,2) ij(1,2) n(3) il A unfolding p Suc.hyps(2) [symmetric]
        by (subst merge_loop.simps) (simp add: add.commute)
    next
      case False
      let ?A = "A[n := B ! j]"
      have t: "take x ?A = take x A" using n by simp
      have "returns (merge_loop ?A B (int x - 1) (int j - 1) (int (x + j) - 1))
        (merged ?A (x + j) (mset (take x ?A) + mset (take j B)))"
        using Suc.prems n B t ij by (intro Suc.hyps(1)) (auto simp: sorted_append)
      moreover have "z \<le> B ! j" if "z \<in># mset (take x A) + mset (take j B)" for z
        using that le [of z] le' [of z] False by (auto simp: A)
      ultimately have "returns (merge_loop ?A B (int x - 1) (int j - 1) (int n - 1))
        (merged A (Suc n) (add_mset (B ! j) (mset (take x A) + mset (take j B))))"
        unfolding t n(2) [symmetric] using n(3) by (elim returns_mono) (rule merged_Suc)
      then show ?thesis using False Suc.prems(1,2) ij(1,2) n(3) il B unfolding p Suc.hyps(2) [symmetric]
        by (subst merge_loop.simps) (simp add: add.commute)
    qed
  qed
qed (simp add: merge_loop.simps merge_rest.simps merged_def)

text \<open>
  \<^verbatim>\<open>merge\<close> leaves the elements of both arrays in order at the front of \<^verbatim>\<open>A\<close>, never overwrites an
  element of \<^verbatim>\<open>A\<close> that is still needed, and touches nothing behind them.
\<close>

theorem merge_arrays_correct:
  assumes "m + n \<le> length A" "n \<le> length B" "sorted (take m A)" "sorted (take n B)"
  shows "returns (merge_arrays A (int m) B (int n)) (\<lambda>A'. length A' = length A \<and> sorted (take (m + n) A')
    \<and> mset (take (m + n) A') = mset (take m A) + mset (take n B) \<and> drop (m + n) A' = drop (m + n) A)"
  using merge_loop_returns [OF assms] by (auto simp: merge_arrays_def merged_def elim!: returns_mono)

theorem merge_arrays_correct_witness:
  "merge_arrays [1, 4, 0, 0, 9] 2 [2, 3] 2 = Ret [1, 2, 3, 4, 9] \<and>
   returns (merge_arrays [1, 4, 0, 0, 9] 2 [2, 3] 2) (\<lambda>A'. sorted (take 4 A'))"
proof (intro conjI)
  show "merge_arrays [1, 4, 0, 0, 9] 2 [2, 3] 2 = Ret [1, 2, 3, 4, 9]" by code_simp
  have "returns (merge_arrays [1, 4, 0, 0, 9] (int 2) [2, 3] (int 2)) (\<lambda>A'. sorted (take (2 + 2) A'))"
    by (rule returns_mono [OF merge_arrays_correct]) (auto simp: numeral_2_eq_2)
  then show "returns (merge_arrays [1, 4, 0, 0, 9] 2 [2, 3] 2) (\<lambda>A'. sorted (take 4 A'))" by simp
qed

section \<open>Compaction\<close>

definition removeDuplicates_body :: "int \<Rightarrow> int list \<times> int \<Rightarrow> (int list \<times> int) exec" where
  "removeDuplicates_body i = (\<lambda>(A, c).
     exec_bind (vec_at A i) (\<lambda>a. exec_bind (vec_at A c) (\<lambda>b.
     if a = b then Ret (A, c) else exec_bind (vec_put A (c + 1) a) (\<lambda>A. Ret (A, c + 1)))))"

definition removeDuplicates :: "int list \<Rightarrow> int \<Rightarrow> (int list \<times> int) exec" where
  "removeDuplicates A n =
     (if n = 0 then Ret (A, 0)
      else exec_bind (exec_fold removeDuplicates_body [1..n - 1] (A, 0)) (\<lambda>(A, c). Ret (A, c + 1)))"

definition removeElement_body :: "int \<Rightarrow> int \<Rightarrow> int list \<times> int \<Rightarrow> (int list \<times> int) exec" where
  "removeElement_body elem i = (\<lambda>(A, x).
     exec_bind (vec_at A i) (\<lambda>a.
     if a = elem then Ret (A, x) else exec_bind (vec_put A x a) (\<lambda>A. Ret (A, x + 1))))"

definition removeElement :: "int list \<Rightarrow> int \<Rightarrow> int \<Rightarrow> (int list \<times> int) exec" where
  "removeElement A n elem = exec_fold (removeElement_body elem) [0..n - 1] (A, 0)"

text \<open>
  The common invariant: the elements kept so far are at the front, the unread ones untouched.
\<close>

definition compacted :: "(int list \<Rightarrow> int list) \<Rightarrow> int list \<Rightarrow> int \<Rightarrow> int list \<times> int \<Rightarrow> bool" where
  "compacted f A0 i = (\<lambda>(A, x). length A = length A0 \<and> x = int (length (f (take (nat i) A0))) \<and> x \<le> i
     \<and> take (nat x) A = f (take (nat i) A0) \<and> drop (nat i) A = drop (nat i) A0)"

lemma drop_Suc_eq: "drop i xs = drop i ys \<Longrightarrow> drop (Suc i) xs = drop (Suc i) ys"
  by (simp add: drop_Suc flip: tl_drop)

lemma compacted_skip:
  assumes "compacted f A0 (int i) (A, x)" "i < length A0" "f (take (Suc i) A0) = f (take i A0)"
  shows "compacted f A0 (int i + 1) (A, x)"
proof -
  have "drop (Suc i) A = drop (Suc i) A0" using assms(1) by (intro drop_Suc_eq) (simp add: compacted_def)
  with assms show ?thesis by (auto simp: compacted_def nat_add_distrib)
qed

lemma compacted_keep:
  assumes "compacted f A0 (int i) (A, x)" "i < length A0" "f (take (Suc i) A0) = f (take i A0) @ [A0 ! i]"
  shows "compacted f A0 (int i + 1) (A[nat x := A0 ! i], x + 1)"
proof -
  from assms(1) have A: "length A = length A0" "x = int (length (f (take i A0)))" "x \<le> int i"
    "take (nat x) A = f (take i A0)" "drop i A = drop i A0" by (auto simp: compacted_def)
  then have x: "nat x \<le> i" "nat x < length A" using assms(2) by auto
  have "drop (Suc i) (A[nat x := A0 ! i]) = drop (Suc i) A0"
    using drop_Suc_eq [OF A(5)] x(1) by simp
  moreover have "take (Suc (nat x)) (A[nat x := A0 ! i]) = f (take i A0) @ [A0 ! i]"
    using A(4) x(2) by (simp add: take_Suc_conv_app_nth)
  ultimately show ?thesis using A assms(3) by (auto simp: compacted_def nat_add_distrib)
qed

lemma compacted_next:
  assumes "compacted f A0 (int i) (A, x)" "i < length A0"
  shows "vec_at A (int i) = Ret (A0 ! i)" "x \<le> int i" "i < length A"
proof -
  have d: "drop i A = drop i A0" "length A = length A0" using assms by (auto simp: compacted_def)
  then have "A ! i = A0 ! i" using assms(2) by (metis hd_drop_conv_nth)
  with d assms show "vec_at A (int i) = Ret (A0 ! i)" "x \<le> int i" "i < length A" by (auto simp: compacted_def)
qed

lemma remdups_adj_snoc:
  "xs \<noteq> [] \<Longrightarrow> remdups_adj (xs @ [y]) = (if last xs = y then remdups_adj xs else remdups_adj xs @ [y])"
  by (induction xs rule: remdups_adj.induct) auto

lemma removeDuplicates_returns:
  assumes "0 < n" "n \<le> length A"
  shows "returns (removeDuplicates A (int n)) (compacted remdups_adj A (int n))"
proof -
  let ?P = "\<lambda>i (B, c). compacted remdups_adj A i (B, c + 1) \<and> 0 \<le> c"
  have "returns (exec_fold removeDuplicates_body [1..int n - 1] (A, 0)) (?P (int n - 1 + 1))"
  proof (rule exec_fold_upto [where P = ?P], goal_cases)
    case 1
    have "take (Suc 0) A = [A ! 0]" using assms take_Suc_conv_app_nth [of 0 A] by fastforce
    then show ?case by (simp add: compacted_def)
  next
    case (3 i st)
    obtain B c where st: "st = (B, c)" by (cases st)
    define k where "k = nat i"
    have k: "i = int k" "0 < k" "k < length A" using 3(1,2) assms(2) by (auto simp: k_def)
    have inv: "compacted remdups_adj A (int k) (B, c + 1)" "0 \<le> c" using 3(3) st k by auto
    note nxt = compacted_next [OF inv(1) k(3)]
    have len: "take k A \<noteq> []" using k by auto
    have T: "take (nat (c + 1)) B = remdups_adj (take k A)" "nat (c + 1) \<le> length B"
      using inv(1) nxt by (auto simp: compacted_def)
    have "B ! nat c = last (take (nat (c + 1)) B)"
      using T(2) inv(2) by (simp add: nat_add_distrib take_Suc_conv_app_nth)
    then have last: "B ! nat c = last (take k A)" by (simp add: T)
    have c: "vec_at B c = Ret (last (take k A))" using inv(2) T(2) last by simp
    have snoc: "remdups_adj (take (Suc k) A) =
        (if last (take k A) = A ! k then remdups_adj (take k A) else remdups_adj (take k A) @ [A ! k])"
      using k len by (simp add: take_Suc_conv_app_nth remdups_adj_snoc)
    show ?case
      using compacted_skip [OF inv(1) k(3)] compacted_keep [OF inv(1) k(3)] snoc nxt c inv(2) k(1)
      by (auto simp: st removeDuplicates_body_def add.commute)
  qed (use assms in auto)
  then show ?thesis using assms by (auto simp: removeDuplicates_def elim!: returns_mono)
qed

lemma removeElement_returns:
  assumes "n \<le> length A"
  shows "returns (removeElement A (int n) e) (compacted (filter (\<lambda>a. a \<noteq> e)) A (int n))"
proof -
  let ?P = "compacted (filter (\<lambda>a. a \<noteq> e)) A"
  have "returns (removeElement A (int n) e) (?P (int n - 1 + 1))"
    unfolding removeElement_def
  proof (rule exec_fold_upto [where P = ?P], goal_cases)
    case (3 i st)
    obtain B x where st: "st = (B, x)" by (cases st)
    define k where "k = nat i"
    have k: "i = int k" "k < length A" using 3(1,2) assms by (auto simp: k_def)
    have inv: "?P (int k) (B, x)" using 3(3) st k by simp
    have x: "0 \<le> x" using inv by (simp add: compacted_def)
    note nxt = compacted_next [OF inv k(2)]
    show ?case
      using compacted_skip [OF inv k(2)] compacted_keep [OF inv k(2)] nxt x k
      by (auto simp: st removeElement_body_def take_Suc_conv_app_nth)
  qed (auto simp: compacted_def)
  then show ?thesis by simp
qed

text \<open>
  Both programs compact the array in place: the first \<open>x\<close> elements, where \<open>x\<close> is the result, are
  the array without adjacent repetitions, or without the given element. A sorted array without
  adjacent repetitions has none at all.
\<close>

theorem compaction_correct:
  assumes "0 < n" "n \<le> length A"
  shows "returns (removeDuplicates A (int n)) (\<lambda>(B, x). take (nat x) B = remdups_adj (take n A) \<and> drop n B = drop n A
      \<and> x = int (length (remdups_adj (take n A))) \<and> (sorted (take n A) \<longrightarrow> distinct (take (nat x) B)))
    \<and> returns (removeElement A (int n) e) (\<lambda>(B, x). take (nat x) B = filter (\<lambda>a. a \<noteq> e) (take n A) \<and> drop n B = drop n A
      \<and> x = int (length (filter (\<lambda>a. a \<noteq> e) (take n A))))"
proof
  have "sorted xs \<Longrightarrow> distinct (remdups_adj xs)" for xs :: "int list"
    by (induction xs rule: remdups_adj.induct) (auto simp: order.order_iff_strict)
  then show "returns (removeDuplicates A (int n)) (\<lambda>(B, x). take (nat x) B = remdups_adj (take n A) \<and> drop n B = drop n A
      \<and> x = int (length (remdups_adj (take n A))) \<and> (sorted (take n A) \<longrightarrow> distinct (take (nat x) B)))"
    using removeDuplicates_returns [OF assms] by (auto simp: compacted_def elim!: returns_mono)
  show "returns (removeElement A (int n) e) (\<lambda>(B, x). take (nat x) B = filter (\<lambda>a. a \<noteq> e) (take n A) \<and> drop n B = drop n A
      \<and> x = int (length (filter (\<lambda>a. a \<noteq> e) (take n A))))"
    using removeElement_returns [OF assms(2), of e] by (auto simp: compacted_def elim!: returns_mono)
qed

theorem compaction_correct_witness:
  "removeDuplicates [1, 1, 2, 3, 3] 5 = Ret ([1, 2, 3, 3, 3], 3) \<and> removeElement [3, 1, 3, 2] 4 3 = Ret ([1, 2, 3, 2], 2)
   \<and> returns (removeDuplicates [1, 1, 2, 3, 3] (int 5)) (\<lambda>(B, x). take (nat x) B = [1, 2, 3])"
proof (intro conjI)
  show "removeDuplicates [1, 1, 2, 3, 3] 5 = Ret ([1, 2, 3, 3, 3], 3)"
    "removeElement [3, 1, 3, 2] 4 3 = Ret ([1, 2, 3, 2], 2)" by code_simp+
  show "returns (removeDuplicates [1, 1, 2, 3, 3] (int 5)) (\<lambda>(B, x). take (nat x) B = [1, 2, 3])"
    by (rule returns_mono [OF conjunct1 [OF compaction_correct [of 5 "[1, 1, 2, 3, 3]" 0]]]) auto
qed

section \<open>Two sum\<close>

text \<open>The inner loop returns the pair, or \<open>None\<close> when it ends; the function has no \<^verbatim>\<open>return\<close> at its end.\<close>

function twoSum_inner :: "int list \<Rightarrow> int \<Rightarrow> int \<Rightarrow> int \<Rightarrow> int list option exec" where
  "twoSum_inner xs target i j =
     (if j < int (length xs) then
        exec_bind (vec_at xs i) (\<lambda>a. exec_bind (vec_at xs j) (\<lambda>b.
        exec_bind (c_int (a + b)) (\<lambda>s.
        if s = target then Ret (Some [i + 1, j + 1]) else twoSum_inner xs target i (j + 1))))
      else Ret None)"
  by auto
termination by (relation "measure (\<lambda>(xs, target, i, j). nat (int (length xs) - j))") auto

function twoSum_outer :: "int list \<Rightarrow> int \<Rightarrow> int \<Rightarrow> int list exec" where
  "twoSum_outer xs target i =
     (if i < int (length xs) then
        exec_bind (twoSum_inner xs target i (i + 1)) (\<lambda>r. case r of
          Some res \<Rightarrow> Ret res
        | None \<Rightarrow> twoSum_outer xs target (i + 1))
      else Undefined)"
  by auto
termination by (relation "measure (\<lambda>(xs, target, i). nat (int (length xs) - i))") auto

declare twoSum_inner.simps [simp del] twoSum_outer.simps [simp del]

definition twoSum :: "int list \<Rightarrow> int \<Rightarrow> int list exec" where
  "twoSum xs target = twoSum_outer xs target 0"

definition sums_ok :: "int list \<Rightarrow> bool" where
  "sums_ok xs \<longleftrightarrow> (\<forall>i j. i < j \<and> j < length xs \<longrightarrow> int_ok (xs ! i + xs ! j))"

lemma twoSum_inner_returns:
  assumes "sums_ok xs" "i < j" "j \<le> length xs"
  shows "returns (twoSum_inner xs t (int i) (int j)) (\<lambda>r. case r of
      None \<Rightarrow> \<forall>k. j \<le> k \<and> k < length xs \<longrightarrow> xs ! i + xs ! k \<noteq> t
    | Some res \<Rightarrow> \<exists>k. j \<le> k \<and> k < length xs \<and> xs ! i + xs ! k = t \<and> res = [int i + 1, int k + 1]
        \<and> (\<forall>k'. j \<le> k' \<and> k' < k \<longrightarrow> xs ! i + xs ! k' \<noteq> t))"
  using assms(2,3)
proof (induction "length xs - j" arbitrary: j)
  case 0
  then show ?case by (subst twoSum_inner.simps) simp
next
  case (Suc n)
  then have j: "j < length xs" "i < length xs" by auto
  have ok: "int_ok (xs ! i + xs ! j)" using assms(1) Suc.prems j by (simp add: sums_ok_def)
  show ?case
  proof (cases "xs ! i + xs ! j = t")
    case True
    then show ?thesis using j ok by (subst twoSum_inner.simps) (auto intro!: exI [of _ j])
  next
    case False
    have split: "j \<le> k \<longleftrightarrow> k = j \<or> Suc j \<le> k" for k by auto
    have "returns (twoSum_inner xs t (int i) (int (Suc j))) (\<lambda>r. case r of
      None \<Rightarrow> \<forall>k. Suc j \<le> k \<and> k < length xs \<longrightarrow> xs ! i + xs ! k \<noteq> t
    | Some res \<Rightarrow> \<exists>k. Suc j \<le> k \<and> k < length xs \<and> xs ! i + xs ! k = t \<and> res = [int i + 1, int k + 1]
        \<and> (\<forall>k'. Suc j \<le> k' \<and> k' < k \<longrightarrow> xs ! i + xs ! k' \<noteq> t))"
      using Suc by (intro Suc.hyps(1)) auto
    then have "returns (twoSum_inner xs t (int i) (int j + 1)) (\<lambda>r. case r of
      None \<Rightarrow> \<forall>k. j \<le> k \<and> k < length xs \<longrightarrow> xs ! i + xs ! k \<noteq> t
    | Some res \<Rightarrow> \<exists>k. j \<le> k \<and> k < length xs \<and> xs ! i + xs ! k = t \<and> res = [int i + 1, int k + 1]
        \<and> (\<forall>k'. j \<le> k' \<and> k' < k \<longrightarrow> xs ! i + xs ! k' \<noteq> t))"
      unfolding split using False by (auto simp: add.commute elim!: returns_mono split: option.splits)
    then show ?thesis using False j ok by (subst twoSum_inner.simps) simp
  qed
qed

definition sums_to :: "int list \<Rightarrow> int \<Rightarrow> nat \<Rightarrow> nat \<Rightarrow> bool" where
  "sums_to xs t i j \<longleftrightarrow> i < j \<and> j < length xs \<and> xs ! i + xs ! j = t"

lemma twoSum_outer_eq:
  assumes "sums_ok xs" "i \<le> length xs" "\<forall>a b. sums_to xs t a b \<longrightarrow> i \<le> a"
  shows "(\<forall>a b. \<not> sums_to xs t a b) \<and> twoSum_outer xs t (int i) = Undefined \<or>
    (\<exists>a b. sums_to xs t a b \<and> twoSum_outer xs t (int i) = Ret [int a + 1, int b + 1]
       \<and> (\<forall>a' b'. sums_to xs t a' b' \<longrightarrow> a < a' \<or> a = a' \<and> b \<le> b'))"
  using assms(2,3)
proof (induction "length xs - i" arbitrary: i)
  case 0
  then show ?case by (subst twoSum_outer.simps) (auto simp: sums_to_def twoSum_outer.simps)
next
  case (Suc n)
  have "returns (twoSum_inner xs t (int i) (int (Suc i))) (\<lambda>r. case r of
      None \<Rightarrow> \<forall>k. Suc i \<le> k \<and> k < length xs \<longrightarrow> xs ! i + xs ! k \<noteq> t
    | Some res \<Rightarrow> \<exists>k. Suc i \<le> k \<and> k < length xs \<and> xs ! i + xs ! k = t \<and> res = [int i + 1, int k + 1]
        \<and> (\<forall>k'. Suc i \<le> k' \<and> k' < k \<longrightarrow> xs ! i + xs ! k' \<noteq> t))"
    using Suc.hyps(2) by (intro twoSum_inner_returns [OF assms(1)]) auto
  then obtain r where r: "twoSum_inner xs t (int i) (int i + 1) = Ret r" "case r of
      None \<Rightarrow> \<forall>k. Suc i \<le> k \<and> k < length xs \<longrightarrow> xs ! i + xs ! k \<noteq> t
    | Some res \<Rightarrow> \<exists>k. Suc i \<le> k \<and> k < length xs \<and> xs ! i + xs ! k = t \<and> res = [int i + 1, int k + 1]
        \<and> (\<forall>k'. Suc i \<le> k' \<and> k' < k \<longrightarrow> xs ! i + xs ! k' \<noteq> t)"
    by (auto simp: returns_iff add.commute)
  consider (none) "twoSum_inner xs t (int i) (int i + 1) = Ret None" "\<forall>b. \<not> sums_to xs t i b"
    | (found) k where "twoSum_inner xs t (int i) (int i + 1) = Ret (Some [int i + 1, int k + 1])" "sums_to xs t i k"
      "\<forall>b. sums_to xs t i b \<longrightarrow> k \<le> b"
  proof (cases r)
    case None
    with r show thesis by (intro that(1)) (auto simp: sums_to_def)
  next
    case (Some res)
    with r(2) obtain k where "Suc i \<le> k" "k < length xs" "xs ! i + xs ! k = t" "res = [int i + 1, int k + 1]"
      "\<forall>k'. Suc i \<le> k' \<and> k' < k \<longrightarrow> xs ! i + xs ! k' \<noteq> t" by auto
    with r(1) Some show thesis by (intro that(2)) (auto simp: sums_to_def not_less [symmetric])
  qed
  then show ?case
  proof cases
    case none
    then have "\<forall>a b. sums_to xs t a b \<longrightarrow> Suc i \<le> a" using Suc.prems(2) by (metis le_antisym not_less_eq_eq)
    then show ?thesis using Suc.hyps(1) [of "Suc i"] Suc.hyps(2) none
      by (subst (1 2) twoSum_outer.simps) (auto simp: add.commute)
  next
    case (found k)
    then show ?thesis using Suc.prems(2) Suc.hyps(2)
      by (subst (1 2) twoSum_outer.simps) (metis (no_types, lifting) exec_bind.simps(1) le_neq_implies_less
          less_numeral_extra(3) of_nat_less_iff option.simps(5) zero_less_diff zero_less_Suc)
  qed
qed

text \<open>
  \<^verbatim>\<open>twoSum\<close> returns the first pair, in the order of its two loops, whose elements add up to the
  target; if there is no such pair, it runs off its end without a return.
\<close>

theorem twoSum_first_pair:
  assumes "sums_ok xs"
  shows "(\<forall>a b. \<not> sums_to xs t a b) \<and> twoSum xs t = Undefined \<or>
    (\<exists>a b. sums_to xs t a b \<and> twoSum xs t = Ret [int a + 1, int b + 1]
       \<and> (\<forall>a' b'. sums_to xs t a' b' \<longrightarrow> a < a' \<or> a = a' \<and> b \<le> b'))"
  using twoSum_outer_eq [OF assms, of 0 t] by (simp add: twoSum_def)

lemma sums_ok_small: "sums_ok [2, 7, 11, 15]"
  by (auto simp: sums_ok_def less_Suc_eq numeral_eq_Suc int_ok_def)

theorem twoSum_first_pair_witness:
  "(\<forall>a b. \<not> sums_to [2, 7, 11, 15] 9 a b) \<and> twoSum [2, 7, 11, 15] 9 = Undefined \<or>
    (\<exists>a b. sums_to [2, 7, 11, 15] 9 a b \<and> twoSum [2, 7, 11, 15] 9 = Ret [int a + 1, int b + 1]
       \<and> (\<forall>a' b'. sums_to [2, 7, 11, 15] 9 a' b' \<longrightarrow> a < a' \<or> a = a' \<and> b \<le> b'))"
  by (rule twoSum_first_pair [OF sums_ok_small])

section \<open>The number that occurs once\<close>

text \<open>
  The elements are the 32 bits of an \<^verbatim>\<open>int\<close>: \<^verbatim>\<open>>>\<close> keeps the sign bit, and \<^verbatim>\<open><<\<close> drops the bit it moves
  out, as the compilers the code is written for do.
\<close>

definition singleNumber :: "u32 list \<Rightarrow> int \<Rightarrow> u32 exec" where
  "singleNumber A n = exec_fold (\<lambda>i x. exec_bind (vec_at A i) (\<lambda>a. Ret (x XOR a))) [0..n - 1] 0"

definition single2_R_body :: "int \<Rightarrow> u32 \<times> int list \<Rightarrow> (u32 \<times> int list) exec" where
  "single2_R_body i s = (case s of (a, cnt) \<Rightarrow>
     exec_bind (if a AND 0x1 \<noteq> 0
                then exec_bind (vec_at cnt i) (\<lambda>m. vec_put cnt i ((m + 1) mod 3))
                else Ret cnt) (\<lambda>cnt. Ret (signed_drop_bit 1 a, cnt)))"

definition single2_R :: "u32 \<Rightarrow> int list \<Rightarrow> int list exec" where
  "single2_R a cnt = exec_bind (exec_fold single2_R_body [0..31] (a, cnt)) (\<lambda>(a, cnt). Ret cnt)"

definition single2_S :: "int list \<Rightarrow> u32 exec" where
  "single2_S cnt =
     exec_fold (\<lambda>i code. exec_bind (vec_at cnt i) (\<lambda>m. Ret (push_bit 1 code + word_of_int m))) (rev [0..31]) 0"

definition singleNumber2 :: "u32 list \<Rightarrow> int \<Rightarrow> u32 exec" where
  "singleNumber2 A n =
     exec_bind (exec_fold (\<lambda>i cnt. exec_bind (vec_at A i) (\<lambda>a. single2_R a cnt)) [0..n - 1] (replicate 32 0))
       single2_S"

lemma exec_fold_elems:
  assumes "n = int (length A)" "I s" "\<And>a s. I s \<Longrightarrow> g a s = Ret (h a s)" "\<And>a s. I s \<Longrightarrow> I (h a s)"
  shows "exec_fold (\<lambda>i s. exec_bind (vec_at A i) (\<lambda>a. g a s)) [0..n - 1] s = Ret (fold h A s)"
proof -
  have "returns (exec_fold (\<lambda>i s. exec_bind (vec_at A i) (\<lambda>a. g a s)) [0..n - 1] s)
    (\<lambda>r. I r \<and> r = fold h (take (nat (n - 1 + 1)) A) s)"
  proof (rule exec_fold_upto [where P = "\<lambda>i r. I r \<and> r = fold h (take (nat i) A) s"])
    fix i r assume i: "0 \<le> i" "i \<le> n - 1" and r: "I r \<and> r = fold h (take (nat i) A) s"
    have "take (nat (i + 1)) A = take (nat i) A @ [A ! nat i]"
      using i assms(1) by (simp add: nat_add_distrib take_Suc_conv_app_nth)
    moreover have "g a r = Ret (h a r)" "I (h a r)" for a using r assms by auto
    ultimately show "returns (exec_bind (vec_at A i) (\<lambda>a. g a r)) (\<lambda>r. I r \<and> r = fold h (take (nat (i + 1)) A) s)"
      using i r assms(1) by simp
  qed (use assms in auto)
  then show ?thesis using assms(1) by (simp add: returns_iff)
qed

lemma fold_xor_shift: "fold (XOR) D (x XOR y) = x XOR fold (XOR) D (y::u32)"
proof (induction D arbitrary: y)
  case (Cons a D)
  have "fold (XOR) D (a XOR (x XOR y)) = fold (XOR) D (x XOR (a XOR y))" by (simp add: xor.left_commute)
  with Cons show ?case by simp
qed simp

lemma fold_xor_twice:
  assumes "mset A = mset [v] + (mset xs + mset xs)"
  shows "fold (\<lambda>a x. x XOR a) A (0::u32) = v"
proof -
  have "fold (XOR) A = fold (XOR) (v # xs @ xs)"
    using assms by (intro fold_multiset_equiv) (auto simp: fun_eq_iff ac_simps)
  then have "fold (XOR) A 0 = fold (XOR) xs (fold (XOR) xs v)" by simp
  also have "fold (XOR) xs (fold (XOR) xs v) = v"
    using fold_xor_shift [of xs "fold (XOR) xs 0" v] fold_xor_shift [of xs v 0] fold_xor_shift [of xs v "fold (XOR) xs 0"]
      fold_xor_shift [of xs "fold (XOR) xs 0" 0] by (simp add: ac_simps)
  finally show ?thesis by (simp add: xor.commute)
qed

definition count_bit :: "nat \<Rightarrow> u32 list \<Rightarrow> nat" where
  "count_bit k A = length (filter (\<lambda>a. bit a k) A)"

lemma single2_R_eq:
  assumes "length cnt = 32"
  shows "single2_R a cnt = Ret (map (\<lambda>k. if bit a k then (cnt ! k + 1) mod 3 else cnt ! k) [0..<32])"
proof -
  define F where "F k = (if bit a k then (cnt ! k + 1) mod 3 else cnt ! k)" for k
  have "returns (exec_fold single2_R_body [0..31] (a, cnt))
     (\<lambda>(b, r). length r = 32 \<and> (\<forall>k < 32. r ! k = (if int k < 31 + 1 then F k else cnt ! k)) \<and> True)"
  proof (rule returns_mono [OF exec_fold_upto [where P = "\<lambda>i (b, r). b = signed_drop_bit (nat i) a \<and> length r = 32
         \<and> (\<forall>k < 32. r ! k = (if int k < i then F k else cnt ! k))"]])
    fix i and s :: "u32 \<times> int list"
    assume i: "0 \<le> i" "i \<le> 31"
      and P: "case s of (b, r) \<Rightarrow> b = signed_drop_bit (nat i) a \<and> length r = 32
         \<and> (\<forall>k < 32. r ! k = (if int k < i then F k else cnt ! k))"
    obtain r where s: "s = (signed_drop_bit (nat i) a, r)" and r: "length r = 32"
      "\<And>k. k < 32 \<Longrightarrow> r ! k = (if int k < i then F k else cnt ! k)" using P by (cases s) auto
    have b: "signed_drop_bit (nat i) a AND 1 = 0 \<longleftrightarrow> \<not> bit a (nat i)"
      using i and_pow_tests(1) [of "signed_drop_bit (nat i) a"] by (auto simp: bit_signed_drop_bit_iff)
    have d: "signed_drop_bit 1 (signed_drop_bit (nat i) a) = signed_drop_bit (nat (i + 1)) a"
      using i by (intro bit_word_eqI) (auto simp: bit_signed_drop_bit_iff nat_add_distrib)
    have "k < 32 \<Longrightarrow> int k < i + 1 \<longleftrightarrow> int k < i \<or> k = nat i" for k using i by auto
    with r i d show "returns (single2_R_body i s) (\<lambda>(b, r). b = signed_drop_bit (nat (i + 1)) a \<and> length r = 32
         \<and> (\<forall>k < 32. r ! k = (if int k < i + 1 then F k else cnt ! k)))"
      by (auto simp: single2_R_body_def s b nth_list_update F_def)
  qed (use assms in auto)
  then show ?thesis unfolding single2_R_def F_def
    by (auto simp: returns_iff intro!: nth_equalityI)
qed

lemma fold_single2:
  assumes "length cnt = 32"
  shows "fold (\<lambda>a cnt. map (\<lambda>k. if bit a k then (cnt ! k + 1) mod 3 else cnt ! k) [0..<32]) A cnt
    = (if A = [] then cnt else map (\<lambda>k. if count_bit k A = 0 then cnt ! k else (cnt ! k + int (count_bit k A)) mod 3) [0..<32])"
  using assms
proof (induction A arbitrary: cnt)
  case (Cons a A)
  then show ?case
    by (auto simp: count_bit_def mod_add_right_eq mod_add_left_eq ac_simps intro!: nth_equalityI)
qed simp

lemma single2_S_bits:
  assumes "length cnt = 32" "\<And>k. k < 32 \<Longrightarrow> cnt ! k = of_bool (bit v k)"
  shows "single2_S cnt = Ret v"
proof -
  have step: "push_bit 1 (drop_bit (Suc k) v) + of_bool (bit v k) = drop_bit k v" for k
  proof -
    have "drop_bit (Suc k) v = drop_bit k v div 2" by (simp add: drop_bit_Suc drop_bit_half)
    then show ?thesis using mult_div_mod_eq [of 2 "drop_bit k v"]
      by (simp add: push_bit_eq_mult mod_2_eq_odd even_drop_bit_iff_not_bit ac_simps)
  qed
  have "returns (single2_S cnt) (\<lambda>code. code = drop_bit (nat (0 - 1 + 1)) v)" unfolding single2_S_def
  proof (rule exec_fold_downto [where P = "\<lambda>i code. code = drop_bit (nat (i + 1)) v"])
    fix i code assume i: "0 \<le> i" "i \<le> (31::int)" and code: "code = drop_bit (nat (i + 1)) v"
    have n: "nat (i + 1) = Suc (nat i)" "nat i < 32" using i by auto
    then show "returns (exec_bind (vec_at cnt i) (\<lambda>m. Ret (push_bit 1 code + word_of_int m)))
       (\<lambda>code. code = drop_bit (nat (i - 1 + 1)) v)"
      using i code assms step [of "nat i"] by simp
  qed (auto simp: drop_bit_word_beyond)
  then show ?thesis by (simp add: returns_iff)
qed

lemma count_bit_thrice:
  assumes "mset A = mset [v] + (mset xs + mset xs + mset xs)"
  shows "count_bit k A = of_bool (bit v k) + 3 * count_bit k xs"
proof -
  have "mset (filter (\<lambda>a. bit a k) A) = filter_mset (\<lambda>a. bit a k) (mset [v] + (mset xs + mset xs + mset xs))"
    using assms by simp
  then have "size (mset (filter (\<lambda>a. bit a k) A)) = of_bool (bit v k) + 3 * length (filter (\<lambda>a. bit a k) xs)"
    by (simp flip: mset_filter)
  then show ?thesis unfolding count_bit_def size_mset .
qed

text \<open>
  The number that occurs once is found among numbers that occur twice by \<^verbatim>\<open>single-number.cc\<close>, and
  among numbers that occur three times by \<^verbatim>\<open>single-number-2.cc\<close>, wherever it stands and whatever its sign.
\<close>

theorem single_numbers:
  assumes "mset A = mset [v] + (mset xs + mset xs)" "mset B = mset [w] + (mset ys + mset ys + mset ys)"
  shows "singleNumber A (int (length A)) = Ret v \<and> singleNumber2 B (int (length B)) = Ret w"
proof
  show "singleNumber A (int (length A)) = Ret v" unfolding singleNumber_def
    by (subst exec_fold_elems [where h = "\<lambda>a x. x XOR a" and I = "\<lambda>_. True"]) (auto simp: fold_xor_twice [OF assms(1)])
next
  let ?R = "\<lambda>a (cnt :: int list). map (\<lambda>k. if bit a k then (cnt ! k + 1) mod 3 else cnt ! k) [0..<32]"
  have "exec_fold (\<lambda>i cnt. exec_bind (vec_at B i) (\<lambda>a. single2_R a cnt)) [0..int (length B) - 1] (replicate 32 0)
     = Ret (fold ?R B (replicate 32 0))"
    by (rule exec_fold_elems [where I = "\<lambda>cnt. length cnt = 32"]) (auto simp: single2_R_eq)
  moreover have "length (fold ?R B (replicate 32 0)) = 32" "k < 32 \<Longrightarrow> fold ?R B (replicate 32 0) ! k = of_bool (bit w k)" for k
    using count_bit_thrice [OF assms(2), of k] assms(2) by (auto simp: fold_single2 split: if_splits)
  ultimately show "singleNumber2 B (int (length B)) = Ret w"
    by (simp add: singleNumber2_def single2_S_bits)
qed

theorem single_numbers_witness:
  "singleNumber [4, 1, 4] (int (length [4::u32, 1, 4])) = Ret 1
   \<and> singleNumber2 [3, 3, - 5, 3] (int (length [3::u32, 3, - 5, 3])) = Ret (- 5)"
  by (rule single_numbers [where xs = "[4]" and ys = "[3]"]) simp_all

end
