(* ===== verification/Nasty_Lexer.thy ===== *)
theory Nasty_Lexer
  imports Sperm_Prelude
begin

text \<open>
  The scanner of \<^verbatim>\<open>nasty\<close>: the tables that flex generated from \<^verbatim>\<open>nasty.lexer\<close> and the matching loop of
  \<^verbatim>\<open>yylex\<close> in \<^verbatim>\<open>nasty.l.cc\<close>, and the proof that they recognise the tokens of \<^verbatim>\<open>nasty.lexer\<close>, longest
  match first.
\<close>

section \<open>Tables\<close>

definition yy_accept :: "nat list" where
  "yy_accept = [
    0, 0, 0, 10, 8, 7, 7, 4, 8, 1, 2, 6, 4, 0, 3, 0, 5, 6, 5, 0]"

definition yy_ec :: "nat list" where
  "yy_ec = [
    0, 1, 1, 1, 1, 1, 1, 1, 1, 2, 3, 1, 1, 1, 1, 1, 1, 1, 1, 1, 1, 1, 1, 1,
    1, 1, 1, 1, 1, 1, 1, 1, 2, 4, 5, 4, 4, 4, 4, 1, 6, 7, 4, 4, 4, 4, 8, 4,
    9, 9, 9, 9, 9, 9, 9, 9, 9, 9, 4, 1, 4, 1, 4, 1, 4, 4, 4, 4, 4, 4, 4, 4,
    4, 4, 4, 4, 4, 4, 4, 4, 4, 4, 4, 4, 4, 4, 4, 4, 4, 4, 4, 1, 10, 1, 4, 4,
    1, 4, 4, 4, 4, 4, 4, 4, 4, 4, 4, 4, 4, 4, 4, 4, 4, 4, 4, 4, 4, 4, 4, 4,
    4, 4, 4, 1, 1, 1, 4, 1, 1, 1, 1, 1, 1, 1, 1, 1, 1, 1, 1, 1, 1, 1, 1, 1,
    1, 1, 1, 1, 1, 1, 1, 1, 1, 1, 1, 1, 1, 1, 1, 1, 1, 1, 1, 1, 1, 1, 1, 1,
    1, 1, 1, 1, 1, 1, 1, 1, 1, 1, 1, 1, 1, 1, 1, 1, 1, 1, 1, 1, 1, 1, 1, 1,
    1, 1, 1, 1, 1, 1, 1, 1, 1, 1, 1, 1, 1, 1, 1, 1, 1, 1, 1, 1, 1, 1, 1, 1,
    1, 1, 1, 1, 1, 1, 1, 1, 1, 1, 1, 1, 1, 1, 1, 1, 1, 1, 1, 1, 1, 1, 1, 1,
    1, 1, 1, 1, 1, 1, 1, 1, 1, 1, 1, 1, 1, 1, 1, 1]"

definition yy_meta :: "nat list" where
  "yy_meta = [
    0, 1, 1, 1, 2, 1, 1, 1, 2, 2, 1]"

definition yy_base :: "nat list" where
  "yy_base = [
    0, 0, 0, 20, 27, 27, 27, 0, 6, 27, 27, 9, 0, 14, 27, 12, 5, 0, 4, 27, 10, 24]"

definition yy_def :: "nat list" where
  "yy_def = [
    0, 19, 1, 19, 19, 19, 19, 20, 21, 19, 19, 19, 20, 21, 19, 21, 19, 11, 19, 0, 19, 19]"

definition yy_nxt :: "nat list" where
  "yy_nxt = [
    0, 4, 5, 6, 7, 8, 9, 10, 7, 11, 4, 14, 12, 18, 18, 19, 15, 16, 17, 14, 19, 19, 19, 19,
    15, 13, 13, 3, 19, 19, 19, 19, 19, 19, 19, 19, 19, 19]"

definition yy_chk :: "nat list" where
  "yy_chk = [
    0, 1, 1, 1, 1, 1, 1, 1, 1, 1, 1, 8, 20, 18, 16, 15, 8, 11, 11, 13, 3, 0, 0, 0,
    13, 21, 21, 19, 19, 19, 19, 19, 19, 19, 19, 19, 19, 19]"

section \<open>Atoms\<close>

text \<open>
  \<^verbatim>\<open>Atom\<close> of \<^verbatim>\<open>nasty.h\<close>: an atom of type \<^verbatim>\<open>SR\<close>, \<^verbatim>\<open>ID\<close>, \<^verbatim>\<open>DBL\<close> or \<^verbatim>\<open>INT\<close> has a text, a line and a column, an
  atom of type \<^verbatim>\<open>EX\<close> has an \<^verbatim>\<open>Expr\<close>, the vector of its atoms.
\<close>

datatype atom_type = T_SR | T_ID | T_DBL | T_INT

datatype atom = Atom atom_type string int int | AtomEx "atom list"

section \<open>The matching loop\<close>

text \<open>
  The buffer holds the text of the file, followed by two \<^verbatim>\<open>YY_END_OF_BUFFER_CHAR\<close>. The model has
  the whole text in the buffer: the refill of \<^verbatim>\<open>yy_get_next_buffer\<close> between two blocks of a file moves the
  text of the current token and continues with the same state; \<open>Lexer_Buffer\<close> models it and shows that it cannot be seen.
\<close>

definition buf_at :: "string \<Rightarrow> nat \<Rightarrow> nat exec" where
  "buf_at inp cp = (if cp < length inp then Ret (of_char (inp ! cp))
     else if cp < length inp + 2 then Ret 0 else Undefined)"

definition tab_at :: "'a list \<Rightarrow> nat \<Rightarrow> 'a exec" where
  "tab_at xs i = (if i < length xs then Ret (xs ! i) else Undefined)"

primrec yy_trans_loop :: "nat \<Rightarrow> nat \<Rightarrow> nat \<Rightarrow> nat exec" where
  "yy_trans_loop 0 s c = Diverge"
| "yy_trans_loop (Suc k) s c =
     exec_bind (tab_at yy_base s) (\<lambda>b. exec_bind (tab_at yy_chk (b + c)) (\<lambda>chk.
     if chk \<noteq> s
     then exec_bind (tab_at yy_def s) (\<lambda>s.
          exec_bind (if s \<ge> 20 then tab_at yy_meta c else Ret c) (yy_trans_loop k s))
     else tab_at yy_nxt (b + c)))"

definition yy_trans :: "nat \<Rightarrow> nat \<Rightarrow> nat exec" where
  "yy_trans s c = yy_trans_loop 4 s c"

function yy_match :: "string \<Rightarrow> nat \<Rightarrow> nat \<Rightarrow> nat \<Rightarrow> nat \<Rightarrow> (nat \<times> nat \<times> nat \<times> nat) exec" where
  "yy_match inp s cp las lac =
     exec_bind (buf_at inp cp) (\<lambda>ch. exec_bind (tab_at yy_ec ch) (\<lambda>c.
     exec_bind (tab_at yy_accept s) (\<lambda>a.
     let las' = if a \<noteq> 0 then s else las; lac' = if a \<noteq> 0 then cp else lac in
     exec_bind (yy_trans s c) (\<lambda>s. exec_bind (tab_at yy_base s) (\<lambda>b.
     if b \<noteq> 27 then yy_match inp s (cp + 1) las' lac' else Ret (s, cp + 1, las', lac'))))))"
  by auto
termination
  by (relation "measure (\<lambda>(inp, s, cp, las, lac). length inp + 2 - cp)")
     (auto simp: buf_at_def split: if_splits)

definition yy_find_action :: "nat \<Rightarrow> nat \<Rightarrow> nat \<Rightarrow> nat \<Rightarrow> (nat \<times> nat) exec" where
  "yy_find_action s cp las lac =
     exec_bind (tab_at yy_accept s) (\<lambda>act.
     if act \<noteq> 0 then Ret (act, cp)
     else exec_bind (tab_at yy_accept las) (\<lambda>act. if act = 0 then Diverge else Ret (act, lac)))"

function yy_get_previous_state :: "string \<Rightarrow> nat \<Rightarrow> nat \<Rightarrow> nat \<Rightarrow> nat \<Rightarrow> nat \<Rightarrow> (nat \<times> nat \<times> nat) exec" where
  "yy_get_previous_state inp s cp e las lac =
     (if cp < e then
        exec_bind (buf_at inp cp) (\<lambda>ch. exec_bind (if ch \<noteq> 0 then tab_at yy_ec ch else Ret 1) (\<lambda>c.
        exec_bind (tab_at yy_accept s) (\<lambda>a.
        exec_bind (yy_trans s c) (\<lambda>s'.
        yy_get_previous_state inp s' (cp + 1) e (if a \<noteq> 0 then s else las) (if a \<noteq> 0 then cp else lac)))))
      else Ret (s, las, lac))"
  by auto
termination by (relation "measure (\<lambda>(inp, s, cp, e, las, lac). e - cp)") auto

definition yy_try_NUL_trans :: "nat \<Rightarrow> nat \<Rightarrow> nat \<Rightarrow> nat \<Rightarrow> (nat \<times> nat \<times> nat) exec" where
  "yy_try_NUL_trans s cp las lac =
     exec_bind (tab_at yy_accept s) (\<lambda>a.
     exec_bind (yy_trans s 1) (\<lambda>s'.
     Ret (if s' = 19 then 0 else s', if a \<noteq> 0 then s else las, if a \<noteq> 0 then cp else lac)))"

declare yy_match.simps [simp del] yy_get_previous_state.simps [simp del]

section \<open>One call of the scanner\<close>

text \<open>
  \<open>yy_scan\<close> is the code between the labels \<^verbatim>\<open>yy_match\<close> (the flag is true) or \<^verbatim>\<open>yy_find_action\<close> and the
  action switch, with the \<^verbatim>\<open>YY_END_OF_BUFFER\<close> action, which jumps back to one of the labels; 11 is
  \<^verbatim>\<open>YY_STATE_EOF(INITIAL)\<close>. A jump back has consumed a NUL character or follows the end of the text, so
  the length of the text bounds their number.
\<close>

primrec yy_scan :: "nat \<Rightarrow> string \<Rightarrow> nat \<Rightarrow> bool \<Rightarrow> nat \<Rightarrow> nat \<Rightarrow> nat \<Rightarrow> nat \<Rightarrow> (nat \<times> nat \<times> nat \<times> nat) exec" where
  "yy_scan 0 inp bp m s cp las lac = Diverge"
| "yy_scan (Suc k) inp bp m s cp las lac =
     exec_bind (if m then yy_match inp s cp las lac else Ret (s, cp, las, lac)) (\<lambda>(s, cp, las, lac).
     exec_bind (yy_find_action s cp las lac) (\<lambda>(act, cp).
     if act \<noteq> 10 then Ret (act, cp, las, lac)
     else if cp \<le> length inp
     then exec_bind (yy_get_previous_state inp 1 bp (cp - 1) las lac) (\<lambda>(s, las, lac).
          exec_bind (yy_try_NUL_trans s (cp - 1) las lac) (\<lambda>(s', las, lac).
          if s' \<noteq> 0 then yy_scan k inp bp True s' cp las lac
          else yy_scan k inp bp False s (cp - 1) las lac))
     else if cp - bp = 1 then Ret (11, bp, las, lac)
     else exec_bind (yy_get_previous_state inp 1 bp (length inp) las lac) (\<lambda>(s, las, lac).
          yy_scan k inp bp False s (length inp) las lac)))"

text \<open>
  The token code and the semantic value that the action leaves in \<^verbatim>\<open>yylval\<close>, if it sets it; the
  location is the one the parser passes, which no action changes.
\<close>

record yyguts =
  yy_c_buf_p :: nat
  yy_last_accepting_state :: nat
  yy_last_accepting_cpos :: nat

definition lex_start :: yyguts where
  "lex_start = \<lparr>yy_c_buf_p = 0, yy_last_accepting_state = 0, yy_last_accepting_cpos = 0\<rparr>"

primrec yylex_loop :: "nat \<Rightarrow> string \<Rightarrow> int \<times> int \<Rightarrow> yyguts \<Rightarrow> (int \<times> atom option \<times> yyguts) exec" where
  "yylex_loop 0 inp loc g = Diverge"
| "yylex_loop (Suc k) inp loc g =
     (let bp = yy_c_buf_p g in
      exec_bind (yy_scan (length inp + 3) inp bp True 1 bp (yy_last_accepting_state g) (yy_last_accepting_cpos g))
        (\<lambda>(act, cp, las, lac).
         let g' = \<lparr>yy_c_buf_p = cp, yy_last_accepting_state = las, yy_last_accepting_cpos = lac\<rparr>;
             at = (\<lambda>ty. Some (Atom ty (take (cp - bp) (drop bp inp)) (fst loc) (snd loc)))
         in if act = 1 then Ret (258, None, g')
            else if act = 2 then Ret (259, None, g')
            else if act = 3 then Ret (263, at T_SR, g')
            else if act = 4 then Ret (260, at T_ID, g')
            else if act = 5 then Ret (261, at T_DBL, g')
            else if act = 6 then Ret (262, at T_INT, g')
            else if act = 7 then yylex_loop k inp loc g'
            else if act = 8 \<or> act = 11 then Ret (0, None, g')
            else Fatal))"

definition yylex :: "string \<Rightarrow> int \<times> int \<Rightarrow> yyguts \<Rightarrow> (int \<times> atom option \<times> yyguts) exec" where
  "yylex inp loc g = yylex_loop (length inp + 1) inp loc g"

section \<open>The automaton of the tables\<close>

text \<open>\<open>dfa\<close> is the transition function that the compressed tables encode; 19 is the jam state and 3 the end of the buffer.\<close>

definition dfa :: "nat \<Rightarrow> nat \<Rightarrow> nat" where
  "dfa s c = (if s = 3 then 19 else if c = 0 then 3
     else if s = 1 \<or> s = 2 then [3, 4, 5, 6, 7, 8, 9, 10, 7, 11, 4] ! c
     else if s = 7 \<or> s = 12 then (if c = 4 \<or> c = 8 \<or> c = 9 then 12 else 19)
     else if s = 8 \<or> s = 13 then (if c = 5 then 14 else if c = 10 then 15 else 13)
     else if s = 15 then (if c = 3 then 19 else 13)
     else if s = 11 \<or> s = 17 then (if c = 8 then 16 else if c = 9 then 17 else 19)
     else if s = 16 \<or> s = 18 then (if c = 9 then 18 else 19)
     else 19)"

lemma yy_trans_table:
  "list_all (\<lambda>(s, c). yy_trans s c = Ret (dfa s c) \<and> 1 \<le> dfa s c \<and> dfa s c \<le> 19) (List.product [1..<20] [0..<11])"
  by code_simp

lemma yy_trans_dfa:
  assumes "1 \<le> s" "s \<le> 19" "c \<le> 10"
  shows "yy_trans s c = Ret (dfa s c)" "1 \<le> dfa s c" "dfa s c \<le> 19"
  using yy_trans_table assms by (auto simp: list_all_iff)

text \<open>
  The character classes of \<^verbatim>\<open>nasty.lexer\<close>, on character codes: \<^verbatim>\<open>[a-zA-Z_!@#$%^&*+-/<>:~]\<close>, in which
  \<^verbatim>\<open>+-/\<close> is a range, \<^verbatim>\<open>[0-9]\<close> and \<^verbatim>\<open>[ \t\n]\<close>.
\<close>

definition code_C :: "nat \<Rightarrow> bool" where
  "code_C n \<longleftrightarrow> 97 \<le> n \<and> n \<le> 122 \<or> 65 \<le> n \<and> n \<le> 90 \<or> n \<in> {95, 33, 64, 35, 36, 37, 94, 38, 42}
     \<or> 43 \<le> n \<and> n \<le> 47 \<or> n \<in> {60, 62, 58, 126}"

definition is_C :: "char \<Rightarrow> bool" where
  "is_C c \<longleftrightarrow> code_C (of_char c)"

definition is_D :: "char \<Rightarrow> bool" where
  "is_D c \<longleftrightarrow> 48 \<le> (of_char c :: nat) \<and> (of_char c :: nat) \<le> 57"

definition is_space :: "char \<Rightarrow> bool" where
  "is_space c \<longleftrightarrow> (of_char c :: nat) \<in> {32, 9, 10}"

abbreviation is_CD :: "char \<Rightarrow> bool" where
  "is_CD c \<equiv> is_C c \<or> is_D c"

abbreviation "quote_char \<equiv> CHR 0x22"
abbreviation "slash_char \<equiv> CHR 0x5c"
abbreviation "newline_char \<equiv> CHR 0x0a"

text \<open>The equivalence class of a character.\<close>

definition code_class :: "nat \<Rightarrow> nat" where
  "code_class n = (if n = 10 then 3 else if n = 32 \<or> n = 9 then 2 else if n = 34 then 5
     else if n = 40 then 6 else if n = 41 then 7 else if n = 46 then 8
     else if 48 \<le> n \<and> n \<le> 57 then 9 else if n = 92 then 10 else if code_C n then 4 else 1)"

definition cls :: "char \<Rightarrow> nat" where
  "cls c = code_class (of_char c)"

lemma yy_ec_classes: "yy_ec = map (\<lambda>n. if n = 0 then 0 else code_class n) [0..<256]"
proof -
  have "[0..<256] = 0 # 1 # [2..<256]" by (simp add: upt_conv_Cons numeral_2_eq_2)
  then show ?thesis by (simp add: yy_ec_def code_class_def code_C_def)
qed

lemma of_char_0_iff [simp]: "of_char c = (0::nat) \<longleftrightarrow> c = CHR 0x00"
  using of_char_eq_iff [of c "CHR 0x00", where 'a = nat] by simp

lemma yy_ec_cls: "c \<noteq> CHR 0x00 \<Longrightarrow> tab_at yy_ec (of_char c) = Ret (cls c)"
  unfolding tab_at_def yy_ec_classes cls_def by (simp del: upt_rec_numeral)

lemma cls_range: "1 \<le> cls c" "cls c \<le> 10"
  by (auto simp: cls_def code_class_def)

lemma cls_pos [simp]: "cls c \<noteq> 0" "0 < cls c"
  using cls_range(1) [of c] by auto

section \<open>Longest match\<close>

text \<open>
  \<open>munch\<close> runs the automaton on the rest of the text and remembers the last accepting state, as
  \<^verbatim>\<open>yy_last_accepting_state\<close> and \<^verbatim>\<open>yy_last_accepting_cpos\<close> do; \<open>ends\<close> tells that it reaches the end of the
  text in a state that can go on.
\<close>

definition acc :: "nat \<Rightarrow> nat" where
  "acc s = yy_accept ! s"

definition live :: "nat \<Rightarrow> bool" where
  "live s \<longleftrightarrow> yy_base ! s \<noteq> 27"

fun munch :: "nat \<Rightarrow> string \<Rightarrow> nat \<Rightarrow> nat \<times> nat \<Rightarrow> nat \<times> nat" where
  "munch s [] p ak = (if acc s \<noteq> 0 then (acc s, p) else ak)"
| "munch s (c # r) p ak =
     (let ak' = if acc s \<noteq> 0 then (acc s, p) else ak; s' = dfa s (cls c)
      in if s' = 19 then ak' else munch s' r (p + 1) ak')"

fun ends :: "nat \<Rightarrow> string \<Rightarrow> bool" where
  "ends s [] = True"
| "ends s (c # r) = (let s' = dfa s (cls c) in live s' \<and> ends s' r)"

definition pick :: "nat \<times> nat \<Rightarrow> (nat \<times> nat) exec" where
  "pick ak = (if fst ak = 0 then Diverge else Ret ak)"

lemma tab_states [simp]:
  "s \<le> 19 \<Longrightarrow> tab_at yy_accept s = Ret (acc s)" "s \<le> 19 \<Longrightarrow> tab_at yy_base s = Ret (yy_base ! s)"
  by (auto simp: tab_at_def acc_def yy_accept_def yy_base_def)

lemma acc_simps:
  "acc 0 = 0" "acc 1 = 0" "acc 3 = 10" "acc 4 = 8" "acc 5 = 7" "acc 6 = 7" "acc 7 = 4" "acc 8 = 8" "acc 9 = 1" "acc 10 = 2" "acc 11 = 6"
  "acc 12 = 4" "acc 13 = 0" "acc 14 = 3" "acc 15 = 0" "acc 16 = 5" "acc 17 = 6" "acc 18 = 5" "acc 19 = 0"
  by (simp_all add: acc_def yy_accept_def)

lemma live_iff: "s \<le> 19 \<Longrightarrow> live s \<longleftrightarrow> s \<notin> {4, 5, 6, 9, 10, 14, 19}"
  by (auto simp: live_def yy_base_def nth_Cons' split: if_splits)

lemma dfa_dead: "1 \<le> s \<Longrightarrow> s \<le> 19 \<Longrightarrow> \<not> live s \<Longrightarrow> c \<noteq> 0 \<Longrightarrow> dfa s c = 19"
  by (auto simp: live_iff dfa_def)

lemma dfa_not_3: "s \<noteq> 3 \<Longrightarrow> 1 \<le> c \<Longrightarrow> c \<le> 10 \<Longrightarrow> dfa s c \<noteq> 3"
  by (auto simp: dfa_def nth_Cons' split: if_splits)

lemma buf_at_text: "cp < length inp \<Longrightarrow> buf_at inp cp = Ret (of_char (inp ! cp))"
  by (simp add: buf_at_def)

lemma yy_match_step:
  assumes "1 \<le> s" "s \<le> 19" "cp < length inp" "CHR 0x00 \<notin> set inp"
  shows "yy_match inp s cp las lac =
    (let las' = if acc s \<noteq> 0 then s else las; lac' = if acc s \<noteq> 0 then cp else lac; s' = dfa s (cls (inp ! cp))
     in if live s' then yy_match inp s' (cp + 1) las' lac' else Ret (s', cp + 1, las', lac'))"
proof -
  have "inp ! cp \<noteq> CHR 0x00" using assms(3,4) by (metis nth_mem)
  then show ?thesis
    using assms(1-3) yy_trans_dfa [OF assms(1,2) cls_range(2)]
    by (subst yy_match.simps) (simp add: buf_at_text yy_ec_cls live_def Let_def)
qed

lemma yy_match_at_end:
  assumes "1 \<le> s" "s \<le> 18" "s \<noteq> 3"
  shows "yy_match inp s (length inp) las lac = Ret (19, length inp + 2, 3, length inp + 1)"
proof -
  have ec: "tab_at yy_ec 0 = Ret 0" by (simp add: tab_at_def yy_ec_def)
  have b: "yy_base ! 3 = 20" "yy_base ! 19 = 27" by (simp_all add: yy_base_def)
  have d: "dfa s 0 = 3" "dfa 3 0 = 19" using assms by (auto simp: dfa_def)
  have "yy_match inp 3 (length inp + 1) las' lac' = Ret (19, length inp + 2, 3, length inp + 1)" for las' lac'
    using yy_trans_dfa [of 3 0] d ec b
    by (subst yy_match.simps) (simp add: buf_at_def acc_simps Let_def)
  then show ?thesis using yy_trans_dfa [of s 0] assms d ec b
    by (subst yy_match.simps) (simp add: buf_at_def Let_def)
qed

lemma find_action_pick:
  "s \<le> 19 \<Longrightarrow> las \<le> 19 \<Longrightarrow> yy_find_action s cp las lac = pick (if acc s \<noteq> 0 then (acc s, cp) else (acc las, lac))"
  by (auto simp: yy_find_action_def pick_def)

lemma munch_dead:
  assumes "1 \<le> s" "s \<le> 19" "\<not> live s" "s \<noteq> 19"
  shows "munch s r p ak = (acc s, p)"
proof (cases r)
  case Nil
  with assms show ?thesis by (auto simp: live_iff acc_simps)
next
  case (Cons c r')
  with assms show ?thesis using dfa_dead [OF assms(1-3), of "cls c"] cls_range [of c] by (auto simp: live_iff acc_simps)
qed

lemma yy_match_munch:
  assumes "CHR 0x00 \<notin> set inp" "1 \<le> s" "s \<le> 18" "s \<noteq> 3" "live s" "cp \<le> length inp" "las \<le> 19"
  shows "if ends s (drop cp inp) then yy_match inp s cp las lac = Ret (19, length inp + 2, 3, length inp + 1)
    else \<exists>s' cp' las' lac'. yy_match inp s cp las lac = Ret (s', cp', las', lac') \<and> las' \<le> 19 \<and>
      yy_find_action s' cp' las' lac' = pick (munch s (drop cp inp) cp (acc las, lac))"
  using assms(2-)
proof (induction "length inp - cp" arbitrary: s cp las lac)
  case 0
  then have e: "cp = length inp" by simp
  show ?case unfolding e using yy_match_at_end [of s inp las lac] 0 by simp
next
  case (Suc n)
  then have cp: "cp < length inp" by simp
  define c where "c = inp ! cp"
  define s' where "s' = dfa s (cls c)"
  have dr: "drop cp inp = c # drop (cp + 1) inp" using cp by (simp add: c_def Cons_nth_drop_Suc)
  have s': "1 \<le> s'" "s' \<le> 19" "s' \<noteq> 3"
    using yy_trans_dfa [of s "cls c"] cls_range [of c] Suc.prems dfa_not_3 [of s "cls c"] by (auto simp: s'_def)
  define las' where "las' = (if acc s \<noteq> 0 then s else las)"
  define lac' where "lac' = (if acc s \<noteq> 0 then cp else lac)"
  have las': "las' \<le> 19" using Suc.prems by (auto simp: las'_def)
  have step: "yy_match inp s cp las lac = (if live s' then yy_match inp s' (cp + 1) las' lac' else Ret (s', cp + 1, las', lac'))"
    using yy_match_step [of s cp inp las lac] Suc.prems cp assms(1) by (simp add: s'_def c_def las'_def lac'_def Let_def)
  have mu: "munch s (drop cp inp) cp (acc las, lac) =
      (if s' = 19 then (acc las', lac') else munch s' (drop (cp + 1) inp) (cp + 1) (acc las', lac'))"
    unfolding dr by (simp add: Let_def las'_def lac'_def flip: s'_def)
  have en: "ends s (drop cp inp) \<longleftrightarrow> live s' \<and> ends s' (drop (cp + 1) inp)" unfolding dr by (simp add: Let_def s'_def)
  show ?case
  proof (cases "live s'")
    case True
    then have "s' \<le> 18" "s' \<noteq> 19" "n = length inp - (cp + 1)" using s' Suc.hyps(2) by (auto simp: live_iff)
    then show ?thesis using Suc.hyps(1) [of "cp + 1" s' las' lac'] s' las' cp True
      unfolding step mu en by (simp split: if_splits)
  next
    case False
    then show ?thesis using s' las' munch_dead [OF s'(1,2) False] live_iff [OF s'(2)]
      unfolding step mu en by (auto simp: find_action_pick acc_simps)
  qed
qed

lemma yy_get_previous_munch:
  assumes "CHR 0x00 \<notin> set inp" "1 \<le> s" "s \<le> 18" "s \<noteq> 3" "cp \<le> length inp" "las \<le> 19" "ends s (drop cp inp)"
  shows "\<exists>s' las' lac'. yy_get_previous_state inp s cp (length inp) las lac = Ret (s', las', lac') \<and> las' \<le> 19 \<and>
      yy_find_action s' (length inp) las' lac' = pick (munch s (drop cp inp) cp (acc las, lac))"
  using assms(2-)
proof (induction "length inp - cp" arbitrary: s cp las lac)
  case 0
  then show ?case by (subst yy_get_previous_state.simps) (simp add: find_action_pick)
next
  case (Suc n)
  then have cp: "cp < length inp" by simp
  define c where "c = inp ! cp"
  define s' where "s' = dfa s (cls c)"
  have dr: "drop cp inp = c # drop (cp + 1) inp" using cp by (simp add: c_def Cons_nth_drop_Suc)
  have c0: "c \<noteq> CHR 0x00" using assms(1) cp unfolding c_def by (metis nth_mem)
  have live: "live s'" "ends s' (drop (cp + 1) inp)" using Suc.prems(6) unfolding dr by (simp_all add: Let_def s'_def)
  have s': "1 \<le> s'" "s' \<le> 18" "s' \<noteq> 3"
    using yy_trans_dfa [of s "cls c"] cls_range [of c] Suc.prems dfa_not_3 [of s "cls c"] live_iff [of s'] live
    by (auto simp: s'_def)
  have tr: "yy_trans s (cls c) = Ret s'" using yy_trans_dfa [of s "cls c"] cls_range [of c] Suc.prems by (simp add: s'_def)
  have step: "yy_get_previous_state inp s cp (length inp) las lac =
     yy_get_previous_state inp s' (cp + 1) (length inp) (if acc s \<noteq> 0 then s else las) (if acc s \<noteq> 0 then cp else lac)"
    using cp c0 Suc.prems(2) by (subst yy_get_previous_state.simps) (simp add: buf_at_text yy_ec_cls tr flip: c_def)
  have "munch s (drop cp inp) cp (acc las, lac) =
     munch s' (drop (cp + 1) inp) (cp + 1) (acc (if acc s \<noteq> 0 then s else las), if acc s \<noteq> 0 then cp else lac)"
    using s' unfolding dr by (simp add: Let_def flip: s'_def)
  then show ?case unfolding step
    using Suc.hyps(1) [of "cp + 1" s' "if acc s \<noteq> 0 then s else las" "if acc s \<noteq> 0 then cp else lac"] Suc.hyps(2) Suc.prems s' live cp
    by simp
qed

section \<open>The tokens of \<^verbatim>\<open>nasty.lexer\<close>\<close>

text \<open>
  The rules of \<^verbatim>\<open>nasty.lexer\<close> read as a function: the longest prefix that a rule matches is the next
  token. \<open>str_body\<close> is what follows the opening quote, up to the first quote that is not escaped; an
  escaped newline, a missing quote and every character that no rule knows end the input (\<^verbatim>\<open>. yyterminate();\<close>).
\<close>

datatype tok = LBRACE | RBRACE | TokAtom atom_type string

fun str_body :: "string \<Rightarrow> (string \<times> string) option" where
  "str_body [] = None"
| "str_body (c # r) =
     (if c = quote_char then Some ([c], r)
      else if c = slash_char then
        (case r of [] \<Rightarrow> None
         | d # r' \<Rightarrow> if d = newline_char then None else map_option (\<lambda>(b, t). (c # d # b, t)) (str_body r'))
      else map_option (\<lambda>(b, t). (c # b, t)) (str_body r))"

lemma str_body_Some: "str_body r = Some (b, t) \<Longrightarrow> r = b @ t \<and> b \<noteq> []"
proof (induction r arbitrary: b t rule: str_body.induct)
  case (2 c r)
  consider (quote) "c = quote_char" | (slash) "c \<noteq> quote_char" "c = slash_char"
    | (other) "c \<noteq> quote_char" "c \<noteq> slash_char" by blast
  then show ?case
  proof cases
    case slash
    then obtain d r' where r: "r = d # r'" "d \<noteq> newline_char" using "2.prems" by (cases r) (auto split: if_splits)
    with slash "2.prems" obtain b' where "str_body r' = Some (b', t)" "b = c # d # b'" by (cases "str_body r'") auto
    with "2.IH"(1) [OF slash r] show ?thesis using r by auto
  next
    case other
    with "2.prems" obtain b' where "str_body r = Some (b', t)" "b = c # b'" by (cases "str_body r") auto
    with "2.IH"(2) [OF other] show ?thesis by auto
  qed (use 2 in auto)
qed simp

lemma length_str_body: "str_body r = Some (b, t) \<Longrightarrow> length t < length r"
  using str_body_Some [of r b t] by auto

lemma dropWhile_rest_shorter: "d # r = dropWhile P xs \<Longrightarrow> length r \<le> length xs"
  by (metis Suc_leD length_Cons length_dropWhile_le)

function tokens :: "string \<Rightarrow> tok list" where
  "tokens [] = []"
| "tokens (c # r) =
     (if is_space c then tokens r
      else if c = CHR ''('' then LBRACE # tokens r
      else if c = CHR '')'' then RBRACE # tokens r
      else if is_C c then TokAtom T_ID (c # takeWhile is_CD r) # tokens (dropWhile is_CD r)
      else if is_D c then
        (let ds = takeWhile is_D r; r' = dropWhile is_D r in
         case r' of
           [] \<Rightarrow> [TokAtom T_INT (c # ds)]
         | d # r'' \<Rightarrow>
             if d = CHR ''.''
             then TokAtom T_DBL (c # ds @ d # takeWhile is_D r'') # tokens (dropWhile is_D r'')
             else TokAtom T_INT (c # ds) # tokens r')
      else if c = quote_char then
        (case str_body r of None \<Rightarrow> [] | Some (b, t) \<Rightarrow> TokAtom T_SR (c # b) # tokens t)
      else [])"
  by pat_completeness auto
termination
  by (relation "measure length")
     (auto simp: less_Suc_eq_le length_dropWhile_le dest: length_str_body dropWhile_rest_shorter
       intro: order_trans [OF length_dropWhile_le])

declare tokens.simps [simp del]

section \<open>The scanner recognises the tokens\<close>

text \<open>The loops of the automaton: identifiers (7, 12), digits (11, 17), decimals (16, 18) and strings (13, 15).\<close>

lemma cls_tests:
  "cls c = 9 \<longleftrightarrow> is_D c" "cls c = 8 \<longleftrightarrow> c = CHR ''.''" "cls c = 4 \<or> cls c = 8 \<or> cls c = 9 \<longleftrightarrow> is_CD c"
  "cls c = 5 \<longleftrightarrow> c = quote_char" "cls c = 10 \<longleftrightarrow> c = slash_char" "cls c = 3 \<longleftrightarrow> c = newline_char"
  "cls c = 6 \<longleftrightarrow> c = CHR ''(''" "cls c = 7 \<longleftrightarrow> c = CHR '')''" "cls c = 2 \<or> cls c = 3 \<longleftrightarrow> is_space c"
proof -
  have code: "c = CHR ''.'' \<longleftrightarrow> of_char c = (46::nat)" "c = quote_char \<longleftrightarrow> of_char c = (34::nat)"
    "c = slash_char \<longleftrightarrow> of_char c = (92::nat)" "c = newline_char \<longleftrightarrow> of_char c = (10::nat)"
    "c = CHR ''('' \<longleftrightarrow> of_char c = (40::nat)" "c = CHR '')'' \<longleftrightarrow> of_char c = (41::nat)"
    by (auto simp flip: of_char_eq_iff [where 'a = nat])
  show "cls c = 9 \<longleftrightarrow> is_D c" "cls c = 8 \<longleftrightarrow> c = CHR ''.''" "cls c = 4 \<or> cls c = 8 \<or> cls c = 9 \<longleftrightarrow> is_CD c"
    "cls c = 5 \<longleftrightarrow> c = quote_char" "cls c = 10 \<longleftrightarrow> c = slash_char" "cls c = 3 \<longleftrightarrow> c = newline_char"
    "cls c = 6 \<longleftrightarrow> c = CHR ''(''" "cls c = 7 \<longleftrightarrow> c = CHR '')''" "cls c = 2 \<or> cls c = 3 \<longleftrightarrow> is_space c"
    unfolding code by (auto simp: cls_def code_class_def is_D_def is_C_def is_space_def code_C_def split: if_splits)
qed

lemma dfa_id: "dfa 7 (cls c) = (if is_CD c then 12 else 19)" "dfa 12 (cls c) = (if is_CD c then 12 else 19)"
  using cls_tests(3) [of c] by (auto simp: dfa_def)

lemma dfa_frac: "dfa 16 (cls c) = (if is_D c then 18 else 19)" "dfa 18 (cls c) = (if is_D c then 18 else 19)"
  using cls_tests(1) [of c] by (auto simp: dfa_def)

lemma dfa_int:
  "dfa 11 (cls c) = (if c = CHR ''.'' then 16 else if is_D c then 17 else 19)"
  "dfa 17 (cls c) = (if c = CHR ''.'' then 16 else if is_D c then 17 else 19)"
  using cls_tests(1,2) [of c] by (simp_all add: dfa_def)

lemma munch_id: "munch 12 r p ak = (4, p + length (takeWhile is_CD r))"
  by (induction r arbitrary: p ak) (simp_all add: acc_simps Let_def dfa_id)

lemma munch_id_start: "munch 7 r p ak = (4, p + length (takeWhile is_CD r))"
  by (cases r) (simp_all add: acc_simps Let_def dfa_id munch_id)

lemma munch_frac: "munch 18 r p ak = (5, p + length (takeWhile is_D r))"
  by (induction r arbitrary: p ak) (simp_all add: acc_simps Let_def dfa_frac)

lemma munch_frac_start: "munch 16 r p ak = (5, p + length (takeWhile is_D r))"
  by (cases r) (simp_all add: acc_simps Let_def dfa_frac munch_frac)

lemma not_is_D_dot: "\<not> is_D (CHR ''.'')"
  by (simp add: is_D_def)

lemma munch_int:
  "munch 17 r p ak = (case dropWhile is_D r of
     [] \<Rightarrow> (6, p + length (takeWhile is_D r))
   | d # r' \<Rightarrow> if d = CHR ''.'' then (5, p + length (takeWhile is_D r) + 1 + length (takeWhile is_D r'))
               else (6, p + length (takeWhile is_D r)))"
proof (induction r arbitrary: p ak)
  case (Cons c r)
  show ?case
  proof (cases "c = CHR ''.''")
    case True
    then show ?thesis by (simp add: acc_simps Let_def dfa_int munch_frac_start not_is_D_dot)
  next
    case False
    then show ?thesis using Cons [of "p + 1"]
      by (cases "is_D c"; cases "dropWhile is_D r") (simp_all add: acc_simps Let_def dfa_int del: dropWhile_eq_Nil_conv)
  qed
qed (simp add: acc_simps)

lemma munch_int_start: "munch 11 r p ak = munch 17 r p ak"
  by (cases r) (simp_all add: acc_simps Let_def dfa_int)

lemma munch_str:
  "munch 13 r p ak = (case str_body r of None \<Rightarrow> ak | Some (b, t) \<Rightarrow> (3, p + length b))"
proof (induction r arbitrary: p ak rule: str_body.induct)
  case (2 c r)
  consider (quote) "c = quote_char" | (slash) "c \<noteq> quote_char" "c = slash_char"
    | (other) "c \<noteq> quote_char" "c \<noteq> slash_char" by blast
  then show ?case
  proof cases
    case quote
    then show ?thesis using cls_tests(4) [of c] munch_dead [of 14] by (simp add: acc_simps dfa_def Let_def live_iff)
  next
    case slash
    then have c: "dfa 13 (cls c) = 15" using cls_tests(4,5) [of c] by (simp add: dfa_def)
    show ?thesis
    proof (cases r)
      case Nil
      with c slash show ?thesis by (simp add: acc_simps Let_def)
    next
      case (Cons d r')
      have "dfa 15 (cls d) = (if d = newline_char then 19 else 13)" using cls_tests(6) [of d] cls_range [of d] by (simp add: dfa_def)
      then show ?thesis using c slash Cons "2.IH"(1) [OF slash Cons, of "p + 2" ak]
        by (auto simp: acc_simps Let_def split: option.splits)
    qed
  next
    case other
    then have "dfa 13 (cls c) = 13" using cls_tests(4,5) [of c] cls_range [of c] by (simp add: dfa_def)
    with other show ?thesis using "2.IH"(2) [OF other, of "p + 1" ak] by (auto simp: acc_simps Let_def split: option.splits)
  qed
qed (simp add: acc_simps)

definition tok_act :: "tok \<Rightarrow> nat" where
  "tok_act t = (case t of LBRACE \<Rightarrow> 1 | RBRACE \<Rightarrow> 2
     | TokAtom ty x \<Rightarrow> (case ty of T_SR \<Rightarrow> 3 | T_ID \<Rightarrow> 4 | T_DBL \<Rightarrow> 5 | T_INT \<Rightarrow> 6))"

definition tok_reads :: "tok \<Rightarrow> string \<Rightarrow> bool" where
  "tok_reads t x \<longleftrightarrow> (case t of TokAtom ty y \<Rightarrow> y = x | _ \<Rightarrow> True)"

lemma munch_quote: "munch 8 r p ak = munch 13 r p (8, p)"
  by (cases r) (simp_all add: acc_simps dfa_def Let_def)

lemma dropWhile_drop: "drop (length (takeWhile P xs)) xs = dropWhile P xs"
  by (rule dropWhile_eq_drop [symmetric])

lemma take_takeWhile: "take (length (takeWhile P xs)) xs = takeWhile P xs"
  by (rule takeWhile_eq_take [symmetric])

lemma dfa_start: "dfa 1 1 = 4" "dfa 1 2 = 5" "dfa 1 3 = 6" "dfa 1 4 = 7" "dfa 1 5 = 8" "dfa 1 6 = 9" "dfa 1 7 = 10"
  "dfa 1 8 = 7" "dfa 1 9 = 11" "dfa 1 10 = 4"
  by (simp_all add: dfa_def)

lemma is_C_cls: "is_C c \<longleftrightarrow> cls c = 4 \<or> cls c = 8"
proof -
  have "is_C c \<Longrightarrow> \<not> is_D c" by (auto simp: is_C_def is_D_def code_C_def)
  then show ?thesis using cls_tests(1,3) [of c] by force
qed

lemma start_class:
  "is_space c \<Longrightarrow> dfa 1 (cls c) = 5 \<or> dfa 1 (cls c) = 6" "is_C c \<Longrightarrow> dfa 1 (cls c) = 7" "is_D c \<Longrightarrow> dfa 1 (cls c) = 11"
  using cls_tests(1,9) [of c] is_C_cls [of c] dfa_start by auto

lemma start_class_chars:
  "dfa 1 (cls (CHR ''('')) = 9" "dfa 1 (cls (CHR '')'')) = 10" "dfa 1 (cls quote_char) = 8"
  using cls_tests(7) [of "CHR ''(''"] cls_tests(8) [of "CHR '')''"] cls_tests(4) [of quote_char] dfa_start by auto

lemma start_class_other:
  assumes "\<not> is_space c" "c \<noteq> CHR ''(''" "c \<noteq> CHR '')''" "\<not> is_C c" "\<not> is_D c" "c \<noteq> quote_char"
  shows "dfa 1 (cls c) = 4"
proof -
  have "cls c \<notin> {2, 3, 4, 5, 6, 7, 8, 9}" using assms cls_tests(1,4,7,8,9) [of c] is_C_cls [of c] by auto
  with cls_range [of c] have "cls c = 1 \<or> cls c = 10" by simp presburger
  then show ?thesis using dfa_start by auto
qed

lemma acc_start [simp]: "acc (Suc 0) = 0"
  using acc_simps(2) by simp

definition token_found :: "string \<Rightarrow> nat \<Rightarrow> nat \<Rightarrow> bool" where
  "token_found x a n \<longleftrightarrow> 0 < n \<and> n \<le> length x \<and>
     (a = 7 \<and> tokens x = tokens (drop n x) \<or> a = 8 \<and> tokens x = [] \<or>
      (\<exists>t. a = tok_act t \<and> tokens x = t # tokens (drop n x) \<and> tok_reads t (take n x)))"

lemma token_foundI:
  "tokens x = t # tokens (drop n x) \<Longrightarrow> a = tok_act t \<Longrightarrow> tok_reads t (take n x) \<Longrightarrow> 0 < n \<Longrightarrow> n \<le> length x \<Longrightarrow>
   token_found x a n"
  unfolding token_found_def by blast

lemma number_token:
  assumes "\<not> is_space c" "c \<noteq> CHR ''(''" "c \<noteq> CHR '')''" "\<not> is_C c" "is_D c"
  shows "\<exists>a n. (case dropWhile is_D r of
       [] \<Rightarrow> (6, p + 1 + length (takeWhile is_D r))
     | d # r' \<Rightarrow> if d = CHR ''.'' then (5, p + 1 + length (takeWhile is_D r) + 1 + length (takeWhile is_D r'))
                 else (6, p + 1 + length (takeWhile is_D r))) = (a, p + n) \<and> token_found (c # r) a n"
proof -
  define ds where "ds = takeWhile is_D r"
  have r: "r = ds @ dropWhile is_D r" by (simp add: ds_def)
  show ?thesis
  proof (cases "\<exists>r'. dropWhile is_D r = CHR ''.'' # r'")
    case True
    then obtain r' where r': "dropWhile is_D r = CHR ''.'' # r'" by blast
    let ?n = "Suc (length ds + 1 + length (takeWhile is_D r'))"
    have x: "r = ds @ CHR ''.'' # r'" using r r' by simp
    have tk: "tokens (c # r) = TokAtom T_DBL (c # ds @ CHR ''.'' # takeWhile is_D r') # tokens (dropWhile is_D r')"
      using assms r' by (simp add: tokens.simps(2) Let_def flip: ds_def)
    have dr: "drop ?n (c # r) = dropWhile is_D r'" "take ?n (c # r) = c # ds @ CHR ''.'' # takeWhile is_D r'" "?n \<le> length (c # r)"
      by (simp_all add: x dropWhile_drop take_takeWhile length_takeWhile_le)
    have "token_found (c # r) 5 ?n"
      by (rule token_foundI [OF tk [folded dr(1)]]) (use dr in \<open>simp_all add: tok_act_def tok_reads_def\<close>)
    then show ?thesis using r' by (intro exI [of _ 5] exI [of _ ?n]) (simp add: ds_def)
  next
    case False
    let ?n = "Suc (length ds)"
    have tk: "tokens (c # r) = TokAtom T_INT (c # ds) # tokens (dropWhile is_D r)"
      using assms False
      by (cases "dropWhile is_D r")
         (auto simp: tokens.simps(1) tokens.simps(2) [of c r] Let_def ds_def simp del: dropWhile_eq_Nil_conv)
    have dr: "drop ?n (c # r) = dropWhile is_D r" "take ?n (c # r) = c # ds" "?n \<le> length (c # r)"
      by (simp_all add: ds_def dropWhile_drop take_takeWhile length_takeWhile_le)
    have "token_found (c # r) 6 ?n"
      by (rule token_foundI [OF tk [folded dr(1)]]) (use dr in \<open>simp_all add: tok_act_def tok_reads_def\<close>)
    then show ?thesis using False by (intro exI [of _ 6] exI [of _ ?n]) (auto simp: ds_def split: list.splits)
  qed
qed

lemma string_token:
  assumes "\<not> is_space c" "c \<noteq> CHR ''(''" "c \<noteq> CHR '')''" "\<not> is_C c" "\<not> is_D c" "c = quote_char"
  shows "\<exists>a n. (case str_body r of None \<Rightarrow> (8, p + 1) | Some (b, t) \<Rightarrow> (3, p + 1 + length b)) = (a, p + n) \<and>
    token_found (c # r) a n"
proof (cases "str_body r")
  case None
  then have "tokens (c # r) = []" using assms by (simp add: tokens.simps)
  with None show ?thesis by (intro exI [of _ 8] exI [of _ 1]) (simp add: token_found_def)
next
  case (Some bt)
  then obtain b t where bt: "str_body r = Some (b, t)" by (cases bt) auto
  have r: "r = b @ t" using str_body_Some [OF bt] by simp
  have tk: "tokens (c # r) = TokAtom T_SR (c # b) # tokens t" using assms bt by (simp add: tokens.simps)
  have "token_found (c # r) 3 (Suc (length b))"
    by (rule token_foundI [where t = "TokAtom T_SR (c # b)"]) (use tk r in \<open>simp_all add: tok_act_def tok_reads_def\<close>)
  then show ?thesis using bt by (intro exI [of _ 3] exI [of _ "Suc (length b)"]) simp
qed

lemma munch_token:
  "\<exists>a n. munch 1 (c # r) p ak = (a, p + n) \<and> token_found (c # r) a n"
proof -
  have "dfa 1 (cls c) \<noteq> 19" using start_class start_class_chars start_class_other [of c] by fastforce
  then have m: "munch 1 (c # r) p ak = munch (dfa 1 (cls c)) r (p + 1) ak"
    by (simp add: Let_def)
  consider (space) "is_space c" | (l) "\<not> is_space c" "c = CHR ''(''" | (r) "\<not> is_space c" "c = CHR '')''"
    | (ident) "\<not> is_space c" "c \<noteq> CHR ''(''" "c \<noteq> CHR '')''" "is_C c"
    | (num) "\<not> is_space c" "c \<noteq> CHR ''(''" "c \<noteq> CHR '')''" "\<not> is_C c" "is_D c"
    | (str) "\<not> is_space c" "c \<noteq> CHR ''(''" "c \<noteq> CHR '')''" "\<not> is_C c" "\<not> is_D c" "c = quote_char"
    | (other) "\<not> is_space c" "c \<noteq> CHR ''(''" "c \<noteq> CHR '')''" "\<not> is_C c" "\<not> is_D c" "c \<noteq> quote_char" by blast
  then show ?thesis
  proof cases
    case space
    then show ?thesis unfolding m using start_class(1) [OF space]
      by (intro exI [of _ 7] exI [of _ 1]) (auto simp: munch_dead live_iff acc_simps tokens.simps token_found_def)
  next
    case l
    then show ?thesis unfolding m
      by (intro exI [of _ 1] exI [of _ 1])
         (auto simp: start_class_chars [unfolded One_nat_def] munch_dead live_iff acc_simps tokens.simps tok_act_def tok_reads_def token_found_def)
  next
    case r
    then show ?thesis unfolding m
      by (intro exI [of _ 2] exI [of _ 1])
         (auto simp: start_class_chars [unfolded One_nat_def] munch_dead live_iff acc_simps tokens.simps tok_act_def tok_reads_def token_found_def)
  next
    case ident
    then show ?thesis unfolding m start_class(2) [OF ident(4)] munch_id_start
      by (intro exI [of _ 4] exI [of _ "Suc (length (takeWhile is_CD r))"])
         (auto simp: token_found_def tokens.simps tok_act_def tok_reads_def dropWhile_drop take_takeWhile length_takeWhile_le)
  next
    case num
    then show ?thesis unfolding m start_class(3) [OF num(5)] munch_int_start munch_int by (rule number_token)
  next
    case str
    have "munch 1 (c # r) p ak = (case str_body r of None \<Rightarrow> (8, p + 1) | Some (b, t) \<Rightarrow> (3, p + 1 + length b))"
      unfolding m unfolding str(6) start_class_chars munch_quote munch_str ..
    then show ?thesis using string_token [OF str, of p r] by simp
  next
    case other
    then show ?thesis unfolding m start_class_other [OF other]
      by (intro exI [of _ 8] exI [of _ 1]) (auto simp: munch_dead live_iff acc_simps tokens.simps token_found_def)
  qed
qed

lemma length_tokens: "length (tokens x) \<le> length x"
proof (induction x rule: length_induct)
  case (1 x)
  show ?case
  proof (cases x)
    case (Cons c r)
    obtain a n where n: "token_found (c # r) a n" using munch_token by blast
    then have "length (drop n x) < length x" using Cons by (auto simp: token_found_def)
    then have "length (tokens (drop n x)) \<le> length (drop n x)" using 1 by blast
    with n Cons show ?thesis unfolding token_found_def by (elim conjE disjE exE) auto
  qed (simp add: tokens.simps)
qed

lemma tok_act_range: "tok_act t \<noteq> 0" "tok_act t \<noteq> 10" "tok_act t \<noteq> 11"
  by (cases t; simp add: tok_act_def split: atom_type.splits)+

lemma token_found_act: "token_found x a n \<Longrightarrow> a \<noteq> 0 \<and> a \<noteq> 10 \<and> a \<noteq> 11"
  unfolding token_found_def using tok_act_range by (elim conjE disjE exE) simp_all

lemma yy_scan_token:
  assumes "CHR 0x00 \<notin> set inp" "bp < length inp" "las \<le> 19"
  shows "\<exists>a n las' lac'. yy_scan (Suc (Suc k)) inp bp True 1 bp las lac = Ret (a, bp + n, las', lac') \<and> las' \<le> 19 \<and>
     token_found (drop bp inp) a n"
proof -
  obtain c r where dr: "drop bp inp = c # r" using assms(2) by (cases "drop bp inp") auto
  obtain a n where m: "munch 1 (drop bp inp) bp (acc las, lac) = (a, bp + n)" "token_found (drop bp inp) a n"
    using munch_token [of c r bp "(acc las, lac)"] unfolding dr by blast
  have a: "a \<noteq> 0" "a \<noteq> 10" using token_found_act [OF m(2)] by auto
  have live: "live 1" by (simp add: live_iff)
  show ?thesis
  proof (cases "ends 1 (drop bp inp)")
    case False
    then obtain s' cp' las' lac' where "yy_match inp 1 bp las lac = Ret (s', cp', las', lac')" "las' \<le> 19"
      "yy_find_action s' cp' las' lac' = Ret (a, bp + n)"
      using yy_match_munch [OF assms(1), of 1 bp las lac] assms live m a by (auto simp: pick_def)
    then show ?thesis using m a by auto
  next
    case True
    obtain s' las' lac' where p: "yy_get_previous_state inp 1 bp (length inp) 3 (length inp + 1) = Ret (s', las', lac')" "las' \<le> 19"
      "yy_find_action s' (length inp) las' lac' = pick (munch 1 (drop bp inp) bp (acc 3, length inp + 1))"
      using yy_get_previous_munch [OF assms(1) _ _ _ _ _ True, of 3 "length inp + 1"] assms(2) by auto
    obtain a' n' where m': "munch 1 (drop bp inp) bp (acc 3, length inp + 1) = (a', bp + n')" "token_found (drop bp inp) a' n'"
      using munch_token [of c r bp "(acc 3, length inp + 1)"] unfolding dr by blast
    then have f: "yy_find_action s' (length inp) las' lac' = Ret (a', bp + n')" "a' \<noteq> 10"
      using p(3) token_found_act [OF m'(2)] by (auto simp: pick_def)
    have "yy_match inp 1 bp las lac = Ret (19, length inp + 2, 3, length inp + 1)"
      using yy_match_munch [OF assms(1), of 1 bp las lac] assms live True by simp
    moreover have "yy_find_action 19 (length inp + 2) 3 (length inp + 1) = Ret (10, length inp + 1)"
      by (simp add: find_action_pick acc_simps pick_def)
    moreover have "Suc (length inp) - bp \<noteq> Suc 0" using assms(2) by simp
    ultimately show ?thesis using p(1,2) f m'(2) by simp
  qed
qed

lemma yy_scan_end:
  assumes "las \<le> 19"
  shows "yy_scan (Suc k) inp (length inp) True 1 (length inp) las lac = Ret (11, length inp, 3, length inp + 1)"
proof -
  have "yy_find_action 19 (length inp + 2) 3 (length inp + 1) = Ret (10, length inp + 1)"
    by (simp add: find_action_pick acc_simps pick_def)
  then show ?thesis using yy_match_at_end [of 1 inp las lac] by simp
qed

text \<open>What the parser sees of a token: its code and the new atom.\<close>

definition tok_code :: "tok \<Rightarrow> int" where
  "tok_code t = (case t of LBRACE \<Rightarrow> 258 | RBRACE \<Rightarrow> 259
     | TokAtom ty x \<Rightarrow> (case ty of T_SR \<Rightarrow> 263 | T_ID \<Rightarrow> 260 | T_DBL \<Rightarrow> 261 | T_INT \<Rightarrow> 262))"

definition tok_lval :: "int \<times> int \<Rightarrow> tok \<Rightarrow> atom option" where
  "tok_lval loc t = (case t of TokAtom ty x \<Rightarrow> Some (Atom ty x (fst loc) (snd loc)) | _ \<Rightarrow> None)"

definition lex_inv :: "string \<Rightarrow> yyguts \<Rightarrow> bool" where
  "lex_inv inp g \<longleftrightarrow> yy_c_buf_p g \<le> length inp \<and> yy_last_accepting_state g \<le> 19"

definition rest_tokens :: "string \<Rightarrow> yyguts \<Rightarrow> tok list" where
  "rest_tokens inp g = tokens (drop (yy_c_buf_p g) inp)"

definition lex_step :: "string \<Rightarrow> int \<times> int \<Rightarrow> yyguts \<Rightarrow> int \<times> atom option \<times> yyguts \<Rightarrow> bool" where
  "lex_step inp loc g r = (case r of (code, lval, g') \<Rightarrow> lex_inv inp g' \<and>
     (case rest_tokens inp g of
        [] \<Rightarrow> code = 0 \<and> lval = None
      | t # ts \<Rightarrow> code = tok_code t \<and> lval = tok_lval loc t \<and> rest_tokens inp g' = ts))"

lemma yylex_loop_step:
  assumes "CHR 0x00 \<notin> set inp" "lex_inv inp g" "length inp - yy_c_buf_p g < k"
  shows "returns (yylex_loop k inp loc g) (lex_step inp loc g)"
  using assms(2,3)
proof (induction k arbitrary: g)
  case (Suc k)
  let ?bp = "yy_c_buf_p g"
  have las: "yy_last_accepting_state g \<le> 19" and bp: "?bp \<le> length inp" using Suc.prems(1) by (simp_all add: lex_inv_def)
  show ?case
  proof (cases "?bp = length inp")
    case True
    have f: "length inp + 3 = Suc (length inp + 2)" by simp
    show ?thesis
      unfolding yylex_loop.simps Let_def True f yy_scan_end [OF las] using True
      by (simp add: lex_step_def lex_inv_def rest_tokens_def tokens.simps)
  next
    case False
    then have lt: "?bp < length inp" using bp by simp
    have f: "length inp + 3 = Suc (Suc (length inp + 1))" by simp
    obtain a n las' lac' where sc: "yy_scan (length inp + 3) inp ?bp True 1 ?bp (yy_last_accepting_state g) (yy_last_accepting_cpos g)
        = Ret (a, ?bp + n, las', lac')" "las' \<le> 19" "token_found (drop ?bp inp) a n"
      using yy_scan_token [OF assms(1) lt las, of "length inp + 1"] unfolding f by blast
    let ?g' = "\<lparr>yy_c_buf_p = ?bp + n, yy_last_accepting_state = las', yy_last_accepting_cpos = lac'\<rparr>"
    have n: "0 < n" "?bp + n \<le> length inp" using sc(3) lt by (auto simp: token_found_def)
    have g': "lex_inv inp ?g'" "rest_tokens inp ?g' = tokens (drop n (drop ?bp inp))"
      using n sc(2) by (auto simp: lex_inv_def rest_tokens_def add.commute)
    consider (skip) "a = 7" "rest_tokens inp g = rest_tokens inp ?g'" | (stop) "a = 8" "rest_tokens inp g = []"
      | (tok) t where "a = tok_act t" "rest_tokens inp g = t # rest_tokens inp ?g'" "tok_reads t (take n (drop ?bp inp))"
    proof -
      have "rest_tokens inp g = tokens (drop ?bp inp)" by (simp add: rest_tokens_def)
      with sc(3) [unfolded token_found_def] g'(2) show thesis
        by (elim conjE disjE exE) (rule that; simp)+
    qed
    then show ?thesis
    proof cases
      case skip
      have "returns (yylex_loop k inp loc ?g') (lex_step inp loc ?g')"
        using Suc.prems(2) n by (intro Suc.IH g') simp
      moreover have "lex_step inp loc g = lex_step inp loc ?g'" using skip(2) by (simp add: fun_eq_iff lex_step_def)
      ultimately show ?thesis using skip(1) sc(1) by (simp add: Let_def)
    next
      case stop
      with sc(1) g' show ?thesis by (simp add: Let_def lex_step_def)
    next
      case (tok t)
      with sc(1) g' show ?thesis
        by (cases t; cases "case t of TokAtom ty x \<Rightarrow> ty | _ \<Rightarrow> T_ID")
           (auto simp: Let_def lex_step_def tok_act_def tok_code_def tok_lval_def tok_reads_def)
    qed
  qed
qed simp

lemma yylex_steps: "CHR 0x00 \<notin> set inp \<Longrightarrow> lex_inv inp g \<Longrightarrow> returns (yylex inp loc g) (lex_step inp loc g)"
  unfolding yylex_def by (intro yylex_loop_step) auto

text \<open>
  C16. The generated tables recognise the language of \<^verbatim>\<open>nasty.lexer\<close>: on a text without NUL characters, every
  call of \<^verbatim>\<open>yylex\<close> returns without leaving the buffer or a table, with the code and the atom of the next
  token of the text, or with 0 at the end of the input and at the first character that no rule matches.
\<close>

theorem yylex_correct:
  assumes "CHR 0x00 \<notin> set inp" "lex_inv inp g"
  shows "returns (yylex inp loc g) (lex_step inp loc g)"
  using assms by (rule yylex_steps)

theorem yylex_correct_witness: "returns (yylex ''(a 1)'' (1, 1) lex_start) (lex_step ''(a 1)'' (1, 1) lex_start)"
  by (rule yylex_correct) (simp_all add: lex_inv_def lex_start_def)

end
