(* ===== verification/Nasty_Parser.thy ===== *)
theory Nasty_Parser
  imports Nasty_Lexer
begin

text \<open>
  The parser of \<^verbatim>\<open>nasty\<close>: the tables that bison generated from \<^verbatim>\<open>nasty.parser\<close> and the automaton of
  \<^verbatim>\<open>yyparse\<close> in \<^verbatim>\<open>nasty.y.cc\<close>, and the proof that they implement the grammar of \<^verbatim>\<open>nasty.parser\<close>. The scanner is
  an interface, the locale \<open>token_source\<close>, which the scanner of \<open>Nasty_Lexer\<close> implements.
\<close>

section \<open>Tables\<close>

definition yytranslate :: "int list" where
  "yytranslate = [
    0, 2, 2, 2, 2, 2, 2, 2, 2, 2, 2, 2, 2, 2, 2, 2, 2, 2, 2, 2, 2, 2, 2, 2, 2, 2,
    2, 2, 2, 2, 2, 2, 2, 2, 2, 2, 2, 2, 2, 2, 2, 2, 2, 2, 2, 2, 2, 2, 2, 2, 2, 2,
    2, 2, 2, 2, 2, 2, 2, 2, 2, 2, 2, 2, 2, 2, 2, 2, 2, 2, 2, 2, 2, 2, 2, 2, 2, 2,
    2, 2, 2, 2, 2, 2, 2, 2, 2, 2, 2, 2, 2, 2, 2, 2, 2, 2, 2, 2, 2, 2, 2, 2, 2, 2,
    2, 2, 2, 2, 2, 2, 2, 2, 2, 2, 2, 2, 2, 2, 2, 2, 2, 2, 2, 2, 2, 2, 2, 2, 2, 2,
    2, 2, 2, 2, 2, 2, 2, 2, 2, 2, 2, 2, 2, 2, 2, 2, 2, 2, 2, 2, 2, 2, 2, 2, 2, 2,
    2, 2, 2, 2, 2, 2, 2, 2, 2, 2, 2, 2, 2, 2, 2, 2, 2, 2, 2, 2, 2, 2, 2, 2, 2, 2,
    2, 2, 2, 2, 2, 2, 2, 2, 2, 2, 2, 2, 2, 2, 2, 2, 2, 2, 2, 2, 2, 2, 2, 2, 2, 2,
    2, 2, 2, 2, 2, 2, 2, 2, 2, 2, 2, 2, 2, 2, 2, 2, 2, 2, 2, 2, 2, 2, 2, 2, 2, 2,
    2, 2, 2, 2, 2, 2, 2, 2, 2, 2, 2, 2, 2, 2, 2, 2, 2, 2, 2, 2, 2, 2, 1, 2, 3, 4,
    5, 6, 7, 8]"

definition yyr1 :: "int list" where
  "yyr1 = [
    0, 9, 10, 11, 11, 12, 12, 12, 12, 12]"

definition yyr2 :: "int list" where
  "yyr2 = [
    0, 2, 1, 2, 1, 3, 1, 1, 1, 1]"

definition yydefact :: "int list" where
  "yydefact = [
    0, 0, 6, 7, 8, 9, 0, 2, 4, 0, 1, 3, 5]"

definition yydefgoto :: "int list" where
  "yydefgoto = [
    - 1, 6, 7, 8]"

definition yypact :: "int list" where
  "yypact = [
    3, 3, - 4, - 4, - 4, - 4, 7, 3, - 4, - 3, - 4, - 4, - 4]"

definition yypgoto :: "int list" where
  "yypgoto = [
    - 4, - 4, 12, 5]"

definition yytable :: "int list" where
  "yytable = [
    1, 12, 2, 3, 4, 5, 1, 10, 2, 3, 4, 5, 11, 9, 11]"

definition yycheck :: "int list" where
  "yycheck = [
    3, 4, 5, 6, 7, 8, 3, 0, 5, 6, 7, 8, 7, 1, 9]"

section \<open>The automaton\<close>

text \<open>
  \<^verbatim>\<open>YYSTYPE\<close> is a union: a slot holds an atom, an expression or nothing that was ever stored, and
  reading another member is undefined. The stacks have their top first. \<^verbatim>\<open>yyerror\<close> calls
  \<^verbatim>\<open>SPERM_FATAL\<close>, which aborts: the code of \<^verbatim>\<open>yyparse\<close> for error recovery is never reached. The
  arguments \<open>mal\<close> and \<open>nxt\<close> are \<^verbatim>\<open>malloc\<close> for a stack of the given size and the scanner.
\<close>

datatype yystype = Garbage | VAtom atom | VExpr "atom list"

record 's yyparser =
  yyss :: "int list"
  yyvs :: "yystype list"
  yystacksize :: nat
  yychar :: int
  yylval :: yystype
  scanner :: 's
  parser_ex :: "atom list option"

type_synonym 's yyout = "('s yyparser + int \<times> atom list option) exec"

definition YYTRANSLATE :: "int \<Rightarrow> int exec" where
  "YYTRANSLATE c = (if 0 \<le> c \<and> c \<le> 263 then vec_at yytranslate c else Ret 2)"

definition get_expr :: "yystype \<Rightarrow> atom list exec" where
  "get_expr v = (case v of VExpr e \<Rightarrow> Ret e | _ \<Rightarrow> Undefined)"

definition get_atom :: "yystype \<Rightarrow> atom exec" where
  "get_atom v = (case v of VAtom a \<Rightarrow> Ret a | _ \<Rightarrow> Undefined)"

text \<open>The label \<^verbatim>\<open>yynewstate\<close>: the new state is pushed, full stacks are doubled up to \<^verbatim>\<open>YYMAXDEPTH\<close>, state 10 accepts.\<close>

definition yynewstate :: "(nat \<Rightarrow> bool) \<Rightarrow> 's yyparser \<Rightarrow> int \<Rightarrow> 's yyout" where
  "yynewstate mal p yystate =
     (let p = p\<lparr>yyss := yystate # yyss p\<rparr>; yyssp = length (yyss p) - 1
      in exec_bind
        (if yystacksize p - 1 \<le> yyssp
         then if 10000 \<le> yystacksize p then Fatal
              else let n = min (2 * yystacksize p) 10000
                   in if mal n then Ret (p\<lparr>yystacksize := n\<rparr>) else Fatal
         else Ret p)
        (\<lambda>p. if yystacksize p - 1 \<le> yyssp then Ret (Inr (1, parser_ex p))
             else if yystate = 10 then Ret (Inr (0, parser_ex p))
             else Ret (Inl p)))"

text \<open>The actions of \<^verbatim>\<open>nasty.parser\<close>: the new value of \<^verbatim>\<open>$$\<close>, which starts as \<^verbatim>\<open>$1\<close>, and of the result of the parser.\<close>

definition yyaction :: "int \<Rightarrow> yystype list \<Rightarrow> atom list option \<Rightarrow> (yystype \<times> atom list option) exec" where
  "yyaction yyn vs ex =
     (if yyn = 2 then exec_bind (vec_at vs 0) (\<lambda>v. exec_bind (get_expr v) (\<lambda>e. Ret (v, Some e)))
      else if yyn = 3 then
        exec_bind (vec_at vs 1) (\<lambda>v. exec_bind (get_expr v) (\<lambda>e.
        exec_bind (vec_at vs 0) (\<lambda>v. exec_bind (get_atom v) (\<lambda>a. Ret (VExpr (e @ [a]), ex)))))
      else if yyn = 4 then exec_bind (vec_at vs 0) (\<lambda>v. exec_bind (get_atom v) (\<lambda>a. Ret (VExpr [a], ex)))
      else if yyn = 5 then exec_bind (vec_at vs 1) (\<lambda>v. exec_bind (get_expr v) (\<lambda>e. Ret (VAtom (AtomEx e), ex)))
      else if 6 \<le> yyn \<and> yyn \<le> 9 then exec_bind (vec_at vs 0) (\<lambda>v. exec_bind (get_atom v) (\<lambda>a. Ret (VAtom a, ex)))
      else exec_bind (vec_at yyr2 yyn) (\<lambda>yylen. exec_bind (vec_at vs (yylen - 1)) (\<lambda>v. Ret (v, ex))))"

definition yyreduce :: "(nat \<Rightarrow> bool) \<Rightarrow> 's yyparser \<Rightarrow> int \<Rightarrow> 's yyout" where
  "yyreduce mal p yyn =
     exec_bind (vec_at yyr2 yyn) (\<lambda>yylen.
     exec_bind (yyaction yyn (yyvs p) (parser_ex p)) (\<lambda>(yyval, ex).
     let p = p\<lparr>yyss := drop (nat yylen) (yyss p), yyvs := yyval # drop (nat yylen) (yyvs p), parser_ex := ex\<rparr>
     in exec_bind (vec_at (yyss p) 0) (\<lambda>top.
        exec_bind (vec_at yyr1 yyn) (\<lambda>lhs.
        exec_bind (vec_at yypgoto (lhs - 9)) (\<lambda>g.
        let yystate = g + top
        in exec_bind
             (if 0 \<le> yystate \<and> yystate \<le> 14
              then exec_bind (vec_at yycheck yystate) (\<lambda>k.
                   if k = top then vec_at yytable yystate else vec_at yydefgoto (lhs - 9))
              else vec_at yydefgoto (lhs - 9))
             (yynewstate mal p))))))"

definition yydefault :: "(nat \<Rightarrow> bool) \<Rightarrow> 's yyparser \<Rightarrow> int \<Rightarrow> 's yyout" where
  "yydefault mal p yystate =
     exec_bind (vec_at yydefact yystate) (\<lambda>yyn. if yyn = 0 then Fatal else yyreduce mal p yyn)"

text \<open>One turn of the automaton, from the label \<^verbatim>\<open>yybackup\<close> on.\<close>

definition yylookahead :: "('s \<Rightarrow> (int \<times> atom option \<times> 's) exec) \<Rightarrow> 's yyparser \<Rightarrow> 's yyparser exec" where
  "yylookahead nxt p =
     (if yychar p = - 2
      then exec_bind (nxt (scanner p)) (\<lambda>(code, lval, s).
        Ret (p\<lparr>yychar := code, scanner := s, yylval := (case lval of None \<Rightarrow> yylval p | Some a \<Rightarrow> VAtom a)\<rparr>))
      else Ret p)"

definition yybackup :: "(nat \<Rightarrow> bool) \<Rightarrow> ('s \<Rightarrow> (int \<times> atom option \<times> 's) exec) \<Rightarrow> 's yyparser \<Rightarrow> 's yyout" where
  "yybackup mal nxt p =
     exec_bind (vec_at (yyss p) 0) (\<lambda>yystate.
     exec_bind (vec_at yypact yystate) (\<lambda>yyn.
     if yyn = - 4 then yydefault mal p yystate
     else exec_bind (yylookahead nxt p) (\<lambda>p.
          exec_bind (if yychar p \<le> 0 then Ret (p\<lparr>yychar := 0\<rparr>, 0)
                     else exec_bind (YYTRANSLATE (yychar p)) (\<lambda>t. Ret (p, t))) (\<lambda>(p, yytoken).
          let yyn = yyn + yytoken
          in if yyn < 0 \<or> 14 < yyn then yydefault mal p yystate
             else exec_bind (vec_at yycheck yyn) (\<lambda>k.
               if k \<noteq> yytoken then yydefault mal p yystate
               else exec_bind (vec_at yytable yyn) (\<lambda>yyn.
                 if yyn \<le> 0 then yyreduce mal p (- yyn)
                 else yynewstate mal (p\<lparr>yychar := - 2, yyvs := yylval p # yyvs p\<rparr>) yyn))))))"

primrec yyrun :: "nat \<Rightarrow> (nat \<Rightarrow> bool) \<Rightarrow> ('s \<Rightarrow> (int \<times> atom option \<times> 's) exec) \<Rightarrow> 's yyparser \<Rightarrow> (int \<times> atom list option) exec" where
  "yyrun 0 mal nxt p = Diverge"
| "yyrun (Suc k) mal nxt p =
     exec_bind (yybackup mal nxt p) (\<lambda>r. case r of Inl p \<Rightarrow> yyrun k mal nxt p | Inr res \<Rightarrow> Ret res)"

definition yystart :: "'s \<Rightarrow> 's yyparser" where
  "yystart s = \<lparr>yyss = [0], yyvs = [Garbage], yystacksize = 200, yychar = - 2, yylval = Garbage, scanner = s, parser_ex = None\<rparr>"

definition yyparse :: "nat \<Rightarrow> (nat \<Rightarrow> bool) \<Rightarrow> ('s \<Rightarrow> (int \<times> atom option \<times> 's) exec) \<Rightarrow> 's \<Rightarrow> (int \<times> atom list option) exec" where
  "yyparse fuel mal nxt s = yyrun fuel mal nxt (yystart s)"

section \<open>The moves of the automaton\<close>

lemmas yy_tables = yypact_def yycheck_def yytable_def yydefact_def yyr1_def yyr2_def yypgoto_def yydefgoto_def

lemma YYTRANSLATE_tok:
  "YYTRANSLATE 258 = Ret 3" "YYTRANSLATE 259 = Ret 4" "YYTRANSLATE 260 = Ret 5" "YYTRANSLATE 261 = Ret 6"
  "YYTRANSLATE 262 = Ret 7" "YYTRANSLATE 263 = Ret 8"
  by (simp_all add: YYTRANSLATE_def yytranslate_def vec_at_def)

text \<open>The states before an atom: 0 and 1 at the start of a list, 7 and 9 behind its atoms, outside and inside parentheses.\<close>

definition inner_state :: "int \<Rightarrow> bool" where
  "inner_state st \<longleftrightarrow> st = 0 \<or> st = 1 \<or> st = 7 \<or> st = 9"

definition shift_state :: "tok \<Rightarrow> int" where
  "shift_state t = (case t of LBRACE \<Rightarrow> 1 | RBRACE \<Rightarrow> 12
     | TokAtom ty x \<Rightarrow> (case ty of T_ID \<Rightarrow> 2 | T_DBL \<Rightarrow> 3 | T_INT \<Rightarrow> 4 | T_SR \<Rightarrow> 5))"

definition atom_goto :: "int \<Rightarrow> int" where
  "atom_goto st = (if st = 0 \<or> st = 1 then 8 else 11)"

definition read_val :: "int \<times> int \<Rightarrow> tok \<Rightarrow> yystype \<Rightarrow> yystype" where
  "read_val loc t v = (case tok_lval loc t of None \<Rightarrow> v | Some a \<Rightarrow> VAtom a)"

lemma shift_move:
  assumes "yyss p = st # ss" "inner_state st" "yychar p = - 2" "t = RBRACE \<longrightarrow> st = 9"
    and "nxt (scanner p) = Ret (tok_code t, tok_lval loc t, s)"
  shows "yybackup mal nxt p = yynewstate mal
     (p\<lparr>scanner := s, yylval := read_val loc t (yylval p), yychar := - 2, yyvs := read_val loc t (yylval p) # yyvs p\<rparr>) (shift_state t)"
proof -
  have code: "tok_code t \<noteq> - 2" "\<not> tok_code t \<le> 0" by (auto simp: tok_code_def split: tok.splits atom_type.splits)
  show ?thesis using assms(2,4) unfolding inner_state_def yybackup_def yylookahead_def assms(1,3,5)
    by (elim disjE; cases t; (cases "case t of TokAtom ty x \<Rightarrow> ty | _ \<Rightarrow> T_ID")?)
       (simp_all add: tok_code_def shift_state_def read_val_def tok_lval_def YYTRANSLATE_tok vec_at_def yy_tables Let_def)
qed

lemma reduce_token:
  assumes "yyss p = k # st # ss" "2 \<le> k" "k \<le> 5" "inner_state st" "yyvs p = VAtom a # vs"
  shows "yybackup mal nxt p = yynewstate mal (p\<lparr>yyss := st # ss, yyvs := VAtom a # vs\<rparr>) (atom_goto st)"
proof -
  have k: "k = 2 \<or> k = 3 \<or> k = 4 \<or> k = 5" using assms(2,3) by auto
  show ?thesis using assms(4) k unfolding inner_state_def yybackup_def assms(1)
    by (elim disjE) (simp_all add: vec_at_def yy_tables Let_def yydefault_def yyreduce_def yyaction_def get_atom_def assms(1,5) atom_goto_def)
qed

lemma reduce_paren:
  assumes "yyss p = 12 # 9 # 1 # st # ss" "inner_state st" "yyvs p = u # VExpr e # v # vs"
  shows "yybackup mal nxt p = yynewstate mal (p\<lparr>yyss := st # ss, yyvs := VAtom (AtomEx e) # vs\<rparr>) (atom_goto st)"
  using assms(2) unfolding inner_state_def yybackup_def assms(1)
  by (elim disjE) (simp_all add: vec_at_def yy_tables Let_def yydefault_def yyreduce_def yyaction_def get_expr_def assms(1,3) atom_goto_def)

lemma reduce_first:
  assumes "yyss p = 8 # st # ss" "st = 0 \<or> st = 1" "yyvs p = VAtom a # vs"
  shows "yybackup mal nxt p = yynewstate mal (p\<lparr>yyss := st # ss, yyvs := VExpr [a] # vs\<rparr>) (if st = 0 then 7 else 9)"
  using assms(2) unfolding yybackup_def assms(1)
  by (elim disjE) (simp_all add: vec_at_def yy_tables Let_def yydefault_def yyreduce_def yyaction_def get_atom_def assms(1,3))

lemma reduce_next:
  assumes "yyss p = 11 # st' # st # ss" "st = 0 \<and> st' = 7 \<or> st = 1 \<and> st' = 9" "yyvs p = VAtom a # VExpr e # vs"
  shows "yybackup mal nxt p = yynewstate mal (p\<lparr>yyss := st # ss, yyvs := VExpr (e @ [a]) # vs\<rparr>) st'"
  using assms(2) unfolding yybackup_def assms(1)
  by (elim disjE) (simp_all add: vec_at_def yy_tables Let_def yydefault_def yyreduce_def yyaction_def get_atom_def get_expr_def assms(1,3))

text \<open>A right parenthesis or the end of the input where the grammar does not allow it.\<close>

lemma error_move:
  assumes "yyss p = st # ss" "yychar p = - 2" "nxt (scanner p) = Ret (c, l, s)"
    and "(st = 0 \<or> st = 1) \<and> (c = 0 \<or> c = 259) \<or> st = 9 \<and> c = 0"
  shows "yybackup mal nxt p = Fatal"
  using assms(4) unfolding yybackup_def yylookahead_def assms(1-3)
  by (elim disjE conjE) (simp_all add: YYTRANSLATE_tok vec_at_def yy_tables Let_def yydefault_def)

text \<open>At the end of the outermost list the program is reduced, whatever follows; only the end of the input is then accepted.\<close>

lemma yychar_scanner_commute: "p\<lparr>scanner := s, yychar := c\<rparr> = p\<lparr>yychar := c, scanner := s\<rparr>"
  by simp

lemma program_move:
  assumes "yyss p = [7, 0]" "yychar p = - 2" "nxt (scanner p) = Ret (c, None, s)" "c = 0 \<or> c = 259" "yyvs p = [VExpr e, v]"
  shows "yybackup mal nxt p = yynewstate mal
    (p\<lparr>scanner := s, yylval := yylval p, yychar := c, yyss := [0], yyvs := [VExpr e, v], parser_ex := Some e\<rparr>) 6"
  using assms(4) unfolding yybackup_def yylookahead_def assms(1-3)
  by (elim disjE)
     (simp_all add: assms(1,5) yychar_scanner_commute YYTRANSLATE_tok vec_at_def yy_tables Let_def yydefault_def yyreduce_def yyaction_def get_expr_def)

lemma final_move:
  assumes "yyss p = [6, 0]"
  shows "yychar p = 0 \<Longrightarrow> yybackup mal nxt p = yynewstate mal (p\<lparr>yychar := - 2, yyvs := yylval p # yyvs p\<rparr>) 10"
    and "yychar p = 259 \<Longrightarrow> yybackup mal nxt p = Fatal"
  unfolding yybackup_def yylookahead_def assms
  by (simp_all add: YYTRANSLATE_tok vec_at_def yy_tables Let_def yydefault_def)

section \<open>The stacks\<close>

definition stack_inv :: "'s yyparser \<Rightarrow> bool" where
  "stack_inv p \<longleftrightarrow> 200 \<le> yystacksize p \<and> yystacksize p \<le> 10000 \<and> length (yyss p) < yystacksize p"

definition exhausted :: "(nat \<Rightarrow> bool) \<Rightarrow> nat \<Rightarrow> bool" where
  "exhausted mal n \<longleftrightarrow> n \<ge> 10000 \<or> (\<exists>k. \<not> mal k)"

lemma yynewstate_cases:
  assumes "stack_inv (p\<lparr>yyss := sp\<rparr>)" "length (yyss p) \<le> length sp"
  obtains (ok) n where "yynewstate mal p st = Ret (if st = 10 then Inr (0, parser_ex p)
        else Inl (p\<lparr>yyss := st # yyss p, yystacksize := n\<rparr>))" "stack_inv (p\<lparr>yyss := st # yyss p, yystacksize := n\<rparr>)"
  | (full) "yynewstate mal p st = Fatal" "exhausted mal (length (yyss p) + 1)"
proof -
  let ?L = "length (yyss p)" and ?z = "yystacksize p"
  have z: "200 \<le> ?z" "?z \<le> 10000" "?L < ?z" using assms by (auto simp: stack_inv_def)
  consider (fits) "?L + 1 < ?z" | (max) "?L + 1 = ?z" "?z = 10000" | (grow) "?L + 1 = ?z" "?z < 10000" using z by linarith
  then show thesis
  proof cases
    case fits
    then show thesis using z by (intro ok [of ?z]) (auto simp: yynewstate_def Let_def stack_inv_def)
  next
    case max
    then show thesis by (intro full) (auto simp: yynewstate_def Let_def exhausted_def)
  next
    case grow
    let ?n = "min (2 * ?z) 10000"
    show thesis
    proof (cases "mal ?n")
      case True
      have "?L + 1 < ?n" using grow z by auto
      then show thesis using True grow z by (intro ok [of ?n]) (auto simp: yynewstate_def Let_def stack_inv_def)
    next
      case False
      then show thesis using grow by (intro full) (auto simp: yynewstate_def Let_def exhausted_def)
    qed
  qed
qed

text \<open>
  Between two tokens the stacks describe the open lists, the innermost first: its atoms so far, if
  there are any, are an expression on the stack.
\<close>

inductive open_lists :: "int list \<Rightarrow> yystype list \<Rightarrow> atom list list \<Rightarrow> bool" where
  outer_empty: "open_lists [0] [v] [[]]"
| outer: "f \<noteq> [] \<Longrightarrow> open_lists [7, 0] [VExpr f, v] [f]"
| inner_empty: "open_lists ss vs fs \<Longrightarrow> open_lists (1 # ss) (v # vs) ([] # fs)"
| inner: "open_lists ss vs fs \<Longrightarrow> f \<noteq> [] \<Longrightarrow> open_lists (9 # 1 # ss) (VExpr f # v # vs) (f # fs)"

lemma open_lists_depth: "open_lists ss vs fs \<Longrightarrow> length ss \<le> 2 * length fs"
  by (induction rule: open_lists.induct) auto

lemma open_lists_top:
  assumes "open_lists ss vs fs"
  obtains st ss' f fs' where "ss = st # ss'" "inner_state st" "fs = f # fs'" "f = [] \<longleftrightarrow> st = 0 \<or> st = 1" "st = 9 \<longleftrightarrow> f \<noteq> [] \<and> fs' \<noteq> []"
  using assms by (cases rule: open_lists.cases) (auto simp: inner_state_def elim: open_lists.cases)

text \<open>The list structure that a token sequence opens and closes, the abstract view of the automaton.\<close>

fun push_tok :: "int \<times> int \<Rightarrow> tok \<Rightarrow> atom list list \<Rightarrow> atom list list option" where
  "push_tok loc LBRACE fs = Some ([] # fs)"
| "push_tok loc RBRACE (f # g # fs) = (if f = [] then None else Some ((g @ [AtomEx f]) # fs))"
| "push_tok loc (TokAtom ty x) (f # fs) = Some ((f @ [Atom ty x (fst loc) (snd loc)]) # fs)"
| "push_tok loc t fs = None"

fun build :: "int \<times> int \<Rightarrow> tok list \<Rightarrow> atom list list \<Rightarrow> atom list option" where
  "build loc [] fs = (case fs of [f] \<Rightarrow> if f = [] then None else Some f | _ \<Rightarrow> None)"
| "build loc (t # ts) fs = (case push_tok loc t fs of None \<Rightarrow> None | Some fs' \<Rightarrow> build loc ts fs')"

text \<open>The greatest number of open lists while the tokens are read.\<close>

fun nesting :: "tok list \<Rightarrow> nat \<Rightarrow> nat" where
  "nesting [] n = n"
| "nesting (t # ts) n = max n (nesting ts (case t of LBRACE \<Rightarrow> n + 1 | RBRACE \<Rightarrow> n - 1 | _ \<Rightarrow> n))"

section \<open>Runs of the automaton\<close>

lemma yyrun_mono: "yyrun k mal nxt p = r \<Longrightarrow> r \<noteq> Diverge \<Longrightarrow> yyrun (k + m) mal nxt p = r"
proof (induction k arbitrary: p)
  case (Suc k)
  show ?case
  proof (cases "yybackup mal nxt p")
    case (Ret x)
    with Suc show ?thesis by (cases x) auto
  qed (use Suc in auto)
qed simp

text \<open>
  \<open>leads K p Q\<close>: within \<open>K\<close> turns the automaton is in a state with \<open>Q\<close>, or it has run out of stack,
  which happens only if \<open>bad\<close> holds.
\<close>

definition leads :: "(nat \<Rightarrow> bool) \<Rightarrow> ('s \<Rightarrow> (int \<times> atom option \<times> 's) exec) \<Rightarrow> bool \<Rightarrow> nat \<Rightarrow> 's yyparser \<Rightarrow> ('s yyparser \<Rightarrow> bool) \<Rightarrow> bool" where
  "leads mal nxt bad K p Q \<longleftrightarrow> (\<exists>k\<le>K. (\<exists>q. Q q \<and> (\<forall>n. yyrun (k + n) mal nxt p = yyrun n mal nxt q))
      \<or> bad \<and> (\<forall>n. yyrun (k + n) mal nxt p = Fatal))"

lemma leads_here: "Q p \<Longrightarrow> leads mal nxt bad 0 p Q"
  by (auto simp: leads_def)

lemma leads_mono: "leads mal nxt bad K p Q \<Longrightarrow> (\<And>q. Q q \<Longrightarrow> R q) \<Longrightarrow> leads mal nxt bad K p R"
  unfolding leads_def by blast

lemma leads_trans:
  assumes "leads mal nxt bad K p Q" "\<And>q. Q q \<Longrightarrow> leads mal nxt bad L q R"
  shows "leads mal nxt bad (K + L) p R"
proof -
  obtain k where k: "k \<le> K" "(\<exists>q. Q q \<and> (\<forall>n. yyrun (k + n) mal nxt p = yyrun n mal nxt q)) \<or> bad \<and> (\<forall>n. yyrun (k + n) mal nxt p = Fatal)"
    using assms(1) unfolding leads_def by blast
  from k(2) show ?thesis
  proof
    assume "\<exists>q. Q q \<and> (\<forall>n. yyrun (k + n) mal nxt p = yyrun n mal nxt q)"
    then obtain q where q: "Q q" "\<And>n. yyrun (k + n) mal nxt p = yyrun n mal nxt q" by blast
    obtain l where l: "l \<le> L" "(\<exists>q'. R q' \<and> (\<forall>n. yyrun (l + n) mal nxt q = yyrun n mal nxt q')) \<or> bad \<and> (\<forall>n. yyrun (l + n) mal nxt q = Fatal)"
      using assms(2) [OF q(1)] unfolding leads_def by blast
    have "yyrun (k + l + n) mal nxt p = yyrun (l + n) mal nxt q" for n using q(2) [of "l + n"] by (simp add: add.assoc)
    with l k(1) show ?thesis unfolding leads_def by (intro exI [of _ "k + l"]) auto
  next
    assume "bad \<and> (\<forall>n. yyrun (k + n) mal nxt p = Fatal)"
    with k(1) show ?thesis unfolding leads_def by (intro exI [of _ k]) auto
  qed
qed

lemma leads_move:
  assumes "yybackup mal nxt p = yynewstate mal q st" "st \<noteq> 10" "stack_inv (q\<lparr>yyss := sp\<rparr>)" "length (yyss q) \<le> length sp"
    and "exhausted mal (length (yyss q) + 1) \<Longrightarrow> bad"
  shows "leads mal nxt bad 1 p (\<lambda>q'. \<exists>n. q' = q\<lparr>yyss := st # yyss q, yystacksize := n\<rparr> \<and> stack_inv q')"
  using assms(3,4)
proof (cases rule: yynewstate_cases [where mal = mal and st = st])
  case (ok n)
  then show ?thesis using assms(1,2) unfolding leads_def by (intro exI [of _ 1]) auto
next
  case full
  then show ?thesis using assms(1,5) unfolding leads_def by (intro exI [of _ 1]) auto
qed

definition between :: "('s \<Rightarrow> bool) \<Rightarrow> 's yyparser \<Rightarrow> atom list list \<Rightarrow> bool" where
  "between ok p fs \<longleftrightarrow> open_lists (yyss p) (yyvs p) fs \<and> stack_inv p \<and> yychar p = - 2 \<and> ok (scanner p)"

definition too_deep :: "(nat \<Rightarrow> bool) \<Rightarrow> nat \<Rightarrow> bool" where
  "too_deep mal n \<longleftrightarrow> 4999 \<le> n \<or> (\<exists>k. \<not> mal k)"

lemma exhausted_too_deep: "exhausted mal (m + 1) \<Longrightarrow> m \<le> 2 * n + 1 \<Longrightarrow> too_deep mal n"
  by (auto simp: exhausted_def too_deep_def)

lemma stack_inv_upd [simp]:
  "stack_inv (p\<lparr>yyvs := a\<rparr>) = stack_inv p" "stack_inv (p\<lparr>scanner := b\<rparr>) = stack_inv p" "stack_inv (p\<lparr>yychar := c\<rparr>) = stack_inv p"
  "stack_inv (p\<lparr>yylval := d\<rparr>) = stack_inv p" "stack_inv (p\<lparr>parser_ex := e\<rparr>) = stack_inv p"
  by (simp_all add: stack_inv_def)

lemma stack_inv_same: "stack_inv p \<Longrightarrow> yyss q = ss \<Longrightarrow> yystacksize q = yystacksize p \<Longrightarrow> ss = yyss p \<Longrightarrow> stack_inv q"
  by (simp add: stack_inv_def)

text \<open>A completed atom joins the innermost open list.\<close>

lemma atom_joins:
  assumes "yyss p = atom_goto (hd ss) # ss" "yyvs p = VAtom a # vs" "open_lists ss vs (f # fs)"
    and "stack_inv p" "yychar p = - 2" "ok (scanner p)"
  shows "leads mal nxt (too_deep mal (length (f # fs))) 1 p (\<lambda>q. between ok q ((f @ [a]) # fs) \<and> scanner q = scanner p)"
proof -
  obtain st st' ss' vs' where mv: "yybackup mal nxt p = yynewstate mal (p\<lparr>yyss := st # ss', yyvs := VExpr (f @ [a]) # vs'\<rparr>) st'"
    "st' \<noteq> 10" "open_lists (st' # st # ss') (VExpr (f @ [a]) # vs') ((f @ [a]) # fs)" "length (st # ss') \<le> length ss"
    using assms(3)
  proof cases
    case (outer_empty v)
    then show ?thesis using reduce_first [of p 0 "[]" a vs mal nxt] assms(1,2)
      by (intro that [where st = 0 and st' = 7 and ss' = "[]" and vs' = vs]) (auto simp: atom_goto_def intro: open_lists.outer)
  next
    case (outer v)
    then show ?thesis using reduce_next [of p 7 0 "[]" a f "[v]" mal nxt] assms(1,2)
      by (intro that [where st = 0 and st' = 7 and ss' = "[]" and vs' = "[v]"]) (auto simp: atom_goto_def intro: open_lists.outer)
  next
    case (inner_empty ss1 vs1 v)
    then show ?thesis using reduce_first [of p 1 ss1 a vs mal nxt] assms(1,2)
      by (intro that [where st = 1 and st' = 9 and ss' = ss1 and vs' = vs]) (auto simp: atom_goto_def intro: open_lists.inner)
  next
    case (inner ss1 vs1 v)
    then show ?thesis using reduce_next [of p 9 1 ss1 a f "v # vs1" mal nxt] assms(1,2)
      by (intro that [where st = 1 and st' = 9 and ss' = ss1 and vs' = "v # vs1"]) (auto simp: atom_goto_def intro: open_lists.inner)
  qed
  have "length ss \<le> 2 * length (f # fs)" using open_lists_depth [OF assms(3)] .
  with mv(4) have "leads mal nxt (too_deep mal (length (f # fs))) 1 p (\<lambda>q'. \<exists>n. q' = p\<lparr>yyss := st # ss', yyvs := VExpr (f @ [a]) # vs'\<rparr>
      \<lparr>yyss := st' # yyss (p\<lparr>yyss := st # ss', yyvs := VExpr (f @ [a]) # vs'\<rparr>), yystacksize := n\<rparr> \<and> stack_inv q')"
    using assms(1,4) by (intro leads_move [OF mv(1,2), where sp = "yyss p"]) (auto intro: exhausted_too_deep simp: stack_inv_def)
  then show ?thesis by (rule leads_mono) (use mv(3) assms(5,6) in \<open>auto simp: between_def\<close>)
qed

lemma leads_weaken: "leads mal nxt bad K p Q \<Longrightarrow> K \<le> L \<Longrightarrow> (bad \<Longrightarrow> bad') \<Longrightarrow> leads mal nxt bad' L p Q"
  unfolding leads_def by (meson le_trans)

lemma too_deep_mono: "too_deep mal m \<Longrightarrow> m \<le> n \<Longrightarrow> too_deep mal n"
  by (auto simp: too_deep_def)

lemma atom_done:
  assumes "yybackup mal nxt p = yynewstate mal (p\<lparr>yyss := ss, yyvs := VAtom a # vs\<rparr>) (atom_goto (hd ss))"
    and "open_lists ss vs (f # fs)" "stack_inv p" "length ss \<le> length (yyss p)" "yychar p = - 2" "ok (scanner p)"
  shows "leads mal nxt (too_deep mal (length (f # fs))) 2 p (\<lambda>q. between ok q ((f @ [a]) # fs) \<and> scanner q = scanner p)"
proof -
  let ?q = "p\<lparr>yyss := ss, yyvs := VAtom a # vs\<rparr>" and ?bad = "too_deep mal (length (f # fs))"
  have "leads mal nxt ?bad 1 p (\<lambda>q'. \<exists>n. q' = ?q\<lparr>yyss := atom_goto (hd ss) # yyss ?q, yystacksize := n\<rparr> \<and> stack_inv q')"
    using assms open_lists_depth [OF assms(2)]
    by (intro leads_move [where sp = "yyss p"]) (auto simp: atom_goto_def stack_inv_def intro: exhausted_too_deep)
  then have "leads mal nxt ?bad (1 + 1) p (\<lambda>q. between ok q ((f @ [a]) # fs) \<and> scanner q = scanner p)"
  proof (rule leads_trans)
    fix q assume "\<exists>n. q = ?q\<lparr>yyss := atom_goto (hd ss) # yyss ?q, yystacksize := n\<rparr> \<and> stack_inv q"
    then obtain n where q: "q = ?q\<lparr>yyss := atom_goto (hd ss) # yyss ?q, yystacksize := n\<rparr>" "stack_inv q" by blast
    have "leads mal nxt ?bad 1 q (\<lambda>r. between ok r ((f @ [a]) # fs) \<and> scanner r = scanner q)"
      using q assms by (intro atom_joins [where ss = ss and vs = vs]) auto
    then show "leads mal nxt ?bad 1 q (\<lambda>r. between ok r ((f @ [a]) # fs) \<and> scanner r = scanner p)" using q(1) by simp
  qed
  then show ?thesis by (rule leads_weaken) auto
qed

section \<open>The parser over a source of tokens\<close>

text \<open>
  What a run may end with: the expression of the tokens, or an abort, if they have none or if the
  stack is exhausted.
\<close>

definition verdict :: "atom list option \<Rightarrow> bool \<Rightarrow> (int \<times> atom list option) exec \<Rightarrow> bool" where
  "verdict b bad r \<longleftrightarrow> (case b of None \<Rightarrow> r = Fatal | Some e \<Rightarrow> r = Ret (0, Some e) \<or> bad \<and> r = Fatal)"

lemma verdict_mono: "verdict b bad r \<Longrightarrow> (bad \<Longrightarrow> bad') \<Longrightarrow> verdict b bad' r"
  by (auto simp: verdict_def split: option.splits)

lemma verdict_Fatal: "bad \<Longrightarrow> verdict b bad Fatal"
  by (simp add: verdict_def split: option.splits)

lemma verdict_run: "verdict b bad (yyrun k mal nxt p) \<Longrightarrow> k \<le> n \<Longrightarrow> verdict b bad (yyrun n mal nxt p)"
  using yyrun_mono [of k mal nxt p "yyrun k mal nxt p" "n - k"] by (auto simp: verdict_def split: option.splits)

text \<open>
  What \<^verbatim>\<open>yyparse\<close> relies on: \<^verbatim>\<open>yylex\<close> yields the tokens of the input one by one, with their codes and
  atoms, and then 0. Nothing is assumed of a call after the end.
\<close>

locale token_source =
  fixes nxt :: "'s \<Rightarrow> (int \<times> atom option \<times> 's) exec" and toks :: "'s \<Rightarrow> tok list" and ok :: "'s \<Rightarrow> bool" and loc :: "int \<times> int"
  assumes next_token: "ok s \<Longrightarrow> toks s = t # ts \<Longrightarrow> \<exists>s'. nxt s = Ret (tok_code t, tok_lval loc t, s') \<and> ok s' \<and> toks s' = ts"
    and no_token: "ok s \<Longrightarrow> toks s = [] \<Longrightarrow> \<exists>s'. nxt s = Ret (0, None, s')"
begin

lemma token_move:
  assumes "between ok p fs" "toks (scanner p) = t # ts" "t = RBRACE \<longrightarrow> hd (yyss p) = 9" "fs \<noteq> []"
  shows "leads mal nxt (too_deep mal (length fs)) 1 p (\<lambda>q. yyss q = shift_state t # yyss p \<and>
     yyvs q = read_val loc t (yylval p) # yyvs p \<and> stack_inv q \<and> yychar q = - 2 \<and> ok (scanner q) \<and> toks (scanner q) = ts)"
proof -
  obtain s where s: "nxt (scanner p) = Ret (tok_code t, tok_lval loc t, s)" "ok s" "toks s = ts"
    using next_token [of "scanner p" t ts] assms(1,2) by (auto simp: between_def)
  obtain st ss where st: "yyss p = st # ss" "inner_state st" using assms(1) open_lists_top [of "yyss p" "yyvs p" fs] unfolding between_def by metis
  have ch: "yychar p = - 2" and inv: "stack_inv p" and d: "length (yyss p) \<le> 2 * length fs"
    using assms(1) open_lists_depth by (auto simp: between_def)
  let ?q = "p\<lparr>scanner := s, yylval := read_val loc t (yylval p), yychar := - 2, yyvs := read_val loc t (yylval p) # yyvs p\<rparr>"
  have mv: "yybackup mal nxt p = yynewstate mal ?q (shift_state t)"
    using shift_move [where p = p and loc = loc and t = t and nxt = nxt] st ch s(1) assms(3) by simp
  have "shift_state t \<noteq> 10" by (auto simp: shift_state_def split: tok.splits atom_type.splits)
  with mv have "leads mal nxt (too_deep mal (length fs)) 1 p (\<lambda>q'. \<exists>n. q' = ?q\<lparr>yyss := shift_state t # yyss ?q, yystacksize := n\<rparr> \<and> stack_inv q')"
    using inv d by (intro leads_move [where sp = "yyss p"]) (auto intro: exhausted_too_deep)
  then show ?thesis by (rule leads_mono) (use s in auto)
qed

lemma read_token:
  assumes "between ok p fs" "toks (scanner p) = t # ts" "push_tok loc t fs = Some fs'"
  shows "leads mal nxt (too_deep mal (length fs)) 3 p (\<lambda>q. between ok q fs' \<and> toks (scanner q) = ts)"
proof -
  let ?bad = "too_deep mal (length fs)"
  have ol: "open_lists (yyss p) (yyvs p) fs" using assms(1) by (simp add: between_def)
  obtain st ss f fs1 where top: "yyss p = st # ss" "inner_state st" "fs = f # fs1" "st = 9 \<longleftrightarrow> f \<noteq> [] \<and> fs1 \<noteq> []"
    using open_lists_top [OF ol] by metis
  have len: "length (yyss p) \<le> 2 * length fs" using open_lists_depth [OF ol] .
  have mv: "leads mal nxt ?bad 1 p (\<lambda>q. yyss q = shift_state t # yyss p \<and> yyvs q = read_val loc t (yylval p) # yyvs p \<and>
     stack_inv q \<and> yychar q = - 2 \<and> ok (scanner q) \<and> toks (scanner q) = ts)"
  proof (intro token_move)
    show "t = RBRACE \<longrightarrow> hd (yyss p) = 9" using assms(3) top by (cases fs1) (auto split: if_splits)
  qed (use assms top in auto)
  show ?thesis
  proof (cases t)
    case LBRACE
    have "leads mal nxt ?bad (1 + 0) p (\<lambda>q. between ok q fs' \<and> toks (scanner q) = ts)"
      by (rule leads_trans [OF mv], rule leads_here)
         (use assms(3) LBRACE ol in \<open>auto simp: between_def shift_state_def intro: open_lists.inner_empty\<close>)
    then show ?thesis by (rule leads_weaken) auto
  next
    case RBRACE
    then obtain g fs2 where fs: "fs = f # g # fs2" "f \<noteq> []" "fs' = (g @ [AtomEx f]) # fs2"
      using assms(3) top(3) by (cases fs1) (auto split: if_splits)
    from ol [unfolded fs(1)] fs(2) obtain ss1 v vs1 where o1: "yyss p = 9 # 1 # ss1" "yyvs p = VExpr f # v # vs1" "open_lists ss1 vs1 (g # fs2)"
      by (cases rule: open_lists.cases) auto
    obtain st1 ss2 where s1: "ss1 = st1 # ss2" "inner_state st1" using open_lists_top [OF o1(3)] by metis
    have "leads mal nxt ?bad (1 + 2) p (\<lambda>q. between ok q fs' \<and> toks (scanner q) = ts)"
    proof (rule leads_trans [OF mv])
      fix q assume q: "yyss q = shift_state t # yyss p \<and> yyvs q = read_val loc t (yylval p) # yyvs p \<and>
         stack_inv q \<and> yychar q = - 2 \<and> ok (scanner q) \<and> toks (scanner q) = ts"
      have "yybackup mal nxt q = yynewstate mal (q\<lparr>yyss := ss1, yyvs := VAtom (AtomEx f) # vs1\<rparr>) (atom_goto (hd ss1))"
        using reduce_paren [of q st1 ss2] q o1 s1 RBRACE by (simp add: shift_state_def)
      then have "leads mal nxt (too_deep mal (length (g # fs2))) 2 q (\<lambda>r. between ok r ((g @ [AtomEx f]) # fs2) \<and> scanner r = scanner q)"
        using q o1 by (intro atom_done) auto
      then have "leads mal nxt ?bad 2 q (\<lambda>r. between ok r ((g @ [AtomEx f]) # fs2) \<and> scanner r = scanner q)"
        by (rule leads_weaken) (auto simp: fs intro: too_deep_mono)
      then show "leads mal nxt ?bad 2 q (\<lambda>q. between ok q fs' \<and> toks (scanner q) = ts)"
        by (rule leads_mono) (use q fs in auto)
    qed
    then show ?thesis by (rule leads_weaken) auto
  next
    case (TokAtom ty x)
    let ?a = "Atom ty x (fst loc) (snd loc)"
    have "leads mal nxt ?bad (1 + 2) p (\<lambda>q. between ok q fs' \<and> toks (scanner q) = ts)"
    proof (rule leads_trans [OF mv])
      fix q assume q: "yyss q = shift_state t # yyss p \<and> yyvs q = read_val loc t (yylval p) # yyvs p \<and>
         stack_inv q \<and> yychar q = - 2 \<and> ok (scanner q) \<and> toks (scanner q) = ts"
      have "2 \<le> shift_state t \<and> shift_state t \<le> 5" "read_val loc t (yylval p) = VAtom ?a"
        using TokAtom by (auto simp: shift_state_def read_val_def tok_lval_def split: atom_type.splits)
      then have "yybackup mal nxt q = yynewstate mal (q\<lparr>yyss := yyss p, yyvs := VAtom ?a # yyvs p\<rparr>) (atom_goto (hd (yyss p)))"
        using reduce_token [of q "shift_state t" st ss] q top by simp
      then have "leads mal nxt (too_deep mal (length (f # fs1))) 2 q (\<lambda>r. between ok r ((f @ [?a]) # fs1) \<and> scanner r = scanner q)"
        using q ol top(3) by (intro atom_done) auto
      then show "leads mal nxt ?bad 2 q (\<lambda>q. between ok q fs' \<and> toks (scanner q) = ts)"
        unfolding top(3) by (rule leads_mono) (use q assms(3) TokAtom top(3) in auto)
    qed
    then show ?thesis by (rule leads_weaken) auto
  qed
qed

lemma outermost_reduced:
  assumes "between ok p [f]" "f \<noteq> []" "nxt (scanner p) = Ret (c, None, s)" "c = 0 \<or> c = 259"
  shows "leads mal nxt (too_deep mal 1) 1 p (\<lambda>q. yyss q = [6, 0] \<and> yychar q = c \<and> stack_inv q \<and> parser_ex q = Some f)"
proof -
  have "open_lists (yyss p) (yyvs p) [f]" using assms(1) by (simp add: between_def)
  then obtain v where p: "yyss p = [7, 0]" "yyvs p = [VExpr f, v]" using assms(2) by cases (auto elim: open_lists.cases)
  have ch: "yychar p = - 2" "stack_inv p" using assms(1) by (simp_all add: between_def)
  let ?q = "p\<lparr>scanner := s, yylval := yylval p, yychar := c, yyss := [0], yyvs := [VExpr f, v], parser_ex := Some f\<rparr>"
  have "leads mal nxt (too_deep mal 1) 1 p (\<lambda>q'. \<exists>n. q' = ?q\<lparr>yyss := 6 # yyss ?q, yystacksize := n\<rparr> \<and> stack_inv q')"
    using program_move [of p nxt c s f v mal] p ch assms(3,4)
    by (intro leads_move [where sp = "[0]"]) (auto simp: exhausted_def too_deep_def stack_inv_def)
  then show ?thesis by (rule leads_mono) auto
qed

lemma leads_result:
  assumes "leads mal nxt bad K p Q" "\<And>q. Q q \<Longrightarrow> yyrun 1 mal nxt q = r" "r \<noteq> Diverge"
  shows "yyrun (K + 1) mal nxt p = r \<or> bad \<and> yyrun (K + 1) mal nxt p = Fatal"
proof -
  obtain k where k: "k \<le> K" "(\<exists>q. Q q \<and> (\<forall>n. yyrun (k + n) mal nxt p = yyrun n mal nxt q)) \<or> bad \<and> (\<forall>n. yyrun (k + n) mal nxt p = Fatal)"
    using assms(1) unfolding leads_def by blast
  then have "yyrun (k + 1) mal nxt p = r \<or> bad \<and> yyrun (k + 1) mal nxt p = Fatal" using assms(2) by metis
  moreover have "K + 1 = k + 1 + (K - k)" using k(1) by simp
  ultimately show ?thesis using yyrun_mono [of "k + 1" mal nxt p r "K - k"] yyrun_mono [of "k + 1" mal nxt p Fatal "K - k"] assms(3) by auto
qed

lemma read_end:
  assumes "between ok p fs" "toks (scanner p) = []"
  shows "verdict (build loc [] fs) (too_deep mal (length fs)) (yyrun 2 mal nxt p)"
proof -
  obtain s where s: "nxt (scanner p) = Ret (0, None, s)" using no_token assms by (auto simp: between_def)
  have ol: "open_lists (yyss p) (yyvs p) fs" and ch: "yychar p = - 2" using assms(1) by (simp_all add: between_def)
  obtain st ss f fs1 where top: "yyss p = st # ss" "inner_state st" "fs = f # fs1" "f = [] \<longleftrightarrow> st = 0 \<or> st = 1" "st = 9 \<longleftrightarrow> f \<noteq> [] \<and> fs1 \<noteq> []"
    using open_lists_top [OF ol] by metis
  show ?thesis
  proof (cases "f \<noteq> [] \<and> fs1 = []")
    case True
    have fin: "yyrun 1 mal nxt q = Ret (0, Some f)"
      if "yyss q = [6, 0] \<and> yychar q = 0 \<and> stack_inv q \<and> parser_ex q = Some f" for q
    proof -
      have "\<not> yystacksize q - 1 \<le> 2" using that by (auto simp: stack_inv_def)
      with that final_move(1) [of q mal nxt] show ?thesis by (simp add: yynewstate_def Let_def)
    qed
    have "leads mal nxt (too_deep mal 1) 1 p (\<lambda>q. yyss q = [6, 0] \<and> yychar q = 0 \<and> stack_inv q \<and> parser_ex q = Some f)"
      using True top(3) assms(1) s by (intro outermost_reduced) auto
    from leads_result [OF this fin] show ?thesis using True top(3) by (simp add: verdict_def numeral_2_eq_2)
  next
    case False
    then have "yybackup mal nxt p = Fatal" using top ch s by (intro error_move [where p = p and nxt = nxt]) (auto simp: inner_state_def)
    moreover have "build loc [] fs = None" using False top(3) by (auto split: list.splits)
    ultimately show ?thesis by (simp add: verdict_def numeral_2_eq_2)
  qed
qed

lemma read_error:
  assumes "between ok p fs" "toks (scanner p) = t # ts" "push_tok loc t fs = None"
  shows "yyrun 2 mal nxt p = Fatal"
proof -
  have ol: "open_lists (yyss p) (yyvs p) fs" and ch: "yychar p = - 2" using assms(1) by (simp_all add: between_def)
  obtain st ss f fs1 where top: "yyss p = st # ss" "inner_state st" "fs = f # fs1" "f = [] \<longleftrightarrow> st = 0 \<or> st = 1" "st = 9 \<longleftrightarrow> f \<noteq> [] \<and> fs1 \<noteq> []"
    using open_lists_top [OF ol] by metis
  have t: "t = RBRACE" "f = [] \<or> fs1 = []" using assms(3) top(3) by (cases t; cases fs1; auto split: if_splits)+
  obtain s where "nxt (scanner p) = Ret (tok_code t, tok_lval loc t, s)" using next_token [of "scanner p" t ts] assms by (auto simp: between_def)
  then have s: "nxt (scanner p) = Ret (259, None, s)" using t by (simp add: tok_code_def tok_lval_def)
  show ?thesis
  proof (cases "f = []")
    case True
    then have "yybackup mal nxt p = Fatal" using top ch s by (intro error_move [where p = p and nxt = nxt]) auto
    then show ?thesis by (simp add: numeral_2_eq_2)
  next
    case False
    have fin: "yyrun 1 mal nxt q = Fatal"
      if "yyss q = [6, 0] \<and> yychar q = 259 \<and> stack_inv q \<and> parser_ex q = Some f" for q
      using that final_move(2) [of q mal nxt] by simp
    have "leads mal nxt (too_deep mal 1) 1 p (\<lambda>q. yyss q = [6, 0] \<and> yychar q = 259 \<and> stack_inv q \<and> parser_ex q = Some f)"
      using False t(2) top(3) assms(1) s by (intro outermost_reduced) auto
    from leads_result [OF this fin] show ?thesis unfolding one_add_one by blast
  qed
qed

lemma run_tokens:
  assumes "between ok p fs" "toks (scanner p) = ts"
  shows "verdict (build loc ts fs) (too_deep mal (nesting ts (length fs))) (yyrun (3 * length ts + 2) mal nxt p)"
  using assms
proof (induction ts arbitrary: p fs)
  case Nil
  then show ?case using read_end [OF Nil, of mal] by (simp del: build.simps yyrun.simps add: numeral_2_eq_2)
next
  case (Cons t ts)
  let ?K = "3 * length ts + 2"
  show ?case
  proof (cases "push_tok loc t fs")
    case None
    then have "yyrun (2 + (3 * length ts + 3)) mal nxt p = Fatal" using read_error [OF Cons.prems] by (intro yyrun_mono) auto
    then show ?thesis using None by (simp add: verdict_def algebra_simps)
  next
    case (Some fs')
    obtain k where k: "k \<le> 3" "(\<exists>q. (between ok q fs' \<and> toks (scanner q) = ts) \<and> (\<forall>n. yyrun (k + n) mal nxt p = yyrun n mal nxt q))
        \<or> too_deep mal (length fs) \<and> (\<forall>n. yyrun (k + n) mal nxt p = Fatal)"
      using read_token [OF Cons.prems Some, of mal] unfolding leads_def by blast
    have len: "length fs' = (case t of LBRACE \<Rightarrow> length fs + 1 | RBRACE \<Rightarrow> length fs - 1 | _ \<Rightarrow> length fs)"
      using Some by (auto elim!: push_tok.elims split: if_splits)
    have bad: "too_deep mal (length fs) \<Longrightarrow> too_deep mal (nesting (t # ts) (length fs))"
      "too_deep mal (nesting ts (length fs')) \<Longrightarrow> too_deep mal (nesting (t # ts) (length fs))"
      by (auto simp: len intro: too_deep_mono)
    have "verdict (build loc ts fs') (too_deep mal (nesting (t # ts) (length fs))) (yyrun (k + ?K) mal nxt p)"
      using k(2)
    proof (elim disjE exE conjE)
      fix q assume "between ok q fs'" "toks (scanner q) = ts" "\<forall>n. yyrun (k + n) mal nxt p = yyrun n mal nxt q"
      then show ?thesis using verdict_mono [OF Cons.IH [of q fs'] bad(2)] by (simp only: simp_thms)
    next
      assume "too_deep mal (length fs)" "\<forall>n. yyrun (k + n) mal nxt p = Fatal"
      then show ?thesis using verdict_Fatal [OF bad(1)] by (simp only: simp_thms)
    qed
    then have "verdict (build loc ts fs') (too_deep mal (nesting (t # ts) (length fs))) (yyrun (3 * length (t # ts) + 2) mal nxt p)"
      by (rule verdict_run) (use k(1) in simp)
    then show ?thesis using Some by simp
  qed
qed

lemma parse_tokens:
  assumes "ok s" "3 * length (toks s) + 2 \<le> fuel"
  shows "verdict (build loc (toks s) [[]]) (too_deep mal (nesting (toks s) 1)) (yyparse fuel mal nxt s)"
proof -
  have "between ok (yystart s) [[]]"
    using assms(1) by (auto simp: between_def yystart_def stack_inv_def intro: open_lists.outer_empty)
  then have "verdict (build loc (toks s) [[]]) (too_deep mal (nesting (toks s) (length [[] :: atom list])))
     (yyrun (3 * length (toks s) + 2) mal nxt (yystart s))"
    by (rule run_tokens) (simp add: yystart_def)
  then have "verdict (build loc (toks s) [[]]) (too_deep mal (nesting (toks s) (length [[] :: atom list]))) (yyrun fuel mal nxt (yystart s))"
    by (rule verdict_run [OF _ assms(2)])
  then show ?thesis by (simp add: yyparse_def)
qed

end

text \<open>The scanner of \<open>Nasty_Lexer\<close> is a source of tokens on every text without NUL characters.\<close>

interpretation flex: token_source "yylex inp loc" "rest_tokens inp" "\<lambda>g. lex_inv inp g \<and> CHR 0x00 \<notin> set inp" loc
proof
  fix g t ts
  assume "lex_inv inp g \<and> CHR 0x00 \<notin> set inp" "rest_tokens inp g = t # ts"
  then show "\<exists>g'. yylex inp loc g = Ret (tok_code t, tok_lval loc t, g') \<and> (lex_inv inp g' \<and> CHR 0x00 \<notin> set inp) \<and> rest_tokens inp g' = ts"
    using yylex_steps [of inp g loc] by (auto simp: returns_iff lex_step_def)
next
  fix g
  assume "lex_inv inp g \<and> CHR 0x00 \<notin> set inp" "rest_tokens inp g = []"
  then show "\<exists>g'. yylex inp loc g = Ret (0, None, g')"
    using yylex_steps [of inp g loc] by (auto simp: returns_iff lex_step_def)
qed

section \<open>The grammar\<close>

text \<open>
  The rules of \<^verbatim>\<open>nasty.parser\<close> with their actions: \<open>expr_of ts e\<close> says that the nonterminal \<^verbatim>\<open>expr\<close> derives the
  tokens \<open>ts\<close> with the value \<open>e\<close>, \<open>atom_of\<close> the same of \<^verbatim>\<open>atom\<close>.
\<close>

inductive expr_of :: "int \<times> int \<Rightarrow> tok list \<Rightarrow> atom list \<Rightarrow> bool"
  and atom_of :: "int \<times> int \<Rightarrow> tok list \<Rightarrow> atom \<Rightarrow> bool"
  for loc :: "int \<times> int"
where
  more: "expr_of loc ts e \<Longrightarrow> atom_of loc us a \<Longrightarrow> expr_of loc (ts @ us) (e @ [a])"
| single: "atom_of loc ts a \<Longrightarrow> expr_of loc ts [a]"
| paren: "expr_of loc ts e \<Longrightarrow> atom_of loc (LBRACE # ts @ [RBRACE]) (AtomEx e)"
| token: "atom_of loc [TokAtom ty x] (Atom ty x (fst loc) (snd loc))"

fun pushes :: "int \<times> int \<Rightarrow> tok list \<Rightarrow> atom list list \<Rightarrow> atom list list option" where
  "pushes loc [] fs = Some fs"
| "pushes loc (t # ts) fs = Option.bind (push_tok loc t fs) (pushes loc ts)"

lemma pushes_append: "pushes loc (ts @ us) fs = Option.bind (pushes loc ts fs) (pushes loc us)"
proof (induction ts arbitrary: fs)
  case (Cons t ts)
  then show ?case by (cases "push_tok loc t fs") simp_all
qed simp

lemma build_pushes: "build loc ts fs = Option.bind (pushes loc ts fs) (build loc [])"
proof (induction ts arbitrary: fs)
  case (Cons t ts)
  then show ?case by (cases "push_tok loc t fs") (simp_all del: build.simps(1))
qed simp

lemma build_complete:
  "expr_of loc ts e \<Longrightarrow> e \<noteq> [] \<and> (\<forall>f fs. pushes loc ts (f # fs) = Some ((f @ e) # fs))"
  "atom_of loc us a \<Longrightarrow> (\<forall>f fs. pushes loc us (f # fs) = Some ((f @ [a]) # fs))"
  by (induction rule: expr_of_atom_of.inducts) (simp_all add: pushes_append)

text \<open>The tokens read so far, cut at the parentheses that are open.\<close>

definition list_of :: "int \<times> int \<Rightarrow> tok list \<Rightarrow> atom list \<Rightarrow> bool" where
  "list_of loc ts f \<longleftrightarrow> ts = [] \<and> f = [] \<or> expr_of loc ts f"

inductive lists_of :: "int \<times> int \<Rightarrow> tok list \<Rightarrow> atom list list \<Rightarrow> bool" for loc where
  one: "list_of loc ts f \<Longrightarrow> lists_of loc ts [f]"
| open_paren: "lists_of loc ts fs \<Longrightarrow> list_of loc us f \<Longrightarrow> lists_of loc (ts @ LBRACE # us) (f # fs)"

lemma lists_of_nonempty: "\<not> lists_of loc ts []"
  by (auto elim: lists_of.cases)

lemma list_of_snoc: "list_of loc ts f \<Longrightarrow> atom_of loc us a \<Longrightarrow> list_of loc (ts @ us) (f @ [a])"
  using more [of loc ts f us a] single [of loc us a] by (auto simp: list_of_def)

lemma lists_of_snoc:
  assumes "lists_of loc ts (f # fs)" "atom_of loc us a"
  shows "lists_of loc (ts @ us) ((f @ [a]) # fs)"
  using assms(1)
proof cases
  case one
  then show ?thesis using list_of_snoc [OF _ assms(2)] by (auto intro: lists_of.one)
next
  case (open_paren ts1 us1)
  then show ?thesis using lists_of.open_paren [OF _ list_of_snoc [OF _ assms(2)], of ts1 fs us1 f] by simp
qed

lemma lists_of_push:
  assumes "lists_of loc ts fs" "push_tok loc t fs = Some fs'"
  shows "lists_of loc (ts @ [t]) fs'"
proof -
  obtain f fs1 where fs: "fs = f # fs1" using assms(1) by cases auto
  show ?thesis
  proof (cases t)
    case LBRACE
    then show ?thesis using assms lists_of.open_paren [of loc ts fs "[]" "[]"] by (auto simp: list_of_def)
  next
    case RBRACE
    then obtain g fs2 where g: "fs = f # g # fs2" "f \<noteq> []" "fs' = (g @ [AtomEx f]) # fs2"
      using assms(2) fs by (cases fs1) (auto split: if_splits)
    from assms(1) [unfolded g(1)] obtain ts1 us where ts: "ts = ts1 @ LBRACE # us" "lists_of loc ts1 (g # fs2)" "expr_of loc us f"
      using g(2) by cases (auto simp: list_of_def)
    from lists_of_snoc [OF ts(2) paren [OF ts(3)]] show ?thesis using RBRACE ts g by simp
  next
    case (TokAtom ty x)
    then show ?thesis using assms fs lists_of_snoc [of loc ts f fs1 "[t]"] token [of loc ty x] by auto
  qed
qed

lemma lists_of_pushes: "lists_of loc us fs \<Longrightarrow> pushes loc ts fs = Some fs' \<Longrightarrow> lists_of loc (us @ ts) fs'"
proof (induction ts arbitrary: us fs)
  case (Cons t ts)
  then obtain fs1 where "push_tok loc t fs = Some fs1" "pushes loc ts fs1 = Some fs'" by (auto simp: bind_eq_Some_conv)
  with Cons.IH [of "us @ [t]" fs1] lists_of_push [OF Cons.prems(1)] show ?case by simp
qed simp

lemma build_end: "build loc [] fs = Some e \<Longrightarrow> fs = [e] \<and> e \<noteq> []"
  by (simp split: list.splits if_splits)

lemma verdict_grammar:
  assumes "verdict b bad r" "\<And>e. b = Some e \<longleftrightarrow> G e"
  shows "(\<forall>e. r = Ret (0, Some e) \<longrightarrow> G e) \<and> (\<forall>e. G e \<and> \<not> bad \<longrightarrow> r = Ret (0, Some e)) \<and> (r = Fatal \<or> (\<exists>e. r = Ret (0, Some e)))"
proof (cases b)
  case None
  with assms show ?thesis by (simp add: verdict_def flip: assms(2))
next
  case (Some e)
  with assms show ?thesis by (auto simp: verdict_def simp flip: assms(2))
qed

lemma build_grammar: "build loc ts [[]] = Some e \<longleftrightarrow> expr_of loc ts e"
proof
  assume "build loc ts [[]] = Some e"
  then obtain fs where "pushes loc ts [[]] = Some fs" "build loc [] fs = Some e"
    unfolding build_pushes [of loc ts "[[]]"] by (cases "pushes loc ts [[]]") auto
  then have "pushes loc ts [[]] = Some [e]" "e \<noteq> []" using build_end [of loc fs e] by simp_all
  moreover have "lists_of loc [] [[]]" by (auto simp: list_of_def intro: lists_of.one)
  ultimately have "lists_of loc ts [e]" using lists_of_pushes [of loc "[]" "[[]]" ts "[e]"] by simp
  then show "expr_of loc ts e"
    using \<open>e \<noteq> []\<close> lists_of_nonempty by cases (auto simp: list_of_def)
next
  assume "expr_of loc ts e"
  then show "build loc ts [[]] = Some e" using build_complete(1) [of loc ts e] by (simp add: build_pushes [of loc ts "[[]]"])
qed

lemma parse_verdict:
  assumes "CHR 0x00 \<notin> set inp" "lex_inv inp g" "3 * length (rest_tokens inp g) + 2 \<le> fuel"
  shows "verdict (build loc (rest_tokens inp g) [[]]) (too_deep mal (nesting (rest_tokens inp g) 1)) (yyparse fuel mal (yylex inp loc) g)"
  using assms by (intro flex.parse_tokens) auto

text \<open>
  C15. The generated parser implements the grammar of \<^verbatim>\<open>nasty.parser\<close> on the tokens of the text: it returns 0
  with the expression if the grammar derives the tokens and the nesting leaves room on the stack of
  10000 states, and aborts otherwise; it never reads outside a table or a stack, never takes a value
  for one of another type, and stops within three turns for every token.
\<close>

theorem yyparse_correct:
  assumes "CHR 0x00 \<notin> set inp" "lex_inv inp g" "3 * length (rest_tokens inp g) + 2 \<le> fuel"
  shows "(\<forall>e. yyparse fuel mal (yylex inp loc) g = Ret (0, Some e) \<longrightarrow> expr_of loc (rest_tokens inp g) e) \<and>
    (\<forall>e. expr_of loc (rest_tokens inp g) e \<and> nesting (rest_tokens inp g) 1 < 4999 \<and> (\<forall>n. mal n) \<longrightarrow>
       yyparse fuel mal (yylex inp loc) g = Ret (0, Some e)) \<and>
    (yyparse fuel mal (yylex inp loc) g = Fatal \<or> (\<exists>e. yyparse fuel mal (yylex inp loc) g = Ret (0, Some e)))"
  using verdict_grammar [OF parse_verdict [OF assms] build_grammar] unfolding too_deep_def de_Morgan_disj not_le by blast

lemma sample_tokens: "rest_tokens ''(a 1)'' lex_start = [LBRACE, TokAtom T_ID ''a'', TokAtom T_INT ''1'', RBRACE]"
  by (simp add: rest_tokens_def lex_start_def tokens.simps is_space_def is_C_def is_D_def code_C_def)

lemma sample_derivation:
  "expr_of (1, 1) [LBRACE, TokAtom T_ID ''a'', TokAtom T_INT ''1'', RBRACE] [AtomEx [Atom T_ID ''a'' 1 1, Atom T_INT ''1'' 1 1]]"
  using single [OF paren [OF more [OF single [OF token] token]], of "(1, 1)" T_ID "''a''" T_INT "''1''"] by simp

theorem yyparse_correct_witness:
  "yyparse 100 (\<lambda>_. True) (yylex ''(a 1)'' (1, 1)) lex_start = Ret (0, Some [AtomEx [Atom T_ID ''a'' 1 1, Atom T_INT ''1'' 1 1]])"
proof -
  have "CHR 0x00 \<notin> set ''(a 1)''" "lex_inv ''(a 1)'' lex_start" by (simp_all add: lex_inv_def lex_start_def)
  moreover have "3 * length (rest_tokens ''(a 1)'' lex_start) + 2 \<le> 100" "nesting (rest_tokens ''(a 1)'' lex_start) 1 < 4999"
    by (simp_all add: sample_tokens)
  ultimately show ?thesis
    using yyparse_correct [of "''(a 1)''" lex_start 100 "\<lambda>_. True" "(1, 1)"] sample_derivation unfolding sample_tokens by blast
qed

end
