(* ===== verification/Nasty.thy ===== *)
theory Nasty
  imports Nasty_Parser
begin

text \<open>
  \<^verbatim>\<open>nasty.cc\<close>: the printer of expressions, and what its output means to the scanner and the grammar: the
  tokens of a printed expression derive that expression, and an expression the grammar derives has
  the form of a printed one. \<open>Nasty_File\<close> closes the circle with \<^verbatim>\<open>Parser::run\<close>.
\<close>

section \<open>Printing\<close>

definition repeat_char :: "string \<Rightarrow> int \<Rightarrow> char \<Rightarrow> string" where
  "repeat_char os n c = os @ replicate (nat n) c"

fun atom_write :: "atom \<Rightarrow> string \<Rightarrow> int \<Rightarrow> int \<Rightarrow> string \<times> int"
  and expr_write :: "atom list \<Rightarrow> string \<Rightarrow> int \<Rightarrow> int \<Rightarrow> string \<times> int" where
  "atom_write (AtomEx e) os indent lbrace =
     (let (os, lbrace) = expr_write e os (indent + 1) (lbrace + 1) in (os @ '')'', lbrace))"
| "atom_write (Atom ty s line column) os indent lbrace =
     (let os = repeat_char os (if lbrace \<noteq> 0 then indent - 1 else indent) (CHR '' '');
          os = repeat_char os lbrace (CHR ''('')
      in (os @ s, 0))"
| "expr_write [] os indent lbrace = (os, lbrace)"
| "expr_write (a # as) os indent lbrace =
     (let (os, lbrace) = atom_write a os indent lbrace
      in expr_write as (if as \<noteq> [] then os @ [newline_char] else os) indent lbrace)"

definition toString :: "atom list \<Rightarrow> string" where
  "toString e = fst (expr_write e [] 0 0)"

section \<open>Parsers\<close>

text \<open>A parser has the name of a file and the expression it has read; \<open>Nasty_File\<close> runs it.\<close>

record parser =
  file_name :: string
  expr_ptr :: "atom list option"

definition parser_free :: "parser \<Rightarrow> parser" where
  "parser_free p = p\<lparr>expr_ptr := None\<rparr>"

section \<open>Printed expressions\<close>

text \<open>
  The expressions that the scanner and the parser can produce: the text of an atom has the form of its
  type, no list inside is empty, and every atom is at line 1, column 1.
\<close>

fun text_ok :: "atom_type \<Rightarrow> string \<Rightarrow> bool" where
  "text_ok T_ID x = (x \<noteq> [] \<and> is_C (hd x) \<and> list_all is_CD x)"
| "text_ok T_INT x = (x \<noteq> [] \<and> list_all is_D x)"
| "text_ok T_DBL x = (\<exists>ds fs. x = ds @ CHR ''.'' # fs \<and> ds \<noteq> [] \<and> list_all is_D ds \<and> list_all is_D fs)"
| "text_ok T_SR x = (\<exists>b. x = quote_char # b \<and> str_body b = Some (b, []) \<and> CHR 0x00 \<notin> set b)"

fun wf_atom :: "atom \<Rightarrow> bool" where
  "wf_atom (Atom ty x l c) = (text_ok ty x \<and> l = 1 \<and> c = 1)"
| "wf_atom (AtomEx e) = (e \<noteq> [] \<and> list_all wf_atom e)"

definition wf_expr :: "atom list \<Rightarrow> bool" where
  "wf_expr e \<longleftrightarrow> e \<noteq> [] \<and> list_all wf_atom e"

fun atom_toks :: "atom \<Rightarrow> tok list" where
  "atom_toks (Atom ty x l c) = [TokAtom ty x]"
| "atom_toks (AtomEx e) = LBRACE # concat (map atom_toks e) @ [RBRACE]"

fun atom_depth :: "atom \<Rightarrow> nat" where
  "atom_depth (Atom ty x l c) = 0"
| "atom_depth (AtomEx e) = Suc (foldr max (map atom_depth e) 0)"

definition delim :: "string \<Rightarrow> bool" where
  "delim r \<longleftrightarrow> (case r of [] \<Rightarrow> True | c # _ \<Rightarrow> \<not> is_CD c)"

lemma takeWhile_delim: "list_all P x \<Longrightarrow> (case r of [] \<Rightarrow> True | c # _ \<Rightarrow> \<not> P c) \<Longrightarrow> takeWhile P (x @ r) = x \<and> dropWhile P (x @ r) = r"
  by (induction x) (auto split: list.splits)

lemma str_body_append: "str_body x = Some (b, t) \<Longrightarrow> str_body (x @ r) = Some (b, t @ r)"
proof (induction x arbitrary: b rule: str_body.induct)
  case (2 c x)
  consider (quote) "c = quote_char" | (slash) "c \<noteq> quote_char" "c = slash_char" | (other) "c \<noteq> quote_char" "c \<noteq> slash_char" by blast
  then show ?case
  proof cases
    case slash
    then obtain d x' where x: "x = d # x'" "d \<noteq> newline_char" using "2.prems" by (cases x) (auto split: if_splits)
    with slash "2.prems" obtain b' where "str_body x' = Some (b', t)" "b = c # d # b'" by (cases "str_body x'") auto
    with "2.IH"(1) [OF slash x] show ?thesis using slash x by auto
  next
    case other
    with "2.prems" obtain b' where "str_body x = Some (b', t)" "b = c # b'" by (cases "str_body x") auto
    with "2.IH"(2) [OF other] show ?thesis using other by auto
  qed (use 2 in auto)
qed simp

lemma is_C_not: "is_C c \<Longrightarrow> \<not> is_space c \<and> c \<noteq> CHR ''('' \<and> c \<noteq> CHR '')'' \<and> \<not> is_D c"
  by (auto simp: is_C_def is_D_def is_space_def code_C_def)

lemma is_D_not: "is_D c \<Longrightarrow> \<not> is_space c \<and> c \<noteq> CHR ''('' \<and> c \<noteq> CHR '')'' \<and> \<not> is_C c \<and> c \<noteq> CHR ''.''"
  by (auto simp: is_C_def is_D_def is_space_def code_C_def)

lemma quote_not: "\<not> is_space quote_char" "\<not> is_C quote_char" "\<not> is_D quote_char"
  by (auto simp: is_C_def is_D_def is_space_def code_C_def)

lemma is_C_dot: "is_C (CHR ''.'')"
  by (simp add: is_C_def code_C_def)

lemma tokens_text:
  assumes "text_ok ty x" "delim r"
  shows "tokens (x @ r) = TokAtom ty x # tokens r"
proof (cases ty)
  case T_ID
  then obtain c y where x: "x = c # y" "is_C c" "list_all is_CD y" using assms(1) by (cases x) auto
  then show ?thesis using is_C_not [OF x(2)] takeWhile_delim [OF x(3), of r] assms(2) T_ID
    by (simp add: tokens.simps delim_def)
next
  case T_INT
  then obtain c y where x: "x = c # y" "is_D c" "list_all is_D y" using assms(1) by (cases x) auto
  have r: "case r of [] \<Rightarrow> True | c # _ \<Rightarrow> \<not> is_D c" "\<And>s. r \<noteq> CHR ''.'' # s" using assms(2) is_C_dot by (auto simp: delim_def split: list.splits)
  then show ?thesis using x is_D_not [OF x(2)] takeWhile_delim [OF x(3) r(1)] T_INT
    by (auto simp: tokens.simps(2) [of c "y @ r"] tokens.simps(1) Let_def split: list.splits)
next
  case T_DBL
  then obtain ds fs where x: "x = ds @ CHR ''.'' # fs" "ds \<noteq> []" "list_all is_D ds" "list_all is_D fs" using assms(1) by auto
  then obtain c y where d: "ds = c # y" "is_D c" "list_all is_D y" by (cases ds) auto
  have r: "case r of [] \<Rightarrow> True | c # _ \<Rightarrow> \<not> is_D c" using assms(2) by (auto simp: delim_def split: list.splits)
  have "takeWhile is_D (y @ CHR ''.'' # fs @ r) = y" "dropWhile is_D (y @ CHR ''.'' # fs @ r) = CHR ''.'' # fs @ r"
    using takeWhile_delim [OF d(3), of "CHR ''.'' # fs @ r"] is_C_not [OF is_C_dot] by auto
  then show ?thesis using x d is_D_not [OF d(2)] takeWhile_delim [OF x(4) r] T_DBL
    by (simp add: tokens.simps(2) [of c "y @ CHR ''.'' # fs @ r"] Let_def)
next
  case T_SR
  then obtain b where "x = quote_char # b" "str_body b = Some (b, [])" using assms(1) by auto
  then show ?thesis using str_body_append [of b b "[]" r] quote_not T_SR by (simp add: tokens.simps)
qed

lemma tokens_separators:
  "tokens (replicate n (CHR '' '') @ r) = tokens r"
  "tokens (replicate n (CHR ''('') @ r) = replicate n LBRACE @ tokens r"
  "tokens (newline_char # r) = tokens r" "tokens (CHR '')'' # r) = RBRACE # tokens r"
proof -
  show "tokens (replicate n (CHR '' '') @ r) = tokens r" by (induction n) (simp_all add: tokens.simps is_space_def)
  show "tokens (replicate n (CHR ''('') @ r) = replicate n LBRACE @ tokens r" by (induction n) (simp_all add: tokens.simps is_space_def)
qed (simp_all add: tokens.simps is_space_def)

definition prints :: "string \<Rightarrow> int \<Rightarrow> tok list \<Rightarrow> bool" where
  "prints out lbrace ts \<longleftrightarrow> CHR 0x00 \<notin> set out \<and>
     (\<forall>r. delim r \<longrightarrow> tokens (out @ r) = replicate (nat lbrace) LBRACE @ ts @ tokens r)"

lemma prints_append:
  assumes "prints out lbrace ts" "prints out' 0 us" "\<And>r. delim r \<Longrightarrow> delim (out' @ r)"
  shows "prints (out @ out') lbrace (ts @ us)"
  using assms by (auto simp: prints_def)

lemma delim_simps [simp]: "delim []" "delim (newline_char # r)" "delim (CHR '')'' # r)"
  by (auto simp: delim_def is_C_def is_D_def code_C_def)

lemma text_ok_no_NUL: "text_ok ty x \<Longrightarrow> CHR 0x00 \<notin> set x"
proof -
  have C: "\<not> is_CD (CHR 0x00)" by (simp add: is_C_def is_D_def code_C_def)
  show "text_ok ty x \<Longrightarrow> CHR 0x00 \<notin> set x" using C by (cases ty) (auto simp: list_all_iff)
qed

lemma prints_text:
  assumes "text_ok ty x"
  shows "prints (replicate n (CHR '' '') @ replicate (nat lbrace) (CHR ''('') @ x) lbrace [TokAtom ty x]"
  unfolding prints_def using text_ok_no_NUL [OF assms] by (simp add: tokens_separators tokens_text [OF assms])

lemma prints_close:
  assumes "prints out (lbrace + 1) ts" "0 \<le> lbrace"
  shows "prints (out @ '')'') lbrace (LBRACE # ts @ [RBRACE])"
proof -
  have "nat (lbrace + 1) = nat lbrace + 1" using assms(2) by (simp add: nat_add_distrib)
  then show ?thesis using assms(1) by (simp add: prints_def tokens_separators replicate_append_same [symmetric] del: replicate_append_same)
qed

lemma write_prints:
  "wf_atom a \<Longrightarrow> 0 \<le> lbrace \<Longrightarrow> \<exists>out. atom_write a os indent lbrace = (os @ out, 0) \<and> prints out lbrace (atom_toks a)"
  "list_all wf_atom e \<Longrightarrow> 0 \<le> lbrace \<Longrightarrow> (e = [] \<Longrightarrow> lbrace = 0) \<Longrightarrow>
     \<exists>out. expr_write e os indent lbrace = (os @ out, 0) \<and> prints out lbrace (concat (map atom_toks e))"
proof (induction a os indent lbrace and e os indent lbrace rule: atom_write_expr_write.induct)
  case (1 e os indent lbrace)
  then obtain out where "expr_write e os (indent + 1) (lbrace + 1) = (os @ out, 0)" "prints out (lbrace + 1) (concat (map atom_toks e))"
    by auto
  then show ?case using prints_close [of out lbrace] "1.prems"(2) by auto
next
  case (2 ty s line column os indent lbrace)
  then show ?case using prints_text [of ty s] by (auto simp: repeat_char_def Let_def)
next
  case (3 os indent lbrace)
  then show ?case by (auto simp: prints_def)
next
  case (4 a as os indent lbrace)
  then obtain out where a: "atom_write a os indent lbrace = (os @ out, 0)" "prints out lbrace (atom_toks a)" by auto
  show ?case
  proof (cases "as = []")
    case True
    then show ?thesis using a by auto
  next
    case False
    let ?os = "os @ out @ [newline_char]"
    from "4.IH"(2) [OF a(1) [symmetric]] "4.prems" False
    obtain out' where b: "expr_write as ?os indent 0 = (?os @ out', 0)" "prints out' 0 (concat (map atom_toks as))"
      by auto
    have "prints (newline_char # out') 0 (concat (map atom_toks as))"
      using b(2) by (simp add: prints_def tokens_separators)
    with a(2) have "prints (out @ newline_char # out') lbrace (atom_toks a @ concat (map atom_toks as))" by (rule prints_append) simp
    then show ?thesis using a(1) b(1) False by auto
  qed
qed

lemma toString_tokens:
  assumes "wf_expr e"
  shows "tokens (toString e) = concat (map atom_toks e) \<and> CHR 0x00 \<notin> set (toString e)"
  using write_prints(2) [of e 0 "[]" 0] assms by (auto simp: wf_expr_def toString_def prints_def dest: spec [of _ "[]"] simp: tokens.simps)

section \<open>Reading back\<close>

lemma expr_of_list:
  "list_all (\<lambda>a. atom_of loc (atom_toks a) a) e \<Longrightarrow> e \<noteq> [] \<Longrightarrow> expr_of loc (concat (map atom_toks e)) e"
proof (induction e rule: rev_induct)
  case (snoc a e)
  then show ?case using single [of loc "atom_toks a" a] more [of loc "concat (map atom_toks e)" e "atom_toks a" a] by (cases "e = []") auto
qed simp

lemma atom_of_toks: "wf_atom a \<Longrightarrow> atom_of (1, 1) (atom_toks a) a"
proof (induction a)
  case (Atom ty x l c)
  then show ?case using token [of "(1, 1)" ty x] by simp
next
  case (AtomEx e)
  then have "expr_of (1, 1) (concat (map atom_toks e)) e" by (intro expr_of_list) (auto simp: list_all_iff)
  from paren [OF this] show ?case by simp
qed

definition expr_depth :: "atom list \<Rightarrow> nat" where
  "expr_depth e = foldr max (map atom_depth e) 0"

lemma nesting_ge: "n \<le> nesting ts n"
  by (cases ts) auto

lemma nesting_list:
  "(\<And>a n ts. a \<in> set e \<Longrightarrow> nesting (atom_toks a @ ts) n = max (n + atom_depth a) (nesting ts n)) \<Longrightarrow>
   nesting (concat (map atom_toks e) @ ts) n = max (n + expr_depth e) (nesting ts n)"
  using nesting_ge by (induction e) (auto simp: expr_depth_def max_def)

lemma nesting_atom: "nesting (atom_toks a @ ts) n = max (n + atom_depth a) (nesting ts n)"
proof (induction a arbitrary: ts n)
  case (Atom ty x l c)
  then show ?case using nesting_ge [of n ts] by simp
next
  case (AtomEx e)
  then have "nesting (concat (map atom_toks e) @ RBRACE # ts) (n + 1) = max (n + 1 + expr_depth e) (nesting (RBRACE # ts) (n + 1))"
    by (intro nesting_list)
  then show ?case using nesting_ge [of n ts] by (simp add: expr_depth_def)
qed

lemma nesting_expr: "nesting (concat (map atom_toks e)) 1 = 1 + expr_depth e"
  using nesting_list [OF nesting_atom, of e "[]" 1] by simp

section \<open>What the scanner and the grammar produce\<close>

lemma list_all_takeWhile: "list_all P (takeWhile P xs)"
  by (auto simp: list_all_iff dest: set_takeWhileD)

lemma number_text_ok:
  assumes "is_D c"
  shows "text_ok T_INT (c # takeWhile is_D r)" "text_ok T_DBL (c # takeWhile is_D r @ CHR ''.'' # takeWhile is_D s)"
proof -
  show "text_ok T_INT (c # takeWhile is_D r)" using assms list_all_takeWhile [of is_D] by simp
  show "text_ok T_DBL (c # takeWhile is_D r @ CHR ''.'' # takeWhile is_D s)" unfolding text_ok.simps
    by (rule exI [of _ "c # takeWhile is_D r"], rule exI [of _ "takeWhile is_D s"]) (use assms list_all_takeWhile [of is_D] in simp)
qed

lemma str_body_fixed: "str_body r = Some (b, t) \<Longrightarrow> str_body b = Some (b, [])"
proof (induction r arbitrary: b rule: str_body.induct)
  case (2 c r)
  consider (quote) "c = quote_char" | (slash) "c \<noteq> quote_char" "c = slash_char" | (other) "c \<noteq> quote_char" "c \<noteq> slash_char" by blast
  then show ?case
  proof cases
    case quote
    with "2.prems" have "b = [quote_char]" by simp
    then show ?thesis by simp
  next
    case slash
    then obtain d r' where r: "r = d # r'" "d \<noteq> newline_char" using "2.prems" by (cases r) (auto split: if_splits)
    with slash "2.prems" obtain b' where "str_body r' = Some (b', t)" "b = c # d # b'" by (cases "str_body r'") auto
    with "2.IH"(1) [OF slash r] show ?thesis using slash r by auto
  next
    case other
    with "2.prems" obtain b' where "str_body r = Some (b', t)" "b = c # b'" by (cases "str_body r") auto
    with "2.IH"(2) [OF other] show ?thesis using other by auto
  qed
qed simp

lemma tokens_text_ok: "CHR 0x00 \<notin> set x \<Longrightarrow> TokAtom ty y \<in> set (tokens x) \<Longrightarrow> text_ok ty y"
proof (induction x rule: length_induct)
  case (1 x)
  note nul = "1.prems"(1)
  show ?case
  proof (cases x)
    case Nil
    with 1 show ?thesis by (simp add: tokens.simps)
  next
    case (Cons c r)
    have IH: "TokAtom ty y \<in> set (tokens s) \<Longrightarrow> text_ok ty y" if "length s \<le> length r" "set s \<subseteq> set r" for s
      using "1.IH" that nul Cons by (auto simp: less_Suc_eq_le)
    have dw: "length (dropWhile P s) \<le> length s" "set (dropWhile P s) \<subseteq> set s" for P and s :: string
      by (auto simp: length_dropWhile_le dest: set_dropWhileD)
    have tk: "TokAtom ty y \<in> set (tokens (c # r))" using "1.prems"(2) Cons by simp
    consider (skip) "is_space c" | (paren) "\<not> is_space c" "c = CHR ''('' \<or> c = CHR '')''"
      | (ident) "\<not> is_space c" "c \<noteq> CHR ''(''" "c \<noteq> CHR '')''" "is_C c"
      | (num) "\<not> is_space c" "c \<noteq> CHR ''(''" "c \<noteq> CHR '')''" "\<not> is_C c" "is_D c"
      | (rest) "\<not> is_space c" "c \<noteq> CHR ''(''" "c \<noteq> CHR '')''" "\<not> is_C c" "\<not> is_D c" by blast
    then show ?thesis
    proof cases
      case skip
      with tk IH [of r] show ?thesis by (simp add: tokens.simps)
    next
      case paren
      with tk IH [of r] show ?thesis by (auto simp: tokens.simps(2) [of c r] split: if_splits)
    next
      case ident
      with tk IH [OF dw, of is_CD] show ?thesis
        using list_all_takeWhile [of is_CD r] by (auto simp: tokens.simps(2) [of c r])
    next
      case num
      show ?thesis
      proof (cases "\<exists>s. dropWhile is_D r = CHR ''.'' # s")
        case True
        then obtain s where s: "dropWhile is_D r = CHR ''.'' # s" by blast
        have sub: "length s \<le> length r" "set s \<subseteq> set r" using dw [of is_D r] s by auto
        then have "length (dropWhile is_D s) \<le> length r" "set (dropWhile is_D s) \<subseteq> set r" using dw [of is_D s] by auto
        from IH [OF this] tk num s number_text_ok(2) [OF num(5), of r s] show ?thesis
          by (auto simp: tokens.simps(2) [of c r] Let_def simp del: text_ok.simps)
      next
        case False
        then have "tokens (c # r) = TokAtom T_INT (c # takeWhile is_D r) # tokens (dropWhile is_D r)"
          using num by (cases "dropWhile is_D r") (auto simp: tokens.simps(1) tokens.simps(2) [of c r] Let_def simp del: dropWhile_eq_Nil_conv)
        with tk IH [OF dw, of is_D] number_text_ok(1) [OF num(5), of r] show ?thesis by (auto simp del: text_ok.simps)
      qed
    next
      case rest
      have c: "c = quote_char" using tk rest by (cases "c = quote_char") (simp_all add: tokens.simps(2) [of c r])
      have "str_body r \<noteq> None" using tk rest c by (intro notI) (simp add: tokens.simps(2))
      then obtain b t where bt: "str_body r = Some (b, t)" by auto
      have "tokens (c # r) = TokAtom T_SR (c # b) # tokens t" using rest c bt by (simp add: tokens.simps(2))
      then have y: "TokAtom ty y = TokAtom T_SR (c # b) \<or> TokAtom ty y \<in> set (tokens t)" using tk by simp
      have r: "r = b @ t" using str_body_Some [OF bt] by simp
      then have "text_ok T_SR (c # b)" using c str_body_fixed [OF bt] nul Cons by auto
      then show ?thesis using y IH [of t] r by (auto simp del: text_ok.simps)
    qed
  qed
qed

lemma expr_of_wf:
  "expr_of (1, 1) ts e \<Longrightarrow> (\<forall>ty x. TokAtom ty x \<in> set ts \<longrightarrow> text_ok ty x) \<Longrightarrow> wf_expr e"
  "atom_of (1, 1) us a \<Longrightarrow> (\<forall>ty x. TokAtom ty x \<in> set us \<longrightarrow> text_ok ty x) \<Longrightarrow> wf_atom a"
  by (induction rule: expr_of_atom_of.inducts) (auto simp: wf_expr_def list_all_iff simp del: text_ok.simps)

end
