(* ===== verification/Nasty_Heap.thy ===== *)
theory Nasty_Heap
  imports Nasty
begin

text \<open>
  The objects of \<^verbatim>\<open>nasty.h\<close> on a heap: constructors, \<^verbatim>\<open>appendAtom\<close>, the destructors that delete the tree, and the actions of
  the grammar that build it. A heap object \<^verbatim>\<open>Expr\<close> has the addresses of its atoms; an \<^verbatim>\<open>Atom\<close> is a leaf or points to the
  expression it wraps. The depth of the mutual recursion of the destructors is bounded by fuel.
\<close>

section \<open>The operations\<close>

datatype nobj = ExprObj "nat list" | AtomObj atom_type string int int | ExAtomObj nat

type_synonym nheap = "nat \<rightharpoonup> nobj"

text \<open>
  \<^verbatim>\<open>new(std::nothrow)\<close> gives a fresh address, or null, which is \<open>None\<close>. A call through null is undefined, as is the use of an
  address with no object.
\<close>

definition Atom_new :: "nat option \<Rightarrow> atom_type \<Rightarrow> string \<Rightarrow> int \<Rightarrow> int \<Rightarrow> nheap \<Rightarrow> nheap" where
  "Atom_new p ty s line column h = (case p of None \<Rightarrow> h | Some p \<Rightarrow> h(p \<mapsto> AtomObj ty s line column))"

definition ExAtom_new :: "nat option \<Rightarrow> nat \<Rightarrow> nheap \<Rightarrow> nheap" where
  "ExAtom_new p ex h = (case p of None \<Rightarrow> h | Some p \<Rightarrow> h(p \<mapsto> ExAtomObj ex))"

definition Expr_new :: "nat option \<Rightarrow> nheap \<Rightarrow> nheap" where
  "Expr_new q h = (case q of None \<Rightarrow> h | Some q \<Rightarrow> h(q \<mapsto> ExprObj []))"

definition appendAtom :: "nat option \<Rightarrow> nat \<Rightarrow> nheap \<Rightarrow> nheap exec" where
  "appendAtom q a h = (case q of None \<Rightarrow> Undefined
     | Some q \<Rightarrow> (case h q of Some (ExprObj as) \<Rightarrow> Ret (h(q \<mapsto> ExprObj (as @ [a]))) | _ \<Rightarrow> Undefined))"

text \<open>The actions \<^verbatim>\<open>expr : atom\<close> and \<^verbatim>\<open>expr : expr atom\<close>.\<close>

definition action_first :: "nat option \<Rightarrow> nat \<Rightarrow> nheap \<Rightarrow> nheap exec" where
  "action_first q a h = appendAtom q a (Expr_new q h)"

definition action_more :: "nat \<Rightarrow> nat \<Rightarrow> nheap \<Rightarrow> nheap exec" where
  "action_more q a h = appendAtom (Some q) a h"

text \<open>\<^verbatim>\<open>delete\<close> runs the destructor and then gives the memory back.\<close>

fun Atom_delete :: "nat \<Rightarrow> nat \<Rightarrow> nheap \<Rightarrow> nheap exec"
  and Expr_delete :: "nat \<Rightarrow> nat \<Rightarrow> nheap \<Rightarrow> nheap exec" where
  "Atom_delete 0 p h = Diverge"
| "Atom_delete (Suc fuel) p h =
     (case h p of
        Some (AtomObj ty s line column) \<Rightarrow> Ret (h(p := None))
      | Some (ExAtomObj q) \<Rightarrow> exec_bind (Expr_delete fuel q h) (\<lambda>h. Ret (h(p := None)))
      | _ \<Rightarrow> Undefined)"
| "Expr_delete 0 q h = Diverge"
| "Expr_delete (Suc fuel) q h =
     (case h q of
        Some (ExprObj as) \<Rightarrow> exec_bind (exec_fold (\<lambda>p h. Atom_delete fuel p h) as h) (\<lambda>h. Ret (h(q := None)))
      | _ \<Rightarrow> Undefined)"

text \<open>\<^verbatim>\<open>Parser::free\<close> and the destructor, on the pointer to the expression.\<close>

definition Parser_free :: "nat \<Rightarrow> nat option \<Rightarrow> nheap \<Rightarrow> (nat option \<times> nheap) exec" where
  "Parser_free fuel ex h = exec_bind (case ex of None \<Rightarrow> Ret h | Some q \<Rightarrow> Expr_delete fuel q h) (\<lambda>h. Ret (None, h))"

definition Parser_dtor :: "nat \<Rightarrow> nat option \<Rightarrow> nheap \<Rightarrow> nheap exec" where
  "Parser_dtor fuel ex h = exec_bind (Parser_free fuel ex h) (\<lambda>(ex, h). Ret h)"

section \<open>Trees on the heap\<close>

text \<open>
  \<open>atom_at h p a V\<close>: at address \<open>p\<close> there is the atom \<open>a\<close>, and \<open>V\<close> are the addresses of its objects, all different.
\<close>

inductive atom_at :: "nheap \<Rightarrow> nat \<Rightarrow> atom \<Rightarrow> nat set \<Rightarrow> bool"
  and atoms_at :: "nheap \<Rightarrow> nat list \<Rightarrow> atom list \<Rightarrow> nat set \<Rightarrow> bool" for h where
  leaf: "h p = Some (AtomObj ty s l c) \<Longrightarrow> atom_at h p (Atom ty s l c) {p}"
| node: "\<lbrakk>h p = Some (ExAtomObj q); h q = Some (ExprObj ps); atoms_at h ps e V; p \<notin> V; q \<notin> V; p \<noteq> q\<rbrakk> \<Longrightarrow>
    atom_at h p (AtomEx e) (insert p (insert q V))"
| nil: "atoms_at h [] [] {}"
| cons: "\<lbrakk>atom_at h p a V; atoms_at h ps as W; V \<inter> W = {}\<rbrakk> \<Longrightarrow> atoms_at h (p # ps) (a # as) (V \<union> W)"

definition expr_at :: "nheap \<Rightarrow> nat \<Rightarrow> atom list \<Rightarrow> nat set \<Rightarrow> bool" where
  "expr_at h q e V \<longleftrightarrow> (\<exists>ps W. h q = Some (ExprObj ps) \<and> atoms_at h ps e W \<and> q \<notin> W \<and> V = insert q W)"

lemma at_cong:
  shows "atom_at h p a V \<Longrightarrow> (\<And>x. x \<in> V \<Longrightarrow> h' x = h x) \<Longrightarrow> atom_at h' p a V"
    and "atoms_at h ps as W \<Longrightarrow> (\<And>x. x \<in> W \<Longrightarrow> h' x = h x) \<Longrightarrow> atoms_at h' ps as W"
proof (induction rule: atom_at_atoms_at.inducts)
  case (leaf p ty s l c)
  then show ?case by (intro atom_at_atoms_at.leaf) simp
next
  case (node p q ps e V)
  then show ?case by (intro atom_at_atoms_at.node) simp_all
qed (auto intro: atom_at_atoms_at.intros)

lemma at_dom:
  shows "atom_at h p a V \<Longrightarrow> V \<subseteq> dom h \<and> p \<in> V" and "atoms_at h ps as W \<Longrightarrow> W \<subseteq> dom h"
  by (induction rule: atom_at_atoms_at.inducts) auto

lemma atoms_at_append:
  "atoms_at h ps as V \<Longrightarrow> atom_at h p a W \<Longrightarrow> V \<inter> W = {} \<Longrightarrow> atoms_at h (ps @ [p]) (as @ [a]) (V \<union> W)"
proof (induction ps arbitrary: as V)
  case Nil
  then have "as = []" "V = {}" by (auto elim: atoms_at.cases)
  then show ?case using atom_at_atoms_at.cons [OF Nil.prems(2) atom_at_atoms_at.nil] by simp
next
  case (Cons q ps)
  from Cons.prems(1) obtain b bs V1 V2 where *: "as = b # bs" "V = V1 \<union> V2" "atom_at h q b V1" "atoms_at h ps bs V2" "V1 \<inter> V2 = {}"
    by (auto elim: atoms_at.cases)
  have "atoms_at h (ps @ [p]) (bs @ [a]) (V2 \<union> W)" using Cons.IH [OF *(4) Cons.prems(2)] Cons.prems(3) *(2) by blast
  then have "atoms_at h (q # ps @ [p]) (b # bs @ [a]) (V1 \<union> (V2 \<union> W))"
    using * Cons.prems(3) by (intro atom_at_atoms_at.cons) auto
  then show ?case using * by (simp add: Un_assoc)
qed

section \<open>Deleting\<close>

inductive_cases atom_at_AtomE: "atom_at h p (Atom ty s l c) V"
inductive_cases atom_at_ExE: "atom_at h p (AtomEx e) V"
inductive_cases atoms_at_NilE: "atoms_at h [] as V"
inductive_cases atoms_at_ConsE: "atoms_at h (p # ps) as V"

lemma depth_le: "a \<in> set e \<Longrightarrow> atom_depth a \<le> foldr max (map atom_depth e) 0"
  by (induction e) auto

text \<open>What deletes single atoms deletes a list of them, since their objects are disjoint.\<close>

lemma delete_all:
  assumes "\<And>h p a V. atom_at h p a V \<Longrightarrow> a \<in> set as \<Longrightarrow> del p h = Ret (h |` (- V))" "atoms_at h ps as W"
  shows "exec_fold del ps h = Ret (h |` (- W))"
  using assms
proof (induction ps arbitrary: as h W)
  case Nil
  then have "W = {}" by (auto elim: atoms_at_NilE)
  then show ?case by (simp add: restrict_map_def)
next
  case (Cons p ps)
  from Cons.prems(2) obtain a bs V V' where *: "as = a # bs" "W = V \<union> V'" "atom_at h p a V" "atoms_at h ps bs V'" "V \<inter> V' = {}"
    by (auto elim: atoms_at_ConsE)
  have "atoms_at (h |` (- V)) ps bs V'" using *(5) by (intro at_cong(2) [OF *(4)]) (auto simp: restrict_map_def)
  then have "exec_fold del ps (h |` (- V)) = Ret ((h |` (- V)) |` (- V'))" by (intro Cons.IH [of bs]) (auto simp: *(1) Cons.prems(1))
  moreover have "del p h = Ret (h |` (- V))" using Cons.prems(1) [OF *(3)] *(1) by simp
  ultimately show ?case using *(2) by simp
qed

lemma Atom_delete_at: "atom_at h p a V \<Longrightarrow> 2 * atom_depth a < fuel \<Longrightarrow> Atom_delete fuel p h = Ret (h |` (- V))"
proof (induction fuel arbitrary: h p a V rule: less_induct)
  case (less fuel)
  show ?case
  proof (cases a)
    case (Atom ty s l c)
    with less.prems(1) have "h p = Some (AtomObj ty s l c)" "V = {p}" by (auto elim: atom_at_AtomE)
    moreover obtain f where "fuel = Suc f" using less.prems(2) by (cases fuel) auto
    ultimately show ?thesis by (auto simp: restrict_map_def fun_eq_iff)
  next
    case (AtomEx e)
    with less.prems(1) obtain q ps W where *: "h p = Some (ExAtomObj q)" "h q = Some (ExprObj ps)" "atoms_at h ps e W"
        "p \<notin> W" "q \<notin> W" "p \<noteq> q" "V = insert p (insert q W)"
      by (auto elim: atom_at_ExE)
    obtain f where f: "fuel = Suc (Suc f)" "2 * foldr max (map atom_depth e) 0 < f"
      using less.prems(2) AtomEx by (cases fuel; cases "fuel - 1") auto
    have "exec_fold (\<lambda>p h. Atom_delete f p h) ps h = Ret (h |` (- W))"
    proof (rule delete_all [OF _ *(3)])
      fix h' p' b V' assume "atom_at h' p' b V'" "b \<in> set e"
      then show "Atom_delete f p' h' = Ret (h' |` (- V'))" using depth_le [of b e] f by (intro less.IH) auto
    qed
    then show ?thesis using * f(1) by (auto simp: restrict_map_def fun_eq_iff)
  qed
qed

text \<open>
  C18. The destructors delete the tree they are given, every object of it exactly once, and nothing else; what they need of
  the stack is bounded by the depth of the tree.
\<close>

theorem Expr_delete_exact:
  assumes "expr_at h q e V" "2 * expr_depth e + 1 < fuel"
  shows "Expr_delete fuel q h = Ret (h |` (- V)) \<and> Parser_dtor fuel (Some q) h = Ret (h |` (- V))
    \<and> Parser_free fuel (Some q) h = Ret (None, h |` (- V)) \<and> Parser_dtor fuel None h = Ret h"
proof -
  obtain ps W where *: "h q = Some (ExprObj ps)" "atoms_at h ps e W" "q \<notin> W" "V = insert q W" using assms(1) by (auto simp: expr_at_def)
  obtain f where f: "fuel = Suc f" using assms(2) by (cases fuel) auto
  have "exec_fold (\<lambda>p h. Atom_delete f p h) ps h = Ret (h |` (- W))"
  proof (rule delete_all [OF _ *(2)])
    fix h' p' b V' assume "atom_at h' p' b V'" "b \<in> set e"
    then show "Atom_delete f p' h' = Ret (h' |` (- V'))" using depth_le [of b e] f assms(2) by (intro Atom_delete_at) (auto simp: expr_depth_def)
  qed
  then have "Expr_delete fuel q h = Ret (h |` (- V))" using * f by (auto simp: restrict_map_def fun_eq_iff)
  then show ?thesis by (simp add: Parser_dtor_def Parser_free_def)
qed

section \<open>Building\<close>

lemma at_upd:
  assumes "x \<notin> V"
  shows "atom_at h p a V \<Longrightarrow> atom_at (h(x := y)) p a V" and "atoms_at h ps as V \<Longrightarrow> atoms_at (h(x := y)) ps as V"
  using assms by (auto intro: at_cong)

text \<open>
  The actions of the grammar build on the heap what they build in the model: a leaf, an expression of one atom, an
  expression with one atom more, and an atom around an expression, each with the objects it was given and at most one
  new one. When an allocation fails, the result of \<^verbatim>\<open>new(std::nothrow)\<close> is used unchecked.
\<close>

theorem heap_actions:
  "(h p = None \<longrightarrow> atom_at (Atom_new (Some p) ty s l c h) p (Atom ty s l c) {p})
   \<and> (atom_at h p a V \<and> h q = None \<longrightarrow> returns (action_first (Some q) p h) (\<lambda>h'. expr_at h' q [a] (insert q V)))
   \<and> (expr_at h q e V \<and> atom_at h p a W \<and> V \<inter> W = {} \<longrightarrow> returns (action_more q p h) (\<lambda>h'. expr_at h' q (e @ [a]) (V \<union> W)))
   \<and> (expr_at h q e V \<and> h p = None \<longrightarrow> atom_at (ExAtom_new (Some p) q h) p (AtomEx e) (insert p V))
   \<and> action_first None p h = Undefined"
proof (intro conjI impI)
  show "atom_at (Atom_new (Some p) ty s l c h) p (Atom ty s l c) {p}" by (auto simp: Atom_new_def intro: leaf)
  show "action_first None p h = Undefined" by (simp add: action_first_def appendAtom_def)
next
  assume *: "atom_at h p a V \<and> h q = None"
  then have q: "q \<notin> V" using at_dom(1) by blast
  then have "atom_at (h(q \<mapsto> ExprObj [p])) p a V" using * by (auto intro: at_upd)
  then have "atoms_at (h(q \<mapsto> ExprObj [p])) [p] [a] (V \<union> {})" by (intro cons nil) auto
  then have "expr_at (h(q \<mapsto> ExprObj [p])) q [a] (insert q V)" using q by (auto simp: expr_at_def)
  then show "returns (action_first (Some q) p h) (\<lambda>h'. expr_at h' q [a] (insert q V))"
    by (simp add: action_first_def appendAtom_def Expr_new_def)
next
  assume *: "expr_at h q e V \<and> atom_at h p a W \<and> V \<inter> W = {}"
  then obtain ps U where u: "h q = Some (ExprObj ps)" "atoms_at h ps e U" "q \<notin> U" "V = insert q U" by (auto simp: expr_at_def)
  then have "q \<notin> U \<union> W" "U \<inter> W = {}" using * by auto
  moreover from this have "atoms_at (h(q \<mapsto> ExprObj (ps @ [p]))) (ps @ [p]) (e @ [a]) (U \<union> W)"
    using u(2) * by (intro at_upd(2) atoms_at_append) auto
  ultimately have "expr_at (h(q \<mapsto> ExprObj (ps @ [p]))) q (e @ [a]) (V \<union> W)" using u(4) by (auto simp: expr_at_def)
  then show "returns (action_more q p h) (\<lambda>h'. expr_at h' q (e @ [a]) (V \<union> W))" using u(1) by (simp add: action_more_def appendAtom_def)
next
  assume *: "expr_at h q e V \<and> h p = None"
  then obtain ps U where u: "h q = Some (ExprObj ps)" "atoms_at h ps e U" "q \<notin> U" "V = insert q U" by (auto simp: expr_at_def)
  have p: "p \<notin> U" "p \<noteq> q" using * u at_dom(2) [OF u(2)] by auto
  have "atoms_at (h(p \<mapsto> ExAtomObj q)) ps e U" using u(2) p by (intro at_upd)
  then have "atom_at (h(p \<mapsto> ExAtomObj q)) p (AtomEx e) (insert p (insert q U))" using u p by (intro node [of _ p q ps e U]) auto
  then show "atom_at (ExAtom_new (Some p) q h) p (AtomEx e) (insert p V)" by (simp add: ExAtom_new_def u(4))
qed

definition sample_nheap :: nheap where
  "sample_nheap = [1 \<mapsto> AtomObj T_ID ''a'' 1 1, 2 \<mapsto> ExprObj [1], 3 \<mapsto> ExAtomObj 2, 4 \<mapsto> ExprObj [3], 9 \<mapsto> ExprObj []]"

lemma sample_nheap_expr: "expr_at sample_nheap 4 [AtomEx [Atom T_ID ''a'' 1 1]] {1, 2, 3, 4}"
proof -
  have "atom_at sample_nheap 1 (Atom T_ID ''a'' 1 1) {1}" by (rule leaf) (simp add: sample_nheap_def)
  then have "atoms_at sample_nheap [1] [Atom T_ID ''a'' 1 1] ({1} \<union> {})" by (intro cons nil) auto
  then have "atom_at sample_nheap 3 (AtomEx [Atom T_ID ''a'' 1 1]) (insert 3 (insert 2 ({1} \<union> {})))"
    by (intro node [of _ _ _ "[1]"]) (auto simp: sample_nheap_def)
  then have "atoms_at sample_nheap [3] [AtomEx [Atom T_ID ''a'' 1 1]] (insert 3 (insert 2 ({1} \<union> {})) \<union> {})" by (intro cons nil) auto
  then show ?thesis by (auto simp: expr_at_def sample_nheap_def insert_commute)
qed

theorem heap_actions_witness:
  "returns (action_first (Some 5) 3 sample_nheap) (\<lambda>h'. expr_at h' 5 [AtomEx [Atom T_ID ''a'' 1 1]] (insert 5 {1, 2, 3}))"
proof -
  have "atom_at sample_nheap 1 (Atom T_ID ''a'' 1 1) {1}" by (rule leaf) (simp add: sample_nheap_def)
  then have "atoms_at sample_nheap [1] [Atom T_ID ''a'' 1 1] ({1} \<union> {})" by (intro cons nil) auto
  then have "atom_at sample_nheap 3 (AtomEx [Atom T_ID ''a'' 1 1]) (insert 3 (insert 2 ({1} \<union> {})))"
    by (intro node [of _ _ _ "[1]"]) (auto simp: sample_nheap_def)
  then have "atom_at sample_nheap 3 (AtomEx [Atom T_ID ''a'' 1 1]) {1, 2, 3}" by (simp add: insert_commute)
  moreover have "sample_nheap 5 = None" by (simp add: sample_nheap_def)
  ultimately show ?thesis using heap_actions by blast
qed

theorem Expr_delete_exact_witness: "Expr_delete 10 4 sample_nheap = Ret (sample_nheap |` (- {1, 2, 3, 4}))"
  using Expr_delete_exact [OF sample_nheap_expr, of 10] by (simp add: expr_depth_def)

end
