(* ===== verification/Lock_Free.thy ===== *)
theory Lock_Free
  imports Sperm_Prelude
begin

text \<open>
  \<^verbatim>\<open>SampleMemoryAllcator\<close> of \<^verbatim>\<open>common/lkfree.h\<close>: a free list on which threads allocate and free entries with
  compare-and-swap. Entries are numbered from 1, 0 is the null pointer. Every access to \<^verbatim>\<open>head_\<close> and to a
  \<^verbatim>\<open>next\<close> field is a step of its own, so threads interleave between them.
\<close>

section \<open>The allocator\<close>

text \<open>
  Where a thread is: outside, in \<^verbatim>\<open>alloc\<close> before it reads \<^verbatim>\<open>head_\<close>, before it reads \<^verbatim>\<open>t->next\<close> and before its
  compare-and-swap, and likewise in \<^verbatim>\<open>free\<close>.
\<close>

datatype lkpc = Outside | AllocRead | AllocNext nat | AllocCas nat nat
  | FreeRead nat | FreeLink nat nat | FreeCas nat nat

text \<open>\<open>held\<close> are the entries that \<^verbatim>\<open>alloc\<close> has handed out and that were not freed since.\<close>

record lkfree =
  lk_head :: nat
  lk_next :: "nat \<Rightarrow> nat"
  lk_threads :: "lkpc list"
  lk_held :: "nat list"

text \<open>The constructor chains the \<open>n\<close> entries of the arena; \<open>k\<close> threads use it.\<close>

definition lk_init :: "nat \<Rightarrow> nat \<Rightarrow> lkfree exec" where
  "lk_init n k =
     exec_bind (exec_fold (\<lambda>i a. vec_put a (i - 1) (nat i + 1)) [1..int n - 1] (replicate n (0 :: nat))) (\<lambda>a.
     exec_bind (vec_put a (int n - 1) 0) (\<lambda>a.
     Ret \<lparr>lk_head = 1, lk_next = (\<lambda>e. if 1 \<le> e \<and> e \<le> n then a ! (e - 1) else 0),
          lk_threads = replicate k Outside, lk_held = []\<rparr>))"

definition lk_pc :: "lkfree \<Rightarrow> nat \<Rightarrow> lkpc \<Rightarrow> lkfree" where
  "lk_pc s i pc = s\<lparr>lk_threads := (lk_threads s)[i := pc]\<rparr>"

text \<open>\<open>alloc_step\<close> and \<open>free_step\<close> are the next statement of the loops, for a thread that is inside.\<close>

definition alloc_step :: "nat \<Rightarrow> lkfree \<Rightarrow> lkfree" where
  "alloc_step i s = (case lk_threads s ! i of
     AllocRead \<Rightarrow> if lk_head s \<noteq> 0 then lk_pc s i (AllocNext (lk_head s)) else s
   | AllocNext t \<Rightarrow> lk_pc s i (AllocCas t (lk_next s t))
   | AllocCas t n \<Rightarrow>
       if lk_head s = t then lk_pc (s\<lparr>lk_head := n, lk_held := t # lk_held s\<rparr>) i Outside
       else lk_pc s i AllocRead
   | _ \<Rightarrow> s)"

definition free_step :: "nat \<Rightarrow> lkfree \<Rightarrow> lkfree" where
  "free_step i s = (case lk_threads s ! i of
     FreeRead e \<Rightarrow> lk_pc s i (FreeLink e (lk_head s))
   | FreeLink e t \<Rightarrow> lk_pc (s\<lparr>lk_next := (lk_next s)(e := t)\<rparr>) i (FreeCas e t)
   | FreeCas e t \<Rightarrow>
       if lk_head s = t then lk_pc (s\<lparr>lk_head := e\<rparr>) i Outside
       else lk_pc s i (FreeRead e)
   | _ \<Rightarrow> s)"

fun allocating :: "lkpc \<Rightarrow> bool" where
  "allocating AllocRead = True"
| "allocating (AllocNext t) = True"
| "allocating (AllocCas t n) = True"
| "allocating pc = False"

fun freeing :: "lkpc \<Rightarrow> nat list" where
  "freeing (FreeRead e) = [e]"
| "freeing (FreeLink e t) = [e]"
| "freeing (FreeCas e t) = [e]"
| "freeing pc = []"

text \<open>
  With \<open>solo\<close> a thread calls \<^verbatim>\<open>alloc\<close> only while no other thread is in it (the callers serialise their
  allocations); the class itself does not require it.
\<close>

inductive lk_step :: "bool \<Rightarrow> lkfree \<Rightarrow> lkfree \<Rightarrow> bool" for solo where
  call_alloc: "i < length (lk_threads s) \<Longrightarrow> lk_threads s ! i = Outside \<Longrightarrow>
     solo \<longrightarrow> list_all (\<lambda>pc. \<not> allocating pc) (lk_threads s) \<Longrightarrow> lk_step solo s (lk_pc s i AllocRead)"
| call_free: "i < length (lk_threads s) \<Longrightarrow> lk_threads s ! i = Outside \<Longrightarrow> e \<in> set (lk_held s) \<Longrightarrow>
     lk_step solo s (lk_pc (s\<lparr>lk_held := remove1 e (lk_held s)\<rparr>) i (FreeRead e))"
| in_alloc: "i < length (lk_threads s) \<Longrightarrow> allocating (lk_threads s ! i) \<Longrightarrow> lk_step solo s (alloc_step i s)"
| in_free: "i < length (lk_threads s) \<Longrightarrow> freeing (lk_threads s ! i) \<noteq> [] \<Longrightarrow> lk_step solo s (free_step i s)"

section \<open>The free list\<close>

fun chain :: "(nat \<Rightarrow> nat) \<Rightarrow> nat \<Rightarrow> nat list \<Rightarrow> bool" where
  "chain f h [] = (h = 0)"
| "chain f h (x # xs) = (h = x \<and> x \<noteq> 0 \<and> chain f (f x) xs)"

lemma chain_upd: "e \<notin> set xs \<Longrightarrow> chain (f(e := t)) h xs = chain f h xs"
  by (induction xs arbitrary: h) auto

lemma chain_cong: "(\<And>x. x \<in> set xs \<Longrightarrow> f x = g x) \<Longrightarrow> chain f h xs = chain g h xs"
  by (induction xs arbitrary: h) auto

definition all_freeing :: "lkfree \<Rightarrow> nat list" where
  "all_freeing s = concat (map freeing (lk_threads s))"

text \<open>
  The invariant of serialised allocation: the entries are partitioned into the free list, the entries
  handed out and those being freed, at most one thread is in \<^verbatim>\<open>alloc\<close>, and what it has read of the list
  still holds.
\<close>

definition pc_ok :: "(nat \<Rightarrow> nat) \<Rightarrow> nat list \<Rightarrow> lkpc \<Rightarrow> bool" where
  "pc_ok f xs pc = (case pc of AllocNext t \<Rightarrow> t \<in> set xs | AllocCas t n \<Rightarrow> t \<in> set xs \<and> f t = n
     | FreeCas e t \<Rightarrow> f e = t | _ \<Rightarrow> True)"

definition lk_inv :: "nat \<Rightarrow> lkfree \<Rightarrow> bool" where
  "lk_inv n s \<longleftrightarrow> (\<exists>xs. chain (lk_next s) (lk_head s) xs \<and>
     mset xs + mset (lk_held s) + mset (all_freeing s) = mset [1..<Suc n] \<and>
     list_all (pc_ok (lk_next s) xs) (lk_threads s)) \<and>
     length (filter allocating (lk_threads s)) \<le> 1"

lemma mset_all_freeing_upd:
  assumes "i < length ts"
  shows "mset (concat (map freeing (ts[i := pc]))) + mset (freeing (ts ! i)) = mset (concat (map freeing ts)) + mset (freeing pc)"
  by (subst (3) id_take_nth_drop [OF assms]) (simp add: upd_conv_take_nth_drop [OF assms])

lemma filter_length_upd:
  assumes "i < length ts" "length (filter P ts) \<le> 1" "P pc \<longrightarrow> P (ts ! i) \<or> list_all (\<lambda>x. \<not> P x) ts"
  shows "length (filter P (ts[i := pc])) \<le> 1"
proof -
  have "length (filter P ts) = length (filter P (take i ts)) + of_bool (P (ts ! i)) + length (filter P (drop (Suc i) ts))"
    by (subst (1) id_take_nth_drop [OF assms(1)]) simp
  moreover have "length (filter P (ts[i := pc])) = length (filter P (take i ts)) + of_bool (P pc) + length (filter P (drop (Suc i) ts))"
    by (simp add: upd_conv_take_nth_drop [OF assms(1)])
  moreover have "list_all (\<lambda>x. \<not> P x) ts \<Longrightarrow> filter P (take i ts) = [] \<and> filter P (drop (Suc i) ts) = []"
    by (auto simp: list_all_iff filter_empty_conv dest: in_set_takeD in_set_dropD)
  ultimately show ?thesis using assms(2,3) by (auto split: if_splits)
qed

lemma only_one:
  assumes "length (filter P ts) \<le> 1" "i < length ts" "j < length ts" "i \<noteq> j" "P (ts ! i)"
  shows "\<not> P (ts ! j)"
proof
  assume "P (ts ! j)"
  have "{i, j} \<subseteq> {k. k < length ts \<and> P (ts ! k)}" using assms \<open>P (ts ! j)\<close> by auto
  then have "card {i, j} \<le> card {k. k < length ts \<and> P (ts ! k)}" by (intro card_mono) auto
  then show False using assms(1,4) by (simp add: length_filter_conv_card)
qed

text \<open>The facts about a state with a given free list, and the rule for a step of thread \<open>i\<close>.\<close>

definition lk_split :: "nat \<Rightarrow> lkfree \<Rightarrow> nat list \<Rightarrow> bool" where
  "lk_split n s xs \<longleftrightarrow> chain (lk_next s) (lk_head s) xs \<and>
     mset xs + mset (lk_held s) + mset (all_freeing s) = mset [1..<Suc n] \<and>
     list_all (pc_ok (lk_next s) xs) (lk_threads s) \<and> length (filter allocating (lk_threads s)) \<le> 1"

lemma lk_inv_split: "lk_inv n s \<longleftrightarrow> (\<exists>xs. lk_split n s xs)"
  by (auto simp: lk_inv_def lk_split_def)

lemma lk_split_distinct: "lk_split n s xs \<Longrightarrow> distinct (xs @ lk_held s @ all_freeing s)"
  unfolding lk_split_def using mset_eq_imp_distinct_iff [of "xs @ lk_held s @ all_freeing s" "[1..<Suc n]"] by (simp add: ac_simps)

lemma lk_split_upd:
  assumes "lk_split n s xs" "i < length (lk_threads s)"
    and "lk_threads s' = (lk_threads s)[i := pc]"
    and "chain (lk_next s') (lk_head s') ys" "pc_ok (lk_next s') ys pc"
    and "mset ys + mset (lk_held s') + mset (freeing pc) = mset xs + mset (lk_held s) + mset (freeing (lk_threads s ! i))"
    and "\<And>j. j < length (lk_threads s) \<Longrightarrow> j \<noteq> i \<Longrightarrow> pc_ok (lk_next s) xs (lk_threads s ! j) \<Longrightarrow> pc_ok (lk_next s') ys (lk_threads s ! j)"
    and "allocating pc \<longrightarrow> allocating (lk_threads s ! i) \<or> list_all (\<lambda>x. \<not> allocating x) (lk_threads s)"
  shows "lk_inv n s'"
proof -
  let ?F = "mset (all_freeing s)" and ?F' = "mset (all_freeing s')" and ?fr = "mset (freeing (lk_threads s ! i))"
  have F: "?F' + ?fr = ?F + mset (freeing pc)"
    using mset_all_freeing_upd [OF assms(2), of pc] by (simp add: all_freeing_def assms(3))
  have "mset ys + mset (lk_held s') + ?F' + ?fr = mset ys + mset (lk_held s') + mset (freeing pc) + ?F"
    using F by (simp add: ac_simps)
  also have "\<dots> = mset xs + mset (lk_held s) + ?F + ?fr" unfolding assms(6) by (simp add: ac_simps)
  finally have "mset ys + mset (lk_held s') + ?F' = mset xs + mset (lk_held s) + ?F" by simp
  moreover have "list_all (pc_ok (lk_next s') ys) (lk_threads s')"
  proof -
    have "pc_ok (lk_next s') ys ((lk_threads s)[i := pc] ! j)" if "j < length (lk_threads s)" for j
      using assms(1,5) assms(7) [OF that] that by (cases "j = i") (auto simp: lk_split_def list_all_length)
    then show ?thesis by (simp add: assms(3) list_all_length)
  qed
  moreover have "length (filter allocating (lk_threads s')) \<le> 1"
    using assms(1,2,8) unfolding assms(3) by (intro filter_length_upd) (auto simp: lk_split_def)
  ultimately show ?thesis using assms(1,4) unfolding lk_inv_split lk_split_def by metis
qed

lemma lk_pc_simps [simp]:
  "lk_threads (lk_pc s i pc) = (lk_threads s)[i := pc]" "lk_head (lk_pc s i pc) = lk_head s"
  "lk_next (lk_pc s i pc) = lk_next s" "lk_held (lk_pc s i pc) = lk_held s"
  by (simp_all add: lk_pc_def)

lemma distinct_concat_nth:
  assumes "distinct (concat xss)" "i < j" "j < length xss"
  shows "set (xss ! i) \<inter> set (xss ! j) = {}"
proof -
  have "xss = take i xss @ xss ! i # drop (Suc i) xss" using assms by (simp add: id_take_nth_drop)
  then have "distinct (concat (take i xss @ xss ! i # drop (Suc i) xss))" using assms(1) by simp
  moreover have "xss ! j \<in> set (drop (Suc i) xss)" using assms(2,3) by (auto simp: in_set_conv_nth intro!: exI [of _ "j - Suc i"])
  ultimately show ?thesis by auto
qed

lemma freeing_not_free:
  assumes "lk_split n s xs" "i < length (lk_threads s)" "e \<in> set (freeing (lk_threads s ! i))"
  shows "e \<notin> set xs" "\<And>j. j < length (lk_threads s) \<Longrightarrow> j \<noteq> i \<Longrightarrow> e \<notin> set (freeing (lk_threads s ! j))"
proof -
  have d: "distinct (xs @ lk_held s @ concat (map freeing (lk_threads s)))" using lk_split_distinct [OF assms(1)] by (simp add: all_freeing_def)
  have "e \<in> set (concat (map freeing (lk_threads s)))" using assms(2,3) by (auto intro: bexI [of _ "lk_threads s ! i"])
  then show "e \<notin> set xs" using d by auto
  fix j assume j: "j < length (lk_threads s)" "j \<noteq> i"
  then have "set (freeing (lk_threads s ! i)) \<inter> set (freeing (lk_threads s ! j)) = {}"
    using d assms(2) distinct_concat_nth [of "map freeing (lk_threads s)" i j] distinct_concat_nth [of "map freeing (lk_threads s)" j i]
    by (cases "i < j") auto
  then show "e \<notin> set (freeing (lk_threads s ! j))" using assms(2,3) j by auto
qed

lemma pc_ok_same:
  assumes "\<And>x. x \<in> set xs \<Longrightarrow> x \<in> set ys \<and> f' x = f x" "\<And>e. e \<in> set (freeing pc) \<Longrightarrow> f' e = f e"
  shows "pc_ok f xs pc \<Longrightarrow> pc_ok f' ys pc"
  using assms by (cases pc) (auto simp: pc_ok_def)

lemma alloc_step_inv:
  assumes "lk_split n s xs" "i < length (lk_threads s)" "allocating (lk_threads s ! i)"
  shows "lk_inv n (alloc_step i s)"
proof -
  have sp: "chain (lk_next s) (lk_head s) xs" "pc_ok (lk_next s) xs (lk_threads s ! i)" "length (filter allocating (lk_threads s)) \<le> 1"
    using assms by (auto simp: lk_split_def list_all_length)
  show ?thesis
  proof (cases "lk_threads s ! i")
    case AllocRead
    show ?thesis
    proof (cases "lk_head s = 0")
      case True
      then show ?thesis using AllocRead assms(1) by (auto simp: alloc_step_def lk_inv_split)
    next
      case False
      then have "lk_head s \<in> set xs" using sp(1) by (cases xs) auto
      then show ?thesis using False AllocRead sp(1)
        by (auto simp: alloc_step_def pc_ok_def intro!: lk_split_upd [OF assms(1,2), where ys = xs])
    qed
  next
    case (AllocNext t)
    then show ?thesis using assms sp by (auto simp: alloc_step_def pc_ok_def intro!: lk_split_upd [OF assms(1,2), where ys = xs])
  next
    case (AllocCas t m)
    show ?thesis
    proof (cases "lk_head s = t")
      case True
      with sp AllocCas obtain ys where ys: "xs = t # ys" "lk_next s t = m" by (cases xs) (auto simp: pc_ok_def)
      have na: "\<not> allocating (lk_threads s ! j)" if "j < length (lk_threads s)" "j \<noteq> i" for j
        using only_one [OF sp(3) assms(2) that(1)] that(2) assms(3) by auto
      have "pc_ok (lk_next s) ys (lk_threads s ! j)" if "j < length (lk_threads s)" "j \<noteq> i" "pc_ok (lk_next s) xs (lk_threads s ! j)" for j
        using that(3) na [OF that(1,2)] by (cases "lk_threads s ! j") (auto simp: pc_ok_def)
      then show ?thesis using True AllocCas ys sp(1)
        by (auto simp: alloc_step_def pc_ok_def intro!: lk_split_upd [OF assms(1,2), where ys = ys])
    next
      case False
      then show ?thesis using AllocCas sp by (auto simp: alloc_step_def pc_ok_def intro!: lk_split_upd [OF assms(1,2), where ys = xs])
    qed
  qed (use assms(3) in auto)
qed

lemma free_step_inv:
  assumes "lk_split n s xs" "i < length (lk_threads s)" "freeing (lk_threads s ! i) \<noteq> []"
  shows "lk_inv n (free_step i s)"
proof -
  have sp: "chain (lk_next s) (lk_head s) xs" "pc_ok (lk_next s) xs (lk_threads s ! i)"
    using assms by (auto simp: lk_split_def list_all_length)
  have fr: "\<And>e. e \<in> set (freeing (lk_threads s ! i)) \<Longrightarrow> e \<notin> set xs"
    "\<And>e j. e \<in> set (freeing (lk_threads s ! i)) \<Longrightarrow> j < length (lk_threads s) \<Longrightarrow> j \<noteq> i \<Longrightarrow> e \<notin> set (freeing (lk_threads s ! j))"
    using freeing_not_free [OF assms(1,2)] by auto
  show ?thesis
  proof (cases "lk_threads s ! i")
    case (FreeRead e)
    then show ?thesis using sp by (auto simp: free_step_def pc_ok_def intro!: lk_split_upd [OF assms(1,2), where ys = xs])
  next
    case (FreeLink e t)
    then have "pc_ok ((lk_next s)(e := t)) xs (lk_threads s ! j)" if "j < length (lk_threads s)" "j \<noteq> i" "pc_ok (lk_next s) xs (lk_threads s ! j)" for j
      using fr that by (intro pc_ok_same [OF _ _ that(3)]) auto
    then show ?thesis using FreeLink sp(1) fr(1) [of e]
      by (auto simp: free_step_def pc_ok_def chain_upd intro!: lk_split_upd [OF assms(1,2), where ys = xs])
  next
    case (FreeCas e t)
    show ?thesis
    proof (cases "lk_head s = t")
      case True
      have "e \<in> set (all_freeing s)" using FreeCas nth_mem [OF assms(2)] by (auto simp: all_freeing_def intro!: bexI [of _ "FreeCas e t"])
      then have "e \<in># mset [1..<Suc n]" using assms(1) unfolding lk_split_def by (metis set_mset_mset union_iff)
      then have e: "e \<noteq> 0" by auto
      have "pc_ok (lk_next s) (e # xs) (lk_threads s ! j)" if "pc_ok (lk_next s) xs (lk_threads s ! j)" for j
        by (rule pc_ok_same [OF _ _ that]) auto
      then show ?thesis using True FreeCas sp e
        by (auto simp: free_step_def pc_ok_def intro!: lk_split_upd [OF assms(1,2), where ys = "e # xs"])
    next
      case False
      then show ?thesis using FreeCas sp by (auto simp: free_step_def pc_ok_def intro!: lk_split_upd [OF assms(1,2), where ys = xs])
    qed
  qed (use assms(3) in auto)
qed

lemma lk_step_inv: "lk_step True s s' \<Longrightarrow> lk_inv n s \<Longrightarrow> lk_inv n s'"
proof (induction rule: lk_step.induct)
  case (call_alloc i s)
  then obtain xs where xs: "lk_split n s xs" by (auto simp: lk_inv_split)
  show ?case using call_alloc xs by (auto simp: pc_ok_def lk_split_def intro!: lk_split_upd [OF xs, where ys = xs])
next
  case (call_free i s e)
  then obtain xs where xs: "lk_split n s xs" by (auto simp: lk_inv_split)
  show ?case using call_free xs by (auto simp: pc_ok_def lk_split_def intro!: lk_split_upd [OF xs, where ys = xs])
next
  case (in_alloc i s)
  then show ?case using alloc_step_inv by (auto simp: lk_inv_split)
next
  case (in_free i s)
  then show ?case using free_step_inv by (auto simp: lk_inv_split)
qed

section \<open>Runs\<close>

lemma lk_arena:
  assumes "0 < n"
  shows "returns (exec_fold (\<lambda>i a. vec_put a (i - 1) (nat i + 1)) [1..int n - 1] (replicate n (0 :: nat)))
    (\<lambda>a. length a = n \<and> (\<forall>k < n - 1. a ! k = k + 2))"
proof -
  have "returns (exec_fold (\<lambda>i a. vec_put a (i - 1) (nat i + 1)) [1..int n - 1] (replicate n (0 :: nat)))
    (\<lambda>a. length a = n \<and> (\<forall>k < nat (int n - 1 + 1 - 1). a ! k = k + 2))"
  proof (rule exec_fold_upto [where P = "\<lambda>i a. length a = n \<and> (\<forall>k < nat (i - 1). a ! k = k + 2)"])
    fix i and a :: "nat list"
    assume i: "1 \<le> i" "i \<le> int n - 1" and a: "length a = n \<and> (\<forall>k < nat (i - 1). a ! k = k + 2)"
    have "nat (i + 1 - 1) = Suc (nat (i - 1))" "nat i = nat (i - 1) + 1" using i by auto
    with i a show "returns (vec_put a (i - 1) (nat i + 1)) (\<lambda>a. length a = n \<and> (\<forall>k < nat (i + 1 - 1). a ! k = k + 2))"
      by (auto simp: nth_list_update less_Suc_eq)
  qed (use assms in auto)
  then show ?thesis by (simp add: nat_diff_distrib)
qed

lemma chain_upt: "m \<le> n \<Longrightarrow> (\<And>k. m \<le> k \<Longrightarrow> k < n \<Longrightarrow> f k = k + 1) \<Longrightarrow> f n = 0 \<Longrightarrow> 0 < m \<Longrightarrow> chain f m [m..<Suc n]"
proof (induction "n - m" arbitrary: m)
  case (Suc d)
  then have "chain f (m + 1) [m + 1..<Suc n]" by (intro Suc.hyps(1)) auto
  moreover have "[m..<Suc n] = m # [m + 1..<Suc n]" using Suc.hyps(2) Suc.prems(1) by (subst upt_conv_Cons) auto
  ultimately show ?case using Suc by (simp del: upt_Suc)
qed simp

lemma lk_init_inv:
  assumes "0 < n"
  shows "returns (lk_init n k) (lk_inv n)"
proof -
  let ?arena = "exec_fold (\<lambda>i a. vec_put a (i - 1) (nat i + 1)) [1..int n - 1] (replicate n (0 :: nat))"
  obtain a where a: "?arena = Ret a" "length a = n" "\<forall>k < n - 1. a ! k = k + 2" using lk_arena [OF assms] by (auto simp: returns_iff)
  let ?f = "\<lambda>e. if 1 \<le> e \<and> e \<le> n then a[n - Suc 0 := 0] ! (e - 1) else 0"
  let ?s = "\<lparr>lk_head = 1, lk_next = ?f, lk_threads = replicate k Outside, lk_held = []\<rparr>"
  have "?f e = e + 1" if "1 \<le> e" "e < n" for e
  proof -
    have "a ! (e - 1) = e - 1 + 2" using a(3) that by auto
    with that a(2) show ?thesis by (simp add: nth_list_update)
  qed
  then have "chain ?f 1 [1..<Suc n]" using assms a(2) by (intro chain_upt) auto
  then have "lk_split n ?s [1..<Suc n]"
    by (auto simp: lk_split_def all_freeing_def pc_ok_def list_all_iff simp del: upt_Suc)
  then have "lk_inv n ?s" by (auto simp: lk_inv_split)
  then show ?thesis using a(1,2) assms unfolding lk_init_def by (simp add: nat_diff_distrib)
qed

text \<open>
  C10. If the callers serialise their allocations, no interleaving of allocations and frees hands an entry out
  twice: after every run the free list is a proper list, and every entry is either in it, or held once,
  or being freed by one thread.
\<close>

theorem lkfree_serialised_safe:
  assumes "lk_init n k = Ret s0" "0 < n" "(lk_step True)\<^sup>*\<^sup>* s0 s"
  shows "\<exists>xs. chain (lk_next s) (lk_head s) xs \<and> distinct (xs @ lk_held s @ all_freeing s) \<and>
     set (xs @ lk_held s @ all_freeing s) = {1..n}"
proof -
  have "lk_inv n s0" using lk_init_inv [OF assms(2), of k] assms(1) by simp
  with assms(3) have "lk_inv n s" by (induction rule: rtranclp_induct) (auto intro: lk_step_inv)
  then obtain xs where xs: "lk_split n s xs" by (auto simp: lk_inv_split)
  have "mset (xs @ lk_held s @ all_freeing s) = mset [1..<Suc n]"
    using xs unfolding lk_split_def by (simp add: ac_simps del: upt_Suc)
  then have "set (xs @ lk_held s @ all_freeing s) = set [1..<Suc n]" by (rule mset_eq_setD)
  then have "set (xs @ lk_held s @ all_freeing s) = {1..n}" unfolding set_upt atLeastLessThanSuc_atLeastAtMost .
  then show ?thesis using xs lk_split_distinct [OF xs] by (auto simp: lk_split_def)
qed

definition lk_two :: lkfree where
  "lk_two = \<lparr>lk_head = 1, lk_next = (\<lambda>e. if 1 \<le> e \<and> e \<le> 2 then [2, 0] ! (e - 1) else 0),
     lk_threads = [Outside, Outside], lk_held = []\<rparr>"

lemma lk_init_two: "lk_init 2 2 = Ret lk_two"
  unfolding lk_init_def lk_two_def numeral_2_eq_2 by simp

theorem lkfree_serialised_safe_witness:
  "\<exists>xs. chain (lk_next (lk_pc lk_two 0 AllocRead)) (lk_head (lk_pc lk_two 0 AllocRead)) xs \<and>
     distinct (xs @ lk_held (lk_pc lk_two 0 AllocRead) @ all_freeing (lk_pc lk_two 0 AllocRead)) \<and>
     set (xs @ lk_held (lk_pc lk_two 0 AllocRead) @ all_freeing (lk_pc lk_two 0 AllocRead)) = {1..2}"
proof (rule lkfree_serialised_safe [OF lk_init_two])
  have "lk_step True lk_two (lk_pc lk_two 0 AllocRead)"
    by (rule lk_step.call_alloc) (simp_all add: lk_two_def)
  then show "(lk_step True)\<^sup>*\<^sup>* lk_two (lk_pc lk_two 0 AllocRead)" by blast
qed simp

section \<open>The ABA problem\<close>

text \<open>A schedule names the thread that moves: it calls a function or executes its next statement.\<close>

datatype lkact = CallAlloc nat | CallFree nat nat | Go nat

fun lk_exec :: "lkact \<Rightarrow> lkfree \<Rightarrow> lkfree option" where
  "lk_exec (CallAlloc i) s = (if i < length (lk_threads s) \<and> lk_threads s ! i = Outside then Some (lk_pc s i AllocRead) else None)"
| "lk_exec (CallFree i e) s = (if i < length (lk_threads s) \<and> lk_threads s ! i = Outside \<and> e \<in> set (lk_held s)
     then Some (lk_pc (s\<lparr>lk_held := remove1 e (lk_held s)\<rparr>) i (FreeRead e)) else None)"
| "lk_exec (Go i) s = (if i < length (lk_threads s) then
     (if allocating (lk_threads s ! i) then Some (alloc_step i s)
      else if freeing (lk_threads s ! i) \<noteq> [] then Some (free_step i s) else None) else None)"

fun lk_schedule :: "lkact list \<Rightarrow> lkfree \<Rightarrow> lkfree option" where
  "lk_schedule [] s = Some s"
| "lk_schedule (a # as) s = Option.bind (lk_exec a s) (lk_schedule as)"

lemma lk_exec_step: "lk_exec a s = Some s' \<Longrightarrow> lk_step False s s'"
  by (cases a) (auto split: if_splits intro: lk_step.intros)

lemma lk_schedule_steps: "lk_schedule as s = Some s' \<Longrightarrow> (lk_step False)\<^sup>*\<^sup>* s s'"
proof (induction as arbitrary: s)
  case (Cons a as)
  then obtain s1 where "lk_exec a s = Some s1" "lk_schedule as s1 = Some s'" by (auto simp: bind_eq_Some_conv)
  with Cons.IH show ?case by (auto intro: converse_rtranclp_into_rtranclp lk_exec_step)
qed simp

text \<open>
  Thread 0 reads entry 1 and its successor 2; thread 1 allocates both entries and frees 1 again; the
  compare-and-swap of thread 0 succeeds and makes entry 2 the head, although it is in use.
\<close>

definition aba :: "lkact list" where
  "aba = [CallAlloc 0, Go 0, Go 0, CallAlloc 1, Go 1, Go 1, Go 1, CallAlloc 1, Go 1, Go 1, Go 1,
     CallFree 1 1, Go 1, Go 1, Go 1, Go 0, CallAlloc 0, Go 0, Go 0, Go 0]"

lemma aba_run: "map_option lk_held (lk_schedule aba lk_two) = Some [2, 1, 2]"
  by code_simp

text \<open>An allocation on an empty list never returns null: it spins, its step changes nothing.\<close>

lemma alloc_spins: "lk_head s = 0 \<Longrightarrow> lk_threads s ! i = AllocRead \<Longrightarrow> alloc_step i s = s"
  by (simp add: alloc_step_def)

text \<open>
  Without that discipline the allocator is not safe: with two entries and two threads, the
  implementation hands entry 2 out twice.
\<close>

theorem lkfree_aba:
  "lk_init 2 2 = Ret lk_two \<and> (\<exists>s. (lk_step False)\<^sup>*\<^sup>* lk_two s \<and> lk_held s = [2, 1, 2])"
proof (intro conjI lk_init_two)
  obtain s where "lk_schedule aba lk_two = Some s" "lk_held s = [2, 1, 2]" using aba_run by (cases "lk_schedule aba lk_two") auto
  then show "\<exists>s. (lk_step False)\<^sup>*\<^sup>* lk_two s \<and> lk_held s = [2, 1, 2]" using lk_schedule_steps by blast
qed

end
