(* ===== verification/Proto_Rpc.thy ===== *)
theory Proto_Rpc
  imports Rpc
begin

text \<open>
  \<^verbatim>\<open>sasuke/proto_rpc.h\<close>: requests, responses and services whose objects are protobuf messages. The message
  type is a parameter, as in \<open>Serializer\<close>: \<open>byte_size\<close>, \<open>to_array\<close> and \<open>parse\<close> are its \<^verbatim>\<open>ByteSize\<close>,
  \<^verbatim>\<open>SerializeToArray\<close> and \<^verbatim>\<open>ParseFromCodedStream\<close>.
\<close>

section \<open>Requests, responses and services\<close>

definition proto_serialize ::
    "(nat \<Rightarrow> u64 \<Rightarrow> bool) \<Rightarrow> ('m \<Rightarrow> u64) \<Rightarrow> ('m \<Rightarrow> u64 \<Rightarrow> u8 list option) \<Rightarrow> 'm \<Rightarrow> writer \<Rightarrow> (bool \<times> writer) exec" where
  "proto_serialize mal byte_size to_array this bytes =
     exec_bind (SerializeToByteArray mal byte_size to_array this (Some bytes)) (\<lambda>(ok, bytes'). Ret (ok, case_option bytes (\<lambda>w. w) bytes'))"

definition proto_deserialize :: "(u8 list \<Rightarrow> int \<Rightarrow> 'm option) \<Rightarrow> reader \<Rightarrow> ('m option \<times> reader) exec" where
  "proto_deserialize parse bytes =
     exec_bind (DeserizlizeFromByteArray parse (Some bytes)) (\<lambda>(obj, bytes'). Ret (obj, case_option bytes (\<lambda>r. r) bytes'))"

text \<open>
  The service allocates \<^verbatim>\<open>Request<REQUEST>\<close> and \<^verbatim>\<open>Response<RESPONSE>\<close> objects itself, so the casts in \<^verbatim>\<open>run\<close> succeed;
  \<^verbatim>\<open>handleRequest\<close> fills the new response \<open>res\<close>.
\<close>

definition proto_Service ::
    "(nat \<Rightarrow> u64 \<Rightarrow> bool) \<Rightarrow> (u8 list \<Rightarrow> int \<Rightarrow> 'q option) \<Rightarrow> ('p \<Rightarrow> u64) \<Rightarrow> ('p \<Rightarrow> u64 \<Rightarrow> u8 list option) \<Rightarrow>
     'p \<Rightarrow> ('q \<Rightarrow> 'p \<Rightarrow> 'p) \<Rightarrow> ('q, 'p) service" where
  "proto_Service mal parse byte_size to_array res handleRequest =
     \<lparr>req_deserialize = proto_deserialize parse, srv_run = (\<lambda>req. handleRequest req res),
      res_serialize = proto_serialize mal byte_size to_array\<rparr>"

section \<open>The framing is a codec\<close>

text \<open>
  What protobuf documents: \<^verbatim>\<open>SerializeToArray\<close> fills exactly \<^verbatim>\<open>ByteSize\<close> bytes, and parsing those bytes yields
  an equal message. \<open>valid\<close> are the messages of less than \<open>2 ^ 31\<close> bytes with all required fields set.
\<close>

definition protobuf ::
    "('m \<Rightarrow> u64) \<Rightarrow> ('m \<Rightarrow> u64 \<Rightarrow> u8 list option) \<Rightarrow> (u8 list \<Rightarrow> int \<Rightarrow> 'm option) \<Rightarrow> ('m \<Rightarrow> u8 list) \<Rightarrow> ('m \<Rightarrow> bool) \<Rightarrow> bool" where
  "protobuf byte_size to_array parse blob valid \<longleftrightarrow> (\<forall>x. valid x \<longrightarrow>
     to_array x (byte_size x) = Some (blob x) \<and> length (blob x) = unat (byte_size x) \<and> length (blob x) < 2 ^ 31 \<and>
     (\<forall>rest. parse (blob x @ rest) (int (length (blob x))) = Some x))"

lemma protobufD:
  assumes "protobuf byte_size to_array parse blob valid" "valid x"
  shows "to_array x (byte_size x) = Some (blob x)" "length (blob x) = unat (byte_size x)" "length (blob x) < 2 ^ 31"
    "parse (blob x @ rest) (int (length (blob x))) = Some x"
  using assms by (auto simp: protobuf_def)

definition proto_frame :: "('m \<Rightarrow> u64) \<Rightarrow> ('m \<Rightarrow> u8 list) \<Rightarrow> 'm \<Rightarrow> u8 list" where
  "proto_frame byte_size blob x = enc_uint64 (byte_size x) @ blob x"

lemma proto_frame_length:
  "protobuf byte_size to_array parse blob valid \<Longrightarrow> valid x \<Longrightarrow> length (proto_frame byte_size blob x) \<le> length (blob x) + 9"
  using length_enc_uint64_le [of "byte_size x"] by (simp add: proto_frame_def)

lemma proto_serialize_frame:
  assumes pb: "protobuf byte_size to_array parse blob valid" and x: "valid x"
    and w: "writer_inv w" "writer_holds w bs" "length bs + length (proto_frame byte_size blob x) \<le> 2 ^ 63"
  shows "\<exists>w'. proto_serialize heap_ok byte_size to_array x w = Ret (True, w') \<and> writer_inv w' \<and>
     writer_holds w' (bs @ proto_frame byte_size blob x)"
proof -
  let ?sz = "byte_size x" and ?e = "enc_uint64 (byte_size x)"
  obtain w1 where w1: "serialize_u64 (writer_write heap_ok) ?sz w = Ret (True, w1)" "writer_inv w1" "writer_holds w1 (bs @ ?e)"
    using wba_u64.out_enc [OF w(1,2), of ?sz] w(3) by (auto simp: proto_frame_def)
  have cur: "unat (wb_cur w1) = length (bs @ ?e)" using writer_holds_length [OF w1(2,3)] by simp
  have nn: "wb_bytes w1 \<noteq> NullP" using w1(2) cur enc_uint64_nonempty [of ?sz] by (auto simp: writer_inv_def)
  have fits: "unat (wb_cur w1) + unat ?sz \<le> 2 ^ 63" using cur w(3) protobufD [OF pb x] by (simp add: proto_frame_def)
  from writer_holds_store [OF w1(2,3) nn fits protobufD(2) [OF pb x]] w1(1) protobufD(1) [OF pb x]
  show ?thesis by (auto simp: proto_serialize_def SerializeToByteArray_def proto_frame_def)
qed

lemma proto_deserialize_frame:
  assumes pb: "protobuf byte_size to_array parse blob valid" and x: "valid x"
    and r: "reader_at r (proto_frame byte_size blob x @ rest)"
  shows "\<exists>r'. proto_deserialize parse r = Ret (Some x, r') \<and> reader_at r' rest"
proof -
  let ?sz = "byte_size x"
  note b = protobufD [OF pb x]
  obtain r1 where r1: "deserialize_u64 r = Ret (Some ?sz, r1)" "reader_at r1 (blob x @ rest)"
    using wba_u64.inn_enc [where x = ?sz and rest = "blob x @ rest"] r by (auto simp: proto_frame_def)
  have len: "sint (ucast ?sz :: u32) = int (length (blob x))" using b(2,3) by (simp add: sint_ucast_small)
  have sz: "of_nat (length (blob x)) = ?sz" using b(2) by simp
  obtain r2 where "reader_read False ?sz r1 = Ret (True, [], r2)" "reader_at r2 rest"
    using reader_at_read [OF r1(2), of False] sz by auto
  then show ?thesis using r1(1) reader_at_remain [OF r1(2)] len b(4)
    by (simp add: proto_deserialize_def DeserizlizeFromByteArray_def)
qed

lemma proto_codec:
  assumes pb: "protobuf byte_size to_array parse blob valid"
  shows "rpc_codec (proto_serialize heap_ok byte_size to_array) (proto_deserialize parse) (proto_frame byte_size blob) valid"
proof (intro codec.intro codec_axioms.intro)
  show "byte_sink (writer_write heap_ok) writer_inv writer_holds (2 ^ 63)" by (rule wba.byte_sink_axioms)
  show "proto_frame byte_size blob x \<noteq> []" for x using enc_uint64_nonempty [of "byte_size x"] by (simp add: proto_frame_def)
qed (use proto_serialize_frame [OF pb] proto_deserialize_frame [OF pb] in auto)

section \<open>Properties\<close>

text \<open>
  C4. A remote call with protobuf messages computes the service: the bytes the client sends make the
  dispatcher run \<^verbatim>\<open>handleRequest\<close> once on an equal request and a new response, and the bytes it answers are
  parsed by the client to the response that \<^verbatim>\<open>handleRequest\<close> left.
\<close>

theorem proto_rpc_call:
  assumes "protobuf qsize qto qparse qblob qvalid" "protobuf psize pto pparse pblob pvalid"
    and "length mth \<le> cap" "length mth < 2 ^ 62" "qvalid q" "pvalid (handle q res)"
  shows "\<exists>w bs w' out log.
    serialize_request heap_ok (proto_serialize heap_ok qsize qto) mth q (mk_writer True) = Ret (True, w) \<and> writer_holds w bs
    \<and> ServiceCallBack_handle cap (registerService mth (proto_Service heap_ok qparse psize pto res handle) disp)
        (whole_reader bs) (mk_writer True) = Ret (0, w', log)
    \<and> count_list log Ran = 1 \<and> writer_holds w' out
    \<and> Client_recv (proto_deserialize pparse) 1 0 out = Ret (0, Some (handle q res))"
proof -
  let ?s = "proto_Service heap_ok qparse psize pto res handle"
  have s: "req_deserialize ?s = proto_deserialize qparse" "res_serialize ?s = proto_serialize heap_ok psize pto"
    "srv_run ?s q = handle q res" by (simp_all add: proto_Service_def)
  have "length mth + 9 + length (proto_frame qsize qblob q) \<le> 2 ^ 63"
    using proto_frame_length [OF assms(1,5)] protobufD(3) [OF assms(1,5)] assms(4) by simp
  moreover have "length (proto_frame psize pblob (handle q res)) \<le> 2 ^ 63"
    using proto_frame_length [OF assms(2,6)] protobufD(3) [OF assms(2,6)] by simp
  ultimately show ?thesis
    using rpc_call_run [where s = ?s and mth = mth and cap = cap and q = q and disp = disp, unfolded s,
        OF proto_codec [OF assms(1)] proto_codec [OF assms(2)] assms(3,5,6)] by blast
qed

text \<open>A message of one byte, stored as itself.\<close>

lemma protobuf_byte:
  "protobuf (\<lambda>_. 1) (\<lambda>b _. Some [b]) (\<lambda>m n. if n = 1 \<and> m \<noteq> [] then Some (hd m) else None) (\<lambda>b :: u8. [b]) (\<lambda>_. True)"
  by (simp add: protobuf_def)

theorem proto_rpc_call_witness:
  "\<exists>w bs w' out log.
    serialize_request heap_ok (proto_serialize heap_ok (\<lambda>_. 1) (\<lambda>b _. Some [b])) [101] (7 :: u8) (mk_writer True) = Ret (True, w)
    \<and> writer_holds w bs
    \<and> ServiceCallBack_handle 100 (registerService [101] (proto_Service heap_ok
          (\<lambda>m n. if n = 1 \<and> m \<noteq> [] then Some (hd m) else None) (\<lambda>_. 1) (\<lambda>b _. Some [b]) 0 (\<lambda>q _. q + 1)) Map.empty)
        (whole_reader bs) (mk_writer True) = Ret (0, w', log)
    \<and> count_list log Ran = 1 \<and> writer_holds w' out
    \<and> Client_recv (proto_deserialize (\<lambda>m n. if n = 1 \<and> m \<noteq> [] then Some (hd m) else None)) 1 0 out = Ret (0, Some (8 :: u8))"
  using proto_rpc_call [OF protobuf_byte protobuf_byte, where mth = "[101]" and cap = 100 and q = 7 and res = 0
      and handle = "\<lambda>q _. q + 1" and disp = Map.empty] by simp

end
