(* ===== verification/Rpc_Client.thy ===== *)
theory Rpc_Client
  imports Rpc Locks Utils
begin

text \<open>
  The rest of \<^verbatim>\<open>sasuke/rpc.cc\<close>: the singleton \<^verbatim>\<open>Context\<close> with its signal handler, the base class of requests, the calls of
  \<^verbatim>\<open>Client\<close> on bytes, on requests and on \<^verbatim>\<open>Client::Message\<close>, and the names of the internal sockets of servers.
\<close>

section \<open>The context\<close>

record rpc_context =
  connection_number :: u32
  zmq_context :: nat

text \<open>The process: \<^verbatim>\<open>Context::instance_\<close>, and whether the handler for \<^verbatim>\<open>SIGPIPE\<close> is installed.\<close>

record rpc_process =
  ctx_instance :: "rpc_context option"
  sigpipe_handled :: bool

text \<open>\<open>z\<close> is the result of \<^verbatim>\<open>zmq_init\<close>, \<open>sig\<close> says whether \<^verbatim>\<open>signal\<close> succeeds.\<close>

definition Context_ctor :: "nat option \<Rightarrow> rpc_context exec" where
  "Context_ctor z = (case z of None \<Rightarrow> Fatal | Some z \<Rightarrow> Ret \<lparr>connection_number = 0, zmq_context = z\<rparr>)"

definition Context_init :: "nat option \<Rightarrow> bool \<Rightarrow> rpc_process \<Rightarrow> rpc_process exec" where
  "Context_init z sig p =
     (if ctx_instance p = None
      then exec_bind (Context_ctor z) (\<lambda>c.
        if \<not> sig then Fatal else Ret (p\<lparr>ctx_instance := Some c, sigpipe_handled := True\<rparr>))
      else Ret p)"

definition Context_instance :: "nat option \<Rightarrow> rpc_process \<Rightarrow> (rpc_context \<times> rpc_process) exec" where
  "Context_instance z p =
     (case ctx_instance p of
        None \<Rightarrow> exec_bind (Context_ctor z) (\<lambda>c. Ret (c, p\<lparr>ctx_instance := Some c\<rparr>))
      | Some c \<Rightarrow> Ret (c, p))"

definition increaseConnectionNumber :: "rpc_context \<Rightarrow> u32 \<times> rpc_context" where
  "increaseConnectionNumber c =
     (let (n, old) = exchange_and_add (connection_number c) 1 in (old + 1, c\<lparr>connection_number := n\<rparr>))"

text \<open>The name that \<^verbatim>\<open>Server::run\<close> gives to its internal socket: \<^verbatim>\<open>snprintf\<close> into an array of 128 characters.\<close>

definition inproc_uri :: "u32 \<Rightarrow> string" where
  "inproc_uri n = take 127 (''inproc://conn#'' @ dec_digits (unat n))"

fun inproc_uris :: "nat \<Rightarrow> rpc_context \<Rightarrow> string list" where
  "inproc_uris 0 c = []"
| "inproc_uris (Suc n) c = (let (k, c) = increaseConnectionNumber c in inproc_uri k # inproc_uris n c)"

section \<open>Requests\<close>

record rpc_request =
  req_method :: string

definition Request_ctor :: rpc_request where
  "Request_ctor = \<lparr>req_method = ''null''\<rparr>"

definition Request_set_method :: "string \<Rightarrow> rpc_request \<Rightarrow> rpc_request" where
  "Request_set_method m r = r\<lparr>req_method := m\<rparr>"

section \<open>The client\<close>

text \<open>\<^verbatim>\<open>Client::Message\<close> owns a \<^verbatim>\<open>zmq_msg_t\<close>. The data of a message that was freed may not be read.\<close>

definition Message_ctor :: zmsg where
  "Message_ctor = Holds []"

definition Message_free :: "zmsg \<Rightarrow> zmsg exec" where
  "Message_free m = zmq_msg_close m"

definition Message_dtor :: "zmsg \<Rightarrow> zmsg exec" where
  "Message_dtor m = Message_free m"

definition Message_data :: "zmsg \<Rightarrow> (u8 list \<times> u64) exec" where
  "Message_data m = (case m of Holds bs \<Rightarrow> Ret (bs, of_nat (length bs)) | _ \<Rightarrow> Undefined)"

text \<open>The results of \<^verbatim>\<open>zmq_poll\<close> and \<^verbatim>\<open>zmq_recv\<close>, and the bytes that arrive.\<close>

definition recvMessage :: "int \<Rightarrow> int \<Rightarrow> u8 list \<Rightarrow> zmsg \<Rightarrow> int \<times> zmsg" where
  "recvMessage poll recv bs m =
     (let ret = recvInternalMessage poll recv in (ret, if ret < 0 then m else Holds bs))"

text \<open>\<^verbatim>\<open>Client::recv\<close> into a byte array: allocate, then copy.\<close>

definition Client_recv_bytes ::
    "(nat \<Rightarrow> u64 \<Rightarrow> bool) \<Rightarrow> int \<Rightarrow> int \<Rightarrow> u8 list \<Rightarrow> writer \<Rightarrow> (int \<times> writer \<times> zmsg) exec" where
  "Client_recv_bytes mal poll recv bs w =
     (let (ret, msg) = recvMessage poll recv bs (Holds []) in
      if ret < 0 then exec_bind (zmq_msg_close msg) (\<lambda>msg. Ret (- 1, w, msg))
      else exec_bind (Message_data msg) (\<lambda>(data, size).
        exec_bind (writer_allocate mal size w) (\<lambda>(dst, w).
          case dst of
            Null_addr \<Rightarrow> exec_bind (zmq_msg_close msg) (\<lambda>msg. Ret (- 1, w, msg))
          | Wild_addr \<Rightarrow> Undefined
          | Buf_addr off \<Rightarrow> exec_bind (writer_store off data w) (\<lambda>w.
              exec_bind (zmq_msg_close msg) (\<lambda>msg. Ret (0, w, msg))))))"

text \<open>
  \<^verbatim>\<open>Client::send\<close> of a request and \<^verbatim>\<open>Client::call\<close>. The byte array is one that the user frees; what the heap still holds of
  it when \<^verbatim>\<open>send\<close> returns is the second component, unless ZeroMQ has taken it over.
\<close>

definition Client_send ::
    "(nat \<Rightarrow> u64 \<Rightarrow> bool) \<Rightarrow> ('q \<Rightarrow> writer \<Rightarrow> (bool \<times> writer) exec) \<Rightarrow> u8 list \<Rightarrow> 'q \<Rightarrow> int \<Rightarrow> (int \<times> writer option) exec" where
  "Client_send mal ser mth request send =
     exec_bind (serialize_request mal ser mth request (mk_writer True)) (\<lambda>(ok, w).
       if \<not> ok then Ret (- 1, if writer_dtor_frees w then None else Some w)
       else let (data, size) = writer_data w in
         exec_bind (sendPtrInternalFree (map (case_option 0 (\<lambda>x. x)) (take (unat size) data)) send) (\<lambda>(ret, msg).
           Ret (if ret < 0 then - 1 else 0, None)))"

definition Client_call ::
    "(nat \<Rightarrow> u64 \<Rightarrow> bool) \<Rightarrow> ('q \<Rightarrow> writer \<Rightarrow> (bool \<times> writer) exec) \<Rightarrow> (reader \<Rightarrow> ('p option \<times> reader) exec) \<Rightarrow>
     u8 list \<Rightarrow> 'q \<Rightarrow> int \<Rightarrow> int \<Rightarrow> int \<Rightarrow> u8 list \<Rightarrow> (int \<times> 'p option) exec" where
  "Client_call mal ser deser mth request send poll recv reply =
     exec_bind (Client_send mal ser mth request send) (\<lambda>(ret, _).
       if ret < 0 then Ret (- 1, None)
       else exec_bind (Client_recv deser poll recv reply) (\<lambda>(ret, response).
         if ret < 0 then Ret (- 1, response) else Ret (0, response)))"

text \<open>Construction and destruction of clients and servers.\<close>

definition Client_ctor :: "conn \<Rightarrow> conn" where
  "Client_ctor c = c\<lparr>main_socket := None, back_socket := None\<rparr>"

definition Client_dtor :: "conn \<Rightarrow> conn" where
  "Client_dtor c = Client_close c"

definition Server_dtor :: "conn \<Rightarrow> conn" where
  "Server_dtor c = Server_close c"

section \<open>Properties\<close>

text \<open>
  The context is created once, whoever asks first. When it is created by \<^verbatim>\<open>instance\<close>, which \<^verbatim>\<open>connect\<close> and \<^verbatim>\<open>run\<close> call, a
  later \<^verbatim>\<open>init\<close> does nothing: the handler for \<^verbatim>\<open>SIGPIPE\<close>, which is to be installed always, never is.
\<close>

theorem context_singleton:
  assumes "Context_instance z p = Ret (c, p')"
  shows "Context_instance z' p' = Ret (c, p') \<and> Context_init z' sig p' = Ret p' \<and> sigpipe_handled p' = sigpipe_handled p
    \<and> (ctx_instance p = None \<longrightarrow> connection_number c = 0)"
  using assms by (auto simp: Context_instance_def Context_init_def Context_ctor_def split: option.splits)

theorem context_singleton_witness:
  "Context_init (Some 2) True \<lparr>ctx_instance = Some \<lparr>connection_number = 0, zmq_context = 1\<rparr>, sigpipe_handled = False\<rparr> =
     Ret \<lparr>ctx_instance = Some \<lparr>connection_number = 0, zmq_context = 1\<rparr>, sigpipe_handled = False\<rparr>"
  using context_singleton [of "Some 1" "\<lparr>ctx_instance = None, sigpipe_handled = False\<rparr>" "\<lparr>connection_number = 0, zmq_context = 1\<rparr>"
      "\<lparr>ctx_instance = Some \<lparr>connection_number = 0, zmq_context = 1\<rparr>, sigpipe_handled = False\<rparr>" "Some 2" True]
  by (simp add: Context_instance_def Context_ctor_def)

lemma inproc_uri_full: "inproc_uri n = ''inproc://conn#'' @ dec_digits (unat n)"
proof -
  have "unat n < 2 ^ 32" using unsigned_less [of n] by simp
  then have "length (dec_digits (unat n)) \<le> 10" by (intro length_dec_digits) auto
  then show ?thesis by (simp add: inproc_uri_def)
qed

lemma inproc_uri_inj: "inproc_uri a = inproc_uri b \<longleftrightarrow> a = b"
  by (metis dec_value_digits inproc_uri_full same_append_eq word_unat_eq_iff)

lemma inproc_uris_map: "inproc_uris n c = map (\<lambda>i. inproc_uri (connection_number c + of_nat (Suc i))) [0..<n]"
proof (induction n arbitrary: c)
  case (Suc n)
  have "[0..<Suc n] = 0 # map Suc [0..<n]" by (simp add: map_Suc_upt upt_conv_Cons)
  then show ?case using Suc by (simp add: increaseConnectionNumber_def exchange_and_add_def comp_def add.assoc)
qed simp

text \<open>The servers of a process get different names for their internal sockets, until the counter wraps around.\<close>

theorem inproc_uris_distinct:
  assumes "n \<le> 2 ^ 32"
  shows "distinct (inproc_uris n c)"
proof -
  have "inj_on (\<lambda>i. connection_number c + of_nat (Suc i) :: u32) {0..<n}"
  proof (rule inj_onI)
    fix i j assume "i \<in> {0..<n}" "j \<in> {0..<n}" "connection_number c + of_nat (Suc i) = connection_number c + of_nat (Suc j)"
    then have "(of_nat i :: u32) = of_nat j" "i < 2 ^ 32" "j < 2 ^ 32" using assms by auto
    then show "i = j" by (simp add: word_of_nat_eq_iff take_bit_nat_eq_self)
  qed
  then have "inj_on (\<lambda>i. inproc_uri (connection_number c + of_nat (Suc i))) {0..<n}"
    unfolding inj_on_def inproc_uri_inj .
  then show ?thesis by (simp add: inproc_uris_map distinct_map)
qed

theorem inproc_uris_distinct_witness: "distinct (inproc_uris 1000 \<lparr>connection_number = 4294967000, zmq_context = 0\<rparr>)"
  by (rule inproc_uris_distinct) simp

text \<open>
  Bytes arrive as they were sent: what \<^verbatim>\<open>Client::recv\<close> appends to a byte array is exactly what the other side put into its
  message, when the allocation succeeds; the message is closed on every path. An empty message cannot be received
  into an array that has no buffer yet.
\<close>

theorem client_bytes_roundtrip:
  assumes "writer_inv w" "writer_holds w xs" "length xs + length bs \<le> 2 ^ 63" "xs \<noteq> [] \<or> bs \<noteq> []"
  shows "Client_send_bytes bs 0 0 = Ret (0, Closed)
    \<and> (\<exists>w'. Client_recv_bytes heap_ok 1 0 bs w = Ret (0, w', Closed) \<and> writer_inv w' \<and> writer_holds w' (xs @ bs))
    \<and> Client_recv_bytes heap_ok 1 0 [] (mk_writer True) = Ret (- 1, mk_writer True, Closed)
    \<and> Client_recv_bytes mal 0 recv bs w = Ret (- 1, w, Closed)"
proof (intro conjI)
  obtain w' where w': "writer_write heap_ok bs w = Ret (True, w')" "writer_inv w'" "writer_holds w' (xs @ bs)"
    using writer_write_ok [OF assms(1,2,3), of heap_ok] assms(4) by auto
  then have "Client_recv_bytes heap_ok 1 0 bs w = Ret (0, w', Closed)"
    by (auto simp: Client_recv_bytes_def recvMessage_def recvInternalMessage_def Message_data_def zmq_msg_close_def writer_write_def
        exec_simps split: addr.splits)
  with w' show "\<exists>w'. Client_recv_bytes heap_ok 1 0 bs w = Ret (0, w', Closed) \<and> writer_inv w' \<and> writer_holds w' (xs @ bs)" by blast
qed (simp_all add: Client_send_bytes_def Client_recv_bytes_def recvMessage_def recvInternalMessage_def Message_data_def
    zmq_put_msg_def zmq_msg_close_def writer_allocate_def mk_writer_def writer_addr_def)

theorem client_bytes_roundtrip_witness:
  "\<exists>w'. Client_recv_bytes heap_ok 1 0 [1, 2] (mk_writer False) = Ret (0, w', Closed) \<and> writer_holds w' [1, 2]"
  using client_bytes_roundtrip [OF mk_writer_inv mk_writer_holds, of "[1, 2]" False] by auto

text \<open>After a client has connected, with whatever success, and is destroyed, no socket is open that was not before.\<close>

theorem client_life_closes:
  assumes "\<forall>s \<in> open_socks c. s < next_sock c"
  shows "open_socks (Client_dtor (snd (Client_connect sock ok (Client_ctor c)))) = open_socks c"
  using assms by (auto simp: Client_dtor_def Client_ctor_def Client_connect_def Client_close_def zmq_socket_def close_opt_def Let_def)

theorem client_life_closes_witness: "open_socks (Client_dtor (snd (Client_connect True True (Client_ctor Server_ctor)))) = {}"
  using client_life_closes [of Server_ctor True True] by (simp add: Server_ctor_def)

text \<open>
  A message can be read after it was received, and freed by hand and again by its destructor. Every call whose
  request serialises reaches the message that \<^verbatim>\<open>sendPtrInternalFree\<close> never initialised; one whose request fails to
  serialise leaks what was written.
\<close>

theorem client_messages:
  "Message_data (snd (recvMessage 1 0 bs Message_ctor)) = Ret (bs, of_nat (length bs))
   \<and> exec_bind (Message_free (Holds bs)) Message_dtor = Ret Closed
   \<and> (serialize_request mal ser mth q (mk_writer True) = Ret (True, w) \<longrightarrow>
        Client_call mal ser deser mth q send poll recv reply = Undefined)
   \<and> (serialize_request mal ser mth q (mk_writer True) = Ret (False, w) \<and> wb_user_free w \<longrightarrow>
        Client_send mal ser mth q send = Ret (- 1, Some w))"
  by (auto simp: recvMessage_def recvInternalMessage_def Message_data_def Message_free_def Message_dtor_def zmq_msg_close_def
      Client_call_def Client_send_def sendPtrInternalFree_def zmq_put_msg_ptr_internal_free_def writer_dtor_frees_def Let_def
      split: prod.splits)

end
