(* ===== verification/List_Problems.thy ===== *)
theory List_Problems
  imports Sperm_Prelude
begin

text \<open>
  Programs of \<^verbatim>\<open>code/leetcode\<close> that relink singly linked lists in place: \<^verbatim>\<open>remove-duplicates-from-sorted-list.cc\<close>,
  \<^verbatim>\<open>remove-duplicates-from-sorted-list-2.cc\<close>, \<^verbatim>\<open>remove-nth-node-from-end-of-list.cc\<close>, \<^verbatim>\<open>reverse-linked-list-2.cc\<close>,
  \<^verbatim>\<open>swap-nodes-in-paris.cc\<close> and \<^verbatim>\<open>add-two-numbers.cc\<close>. They run on an explicit heap of \<^verbatim>\<open>ListNode\<close>s; an access through a
  null or dangling pointer is undefined. A loop that follows pointers may run forever on a cyclic list: it
  takes fuel, and the theorems give the fuel that is enough for a list.
\<close>

section \<open>The heap of list nodes\<close>

type_synonym ptr = nat

record ListNode =
  val :: int
  lnext :: ptr

type_synonym lheap = "ptr \<rightharpoonup> ListNode"

definition get_val :: "lheap \<Rightarrow> ptr \<Rightarrow> int exec" where
  "get_val h p = (case h p of None \<Rightarrow> Undefined | Some n \<Rightarrow> Ret (val n))"

definition get_lnext :: "lheap \<Rightarrow> ptr \<Rightarrow> ptr exec" where
  "get_lnext h p = (case h p of None \<Rightarrow> Undefined | Some n \<Rightarrow> Ret (lnext n))"

definition set_lnext :: "ptr \<Rightarrow> ptr \<Rightarrow> lheap \<Rightarrow> lheap exec" where
  "set_lnext p q h = (case h p of None \<Rightarrow> Undefined | Some n \<Rightarrow> Ret (h(p \<mapsto> n\<lparr>lnext := q\<rparr>)))"

text \<open>
  \<^verbatim>\<open>new ListNode(x)\<close> takes the next address of the supply \<open>news\<close>, the addresses that \<^verbatim>\<open>new\<close> will return; when there is
  none, \<^verbatim>\<open>std::bad_alloc\<close> ends the program.
\<close>

fun new_ListNode :: "int \<Rightarrow> ptr list \<times> lheap \<Rightarrow> (ptr \<times> ptr list \<times> lheap) exec" where
  "new_ListNode x ([], h) = Fatal"
| "new_ListNode x (a # news, h) = Ret (a, news, h(a \<mapsto> \<lparr>val = x, lnext = 0\<rparr>))"

section \<open>Removing duplicates\<close>

fun dedup_loop :: "nat \<Rightarrow> ptr \<Rightarrow> ptr \<Rightarrow> lheap \<Rightarrow> (ptr \<times> lheap) exec" where
  "dedup_loop 0 prev q h = Diverge"
| "dedup_loop (Suc fuel) prev q h =
     (if q = 0 then Ret (prev, h)
      else exec_bind (get_val h q) (\<lambda>qv.
        exec_bind (get_val h prev) (\<lambda>pv.
        if qv = pv then exec_bind (get_lnext h q) (\<lambda>q. dedup_loop fuel prev q h)
        else exec_bind (set_lnext prev q h) (\<lambda>h.
          exec_bind (get_lnext h q) (\<lambda>q'. dedup_loop fuel q q' h)))))"

definition deleteDuplicates :: "nat \<Rightarrow> ptr \<Rightarrow> lheap \<Rightarrow> (ptr \<times> lheap) exec" where
  "deleteDuplicates fuel head h =
     (if head = 0 then Ret (0, h)
      else exec_bind (get_lnext h head) (\<lambda>q.
        exec_bind (dedup_loop fuel head q h) (\<lambda>(prev, h).
        exec_bind (set_lnext prev 0 h) (\<lambda>h. Ret (head, h)))))"

text \<open>The second program drops every value that is repeated. \<open>link_single\<close> appends a node to the result list.\<close>

definition link_single :: "ptr \<Rightarrow> ptr \<times> ptr \<times> lheap \<Rightarrow> (ptr \<times> ptr \<times> lheap) exec" where
  "link_single head = (\<lambda>(xhead, xprev, h).
     let xhead = (if xhead = 0 then head else xhead) in
     exec_bind (if xprev \<noteq> 0 then set_lnext xprev head h else Ret h) (\<lambda>h.
     exec_bind (set_lnext head 0 h) (\<lambda>h. Ret (xhead, head, h))))"

fun single_loop :: "nat \<Rightarrow> ptr \<Rightarrow> bool \<Rightarrow> ptr \<times> ptr \<times> lheap \<Rightarrow> (ptr \<times> bool \<times> ptr \<times> ptr \<times> lheap) exec" where
  "single_loop 0 head dup st = Diverge"
| "single_loop (Suc fuel) head dup (xhead, xprev, h) =
     exec_bind (get_lnext h head) (\<lambda>nxt.
     if nxt = 0 then Ret (head, dup, xhead, xprev, h)
     else exec_bind (get_val h head) (\<lambda>hv.
       exec_bind (get_val h nxt) (\<lambda>nv.
       if hv = nv then single_loop fuel nxt True (xhead, xprev, h)
       else exec_bind (if \<not> dup then link_single head (xhead, xprev, h) else Ret (xhead, xprev, h)) (\<lambda>st.
         single_loop fuel nxt False st))))"

definition deleteDuplicates_2 :: "nat \<Rightarrow> ptr \<Rightarrow> lheap \<Rightarrow> (ptr \<times> lheap) exec" where
  "deleteDuplicates_2 fuel head h =
     (if head = 0 then Ret (0, h)
      else exec_bind (single_loop fuel head False (0, 0, h)) (\<lambda>(head, dup, st).
        exec_bind (if \<not> dup then link_single head st else Ret st) (\<lambda>(xhead, xprev, h). Ret (xhead, h))))"

section \<open>Removing the node at a distance from the end\<close>

fun nth_loop :: "nat \<Rightarrow> ptr \<Rightarrow> ptr \<Rightarrow> ptr \<Rightarrow> lheap \<Rightarrow> (ptr \<times> ptr) exec" where
  "nth_loop 0 prev x y h = Diverge"
| "nth_loop (Suc fuel) prev x y h =
     exec_bind (get_lnext h y) (\<lambda>yn.
     if yn = 0 then Ret (prev, x)
     else exec_bind (get_lnext h x) (\<lambda>xn. exec_bind (get_lnext h y) (\<lambda>yn. nth_loop fuel x xn yn h)))"

definition removeNthFromEnd :: "nat \<Rightarrow> ptr \<Rightarrow> int \<Rightarrow> lheap \<Rightarrow> (ptr \<times> lheap) exec" where
  "removeNthFromEnd fuel head n h =
     exec_bind (c_int (n - 1)) (\<lambda>k.
     exec_bind (exec_fold (\<lambda>i y. get_lnext h y) [0..k - 1] head) (\<lambda>y.
     exec_bind (nth_loop fuel 0 head y h) (\<lambda>(prev, x).
     if prev = 0 then exec_bind (get_lnext h head) (\<lambda>r. Ret (r, h))
     else exec_bind (get_lnext h x) (\<lambda>r.
       exec_bind (set_lnext prev r h) (\<lambda>h. Ret (head, h))))))"

section \<open>Reversing a part of the list\<close>

record rev_state =
  r_xhead :: ptr
  r_xprev :: ptr
  r_ytail :: ptr
  r_yprev :: ptr

fun reverse_loop :: "nat \<Rightarrow> int \<Rightarrow> int \<Rightarrow> int \<Rightarrow> ptr \<Rightarrow> rev_state \<Rightarrow> lheap \<Rightarrow> (ptr \<times> rev_state \<times> lheap) exec" where
  "reverse_loop 0 m n cnt head s h = Diverge"
| "reverse_loop (Suc fuel) m n cnt head s h =
     (if head = 0 then Ret (head, s, h)
      else exec_bind (c_int (cnt + 1)) (\<lambda>cnt.
        exec_bind (get_lnext h head) (\<lambda>nxt.
        if m \<le> cnt \<and> cnt \<le> n then
          let s = (if r_ytail s = 0 then s\<lparr>r_ytail := head\<rparr> else s) in
          exec_bind (set_lnext head (r_yprev s) h) (\<lambda>h. reverse_loop fuel m n cnt nxt (s\<lparr>r_yprev := head\<rparr>) h)
        else if cnt < m then
          let s = (if r_xhead s = 0 then s\<lparr>r_xhead := head\<rparr> else s) in
          reverse_loop fuel m n cnt nxt (s\<lparr>r_xprev := head\<rparr>) h
        else Ret (head, s, h))))"

definition reverseBetween :: "nat \<Rightarrow> ptr \<Rightarrow> int \<Rightarrow> int \<Rightarrow> lheap \<Rightarrow> (ptr \<times> lheap) exec" where
  "reverseBetween fuel head m n h =
     exec_bind (reverse_loop fuel m n 0 head \<lparr>r_xhead = 0, r_xprev = 0, r_ytail = 0, r_yprev = 0\<rparr> h) (\<lambda>(head, s, h).
     exec_bind (if m = 1 then Ret (r_yprev s, h)
                else exec_bind (set_lnext (r_xprev s) (r_yprev s) h) (\<lambda>h. Ret (r_xhead s, h))) (\<lambda>(res, h).
     exec_bind (set_lnext (r_ytail s) head h) (\<lambda>h. Ret (res, h))))"

section \<open>Swapping pairs of nodes\<close>

fun swap_loop :: "nat \<Rightarrow> ptr \<Rightarrow> ptr \<Rightarrow> ptr \<Rightarrow> lheap \<Rightarrow> (ptr \<times> ptr \<times> lheap) exec" where
  "swap_loop 0 head prev res h = Diverge"
| "swap_loop (Suc fuel) head prev res h =
     (if head = 0 then Ret (prev, res, h)
      else exec_bind (get_lnext h head) (\<lambda>q.
        if q \<noteq> 0 then
          let p = head in
          exec_bind (get_lnext h q) (\<lambda>head.
          exec_bind (set_lnext q p h) (\<lambda>h.
          exec_bind (if prev = 0 then Ret (q, h) else exec_bind (set_lnext prev q h) (\<lambda>h. Ret (res, h))) (\<lambda>(res, h).
          swap_loop fuel head p res h)))
        else
          exec_bind (if prev = 0 then Ret (head, h) else exec_bind (set_lnext prev head h) (\<lambda>h. Ret (res, h))) (\<lambda>(res, h).
          Ret (head, res, h))))"

definition swapPairs :: "nat \<Rightarrow> ptr \<Rightarrow> lheap \<Rightarrow> (ptr \<times> lheap) exec" where
  "swapPairs fuel head h =
     exec_bind (swap_loop fuel head 0 0 h) (\<lambda>(prev, res, h).
     exec_bind (if prev \<noteq> 0 then set_lnext prev 0 h else Ret h) (\<lambda>h. Ret (res, h)))"

section \<open>Adding two numbers\<close>

definition add_digit :: "int \<Rightarrow> int \<times> int" where
  "add_digit v = (if v \<ge> 10 then (1, v - 10) else (0, v))"

definition append_digit :: "int \<Rightarrow> ptr \<times> ptr \<times> ptr list \<times> lheap \<Rightarrow> (ptr \<times> ptr \<times> ptr list \<times> lheap) exec" where
  "append_digit v = (\<lambda>(head, prev, st).
     exec_bind (new_ListNode v st) (\<lambda>(t, news, h).
     if prev = 0 then Ret (t, t, news, h)
     else exec_bind (set_lnext prev t h) (\<lambda>h. Ret (head, t, news, h))))"

definition add_prev :: "int \<Rightarrow> ptr \<times> ptr \<times> ptr list \<times> lheap \<Rightarrow> (ptr \<times> ptr \<times> ptr list \<times> lheap) exec" where
  "add_prev v = (\<lambda>(head, prev, st).
     exec_bind (new_ListNode v st) (\<lambda>(t, news, h).
     exec_bind (set_lnext prev t h) (\<lambda>h. Ret (head, t, news, h))))"

fun add_both :: "nat \<Rightarrow> ptr \<Rightarrow> ptr \<Rightarrow> int \<Rightarrow> ptr \<times> ptr \<times> ptr list \<times> lheap \<Rightarrow>
    (ptr \<times> ptr \<times> int \<times> ptr \<times> ptr \<times> ptr list \<times> lheap) exec" where
  "add_both 0 l1 l2 b st = Diverge"
| "add_both (Suc fuel) l1 l2 b (head, prev, news, h) =
     (if l1 \<noteq> 0 \<and> l2 \<noteq> 0 then
        exec_bind (get_val h l1) (\<lambda>v1.
        exec_bind (get_val h l2) (\<lambda>v2.
        exec_bind (c_int (v1 + v2)) (\<lambda>v.
        exec_bind (c_int (v + b)) (\<lambda>v.
        case add_digit v of (b, v) \<Rightarrow>
        exec_bind (append_digit v (head, prev, news, h)) (\<lambda>(head, prev, news, h).
        exec_bind (get_lnext h l1) (\<lambda>l1.
        exec_bind (get_lnext h l2) (\<lambda>l2.
        add_both fuel l1 l2 b (head, prev, news, h))))))))
      else Ret (l1, l2, b, head, prev, news, h))"

fun add_rest :: "nat \<Rightarrow> ptr \<Rightarrow> int \<Rightarrow> ptr \<times> ptr \<times> ptr list \<times> lheap \<Rightarrow> (int \<times> ptr \<times> ptr \<times> ptr list \<times> lheap) exec" where
  "add_rest 0 n b st = Diverge"
| "add_rest (Suc fuel) n b (head, prev, news, h) =
     (if n \<noteq> 0 then
        exec_bind (get_val h n) (\<lambda>v.
        exec_bind (c_int (v + b)) (\<lambda>v.
        case add_digit v of (b, v) \<Rightarrow>
        exec_bind (add_prev v (head, prev, news, h)) (\<lambda>(head, prev, news, h).
        exec_bind (get_lnext h n) (\<lambda>n. add_rest fuel n b (head, prev, news, h)))))
      else Ret (b, head, prev, news, h))"

definition addTwoNumbers :: "nat \<Rightarrow> ptr \<Rightarrow> ptr \<Rightarrow> ptr list \<Rightarrow> lheap \<Rightarrow> (ptr \<times> lheap) exec" where
  "addTwoNumbers fuel l1 l2 news h =
     (if l1 = 0 \<and> l2 = 0 then Ret (0, h)
      else if l1 = 0 then Ret (l2, h)
      else if l2 = 0 then Ret (l1, h)
      else exec_bind (add_both fuel l1 l2 0 (0, 0, news, h)) (\<lambda>(l1, l2, b, st).
        exec_bind (add_rest fuel (if l1 = 0 then l2 else l1) b st) (\<lambda>(b, st).
        exec_bind (if b \<noteq> 0 then add_prev b st else Ret st) (\<lambda>(head, prev, news, h). Ret (head, h)))))"

section \<open>List segments\<close>

text \<open>
  \<open>seg h p xs q\<close>: following \<^verbatim>\<open>next\<close> from \<open>p\<close> leads through exactly the nodes \<open>xs\<close>, given by address and value, to \<open>q\<close>.
\<close>

fun seg :: "lheap \<Rightarrow> ptr \<Rightarrow> (ptr \<times> int) list \<Rightarrow> ptr \<Rightarrow> bool" where
  "seg h p [] q \<longleftrightarrow> p = q"
| "seg h p (x # xs) q \<longleftrightarrow> p = fst x \<and> p \<noteq> 0 \<and> (\<exists>r. h p = Some \<lparr>val = snd x, lnext = r\<rparr> \<and> seg h r xs q)"

abbreviation addrs :: "(ptr \<times> int) list \<Rightarrow> ptr set" where
  "addrs xs \<equiv> fst ` set xs"

abbreviation lst :: "lheap \<Rightarrow> ptr \<Rightarrow> (ptr \<times> int) list \<Rightarrow> bool" where
  "lst h p xs \<equiv> seg h p xs 0"

text \<open>The frame: a program changes no node outside \<open>A\<close>.\<close>

definition same_but :: "ptr set \<Rightarrow> lheap \<Rightarrow> lheap \<Rightarrow> bool" where
  "same_but A h h' \<longleftrightarrow> (\<forall>a. a \<notin> A \<longrightarrow> h' a = h a)"

lemma same_but_refl [simp]: "same_but A h h"
  by (simp add: same_but_def)

lemma same_but_mono: "same_but A h h' \<Longrightarrow> A \<subseteq> B \<Longrightarrow> same_but B h h'"
  by (auto simp: same_but_def)

lemma same_but_trans: "same_but A h h' \<Longrightarrow> same_but B h' h'' \<Longrightarrow> same_but (A \<union> B) h h''"
  by (auto simp: same_but_def)

lemma same_but_upd [simp]: "same_but A (h(a \<mapsto> n)) h' \<Longrightarrow> same_but (insert a A) h h'"
  by (auto simp: same_but_def)

lemma heap_simps [simp]:
  "h p = Some n \<Longrightarrow> get_val h p = Ret (val n)"
  "h p = Some n \<Longrightarrow> get_lnext h p = Ret (lnext n)"
  "h p = Some n \<Longrightarrow> set_lnext p q h = Ret (h(p \<mapsto> n\<lparr>lnext := q\<rparr>))"
  by (simp_all add: get_val_def get_lnext_def set_lnext_def)

lemma seg_append [simp]: "seg h p (xs @ ys) q \<longleftrightarrow> (\<exists>r. seg h p xs r \<and> seg h r ys q)"
  by (induction xs arbitrary: p) auto

lemma seg_upd [simp]: "a \<notin> addrs xs \<Longrightarrow> seg (h(a := n)) p xs q = seg h p xs q"
  by (induction xs arbitrary: p) auto

lemma seg_same: "seg h p xs q \<Longrightarrow> same_but A h h' \<Longrightarrow> A \<inter> addrs xs = {} \<Longrightarrow> seg h' p xs q"
  by (induction xs arbitrary: p) (auto simp: same_but_def)

lemma seg_head: "lst h p xs \<Longrightarrow> p = (if xs = [] then 0 else fst (hd xs))"
  by (cases xs) auto

lemma lst_null [simp]: "lst h 0 xs \<longleftrightarrow> xs = []"
  by (cases xs) auto

lemma lst_unique: "lst h p xs \<Longrightarrow> lst h p ys \<Longrightarrow> xs = ys"
proof (induction xs arbitrary: p ys)
  case (Cons x xs)
  then show ?case by (cases ys) (auto simp: prod_eq_iff)
qed simp

lemma lst_distinct: "lst h p xs \<Longrightarrow> distinct (map fst xs)"
proof (induction xs arbitrary: p)
  case (Cons x xs)
  then obtain r where r: "h (fst x) = Some \<lparr>val = snd x, lnext = r\<rparr>" "lst h r xs" by auto
  have "fst x \<notin> addrs xs"
  proof
    assume "fst x \<in> addrs xs"
    then obtain ys y zs where xs: "xs = ys @ y # zs" "fst y = fst x" by (metis imageE in_set_conv_decomp)
    with r have "lst h r zs" by auto
    with r(2) xs(1) show False using lst_unique [of h r xs zs] by auto
  qed
  with Cons.IH [OF r(2)] show ?case by simp
qed simp

section \<open>Removing duplicates\<close>

text \<open>The first node of every run of equal values; the nodes whose value is not repeated.\<close>

fun dedup :: "(ptr \<times> int) list \<Rightarrow> (ptr \<times> int) list" where
  "dedup (x # y # zs) = (if snd x = snd y then dedup (x # zs) else x # dedup (y # zs))"
| "dedup xs = xs"

lemma dedup_vals: "map snd (dedup xs) = remdups_adj (map snd xs)"
  by (induction xs rule: dedup.induct) auto

lemma dedup_returns:
  assumes "lst h q xs" "h p = Some \<lparr>val = v, lnext = r\<rparr>" "p \<noteq> 0" "p \<notin> addrs xs" "distinct (map fst xs)" "length xs < fuel"
  shows "returns (exec_bind (dedup_loop fuel p q h) (\<lambda>(prev, h). set_lnext prev 0 h))
    (\<lambda>h'. lst h' p (dedup ((p, v) # xs)) \<and> same_but (insert p (addrs xs)) h h')"
  using assms
proof (induction xs arbitrary: h p q v r fuel)
  case Nil
  then obtain k where "fuel = Suc k" by (cases fuel) auto
  with Nil show ?case by (auto simp: same_but_def)
next
  case (Cons x xs)
  then obtain k where k: "fuel = Suc k" "length xs < k" by (cases fuel) auto
  obtain s where s: "q = fst x" "q \<noteq> 0" "h q = Some \<lparr>val = snd x, lnext = s\<rparr>" "lst h s xs" using Cons.prems(1) by auto
  show ?case
  proof (cases "snd x = v")
    case True
    have "returns (exec_bind (dedup_loop k p s h) (\<lambda>(prev, h). set_lnext prev 0 h))
       (\<lambda>h'. lst h' p (dedup ((p, v) # xs)) \<and> same_but (insert p (addrs xs)) h h')"
      using Cons.prems k s by (intro Cons.IH) auto
    then show ?thesis using True k s Cons.prems(2) by (auto intro: same_but_mono elim!: returns_mono)
  next
    case False
    let ?h = "h(p \<mapsto> \<lparr>val = v, lnext = q\<rparr>)"
    have l: "lst ?h s xs" using s(4) Cons.prems(4) by simp
    have "returns (exec_bind (dedup_loop k q s ?h) (\<lambda>(prev, h). set_lnext prev 0 h))
       (\<lambda>h'. lst h' q (dedup ((q, snd x) # xs)) \<and> same_but (insert q (addrs xs)) ?h h')"
      using Cons.prems(4,5) k(2) s(1-3) by (intro Cons.IH [OF l, where r = s]) auto
    moreover have "lst h' p (dedup ((p, v) # x # xs)) \<and> same_but (insert p (addrs (x # xs))) h h'"
      if "lst h' q (dedup ((q, snd x) # xs))" "same_but (insert q (addrs xs)) ?h h'" for h'
    proof -
      have "h' p = Some \<lparr>val = v, lnext = q\<rparr>" using that(2) Cons.prems(4) s(1) by (auto simp: same_but_def)
      then show ?thesis using that False Cons.prems(3) s(1) by (auto simp: same_but_def)
    qed
    ultimately show ?thesis using False k s Cons.prems(2,4) by (auto elim!: returns_mono)
  qed
qed

text \<open>
  \<^verbatim>\<open>deleteDuplicates\<close> relinks the first node of every run: it returns the list without adjacent duplicates,
  made of nodes of the given list, and touches no other node.
\<close>

lemma deleteDuplicates_returns:
  assumes "lst h p xs" "length xs \<le> fuel"
  shows "returns (deleteDuplicates fuel p h) (\<lambda>(p', h'). lst h' p' (dedup xs) \<and> same_but (addrs xs) h h')"
proof (cases xs)
  case Nil
  then show ?thesis using assms by (simp add: deleteDuplicates_def)
next
  case (Cons x ys)
  then obtain r where r: "p = fst x" "p \<noteq> 0" "h p = Some \<lparr>val = snd x, lnext = r\<rparr>" "lst h r ys" using assms(1) by auto
  have "returns (exec_bind (dedup_loop fuel p r h) (\<lambda>(prev, h). set_lnext prev 0 h))
      (\<lambda>h'. lst h' p (dedup ((p, snd x) # ys)) \<and> same_but (insert p (addrs ys)) h h')"
    using lst_distinct [OF assms(1)] assms(2) r Cons by (intro dedup_returns) auto
  then show ?thesis using r Cons by (auto simp: deleteDuplicates_def split_beta elim!: returns_mono)
qed

fun singles :: "bool \<Rightarrow> (ptr \<times> int) list \<Rightarrow> (ptr \<times> int) list" where
  "singles dup (x # y # zs) =
     (if snd x = snd y then singles True (y # zs) else (if dup then [] else [x]) @ singles False (y # zs))"
| "singles dup xs = (if dup then [] else xs)"

lemma singles_vals:
  assumes "sorted (map snd xs)"
  shows "map snd (singles dup xs) =
    filter (\<lambda>v. count_list (map snd xs) v = 1 \<and> \<not> (dup \<and> xs \<noteq> [] \<and> v = snd (hd xs))) (map snd xs)"
  using assms
proof (induction dup xs rule: singles.induct)
  case (1 dup x y zs)
  let ?vs = "map snd (y # zs)"
  show ?case
  proof (cases "snd x = snd y")
    case True
    have "filter (\<lambda>v. count_list ?vs v = 1 \<and> v \<noteq> snd y) ?vs = filter (\<lambda>v. count_list (snd x # ?vs) v = 1 \<and> \<not> (dup \<and> v = snd x)) (snd x # ?vs)"
      using True by (auto intro!: filter_cong simp: count_list_0_iff)
    then show ?thesis using 1 True by simp
  next
    case False
    then have "snd x \<notin> set ?vs" using 1(3) by fastforce
    then have "filter (\<lambda>v. count_list ?vs v = 1) ?vs = filter (\<lambda>v. count_list (snd x # ?vs) v = 1 \<and> \<not> (dup \<and> v = snd x)) ?vs"
      by (intro filter_cong) auto
    moreover have "count_list ?vs (snd x) = 0" using \<open>snd x \<notin> set ?vs\<close> by (simp only: count_list_0_iff not_False_eq_True)
    ultimately show ?thesis using 1 False by auto
  qed
qed auto

definition single_rest :: "nat \<Rightarrow> ptr \<Rightarrow> bool \<Rightarrow> ptr \<times> ptr \<times> lheap \<Rightarrow> (ptr \<times> lheap) exec" where
  "single_rest fuel head dup st = exec_bind (single_loop fuel head dup st) (\<lambda>(head, dup, st).
     exec_bind (if \<not> dup then link_single head st else Ret st) (\<lambda>(xhead, xprev, h). Ret (xhead, h)))"

text \<open>The result so far: empty, or ended by \<open>xprev\<close>.\<close>

definition result_end :: "ptr \<Rightarrow> ptr \<Rightarrow> int \<Rightarrow> lheap \<Rightarrow> (ptr \<times> int) list \<Rightarrow> bool" where
  "result_end xhead xprev v h xs \<longleftrightarrow> (if xprev = 0 then xhead = 0
     else xhead \<noteq> 0 \<and> xprev \<notin> addrs xs \<and> h xprev = Some \<lparr>val = v, lnext = 0\<rparr>)"

definition result_list :: "ptr \<Rightarrow> ptr \<Rightarrow> int \<Rightarrow> ptr \<Rightarrow> lheap \<Rightarrow> (ptr \<times> int) list \<Rightarrow> bool" where
  "result_list xhead xprev v r h ys \<longleftrightarrow> (if xprev = 0 then lst h r ys else r = xhead \<and> lst h xprev ((xprev, v) # ys))"

lemma link_single_result:
  assumes "result_end xhead xprev v h (x # xs)" "h (fst x) = Some \<lparr>val = snd x, lnext = q\<rparr>" "fst x \<noteq> 0" "fst x \<notin> addrs xs"
    and "lst h q xs" "xprev \<noteq> 0 \<Longrightarrow> xprev \<notin> B"
  obtains h' where "link_single (fst x) (xhead, xprev, h) = Ret (if xhead = 0 then fst x else xhead, fst x, h')"
    "lst h' q xs" "result_end (if xhead = 0 then fst x else xhead) (fst x) (snd x) h' xs" "same_but {xprev, fst x} h h'"
    "\<And>r h'' ys. result_list (if xhead = 0 then fst x else xhead) (fst x) (snd x) r h'' ys \<Longrightarrow>
       same_but (insert (fst x) B) h' h'' \<Longrightarrow>
       result_list xhead xprev v r h'' (x # ys) \<and> same_but (insert xprev (insert (fst x) B)) h h''"
proof (cases "xprev = 0")
  case True
  show ?thesis
    by (rule that [of "h(fst x \<mapsto> \<lparr>val = snd x, lnext = 0\<rparr>)"])
       (use assms True in \<open>auto simp: link_single_def result_end_def result_list_def same_but_def\<close>)
next
  case False
  show ?thesis
    by (rule that [of "h(xprev \<mapsto> \<lparr>val = v, lnext = fst x\<rparr>, fst x \<mapsto> \<lparr>val = snd x, lnext = 0\<rparr>)"])
       (use assms False in \<open>auto simp: link_single_def result_end_def result_list_def same_but_def\<close>)
qed

lemma single_rest_returns:
  assumes "lst h (fst x) (x # xs)" "result_end xhead xprev v h (x # xs)" "length xs < fuel" "distinct (map fst (x # xs))"
  shows "returns (single_rest fuel (fst x) dup (xhead, xprev, h))
    (\<lambda>(r, h'). result_list xhead xprev v r h' (singles dup (x # xs)) \<and> same_but (insert xprev (addrs (x # xs))) h h')"
  using assms
proof (induction xs arbitrary: x dup h xhead xprev v fuel)
  case Nil
  then obtain k where k: "fuel = Suc k" by (cases fuel) auto
  have hx: "h (fst x) = Some \<lparr>val = snd x, lnext = 0\<rparr>" "fst x \<noteq> 0" using Nil.prems(1) by auto
  show ?case
  proof (cases dup)
    case True
    then show ?thesis using k hx Nil.prems(2) by (auto simp: single_rest_def result_end_def result_list_def)
  next
    case False
    obtain h' where h': "link_single (fst x) (xhead, xprev, h) = Ret (if xhead = 0 then fst x else xhead, fst x, h')"
      "result_end (if xhead = 0 then fst x else xhead) (fst x) (snd x) h' []"
      "\<And>r h'' ys. result_list (if xhead = 0 then fst x else xhead) (fst x) (snd x) r h'' ys \<Longrightarrow>
         same_but {fst x} h' h'' \<Longrightarrow> result_list xhead xprev v r h'' (x # ys) \<and> same_but (insert xprev (addrs [x])) h h''"
      by (rule link_single_result [OF Nil.prems(2) hx, where B = "{}"]) auto
    have "result_list (if xhead = 0 then fst x else xhead) (fst x) (snd x) (if xhead = 0 then fst x else xhead) h' []"
      using h'(2) hx(2) by (auto simp: result_end_def result_list_def)
    from h'(3) [OF this] False k hx h'(1) show ?thesis by (simp add: single_rest_def)
  qed
next
  case (Cons y zs)
  then obtain k where k: "fuel = Suc k" "length zs < k" by (cases fuel) auto
  have hx: "h (fst x) = Some \<lparr>val = snd x, lnext = fst y\<rparr>" "fst x \<noteq> 0" "lst h (fst y) (y # zs)" "fst y \<noteq> 0"
    using Cons.prems(1) by auto
  have d: "fst x \<notin> addrs (y # zs)" "distinct (map fst (y # zs))" using Cons.prems(4) by auto
  have re: "result_end xhead xprev v h (y # zs)" using Cons.prems(2) by (simp add: result_end_def split: if_splits)
  obtain hy where hy: "h (fst y) = Some hy" "val hy = snd y" using hx(3) by auto
  show ?case
  proof (cases "snd x = snd y \<or> dup")
    case True
    have ih: "returns (single_rest k (fst y) (snd x = snd y) (xhead, xprev, h))
       (\<lambda>(r, h'). result_list xhead xprev v r h' (singles (snd x = snd y) (y # zs)) \<and> same_but (insert xprev (addrs (y # zs))) h h')"
      using k d hx by (intro Cons.IH re) simp_all
    have "single_rest fuel (fst x) dup (xhead, xprev, h) = single_rest k (fst y) (snd x = snd y) (xhead, xprev, h)"
      using True k hx hy by (auto simp: single_rest_def)
    then show ?thesis using True ih by (auto elim!: returns_mono intro: same_but_mono)
  next
    case False
    obtain h' where h': "link_single (fst x) (xhead, xprev, h) = Ret (if xhead = 0 then fst x else xhead, fst x, h')"
      "lst h' (fst y) (y # zs)" "result_end (if xhead = 0 then fst x else xhead) (fst x) (snd x) h' (y # zs)"
      "\<And>r h'' ys. result_list (if xhead = 0 then fst x else xhead) (fst x) (snd x) r h'' ys \<Longrightarrow>
         same_but (insert (fst x) (addrs (y # zs))) h' h'' \<Longrightarrow>
         result_list xhead xprev v r h'' (x # ys) \<and> same_but (insert xprev (addrs (x # y # zs))) h h''"
      by (rule link_single_result [OF Cons.prems(2) hx(1,2) d(1) hx(3), where B = "addrs (y # zs)"])
         (use re in \<open>auto simp: result_end_def\<close>)
    have "single_rest fuel (fst x) dup (xhead, xprev, h) = single_rest k (fst y) False (if xhead = 0 then fst x else xhead, fst x, h')"
      using False k hx hy h'(1) by (auto simp: single_rest_def)
    moreover have "returns (single_rest k (fst y) False (if xhead = 0 then fst x else xhead, fst x, h'))
       (\<lambda>(r, h''). result_list (if xhead = 0 then fst x else xhead) (fst x) (snd x) r h'' (singles False (y # zs)) \<and>
          same_but (insert (fst x) (addrs (y # zs))) h' h'')"
      using k d h'(2,3) by (intro Cons.IH) auto
    moreover have "singles dup (x # y # zs) = x # singles False (y # zs)" using False by simp
    ultimately show ?thesis using h'(4) by (simp only:) (erule returns_mono, clarify, blast)
  qed
qed

text \<open>
  The second \<^verbatim>\<open>deleteDuplicates\<close> keeps exactly the nodes whose value is not repeated.
\<close>

lemma deleteDuplicates_2_returns:
  assumes "lst h p xs" "length xs \<le> fuel"
  shows "returns (deleteDuplicates_2 fuel p h) (\<lambda>(p', h'). lst h' p' (singles False xs) \<and> same_but (insert 0 (addrs xs)) h h')"
proof (cases xs)
  case Nil
  then show ?thesis using assms by (simp add: deleteDuplicates_2_def)
next
  case (Cons x ys)
  have "returns (single_rest fuel (fst x) False (0, 0, h))
    (\<lambda>(r, h'). result_list 0 0 0 r h' (singles False (x # ys)) \<and> same_but (insert 0 (addrs (x # ys))) h h')"
    using assms lst_distinct [OF assms(1)] Cons by (intro single_rest_returns) (auto simp: result_end_def)
  then show ?thesis using assms(1) Cons by (auto simp: deleteDuplicates_2_def single_rest_def result_list_def)
qed

section \<open>Removing the node at a distance from the end\<close>

text \<open>The address of node \<open>i\<close>; the node behind the end is the null pointer.\<close>

definition node_at :: "(ptr \<times> int) list \<Rightarrow> nat \<Rightarrow> ptr" where
  "node_at xs i = (if i < length xs then fst (xs ! i) else 0)"

lemma lst_nth:
  "lst h p xs \<Longrightarrow> i < length xs \<Longrightarrow> h (node_at xs i) = Some \<lparr>val = snd (xs ! i), lnext = node_at xs (Suc i)\<rparr> \<and> node_at xs i \<noteq> 0"
proof (induction xs arbitrary: p i)
  case (Cons x xs)
  then obtain r where r: "h (fst x) = Some \<lparr>val = snd x, lnext = r\<rparr>" "lst h r xs" "fst x \<noteq> 0" by auto
  show ?case
  proof (cases i)
    case 0
    then show ?thesis using r seg_head [OF r(2)] by (auto simp: node_at_def hd_conv_nth)
  next
    case (Suc j)
    then show ?thesis using Cons.IH [OF r(2), of j] Cons.prems(2) by (simp add: node_at_def)
  qed
qed simp

lemma lst_head: "lst h p xs \<Longrightarrow> p = node_at xs 0"
  using seg_head [of h p xs] by (simp add: node_at_def hd_conv_nth)

lemma advance_returns:
  assumes "lst h p xs" "1 \<le> n" "nat n \<le> length xs"
  shows "exec_fold (\<lambda>i y. get_lnext h y) [0..n - 2] p = Ret (node_at xs (nat n - 1))"
proof -
  have "returns (exec_fold (\<lambda>i y. get_lnext h y) [0..n - 2] p) (\<lambda>y. y = node_at xs (nat (n - 2 + 1)))"
    using assms lst_head [OF assms(1)] lst_nth [OF assms(1)]
    by (intro exec_fold_upto [where P = "\<lambda>i y. y = node_at xs (nat i)"]) (auto simp: nat_add_distrib)
  moreover have "nat (n - 2 + 1) = nat n - 1" using assms(2) by linarith
  ultimately show ?thesis by (auto simp: returns_iff)
qed

lemma nth_loop_returns:
  assumes "lst h p xs" "i + k < length xs" "length xs - (i + k) \<le> fuel"
  shows "nth_loop fuel (if i = 0 then 0 else node_at xs (i - 1)) (node_at xs i) (node_at xs (i + k)) h =
    Ret (if length xs = Suc k then 0 else node_at xs (length xs - 2 - k), node_at xs (length xs - 1 - k))"
  using assms(2,3)
proof (induction fuel arbitrary: i)
  case (Suc fuel)
  show ?case
  proof (cases "i + k = length xs - 1")
    case True
    then have "node_at xs (Suc (i + k)) = 0" "length xs - 1 - k = i" "i = 0 \<longleftrightarrow> length xs = Suc k" "length xs - 2 - k = i - 1"
      using Suc.prems by (auto simp: node_at_def)
    then show ?thesis using lst_nth [OF assms(1), of "i + k"] Suc.prems by simp
  next
    case False
    then have "Suc (i + k) < length xs" using Suc.prems by simp
    then show ?thesis
      using lst_nth [OF assms(1), of "i + k"] lst_nth [OF assms(1), of "Suc (i + k)"] lst_nth [OF assms(1), of i] Suc.IH [of "Suc i"] Suc.prems
      by simp
  qed
qed simp

lemma lst_remove:
  assumes "lst h p (xs @ x # y # zs)" "h (fst y) = Some \<lparr>val = snd y, lnext = q\<rparr>"
  shows "lst (h(fst x \<mapsto> \<lparr>val = snd x, lnext = q\<rparr>)) p (xs @ x # zs)"
proof -
  have d: "fst x \<notin> addrs xs" "fst x \<notin> addrs zs" "fst x \<noteq> fst y" using lst_distinct [OF assms(1)] by auto
  have "lst h q zs" using assms by auto
  then show ?thesis using assms d by auto
qed

lemma removeNthFromEnd_returns:
  assumes "lst h p xs" "1 \<le> n" "n \<le> int (length xs)" "length xs \<le> fuel" "n < 2 ^ 31"
  shows "returns (removeNthFromEnd fuel p n h)
    (\<lambda>(p', h'). lst h' p' (take (length xs - nat n) xs @ drop (Suc (length xs - nat n)) xs) \<and> same_but (addrs xs) h h')"
proof -
  define k where "k = nat n - 1"
  define d where "d = length xs - nat n"
  have kd: "k < length xs" "d = length xs - 1 - k" using assms(2,3) by (auto simp: k_def d_def)
  have adv: "exec_fold (\<lambda>i y. get_lnext h y) [0..n - 2] p = Ret (node_at xs k)"
    using advance_returns [OF assms(1,2)] assms(3) by (simp add: k_def)
  have ok: "c_int (n - 1) = Ret (n - 1)" using assms(2,5) by (simp add: int_ok_def)
  have loop: "nth_loop fuel 0 p (node_at xs k) h =
      Ret (if length xs = Suc k then 0 else node_at xs (length xs - 2 - k), node_at xs (length xs - 1 - k))"
    using nth_loop_returns [OF assms(1), of 0 k fuel] lst_head [OF assms(1)] kd assms(4) by simp
  show ?thesis
  proof (cases "length xs = Suc k")
    case True
    then obtain x ys where "xs = x # ys" "d = 0" using kd by (cases xs) auto
    then show ?thesis unfolding d_def [symmetric] using assms(1) adv ok loop True by (auto simp: removeNthFromEnd_def)
  next
    case False
    define e where "e = d - 1"
    have e: "d = Suc e" "Suc e < length xs" "length xs - 2 - k = e" using False kd by (auto simp: e_def)
    have split: "xs = take e xs @ xs ! e # xs ! Suc e # drop (Suc (Suc e)) xs"
      using e(2) by (simp add: Cons_nth_drop_Suc)
    have t: "take (Suc e) xs = take e xs @ [xs ! e]" using e(2) by (simp add: take_Suc_conv_app_nth)
    note n1 = lst_nth [OF assms(1), of e] and n2 = lst_nth [OF assms(1), of "Suc e"]
    have na: "node_at xs e = fst (xs ! e)" "node_at xs (Suc e) = fst (xs ! Suc e)" using e(2) by (simp_all add: node_at_def)
    have l0: "lst h p (take e xs @ xs ! e # xs ! Suc e # drop (Suc (Suc e)) xs)" using assms(1) split by simp
    have l: "lst (h(fst (xs ! e) \<mapsto> \<lparr>val = snd (xs ! e), lnext = node_at xs (Suc (Suc e))\<rparr>)) p (take e xs @ xs ! e # drop (Suc (Suc e)) xs)"
      using n2 na e(2) by (intro lst_remove [OF l0]) simp
    have "same_but (addrs xs) h (h(fst (xs ! e) \<mapsto> nd))" for nd
      using nth_mem [of e xs] e(2) by (auto simp: same_but_def)
    then show ?thesis unfolding d_def [symmetric] using adv ok loop False e n1 n2 na l kd t
      by (simp add: removeNthFromEnd_def)
  qed
qed

text \<open>
  A distance below 1 is read as 1. Beyond the end of the list, or on the empty list, the loops
  follow the null pointer.
\<close>

lemma removeNthFromEnd_low:
  "n \<le> 1 \<Longrightarrow> - (2 ^ 31) < n \<Longrightarrow> removeNthFromEnd fuel p n h = removeNthFromEnd fuel p 1 h"
  by (simp add: removeNthFromEnd_def int_ok_def)

lemma advance_beyond:
  "lst h p xs \<Longrightarrow> h 0 = None \<Longrightarrow> length xs \<le> length is \<Longrightarrow>
   exec_fold (\<lambda>i y. get_lnext h y) is p \<in> {Ret 0, Undefined}"
proof (induction "is" arbitrary: p xs)
  case (Cons i "is")
  show ?case
  proof (cases xs)
    case Nil
    with Cons.prems show ?thesis by (simp add: get_lnext_def)
  next
    case (Cons x ys)
    with Cons.prems obtain r where "h p = Some \<lparr>val = snd x, lnext = r\<rparr>" "lst h r ys" by auto
    with Cons Cons.IH [of r ys] Cons.prems(2,3) show ?thesis by simp
  qed
qed simp

lemma removeNthFromEnd_undefined:
  assumes "lst h p xs" "h 0 = None" "0 < fuel" "xs = [] \<or> int (length xs) < n"
  shows "removeNthFromEnd fuel p n h = Undefined"
proof -
  obtain k where k: "fuel = Suc k" using assms(3) by (cases fuel) auto
  have "length xs \<le> length [0..n - 2]" using assms(4) by auto
  from advance_beyond [OF assms(1,2) this] k assms(2) show ?thesis
    by (auto simp: removeNthFromEnd_def c_int_def get_lnext_def)
qed

section \<open>Swapping pairs of nodes\<close>

fun swapped :: "'a list \<Rightarrow> 'a list" where
  "swapped (x # y # zs) = y # x # swapped zs"
| "swapped [] = []"
| "swapped [x] = [x]"

lemma mset_swapped: "mset (swapped xs) = mset xs"
  by (induction xs rule: swapped.induct) auto

definition swap_rest :: "nat \<Rightarrow> ptr \<Rightarrow> ptr \<Rightarrow> ptr \<Rightarrow> lheap \<Rightarrow> (ptr \<times> lheap) exec" where
  "swap_rest fuel head prev res h = exec_bind (swap_loop fuel head prev res h) (\<lambda>(prev, res, h).
     exec_bind (if prev \<noteq> 0 then set_lnext prev 0 h else Ret h) (\<lambda>h. Ret (res, h)))"

text \<open>The node \<open>prev\<close> ends the part of the list that is swapped; its \<^verbatim>\<open>next\<close> is still to be set.\<close>

lemma swap_rest_returns:
  assumes "lst h head xs" "distinct (map fst xs)" "length xs < fuel"
    and "prev \<noteq> 0 \<Longrightarrow> prev \<notin> addrs xs \<and> h prev = Some \<lparr>val = v, lnext = n\<rparr>" "prev = 0 \<Longrightarrow> res = 0"
  shows "returns (swap_rest fuel head prev res h)
    (\<lambda>(r, h'). result_list res prev v r h' (swapped xs) \<and> same_but (insert prev (addrs xs) - {0}) h h')"
  using assms
proof (induction xs arbitrary: head prev res v n h fuel rule: swapped.induct)
  case (1 x y zs)
  then obtain k where k: "fuel = Suc k" "length zs < k" by (cases fuel) auto
  obtain s where s: "head = fst x" "fst x \<noteq> 0" "fst y \<noteq> 0" "h (fst x) = Some \<lparr>val = snd x, lnext = fst y\<rparr>"
      "h (fst y) = Some \<lparr>val = snd y, lnext = s\<rparr>" "lst h s zs" using 1(2) by auto
  have d: "fst x \<noteq> fst y" "fst x \<notin> addrs zs" "fst y \<notin> addrs zs" "distinct (map fst zs)" using 1(3) by auto
  let ?h = "h(fst y \<mapsto> \<lparr>val = snd y, lnext = fst x\<rparr>)"
  let ?g = "if prev = 0 then ?h else ?h(prev \<mapsto> \<lparr>val = v, lnext = fst y\<rparr>)"
  let ?res = "if prev = 0 then fst y else res"
  have p: "prev \<noteq> 0 \<Longrightarrow> prev \<noteq> fst x \<and> prev \<noteq> fst y \<and> prev \<notin> addrs zs \<and> h prev = Some \<lparr>val = v, lnext = n\<rparr>" using 1(5) by auto
  have l: "lst ?g s zs" using s(6) d p by (cases "prev = 0") simp_all
  have gx: "?g (fst x) = Some \<lparr>val = snd x, lnext = fst y\<rparr>" using s d p by auto
  have "returns (swap_rest k s (fst x) ?res ?g)
      (\<lambda>(r, h'). result_list ?res (fst x) (snd x) r h' (swapped zs) \<and> same_but (insert (fst x) (addrs zs) - {0}) ?g h')"
    using l d gx k s(2) by (intro 1(1)) auto
  moreover have "swap_rest fuel head prev res h = swap_rest k s (fst x) ?res ?g"
    using k s p d by (cases "prev = 0") (simp_all add: swap_rest_def Let_def)
  moreover have "result_list res prev v r h' (y # x # swapped zs) \<and> same_but (insert prev (addrs (x # y # zs)) - {0}) h h'"
    if "result_list ?res (fst x) (snd x) r h' (swapped zs)" "same_but (insert (fst x) (addrs zs) - {0}) ?g h'" for r h'
  proof -
    have "h' (fst y) = Some \<lparr>val = snd y, lnext = fst x\<rparr>" using that(2) d p by (auto simp: same_but_def)
    moreover have "prev \<noteq> 0 \<Longrightarrow> h' prev = Some \<lparr>val = v, lnext = fst y\<rparr>" using that(2) p by (auto simp: same_but_def)
    ultimately show ?thesis using that s by (cases "prev = 0") (auto simp: result_list_def same_but_def)
  qed
  ultimately show ?case by (auto elim!: returns_mono)
next
  case 2
  then obtain k where "fuel = Suc k" by (cases fuel) auto
  then show ?case using 2 by (cases "prev = 0") (auto simp: swap_rest_def result_list_def same_but_def)
next
  case (3 x)
  then obtain k where k: "fuel = Suc k" by (cases fuel) auto
  have p: "prev \<noteq> 0 \<Longrightarrow> prev \<noteq> fst x \<and> h prev = Some \<lparr>val = v, lnext = n\<rparr>" using 3 by auto
  show ?case using k 3 p by (cases "prev = 0") (auto simp: swap_rest_def result_list_def same_but_def)
qed

lemma swapPairs_returns:
  assumes "lst h p xs" "length xs < fuel"
  shows "returns (swapPairs fuel p h) (\<lambda>(p', h'). lst h' p' (swapped xs) \<and> same_but (addrs xs) h h')"
  using swap_rest_returns [OF assms(1) lst_distinct [OF assms(1)] assms(2), of 0 0 0]
  by (auto simp: swapPairs_def swap_rest_def result_list_def elim!: returns_mono intro: same_but_mono)

section \<open>Reversing a part of the list\<close>

lemma seg_relink:
  assumes "seg h p (xs @ [x]) q" "fst x \<notin> addrs xs"
  shows "set_lnext (fst x) r h = Ret (h(fst x \<mapsto> \<lparr>val = snd x, lnext = r\<rparr>))"
    "seg (h(fst x \<mapsto> \<lparr>val = snd x, lnext = r\<rparr>)) p (xs @ [x]) r"
  using assms by auto

text \<open>The loop over the nodes before position \<open>m\<close>, over those from \<open>m\<close> to \<open>n\<close>, and its end.\<close>

lemma reverse_prefix:
  "seg h head xs q \<Longrightarrow> 0 \<le> cnt \<Longrightarrow> cnt + int (length xs) < m \<Longrightarrow> m < 2 ^ 31 \<Longrightarrow>
   reverse_loop (length xs + fuel) m n cnt head s h = reverse_loop fuel m n (cnt + int (length xs)) q
     (if xs = [] then s else s\<lparr>r_xhead := (if r_xhead s = 0 then fst (hd xs) else r_xhead s), r_xprev := fst (last xs)\<rparr>) h"
proof (induction xs arbitrary: head cnt s)
  case (Cons x xs)
  then obtain r where r: "head = fst x" "head \<noteq> 0" "h head = Some \<lparr>val = snd x, lnext = r\<rparr>" "seg h r xs q" by auto
  have "int_ok (cnt + 1)" using Cons.prems by (simp add: int_ok_def)
  then show ?case using Cons.IH [OF r(4), of "cnt + 1"] Cons.prems r(1-3) by (auto simp: Let_def algebra_simps)
qed simp

lemma reverse_middle:
  assumes "seg h head xs q" "m \<le> cnt + 1" "0 \<le> cnt" "cnt + int (length xs) \<le> n" "n < 2 ^ 31"
    and "lst h (r_yprev s) acc" "distinct (map fst (xs @ acc))"
  shows "\<exists>h'. reverse_loop (length xs + fuel) m n cnt head s h = reverse_loop fuel m n (cnt + int (length xs)) q
      (if xs = [] then s else s\<lparr>r_ytail := (if r_ytail s = 0 then fst (hd xs) else r_ytail s), r_yprev := fst (last xs)\<rparr>) h' \<and>
    lst h' (if xs = [] then r_yprev s else fst (last xs)) (rev xs @ acc) \<and> same_but (addrs xs) h h'"
  using assms
proof (induction xs arbitrary: head cnt s h acc)
  case Nil
  then show ?case by auto
next
  case (Cons x xs)
  then obtain r where r: "head = fst x" "head \<noteq> 0" "h head = Some \<lparr>val = snd x, lnext = r\<rparr>" "seg h r xs q" by auto
  let ?h = "h(head \<mapsto> \<lparr>val = snd x, lnext = r_yprev s\<rparr>)" and ?s = "(if r_ytail s = 0 then s\<lparr>r_ytail := head\<rparr> else s)\<lparr>r_yprev := head\<rparr>"
  have d: "head \<notin> addrs xs" "head \<notin> addrs acc" "distinct (map fst (xs @ x # acc))" using Cons.prems(7) r(1) by auto
  have l: "seg ?h r xs q" "lst ?h (r_yprev ?s) (x # acc)" using r d Cons.prems(6) by simp_all
  have c: "int_ok (cnt + 1)" "m \<le> (cnt + 1) + 1" "0 \<le> cnt + 1" "cnt + 1 + int (length xs) \<le> n" "cnt + 1 \<le> n"
    using Cons.prems by (auto simp: int_ok_def)
  obtain h' where h': "reverse_loop (length xs + fuel) m n (cnt + 1) r ?s ?h = reverse_loop fuel m n (cnt + 1 + int (length xs)) q
      (if xs = [] then ?s else ?s\<lparr>r_ytail := (if r_ytail ?s = 0 then fst (hd xs) else r_ytail ?s), r_yprev := fst (last xs)\<rparr>) h'"
    "lst h' (if xs = [] then r_yprev ?s else fst (last xs)) (rev xs @ x # acc)" "same_but (addrs xs) ?h h'"
    using Cons.IH [OF l(1) c(2,3,4) Cons.prems(5) l(2) d(3)] by blast
  have "reverse_loop (length (x # xs) + fuel) m n cnt head s h = reverse_loop (length xs + fuel) m n (cnt + 1) r ?s ?h"
    using r c Cons.prems(2) by (simp add: Let_def)
  moreover have "same_but (addrs (x # xs)) h h'" using h'(3) r(1) by (auto simp: same_but_def)
  ultimately show ?case using h'(1,2) r(1,2) by (intro exI [of _ h']) (auto simp: algebra_simps)
qed

lemma reverse_end:
  "lst h q xs \<Longrightarrow> 0 \<le> n \<Longrightarrow> m \<le> n \<Longrightarrow> n + 1 < 2 ^ 31 \<Longrightarrow> reverse_loop (Suc fuel) m n n q s h = Ret (q, s, h)"
  by (cases xs) (auto simp: int_ok_def)

lemma reverseBetween_returns:
  assumes l: "lst h p (pre @ x # mid @ post)" and m: "int (length pre) = m - 1" "int (length mid) = n - m" "n + 1 < 2 ^ 31"
    and f: "length (pre @ x # mid) < fuel"
  shows "returns (reverseBetween fuel p m n h)
    (\<lambda>(p', h'). lst h' p' (pre @ rev mid @ x # post) \<and> same_but (addrs (pre @ x # mid)) h h')"
proof -
  let ?s0 = "\<lparr>r_xhead = 0, r_xprev = 0, r_ytail = 0, r_yprev = 0\<rparr>" and ?xs = "x # mid"
  define s1 where "s1 = (if pre = [] then ?s0 else ?s0\<lparr>r_xhead := fst (hd pre), r_xprev := fst (last pre)\<rparr>)"
  have s1: "r_ytail s1 = 0" "r_yprev s1 = 0" by (simp_all add: s1_def)
  let ?s2 = "s1\<lparr>r_ytail := fst x, r_yprev := fst (last ?xs)\<rparr>"
  obtain k where k: "fuel = length pre + (length ?xs + Suc k)" using f less_imp_Suc_add [of "length (pre @ x # mid)" fuel] by auto
  have d: "distinct (map fst (pre @ ?xs @ post))" using lst_distinct [OF l] by simp
  obtain q where q: "seg h p pre (fst x)" "seg h (fst x) ?xs q" "lst h q post" using l by auto
  have "\<exists>h1. reverse_loop (length ?xs + Suc k) m n (m - 1) (fst x) s1 h = reverse_loop (Suc k) m n n q ?s2 h1 \<and>
      lst h1 (fst (last ?xs)) (rev ?xs) \<and> same_but (addrs ?xs) h h1"
    using reverse_middle [OF q(2), of m "m - 1" n s1 "[]" "Suc k"] m d
    by (simp del: reverse_loop.simps seg.simps rev.simps seg_append last.simps add: s1)
  then obtain h1 where h1: "reverse_loop (length ?xs + Suc k) m n (m - 1) (fst x) s1 h = reverse_loop (Suc k) m n n q ?s2 h1"
    "lst h1 (fst (last ?xs)) (rev ?xs)" "same_but (addrs ?xs) h h1" by blast
  have "reverse_loop fuel m n 0 p ?s0 h = reverse_loop (length ?xs + Suc k) m n (m - 1) (fst x) s1 h"
    using reverse_prefix [OF q(1), of 0 m "length ?xs + Suc k" n ?s0] m k by (simp add: s1_def del: reverse_loop.simps)
  also have "\<dots> = Ret (q, ?s2, h1)"
    unfolding h1(1) using m seg_same [OF q(3) h1(3)] d by (intro reverse_end) auto
  finally have loop: "reverse_loop fuel m n 0 p ?s0 h = Ret (q, ?s2, h1)" .
  let ?nx = "\<lparr>val = snd x, lnext = q\<rparr>"
  have r: "set_lnext (fst x) q g = Ret (g(fst x \<mapsto> ?nx))" "seg (g(fst x \<mapsto> ?nx)) (fst (last ?xs)) (rev mid @ [x]) q"
    if "lst g (fst (last ?xs)) (rev ?xs)" for g
    using seg_relink [of g _ "rev mid" x 0 q] that d by auto
  have post: "lst h1 q post" "seg h1 p pre (fst x)" using d by (intro seg_same [OF q(3) h1(3)] seg_same [OF q(1) h1(3)]; simp; blast)+
  show ?thesis
  proof (cases "pre = []")
    case True
    then have "m = 1" using m by simp
    then show ?thesis using True loop r [OF h1(2)] post h1(3) d by (auto simp: reverseBetween_def s1_def same_but_def)
  next
    case False
    then obtain ps y where pre: "pre = ps @ [y]" by (metis rev_exhaust)
    have dy: "fst y \<notin> addrs ps" "fst y \<noteq> fst x" "fst y \<notin> addrs mid" "fst y \<notin> addrs post" "fst x \<notin> addrs ps" "fst x \<notin> addrs post" using d pre by auto
    let ?g = "h1(fst y \<mapsto> \<lparr>val = snd y, lnext = fst (last ?xs)\<rparr>)"
    have g: "set_lnext (fst y) (fst (last ?xs)) h1 = Ret ?g" "seg ?g p pre (fst (last ?xs))"
      using seg_relink [of h1 p ps y "fst x" "fst (last ?xs)"] post(2) pre dy by auto
    have gl: "lst ?g (fst (last ?xs)) (rev ?xs)" "lst ?g q post" using h1(2) post(1) dy by simp_all
    have "m \<noteq> 1" "hd pre = hd pre \<and> fst (hd pre) = p" using m False q(1) by (cases pre; auto)+
    then show ?thesis using False loop r [OF gl(1)] g gl(2) h1(3) dy pre
      by (auto simp: reverseBetween_def s1_def same_but_def)
  qed
qed

text \<open>Beyond the last node the end position makes no difference.\<close>

lemma reverse_loop_beyond:
  "lst h head xs \<Longrightarrow> cnt + int (length xs) \<le> n \<Longrightarrow> cnt + int (length xs) \<le> n' \<Longrightarrow>
   reverse_loop fuel m n cnt head s h = reverse_loop fuel m n' cnt head s h"
proof (induction fuel arbitrary: cnt head s h xs)
  case (Suc fuel)
  show ?case
  proof (cases xs)
    case Nil
    with Suc.prems(1) show ?thesis by simp
  next
    case (Cons x ys)
    then obtain r where r: "head = fst x" "head \<noteq> 0" "h head = Some \<lparr>val = snd x, lnext = r\<rparr>" "lst h r ys"
      using Suc.prems(1) by auto
    have "fst x \<notin> addrs ys" using lst_distinct [OF Suc.prems(1)] Cons by auto
    then have upd: "lst (h(head \<mapsto> nd)) r ys" for nd using r(1,4) by simp
    have n: "cnt + 1 + int (length ys) \<le> n" "cnt + 1 + int (length ys) \<le> n'" "cnt + 1 \<le> n" "cnt + 1 \<le> n'"
      using Suc.prems(2,3) Cons by auto
    have "reverse_loop fuel m n (cnt + 1) r s' (h(head \<mapsto> nd)) = reverse_loop fuel m n' (cnt + 1) r s' (h(head \<mapsto> nd))"
      for s' nd by (rule Suc.IH [OF upd n(1,2)])
    then show ?thesis
      using r(2-) n(3,4) Suc.IH [OF r(4) n(1,2)] by (simp add: Let_def c_int_def)
  qed
qed simp

lemma reverseBetween_beyond:
  "lst h p xs \<Longrightarrow> int (length xs) \<le> n \<Longrightarrow>
   reverseBetween fuel p m n h = reverseBetween fuel p m (int (length xs)) h"
  using reverse_loop_beyond [of h p xs 0 n "int (length xs)" fuel m] by (simp add: reverseBetween_def)

text \<open>
  A range that starts before the first node, starts behind the last one or is empty: the loop leaves
  \<^verbatim>\<open>xprev\<close> or \<^verbatim>\<open>ytail\<close> null, and the statements after it follow this pointer.
\<close>

definition rev_null :: "int \<Rightarrow> rev_state \<Rightarrow> bool" where
  "rev_null m s \<longleftrightarrow> (m \<le> 0 \<and> r_xprev s = 0) \<or> r_ytail s = 0"

lemma reverse_loop_null:
  assumes "lst h head xs" "length xs < fuel" "h 0 = None" "0 \<le> cnt"
    and "m \<le> 0 \<and> r_xprev s = 0 \<or> r_ytail s = 0 \<and> (n < m \<or> cnt + int (length xs) < m)"
  shows "reverse_loop fuel m n cnt head s h = Undefined \<or>
    (\<exists>q s' h'. reverse_loop fuel m n cnt head s h = Ret (q, s', h') \<and> h' 0 = None \<and> rev_null m s')"
  using assms
proof (induction fuel arbitrary: cnt head s h xs)
  case (Suc fuel)
  show ?case
  proof (cases xs)
    case Nil
    with Suc.prems show ?thesis by (auto simp: rev_null_def)
  next
    case (Cons x ys)
    then obtain r where r: "head = fst x" "head \<noteq> 0" "h head = Some \<lparr>val = snd x, lnext = r\<rparr>" "lst h r ys"
      using Suc.prems(1) by auto
    have "fst x \<notin> addrs ys" using lst_distinct [OF Suc.prems(1)] Cons by auto
    then have upd: "lst (h(head \<mapsto> nd)) r ys" for nd using r(1,4) by simp
    have len: "length ys < fuel" using Suc.prems(2) Cons by simp
    consider "m \<le> cnt + 1" "cnt + 1 \<le> n" | "cnt + 1 < m" | "m \<le> cnt + 1" "n < cnt + 1" by linarith
    then show ?thesis
    proof cases
      case 1
      then have m: "m \<le> 0 \<and> r_xprev s = 0" using Suc.prems(5) Cons by auto
      let ?s = "(if r_ytail s = 0 then s\<lparr>r_ytail := head\<rparr> else s)\<lparr>r_yprev := head\<rparr>"
      let ?h = "h(head \<mapsto> \<lparr>val = snd x, lnext = r_yprev s\<rparr>)"
      have "reverse_loop fuel m n (cnt + 1) r ?s ?h = Undefined \<or>
          (\<exists>q s' h'. reverse_loop fuel m n (cnt + 1) r ?s ?h = Ret (q, s', h') \<and> h' 0 = None \<and> rev_null m s')"
        using m r(2) Suc.prems(3,4) by (intro Suc.IH [OF upd len]) auto
      moreover have "reverse_loop (Suc fuel) m n cnt head s h =
          (if int_ok (cnt + 1) then reverse_loop fuel m n (cnt + 1) r ?s ?h else Undefined)"
        using 1 r by (simp add: Let_def c_int_def)
      ultimately show ?thesis by (cases "int_ok (cnt + 1)") (simp_all only: if_True if_False simp_thms)
    next
      case 2
      let ?s = "(if r_xhead s = 0 then s\<lparr>r_xhead := head\<rparr> else s)\<lparr>r_xprev := head\<rparr>"
      have "reverse_loop fuel m n (cnt + 1) r ?s h = Undefined \<or>
          (\<exists>q s' h'. reverse_loop fuel m n (cnt + 1) r ?s h = Ret (q, s', h') \<and> h' 0 = None \<and> rev_null m s')"
        using 2 Cons Suc.prems(3-5) by (intro Suc.IH [OF r(4) len]) auto
      moreover have "reverse_loop (Suc fuel) m n cnt head s h =
          (if int_ok (cnt + 1) then reverse_loop fuel m n (cnt + 1) r ?s h else Undefined)"
        using 2 r by (simp add: Let_def c_int_def)
      ultimately show ?thesis by (cases "int_ok (cnt + 1)") (simp_all only: if_True if_False simp_thms)
    next
      case 3
      then show ?thesis using r Suc.prems(3-5) by (auto simp: rev_null_def c_int_def)
    qed
  qed
qed simp

lemma reverseBetween_undefined:
  assumes "lst h p xs" "length xs < fuel" "h 0 = None" "\<not> (1 \<le> m \<and> m \<le> n \<and> m \<le> int (length xs))"
  shows "reverseBetween fuel p m n h = Undefined"
proof -
  let ?s0 = "\<lparr>r_xhead = 0, r_xprev = 0, r_ytail = 0, r_yprev = 0\<rparr>"
  have null: "set_lnext 0 q g = Undefined" if "g 0 = None" for q g using that by (simp add: set_lnext_def)
  have keep: "g' 0 = None" if "set_lnext a q g = Ret g'" "g 0 = None" for a q g g'
    using that by (cases "a = 0") (auto simp: set_lnext_def split: option.splits)
  have "reverse_loop fuel m n 0 p ?s0 h = Undefined \<or>
    (\<exists>q s' h'. reverse_loop fuel m n 0 p ?s0 h = Ret (q, s', h') \<and> h' 0 = None \<and> rev_null m s')"
    using assms by (intro reverse_loop_null) auto
  then show ?thesis
  proof
    assume "\<exists>q s' h'. reverse_loop fuel m n 0 p ?s0 h = Ret (q, s', h') \<and> h' 0 = None \<and> rev_null m s'"
    then obtain q s' h' where l: "reverse_loop fuel m n 0 p ?s0 h = Ret (q, s', h')" "h' 0 = None" "rev_null m s'" by blast
    show ?thesis
    proof (cases "set_lnext (r_xprev s') (r_yprev s') h'")
      case (Ret g)
      with keep l(2) have "g 0 = None" by blast
      with Ret l null show ?thesis by (cases "m \<le> 0") (auto simp: reverseBetween_def rev_null_def)
    qed (use l null in \<open>auto simp: reverseBetween_def rev_null_def set_lnext_def split: option.splits\<close>)
  qed (simp add: reverseBetween_def)
qed

section \<open>Adding two numbers\<close>

text \<open>The number that a list of digits denotes, the least significant digit first.\<close>

primrec num :: "(ptr \<times> int) list \<Rightarrow> int" where
  "num [] = 0"
| "num (x # xs) = snd x + 10 * num xs"

definition digits :: "(ptr \<times> int) list \<Rightarrow> bool" where
  "digits xs \<longleftrightarrow> (\<forall>x \<in> set xs. 0 \<le> snd x \<and> snd x \<le> 9)"

lemma digits_Cons [simp]: "digits (x # xs) \<longleftrightarrow> 0 \<le> snd x \<and> snd x \<le> 9 \<and> digits xs"
  by (auto simp: digits_def)

lemma digits_Nil [simp]: "digits []"
  by (simp add: digits_def)

lemma seg_nonnull: "seg h p xs q \<Longrightarrow> 0 \<notin> addrs xs"
  by (induction xs arbitrary: p) auto

lemma append_digit_result:
  assumes "result_end head prev v h []" "a \<noteq> 0" "a \<noteq> prev" "prev \<notin> set news"
  obtains h' head' where "append_digit d (head, prev, a # news, h) = Ret (head', a, news, h')"
    "result_end head' a d h' []" "same_but {prev, a} h h'"
    "\<And>r h'' ys. result_list head' a d r h'' ys \<Longrightarrow> same_but (insert a (set news)) h' h'' \<Longrightarrow>
       result_list head prev v r h'' ((a, d) # ys) \<and> same_but (insert prev (set (a # news))) h h''"
proof (cases "prev = 0")
  case True
  show ?thesis
    by (rule that [of a "h(a \<mapsto> \<lparr>val = d, lnext = 0\<rparr>)"])
       (use assms True in \<open>auto simp: append_digit_def result_end_def result_list_def same_but_def\<close>)
next
  case False
  show ?thesis
    by (rule that [of head "h(a \<mapsto> \<lparr>val = d, lnext = 0\<rparr>, prev \<mapsto> \<lparr>val = v, lnext = a\<rparr>)"])
       (use assms False in \<open>auto simp: append_digit_def result_end_def result_list_def same_but_def\<close>)
qed

lemma add_prev_append: "prev \<noteq> 0 \<Longrightarrow> add_prev d (head, prev, st) = append_digit d (head, prev, st)"
  by (simp add: add_prev_def append_digit_def split_beta)

text \<open>The nodes that \<^verbatim>\<open>new\<close> will return are unused.\<close>

definition fresh :: "ptr list \<Rightarrow> ptr \<Rightarrow> (ptr \<times> int) list \<Rightarrow> bool" where
  "fresh news prev xs \<longleftrightarrow> distinct news \<and> 0 \<notin> set news \<and> prev \<notin> set news \<and> (prev = 0 \<or> prev \<notin> addrs xs) \<and> set news \<inter> addrs xs = {}"

lemma fresh_step: "fresh (a # news) prev (xs @ ys) \<Longrightarrow> fresh news a ys"
  by (auto simp: fresh_def)

lemma fresh_cell: "fresh (a # news) prev xs \<Longrightarrow> a \<noteq> 0 \<and> a \<noteq> prev \<and> prev \<notin> set news"
  by (auto simp: fresh_def)

lemma fresh_lst:
  assumes "lst h p xs" "fresh (a # news) prev (ys @ xs @ zs)" "same_but {prev, a} h h'"
  shows "lst h' p xs"
  using assms seg_nonnull [OF assms(1)] by (intro seg_same [OF assms(1,3)]) (auto simp: fresh_def image_iff)

definition added :: "ptr \<Rightarrow> ptr \<Rightarrow> int \<Rightarrow> ptr list \<Rightarrow> lheap \<Rightarrow> int \<Rightarrow> ptr \<times> lheap \<Rightarrow> bool" where
  "added head prev v news h k = (\<lambda>(r, h'). \<exists>ys. result_list head prev v r h' ys \<and> num ys = k \<and> digits ys \<and>
     same_but (insert prev (set news)) h h')"

lemma added_step:
  assumes "\<And>r h'' ys. result_list head' a d r h'' ys \<Longrightarrow> same_but (insert a (set news)) h' h'' \<Longrightarrow>
       result_list head prev v r h'' ((a, d) # ys) \<and> same_but (insert prev (set (a # news))) h h''"
    and "0 \<le> d" "d \<le> 9" "added head' a d news h' k res"
  shows "added head prev v (a # news) h (d + 10 * k) res"
proof -
  obtain r h'' where res: "res = (r, h'')" by (cases res)
  then obtain ys where ys: "result_list head' a d r h'' ys" "num ys = k" "digits ys" "same_but (insert a (set news)) h' h''"
    using assms(4) by (auto simp: added_def)
  then show ?thesis using assms(1) [OF ys(1,4)] assms(2,3) res by (auto simp: added_def intro!: exI [of _ "(a, d) # ys"])
qed

lemma add_digit_cases:
  assumes "0 \<le> v" "v \<le> 19"
  obtains b d where "add_digit v = (b, d)" "b = 0 \<or> b = 1" "0 \<le> d" "d \<le> 9" "v = d + 10 * b"
  using that [of 1 "v - 10"] that [of 0 v] assms by (cases "v \<ge> 10") (simp_all add: add_digit_def)

definition add_finish :: "nat \<Rightarrow> ptr \<Rightarrow> int \<Rightarrow> ptr \<times> ptr \<times> ptr list \<times> lheap \<Rightarrow> (ptr \<times> lheap) exec" where
  "add_finish fuel n b st = exec_bind (add_rest fuel n b st) (\<lambda>(b, st).
     exec_bind (if b \<noteq> 0 then add_prev b st else Ret st) (\<lambda>(head, prev, news, h). Ret (head, h)))"

lemma add_finish_returns:
  assumes "lst h n xs" "digits xs" "b = 0 \<or> b = 1" "length xs < fuel" "length xs < length news" "fresh news prev xs"
    and "prev \<noteq> 0" "result_end head prev v h []"
  shows "returns (add_finish fuel n b (head, prev, news, h)) (added head prev v news h (num xs + b))"
  using assms
proof (induction xs arbitrary: n b fuel news prev head v h)
  case Nil
  then obtain k a ns where k: "fuel = Suc k" "news = a # ns" by (cases fuel; cases news) auto
  obtain h' head' where s: "append_digit 1 (head, prev, a # ns, h) = Ret (head', a, ns, h')" "result_end head' a 1 h' []"
    "\<And>r h'' ys. result_list head' a 1 r h'' ys \<Longrightarrow> same_but (insert a (set ns)) h' h'' \<Longrightarrow>
       result_list head prev v r h'' ((a, 1) # ys) \<and> same_but (insert prev (set (a # ns))) h h''"
    using append_digit_result [OF Nil.prems(8)] fresh_cell Nil.prems(6) k(2) by metis
  have "a \<noteq> 0" using fresh_cell Nil.prems(6) k(2) by blast
  then have r: "result_list head' a 1 head' h' []" using s(2) by (simp add: result_end_def result_list_def)
  show ?case
  proof (cases "b = 0")
    case True
    then show ?thesis using Nil.prems(1,7,8) k by (auto simp: add_finish_def added_def result_end_def result_list_def intro!: exI [of _ "[]"])
  next
    case False
    then show ?thesis using Nil.prems(1,3,7) k s(1) s(3) [OF r]
      by (auto simp: add_finish_def added_def add_prev_append intro!: exI [of _ "[(a, 1)]"])
  qed
next
  case (Cons x xs)
  then obtain k a ns where k: "fuel = Suc k" "length xs < k" "news = a # ns" "length xs < length ns" by (cases fuel; cases news) auto
  obtain r where r: "n = fst x" "n \<noteq> 0" "h n = Some \<lparr>val = snd x, lnext = r\<rparr>" "lst h r xs" using Cons.prems(1) by auto
  have v: "0 \<le> snd x + b" "snd x + b \<le> 19" using Cons.prems(2,3) by auto
  obtain b' d where d: "add_digit (snd x + b) = (b', d)" "b' = 0 \<or> b' = 1" "0 \<le> d" "d \<le> 9" "snd x + b = d + 10 * b'"
    by (rule add_digit_cases [OF v], rule that)
  have fr: "fresh (a # ns) prev (x # xs)" using Cons.prems(6) k(3) by simp
  obtain h' head' where s: "append_digit d (head, prev, a # ns, h) = Ret (head', a, ns, h')" "result_end head' a d h' []" "same_but {prev, a} h h'"
    "\<And>r h'' ys. result_list head' a d r h'' ys \<Longrightarrow> same_but (insert a (set ns)) h' h'' \<Longrightarrow>
       result_list head prev v r h'' ((a, d) # ys) \<and> same_but (insert prev (set (a # ns))) h h''"
    using append_digit_result [OF Cons.prems(8)] fresh_cell [OF fr] by metis
  have l: "lst h' n (x # xs)" using fr by (intro fresh_lst [OF Cons.prems(1) _ s(3), of ns "[]" "[]"]) simp
  then obtain r' where r': "h' n = Some \<lparr>val = snd x, lnext = r'\<rparr>" "lst h' r' xs" using r(1) by auto
  have "returns (add_finish k r' b' (head', a, ns, h')) (added head' a d ns h' (num xs + b'))"
    using Cons.prems(2) d(2) k fresh_step [of a ns prev "[x]" xs] fr fresh_cell [OF fr] by (intro Cons.IH [OF r'(2) _ _ _ _ _ _ s(2)]) auto
  moreover have "int_ok (snd x + b)" using Cons.prems(2,3) by (auto simp: int_ok_def)
  then have "add_finish fuel n b (head, prev, news, h) = add_finish k r' b' (head', a, ns, h')"
    using k r r' d(1) s(1) Cons.prems(7) by (simp add: add_finish_def add_prev_append)
  moreover have "num (x # xs) + b = d + 10 * (num xs + b')" using d(5) by simp
  moreover have "added head' a d ns h' K res \<Longrightarrow> added head prev v (a # ns) h (d + 10 * K) res" for K res
    using s(4) d(3,4) by (rule added_step)
  ultimately show ?case using k(3) by (simp only:) (erule returns_mono, blast)
qed

text \<open>
  The first loop consumes both lists while they last; the fuel of the second loop is that of the call.
\<close>

lemma add_both_returns:
  assumes "lst h p xs" "lst h q ys" "digits xs" "digits ys" "b = 0 \<or> b = 1" "min (length xs) (length ys) < fuel"
    and "max (length xs) (length ys) < length news" "fresh news prev (xs @ ys)" "result_end head prev v h []"
    and "prev = 0 \<Longrightarrow> xs \<noteq> [] \<and> ys \<noteq> []" "max (length xs) (length ys) < fuel'"
  shows "returns (exec_bind (add_both fuel p q b (head, prev, news, h)) (\<lambda>(l1, l2, b, st). add_finish fuel' (if l1 = 0 then l2 else l1) b st))
    (added head prev v news h (num xs + num ys + b))"
  using assms
proof (induction xs arbitrary: p q ys b fuel news prev head v h)
  case Nil
  then obtain k where k: "fuel = Suc k" by (cases fuel) auto
  have "fresh news prev ys" using Nil.prems(8) by simp
  then have "returns (add_finish fuel' q b (head, prev, news, h)) (added head prev v news h (num ys + b))"
    using Nil.prems by (intro add_finish_returns) auto
  then show ?case using k Nil.prems(1) by simp
next
  case (Cons x xs)
  show ?case
  proof (cases ys)
    case Nil
    obtain k where k: "fuel = Suc k" using Cons.prems(6) by (cases fuel) auto
    have "fresh news prev (x # xs)" using Cons.prems(8) Nil by simp
    then have "returns (add_finish fuel' p b (head, prev, news, h)) (added head prev v news h (num (x # xs) + b))"
      using Cons.prems Nil by (intro add_finish_returns) auto
    then show ?thesis using k Cons.prems(1,2) Nil by auto
  next
    case (Cons y ys')
    note ys = this
    obtain k a ns where k: "fuel = Suc k" "min (length xs) (length ys') < k" "news = a # ns" "max (length xs) (length ys') < length ns"
      using Cons.prems(6,7) ys by (cases fuel; cases news) auto
    have px: "p = fst x" "p \<noteq> 0" "q = fst y" "q \<noteq> 0" using Cons.prems(1,2) ys by auto
    have dg: "digits xs" "digits ys'" using Cons.prems(3,4) ys by simp_all
    have v: "0 \<le> snd x + snd y + b" "snd x + snd y + b \<le> 19" "int_ok (snd x + snd y)" "int_ok (snd x + snd y + b)"
      using Cons.prems(3,4,5) ys by (auto simp: int_ok_def)
    obtain b' d where d: "add_digit (snd x + snd y + b) = (b', d)" "b' = 0 \<or> b' = 1" "0 \<le> d" "d \<le> 9" "snd x + snd y + b = d + 10 * b'"
      by (rule add_digit_cases [OF v(1,2)], rule that)
    have fr: "fresh (a # ns) prev ((x # xs) @ y # ys')" using Cons.prems(8) k(3) ys by simp
    obtain h' head' where s: "append_digit d (head, prev, a # ns, h) = Ret (head', a, ns, h')" "result_end head' a d h' []" "same_but {prev, a} h h'"
      "\<And>r h'' ys. result_list head' a d r h'' ys \<Longrightarrow> same_but (insert a (set ns)) h' h'' \<Longrightarrow>
         result_list head prev v r h'' ((a, d) # ys) \<and> same_but (insert prev (set (a # ns))) h h''"
      using append_digit_result [OF Cons.prems(9)] fresh_cell [OF fr] by metis
    have l: "lst h' p (x # xs)" "lst h' q (y # ys')"
      using fr fresh_lst [OF Cons.prems(1) _ s(3), of ns "[]" "y # ys'"] fresh_lst [OF Cons.prems(2) _ s(3), of ns "x # xs" "[]"] ys
      by (simp_all only: append_Nil append_Nil2)
    then obtain r r' where r: "h' p = Some \<lparr>val = snd x, lnext = r\<rparr>" "lst h' r xs" "h' q = Some \<lparr>val = snd y, lnext = r'\<rparr>" "lst h' r' ys'"
      using px by auto
    have fr': "fresh ns a (xs @ ys')" using fr by (auto simp: fresh_def)
    have "returns (exec_bind (add_both k r r' b' (head', a, ns, h')) (\<lambda>(l1, l2, b, st). add_finish fuel' (if l1 = 0 then l2 else l1) b st))
        (added head' a d ns h' (num xs + num ys' + b'))"
      using fresh_cell [OF fr] Cons.prems(11) ys by (intro Cons.IH [OF r(2,4) dg d(2) k(2,4) fr' s(2)]) auto
    moreover have "add_both fuel p q b (head, prev, news, h) = add_both k r r' b' (head', a, ns, h')"
      using k(1,3) px r Cons.prems(1,2) ys d(1) s(1) v(3,4) by auto
    moreover have "num (x # xs) + num ys + b = d + 10 * (num xs + num ys' + b')" using d(5) ys by simp
    moreover have "added head' a d ns h' K res \<Longrightarrow> added head prev v (a # ns) h (d + 10 * K) res" for K res
      using s(4) d(3,4) by (rule added_step)
    ultimately show ?thesis using k(3) by (simp only:) (erule returns_mono, blast)
  qed
qed

lemma addTwoNumbers_returns:
  assumes "lst h p xs" "lst h q ys" "digits xs" "digits ys" "length xs < fuel" "length ys < fuel"
    and "length xs < length news" "length ys < length news" "distinct news" "0 \<notin> set news" "set news \<inter> (addrs xs \<union> addrs ys) = {}"
  shows "returns (addTwoNumbers fuel p q news h)
    (\<lambda>(r, h'). \<exists>zs. lst h' r zs \<and> digits zs \<and> num zs = num xs + num ys \<and> lst h' p xs \<and> lst h' q ys)"
proof (cases "xs = [] \<or> ys = []")
  case True
  then show ?thesis using assms(1-4) by (auto simp: addTwoNumbers_def dest: seg_head)
next
  case False
  then have nn: "p \<noteq> 0" "q \<noteq> 0" using assms(1,2) by (auto simp: neq_Nil_conv)
  have "returns (exec_bind (add_both fuel p q 0 (0, 0, news, h)) (\<lambda>(l1, l2, b, st). add_finish fuel (if l1 = 0 then l2 else l1) b st))
    (added 0 0 0 news h (num xs + num ys + 0))"
    using assms False by (intro add_both_returns) (auto simp: fresh_def result_end_def)
  moreover have "\<exists>zs. lst h' r zs \<and> digits zs \<and> num zs = num xs + num ys \<and> lst h' p xs \<and> lst h' q ys"
    if "added 0 0 0 news h (num xs + num ys + 0) (r, h')" for r h'
  proof -
    note ad = that
    obtain zs where zs: "lst h' r zs" "digits zs" "num zs = num xs + num ys" "same_but (insert 0 (set news)) h h'"
      using ad by (auto simp: added_def result_list_def)
    have "lst h' p xs" "lst h' q ys" using assms(11) seg_nonnull [OF assms(1)] seg_nonnull [OF assms(2)]
      by (intro seg_same [OF assms(1) zs(4)] seg_same [OF assms(2) zs(4)]; blast)+
    with zs show ?thesis by blast
  qed
  ultimately show ?thesis using nn by (auto simp: addTwoNumbers_def add_finish_def split_beta elim!: returns_mono)
qed

section \<open>Relinking by position, for every argument\<close>

lemma removeNthFromEnd_list:
  assumes "lst h p xs" "length xs < fuel" "h 0 = None" "int_ok n"
  shows "if xs \<noteq> [] \<and> n \<le> int (length xs) \<and> n \<noteq> - (2 ^ 31) then
       returns (removeNthFromEnd fuel p n h)
         (\<lambda>(p', h'). lst h' p' (take (length xs - nat (max 1 n)) xs @ drop (Suc (length xs - nat (max 1 n))) xs) \<and>
            same_but (addrs xs) h h')
     else removeNthFromEnd fuel p n h = Undefined"
proof (cases "xs = [] \<or> int (length xs) < n")
  case True
  then have "removeNthFromEnd fuel p n h = Undefined"
    using assms by (intro removeNthFromEnd_undefined) auto
  with True show ?thesis by auto
next
  case False
  then have le: "max 1 n \<le> int (length xs)" by (cases xs) auto
  show ?thesis
  proof (cases "n = - (2 ^ 31)")
    case True
    then show ?thesis by (simp add: removeNthFromEnd_def c_int_def int_ok_def)
  next
    case n: False
    then have "removeNthFromEnd fuel p n h = removeNthFromEnd fuel p (max 1 n) h"
      using removeNthFromEnd_low [of n fuel p h] assms(4) by (cases "n \<le> 1") (auto simp: int_ok_def)
    moreover have "returns (removeNthFromEnd fuel p (max 1 n) h)
         (\<lambda>(p', h'). lst h' p' (take (length xs - nat (max 1 n)) xs @ drop (Suc (length xs - nat (max 1 n))) xs) \<and>
            same_but (addrs xs) h h')"
      using assms le by (intro removeNthFromEnd_returns) (auto simp: int_ok_def)
    ultimately show ?thesis using False n by simp
  qed
qed

lemma reverseBetween_within:
  assumes "lst h p xs" "length xs < fuel" "1 \<le> m" "m \<le> n" "n \<le> int (length xs)" "length xs < 2 ^ 31 - 1"
  shows "returns (reverseBetween fuel p m n h)
      (\<lambda>(p', h'). lst h' p' (take (nat m - 1) xs @ rev (drop (nat m - 1) (take (nat n) xs)) @ drop (nat n) xs) \<and> same_but (addrs xs) h h')"
proof -
  define pre where "pre = take (nat m - 1) xs"
  obtain x mid where mid: "drop (nat m - 1) (take (nat n) xs) = x # mid" using assms(3-5) by (cases "drop (nat m - 1) (take (nat n) xs)") auto
  define post where "post = drop (nat n) xs"
  have "min (nat m - 1) (nat n) = nat m - 1" using assms(4) by linarith
  then have tk: "take (nat n) xs = pre @ x # mid"
    using mid append_take_drop_id [of "nat m - 1" "take (nat n) xs"] by (simp add: pre_def)
  then have xs: "xs = pre @ x # mid @ post" using append_take_drop_id [of "nat n" xs] by (simp add: post_def)
  have len: "int (length pre) = m - 1" "int (length mid) = n - m"
    using arg_cong [OF tk, of length] assms(3-5) by (auto simp: pre_def)
  have "returns (reverseBetween fuel p m n h) (\<lambda>(p', h'). lst h' p' (pre @ rev mid @ x # post) \<and> same_but (addrs (pre @ x # mid)) h h')"
    using assms xs len by (intro reverseBetween_returns) auto
  moreover have "addrs (pre @ x # mid) \<subseteq> addrs xs" using xs by auto
  ultimately show ?thesis
    unfolding mid pre_def [symmetric] post_def [symmetric] by (auto elim!: returns_mono intro: same_but_mono)
qed

lemma reverseBetween_list:
  assumes "lst h p xs" "length xs < fuel" "length xs < 2 ^ 31 - 1" "h 0 = None"
  shows "if 1 \<le> m \<and> m \<le> n \<and> m \<le> int (length xs) then
       returns (reverseBetween fuel p m n h)
         (\<lambda>(p', h'). lst h' p' (take (nat m - 1) xs @ rev (drop (nat m - 1) (take (nat n) xs)) @ drop (nat n) xs) \<and>
            same_but (addrs xs) h h')
     else reverseBetween fuel p m n h = Undefined"
proof (cases "1 \<le> m \<and> m \<le> n \<and> m \<le> int (length xs)")
  case True
  show ?thesis
  proof (cases "n \<le> int (length xs)")
    case False
    then have "take (nat n) xs = take (nat (int (length xs))) xs" "drop (nat n) xs = drop (nat (int (length xs))) xs"
      by simp_all
    with True False reverseBetween_within [OF assms(1,2), of m "int (length xs)"] assms(3) show ?thesis
      by (simp add: reverseBetween_beyond [OF assms(1), of n])
  qed (use True reverseBetween_within [OF assms(1,2)] assms(3) in auto)
next
  case False
  with reverseBetween_undefined [OF assms(1,2,4) this] show ?thesis by simp
qed

section \<open>Properties\<close>

text \<open>
  Both programs that remove duplicates return, without undefined behaviour, on every list and with fuel for
  its length: the first leaves one node of every run of equal values, and on a sorted list the second leaves
  exactly the nodes whose value occurs once; the order is kept and no node outside the list is changed.
\<close>

theorem deleteDuplicates_correct:
  assumes "lst h p xs" "length xs \<le> fuel"
  shows "returns (deleteDuplicates fuel p h) (\<lambda>(p', h'). \<exists>ys. lst h' p' ys \<and> set ys \<subseteq> set xs \<and>
      map snd ys = remdups_adj (map snd xs) \<and> same_but (addrs xs) h h') \<and>
    (sorted (map snd xs) \<longrightarrow> returns (deleteDuplicates_2 fuel p h) (\<lambda>(p', h'). \<exists>ys. lst h' p' ys \<and>
      map snd ys = filter (\<lambda>v. count_list (map snd xs) v = 1) (map snd xs) \<and> same_but (insert 0 (addrs xs)) h h'))"
proof (intro conjI impI)
  have "set (dedup xs) \<subseteq> set xs" for xs by (induction xs rule: dedup.induct) auto
  then show "returns (deleteDuplicates fuel p h) (\<lambda>(p', h'). \<exists>ys. lst h' p' ys \<and> set ys \<subseteq> set xs \<and>
      map snd ys = remdups_adj (map snd xs) \<and> same_but (addrs xs) h h')"
    using deleteDuplicates_returns [OF assms] by (auto elim!: returns_mono intro!: exI [of _ "dedup xs"] simp: dedup_vals)
  assume "sorted (map snd xs)"
  then have "map snd (singles False xs) = filter (\<lambda>v. count_list (map snd xs) v = 1) (map snd xs)" by (simp add: singles_vals)
  then show "returns (deleteDuplicates_2 fuel p h) (\<lambda>(p', h'). \<exists>ys. lst h' p' ys \<and>
      map snd ys = filter (\<lambda>v. count_list (map snd xs) v = 1) (map snd xs) \<and> same_but (insert 0 (addrs xs)) h h')"
    using deleteDuplicates_2_returns [OF assms] by (auto elim!: returns_mono)
qed

definition three_nodes :: lheap where
  "three_nodes = [1 \<mapsto> \<lparr>val = 5, lnext = 2\<rparr>, 2 \<mapsto> \<lparr>val = 7, lnext = 3\<rparr>, 3 \<mapsto> \<lparr>val = 7, lnext = 0\<rparr>]"

lemma three_nodes_lst: "lst three_nodes 1 [(1, 5), (2, 7), (3, 7)]"
  by (simp add: three_nodes_def)

theorem deleteDuplicates_correct_witness:
  "returns (deleteDuplicates_2 3 1 three_nodes) (\<lambda>(p', h'). \<exists>ys. lst h' p' ys \<and> map snd ys = [5])"
  using deleteDuplicates_correct [OF three_nodes_lst, of 3] by (auto elim!: returns_mono)

text \<open>
  C35. The programs that relink by position, on every list that is shorter than \<open>2\<^sup>3\<^sup>1 - 1\<close> and with
  all \<^verbatim>\<open>int\<close> arguments. \<^verbatim>\<open>swapPairs\<close> returns the list with neighbours exchanged, the empty list included.
  \<^verbatim>\<open>removeNthFromEnd\<close> returns the list without the node at distance \<open>n\<close> from the end, reading a distance
  below 1 as 1; on the empty list, for a distance beyond the first node, or when \<open>n - 1\<close> overflows, its behaviour
  is undefined. \<^verbatim>\<open>reverseBetween\<close> returns the list with the nodes from position \<open>m\<close> to \<open>n\<close>, or to the end,
  reversed; its behaviour is undefined exactly when \<open>m\<close> is no position of the list or \<open>n < m\<close>. The
  results are made of the given nodes and no other node is changed.
\<close>

theorem relinking_correct:
  assumes "lst h p xs" "length xs < fuel" "length xs < 2 ^ 31 - 1" "h 0 = None" "int_ok n"
  shows "returns (swapPairs fuel p h) (\<lambda>(p', h'). lst h' p' (swapped xs) \<and> same_but (addrs xs) h h') \<and>
    (if xs \<noteq> [] \<and> n \<le> int (length xs) \<and> n \<noteq> - (2 ^ 31) then
       returns (removeNthFromEnd fuel p n h)
         (\<lambda>(p', h'). lst h' p' (take (length xs - nat (max 1 n)) xs @ drop (Suc (length xs - nat (max 1 n))) xs) \<and>
            same_but (addrs xs) h h')
     else removeNthFromEnd fuel p n h = Undefined) \<and>
    (if 1 \<le> m \<and> m \<le> n \<and> m \<le> int (length xs) then
       returns (reverseBetween fuel p m n h)
         (\<lambda>(p', h'). lst h' p' (take (nat m - 1) xs @ rev (drop (nat m - 1) (take (nat n) xs)) @ drop (nat n) xs) \<and>
            same_but (addrs xs) h h')
     else reverseBetween fuel p m n h = Undefined)"
  by (intro conjI swapPairs_returns [OF assms(1,2)] removeNthFromEnd_list [OF assms(1,2,4,5)] reverseBetween_list [OF assms(1-4)])

theorem relinking_correct_witness:
  "returns (swapPairs 4 1 three_nodes) (\<lambda>(p', h'). lst h' p' [(2, 7), (1, 5), (3, 7)]) \<and>
   returns (removeNthFromEnd 4 1 3 three_nodes) (\<lambda>(p', h'). lst h' p' [(2, 7), (3, 7)]) \<and>
   returns (reverseBetween 4 1 2 3 three_nodes) (\<lambda>(p', h'). lst h' p' [(1, 5), (3, 7), (2, 7)]) \<and>
   returns (swapPairs 1 0 Map.empty) (\<lambda>(p', h'). lst h' p' []) \<and>
   removeNthFromEnd 1 0 1 Map.empty = Undefined \<and> reverseBetween 1 0 1 1 Map.empty = Undefined"
proof -
  have "three_nodes 0 = None" by (simp add: three_nodes_def)
  from relinking_correct [OF three_nodes_lst _ _ this, of 4 3 2] relinking_correct [of Map.empty 0 "[]" 1 1 1]
  show ?thesis by (auto simp: int_ok_def elim!: returns_mono)
qed

text \<open>
  \<^verbatim>\<open>addTwoNumbers\<close> returns a list of digits whose number is the sum of the numbers of both lists, in new nodes
  unless one list is empty; both arguments, which may share nodes, are left as they are.
\<close>

theorem addTwoNumbers_correct:
  assumes "lst h p xs" "lst h q ys" "digits xs" "digits ys" "max (length xs) (length ys) < fuel"
    and "max (length xs) (length ys) < length news" "distinct news" "0 \<notin> set news" "set news \<inter> (addrs xs \<union> addrs ys) = {}"
  shows "returns (addTwoNumbers fuel p q news h)
    (\<lambda>(r, h'). \<exists>zs. lst h' r zs \<and> digits zs \<and> num zs = num xs + num ys \<and> lst h' p xs \<and> lst h' q ys)"
  using assms by (intro addTwoNumbers_returns) auto

theorem addTwoNumbers_correct_witness:
  "returns (addTwoNumbers 4 1 2 [4, 5, 6, 7] three_nodes)
    (\<lambda>(r, h'). \<exists>zs. lst h' r zs \<and> digits zs \<and> num zs = 775 + 77 \<and>
       lst h' 1 [(1, 5), (2, 7), (3, 7)] \<and> lst h' 2 [(2, 7), (3, 7)])"
proof -
  have "lst three_nodes 2 [(2, 7), (3, 7)]" by (simp add: three_nodes_def)
  from addTwoNumbers_correct [OF three_nodes_lst this, of 4 "[4, 5, 6, 7]"] show ?thesis by simp
qed

end
