(* ===== verification/List_Merge.thy ===== *)
theory List_Merge
  imports List_Problems "HOL-Library.Multiset"
begin

text \<open>
  \<^verbatim>\<open>merge-k-sorted-lists.cc\<close>: the lists are merged in place through a priority queue of their first nodes.
  The C++ standard says of \<^verbatim>\<open>priority_queue\<close> only that no element is greater than \<^verbatim>\<open>top\<close>; which of several equal elements it
  is depends on the library. The position of \<^verbatim>\<open>top\<close> is the parameter \<open>pick\<close>.
\<close>

section \<open>Merging sorted lists\<close>

record Elem =
  el_v :: int
  el_p :: ptr

definition elem_less :: "Elem \<Rightarrow> Elem \<Rightarrow> bool" where
  "elem_less e x \<longleftrightarrow> el_v x < el_v e"

definition elem_pop :: "(Elem list \<Rightarrow> nat) \<Rightarrow> Elem list \<Rightarrow> Elem list" where
  "elem_pop pick Q = take (pick Q) Q @ drop (Suc (pick Q)) Q"

definition merge_push :: "lheap \<Rightarrow> ptr \<Rightarrow> Elem list \<Rightarrow> Elem list exec" where
  "merge_push h x Q = (if x \<noteq> 0 then exec_bind (get_val h x) (\<lambda>v. Ret (Q @ [\<lparr>el_v = v, el_p = x\<rparr>])) else Ret Q)"

fun kmerge_loop :: "nat \<Rightarrow> (Elem list \<Rightarrow> nat) \<Rightarrow> Elem list \<Rightarrow> ptr \<Rightarrow> ptr \<Rightarrow> lheap \<Rightarrow> (ptr \<times> ptr \<times> lheap) exec" where
  "kmerge_loop 0 pick Q prev head h = Diverge"
| "kmerge_loop (Suc fuel) pick Q prev head h =
     (if Q = [] then Ret (prev, head, h)
      else let n = el_p (Q ! pick Q); Q = elem_pop pick Q in
        exec_bind (if prev = 0 then Ret (n, h) else exec_bind (set_lnext prev n h) (\<lambda>h. Ret (head, h))) (\<lambda>(head, h).
        exec_bind (get_lnext h n) (\<lambda>n'.
        exec_bind (merge_push h n' Q) (\<lambda>Q. kmerge_loop fuel pick Q n head h))))"

text \<open>One turn of the first loop; its counter is an \<^verbatim>\<open>int\<close>, which \<^verbatim>\<open>i++\<close> may not overflow.\<close>

definition merge_first :: "lheap \<Rightarrow> ptr list \<Rightarrow> int \<Rightarrow> Elem list \<Rightarrow> Elem list exec" where
  "merge_first h ls i Q =
     exec_bind (vec_at ls i) (\<lambda>x.
     exec_bind (merge_push h x Q) (\<lambda>Q.
     exec_bind (c_int (i + 1)) (\<lambda>_. Ret Q)))"

definition mergeKLists :: "nat \<Rightarrow> (Elem list \<Rightarrow> nat) \<Rightarrow> ptr list \<Rightarrow> lheap \<Rightarrow> (ptr \<times> lheap) exec" where
  "mergeKLists fuel pick ls h =
     exec_bind (exec_fold (merge_first h ls) [0..int (length ls) - 1] []) (\<lambda>Q.
     exec_bind (kmerge_loop fuel pick Q 0 0 h) (\<lambda>(prev, head, h).
     exec_bind (if prev \<noteq> 0 then set_lnext prev 0 h else Ret h) (\<lambda>h. Ret (head, h))))"

section \<open>Correctness\<close>

text \<open>Below \<open>2\<^sup>3\<^sup>1\<close> lists the first loop visits them in order.\<close>

lemma merge_first_from:
  assumes "length (pre @ ls) < 2 ^ 31"
  shows "exec_fold (merge_first h (pre @ ls)) [int (length pre)..int (length (pre @ ls)) - 1] Q =
    exec_fold (merge_push h) ls Q"
  using assms
proof (induction ls arbitrary: pre Q)
  case (Cons x ls)
  have ok: "int_ok (int (length pre) + 1)" using Cons.prems by (simp add: int_ok_def)
  have up: "[int (length pre)..int (length (pre @ x # ls)) - 1] =
      int (length pre) # [int (length pre) + 1..int (length (pre @ x # ls)) - 1]"
    by (subst upto_rec1) simp_all
  have "exec_fold (merge_first h (pre @ x # ls)) [int (length pre) + 1..int (length (pre @ x # ls)) - 1] Q =
      exec_fold (merge_push h) ls Q" for Q
    using Cons.IH [of "pre @ [x]" Q] Cons.prems by (simp add: add.commute)
  moreover have "merge_first h (pre @ x # ls) (int (length pre)) Q = merge_push h x Q"
    by (cases "merge_push h x Q") (simp_all add: merge_first_def ok nth_append)
  ultimately show ?case unfolding up by (cases "merge_push h x Q") simp_all
qed simp

lemma merge_first_all:
  "length ls < 2 ^ 31 \<Longrightarrow> exec_fold (merge_first h ls) [0..int (length ls) - 1] Q = exec_fold (merge_push h) ls Q"
  using merge_first_from [of "[]" ls h Q] by simp

definition picks_top :: "(Elem list \<Rightarrow> nat) \<Rightarrow> bool" where
  "picks_top pick \<longleftrightarrow> (\<forall>Q. Q \<noteq> [] \<longrightarrow> pick Q < length Q \<and> (\<forall>x \<in> set Q. \<not> elem_less (Q ! pick Q) x))"

text \<open>The queue holds the first node of every list that is not used up.\<close>

definition heads :: "lheap \<Rightarrow> Elem list \<Rightarrow> (ptr \<times> int) list list \<Rightarrow> bool" where
  "heads h Q rs \<longleftrightarrow> list_all2 (\<lambda>e r. r \<noteq> [] \<and> el_v e = snd (hd r) \<and> lst h (el_p e) r) Q rs"

lemma heads_cong: "heads h Q rs \<Longrightarrow> same_but A h h' \<Longrightarrow> A \<inter> addrs (concat rs) = {} \<Longrightarrow> heads h' Q rs"
proof -
  assume a: "heads h Q rs" "same_but A h h'" "A \<inter> addrs (concat rs) = {}"
  have "lst h' p r" if "r \<in> set rs" "lst h p r" for p r
    using a(3) that by (intro seg_same [OF that(2) a(2)]) auto
  then show ?thesis using a(1) by (auto simp: heads_def list_all2_conv_all_nth)
qed

lemma merge_push_heads:
  assumes "heads h Q rs" "lst h x r"
  shows "\<exists>Q'. merge_push h x Q = Ret Q' \<and> heads h Q' (rs @ (if r = [] then [] else [r]))"
proof (cases r)
  case Nil
  then show ?thesis using assms by (simp add: merge_push_def)
next
  case (Cons y ys)
  then show ?thesis using assms by (auto simp: merge_push_def heads_def list_all2_appendI)
qed

lemma concat_pick: "i < length rs \<Longrightarrow> mset (concat rs) = mset (rs ! i) + mset (concat (take i rs @ drop (Suc i) rs))"
  by (subst id_take_nth_drop [of i rs]) simp_all

lemma heads_pop:
  assumes "heads h Q rs" "i < length Q"
  shows "heads h (take i Q @ drop (Suc i) Q) (take i rs @ drop (Suc i) rs)"
  using assms unfolding heads_def by (intro list_all2_appendI list_all2_takeI list_all2_dropI)

definition kmerge_rest :: "nat \<Rightarrow> (Elem list \<Rightarrow> nat) \<Rightarrow> Elem list \<Rightarrow> ptr \<Rightarrow> ptr \<Rightarrow> lheap \<Rightarrow> (ptr \<times> lheap) exec" where
  "kmerge_rest fuel pick Q prev head h = exec_bind (kmerge_loop fuel pick Q prev head h) (\<lambda>(prev, head, h).
     exec_bind (if prev \<noteq> 0 then set_lnext prev 0 h else Ret h) (\<lambda>h. Ret (head, h)))"

text \<open>The result: all nodes of the lists, sorted if the lists are.\<close>

definition merged :: "(ptr \<times> int) list list \<Rightarrow> (ptr \<times> int) list \<Rightarrow> bool" where
  "merged rs ys \<longleftrightarrow> mset ys = mset (concat rs) \<and> ((\<forall>r \<in> set rs. sorted (map snd r)) \<longrightarrow> sorted (map snd ys))"

lemma merged_Cons:
  assumes "merged (rs1 @ (if r = [] then [] else [r])) ys" "mset (concat rs) = mset (x # r) + mset (concat rs1)"
    and "set rs1 \<subseteq> set rs" "x # r \<in> set rs" "\<And>y s. y # s \<in> set rs \<Longrightarrow> snd x \<le> snd y" "[] \<notin> set rs"
  shows "merged rs (x # ys)"
proof -
  have m: "mset ys = mset r + mset (concat rs1)" using assms(1) by (auto simp: merged_def split: if_splits)
  have "sorted (map snd (x # ys))" if s: "\<forall>r \<in> set rs. sorted (map snd r)"
  proof -
    have sr: "sorted (map snd (x # r))" using s assms(4) by blast
    have "sorted (map snd ys)" using assms(1,3) s sr by (auto simp: merged_def split: if_splits)
    moreover have "snd x \<le> snd z" if "z \<in> set ys" for z
    proof -
      have "z \<in> set r \<or> (\<exists>q \<in> set rs1. z \<in> set q)" using that m by (metis set_mset_mset set_mset_union Un_iff set_concat UN_iff)
      then show ?thesis
      proof (elim disjE bexE)
        fix q assume q: "q \<in> set rs1" "z \<in> set q"
        then obtain y t where y: "q = y # t" by (meson list.set_cases)
        then have "y # t \<in> set rs" using q assms(3) by blast
        then have "snd x \<le> snd y" "sorted (map snd (y # t))" using assms(5) s by blast+
        then show ?thesis using q y by auto
      qed (use sr in auto)
    qed
    ultimately show ?thesis by auto
  qed
  then show ?thesis using m assms(2) by (simp add: merged_def)
qed

text \<open>What one turn of the loop takes from the queue.\<close>

lemma heads_pick:
  assumes "picks_top pick" "heads h Q rs" "Q \<noteq> []"
  obtains x r q rs1 where "el_p (Q ! pick Q) = fst x" "fst x \<noteq> 0" "h (fst x) = Some \<lparr>val = snd x, lnext = q\<rparr>" "lst h q r"
    "heads h (elem_pop pick Q) rs1" "mset (concat rs) = mset (x # r @ concat rs1)"
    "\<And>ys. merged (rs1 @ (if r = [] then [] else [r])) ys \<Longrightarrow> merged rs (x # ys)"
proof -
  define i where "i = pick Q"
  have lq: "length Q = length rs" using assms(2) by (auto simp: heads_def list_all2_lengthD)
  have i: "i < length Q" "\<And>e. e \<in> set Q \<Longrightarrow> el_v (Q ! i) \<le> el_v e"
    using assms(1,3) by (auto simp: picks_top_def elem_less_def i_def not_less)
  have hi: "rs ! j \<noteq> [] \<and> el_v (Q ! j) = snd (hd (rs ! j)) \<and> lst h (el_p (Q ! j)) (rs ! j)" if "j < length rs" for j
    using assms(2) that lq by (auto simp: heads_def list_all2_conv_all_nth)
  obtain x r where x: "rs ! i = x # r" using hi [of i] i lq by (cases "rs ! i") auto
  obtain q where q: "el_p (Q ! i) = fst x" "fst x \<noteq> 0" "h (fst x) = Some \<lparr>val = snd x, lnext = q\<rparr>" "lst h q r"
    using hi [of i] i lq x by auto
  let ?rs = "take i rs @ drop (Suc i) rs"
  have mc: "mset (concat rs) = mset (x # r) + mset (concat ?rs)" using concat_pick [of i rs] i lq x by simp
  have "merged rs (x # ys)" if "merged (?rs @ (if r = [] then [] else [r])) ys" for ys
  proof (rule merged_Cons [OF that mc])
    show "set ?rs \<subseteq> set rs" by (auto dest: in_set_takeD in_set_dropD)
    show "x # r \<in> set rs" using x i lq nth_mem [of i rs] by simp
    show "[] \<notin> set rs" using hi by (auto simp: in_set_conv_nth)
    fix y s assume "y # s \<in> set rs"
    then obtain j where j: "j < length rs" "rs ! j = y # s" by (auto simp: in_set_conv_nth)
    then show "snd x \<le> snd y" using i(2) [of "Q ! j"] hi [of j] hi [of i] i(1) lq x by auto
  qed
  then show ?thesis using that [of x q r ?rs] q mc heads_pop [OF assms(2) i(1)] unfolding i_def elem_pop_def by simp
qed

lemma kmerge_rest_returns:
  assumes "picks_top pick" "heads h Q rs" "distinct (map fst (concat rs))" "length (concat rs) < fuel"
    and "prev \<noteq> 0 \<Longrightarrow> prev \<notin> addrs (concat rs) \<and> h prev = Some \<lparr>val = v, lnext = n\<rparr>" "prev = 0 \<Longrightarrow> head = 0"
  shows "returns (kmerge_rest fuel pick Q prev head h)
    (\<lambda>(r, h'). \<exists>ys. result_list head prev v r h' ys \<and> merged rs ys \<and> same_but (insert prev (addrs (concat rs))) h h')"
  using assms(2-)
proof (induction fuel arbitrary: Q rs prev head h v n)
  case (Suc fuel)
  show ?case
  proof (cases "Q = []")
    case True
    then show ?thesis using Suc.prems
      by (cases "prev = 0") (auto simp: kmerge_rest_def result_list_def merged_def same_but_def heads_def intro!: exI [of _ "[]"])
  next
    case False
    obtain x r q rs1 where x: "el_p (Q ! pick Q) = fst x" "fst x \<noteq> 0" "h (fst x) = Some \<lparr>val = snd x, lnext = q\<rparr>" "lst h q r"
      "heads h (elem_pop pick Q) rs1" and mc: "mset (concat rs) = mset (x # r @ concat rs1)"
      and step: "\<And>ys. merged (rs1 @ (if r = [] then [] else [r])) ys \<Longrightarrow> merged rs (x # ys)"
      using heads_pick [OF assms(1) Suc.prems(1) False] by metis
    let ?p = "fst x" and ?rs = "rs1 @ (if r = [] then [] else [r])"
    let ?h = "if prev = 0 then h else h(prev \<mapsto> \<lparr>val = v, lnext = ?p\<rparr>)" and ?head = "if prev = 0 then ?p else head"
    have dm: "distinct (map fst (x # r @ concat rs1))"
      using Suc.prems(2) mset_eq_imp_distinct_iff [of "map fst (concat rs)" "map fst (x # r @ concat rs1)"] mc by simp
    have st: "set (concat rs) = set (x # r @ concat rs1)" using mset_eq_setD [OF mc] .
    have pv: "prev \<noteq> 0 \<Longrightarrow> prev \<noteq> ?p \<and> prev \<notin> addrs r \<and> prev \<notin> addrs (concat rs1) \<and> h prev = Some \<lparr>val = v, lnext = n\<rparr>"
      using Suc.prems(4) st by auto
    have sh: "same_but (if prev = 0 then {} else {prev}) h ?h" by (auto simp: same_but_def)
    have hp: "?h ?p = Some \<lparr>val = snd x, lnext = q\<rparr>" using x(3) pv by auto
    have "heads ?h (elem_pop pick Q) rs1" using pv by (intro heads_cong [OF x(5) sh]) auto
    moreover have "lst ?h q r" using pv by (intro seg_same [OF x(4) sh]) auto
    ultimately obtain Q' where Q': "merge_push ?h q (elem_pop pick Q) = Ret Q'" "heads ?h Q' ?rs" using merge_push_heads by meson
    have cr: "concat ?rs = concat rs1 @ r" by simp
    have c: "distinct (map fst (concat ?rs))" "length (concat ?rs) < fuel"
      "?p \<notin> addrs (concat ?rs) \<and> ?h ?p = Some \<lparr>val = snd x, lnext = q\<rparr>"
      unfolding cr using dm hp arg_cong [OF mc, of size] Suc.prems(3) by (simp_all add: Int_commute image_Un del: mset_append)
    have ih: "returns (kmerge_rest fuel pick Q' ?p ?head ?h)
       (\<lambda>(r, h'). \<exists>ys. result_list ?head ?p (snd x) r h' ys \<and> merged ?rs ys \<and> same_but (insert ?p (addrs (concat ?rs))) ?h h')"
      by (rule Suc.IH [OF Q'(2) c]) (use x(2) in blast)
    have eq: "kmerge_rest (Suc fuel) pick Q prev head h = kmerge_rest fuel pick Q' ?p ?head ?h"
      using False x(1) hp Q'(1) pv unfolding kmerge_rest_def kmerge_loop.simps Let_def
      by (cases "prev = 0") (simp_all del: kmerge_loop.simps)
    have "result_list head prev v a h' (x # ys) \<and> merged rs (x # ys) \<and> same_but (insert prev (addrs (concat rs))) h h'"
      if ys: "result_list ?head ?p (snd x) a h' ys" "merged ?rs ys" "same_but (insert ?p (addrs (concat ?rs))) ?h h'" for a h' ys
    proof (intro conjI step ys(2))
      have "prev \<noteq> 0 \<Longrightarrow> h' prev = Some \<lparr>val = v, lnext = ?p\<rparr>" using ys(3) pv unfolding cr same_but_def set_append image_Un by auto
      then show "result_list head prev v a h' (x # ys)" using ys(1) x(2) by (cases "prev = 0") (auto simp: result_list_def)
      show "same_but (insert prev (addrs (concat rs))) h h'"
        using same_but_trans [OF sh ys(3)] st unfolding cr by (elim same_but_mono) auto
    qed
    with ih show ?thesis unfolding eq by (elim returns_mono) (clarify, blast)
  qed
qed simp

section \<open>Properties\<close>

text \<open>
  C36. For fewer than \<open>2\<^sup>3\<^sup>1\<close> lists, the range of its \<^verbatim>\<open>int\<close> counter, \<^verbatim>\<open>mergeKLists\<close> returns, whatever equal element the priority queue prefers: the result is made of exactly the
  nodes of the given lists, and it is sorted if they are.
\<close>

theorem mergeKLists_correct:
  assumes "picks_top pick" "list_all2 (lst h) ps rs" "distinct (map fst (concat rs))" "length (concat rs) < fuel" "length ps < 2 ^ 31"
  shows "returns (mergeKLists fuel pick ps h)
    (\<lambda>(p, h'). \<exists>ys. lst h' p ys \<and> merged rs ys \<and> same_but (insert 0 (addrs (concat rs))) h h')"
proof -
  have "\<exists>Q. exec_fold (\<lambda>x Q. merge_push h x Q) ps Q0 = Ret Q \<and> heads h Q (rs0 @ filter (\<lambda>r. r \<noteq> []) rs)" if "heads h Q0 rs0" for Q0 rs0
    using assms(2) that
  proof (induction ps rs arbitrary: Q0 rs0 rule: list_all2_induct)
    case (Cons p ps r rs)
    obtain Q' where Q': "merge_push h p Q0 = Ret Q'" "heads h Q' (rs0 @ (if r = [] then [] else [r]))"
      using merge_push_heads [OF Cons.prems Cons.hyps(1)] by blast
    show ?case using Cons.IH [OF Q'(2)] Q'(1) by (auto split: if_splits)
  qed simp
  from this [of "[]" "[]"] obtain Q where Q: "exec_fold (\<lambda>x Q. merge_push h x Q) ps [] = Ret Q" "heads h Q (filter (\<lambda>r. r \<noteq> []) rs)"
    by (auto simp: heads_def)
  have cf: "concat (filter (\<lambda>r. r \<noteq> []) rs) = concat rs" by (induction rs) auto
  have mf: "merged (filter (\<lambda>r. r \<noteq> []) rs) ys \<Longrightarrow> merged rs ys" for ys unfolding merged_def cf by auto
  have "returns (kmerge_rest fuel pick Q 0 0 h) (\<lambda>(r, h'). \<exists>ys. result_list 0 0 0 r h' ys \<and> merged (filter (\<lambda>r. r \<noteq> []) rs) ys
      \<and> same_but (insert 0 (addrs (concat (filter (\<lambda>r. r \<noteq> []) rs)))) h h')"
    by (rule kmerge_rest_returns [OF assms(1) Q(2)]) (use assms(3,4) in \<open>simp_all only: cf\<close>)
  then show ?thesis using Q(1) mf unfolding mergeKLists_def kmerge_rest_def cf merge_first_all [OF assms(5)] by (auto simp: result_list_def elim!: returns_mono)
qed

text \<open>A queue that prefers the first of its least elements.\<close>

fun first_least :: "Elem list \<Rightarrow> nat" where
  "first_least (x # y # zs) = (let k = first_least (y # zs) in if el_v x \<le> el_v ((y # zs) ! k) then 0 else Suc k)"
| "first_least Q = 0"

lemma first_least_top: "picks_top first_least"
proof -
  have "first_least Q < length Q \<and> (\<forall>x \<in> set Q. el_v (Q ! first_least Q) \<le> el_v x)" if "Q \<noteq> []" for Q
    using that by (induction Q rule: first_least.induct) (auto simp: Let_def not_le intro: order_trans less_imp_le)
  then show ?thesis by (simp add: picks_top_def elem_less_def not_less)
qed

definition two_lists :: lheap where
  "two_lists = [1 \<mapsto> \<lparr>val = 5, lnext = 2\<rparr>, 2 \<mapsto> \<lparr>val = 7, lnext = 0\<rparr>, 3 \<mapsto> \<lparr>val = 6, lnext = 0\<rparr>]"

theorem mergeKLists_correct_witness:
  "returns (mergeKLists 4 first_least [1, 0, 3] two_lists)
    (\<lambda>(p, h'). \<exists>ys. lst h' p ys \<and> mset ys = {#(1, 5), (2, 7), (3, 6)#} \<and> sorted (map snd ys))"
proof -
  have "list_all2 (lst two_lists) [1, 0, 3] [[(1, 5), (2, 7)], [], [(3, 6)]]" by (simp add: two_lists_def)
  from mergeKLists_correct [OF first_least_top this, of 4] show ?thesis by (auto simp: merged_def elim!: returns_mono)
qed

end
