(* ===== verification/Graph_Copy.thy ===== *)
theory Graph_Copy
  imports Sperm_Prelude
begin

text \<open>
  \<^verbatim>\<open>copy-list-with-random-pointer.cc\<close> and \<^verbatim>\<open>clone-graph.cc\<close>: deep copies of cyclic structures by a recursion that
  remembers the copy of every node it has met. Nodes live on an explicit heap, \<open>news\<close> are the addresses that \<^verbatim>\<open>new\<close>
  will return. The depth of the recursion is bounded by fuel; one call per node and one more is enough.
\<close>

type_synonym ptr = nat

section \<open>Lists with random pointers\<close>

record RandomListNode =
  r_label :: int
  r_next :: ptr
  r_random :: ptr

type_synonym rheap = "ptr \<rightharpoonup> RandomListNode"

definition node_of :: "('a \<rightharpoonup> 'b) \<Rightarrow> 'a \<Rightarrow> 'b exec" where
  "node_of h p = (case h p of None \<Rightarrow> Undefined | Some n \<Rightarrow> Ret n)"

fun new_RandomListNode :: "int \<Rightarrow> ptr list \<times> rheap \<Rightarrow> (ptr \<times> ptr list \<times> rheap) exec" where
  "new_RandomListNode x ([], h) = Fatal"
| "new_RandomListNode x (a # news, h) = Ret (a, news, h(a \<mapsto> \<lparr>r_label = x, r_next = 0, r_random = 0\<rparr>))"

text \<open>The state: the member \<^verbatim>\<open>cache\<close>, in which an absent node maps to null, the supply of addresses and the heap.\<close>

type_synonym cstate = "(ptr \<Rightarrow> ptr) \<times> ptr list \<times> rheap"

fun copyRandomList :: "nat \<Rightarrow> ptr \<Rightarrow> cstate \<Rightarrow> (ptr \<times> cstate) exec" where
  "copyRandomList 0 head st = Diverge"
| "copyRandomList (Suc fuel) head (cache, news, h) =
     (if head = 0 then Ret (0, cache, news, h)
      else if cache head \<noteq> 0 then Ret (cache head, cache, news, h)
      else exec_bind (node_of h head) (\<lambda>n.
        exec_bind (new_RandomListNode (r_label n) (news, h)) (\<lambda>(x, news, h).
        exec_bind (node_of h head) (\<lambda>n.
        exec_bind (copyRandomList fuel (r_next n) (cache(head := x), news, h)) (\<lambda>(t, cache, news, h).
        exec_bind (node_of h x) (\<lambda>c.
        let h = h(x \<mapsto> c\<lparr>r_next := t\<rparr>) in
        exec_bind (node_of h head) (\<lambda>n.
        exec_bind (copyRandomList fuel (r_random n) (cache, news, h)) (\<lambda>(t, cache, news, h).
        exec_bind (node_of h x) (\<lambda>c.
        Ret (x, cache, news, h(x \<mapsto> c\<lparr>r_random := t\<rparr>)))))))))))"

section \<open>Graphs\<close>

record UndirectedGraphNode =
  g_label :: int
  neighbors :: "ptr list"

type_synonym gheap = "ptr \<rightharpoonup> UndirectedGraphNode"

fun new_UndirectedGraphNode :: "int \<Rightarrow> ptr list \<times> gheap \<Rightarrow> (ptr \<times> ptr list \<times> gheap) exec" where
  "new_UndirectedGraphNode x ([], h) = Fatal"
| "new_UndirectedGraphNode x (a # news, h) = Ret (a, news, h(a \<mapsto> \<lparr>g_label = x, neighbors = []\<rparr>))"

text \<open>
  The cache is a map from labels. The loop visits the positions of the vector of neighbours, which no
  iteration changes; each is read from the heap when its turn comes. The counter is an \<^verbatim>\<open>int\<close>, which
  \<^verbatim>\<open>i++\<close> at the end of a turn may not overflow.
\<close>

type_synonym gstate = "(int \<Rightarrow> ptr) \<times> ptr list \<times> gheap"

definition clone_neighbor :: "(ptr \<Rightarrow> gstate \<Rightarrow> (ptr \<times> gstate) exec) \<Rightarrow> ptr \<Rightarrow> ptr \<Rightarrow> int \<Rightarrow> gstate \<Rightarrow> gstate exec" where
  "clone_neighbor clone node copy i = (\<lambda>(cache, news, h).
     exec_bind (node_of h node) (\<lambda>n.
     exec_bind (vec_at (neighbors n) i) (\<lambda>m.
     exec_bind (clone m (cache, news, h)) (\<lambda>(v, cache, news, h).
     exec_bind (node_of h copy) (\<lambda>c.
     exec_bind (c_int (i + 1)) (\<lambda>_.
     Ret (cache, news, h(copy \<mapsto> c\<lparr>neighbors := neighbors c @ [v]\<rparr>))))))))"

primrec cloneGraphWithCache :: "nat \<Rightarrow> ptr \<Rightarrow> gstate \<Rightarrow> (ptr \<times> gstate) exec" where
  "cloneGraphWithCache 0 node st = Diverge"
| "cloneGraphWithCache (Suc fuel) node st = (case st of (cache, news, h) \<Rightarrow>
     exec_bind (node_of h node) (\<lambda>n.
     let value = cache (g_label n) in
     if value \<noteq> 0 then Ret (value, cache, news, h)
     else exec_bind (new_UndirectedGraphNode (g_label n) (news, h)) (\<lambda>(copy, news, h).
       exec_bind (exec_fold (clone_neighbor (cloneGraphWithCache fuel) node copy)
         [0..int (length (neighbors n)) - 1] (cache(g_label n := copy), news, h)) (\<lambda>st.
       Ret (copy, st)))))"

definition cloneGraph :: "nat \<Rightarrow> ptr \<Rightarrow> ptr list \<times> gheap \<Rightarrow> (ptr \<times> gheap) exec" where
  "cloneGraph fuel node = (\<lambda>(news, h).
     if node = 0 then Ret (0, h)
     else exec_bind (cloneGraphWithCache fuel node (\<lambda>_. 0, news, h)) (\<lambda>(r, cache, news, h). Ret (r, h)))"

section \<open>Copying\<close>

text \<open>
  What both programs share: \<open>c\<close> maps a node to its copy, or to null. \<open>G\<close> is the set of nodes of the original heap \<open>g\<close>.
\<close>

definition cached :: "(ptr \<Rightarrow> ptr) \<Rightarrow> ptr set" where
  "cached c = {x. c x \<noteq> 0}"

definition orig :: "(ptr \<rightharpoonup> 'n) \<Rightarrow> ptr \<Rightarrow> 'n" where
  "orig g x = the (g x)"

definition copy_inv :: "ptr set \<Rightarrow> (ptr \<rightharpoonup> 'n) \<Rightarrow> (ptr \<Rightarrow> ptr) \<Rightarrow> ptr list \<Rightarrow> (ptr \<rightharpoonup> 'n) \<Rightarrow> bool" where
  "copy_inv G g c news h \<longleftrightarrow> finite G \<and> 0 \<notin> G \<and> (\<forall>x \<in> G. h x = g x) \<and> cached c \<subseteq> G \<and> inj_on c (cached c) \<and>
     c ` cached c \<inter> (G \<union> set news) = {} \<and> distinct news \<and> set news \<inter> insert 0 G = {} \<and> card (G - cached c) \<le> length news"

lemma cached_upd: "x \<noteq> 0 \<Longrightarrow> cached (c(p := x)) = insert p (cached c)"
  by (auto simp: cached_def)

lemma copy_inv_null: "copy_inv G g c news h \<Longrightarrow> c 0 = 0"
  by (auto simp: copy_inv_def cached_def)

lemma copy_inv_orig: "copy_inv G g c news h \<Longrightarrow> x \<in> G \<Longrightarrow> h x = g x"
  by (simp add: copy_inv_def)

lemma copy_inv_inj: "copy_inv G g c news h \<Longrightarrow> c p = a \<Longrightarrow> a \<noteq> 0 \<Longrightarrow> x \<in> cached c \<Longrightarrow> x \<noteq> p \<Longrightarrow> c x \<noteq> a"
  unfolding copy_inv_def by (metis (mono_tags) cached_def inj_onD mem_Collect_eq)

text \<open>Writing a copy disturbs no node of the original.\<close>

lemma copy_inv_write: "copy_inv G g c news h \<Longrightarrow> a \<notin> G \<Longrightarrow> copy_inv G g c news (h(a \<mapsto> n))"
  by (auto simp: copy_inv_def)

lemma copy_inv_new:
  assumes inv: "copy_inv G g c news h" and "p \<in> G" "c p = 0"
  obtains a ns where "news = a # ns" "a \<noteq> 0" "a \<notin> G" "p \<notin> cached c" "\<forall>x \<in> cached c. c x \<noteq> a"
    "card (G - cached (c(p := a))) < card (G - cached c)" "copy_inv G g (c(p := a)) ns (h(a \<mapsto> n))"
proof -
  have fin: "finite G" using inv by (simp add: copy_inv_def)
  have p: "p \<in> G - cached c" using assms(2,3) by (simp add: cached_def)
  then have card: "card (G - cached c) = Suc (card (G - insert p (cached c)))"
    using fin by (metis Diff_insert card_Suc_Diff1 finite_Diff)
  with inv obtain a ns where news: "news = a # ns" by (cases news) (auto simp: copy_inv_def)
  have a: "a \<noteq> 0" "a \<notin> G" "\<forall>x \<in> cached c. c x \<noteq> a" using inv news by (auto simp: copy_inv_def)
  have "copy_inv G g (c(p := a)) ns (h(a \<mapsto> n))"
    using inv a p card unfolding copy_inv_def news cached_upd [OF a(1)] by (auto simp: inj_on_def)
  then show ?thesis using that news a p card cached_upd [OF a(1)] by simp
qed

text \<open>
  \<open>extends cp A\<close>: copies made before are kept, except for the contents of those at \<open>A\<close>, and the copies made since are
  complete in the sense of \<open>cp\<close>.
\<close>

definition extends ::
    "((ptr \<Rightarrow> ptr) \<Rightarrow> (ptr \<rightharpoonup> 'n) \<Rightarrow> ptr \<Rightarrow> bool) \<Rightarrow> ptr set \<Rightarrow> (ptr \<Rightarrow> ptr) \<Rightarrow> (ptr \<rightharpoonup> 'n) \<Rightarrow> (ptr \<Rightarrow> ptr) \<Rightarrow> (ptr \<rightharpoonup> 'n) \<Rightarrow> bool" where
  "extends cp A c h c' h' \<longleftrightarrow> (\<forall>x \<in> cached c. c' x = c x \<and> (c x \<notin> A \<longrightarrow> h' (c x) = h (c x))) \<and>
     (\<forall>x \<in> cached c' - cached c. cp c' h' x)"

lemma extends_refl: "extends cp A c h c h"
  by (simp add: extends_def)

lemma extends_mono: "extends cp A c h c' h' \<Longrightarrow> A \<subseteq> B \<Longrightarrow> extends cp B c h c' h'"
  by (auto simp: extends_def)

lemma extends_cached: "extends cp A c h c' h' \<Longrightarrow> cached c \<subseteq> cached c'"
  by (auto simp: extends_def cached_def)

lemma extends_same: "extends cp A c h c' h' \<Longrightarrow> x \<in> cached c \<Longrightarrow> c' x = c x"
  by (simp add: extends_def)

lemma extends_kept: "extends cp A c h c' h' \<Longrightarrow> c x = a \<Longrightarrow> a \<noteq> 0 \<Longrightarrow> a \<notin> A \<Longrightarrow> h' a = h a"
  by (auto simp: extends_def cached_def)

text \<open>
  The contract of a notion of completeness: it depends on the copy itself and on the copies of the nodes it
  points to, which are made already.
\<close>

locale completeness =
  fixes cp :: "(ptr \<Rightarrow> ptr) \<Rightarrow> (ptr \<rightharpoonup> 'n) \<Rightarrow> ptr \<Rightarrow> bool"
  assumes stable: "cp c h x \<Longrightarrow> x \<in> cached c \<Longrightarrow> (\<And>y. y \<in> insert 0 (cached c) \<Longrightarrow> c' y = c y) \<Longrightarrow> h' (c x) = h (c x) \<Longrightarrow> cp c' h' x"
begin

lemma extends_trans:
  assumes "extends cp A c h c1 h1" "extends cp A c1 h1 c2 h2" "c1 0 = 0" "c2 0 = 0" "\<And>x. x \<in> cached c1 - cached c \<Longrightarrow> c1 x \<notin> A"
  shows "extends cp A c h c2 h2"
proof -
  have s: "c2 y = c1 y" if "y \<in> insert 0 (cached c1)" for y using assms(2-4) that by (auto simp: extends_def)
  have "cp c2 h2 x" if x: "x \<in> cached c2 - cached c" for x
  proof (cases "x \<in> cached c1")
    case True
    then have "cp c1 h1 x" "h2 (c1 x) = h1 (c1 x)" using assms(1,2,5) x by (auto simp: extends_def)
    then show ?thesis using stable [OF _ True s] by blast
  qed (use assms(2) x in \<open>auto simp: extends_def\<close>)
  moreover have "c2 x = c x \<and> (c x \<notin> A \<longrightarrow> h2 (c x) = h (c x))" if "x \<in> cached c" for x
  proof -
    have x: "x \<in> cached c1" "c1 x = c x" using that extends_cached [OF assms(1)] extends_same [OF assms(1)] by auto
    then have "c2 x = c x \<and> (c x \<notin> A \<longrightarrow> h2 (c x) = h1 (c x))" using assms(2) by (metis extends_def)
    then show ?thesis using assms(1) that by (simp add: extends_def)
  qed
  ultimately show ?thesis by (simp add: extends_def)
qed

text \<open>The copy of \<open>p\<close> at \<open>a\<close>: made, filled in while its successors are copied, and complete at the end.\<close>

lemma extends_fill:
  assumes "extends cp {a} c h c1 h1" "extends cp {} c1 h1 c2 h2" "copy_inv G g c1 n1 h1" "copy_inv G g c2 n2 h2" "c p = a" "a \<noteq> 0"
  shows "extends cp {a} c h c2 (h2(a \<mapsto> n))"
proof -
  have p: "p \<in> cached c" "c1 p = a" using assms(1,5,6) by (auto simp: cached_def extends_def)
  have "extends cp {a} c h c2 h2"
    using copy_inv_null [OF assms(3)] copy_inv_null [OF assms(4)] copy_inv_inj [OF assms(3) p(2) assms(6)] p(1)
    by (intro extends_trans [OF assms(1) extends_mono [OF assms(2)]]) auto
  moreover have "c2 p = a" using assms(2,6) p by (auto simp: extends_def cached_def)
  moreover have "cp c2 (h2(a \<mapsto> n)) x" if "cp c2 h2 x" "x \<in> cached c2" "x \<noteq> p" for x
    using copy_inv_inj [OF assms(4) \<open>c2 p = a\<close> assms(6) that(2,3)] by (intro stable [OF that(1,2)]) auto
  ultimately show ?thesis using p(1) by (auto simp: extends_def)
qed

lemma extends_close:
  assumes "extends cp {a} (c(p := a)) (h(a \<mapsto> n0)) c2 h2" "p \<notin> cached c" "\<forall>x \<in> cached c. c x \<noteq> a" "a \<noteq> 0" "cp c2 h2 p"
  shows "extends cp {} c h c2 h2"
proof -
  have "c2 x = c x \<and> h2 (c x) = h (c x)" if "x \<in> cached c" for x
  proof -
    have "x \<noteq> p" "c x \<noteq> a" using that assms(2,3) by auto
    then show ?thesis using assms(1) that cached_upd [OF assms(4), of c p] by (auto simp: extends_def)
  qed
  moreover have "cp c2 h2 x" if "x \<in> cached c2 - cached c" for x
    using assms(1,5) that cached_upd [OF assms(4), of c p] by (cases "x = p") (auto simp: extends_def)
  ultimately show ?thesis by (simp add: extends_def)
qed

end

lemma card_cached: "finite G \<Longrightarrow> extends cp A c h c' h' \<Longrightarrow> card (G - cached c') \<le> card (G - cached c)"
  using extends_cached [of cp A c h c' h'] by (intro card_mono) auto

section \<open>Lists with random pointers: correctness\<close>

definition closed :: "ptr set \<Rightarrow> rheap \<Rightarrow> bool" where
  "closed G g \<longleftrightarrow> finite G \<and> 0 \<notin> G \<and> (\<forall>x \<in> G. \<exists>n. g x = Some n \<and> r_next n \<in> insert 0 G \<and> r_random n \<in> insert 0 G)"

definition complete :: "rheap \<Rightarrow> (ptr \<Rightarrow> ptr) \<Rightarrow> rheap \<Rightarrow> ptr \<Rightarrow> bool" where
  "complete g c h x \<longleftrightarrow>
     h (c x) = Some \<lparr>r_label = r_label (orig g x), r_next = c (r_next (orig g x)), r_random = c (r_random (orig g x))\<rparr> \<and>
     {r_next (orig g x), r_random (orig g x)} \<subseteq> insert 0 (cached c)"

interpretation rlist: completeness "complete g" for g
proof
  fix c c' :: "ptr \<Rightarrow> ptr" and h h' :: rheap and x
  assume a: "complete g c h x" "x \<in> cached c" "\<And>y. y \<in> insert 0 (cached c) \<Longrightarrow> c' y = c y" "h' (c x) = h (c x)"
  have "cached c \<subseteq> cached c'" using a(3) by (auto simp: cached_def)
  moreover have "c' x = c x" "c' (r_next (orig g x)) = c (r_next (orig g x))" "c' (r_random (orig g x)) = c (r_random (orig g x))"
    using a(1-3) by (auto simp: complete_def)
  ultimately show "complete g c' h' x" using a(1,4) by (auto simp: complete_def)
qed

lemma copyRandomList_returns:
  assumes "closed G g" "copy_inv G g c news h" "p \<in> insert 0 G" "card (G - cached c) < fuel"
  shows "\<exists>c' news' h'. copyRandomList fuel p (c, news, h) = Ret (c' p, c', news', h') \<and> p \<in> insert 0 (cached c') \<and>
    copy_inv G g c' news' h' \<and> extends (complete g) {} c h c' h'"
  using assms(2-)
proof (induction fuel arbitrary: p c news h)
  case (Suc fuel)
  have G: "finite G" using assms(1) by (simp add: closed_def)
  consider "p = 0" | "c p \<noteq> 0" "p \<noteq> 0" | "c p = 0" "p \<noteq> 0" "p \<in> G" using Suc.prems(2) by auto
  then show ?case
  proof cases
    case 3
    obtain n where n: "g p = Some n" "r_next n \<in> insert 0 G" "r_random n \<in> insert 0 G" "orig g p = n"
      using assms(1) 3(3) by (auto simp: closed_def orig_def)
    let ?n0 = "\<lparr>r_label = r_label n, r_next = 0, r_random = 0\<rparr>"
    obtain a ns where a: "news = a # ns" "a \<noteq> 0" "a \<notin> G" "p \<notin> cached c" "\<forall>x \<in> cached c. c x \<noteq> a"
      and f1: "card (G - cached (c(p := a))) < card (G - cached c)" and i0: "copy_inv G g (c(p := a)) ns (h(a \<mapsto> ?n0))"
      using copy_inv_new [OF Suc.prems(1) 3(3,1)] by metis
    have f0: "card (G - cached (c(p := a))) < fuel" using f1 Suc.prems(3) by linarith
    obtain c1 n1 h1 where r1: "copyRandomList fuel (r_next n) (c(p := a), ns, h(a \<mapsto> ?n0)) = Ret (c1 (r_next n), c1, n1, h1)"
      "r_next n \<in> insert 0 (cached c1)" "copy_inv G g c1 n1 h1" "extends (complete g) {} (c(p := a)) (h(a \<mapsto> ?n0)) c1 h1"
      using Suc.IH [OF i0 n(2) f0] by blast
    let ?n1 = "?n0\<lparr>r_next := c1 (r_next n)\<rparr>"
    have e1: "extends (complete g) {a} (c(p := a)) (h(a \<mapsto> ?n0)) c1 (h1(a \<mapsto> ?n1))"
      by (rule rlist.extends_fill [OF extends_refl r1(4) i0 r1(3), where p = p]) (use a(2) in simp_all)
    have c1p: "c1 p = a" "h1 a = Some ?n0" using r1(4) extends_same [OF r1(4), of p] extends_kept [OF r1(4), of p a] a(2)
      by (auto simp: cached_def)
    have "card (G - cached c1) < fuel" using card_cached [OF G r1(4)] f1 Suc.prems(3) by linarith
    then obtain c2 n2 h2 where r2: "copyRandomList fuel (r_random n) (c1, n1, h1(a \<mapsto> ?n1)) = Ret (c2 (r_random n), c2, n2, h2)"
      "r_random n \<in> insert 0 (cached c2)" "copy_inv G g c2 n2 h2" "extends (complete g) {} c1 (h1(a \<mapsto> ?n1)) c2 h2"
      using Suc.IH [OF copy_inv_write [OF r1(3) a(3)] n(3)] by metis
    let ?n2 = "?n1\<lparr>r_random := c2 (r_random n)\<rparr>"
    have e2: "extends (complete g) {a} (c(p := a)) (h(a \<mapsto> ?n0)) c2 (h2(a \<mapsto> ?n2))"
      by (rule rlist.extends_fill [OF e1 r2(4) copy_inv_write [OF r1(3) a(3)] r2(3), where p = p]) (use a(2) in simp_all)
    have c2p: "c2 p = a" "h2 a = Some ?n1" using extends_same [OF r2(4), of p] extends_kept [OF r2(4), of p a] a(2) c1p
      by (auto simp: cached_def)
    have "c2 (r_next n) = c1 (r_next n)" using r1(2) extends_same [OF r2(4)] copy_inv_null [OF r1(3)] copy_inv_null [OF r2(3)] by auto
    then have "complete g c2 (h2(a \<mapsto> ?n2)) p"
      using c2p n(4) r1(2) r2(2) extends_cached [OF r2(4)] by (auto simp: complete_def)
    then have "extends (complete g) {} c h c2 (h2(a \<mapsto> ?n2))" by (rule rlist.extends_close [OF e2 a(4,5,2)])
    moreover have "copyRandomList (Suc fuel) p (c, news, h) = Ret (c2 p, c2, n2, h2(a \<mapsto> ?n2))"
      using 3 n(1) a(1,3) c1p c2p r1(1) r2(1) copy_inv_orig [OF Suc.prems(1) 3(3)] copy_inv_orig [OF r1(3) 3(3)]
      by (auto simp: node_of_def)
    ultimately show ?thesis using copy_inv_write [OF r2(3) a(3)] c2p(1) a(2) by (auto simp: cached_def)
  qed (use Suc.prems(1) copy_inv_null [OF Suc.prems(1)] in \<open>auto simp: extends_refl cached_def\<close>)
qed simp

section \<open>Graphs: correctness\<close>

abbreviation lab :: "gheap \<Rightarrow> ptr \<Rightarrow> int" where
  "lab g x \<equiv> g_label (orig g x)"

text \<open>
  A finite graph whose nodes have different labels and fewer than \<open>2\<^sup>3\<^sup>1\<close> neighbours each, and the cache as a
  map from nodes.
\<close>

definition graph :: "ptr set \<Rightarrow> gheap \<Rightarrow> bool" where
  "graph G g \<longleftrightarrow> finite G \<and> 0 \<notin> G \<and> (\<forall>x \<in> G. \<exists>n. g x = Some n \<and> set (neighbors n) \<subseteq> G) \<and> inj_on (lab g) G \<and>
     (\<forall>x \<in> G. length (neighbors (orig g x)) < 2 ^ 31)"

definition view :: "ptr set \<Rightarrow> gheap \<Rightarrow> (int \<Rightarrow> ptr) \<Rightarrow> ptr \<Rightarrow> ptr" where
  "view G g cache x = (if x \<in> G then cache (lab g x) else 0)"

lemma view_upd: "graph G g \<Longrightarrow> p \<in> G \<Longrightarrow> view G g (cache(lab g p := a)) = (view G g cache)(p := a)"
  by (auto simp: view_def graph_def fun_eq_iff dest: inj_onD)

definition g_complete :: "gheap \<Rightarrow> (ptr \<Rightarrow> ptr) \<Rightarrow> gheap \<Rightarrow> ptr \<Rightarrow> bool" where
  "g_complete g c h x \<longleftrightarrow> h (c x) = Some \<lparr>g_label = lab g x, neighbors = map c (neighbors (orig g x))\<rparr> \<and>
     set (neighbors (orig g x)) \<subseteq> cached c"

interpretation ugraph: completeness "g_complete g" for g
proof
  fix c c' :: "ptr \<Rightarrow> ptr" and h h' :: gheap and x
  assume a: "g_complete g c h x" "x \<in> cached c" "\<And>y. y \<in> insert 0 (cached c) \<Longrightarrow> c' y = c y" "h' (c x) = h (c x)"
  have "cached c \<subseteq> cached c'" using a(3) by (auto simp: cached_def)
  moreover have "c' x = c x" "map c' (neighbors (orig g x)) = map c (neighbors (orig g x))"
    using a(1-3) by (auto simp: g_complete_def)
  ultimately show "g_complete g c' h' x" using a(1,4) by (auto simp: g_complete_def)
qed

text \<open>The contract of the recursion, and the loop over the neighbours under it.\<close>

definition clones :: "ptr set \<Rightarrow> gheap \<Rightarrow> nat \<Rightarrow> (ptr \<Rightarrow> gstate \<Rightarrow> (ptr \<times> gstate) exec) \<Rightarrow> bool" where
  "clones G g k f \<longleftrightarrow> (\<forall>m cache news h. m \<in> G \<longrightarrow> copy_inv G g (view G g cache) news h \<longrightarrow> card (G - cached (view G g cache)) < k \<longrightarrow>
     (\<exists>cache' news' h'. f m (cache, news, h) = Ret (view G g cache' m, cache', news', h') \<and> m \<in> cached (view G g cache') \<and>
        copy_inv G g (view G g cache') news' h' \<and> extends (g_complete g) {} (view G g cache) h (view G g cache') h'))"

definition filling :: "ptr set \<Rightarrow> gheap \<Rightarrow> ptr \<Rightarrow> ptr \<Rightarrow> (ptr \<Rightarrow> ptr) \<Rightarrow> gheap \<Rightarrow> int \<Rightarrow> gstate \<Rightarrow> bool" where
  "filling G g p a c0 h0 i = (\<lambda>(cache, news, h). let c = view G g cache; done_nb = take (nat i) (neighbors (orig g p)) in
     copy_inv G g c news h \<and> extends (g_complete g) {a} c0 h0 c h \<and>
     h a = Some \<lparr>g_label = lab g p, neighbors = map c done_nb\<rparr> \<and> set done_nb \<subseteq> cached c)"

lemma filling_step:
  assumes gr: "graph G g" and cl: "clones G g k f" and p: "p \<in> G" "c0 p = a" "a \<noteq> 0" "a \<notin> G" and k: "card (G - cached c0) < k"
    and i: "0 \<le> i" "i < int (length (neighbors (orig g p)))" and st: "filling G g p a c0 h0 i st"
  shows "returns (clone_neighbor f p a i st) (filling G g p a c0 h0 (i + 1))"
proof -
  obtain cache news h where s: "st = (cache, news, h)" by (cases st)
  let ?nb = "neighbors (orig g p)" and ?c = "view G g cache" and ?m = "neighbors (orig g p) ! nat i"
  have inv: "copy_inv G g ?c news h" and ex: "extends (g_complete g) {a} c0 h0 ?c h" and dn: "set (take (nat i) ?nb) \<subseteq> cached ?c"
    and ha: "h a = Some \<lparr>g_label = lab g p, neighbors = map ?c (take (nat i) ?nb)\<rparr>"
    using st s by (auto simp: filling_def Let_def)
  have "finite G" using gr by (simp add: graph_def)
  then have k': "card (G - cached ?c) < k" using card_cached [OF _ ex] k by (meson le_less_trans)
  have hp: "h p = Some (orig g p)" "?m \<in> G"
    using gr p(1) i copy_inv_orig [OF inv p(1)] by (auto simp: graph_def orig_def subset_iff)
  obtain cache' news' h' where r: "f ?m (cache, news, h) = Ret (view G g cache' ?m, cache', news', h')" "?m \<in> cached (view G g cache')"
      "copy_inv G g (view G g cache') news' h'" "extends (g_complete g) {} ?c h (view G g cache') h'"
    using cl hp(2) inv k' unfolding clones_def by meson
  let ?c' = "view G g cache'" and ?n = "\<lparr>g_label = lab g p, neighbors = map ?c (take (nat i) ?nb) @ [view G g cache' ?m]\<rparr>"
  have cp: "?c p = a" using extends_same [OF ex, of p] p by (simp add: cached_def)
  have ha': "h' a = h a" using extends_kept [OF r(4) cp p(3)] by simp
  have t: "take (nat (i + 1)) ?nb = take (nat i) ?nb @ [?m]" using i by (simp add: nat_add_distrib take_Suc_conv_app_nth)
  have mp: "map ?c' (take (nat i) ?nb) = map ?c (take (nat i) ?nb)" using extends_same [OF r(4)] dn by (auto simp: subset_iff)
  have "filling G g p a c0 h0 (i + 1) (cache', news', h'(a \<mapsto> ?n))"
    using copy_inv_write [OF r(3) p(4)] ugraph.extends_fill [OF ex r(4) inv r(3) p(2,3)] dn extends_cached [OF r(4)] r(2)
    unfolding filling_def Let_def case_prod_conv t map_append mp by auto
  moreover have "int_ok (i + 1)"
  proof -
    have "length ?nb < 2 ^ 31" using gr p(1) by (simp add: graph_def)
    then show ?thesis using i by (simp add: int_ok_def)
  qed
  ultimately show ?thesis using s hp r(1) ha ha' i by (simp add: clone_neighbor_def node_of_def)
qed

lemma cloneGraphWithCache_clones: "graph G g \<Longrightarrow> clones G g fuel (cloneGraphWithCache fuel)"
proof (induction fuel)
  case (Suc fuel)
  note cl = Suc.IH [OF Suc.prems]
  show ?case unfolding clones_def
  proof (intro allI impI)
    fix p cache news h
    let ?c = "view G g cache"
    assume p: "p \<in> G" and inv: "copy_inv G g ?c news h" and k: "card (G - cached ?c) < Suc fuel"
    have hp: "h p = Some (orig g p)" using Suc.prems p copy_inv_orig [OF inv p] by (auto simp: graph_def orig_def)
    have cp: "?c p = cache (lab g p)" using p by (simp add: view_def)
    show "\<exists>cache' news' h'. cloneGraphWithCache (Suc fuel) p (cache, news, h) = Ret (view G g cache' p, cache', news', h') \<and>
      p \<in> cached (view G g cache') \<and> copy_inv G g (view G g cache') news' h' \<and> extends (g_complete g) {} ?c h (view G g cache') h'"
    proof (cases "?c p = 0")
      case False
      then show ?thesis using hp cp inv by (intro exI [of _ cache] exI [of _ news] exI [of _ h]) (simp add: node_of_def extends_refl cached_def)
    next
      case True
      let ?n0 = "\<lparr>g_label = lab g p, neighbors = []\<rparr>"
      obtain a ns where a: "news = a # ns" "a \<noteq> 0" "a \<notin> G" "p \<notin> cached ?c" "\<forall>x \<in> cached ?c. ?c x \<noteq> a"
        and f1: "card (G - cached (?c(p := a))) < card (G - cached ?c)" and i0: "copy_inv G g (?c(p := a)) ns (h(a \<mapsto> ?n0))"
        using copy_inv_new [OF inv p True] by metis
      have k': "card (G - cached (?c(p := a))) < fuel" using f1 k by linarith
      have st: "filling G g p a (?c(p := a)) (h(a \<mapsto> ?n0)) 0 (cache(lab g p := a), ns, h(a \<mapsto> ?n0))"
        using i0 by (simp add: filling_def view_upd [OF Suc.prems p] extends_refl)
      let ?nb = "neighbors (orig g p)"
      have "returns (exec_fold (clone_neighbor (cloneGraphWithCache fuel) p a) [0..int (length ?nb) - 1] (cache(lab g p := a), ns, h(a \<mapsto> ?n0)))
         (filling G g p a (?c(p := a)) (h(a \<mapsto> ?n0)) (int (length ?nb) - 1 + 1))"
      proof (rule exec_fold_upto [where P = "filling G g p a (?c(p := a)) (h(a \<mapsto> ?n0))"])
        fix i st assume "0 \<le> i" "i \<le> int (length ?nb) - 1" "filling G g p a (?c(p := a)) (h(a \<mapsto> ?n0)) i st"
        then show "returns (clone_neighbor (cloneGraphWithCache fuel) p a i st) (filling G g p a (?c(p := a)) (h(a \<mapsto> ?n0)) (i + 1))"
          by (intro filling_step [OF Suc.prems cl p _ a(2,3) k']) auto
      qed (use st in auto)
      then obtain cache' news' h' where r: "cloneGraphWithCache (Suc fuel) p (cache, news, h) = Ret (a, cache', news', h')"
          "filling G g p a (?c(p := a)) (h(a \<mapsto> ?n0)) (int (length ?nb)) (cache', news', h')"
        using hp a(1) True cp by (auto simp: node_of_def returns_iff)
      let ?c' = "view G g cache'"
      have f: "copy_inv G g ?c' news' h'" "extends (g_complete g) {a} (?c(p := a)) (h(a \<mapsto> ?n0)) ?c' h'"
        "h' a = Some \<lparr>g_label = lab g p, neighbors = map ?c' ?nb\<rparr>" "set ?nb \<subseteq> cached ?c'"
        using r(2) by (auto simp: filling_def Let_def)
      have c'p: "?c' p = a" using extends_same [OF f(2), of p] a(2) by (simp add: cached_def)
      then have "g_complete g ?c' h' p" using f(3,4) by (simp add: g_complete_def)
      then have "extends (g_complete g) {} ?c h ?c' h'" by (rule ugraph.extends_close [OF f(2) a(4,5,2)])
      then show ?thesis using r(1) f(1) c'p a(2) by (auto simp: cached_def)
    qed
  qed
qed (simp add: clones_def)

section \<open>Properties\<close>

text \<open>
  \<^verbatim>\<open>copyRandomList\<close> makes a deep copy: the recursion ends, the copies are new nodes, different for different
  nodes, and the correspondence \<open>c\<close> carries labels, \<^verbatim>\<open>next\<close> and \<^verbatim>\<open>random\<close> pointers of every node it reaches to its copy,
  on cyclic structures too; the original is not changed.
\<close>

theorem copyRandomList_correct:
  assumes "closed G g" "p \<in> G" "distinct news" "set news \<inter> insert 0 G = {}" "card G \<le> length news" "card G < fuel"
  shows "\<exists>c news' h. copyRandomList fuel p (\<lambda>_. 0, news, g) = Ret (c p, c, news', h) \<and> p \<in> cached c \<and>
    cached c \<subseteq> G \<and> inj_on c (cached c) \<and> c ` cached c \<inter> G = {} \<and> (\<forall>x \<in> cached c. complete g c h x) \<and> (\<forall>x \<in> G. h x = g x)"
proof -
  have c: "cached (\<lambda>_. 0) = {}" by (simp add: cached_def)
  have G: "finite G" "0 \<notin> G" using assms(1) by (simp_all add: closed_def)
  then have "copy_inv G g (\<lambda>_. 0) news g" using assms by (simp add: copy_inv_def c)
  then obtain c' news' h' where r: "copyRandomList fuel p (\<lambda>_. 0, news, g) = Ret (c' p, c', news', h')" "p \<in> insert 0 (cached c')"
      "copy_inv G g c' news' h'" "extends (complete g) {} (\<lambda>_. 0) g c' h'"
    using copyRandomList_returns [OF assms(1), of "\<lambda>_. 0" news g p fuel] assms(2,6) by (auto simp: c)
  moreover have "p \<noteq> 0" using G(2) assms(2) by metis
  ultimately show ?thesis by (intro exI [of _ c'] exI [of _ news'] exI [of _ h']) (auto simp: copy_inv_def extends_def c)
qed

definition ring :: rheap where
  "ring = [1 \<mapsto> \<lparr>r_label = 7, r_next = 2, r_random = 1\<rparr>, 2 \<mapsto> \<lparr>r_label = 8, r_next = 0, r_random = 1\<rparr>]"

theorem copyRandomList_correct_witness:
  "\<exists>c news' h. copyRandomList 3 1 (\<lambda>_. 0, [3, 4], ring) = Ret (c 1, c, news', h) \<and> complete ring c h 1 \<and> h 1 = ring 1"
proof -
  have "closed {1, 2} ring" by (simp add: closed_def ring_def)
  from copyRandomList_correct [OF this, of 1 "[3, 4]" 3] show ?thesis by auto
qed

text \<open>
  The cache is a member and outlives the call: a later call on the same address returns the old copy,
  whatever the heap holds by then.
\<close>

lemma copy_stale: "c p \<noteq> 0 \<Longrightarrow> p \<noteq> 0 \<Longrightarrow> copyRandomList (Suc fuel) p (c, news, h) = Ret (c p, c, news, h)"
  by simp

text \<open>
  C37. \<^verbatim>\<open>cloneGraph\<close> clones a graph whose labels are different and whose nodes have fewer than \<open>2\<^sup>3\<^sup>1\<close>
  neighbours, so that the \<^verbatim>\<open>int\<close> counter of the loop does not overflow: it ends, the clones are new nodes, different for
  different nodes, with the labels and, in order, the clones of the neighbours of their originals, which are
  not changed.
\<close>

theorem cloneGraph_correct:
  assumes "graph G g" "p \<in> G" "distinct news" "set news \<inter> insert 0 G = {}" "card G \<le> length news" "card G < fuel"
  shows "\<exists>c h. cloneGraph fuel p (news, g) = Ret (c p, h) \<and> p \<in> cached c \<and> cached c \<subseteq> G \<and> inj_on c (cached c) \<and>
    c ` cached c \<inter> G = {} \<and> (\<forall>x \<in> cached c. g_complete g c h x) \<and> (\<forall>x \<in> G. h x = g x)"
proof -
  have v: "view G g (\<lambda>_. 0) = (\<lambda>_. 0)" "cached (\<lambda>_. 0) = {}" by (auto simp: view_def cached_def)
  have G: "finite G" "0 \<notin> G" using assms(1) by (simp_all add: graph_def)
  then have "copy_inv G g (view G g (\<lambda>_. 0)) news g" "card (G - cached (view G g (\<lambda>_. 0))) < fuel"
    using assms by (simp_all add: copy_inv_def v)
  then obtain cache' news' h' where r: "cloneGraphWithCache fuel p (\<lambda>_. 0, news, g) = Ret (view G g cache' p, cache', news', h')"
      "p \<in> cached (view G g cache')" "copy_inv G g (view G g cache') news' h'"
      "extends (g_complete g) {} (view G g (\<lambda>_. 0)) g (view G g cache') h'"
    using cloneGraphWithCache_clones [OF assms(1), of fuel] assms(2) unfolding clones_def by meson
  moreover have "p \<noteq> 0" using G(2) assms(2) by metis
  ultimately show ?thesis
    by (intro exI [of _ "view G g cache'"] exI [of _ h']) (auto simp: cloneGraph_def copy_inv_def extends_def v)
qed

definition pair_graph :: gheap where
  "pair_graph = [1 \<mapsto> \<lparr>g_label = 5, neighbors = [2, 2]\<rparr>, 2 \<mapsto> \<lparr>g_label = 6, neighbors = [1, 2]\<rparr>]"

theorem cloneGraph_correct_witness:
  "\<exists>c h. cloneGraph 3 1 ([3, 4], pair_graph) = Ret (c 1, h) \<and> g_complete pair_graph c h 1 \<and> h 2 = pair_graph 2"
proof -
  have "graph {1, 2} pair_graph" by (simp add: graph_def pair_graph_def orig_def)
  from cloneGraph_correct [OF this, of 1 "[3, 4]" 3] obtain c h where "cloneGraph 3 1 ([3, 4], pair_graph) = Ret (c 1, h)"
      "1 \<in> cached c" "\<forall>x \<in> cached c. g_complete pair_graph c h x" "h 2 = pair_graph 2" by auto
  then show ?thesis by blast
qed

text \<open>Two nodes with one label become one clone, a neighbour of itself.\<close>

lemma clone_same_label:
  "cloneGraph 3 1 ([3, 4], [1 \<mapsto> \<lparr>g_label = 5, neighbors = [2]\<rparr>, 2 \<mapsto> \<lparr>g_label = 5, neighbors = []\<rparr>]) =
   Ret (3, [1 \<mapsto> \<lparr>g_label = 5, neighbors = [2]\<rparr>, 2 \<mapsto> \<lparr>g_label = 5, neighbors = []\<rparr>, 3 \<mapsto> \<lparr>g_label = 5, neighbors = [3]\<rparr>])"
  by (simp add: cloneGraph_def numeral_3_eq_3 clone_neighbor_def node_of_def fun_upd_twist int_ok_def)

end
