(* ===== verification/Dp_Problems.thy ===== *)
theory Dp_Problems
  imports Sperm_Prelude
begin

text \<open>
  Programs of \<^verbatim>\<open>code/leetcode\<close> that fill tables: \<^verbatim>\<open>pascal-triangle.cc\<close>, \<^verbatim>\<open>pascal-triangle-2.cc\<close>, \<^verbatim>\<open>triangle.cc\<close>,
  \<^verbatim>\<open>decode-ways.cc\<close>, \<^verbatim>\<open>interleaving-string.cc\<close> and \<^verbatim>\<open>distinct-subsequences.cc\<close>. Local arrays are uninitialised: their cells
  are \<open>None\<close> until they are written, and reading such a cell, like an access outside the array, is undefined. An
  array \<^verbatim>\<open>dp[2][n]\<close> with the index \<^verbatim>\<open>id\<close> is the pair of its current row and the other one.
\<close>

section \<open>Uninitialised arrays\<close>

definition cell :: "'a option list \<Rightarrow> int \<Rightarrow> 'a exec" where
  "cell xs i = exec_bind (vec_at xs i) (\<lambda>v. case v of None \<Rightarrow> Undefined | Some x \<Rightarrow> Ret x)"

definition two_rows :: "int \<Rightarrow> 'a option list \<times> 'a option list" where
  "two_rows n = (replicate (nat n) None, replicate (nat n) None)"

section \<open>Pascal's triangle\<close>

definition pascal_cell :: "int option list \<Rightarrow> int \<Rightarrow> int \<Rightarrow> int exec" where
  "pascal_cell cur i j =
     (if j = 0 then cell cur j
      else if j = i then cell cur (j - 1)
      else exec_bind (cell cur j) (\<lambda>a. exec_bind (cell cur (j - 1)) (\<lambda>b. c_int (a + b))))"

definition generate_row :: "int option list \<Rightarrow> int \<Rightarrow> int \<Rightarrow> int option list \<times> int list \<Rightarrow> (int option list \<times> int list) exec" where
  "generate_row cur i j = (\<lambda>(oth, vi).
     exec_bind (pascal_cell cur i j) (\<lambda>v.
     exec_bind (vec_put oth j (Some v)) (\<lambda>oth.
     exec_bind (cell oth j) (\<lambda>v. Ret (oth, vi @ [v])))))"

definition generate_step :: "int \<Rightarrow> (int option list \<times> int option list) \<times> int list list \<Rightarrow>
    ((int option list \<times> int option list) \<times> int list list) exec" where
  "generate_step i = (\<lambda>((cur, oth), res).
     exec_bind (exec_fold (generate_row cur i) [0..i] (oth, [])) (\<lambda>(oth, vi). Ret ((oth, cur), res @ [vi])))"

definition generate :: "int \<Rightarrow> int list list exec" where
  "generate n =
     (if n = 0 then Ret []
      else if n < 0 then Undefined
      else case two_rows n of (cur, oth) \<Rightarrow>
        exec_bind (vec_put cur 0 (Some 1)) (\<lambda>cur.
        exec_bind (exec_fold generate_step [1..n - 1] ((cur, oth), [[1]])) (\<lambda>(dp, res). Ret res)))"

definition getRow_row :: "int option list \<Rightarrow> int \<Rightarrow> int \<Rightarrow> int option list \<Rightarrow> int option list exec" where
  "getRow_row cur i j oth = exec_bind (pascal_cell cur i j) (\<lambda>v. vec_put oth j (Some v))"

definition getRow_step :: "int \<Rightarrow> int option list \<times> int option list \<Rightarrow> (int option list \<times> int option list) exec" where
  "getRow_step i = (\<lambda>(cur, oth). exec_bind (exec_fold (getRow_row cur i) [0..i] oth) (\<lambda>oth. Ret (oth, cur)))"

definition getRow :: "int \<Rightarrow> int list exec" where
  "getRow n =
     (if n = 0 then Ret [1]
      else if n < 0 then Undefined
      else case two_rows n of (cur, oth) \<Rightarrow>
        exec_bind (vec_put cur 0 (Some 1)) (\<lambda>cur.
        exec_bind (exec_fold getRow_step [1..n] (cur, oth)) (\<lambda>(cur, oth).
        exec_fold (\<lambda>i res. exec_bind (cell cur i) (\<lambda>v. Ret (res @ [v]))) [0..n] [])))"

section \<open>The least path of a triangle\<close>

definition total_cell :: "int option list \<Rightarrow> int \<Rightarrow> int \<Rightarrow> int exec" where
  "total_cell cur i j =
     (if j = 0 then cell cur j
      else if j = i then cell cur (j - 1)
      else exec_bind (cell cur j) (\<lambda>a. exec_bind (cell cur (j - 1)) (\<lambda>b. Ret (min a b))))"

definition total_row :: "int list list \<Rightarrow> int option list \<Rightarrow> int \<Rightarrow> int \<Rightarrow> int option list \<Rightarrow> int option list exec" where
  "total_row t cur i j oth =
     exec_bind (total_cell cur i j) (\<lambda>v.
     exec_bind (vec_put oth j (Some v)) (\<lambda>oth.
     exec_bind (vec_at t i) (\<lambda>row.
     exec_bind (vec_at row j) (\<lambda>x.
     exec_bind (cell oth j) (\<lambda>v.
     exec_bind (c_int (v + x)) (\<lambda>v. vec_put oth j (Some v)))))))"

definition total_step :: "int list list \<Rightarrow> int \<Rightarrow> int option list \<times> int option list \<Rightarrow> (int option list \<times> int option list) exec" where
  "total_step t i = (\<lambda>(cur, oth). exec_bind (exec_fold (total_row t cur i) [0..i] oth) (\<lambda>oth. Ret (oth, cur)))"

definition minimumTotal :: "int list list \<Rightarrow> int exec" where
  "minimumTotal t =
     (let n = int (length t) in
      if n = 0 then Ret 0
      else case two_rows n of (cur, oth) \<Rightarrow>
        exec_bind (vec_at t 0) (\<lambda>row. exec_bind (vec_at row 0) (\<lambda>x.
        exec_bind (vec_put cur 0 (Some x)) (\<lambda>cur.
        exec_bind (exec_fold (total_step t) [1..n - 1] (cur, oth)) (\<lambda>(cur, oth).
        exec_bind (cell cur 0) (\<lambda>result.
        exec_fold (\<lambda>i result. exec_bind (cell cur i) (\<lambda>v. Ret (min result v))) [1..n - 1] result))))))"

section \<open>Decodings\<close>

text \<open>\<open>s\<close> is given by the codes of its characters.\<close>

definition decode_step :: "int list \<Rightarrow> int \<Rightarrow> int option list \<Rightarrow> int option list exec" where
  "decode_step s i dp =
     exec_bind (vec_put dp i (Some 0)) (\<lambda>dp.
     exec_bind (vec_at s i) (\<lambda>si.
     exec_bind (if si \<noteq> 48 then exec_bind (cell dp i) (\<lambda>d.
                  exec_bind (if i > 0 then cell dp (i - 1) else Ret 1) (\<lambda>p.
                  exec_bind (c_int (d + p)) (\<lambda>d. vec_put dp i (Some d))))
                else Ret dp) (\<lambda>dp.
     if i > 0 then exec_bind (vec_at s (i - 1)) (\<lambda>sp.
       if sp \<noteq> 48 then exec_bind (c_int ((sp - 48) * 10 + si - 48)) (\<lambda>val.
         if val \<le> 26 then exec_bind (cell dp i) (\<lambda>d.
           exec_bind (if i > 1 then cell dp (i - 2) else Ret 1) (\<lambda>p.
           exec_bind (c_int (d + p)) (\<lambda>d. vec_put dp i (Some d))))
         else Ret dp)
       else Ret dp)
     else Ret dp)))"

definition numDecodings :: "int list \<Rightarrow> int exec" where
  "numDecodings s =
     (let n = int (length s) in
      if n = 0 then Ret 0
      else exec_bind (exec_fold (decode_step s) [0..n - 1] (replicate (length s) None)) (\<lambda>dp. cell dp (n - 1)))"

section \<open>Interleavings\<close>

definition mat_at :: "'a list list \<Rightarrow> int \<Rightarrow> int \<Rightarrow> 'a exec" where
  "mat_at m i j = exec_bind (vec_at m i) (\<lambda>row. vec_at row j)"

definition mat_put :: "'a list list \<Rightarrow> int \<Rightarrow> int \<Rightarrow> 'a \<Rightarrow> 'a list list exec" where
  "mat_put m i j x = exec_bind (vec_at m i) (\<lambda>row. exec_bind (vec_put row j x) (\<lambda>row. vec_put m i row))"

definition interleave_step :: "'a list \<Rightarrow> 'a list \<Rightarrow> 'a list \<Rightarrow> int \<Rightarrow> int \<Rightarrow> bool list list \<Rightarrow> bool list list exec" where
  "interleave_step s1 s2 s3 i j dp =
     exec_bind (vec_at s1 (i - 1)) (\<lambda>a.
     exec_bind (vec_at s3 (i + j - 1)) (\<lambda>c.
     exec_bind (if a = c then mat_at dp (i - 1) j else Ret False) (\<lambda>b1.
     exec_bind (if b1 then Ret True
                else exec_bind (vec_at s2 (j - 1)) (\<lambda>b. if b = c then mat_at dp i (j - 1) else Ret False)) (\<lambda>b2.
     if b2 then mat_put dp i j True else Ret dp))))"

definition isInterleave :: "'a list \<Rightarrow> 'a list \<Rightarrow> 'a list \<Rightarrow> bool exec" where
  "isInterleave s1 s2 s3 =
     (let n = int (length s1); m = int (length s2) in
      if n + m \<noteq> int (length s3) then Ret False
      else exec_bind (mat_put (replicate (nat (n + 1)) (replicate (nat (m + 1)) False)) 0 0 True) (\<lambda>dp.
        exec_bind (exec_fold (\<lambda>i dp. mat_put dp i 0 (take (nat i) s1 = take (nat i) s3)) [1..n] dp) (\<lambda>dp.
        exec_bind (exec_fold (\<lambda>i dp. mat_put dp 0 i (take (nat i) s2 = take (nat i) s3)) [1..m] dp) (\<lambda>dp.
        exec_bind (exec_fold (\<lambda>i dp. exec_fold (\<lambda>j dp. interleave_step s1 s2 s3 i j dp) [1..m] dp) [1..n] dp) (\<lambda>dp.
        mat_at dp n m)))))"

section \<open>Distinct subsequences\<close>

text \<open>The bound of the inner loop is the comma expression \<^verbatim>\<open>(i, m)\<close>, which is \<^verbatim>\<open>m\<close>; reading \<^verbatim>\<open>t[m]\<close> yields a null character.\<close>

definition str_at :: "int list \<Rightarrow> int \<Rightarrow> int exec" where
  "str_at t j = (if j = int (length t) then Ret 0 else vec_at t j)"

definition distinct_row :: "int list \<Rightarrow> int list \<Rightarrow> int list \<Rightarrow> int \<Rightarrow> int \<Rightarrow> int list \<Rightarrow> int list exec" where
  "distinct_row s t cur i j oth =
     exec_bind (vec_put oth j 0) (\<lambda>oth.
     exec_bind (if i \<noteq> j then exec_bind (vec_at oth j) (\<lambda>a. exec_bind (vec_at cur j) (\<lambda>b. exec_bind (c_int (a + b)) (vec_put oth j)))
                else Ret oth) (\<lambda>oth.
     exec_bind (str_at s i) (\<lambda>si. exec_bind (str_at t j) (\<lambda>tj.
     if si = tj then
       exec_bind (vec_at oth j) (\<lambda>a.
       exec_bind (if j = 0 then Ret 1 else vec_at cur (j - 1)) (\<lambda>b.
       exec_bind (c_int (a + b)) (vec_put oth j)))
     else Ret oth))))"

definition distinct_step :: "int list \<Rightarrow> int list \<Rightarrow> int \<Rightarrow> int list \<times> int list \<Rightarrow> (int list \<times> int list) exec" where
  "distinct_step s t i = (\<lambda>(cur, oth).
     exec_bind (exec_fold (distinct_row s t cur i) [0..int (length t)] oth) (\<lambda>oth. Ret (oth, cur)))"

definition numDistinct :: "int list \<Rightarrow> int list \<Rightarrow> int exec" where
  "numDistinct s t =
     (let n = int (length s); m = int (length t) in
      if m > n then Ret 0
      else exec_bind (exec_fold (distinct_step s t) [0..n - 1] (replicate (length t) 0, replicate (length t) 0)) (\<lambda>(cur, oth).
        vec_at cur (m - 1)))"

section \<open>Rows\<close>

text \<open>A row whose first \<open>k\<close> cells hold the values \<open>f\<close>.\<close>

definition holds_row :: "nat \<Rightarrow> 'a option list \<Rightarrow> nat \<Rightarrow> (nat \<Rightarrow> 'a) \<Rightarrow> bool" where
  "holds_row n xs k f \<longleftrightarrow> length xs = n \<and> (\<forall>j < k. xs ! j = Some (f j))"

lemma cell_holds [simp]: "holds_row n xs k f \<Longrightarrow> k \<le> n \<Longrightarrow> 0 \<le> j \<Longrightarrow> nat j < k \<Longrightarrow> cell xs j = Ret (f (nat j))"
  by (auto simp: cell_def holds_row_def vec_at_def)

lemma holds_row_length: "holds_row n xs k f \<Longrightarrow> length xs = n"
  by (simp add: holds_row_def)

lemma holds_row_put: "holds_row n xs k f \<Longrightarrow> k < n \<Longrightarrow> holds_row n (xs[k := Some (f k)]) (Suc k) f"
  by (auto simp: holds_row_def nth_list_update less_Suc_eq)

lemma holds_row_fresh: "length xs = n \<Longrightarrow> holds_row n xs 0 f"
  by (simp add: holds_row_def)

text \<open>
  The loop of a table with two rows: if the body computes cell \<open>j\<close> of the new row from the current row, the loop
  fills the row.
\<close>

lemma fill_row:
  assumes "length oth = n" "i < n" "\<And>j oth. j \<le> i \<Longrightarrow> holds_row n oth j f \<Longrightarrow> row (int j) oth = Ret (oth[j := Some (f j)])"
  shows "returns (exec_fold row [0..int i] oth) (\<lambda>oth. holds_row n oth (Suc i) f)"
proof -
  have "returns (exec_fold row [0..int i] oth) (\<lambda>oth. holds_row n oth (nat (int i + 1)) f)"
  proof (rule exec_fold_upto [where P = "\<lambda>j oth. holds_row n oth (nat j) f"])
    fix j oth assume j: "0 \<le> j" "j \<le> int i" and h: "holds_row n oth (nat j) f"
    have "row j oth = Ret (oth[nat j := Some (f (nat j))])" using assms(3) [OF _ h] j by simp
    then show "returns (row j oth) (\<lambda>oth. holds_row n oth (nat (j + 1)) f)"
      using holds_row_put [OF h] assms(2) j by (simp add: nat_add_distrib)
  qed (use assms(1) in \<open>simp_all add: holds_row_fresh\<close>)
  then show ?thesis by (simp add: nat_add_distrib)
qed

lemma two_rows_steps:
  fixes cur oth :: "'a option list" and f :: "nat \<Rightarrow> nat \<Rightarrow> 'a"
  assumes "holds_row n cur 1 (f 0)" "length oth = n" "1 \<le> m" "m \<le> n"
    and "\<And>i cur oth. 1 \<le> i \<Longrightarrow> i < m \<Longrightarrow> holds_row n cur i (f (i - 1)) \<Longrightarrow> length oth = n \<Longrightarrow>
      returns (step (int i) (cur, oth)) (\<lambda>(cur, oth). holds_row n cur (Suc i) (f i) \<and> length oth = n)"
  shows "returns (exec_fold step [1..int m - 1] (cur, oth)) (\<lambda>(cur, oth). holds_row n cur m (f (m - 1)) \<and> length oth = n)"
proof -
  have "returns (exec_fold step [1..int m - 1] (cur, oth))
      (\<lambda>(cur, oth). holds_row n cur (nat (int m - 1 + 1)) (f (nat (int m - 1 + 1) - 1)) \<and> length oth = n)"
  proof (rule exec_fold_upto [where P = "\<lambda>i (cur, oth). holds_row n cur (nat i) (f (nat i - 1)) \<and> length oth = n"])
    fix i and s :: "'a option list \<times> 'a option list"
    assume i: "1 \<le> i" "i \<le> int m - 1" and s: "case s of (cur, oth) \<Rightarrow> holds_row n cur (nat i) (f (nat i - 1)) \<and> length oth = n"
    obtain cur oth where "s = (cur, oth)" by (cases s)
    then show "returns (step i s) (\<lambda>(cur, oth). holds_row n cur (nat (i + 1)) (f (nat (i + 1) - 1)) \<and> length oth = n)"
      using assms(5) [of "nat i" cur oth] i s by (simp add: nat_add_distrib)
  qed (use assms in auto)
  then show ?thesis by simp
qed

section \<open>Pascal's triangle\<close>

abbreviation binom :: "nat \<Rightarrow> nat \<Rightarrow> int" where
  "binom i j \<equiv> int (i choose j)"

lemma binomial_le_upper: "m \<le> n \<Longrightarrow> m choose k \<le> n choose k"
proof (induction rule: dec_induct)
  case (step n)
  have "n choose k \<le> Suc n choose k" by (cases k) auto
  with step show ?case by simp
qed simp

text \<open>Row 33 is the last one that fits: its entries are computed by additions.\<close>

definition next_row :: "int list \<Rightarrow> int list" where
  "next_row r = map2 (+) (0 # r) (r @ [0])"

lemma next_row_binom: "next_row (map (binom n) [0..<Suc n]) = map (binom (Suc n)) [0..<Suc (Suc n)]"
proof (rule nth_equalityI)
  fix j assume "j < length (next_row (map (binom n) [0..<Suc n]))"
  then have j: "j \<le> Suc n" by (simp add: next_row_def)
  show "next_row (map (binom n) [0..<Suc n]) ! j = map (binom (Suc n)) [0..<Suc (Suc n)] ! j"
    using j by (cases j) (auto simp: next_row_def nth_append nth_Cons' less_Suc_eq_le le_Suc_eq binomial_eq_0 simp del: upt_Suc)
qed (simp add: next_row_def)

lemma rows_binom: "fold (\<lambda>_. next_row) [1..int n] [1] = map (binom n) [0..<Suc n]"
proof (induction n)
  case (Suc n)
  have "[1..int (Suc n)] = [1..int n] @ [int (Suc n)]" by (simp add: upto_rec2)
  then show ?case using Suc next_row_binom [of n] by (simp del: upt_Suc)
qed simp

lemma row_33: "list_all (\<lambda>x. x < 2 ^ 31) (fold (\<lambda>_. next_row) [1..33] [1])"
  by code_simp

lemma binom_ok:
  assumes "i \<le> 33"
  shows "int_ok (binom i j)"
proof (cases "j < 34")
  case True
  then have m: "binom 33 j \<in> set (map (binom 33) [0..<Suc 33])" unfolding set_map by (intro imageI) simp
  have "\<forall>x \<in> set (map (binom 33) [0..<Suc 33]). x < 2 ^ 31" unfolding rows_binom [symmetric] list_all_iff [symmetric] using row_33 by simp
  from bspec [OF this m] have "binom 33 j < 2 ^ 31" .
  then have "i choose j < 2 ^ 31" using binomial_le_upper [OF assms, of j] by simp
  then show ?thesis by (simp add: int_ok_def)
next
  case False
  then show ?thesis using assms by (simp add: int_ok_def binomial_eq_0)
qed

lemma pascal_cell_binom:
  assumes "holds_row n cur i (binom (i - 1))" "1 \<le> i" "i < n" "i \<le> 33" "j \<le> i"
  shows "pascal_cell cur (int i) (int j) = Ret (binom i j)"
proof -
  consider "j = 0" | "j = i" "0 < j" | "0 < j" "j < i" using assms(5) by linarith
  then show ?thesis
  proof cases
    case 3
    then have "nat (int j - 1) = j - 1" "binom i j = binom (i - 1) j + binom (i - 1) (j - 1)"
      using choose_reduce_nat [of i j] by auto
    then show ?thesis using 3 assms binom_ok [OF assms(4), of j] by (simp add: pascal_cell_def)
  next
    case 2
    then show ?thesis using assms by (simp add: pascal_cell_def)
  qed (use assms in \<open>simp add: pascal_cell_def\<close>)
qed

lemma generate_row_binom:
  assumes "holds_row n cur i (binom (i - 1))" "1 \<le> i" "i < n" "i \<le> 33" "length oth = n"
  shows "returns (exec_fold (generate_row cur (int i)) [0..int i] (oth, []))
    (\<lambda>(oth, vi). holds_row n oth (Suc i) (binom i) \<and> vi = map (binom i) [0..<Suc i])"
proof -
  let ?P = "\<lambda>j (oth, vi). holds_row n oth (nat j) (binom i) \<and> vi = map (binom i) [0..<nat j]"
  have "returns (exec_fold (generate_row cur (int i)) [0..int i] (oth, [])) (?P (int i + 1))"
  proof (rule exec_fold_upto [where P = ?P])
    fix j s assume j: "0 \<le> j" "j \<le> int i" and s: "?P j s"
    obtain oth vi where ov: "s = (oth, vi)" by (cases s)
    have h: "holds_row n (oth[nat j := Some (binom i (nat j))]) (Suc (nat j)) (binom i)"
      using s ov j assms(3) by (auto intro: holds_row_put [of n oth "nat j" "binom i"])
    then have "cell (oth[nat j := Some (binom i (nat j))]) j = Ret (binom i (nat j))" using j assms(3) by simp
    moreover have "length oth = n" using s ov by (auto simp: holds_row_def)
    moreover have "pascal_cell cur (int i) j = Ret (binom i (nat j))"
      using pascal_cell_binom [OF assms(1-4), of "nat j"] j by simp
    ultimately show "returns (generate_row cur (int i) j s) (?P (j + 1))"
      using h s ov j assms(3) by (simp add: generate_row_def nat_add_distrib)
  qed (use assms(5) in \<open>simp_all add: holds_row_fresh\<close>)
  then show ?thesis by (simp add: nat_add_distrib)
qed

lemma generate_returns:
  assumes "1 \<le> n" "n \<le> 34"
  shows "generate (int n) = Ret (map (\<lambda>i. map (binom i) [0..<Suc i]) [0..<n])"
proof -
  let ?rows = "\<lambda>k. map (\<lambda>i. map (binom i) [0..<Suc i]) [0..<k]"
  let ?P = "\<lambda>i ((cur, oth), res). holds_row n cur (nat i) (binom (nat i - 1)) \<and> length (oth :: int option list) = n \<and> res = ?rows (nat i)"
  have "returns (exec_fold generate_step [1..int n - 1] (((replicate n None)[0 := Some 1], replicate n None), [[1]])) (?P (int n - 1 + 1))"
  proof (rule exec_fold_upto [where P = ?P])
    fix i s assume i: "1 \<le> i" "i \<le> int n - 1" and s: "?P i s"
    obtain cur oth res where o: "s = ((cur, oth), res)" by (metis prod.exhaust)
    let ?i = "nat i"
    have "returns (exec_fold (generate_row cur (int ?i)) [0..int ?i] (oth, []))
       (\<lambda>(oth, vi). holds_row n oth (Suc ?i) (binom ?i) \<and> vi = map (binom ?i) [0..<Suc ?i])"
      using s o i assms by (intro generate_row_binom) auto
    then have "returns (exec_fold (generate_row cur i) [0..i] (oth, []))
       (\<lambda>(oth, vi). holds_row n oth (Suc ?i) (binom ?i) \<and> vi = map (binom ?i) [0..<Suc ?i])" using i by simp
    then show "returns (generate_step i s) (?P (i + 1))"
      using s o i by (auto simp: generate_step_def nat_add_distrib holds_row_length elim!: returns_mono)
  qed (use assms(1) in \<open>auto simp: holds_row_def\<close>)
  then obtain dp where "exec_fold generate_step [1..int n - 1] (((replicate n None)[0 := Some 1], replicate n None), [[1]]) = Ret (dp, ?rows n)"
    by (auto simp: returns_iff)
  then show ?thesis using assms(1) by (simp add: generate_def two_rows_def)
qed

section \<open>Undefined behaviour\<close>

text \<open>A run that either fails with undefined behaviour or keeps \<open>P\<close>.\<close>

definition undef_or :: "'a exec \<Rightarrow> ('a \<Rightarrow> bool) \<Rightarrow> bool" where
  "undef_or m P \<longleftrightarrow> m = Undefined \<or> returns m P"

lemma undef_or_bind: "undef_or m P \<Longrightarrow> (\<And>x. P x \<Longrightarrow> undef_or (f x) Q) \<Longrightarrow> undef_or (exec_bind m f) Q"
  unfolding undef_or_def returns_iff by (metis exec_bind.simps(1,3))

lemma undef_or_fold:
  "P s \<Longrightarrow> (\<And>i s. i \<in> set is \<Longrightarrow> P s \<Longrightarrow> undef_or (f i s) P) \<Longrightarrow> undef_or (exec_fold f is s) P"
proof (induction "is" arbitrary: s)
  case (Cons i "is")
  then have "undef_or (f i s) P" by simp
  then show ?case unfolding exec_fold.simps by (rule undef_or_bind) (use Cons in auto)
qed (simp add: undef_or_def)

lemma exec_fold_snoc: "exec_fold f (xs @ [x]) s = exec_bind (exec_fold f xs s) (f x)"
proof (induction xs arbitrary: s)
  case Nil
  show ?case by (cases "f x s") simp_all
next
  case (Cons a xs)
  then show ?case by (cases "f a s") simp_all
qed

lemma undef_or_Undefined: "undef_or m (\<lambda>_. True) \<Longrightarrow> (\<And>x. f x = Undefined) \<Longrightarrow> exec_bind m f = Undefined"
  by (auto simp: undef_or_def returns_iff)

lemma undef_or_basic [simp]:
  "undef_or (vec_put xs i x) (\<lambda>ys. length ys = n) \<longleftrightarrow> \<not> (0 \<le> i \<and> i < int (length xs)) \<or> length xs = n"
  "undef_or (vec_at xs i) (\<lambda>_. True)" "undef_or (cell ys i) (\<lambda>_. True)" "undef_or (c_int v) (\<lambda>_. True)"
  by (auto simp: undef_or_def vec_put_def vec_at_def cell_def c_int_def split: option.splits)

lemma pascal_cell_undef: "undef_or (pascal_cell cur i j) (\<lambda>_. True)"
  unfolding pascal_cell_def by (auto intro!: undef_or_bind)

lemma getRow_row_undef: "length oth = n \<Longrightarrow> undef_or (getRow_row cur i j oth) (\<lambda>ys. length ys = n)"
  unfolding getRow_row_def by (rule undef_or_bind [OF pascal_cell_undef]) simp

text \<open>The last row has one cell more than the array.\<close>

lemma getRow_last: "length oth = n \<Longrightarrow> exec_fold (getRow_row cur (int n)) [0..int n] oth = Undefined"
proof -
  assume o: "length oth = n"
  have "undef_or (exec_fold (getRow_row cur (int n)) [0..int n - 1] oth) (\<lambda>ys. length ys = n)"
    using o by (intro undef_or_fold getRow_row_undef)
  moreover have "getRow_row cur (int n) (int n) ys = Undefined" if "length ys = n" for ys
  proof -
    have "vec_put ys (int n) (Some v) = Undefined" for v :: int using that by (simp add: vec_put_def)
    then show ?thesis unfolding getRow_row_def by (rule undef_or_Undefined [OF pascal_cell_undef])
  qed
  moreover have "[0..int n] = [0..int n - 1] @ [int n]" by (simp add: upto_rec2)
  ultimately show ?thesis by (auto simp: exec_fold_snoc undef_or_def returns_iff)
qed

lemma getRow_undefined:
  assumes "1 \<le> n"
  shows "getRow (int n) = Undefined"
proof -
  let ?P = "\<lambda>(cur, oth :: int option list). length oth = n \<and> length (cur :: int option list) = n"
  have "undef_or (getRow_step i s) ?P" if s: "?P s" for i s
  proof -
    obtain cur oth where o: "s = (cur, oth)" by (cases s)
    have "undef_or (exec_fold (getRow_row cur i) [0..i] oth) (\<lambda>ys. length ys = n)"
      using s o by (intro undef_or_fold getRow_row_undef) auto
    then show ?thesis unfolding getRow_step_def o case_prod_conv
      by (rule undef_or_bind) (use s o in \<open>auto simp: undef_or_def\<close>)
  qed
  then have "undef_or (exec_fold getRow_step [1..int n - 1] ((replicate n None)[0 := Some 1], replicate n None)) ?P"
    by (intro undef_or_fold) auto
  moreover have "getRow_step (int n) s = Undefined" if "?P s" for s
    using that getRow_last by (cases s) (auto simp: getRow_step_def)
  moreover have "[1..int n] = [1..int n - 1] @ [int n]" using assms by (simp add: upto_rec2)
  ultimately have "exec_fold getRow_step [1..int n] ((replicate n None)[0 := Some 1], replicate n None) = Undefined"
    by (auto simp: exec_fold_snoc undef_or_def returns_iff simp del: split_paired_All)
  then show ?thesis using assms by (simp add: getRow_def two_rows_def)
qed

section \<open>The least path of a triangle\<close>

text \<open>The totals of the paths from the top to column \<open>j\<close> of row \<open>i\<close>; each step goes to one of the two cells below.\<close>

fun path_sums :: "int list list \<Rightarrow> nat \<Rightarrow> nat \<Rightarrow> int set" where
  "path_sums t 0 j = (if j = 0 then {t ! 0 ! 0} else {})"
| "path_sums t (Suc i) j = (if j \<le> Suc i then (\<lambda>s. s + t ! Suc i ! j) ` (path_sums t i j \<union> (if j = 0 then {} else path_sums t i (j - 1))) else {})"

lemma path_sums_out: "i < j \<Longrightarrow> path_sums t i j = {}"
  by (cases i) auto

lemma path_sums_finite [simp]: "finite (path_sums t i j)"
  by (induction i arbitrary: j) auto

lemma path_sums_nonempty: "j \<le> i \<Longrightarrow> path_sums t i j \<noteq> {}"
proof (induction i arbitrary: j)
  case (Suc i)
  then show ?case using Suc.IH [of j] Suc.IH [of "j - 1"] by (cases "j \<le> i") auto
qed simp

definition least_sum :: "int list list \<Rightarrow> nat \<Rightarrow> nat \<Rightarrow> int" where
  "least_sum t i j = Min (path_sums t i j)"

lemma Min_shift: "finite A \<Longrightarrow> A \<noteq> {} \<Longrightarrow> Min ((\<lambda>s. s + c) ` A) = Min A + (c :: int)"
  by (simp add: mono_Min_commute [of "\<lambda>s. s + c", symmetric] mono_def)

lemma least_sum_Suc:
  assumes "j \<le> Suc i"
  shows "least_sum t (Suc i) j = (if j = 0 then least_sum t i j else if j = Suc i then least_sum t i (j - 1)
    else min (least_sum t i j) (least_sum t i (j - 1))) + t ! Suc i ! j"
proof -
  let ?A = "path_sums t i j \<union> (if j = 0 then {} else path_sums t i (j - 1))"
  have "?A \<noteq> {}" using assms path_sums_nonempty [of j i t] path_sums_nonempty [of "j - 1" i t] by (cases "j = 0") auto
  then have "least_sum t (Suc i) j = Min ?A + t ! Suc i ! j" using assms by (simp add: least_sum_def Min_shift del: Min_Un)
  moreover have "Min ?A = (if j = 0 then least_sum t i j else if j = Suc i then least_sum t i (j - 1)
      else min (least_sum t i j) (least_sum t i (j - 1)))"
    using assms path_sums_nonempty [of j i t] path_sums_nonempty [of "j - 1" i t] path_sums_out [of i j t]
    by (auto simp: least_sum_def Min_Un)
  ultimately show ?thesis by simp
qed

definition triangle_ok :: "int list list \<Rightarrow> bool" where
  "triangle_ok t \<longleftrightarrow> (\<forall>i < length t. length (t ! i) = Suc i \<and> (\<forall>j \<le> i. int_ok (least_sum t i j)))"

lemma total_row_least:
  assumes t: "triangle_ok t" and cur: "holds_row n cur i (least_sum t (i - 1))" and i: "1 \<le> i" "i < length t" "length t = n"
    and j: "j \<le> i" "holds_row n oth j f"
  shows "total_row t cur (int i) (int j) oth = Ret (oth[j := Some (least_sum t i j)])"
proof -
  let ?m = "if j = 0 then least_sum t (i - 1) j else if j = i then least_sum t (i - 1) (j - 1)
    else min (least_sum t (i - 1) j) (least_sum t (i - 1) (j - 1))"
  have eq: "least_sum t i j = ?m + t ! i ! j" using least_sum_Suc [of j "i - 1" t] i(1) j(1) by (cases i) auto
  have "nat (int j - 1) = j - 1" by simp
  then have tc: "total_cell cur (int i) (int j) = Ret ?m"
    using cur i j(1) by (auto simp: total_cell_def)
  have len: "length oth = n" "length (t ! i) = Suc i" "int_ok (least_sum t i j)"
    using j i t by (auto simp: holds_row_def triangle_ok_def)
  have "cell (oth[j := Some ?m]) (int j) = Ret ?m" using len(1) i j by (simp add: cell_def)
  then show ?thesis using tc len i j(1) eq by (simp add: total_row_def)
qed

lemma minimumTotal_returns:
  assumes t: "triangle_ok t" "t \<noteq> []"
  shows "minimumTotal t = Ret (Min (\<Union>j < length t. path_sums t (length t - 1) j))"
proof -
  define n where "n = length t"
  have n: "1 \<le> n" using t(2) by (cases t) (auto simp: n_def)
  have t0: "length (t ! 0) = 1" "least_sum t 0 0 = t ! 0 ! 0" using t n by (auto simp: triangle_ok_def n_def least_sum_def)
  let ?cur = "(replicate n None)[0 := Some (t ! 0 ! 0)]" and ?f = "least_sum t (n - 1)"
  have "returns (exec_fold (total_step t) [1..int n - 1] (?cur, replicate n None)) (\<lambda>(cur, oth). holds_row n cur n ?f \<and> length oth = n)"
  proof (rule two_rows_steps [where f = "least_sum t"])
    show "holds_row n ?cur 1 (least_sum t 0)" using n t0(2) by (auto simp: holds_row_def)
    fix i cur and oth :: "int option list"
    assume i: "1 \<le> i" "i < n" and c: "holds_row n cur i (least_sum t (i - 1))" "length oth = n"
    have "returns (exec_fold (total_row t cur (int i)) [0..int i] oth) (\<lambda>oth. holds_row n oth (Suc i) (least_sum t i))"
      by (rule fill_row [OF c(2) i(2)]) (rule total_row_least [OF t(1) c(1) i(1) i(2) [unfolded n_def] n_def [symmetric]])
    then show "returns (total_step t (int i) (cur, oth)) (\<lambda>(cur, oth). holds_row n cur (Suc i) (least_sum t i) \<and> length oth = n)"
      using c(1) by (auto simp: total_step_def holds_row_length elim!: returns_mono)
  qed (use n in auto)
  then obtain cur oth where dp: "exec_fold (total_step t) [1..int n - 1] (?cur, replicate n None) = Ret (cur, oth)" "holds_row n cur n ?f"
    by (auto simp: returns_iff)
  have "returns (exec_fold (\<lambda>i result. exec_bind (cell cur i) (\<lambda>v. Ret (min result v))) [1..int n - 1] (?f 0))
      (\<lambda>r. r = Min (?f ` {..<nat (int n - 1 + 1)}))"
  proof (rule exec_fold_upto [where P = "\<lambda>i r. r = Min (?f ` {..<nat i})"])
    fix i r assume i: "1 \<le> i" "i \<le> int n - 1" "r = Min (?f ` {..<nat i})"
    have "{..<nat (i + 1)} = insert (nat i) {..<nat i}" using i(1) by (auto simp: nat_add_distrib)
    moreover have "{..<nat i} \<noteq> {}" using i(1) by (auto simp: lessThan_empty_iff)
    ultimately show "returns (exec_bind (cell cur i) (\<lambda>v. Ret (min r v))) (\<lambda>r. r = Min (?f ` {..<nat (i + 1)}))"
      using i dp(2) by (simp add: min.commute)
  qed (use n in \<open>auto simp: lessThan_Suc\<close>)
  then have loop: "exec_fold (\<lambda>i result. exec_bind (cell cur i) (\<lambda>v. Ret (min result v))) [1..int n - 1] (?f 0) = Ret (Min (?f ` {..<n}))"
    by (simp add: returns_iff)
  have "Min (?f ` {..<n}) = Min (\<Union>j < n. path_sums t (n - 1) j)"
    unfolding least_sum_def
  proof (rule Min_eqI [symmetric])
    let ?U = "\<Union>j < n. path_sums t (n - 1) j"
    have ne: "path_sums t (n - 1) j \<noteq> {}" if "j < n" for j using path_sums_nonempty [of j "n - 1" t] that by simp
    show "finite ?U" by simp
    show "Min ((\<lambda>j. Min (path_sums t (n - 1) j)) ` {..<n}) \<in> ?U"
    proof -
      have "Min ((\<lambda>j. Min (path_sums t (n - 1) j)) ` {..<n}) \<in> (\<lambda>j. Min (path_sums t (n - 1) j)) ` {..<n}" using n by (intro Min_in) (auto simp: lessThan_empty_iff)
      then obtain j where j: "j < n" "Min ((\<lambda>j. Min (path_sums t (n - 1) j)) ` {..<n}) = Min (path_sums t (n - 1) j)" by auto
      then show ?thesis using Min_in [OF path_sums_finite ne [OF j(1)]] unfolding j(2) by blast
    qed
    fix y assume "y \<in> ?U"
    then obtain j where j: "j < n" "y \<in> path_sums t (n - 1) j" by auto
    then have "Min ((\<lambda>j. Min (path_sums t (n - 1) j)) ` {..<n}) \<le> Min (path_sums t (n - 1) j)" by (intro Min_le) auto
    also have "\<dots> \<le> y" using j(2) by simp
    finally show "Min ((\<lambda>j. Min (path_sums t (n - 1) j)) ` {..<n}) \<le> y" .
  qed
  then show ?thesis using n dp t0(1) loop unfolding minimumTotal_def Let_def n_def [symmetric]
    by (auto simp: two_rows_def n_def [symmetric])
qed

section \<open>Decodings\<close>

text \<open>
  The decodings of a string of digits: the lists of numbers from 1 to 26 whose decimal notations, joined, are
  the string.
\<close>

definition decimal :: "nat \<Rightarrow> int list" where
  "decimal c = (if c < 10 then [48 + int c] else [48 + int (c div 10), 48 + int (c mod 10)])"

definition decodings :: "int list \<Rightarrow> nat list set" where
  "decodings s = {cs. set cs \<subseteq> {1..26} \<and> concat (map decimal cs) = s}"

definition digit_string :: "int list \<Rightarrow> bool" where
  "digit_string s \<longleftrightarrow> (\<forall>c \<in> set s. 48 \<le> c \<and> c \<le> 57)"

lemma decimal_nonempty [simp]: "decimal c \<noteq> []"
  by (simp add: decimal_def)

lemma decodings_Nil: "decodings [] = {[]}"
  by (auto simp: decodings_def)

text \<open>The last code is the last digit, or the number of the last two.\<close>

lemma last_code_one: "1 \<le> c \<Longrightarrow> c \<le> 26 \<Longrightarrow> c < 10 \<Longrightarrow> (u @ decimal c = s @ [x]) = (u = s \<and> x = 48 + int c)"
  by (auto simp: decimal_def)

lemma last_code_two: "c \<ge> 10 \<Longrightarrow> c \<le> 26 \<Longrightarrow> (u @ decimal c = s @ [y, x]) = (u = s \<and> y = 48 + int (c div 10) \<and> x = 48 + int (c mod 10))"
  by (auto simp: decimal_def)

lemma decodings_snoc:
  assumes "48 \<le> x" "x \<le> 57"
  shows "decodings (s @ [x]) =
    (if x \<noteq> 48 then (\<lambda>cs. cs @ [nat (x - 48)]) ` decodings s else {}) \<union>
    (if s \<noteq> [] \<and> last s \<ge> 48 \<and> last s \<le> 57 \<and> last s \<noteq> 48 \<and> (last s - 48) * 10 + x - 48 \<le> 26
     then (\<lambda>cs. cs @ [nat ((last s - 48) * 10 + x - 48)]) ` decodings (butlast s) else {})" (is "_ = ?A \<union> ?B")
proof (intro equalityI subsetI)
  fix ds assume "ds \<in> decodings (s @ [x])"
  then have ds: "set ds \<subseteq> {1..26}" "concat (map decimal ds) = s @ [x]" by (auto simp: decodings_def)
  then obtain cs c where c: "ds = cs @ [c]" by (cases ds rule: rev_cases) auto
  have c26: "1 \<le> c" "c \<le> 26" "set cs \<subseteq> {1..26}" using ds(1) c by auto
  show "ds \<in> ?A \<union> ?B"
  proof (cases "c < 10")
    case True
    then have "concat (map decimal cs) = s" "x = 48 + int c" using ds(2) c last_code_one [OF c26(1,2)] by auto
    then show ?thesis using c c26 by (auto simp: decodings_def)
  next
    case False
    then obtain s' y where s: "s = s' @ [y]" using ds(2) c by (cases s rule: rev_cases) (auto simp: decimal_def)
    then have e: "concat (map decimal cs) = s'" "y = 48 + int (c div 10)" "x = 48 + int (c mod 10)"
      using ds(2) c last_code_two [of c] False c26 by auto
    have "int c = int (c div 10 * 10 + c mod 10)" by simp
    then have "(y - 48) * 10 + x - 48 = int c" unfolding e(2,3) of_nat_add of_nat_mult by simp
    moreover have "c div 10 \<noteq> 0" "c div 10 \<le> 9" using False c26 by auto
    ultimately show ?thesis using c c26 s e(1,2) by (auto simp: decodings_def)
  qed
next
  fix ds assume "ds \<in> ?A \<union> ?B"
  then show "ds \<in> decodings (s @ [x])"
  proof
    assume "ds \<in> ?A"
    then obtain cs where "x \<noteq> 48" "ds = cs @ [nat (x - 48)]" "cs \<in> decodings s" by (auto split: if_splits)
    then show ?thesis using assms by (auto simp: decodings_def decimal_def)
  next
    assume "ds \<in> ?B"
    then obtain cs where b: "s \<noteq> []" "last s \<ge> 48" "last s \<le> 57" "last s \<noteq> 48" "(last s - 48) * 10 + x - 48 \<le> 26"
        "ds = cs @ [nat ((last s - 48) * 10 + x - 48)]" "cs \<in> decodings (butlast s)" by (auto split: if_splits)
    let ?v = "(last s - 48) * 10 + x - 48"
    have v: "10 \<le> ?v" "?v div 10 = last s - 48" "?v mod 10 = x - 48" using b(2-4) assms by presburger+
    then have "int (nat ?v div 10) = last s - 48" "int (nat ?v mod 10) = x - 48" by (simp_all add: zdiv_int zmod_int)
    moreover have "s = butlast s @ [last s]" using b(1) by simp
    ultimately have "decimal (nat ?v) = [last s, x]" using v(1) by (simp add: decimal_def)
    then show ?thesis using b v(1) \<open>s = butlast s @ [last s]\<close> by (auto simp: decodings_def)
  qed
qed

lemma decodings_finite: "digit_string s \<Longrightarrow> finite (decodings s)"
proof (induction "length s" arbitrary: s rule: less_induct)
  case less
  show ?case
  proof (cases s rule: rev_cases)
    case (snoc u x)
    have "digit_string u" "digit_string (butlast u)" "48 \<le> x" "x \<le> 57"
      using less(2) snoc by (auto simp: digit_string_def dest: in_set_butlastD)
    then show ?thesis using less(1) [of u] less(1) [of "butlast u"] snoc by (simp add: decodings_snoc)
  qed (simp add: decodings_Nil)
qed

definition decode_count :: "int list \<Rightarrow> nat \<Rightarrow> int" where
  "decode_count s k = int (card (decodings (take k s)))"

definition two_digits :: "int list \<Rightarrow> nat \<Rightarrow> bool" where
  "two_digits s k \<longleftrightarrow> 0 < k \<and> s ! (k - 1) \<noteq> 48 \<and> (s ! (k - 1) - 48) * 10 + s ! k - 48 \<le> 26"

lemma decode_count_Suc:
  assumes "digit_string s" "k < length s"
  shows "decode_count s (Suc k) =
    (if s ! k \<noteq> 48 then decode_count s k else 0) + (if two_digits s k then decode_count s (k - 1) else 0)"
proof -
  let ?u = "take k s" and ?x = "s ! k"
  have x: "48 \<le> ?x" "?x \<le> 57" using assms by (auto simp: digit_string_def)
  have du: "digit_string ?u" "digit_string (butlast ?u)"
    using assms(1) by (auto simp: digit_string_def dest: in_set_takeD in_set_butlastD)
  have bl: "butlast ?u = take (k - 1) s" using assms(2) by (simp add: butlast_take)
  have lu: "last ?u = s ! (k - 1)" if "0 < k" using that assms(2) by (subst last_conv_nth) auto
  have cond: "(?u \<noteq> [] \<and> last ?u \<ge> 48 \<and> last ?u \<le> 57 \<and> last ?u \<noteq> 48 \<and> (last ?u - 48) * 10 + ?x - 48 \<le> 26) = two_digits s k"
    using lu assms by (cases "k = 0") (auto simp: two_digits_def digit_string_def)
  let ?A = "if ?x \<noteq> 48 then (\<lambda>cs. cs @ [nat (?x - 48)]) ` decodings ?u else {}"
  let ?B = "if two_digits s k then (\<lambda>cs. cs @ [nat ((last ?u - 48) * 10 + ?x - 48)]) ` decodings (take (k - 1) s) else {}"
  have un: "decodings (take (Suc k) s) = ?A \<union> ?B"
    using decodings_snoc [OF x, of ?u] assms(2) unfolding cond bl by (simp add: take_Suc_conv_app_nth)
  have fin: "finite (decodings ?u)" "finite (decodings (take (k - 1) s))"
    using decodings_finite [OF du(1)] decodings_finite [OF du(2)] bl by simp_all
  have "nat (?x - 48) \<noteq> nat ((last ?u - 48) * 10 + ?x - 48)" if "two_digits s k"
  proof -
    have "0 < k" "last ?u \<noteq> 48" "48 \<le> last ?u" using that lu assms by (auto simp: two_digits_def digit_string_def)
    then show ?thesis using x by (simp add: nat_eq_iff)
  qed
  then have "?A \<inter> ?B = {}" by auto
  moreover have "card ?A = (if ?x \<noteq> 48 then card (decodings ?u) else 0)" "card ?B = (if two_digits s k then card (decodings (take (k - 1) s)) else 0)"
    by (auto intro!: card_image inj_onI)
  ultimately show ?thesis using fin unfolding decode_count_def un by (subst card_Un_disjoint) auto
qed

lemma decode_step_count:
  assumes s: "digit_string s" "\<And>k. k \<le> length s \<Longrightarrow> int_ok (decode_count s k)"
    and i: "i < length s" and dp: "holds_row (length s) dp i (\<lambda>j. decode_count s (Suc j))"
  shows "decode_step s (int i) dp = Ret (dp[i := Some (decode_count s (Suc i))])"
proof -
  have len: "length dp = length s" using dp by (simp add: holds_row_def)
  have c: "cell (dp[i := Some v]) (int i) = Ret v" for v using len i by (simp add: cell_def)
  have row: "holds_row (length s) (dp[i := Some v]) i (\<lambda>j. decode_count s (Suc j))" for v using dp by (auto simp: holds_row_def)
  have zero: "decode_count s 0 = 1" by (simp add: decode_count_def decodings_Nil)
  have prev: "(if 0 < i then cell (dp[i := Some v]) (int i - 1) else Ret 1) = Ret (decode_count s i)" for v
  proof (cases "i = 0")
    case False
    then have "nat (int i - 1) < i" "Suc (nat (int i - 1)) = i" "0 \<le> int i - 1" by auto
    then show ?thesis using False i cell_holds [OF row, of "int i - 1" v] by simp
  qed (simp add: zero)
  have prev2: "(if Suc 0 < i then cell (dp[i := Some v]) (int i - 2) else Ret 1) = Ret (decode_count s (i - 1))" if "0 < i" for v
  proof (cases "i = 1")
    case False
    then have "nat (int i - 2) < i" "Suc (nat (int i - 2)) = i - 1" "0 \<le> int i - 2" using that by auto
    then show ?thesis using False that i cell_holds [OF row, of "int i - 2" v] by simp
  qed (simp add: zero)
  have ok: "int_ok (decode_count s i)" "int_ok (decode_count s (Suc i))" using s(2) i by auto
  have at: "vec_at s (int i) = Ret (s ! i)" "vec_put dp (int i) (Some v) = Ret (dp[i := Some v])"
    "vec_put (dp[i := w]) (int i) (Some v) = Ret (dp[i := Some v])" for v w using i len by simp_all
  note rec = decode_count_Suc [OF s(1) i]
  show ?thesis
  proof (cases "0 < i")
    case False
    then have "i = 0" by simp
    then show ?thesis using ok rec zero i len by (auto simp: decode_step_def two_digits_def cell_def vec_at_def vec_put_def)
  next
    case True
    have "48 \<le> s ! (i - 1)" "s ! (i - 1) \<le> 57" "48 \<le> s ! i" "s ! i \<le> 57" using s(1) i by (auto simp: digit_string_def)
    then have v: "int_ok ((s ! (i - 1) - 48) * 10 + s ! i - 48)" by (auto simp: int_ok_def)
    have "vec_at s (int i - 1) = Ret (s ! (i - 1))" using True i by (simp add: vec_at_def)
    note at1 = this
    have p1: "cell (dp[i := Some v]) (int i - 1) = Ret (decode_count s i)" for v using prev [of v] True by simp
    show ?thesis
    proof (cases "Suc 0 < i")
      case True
      have "cell (dp[i := Some v]) (int i - 2) = Ret (decode_count s (i - 1))" for v using prev2 [of v] True by simp
      then show ?thesis using True ok v rec at1 by (auto simp: decode_step_def two_digits_def c p1 at)
    next
      case False
      then have "decode_count s (i - 1) = 1" using zero by simp
      then show ?thesis using False \<open>0 < i\<close> ok v rec at1 by (auto simp: decode_step_def two_digits_def c p1 at)
    qed
  qed
qed

lemma numDecodings_returns:
  assumes "digit_string s" "s \<noteq> []" "\<And>k. k \<le> length s \<Longrightarrow> int_ok (decode_count s k)"
  shows "numDecodings s = Ret (int (card (decodings s)))"
proof -
  define n where "n = length s"
  have n: "1 \<le> n" using assms(2) by (cases s) (auto simp: n_def)
  let ?f = "\<lambda>j. decode_count s (Suc j)"
  have "returns (exec_fold (decode_step s) [0..int (n - 1)] (replicate n None)) (\<lambda>dp. holds_row n dp (Suc (n - 1)) ?f)"
    using n decode_step_count [OF assms(1,3)] by (intro fill_row) (auto simp: n_def)
  then obtain dp where dp: "exec_fold (decode_step s) [0..int n - 1] (replicate n None) = Ret dp" "holds_row n dp n ?f"
    using n by (auto simp: returns_iff of_nat_diff)
  have "cell dp (int n - 1) = Ret (?f (n - 1))" using dp(2) n by simp
  then show ?thesis using dp n unfolding numDecodings_def Let_def n_def [symmetric]
    by (simp add: decode_count_def) (simp add: n_def)
qed

section \<open>Interleavings\<close>

definition mat_holds :: "nat \<Rightarrow> nat \<Rightarrow> 'a list list \<Rightarrow> bool" where
  "mat_holds n m dp \<longleftrightarrow> length dp = n \<and> (\<forall>i < n. length (dp ! i) = m)"

lemma mat_simps [simp]:
  assumes "mat_holds n m dp" "0 \<le> i" "nat i < n" "0 \<le> j" "nat j < m"
  shows "mat_at dp i j = Ret (dp ! nat i ! nat j)" "mat_put dp i j x = Ret (dp[nat i := (dp ! nat i)[nat j := x]])"
  using assms by (auto simp: mat_holds_def mat_at_def mat_put_def)

lemma mat_holds_put: "mat_holds n m dp \<Longrightarrow> mat_holds n m (dp[i := (dp ! i)[j := x]])"
  by (cases "i < length dp") (auto simp: mat_holds_def nth_list_update list_update_beyond)

lemma mat_nth_put:
  "mat_holds n m dp \<Longrightarrow> i < n \<Longrightarrow> j < m \<Longrightarrow> a < n \<Longrightarrow> b < m \<Longrightarrow>
   dp[i := (dp ! i)[j := x]] ! a ! b = (if a = i \<and> b = j then x else dp ! a ! b)"
  by (auto simp: mat_holds_def nth_list_update)

text \<open>The entry of the table: a prefix of \<open>s3\<close> is an interleaving of prefixes of \<open>s1\<close> and \<open>s2\<close>.\<close>

definition weaves :: "'a list \<Rightarrow> 'a list \<Rightarrow> 'a list \<Rightarrow> nat \<Rightarrow> nat \<Rightarrow> bool" where
  "weaves s1 s2 s3 i j \<longleftrightarrow> take (i + j) s3 \<in> shuffles (take i s1) (take j s2)"

lemma shuffles_single: "ys @ [z] \<in> shuffles [z] ys"
  by (induction ys) auto

lemma shuffles_snoc_left: "zs \<in> shuffles xs ys \<Longrightarrow> zs @ [z] \<in> shuffles (xs @ [z]) ys"
  by (induction xs ys arbitrary: zs rule: shuffles.induct) (auto simp: shuffles_single)

lemma shuffles_rev: "zs \<in> shuffles xs ys \<Longrightarrow> rev zs \<in> shuffles (rev xs) (rev ys)"
proof (induction zs arbitrary: xs ys)
  case (Cons z zs)
  then consider xs' where "xs = z # xs'" "zs \<in> shuffles xs' ys" | ys' where "ys = z # ys'" "zs \<in> shuffles xs ys'"
    by (auto simp: Cons_in_shuffles_iff neq_Nil_conv)
  then show ?case
  proof cases
    case 1
    then show ?thesis using shuffles_snoc_left [OF Cons.IH [OF 1(2)], of z] by simp
  next
    case 2
    then show ?thesis using shuffles_snoc_left [of "rev zs" "rev ys'" "rev xs" z] Cons.IH [OF 2(2)]
      by (simp add: shuffles_commutes [of "rev xs"])
  qed
qed simp

lemma rev_in_shuffles: "rev zs \<in> shuffles (rev xs) (rev ys) \<longleftrightarrow> zs \<in> shuffles xs ys"
  using shuffles_rev [of zs xs ys] shuffles_rev [of "rev zs" "rev xs" "rev ys"] by auto

lemma shuffles_snoc:
  "zs @ [z] \<in> shuffles (xs @ [x]) (ys @ [y]) \<longleftrightarrow> z = x \<and> zs \<in> shuffles xs (ys @ [y]) \<or> z = y \<and> zs \<in> shuffles (xs @ [x]) ys"
proof -
  have "zs @ [z] \<in> shuffles (xs @ [x]) (ys @ [y]) \<longleftrightarrow> rev (zs @ [z]) \<in> shuffles (rev (xs @ [x])) (rev (ys @ [y]))"
    by (rule rev_in_shuffles [symmetric])
  also have "\<dots> \<longleftrightarrow> z = x \<and> rev zs \<in> shuffles (rev xs) (rev (ys @ [y])) \<or> z = y \<and> rev zs \<in> shuffles (rev (xs @ [x])) (rev ys)"
    by (auto simp: image_iff)
  finally show ?thesis by (simp only: rev_in_shuffles)
qed

lemma weaves_Suc:
  assumes "i < length s1" "j < length s2" "Suc (i + j) < length s3"
  shows "weaves s1 s2 s3 (Suc i) (Suc j) \<longleftrightarrow>
    s1 ! i = s3 ! Suc (i + j) \<and> weaves s1 s2 s3 i (Suc j) \<or> s2 ! j = s3 ! Suc (i + j) \<and> weaves s1 s2 s3 (Suc i) j"
proof -
  have "take (Suc i + Suc j) s3 = take (Suc (i + j)) s3 @ [s3 ! Suc (i + j)]" using assms(3) by (simp add: take_Suc_conv_app_nth)
  then show ?thesis using assms(1,2) unfolding weaves_def
    by (auto simp: take_Suc_conv_app_nth [of i s1] take_Suc_conv_app_nth [of j s2] shuffles_snoc)
qed

lemma weaves_border:
  assumes "i \<le> length s1" "i \<le> length s3"
  shows "weaves s1 s2 s3 i 0 \<longleftrightarrow> take i s1 = take i s3"
  using assms by (auto simp: weaves_def)

lemma weaves_border2:
  assumes "j \<le> length s2" "j \<le> length s3"
  shows "weaves s1 s2 s3 0 j \<longleftrightarrow> take j s2 = take j s3"
  using assms by (auto simp: weaves_def)

text \<open>The part of the table that is final: \<open>done_to i j\<close> are the borders and the cells before \<open>(i, j)\<close>; the rest is false.\<close>

definition table_ok :: "'a list \<Rightarrow> 'a list \<Rightarrow> 'a list \<Rightarrow> (nat \<Rightarrow> nat \<Rightarrow> bool) \<Rightarrow> bool list list \<Rightarrow> bool" where
  "table_ok s1 s2 s3 D dp \<longleftrightarrow> mat_holds (Suc (length s1)) (Suc (length s2)) dp \<and>
     (\<forall>i \<le> length s1. \<forall>j \<le> length s2. dp ! i ! j = (D i j \<and> weaves s1 s2 s3 i j))"

lemma table_put:
  assumes "table_ok s1 s2 s3 D dp" "i \<le> length s1" "j \<le> length s2" "x = weaves s1 s2 s3 i j"
    and "\<And>a b. D' a b = (D a b \<or> a = i \<and> b = j)"
  shows "table_ok s1 s2 s3 D' (dp[i := (dp ! i)[j := x]])"
  using assms by (auto simp: table_ok_def mat_holds_put mat_nth_put split: if_splits)

lemma table_at:
  "table_ok s1 s2 s3 D dp \<Longrightarrow> i \<le> length s1 \<Longrightarrow> j \<le> length s2 \<Longrightarrow> mat_at dp (int i) (int j) = Ret (D i j \<and> weaves s1 s2 s3 i j)"
  by (auto simp: table_ok_def)

lemma interleave_step_ok:
  assumes t: "table_ok s1 s2 s3 D dp" and i: "1 \<le> i" "i \<le> length s1" and j: "1 \<le> j" "j \<le> length s2" and l: "length s1 + length s2 = length s3"
    and D: "D (i - 1) j" "D i (j - 1)" "\<not> D i j"
  shows "\<exists>dp'. interleave_step s1 s2 s3 (int i) (int j) dp = Ret dp' \<and> table_ok s1 s2 s3 (\<lambda>a b. D a b \<or> a = i \<and> b = j) dp'"
proof -
  obtain i' j' where ij: "i = Suc i'" "j = Suc j'" using i j by (metis Suc_le_D One_nat_def)
  have m: "mat_holds (Suc (length s1)) (Suc (length s2)) dp" using t by (simp add: table_ok_def)
  have b: "mat_at dp (int i - 1) (int j) = Ret (weaves s1 s2 s3 i' j)" "mat_at dp (int i) (int j - 1) = Ret (weaves s1 s2 s3 i j')"
    using table_at [OF t, of i' j] table_at [OF t, of i j'] D i j ij by auto
  have at: "vec_at s1 (int i - 1) = Ret (s1 ! i')" "vec_at s2 (int j - 1) = Ret (s2 ! j')" "vec_at s3 (int i + int j - 1) = Ret (s3 ! Suc (i' + j'))"
    using i j l ij by (auto simp: vec_at_def nat_add_distrib)
  have p: "mat_put dp (int i) (int j) True = Ret (dp[i := (dp ! i)[j := True]])" using m i j by simp
  have s: "weaves s1 s2 s3 i j \<longleftrightarrow> s1 ! i' = s3 ! Suc (i' + j') \<and> weaves s1 s2 s3 i' j \<or> s2 ! j' = s3 ! Suc (i' + j') \<and> weaves s1 s2 s3 i j'"
    using weaves_Suc [of i' s1 j' s2 s3] i j l ij by simp
  have "interleave_step s1 s2 s3 (int i) (int j) dp = Ret (if weaves s1 s2 s3 i j then dp[i := (dp ! i)[j := True]] else dp)"
    unfolding interleave_step_def at s using b p by auto
  moreover have "table_ok s1 s2 s3 (\<lambda>a b. D a b \<or> a = i \<and> b = j) (if weaves s1 s2 s3 i j then dp[i := (dp ! i)[j := True]] else dp)"
    using table_put [OF t i(2) j(2), of True] t by (auto simp: table_ok_def)
  ultimately show ?thesis by blast
qed

lemma border_left:
  assumes l: "length s1 + length s2 = length s3" and dp: "table_ok s1 s2 s3 (\<lambda>a b. a = 0 \<and> b = 0) dp"
  shows "returns (exec_fold (\<lambda>i dp. mat_put dp i 0 (take (nat i) s1 = take (nat i) s3)) [1..int (length s1)] dp)
    (table_ok s1 s2 s3 (\<lambda>a b. a \<le> length s1 \<and> b = 0))"
proof -
  let ?D = "\<lambda>i a b. (a :: nat) < nat i \<and> b = (0 :: nat)"
  have "returns (exec_fold (\<lambda>i dp. mat_put dp i 0 (take (nat i) s1 = take (nat i) s3)) [1..int (length s1)] dp)
      (table_ok s1 s2 s3 (?D (int (length s1) + 1)))"
  proof (rule exec_fold_upto [where P = "\<lambda>i. table_ok s1 s2 s3 (?D i)"])
    fix i dp assume i: "1 \<le> i" "i \<le> int (length s1)" and dp: "table_ok s1 s2 s3 (?D i) dp"
    have "mat_holds (Suc (length s1)) (Suc (length s2)) dp" using dp by (simp add: table_ok_def)
    then have "mat_put dp i 0 (take (nat i) s1 = take (nat i) s3) = Ret (dp[nat i := (dp ! nat i)[0 := take (nat i) s1 = take (nat i) s3]])"
      using mat_simps(2) [of _ _ dp i 0] i by simp
    moreover have "table_ok s1 s2 s3 (?D (i + 1)) (dp[nat i := (dp ! nat i)[0 := take (nat i) s1 = take (nat i) s3]])"
      using weaves_border [of "nat i" s1 s3 s2] i l by (intro table_put [OF dp]) (auto simp: nat_add_distrib)
    ultimately show "returns (mat_put dp i 0 (take (nat i) s1 = take (nat i) s3)) (table_ok s1 s2 s3 (?D (i + 1)))" by simp
  qed (use dp in auto)
  then show ?thesis by (simp add: nat_add_distrib less_Suc_eq_le)
qed

lemma border_top:
  assumes l: "length s1 + length s2 = length s3" and dp: "table_ok s1 s2 s3 (\<lambda>a b. a \<le> length s1 \<and> b = 0) dp"
  shows "returns (exec_fold (\<lambda>i dp. mat_put dp 0 i (take (nat i) s2 = take (nat i) s3)) [1..int (length s2)] dp)
    (table_ok s1 s2 s3 (\<lambda>a b. a \<le> length s1 \<and> b = 0 \<or> a = 0 \<and> b \<le> length s2))"
proof -
  let ?D = "\<lambda>j a b. a \<le> length s1 \<and> b = 0 \<or> a = 0 \<and> (b :: nat) < nat j"
  have "returns (exec_fold (\<lambda>i dp. mat_put dp 0 i (take (nat i) s2 = take (nat i) s3)) [1..int (length s2)] dp)
      (table_ok s1 s2 s3 (?D (int (length s2) + 1)))"
  proof (rule exec_fold_upto [where P = "\<lambda>i. table_ok s1 s2 s3 (?D i)"])
    fix j dp assume j: "1 \<le> j" "j \<le> int (length s2)" and dp: "table_ok s1 s2 s3 (?D j) dp"
    have "mat_holds (Suc (length s1)) (Suc (length s2)) dp" using dp by (simp add: table_ok_def)
    then have "mat_put dp 0 j (take (nat j) s2 = take (nat j) s3) = Ret (dp[0 := (dp ! 0)[nat j := take (nat j) s2 = take (nat j) s3]])"
      using mat_simps(2) [of _ _ dp 0 j] j by simp
    moreover have "table_ok s1 s2 s3 (?D (j + 1)) (dp[0 := (dp ! 0)[nat j := take (nat j) s2 = take (nat j) s3]])"
      using weaves_border2 [of "nat j" s2 s3 s1] j l by (intro table_put [OF dp]) (auto simp: nat_add_distrib)
    ultimately show "returns (mat_put dp 0 j (take (nat j) s2 = take (nat j) s3)) (table_ok s1 s2 s3 (?D (j + 1)))" by simp
  qed (use dp in \<open>auto simp: table_ok_def\<close>)
  then show ?thesis by (simp add: nat_add_distrib less_Suc_eq_le)
qed

lemma interleave_rows:
  assumes l: "length s1 + length s2 = length s3"
    and dp: "table_ok s1 s2 s3 (\<lambda>a b. a \<le> length s1 \<and> b = 0 \<or> a = 0 \<and> b \<le> length s2) dp"
  shows "returns (exec_fold (\<lambda>i dp. exec_fold (\<lambda>j dp. interleave_step s1 s2 s3 i j dp) [1..int (length s2)] dp) [1..int (length s1)] dp)
    (table_ok s1 s2 s3 (\<lambda>a b. a \<le> length s1 \<and> b \<le> length s2))"
proof -
  let ?n = "length s1" and ?m = "length s2" and ?ok = "table_ok s1 s2 s3"
  let ?D = "\<lambda>i j a b. a \<le> ?n \<and> b = 0 \<or> (a :: nat) < nat i \<and> b \<le> ?m \<or> a = nat i \<and> (b :: nat) < nat j"
  have "returns (exec_fold (\<lambda>i dp. exec_fold (\<lambda>j dp. interleave_step s1 s2 s3 i j dp) [1..int ?m] dp) [1..int ?n] dp) (?ok (?D (int ?n + 1) 1))"
  proof (rule exec_fold_upto [where P = "\<lambda>i. ?ok (?D i 1)"])
    fix i dp assume i: "1 \<le> i" "i \<le> int ?n" and dp: "?ok (?D i 1) dp"
    have "returns (exec_fold (\<lambda>j dp. interleave_step s1 s2 s3 i j dp) [1..int ?m] dp) (?ok (?D i (int ?m + 1)))"
    proof (rule exec_fold_upto [where P = "\<lambda>j. ?ok (?D i j)"])
      fix j dp assume j: "1 \<le> j" "j \<le> int ?m" and dp: "?ok (?D i j) dp"
      have "\<exists>dp'. interleave_step s1 s2 s3 (int (nat i)) (int (nat j)) dp = Ret dp' \<and> ?ok (\<lambda>a b. ?D i j a b \<or> a = nat i \<and> b = nat j) dp'"
        using i j l by (intro interleave_step_ok [OF dp]) auto
      then obtain dp' where "interleave_step s1 s2 s3 i j dp = Ret dp'" "?ok (\<lambda>a b. ?D i j a b \<or> a = nat i \<and> b = nat j) dp'"
        using i j by auto
      moreover have "(\<lambda>a b. ?D i j a b \<or> a = nat i \<and> b = nat j) = ?D i (j + 1)" using j by (auto simp: fun_eq_iff nat_add_distrib)
      ultimately show "returns (interleave_step s1 s2 s3 i j dp) (?ok (?D i (j + 1)))" by simp
    qed (use dp in auto)
    moreover have "?ok (?D i (int ?m + 1)) d \<Longrightarrow> ?ok (?D (i + 1) 1) d" for d
      unfolding table_ok_def using i by (auto simp: nat_add_distrib less_Suc_eq)
    ultimately show "returns (exec_fold (\<lambda>j dp. interleave_step s1 s2 s3 i j dp) [1..int ?m] dp) (?ok (?D (i + 1) 1))"
      by (rule returns_mono)
  qed (use dp in \<open>auto simp: table_ok_def\<close>)
  then show ?thesis by (elim returns_mono) (auto simp: table_ok_def nat_add_distrib)
qed

lemma isInterleave_returns: "isInterleave s1 s2 s3 = Ret (s3 \<in> shuffles s1 s2)"
proof (cases "length s1 + length s2 = length s3")
  case False
  then have "int (length s1) + int (length s2) \<noteq> int (length s3)" by linarith
  moreover have "s3 \<notin> shuffles s1 s2" using False length_shuffles [of s3 s1 s2] by auto
  ultimately show ?thesis by (simp add: isInterleave_def Let_def)
next
  case l: True
  let ?n = "length s1" and ?m = "length s2" and ?init = "replicate (Suc (length s1)) (replicate (Suc (length s2)) False)"
  let ?dp0 = "?init[0 := (?init ! 0)[0 := True]]"
  have "table_ok s1 s2 s3 (\<lambda>a b. a = 0 \<and> b = 0) ?dp0"
    by (rule table_put [where D = "\<lambda>_ _. False"]) (auto simp: table_ok_def mat_holds_def weaves_def nth_Cons')
  from border_left [OF l this] obtain dp1 where dp1: "exec_fold (\<lambda>i dp. mat_put dp i 0 (take (nat i) s1 = take (nat i) s3)) [1..int ?n] ?dp0 = Ret dp1"
      "table_ok s1 s2 s3 (\<lambda>a b. a \<le> ?n \<and> b = 0) dp1" by (auto simp: returns_iff)
  from border_top [OF l dp1(2)] obtain dp2 where dp2: "exec_fold (\<lambda>i dp. mat_put dp 0 i (take (nat i) s2 = take (nat i) s3)) [1..int ?m] dp1 = Ret dp2"
      "table_ok s1 s2 s3 (\<lambda>a b. a \<le> ?n \<and> b = 0 \<or> a = 0 \<and> b \<le> ?m) dp2" by (auto simp: returns_iff)
  from interleave_rows [OF l dp2(2)] obtain dp3
    where dp3: "exec_fold (\<lambda>i dp. exec_fold (\<lambda>j dp. interleave_step s1 s2 s3 i j dp) [1..int ?m] dp) [1..int ?n] dp2 = Ret dp3"
      "table_ok s1 s2 s3 (\<lambda>a b. a \<le> ?n \<and> b \<le> ?m) dp3" by (auto simp: returns_iff)
  have "mat_at dp3 (int ?n) (int ?m) = Ret (s3 \<in> shuffles s1 s2)" using table_at [OF dp3(2), of ?n ?m] l by (simp add: weaves_def)
  moreover have "mat_put ?init 0 0 True = Ret ?dp0" by (simp add: mat_put_def)
  moreover have "int ?n + int ?m = int (length s3)" "nat (int ?n + 1) = Suc ?n" "nat (int ?m + 1) = Suc ?m" using l by auto
  ultimately show ?thesis unfolding isInterleave_def Let_def by (simp only: dp1(1) dp2(1) dp3(1) exec_bind.simps if_False simp_thms)
qed

section \<open>Distinct subsequences\<close>

text \<open>The inner loop always writes one cell behind the row.\<close>

lemma distinct_row_undef: "length oth = m \<Longrightarrow> undef_or (distinct_row s t cur i j oth) (\<lambda>ys. length ys = m)"
proof -
  assume o: "length oth = m"
  have str: "undef_or (str_at u k) (\<lambda>_. True)" for u k by (simp add: str_at_def undef_or_def vec_at_def)
  have add: "undef_or (exec_bind (vec_at ys j) (\<lambda>a. exec_bind b (\<lambda>b. exec_bind (c_int (a + b)) (vec_put ys j)))) (\<lambda>zs. length zs = m)"
    if "length ys = m" "undef_or b (\<lambda>_. True)" for ys b
    using that by (intro undef_or_bind [OF undef_or_basic(2)] undef_or_bind [OF that(2)] undef_or_bind [OF undef_or_basic(4)]) auto
  have "undef_or (vec_put oth j 0) (\<lambda>ys. length ys = m)" using o by simp
  then show ?thesis unfolding distinct_row_def
  proof (rule undef_or_bind)
    fix ys :: "int list" assume ys: "length ys = m"
    have "undef_or (if i \<noteq> j then exec_bind (vec_at ys j) (\<lambda>a. exec_bind (vec_at cur j) (\<lambda>b. exec_bind (c_int (a + b)) (vec_put ys j))) else Ret ys)
        (\<lambda>ys. length ys = m)" using add [OF ys undef_or_basic(2)] ys by (auto simp: undef_or_def)
    then show "undef_or (exec_bind (if i \<noteq> j then exec_bind (vec_at ys j) (\<lambda>a. exec_bind (vec_at cur j) (\<lambda>b. exec_bind (c_int (a + b)) (vec_put ys j))) else Ret ys)
      (\<lambda>oth. exec_bind (str_at s i) (\<lambda>si. exec_bind (str_at t j) (\<lambda>tj. if si = tj then exec_bind (vec_at oth j) (\<lambda>a.
       exec_bind (if j = 0 then Ret 1 else vec_at cur (j - 1)) (\<lambda>b. exec_bind (c_int (a + b)) (vec_put oth j))) else Ret oth)))) (\<lambda>ys. length ys = m)"
    proof (rule undef_or_bind)
      fix zs :: "int list" assume zs: "length zs = m"
      have "undef_or (if j = 0 then Ret 1 else vec_at cur (j - 1)) (\<lambda>_. True)" by (simp add: undef_or_def vec_at_def)
      from add [OF zs this] show "undef_or (exec_bind (str_at s i) (\<lambda>si. exec_bind (str_at t j) (\<lambda>tj. if si = tj then exec_bind (vec_at zs j) (\<lambda>a.
         exec_bind (if j = 0 then Ret 1 else vec_at cur (j - 1)) (\<lambda>b. exec_bind (c_int (a + b)) (vec_put zs j))) else Ret zs))) (\<lambda>ys. length ys = m)"
        using zs by (intro undef_or_bind [OF str]) (auto simp: undef_or_def)
    qed
  qed
qed

lemma distinct_step_undefined: "length oth = length t \<Longrightarrow> distinct_step s t i (cur, oth) = Undefined"
proof -
  assume o: "length oth = length t"
  let ?m = "length t"
  have "undef_or (exec_fold (distinct_row s t cur i) [0..int ?m - 1] oth) (\<lambda>ys. length ys = ?m)"
    using o by (intro undef_or_fold distinct_row_undef)
  moreover have "distinct_row s t cur i (int ?m) ys = Undefined" if "length ys = ?m" for ys
    using that by (simp add: distinct_row_def vec_put_def)
  moreover have "[0..int ?m] = [0..int ?m - 1] @ [int ?m]" by (simp add: upto_rec2)
  ultimately have "exec_fold (distinct_row s t cur i) [0..int ?m] oth = Undefined"
    by (auto simp: exec_fold_snoc undef_or_def returns_iff)
  then show ?thesis by (simp add: distinct_step_def)
qed

lemma numDistinct_undefined: "length t \<le> length s \<Longrightarrow> numDistinct s t = Undefined"
proof (cases s)
  case Nil
  assume "length t \<le> length s"
  with Nil show ?thesis by (simp add: numDistinct_def vec_at_def)
next
  case (Cons c s')
  assume l: "length t \<le> length s"
  have "[0..int (length s) - 1] = 0 # [1..int (length s) - 1]" using Cons by (simp add: upto_rec1)
  then show ?thesis using l distinct_step_undefined [of "replicate (length t) 0" t s 0 "replicate (length t) 0"]
    by (simp add: numDistinct_def Let_def)
qed

section \<open>Properties\<close>

text \<open>
  \<^verbatim>\<open>generate\<close> returns the first \<open>n\<close> rows of Pascal's triangle for every \<open>n\<close> whose entries fit an \<^verbatim>\<open>int\<close>, without reading
  an uninitialised cell.
\<close>

theorem generate_correct:
  "n \<le> 34 \<Longrightarrow> generate (int n) = Ret (map (\<lambda>i. map (\<lambda>j. int (i choose j)) [0..<Suc i]) [0..<n])"
  using generate_returns [of n] by (cases "n = 0") (auto simp: generate_def)

theorem generate_correct_witness: "generate (int 3) = Ret [[1], [1, 1], [1, 2, 1]]"
  using generate_correct [of 3] by (simp add: eval_nat_numeral)

text \<open>
  \<^verbatim>\<open>minimumTotal\<close> returns the least sum of a path from the top of the triangle to its last row.
\<close>

theorem minimumTotal_correct:
  assumes "triangle_ok t" "t \<noteq> []"
  shows "minimumTotal t = Ret (Min (\<Union>j < length t. path_sums t (length t - 1) j))"
  using assms by (rule minimumTotal_returns)

theorem minimumTotal_correct_witness: "minimumTotal [[2], [3, 4]] = Ret (Min (\<Union>j < 2. path_sums [[2], [3, 4]] 1 j))"
proof -
  have "path_sums [[2], [3, 4]] 0 0 = {2}" "path_sums [[2], [3, 4]] 1 0 = {5}" "path_sums [[2], [3, 4]] 1 1 = {6}" by auto
  then have "triangle_ok [[2], [3, 4]]"
    by (auto simp: triangle_ok_def least_sum_def int_ok_def less_Suc_eq le_Suc_eq numeral_2_eq_2 simp del: path_sums.simps)
  from minimumTotal_correct [OF this] show ?thesis by (simp add: numeral_2_eq_2 del: path_sums.simps)
qed

text \<open>
  \<^verbatim>\<open>numDecodings\<close> counts the ways to read a string of digits as numbers from 1 to 26, if the counts fit an \<^verbatim>\<open>int\<close>.
\<close>

theorem numDecodings_correct:
  assumes "digit_string s" "s \<noteq> []" "\<And>k. k \<le> length s \<Longrightarrow> card (decodings (take k s)) < 2 ^ 31"
  shows "numDecodings s = Ret (int (card (decodings s)))"
proof (rule numDecodings_returns [OF assms(1,2)])
  fix k assume "k \<le> length s"
  from assms(3) [OF this] show "int_ok (decode_count s k)" by (simp add: decode_count_def int_ok_def)
qed

theorem numDecodings_correct_witness: "numDecodings [49, 50] = Ret (int (card (decodings [49, 50])))"
proof (rule numDecodings_correct)
  have d: "decodings [49] = {[1]}" "decodings [49, 50] = {[1, 2], [12]}"
    using decodings_snoc [of 49 "[]"] decodings_snoc [of 50 "[49]"] by (auto simp: decodings_Nil)
  fix k assume "k \<le> length [49, 50 :: int]"
  then have "k = 0 \<or> k = 1 \<or> k = 2" by auto
  moreover have "card (decodings (take 0 [49, 50])) = 1" "card (decodings (take 1 [49, 50])) = 1" "card (decodings (take 2 [49, 50])) = 2"
    using d by (simp_all add: decodings_Nil)
  ultimately show "card (decodings (take k [49, 50])) < 2 ^ 31" by (elim disjE) simp_all
qed (simp_all add: digit_string_def)

text \<open>
  \<^verbatim>\<open>isInterleave\<close> decides whether \<open>s3\<close> is an interleaving of \<open>s1\<close> and \<open>s2\<close>; it stays inside its table and its strings.
\<close>

theorem isInterleave_correct: "isInterleave s1 s2 s3 = Ret (s3 \<in> shuffles s1 s2)"
  by (rule isInterleave_returns)

text \<open>
  Two programs write behind their arrays on every run that reaches the loop: \<^verbatim>\<open>getRow\<close> for every row but the first, and
  \<^verbatim>\<open>numDistinct\<close> whenever \<open>t\<close> is not longer than \<open>s\<close>.
\<close>

theorem out_of_bounds: "(1 \<le> n \<longrightarrow> getRow (int n) = Undefined) \<and> (length t \<le> length s \<longrightarrow> numDistinct s t = Undefined)"
  using getRow_undefined [of n] numDistinct_undefined [of t s] by simp

theorem out_of_bounds_witness: "getRow (int 3) = Undefined \<and> numDistinct [99, 99] [99] = Undefined"
  using out_of_bounds [of 3 "[99]" "[99, 99]"] by simp

end
