(* ===== verification/Regions.thy ===== *)
theory Regions
  imports Sperm_Prelude
begin

text \<open>
  \<^verbatim>\<open>surrounded-regions.cc\<close>: the regions of \<^verbatim>\<open>O\<close> that do not touch the border of the board are captured. A recursive
  search marks what can be reached from the border, and the other \<^verbatim>\<open>O\<close>s are flipped. Cells are addressed in the
  array \<^verbatim>\<open>mark\<close> by \<^verbatim>\<open>i * N + j\<close>, where \<^verbatim>\<open>N\<close> is the number of rows. The depth of the recursion is bounded by fuel.
\<close>

section \<open>The program\<close>

definition getIndex :: "int \<Rightarrow> int \<Rightarrow> int \<Rightarrow> int exec" where
  "getIndex N i j = exec_bind (c_int (i * N)) (\<lambda>k. c_int (k + j))"

definition board_at :: "char list list \<Rightarrow> int \<Rightarrow> int \<Rightarrow> char exec" where
  "board_at board i j = exec_bind (vec_at board i) (\<lambda>row. vec_at row j)"

fun solveWithMark :: "nat \<Rightarrow> int \<Rightarrow> int \<Rightarrow> char list list \<Rightarrow> int \<Rightarrow> int \<Rightarrow> int list \<Rightarrow> int list exec" where
  "solveWithMark 0 N M board i j mark = Diverge"
| "solveWithMark (Suc fuel) N M board i j mark =
     (if i < 0 \<or> i \<ge> N then Ret mark
      else if j < 0 \<or> j \<ge> M then Ret mark
      else exec_bind (getIndex N i j) (\<lambda>index.
        exec_bind (vec_at mark index) (\<lambda>m.
        if m \<noteq> 0 then Ret mark
        else exec_bind (board_at board i j) (\<lambda>c.
          if c = CHR ''X'' then Ret mark
          else exec_bind (vec_put mark index 1) (\<lambda>mark.
            exec_bind (solveWithMark fuel N M board (i - 1) j mark) (\<lambda>mark.
            exec_bind (solveWithMark fuel N M board (i + 1) j mark) (\<lambda>mark.
            exec_bind (solveWithMark fuel N M board i (j - 1) mark) (\<lambda>mark.
            solveWithMark fuel N M board i (j + 1) mark))))))))"

definition flipCell :: "int \<Rightarrow> int list \<Rightarrow> int \<Rightarrow> int \<Rightarrow> char list list \<Rightarrow> char list list exec" where
  "flipCell N mark i j board =
     exec_bind (getIndex N i j) (\<lambda>index.
     exec_bind (board_at board i j) (\<lambda>c.
     exec_bind (if c = CHR ''O'' then exec_bind (vec_at mark index) (\<lambda>m. Ret (m \<noteq> 1)) else Ret False) (\<lambda>b.
     if b then exec_bind (vec_at board i) (\<lambda>row. exec_bind (vec_put row j (CHR ''X'')) (vec_put board i)) else Ret board)))"

definition flipWithMark :: "int \<Rightarrow> int \<Rightarrow> int list \<Rightarrow> char list list \<Rightarrow> char list list exec" where
  "flipWithMark N M mark board =
     exec_fold (\<lambda>i board. exec_fold (\<lambda>j board. flipCell N mark i j board) [0..M - 1] board) [0..N - 1] board"

definition markCell :: "nat \<Rightarrow> int \<Rightarrow> int \<Rightarrow> char list list \<Rightarrow> int \<Rightarrow> int \<Rightarrow> int list \<Rightarrow> int list exec" where
  "markCell fuel N M board i j mark =
     (if i = 0 \<or> j = 0 \<or> i = N - 1 \<or> j = M - 1 then
        exec_bind (board_at board i j) (\<lambda>c. if c = CHR ''O'' then solveWithMark fuel N M board i j mark else Ret mark)
      else Ret mark)"

definition solve :: "nat \<Rightarrow> char list list \<Rightarrow> char list list exec" where
  "solve fuel board =
     (let N = int (length board) in
      if N = 0 then Ret board
      else exec_bind (vec_at board 0) (\<lambda>row0.
        let M = int (length row0) in
        if M = 0 then Ret board
        else exec_bind (c_int (N * M)) (\<lambda>size.
          exec_bind (exec_fold (\<lambda>i mark. exec_fold (\<lambda>j mark. markCell fuel N M board i j mark) [0..M - 1] mark) [0..N - 1] (replicate (nat size) 0)) (\<lambda>mark.
          flipWithMark N M mark board))))"

section \<open>Square boards\<close>

text \<open>A square board with \<open>n\<close> rows, and the cells that the search may enter.\<close>

definition square :: "int \<Rightarrow> char list list \<Rightarrow> bool" where
  "square n board \<longleftrightarrow> 0 < n \<and> n * n < 2 ^ 31 \<and> int (length board) = n \<and> (\<forall>row \<in> set board. int (length row) = n)"

definition cells :: "int \<Rightarrow> (int \<times> int) set" where
  "cells n = {0..<n} \<times> {0..<n}"

definition cell_of :: "char list list \<Rightarrow> int \<times> int \<Rightarrow> char" where
  "cell_of board c = board ! nat (fst c) ! nat (snd c)"

definition open_cells :: "int \<Rightarrow> char list list \<Rightarrow> (int \<times> int) set" where
  "open_cells n board = {c \<in> cells n. cell_of board c \<noteq> CHR ''X''}"

definition nbs :: "int \<times> int \<Rightarrow> (int \<times> int) set" where
  "nbs c = {(fst c - 1, snd c), (fst c + 1, snd c), (fst c, snd c - 1), (fst c, snd c + 1)}"

definition moves :: "int \<Rightarrow> char list list \<Rightarrow> ((int \<times> int) \<times> (int \<times> int)) set" where
  "moves n board = {(c, d). d \<in> nbs c \<and> d \<in> open_cells n board}"

definition marked :: "int \<Rightarrow> int list \<Rightarrow> (int \<times> int) set" where
  "marked n mark = {c \<in> cells n. mark ! nat (fst c * n + snd c) \<noteq> 0}"

definition mark_ok :: "int \<Rightarrow> int list \<Rightarrow> bool" where
  "mark_ok n mark \<longleftrightarrow> int (length mark) = n * n \<and> (\<forall>x \<in> set mark. x = 0 \<or> x = 1)"

lemma finite_cells [simp]: "finite (cells n)"
  by (simp add: cells_def)

lemma index_bounds: "(i, j) \<in> cells n \<Longrightarrow> 0 \<le> i * n + j \<and> i * n + j < n * n"
proof -
  assume c: "(i, j) \<in> cells n"
  then have "i * n \<le> (n - 1) * n" by (intro mult_right_mono) (auto simp: cells_def)
  then show ?thesis using c by (auto simp: cells_def algebra_simps)
qed

lemma index_inj: "(i, j) \<in> cells n \<Longrightarrow> (a, b) \<in> cells n \<Longrightarrow> i * n + j = a * n + b \<longleftrightarrow> i = a \<and> j = b"
proof -
  assume c: "(i, j) \<in> cells n" "(a, b) \<in> cells n"
  then have "(i * n + j) div n = i" "(a * n + b) div n = a" by (auto simp: cells_def)
  then show ?thesis by auto
qed

lemma getIndex_ok: "(i, j) \<in> cells n \<Longrightarrow> n * n < 2 ^ 31 \<Longrightarrow> getIndex n i j = Ret (i * n + j)"
proof -
  assume c: "(i, j) \<in> cells n" "n * n < 2 ^ 31"
  have "0 \<le> i * n" "i * n \<le> i * n + j" using c by (auto simp: cells_def)
  then have "int_ok (i * n)" "int_ok (i * n + j)" using index_bounds [OF c(1)] c(2) by (auto simp: int_ok_def)
  then show ?thesis by (simp add: getIndex_def)
qed

lemma board_at_ok: "square n board \<Longrightarrow> (i, j) \<in> cells n \<Longrightarrow> board_at board i j = Ret (cell_of board (i, j))"
  by (auto simp: square_def cells_def board_at_def cell_of_def)

lemma mark_at_ok: "mark_ok n mark \<Longrightarrow> (i, j) \<in> cells n \<Longrightarrow> vec_at mark (i * n + j) = Ret (if (i, j) \<in> marked n mark then 1 else 0)"
proof -
  assume m: "mark_ok n mark" "(i, j) \<in> cells n"
  then have b: "0 \<le> i * n + j" "i * n + j < int (length mark)" using index_bounds by (auto simp: mark_ok_def)
  then have "mark ! nat (i * n + j) = 0 \<or> mark ! nat (i * n + j) = 1" using m(1) nth_mem [of "nat (i * n + j)" mark] by (auto simp: mark_ok_def)
  then show ?thesis using b m by (auto simp: marked_def)
qed

lemma mark_put_ok:
  assumes "mark_ok n mark" "(i, j) \<in> cells n"
  shows "\<exists>mark'. vec_put mark (i * n + j) 1 = Ret mark' \<and> mark_ok n mark' \<and> marked n mark' = insert (i, j) (marked n mark)"
proof (intro exI conjI)
  let ?k = "nat (i * n + j)"
  have b: "0 \<le> i * n + j" "i * n + j < int (length mark)" using index_bounds [OF assms(2)] assms(1) by (auto simp: mark_ok_def)
  then show "vec_put mark (i * n + j) 1 = Ret (mark[?k := 1])" by simp
  show "mark_ok n (mark[?k := 1])" using assms(1) by (auto simp: mark_ok_def dest!: set_update_subset_insert [THEN subsetD])
  have "(mark[?k := 1]) ! nat (fst c * n + snd c) \<noteq> 0 \<longleftrightarrow> c = (i, j) \<or> mark ! nat (fst c * n + snd c) \<noteq> 0" if "c \<in> cells n" for c
  proof -
    obtain a d where c: "c = (a, d)" by (cases c)
    have "?k = nat (a * n + d) \<longleftrightarrow> c = (i, j)" using index_inj [OF assms(2), of a d] index_bounds [OF assms(2)] index_bounds [of a d n] that c
      by (auto simp: nat_eq_iff)
    then show ?thesis using b c by (auto simp: nth_list_update)
  qed
  then show "marked n (mark[?k := 1]) = insert (i, j) (marked n mark)" using assms(2) by (auto simp: marked_def)
qed

section \<open>The search\<close>

text \<open>
  What a search from \<open>c\<close> adds to the marks \<open>m\<close>: cells that can be reached from \<open>c\<close>, \<open>c\<close> itself if it is open, and with
  every new cell its open neighbours.
\<close>

definition searched :: "int \<Rightarrow> char list list \<Rightarrow> int \<times> int \<Rightarrow> (int \<times> int) set \<Rightarrow> (int \<times> int) set \<Rightarrow> bool" where
  "searched n board c m m' \<longleftrightarrow> m \<subseteq> m' \<and> m' \<subseteq> m \<union> open_cells n board \<and> (\<forall>d \<in> m' - m. (c, d) \<in> (moves n board)\<^sup>*) \<and>
     (\<forall>d \<in> m' - m. moves n board `` {d} \<subseteq> m') \<and> (c \<in> open_cells n board \<longrightarrow> c \<in> m') \<and>
     (c \<notin> open_cells n board \<longrightarrow> m' = m)"

lemma searched_none: "c \<notin> open_cells n board \<or> c \<in> m \<Longrightarrow> searched n board c m m"
  by (auto simp: searched_def)

text \<open>Marking a cell and searching from its four neighbours.\<close>

lemma searched_reach: "searched n board d m m' \<Longrightarrow> d \<in> nbs c \<Longrightarrow> e \<in> m' - m \<Longrightarrow> (c, e) \<in> (moves n board)\<^sup>*"
proof -
  assume s: "searched n board d m m'" "d \<in> nbs c" "e \<in> m' - m"
  then have "d \<in> open_cells n board" "(d, e) \<in> (moves n board)\<^sup>*" by (auto simp: searched_def)
  then show ?thesis using s(2) by (intro converse_rtrancl_into_rtrancl [of c d]) (auto simp: moves_def)
qed

lemma searched_cell:
  assumes "c \<in> open_cells n board" "c \<notin> m0" "nbs c = {d1, d2, d3, d4}"
    and "searched n board d1 (insert c m0) m1" "searched n board d2 m1 m2" "searched n board d3 m2 m3" "searched n board d4 m3 m4"
  shows "searched n board c m0 m4"
proof -
  let ?R = "moves n board" and ?O = "open_cells n board"
  have sub: "insert c m0 \<subseteq> m1" "m1 \<subseteq> m2" "m2 \<subseteq> m3" "m3 \<subseteq> m4" using assms(4-7) by (auto simp: searched_def)
  have opn: "m4 \<subseteq> m0 \<union> ?O" 
  proof -
    have "m1 \<subseteq> insert c m0 \<union> ?O" "m2 \<subseteq> m1 \<union> ?O" "m3 \<subseteq> m2 \<union> ?O" "m4 \<subseteq> m3 \<union> ?O" using assms(4-7) by (simp_all add: searched_def)
    then show ?thesis using assms(1) by blast
  qed
  have reach: "(c, e) \<in> ?R\<^sup>*" if e: "e \<in> m4 - m0" for e
  proof (cases "e = c")
    case False
    then consider "e \<in> m1 - insert c m0" | "e \<in> m2 - m1" | "e \<in> m3 - m2" | "e \<in> m4 - m3" using e by blast
    then show ?thesis
    proof cases
      case 1 show ?thesis by (rule searched_reach [OF assms(4) _ 1]) (simp add: assms(3))
    next
      case 2 show ?thesis by (rule searched_reach [OF assms(5) _ 2]) (simp add: assms(3))
    next
      case 3 show ?thesis by (rule searched_reach [OF assms(6) _ 3]) (simp add: assms(3))
    next
      case 4 show ?thesis by (rule searched_reach [OF assms(7) _ 4]) (simp add: assms(3))
    qed
  qed simp
  have nb: "?R `` {c} \<subseteq> m4"
  proof -
    have "d1 \<in> ?O \<longrightarrow> d1 \<in> m1" "d2 \<in> ?O \<longrightarrow> d2 \<in> m2" "d3 \<in> ?O \<longrightarrow> d3 \<in> m3" "d4 \<in> ?O \<longrightarrow> d4 \<in> m4" using assms(4-7) by (auto simp: searched_def)
    then show ?thesis using assms(3) sub by (auto simp: moves_def)
  qed
  have closed: "?R `` {e} \<subseteq> m4" if e: "e \<in> m4 - m0" for e
  proof (cases "e = c")
    case False
    then consider "e \<in> m1 - insert c m0" | "e \<in> m2 - m1" | "e \<in> m3 - m2" | "e \<in> m4 - m3" using e by blast
    then show ?thesis
    proof cases
      case 1 then have "?R `` {e} \<subseteq> m1" using assms(4) by (simp add: searched_def)
      then show ?thesis using sub by blast
    next
      case 2 then have "?R `` {e} \<subseteq> m2" using assms(5) by (simp add: searched_def)
      then show ?thesis using sub by blast
    next
      case 3 then have "?R `` {e} \<subseteq> m3" using assms(6) by (simp add: searched_def)
      then show ?thesis using sub by blast
    next
      case 4 then show ?thesis using assms(7) by (simp add: searched_def)
    qed
  qed (simp add: nb)
  have "m0 \<subseteq> m4" "c \<in> m4" using sub by blast+
  then show ?thesis using opn reach closed assms(1) by (simp add: searched_def)
qed

text \<open>The search marks what it should, and as many levels as there are unmarked cells and one more are enough.\<close>

lemma solveWithMark_searched:
  assumes "square n board"
  shows "mark_ok n mark \<Longrightarrow> card (cells n - marked n mark) < fuel \<Longrightarrow>
    \<exists>mark'. solveWithMark fuel n n board i j mark = Ret mark' \<and> mark_ok n mark' \<and> searched n board (i, j) (marked n mark) (marked n mark')"
proof (induction fuel arbitrary: i j mark)
  case (Suc fuel)
  note n = assms [unfolded square_def]
  show ?case
  proof (cases "(i, j) \<in> cells n")
    case False
    then have "(i, j) \<notin> open_cells n board" by (simp add: open_cells_def)
    then show ?thesis using False Suc.prems(1) searched_none by (auto simp: cells_def)
  next
    case c: True
    then have ran: "\<not> (i < 0 \<or> i \<ge> n)" "\<not> (j < 0 \<or> j \<ge> n)" by (auto simp: cells_def)
    have gi: "getIndex n i j = Ret (i * n + j)" using n by (intro getIndex_ok c) simp
    note red = ran gi mark_at_ok [OF Suc.prems(1) c] board_at_ok [OF assms c]
    show ?thesis
    proof (cases "(i, j) \<in> marked n mark \<or> cell_of board (i, j) = CHR ''X''")
      case True
      then have "searched n board (i, j) (marked n mark) (marked n mark)" by (intro searched_none) (auto simp: open_cells_def)
      then show ?thesis using True Suc.prems(1) by (auto simp: red)
    next
      case False
      then have opn: "(i, j) \<in> open_cells n board" "(i, j) \<notin> marked n mark" using c by (auto simp: open_cells_def)
      obtain k where k: "vec_put mark (i * n + j) 1 = Ret k" "mark_ok n k" "marked n k = insert (i, j) (marked n mark)"
        using mark_put_ok [OF Suc.prems(1) c] by blast
      have "card (cells n - marked n k) < card (cells n - marked n mark)" using c opn(2) k(3) by (intro psubset_card_mono) auto
      then have fl: "card (cells n - marked n k) < fuel" using Suc.prems(2) by simp
      have more: "card (cells n - marked n k') < fuel" if "marked n k \<subseteq> marked n k'" for k'
        using that fl card_mono [of "cells n - marked n k" "cells n - marked n k'"] by force
      have mono: "searched n board d m m' \<Longrightarrow> m \<subseteq> m'" for d m m' by (simp add: searched_def)
      obtain k1 where k1: "solveWithMark fuel n n board (i - 1) j k = Ret k1" "mark_ok n k1" "searched n board (i - 1, j) (marked n k) (marked n k1)"
        using Suc.IH [OF k(2) fl] by blast
      note l1 = mono [OF k1(3)]
      obtain k2 where k2: "solveWithMark fuel n n board (i + 1) j k1 = Ret k2" "mark_ok n k2" "searched n board (i + 1, j) (marked n k1) (marked n k2)"
        using Suc.IH [OF k1(2) more [OF l1]] by blast
      note l2 = subset_trans [OF l1 mono [OF k2(3)]]
      obtain k3 where k3: "solveWithMark fuel n n board i (j - 1) k2 = Ret k3" "mark_ok n k3" "searched n board (i, j - 1) (marked n k2) (marked n k3)"
        using Suc.IH [OF k2(2) more [OF l2]] by blast
      note l3 = subset_trans [OF l2 mono [OF k3(3)]]
      obtain k4 where k4: "solveWithMark fuel n n board i (j + 1) k3 = Ret k4" "mark_ok n k4" "searched n board (i, j + 1) (marked n k3) (marked n k4)"
        using Suc.IH [OF k3(2) more [OF l3]] by blast
      have "searched n board (i, j) (marked n mark) (marked n k4)"
        by (rule searched_cell [OF opn _ k1(3) [unfolded k(3)] k2(3) k3(3) k4(3)]) (simp add: nbs_def)
      moreover have "solveWithMark (Suc fuel) n n board i j mark = Ret k4" using False by (simp add: red k(1) k1(1) k2(1) k3(1) k4(1))
      ultimately show ?thesis using k4(2) by blast
    qed
  qed
qed simp

section \<open>The loops over the board\<close>

text \<open>The cells that come before \<open>(i, j)\<close> in the order of the two nested loops.\<close>

definition before :: "int \<Rightarrow> int \<Rightarrow> int \<times> int \<Rightarrow> bool" where
  "before i j c \<longleftrightarrow> fst c < i \<or> fst c = i \<and> snd c < j"

lemma exec_fold_cells:
  assumes "0 < n" "P 0 0 s" "\<And>i j s. (i, j) \<in> cells n \<Longrightarrow> P i j s \<Longrightarrow> returns (f i j s) (P i (j + 1))"
    and "\<And>i s. 0 \<le> i \<Longrightarrow> i < n \<Longrightarrow> P i n s \<Longrightarrow> P (i + 1) 0 s"
  shows "returns (exec_fold (\<lambda>i. exec_fold (f i) [0..n - 1]) [0..n - 1] s) (P n 0)"
proof -
  have row: "returns (exec_fold (f i) [0..n - 1] t) (P (i + 1) 0)" if i: "0 \<le> i" "i \<le> n - 1" and t: "P i 0 t" for i t
  proof -
    have "returns (exec_fold (f i) [0..n - 1] t) (P i (n - 1 + 1))"
      by (rule exec_fold_upto [where P = "P i"]) (use i t assms(1,3) in \<open>auto simp: cells_def\<close>)
    then show ?thesis using i by (elim returns_mono) (simp add: assms(4))
  qed
  have "returns (exec_fold (\<lambda>i. exec_fold (f i) [0..n - 1]) [0..n - 1] s) (P (n - 1 + 1) 0)"
    by (rule exec_fold_upto [where P = "\<lambda>i. P i 0"]) (use assms(1,2) row in auto)
  then show ?thesis by simp
qed

lemma before_next: "c \<in> cells n \<Longrightarrow> before i (j + 1) c \<longleftrightarrow> before i j c \<or> c = (i, j)"
  by (cases c) (auto simp: before_def)

lemma before_row: "c \<in> cells n \<Longrightarrow> before (i + 1) 0 c \<longleftrightarrow> before i n c"
  by (cases c) (auto simp: before_def cells_def)

lemma before_all: "c \<in> cells n \<Longrightarrow> before n 0 c"
  by (cases c) (auto simp: before_def cells_def)

lemma before_none: "c \<in> cells n \<Longrightarrow> \<not> before 0 0 c"
  by (cases c) (auto simp: before_def cells_def)

text \<open>The \<^verbatim>\<open>O\<close>s of the border, and the cells that are connected to one of them.\<close>

definition border :: "int \<Rightarrow> char list list \<Rightarrow> (int \<times> int) set" where
  "border n board = {c \<in> cells n. (fst c = 0 \<or> snd c = 0 \<or> fst c = n - 1 \<or> snd c = n - 1) \<and> cell_of board c = CHR ''O''}"

definition connected :: "int \<Rightarrow> char list list \<Rightarrow> (int \<times> int) set" where
  "connected n board = (moves n board)\<^sup>* `` border n board"

lemma border_cells: "border n board \<subseteq> open_cells n board"
  by (auto simp: border_def open_cells_def)

lemma searched_closure:
  assumes "searched n board c m m'" "m = (moves n board)\<^sup>* `` S" "c \<in> open_cells n board"
  shows "m' = (moves n board)\<^sup>* `` insert c S"
proof (intro equalityI subsetI)
  fix d assume "d \<in> m'"
  then show "d \<in> (moves n board)\<^sup>* `` insert c S" using assms by (auto simp: searched_def)
next
  have step: "e \<in> m'" if "d \<in> m'" "(d, e) \<in> moves n board" for d e
  proof (cases "d \<in> m")
    case True
    then have "e \<in> m" using that(2) by (auto simp: assms(2) intro: rtrancl_into_rtrancl)
    then show ?thesis using assms(1) by (auto simp: searched_def)
  next
    case False
    then show ?thesis using assms(1) that by (auto simp: searched_def)
  qed
  fix d assume "d \<in> (moves n board)\<^sup>* `` insert c S"
  then obtain b where b: "b \<in> insert c S" "(b, d) \<in> (moves n board)\<^sup>*" by blast
  have "b \<in> m'" using b(1) assms by (auto simp: searched_def)
  with b(2) show "d \<in> m'" by (induction) (auto intro: step)
qed

lemma mark_loop:
  assumes "square n board" "nat (n * n) < fuel"
  shows "returns (exec_fold (\<lambda>i. exec_fold (\<lambda>j. markCell fuel n n board i j) [0..n - 1]) [0..n - 1] (replicate (nat (n * n)) 0))
    (\<lambda>mark. mark_ok n mark \<and> marked n mark = connected n board)"
proof -
  let ?S = "\<lambda>i j. {c \<in> border n board. before i j c}"
  define P where "P i j mark \<longleftrightarrow> mark_ok n mark \<and> marked n mark = (moves n board)\<^sup>* `` ?S i j" for i j mark
  have n: "0 < n" using assms(1) by (simp add: square_def)
  have S: "?S n 0 = border n board" by (auto simp: before_all border_def)
  have "?S 0 0 = {}" by (auto simp: border_def before_none)
  moreover have "marked n (replicate (nat (n * n)) 0) = {}" using index_bounds by (fastforce simp: marked_def)
  ultimately have start: "P 0 0 (replicate (nat (n * n)) 0)" using n unfolding P_def by (simp only: Image_empty2) (simp add: mark_ok_def)
  have card: "card (cells n - marked n mark) < fuel" for mark
  proof -
    have "card (cells n) = nat (n * n)" using n by (simp add: cells_def card_cartesian_product nat_mult_distrib)
    then show ?thesis using assms(2) card_mono [of "cells n" "cells n - marked n mark"] by simp
  qed
  have step: "returns (markCell fuel n n board i j mark) (P i (j + 1))" if c: "(i, j) \<in> cells n" and P: "P i j mark" for i j mark
  proof (cases "(i, j) \<in> border n board")
    case True
    have "?S i (j + 1) = insert (i, j) (?S i j)" using True before_next by (fastforce simp: border_def)
    moreover obtain mark' where "solveWithMark fuel n n board i j mark = Ret mark'" "mark_ok n mark'"
        "searched n board (i, j) (marked n mark) (marked n mark')"
      using solveWithMark_searched [OF assms(1) _ card] P unfolding P_def by blast
    moreover have "(i, j) \<in> open_cells n board" using True border_cells by blast
    ultimately show ?thesis using True P searched_closure [of n board "(i, j)" "marked n mark" "marked n mark'"] c
      by (auto simp: markCell_def P_def board_at_ok [OF assms(1)] border_def)
  next
    case False
    have "?S i (j + 1) = ?S i j" using False before_next by (fastforce simp: border_def)
    then show ?thesis using False P c by (auto simp: markCell_def P_def board_at_ok [OF assms(1)] border_def)
  qed
  have next_row: "P (i + 1) 0 mark" if "P i n mark" for i mark
  proof -
    have "?S (i + 1) 0 = ?S i n" using before_row by (fastforce simp: border_def)
    then show ?thesis using that by (simp add: P_def)
  qed
  have "returns (exec_fold (\<lambda>i. exec_fold (\<lambda>j. markCell fuel n n board i j) [0..n - 1]) [0..n - 1] (replicate (nat (n * n)) 0)) (P n 0)"
    by (rule exec_fold_cells [where P = P]) (use n start step next_row in auto)
  then show ?thesis by (elim returns_mono) (simp add: P_def S connected_def)
qed

lemma flipCell_ok:
  assumes "square n b" "mark_ok n mark" "(i, j) \<in> cells n"
  shows "returns (flipCell n mark i j b) (\<lambda>b'. square n b' \<and> (\<forall>c \<in> cells n. cell_of b' c =
    (if c = (i, j) \<and> cell_of b c = CHR ''O'' \<and> c \<notin> marked n mark then CHR ''X'' else cell_of b c)))"
proof -
  have "n * n < 2 ^ 31" using assms(1) by (simp add: square_def)
  note red = getIndex_ok [OF assms(3) this] mark_at_ok [OF assms(2,3)] board_at_ok [OF assms(1,3)]
  let ?b = "b[nat i := (b ! nat i)[nat j := CHR ''X'']]"
  have ij: "0 \<le> i" "i < int (length b)" "0 \<le> j" "j < int (length (b ! nat i))" using assms(1,3) by (auto simp: square_def cells_def)
  have sq: "square n ?b" using assms(1) ij by (auto simp: square_def dest!: set_update_subset_insert [THEN subsetD])
  have at: "cell_of ?b c = (if c = (i, j) then CHR ''X'' else cell_of b c)" if "c \<in> cells n" for c
    using that ij by (cases c) (auto simp: cell_of_def nth_list_update cells_def)
  show ?thesis
  proof (cases "cell_of b (i, j) = CHR ''O'' \<and> (i, j) \<notin> marked n mark")
    case True
    then show ?thesis using ij sq at by (simp add: flipCell_def red)
  next
    case False
    then show ?thesis using assms(1) by (auto simp: flipCell_def red)
  qed
qed

lemma flip_loop:
  assumes "square n board" "mark_ok n mark"
  shows "returns (flipWithMark n n mark board) (\<lambda>b. square n b \<and> (\<forall>c \<in> cells n. cell_of b c =
    (if cell_of board c = CHR ''O'' \<and> c \<notin> marked n mark then CHR ''X'' else cell_of board c)))"
proof -
  define P where "P i j b \<longleftrightarrow> square n b \<and> (\<forall>c \<in> cells n. cell_of b c =
    (if before i j c \<and> cell_of board c = CHR ''O'' \<and> c \<notin> marked n mark then CHR ''X'' else cell_of board c))" for i j b
  have n: "0 < n" using assms(1) by (simp add: square_def)
  have start: "P 0 0 board" using assms(1) by (simp add: P_def before_none)
  have step: "returns (flipCell n mark i j b) (P i (j + 1))" if c: "(i, j) \<in> cells n" and P: "P i j b" for i j b
  proof -
    have b: "square n b" using P by (simp add: P_def)
    show ?thesis
    proof (rule returns_mono [OF flipCell_ok [OF b assms(2) c]])
      fix b' assume "square n b' \<and> (\<forall>d \<in> cells n. cell_of b' d =
        (if d = (i, j) \<and> cell_of b d = CHR ''O'' \<and> d \<notin> marked n mark then CHR ''X'' else cell_of b d))"
      moreover have "\<not> before i j (i, j)" by (simp add: before_def)
      ultimately show "P i (j + 1) b'" using P by (auto simp: P_def before_next)
    qed
  qed
  have next_row: "P (i + 1) 0 b" if "P i n b" for i b using that by (simp add: P_def before_row)
  have "returns (flipWithMark n n mark board) (P n 0)"
    unfolding flipWithMark_def by (rule exec_fold_cells [where P = P]) (use n start step next_row in auto)
  then show ?thesis by (elim returns_mono) (simp add: P_def before_all)
qed

section \<open>The program on square boards, and on others\<close>

lemma square_row: "square n board \<Longrightarrow> vec_at board 0 = Ret (board ! 0) \<and> int (length (board ! 0)) = n"
  by (auto simp: square_def)

text \<open>
  On a square board the program returns, with more levels of recursion than there are cells, the board on which
  exactly the \<^verbatim>\<open>O\<close>s that are not connected to the border have become \<^verbatim>\<open>X\<close>.
\<close>

theorem solve_correct:
  assumes "square n board" "nat (n * n) < fuel"
  shows "returns (solve fuel board) (\<lambda>b. square n b \<and> (\<forall>c \<in> cells n. cell_of b c =
    (if cell_of board c = CHR ''O'' \<and> c \<notin> connected n board then CHR ''X'' else cell_of board c)))"
proof -
  note sq = assms(1) [unfolded square_def]
  have io: "int_ok (n * n)" using sq by (auto simp: int_ok_def intro: order_trans [of _ 0])
  obtain mark where mark: "exec_fold (\<lambda>i. exec_fold (\<lambda>j. markCell fuel n n board i j) [0..n - 1]) [0..n - 1] (replicate (nat (n * n)) 0) = Ret mark"
      "mark_ok n mark" "marked n mark = connected n board"
    using mark_loop [OF assms] by (auto simp: returns_iff)
  have "solve fuel board = flipWithMark n n mark board" 
  proof -
    have "board ! 0 \<noteq> []" using square_row [OF assms(1)] sq by auto
    then show ?thesis using square_row [OF assms(1)] sq io mark(1) by (simp add: solve_def Let_def)
  qed
  then show ?thesis using flip_loop [OF assms(1) mark(2)] by (simp only: mark(3))
qed

theorem solve_correct_witness:
  "returns (solve 10 [''XXX'', ''XOX'', ''XXX'']) (\<lambda>b. square 3 b \<and> cell_of b (1, 1) = CHR ''X'')"
proof -
  have sq: "square 3 [''XXX'', ''XOX'', ''XXX'']" "nat (3 * 3) < 10" by (simp_all add: square_def)
  have c: "(1, 1) \<in> cells 3" "cell_of [''XXX'', ''XOX'', ''XXX''] (1, 1) = CHR ''O''" by (simp_all add: cells_def cell_of_def)
  have
    "returns (solve 10 [''XXX'', ''XOX'', ''XXX'']) (\<lambda>b. square 3 b \<and> cell_of b (1, 1) =
      (if (1, 1) \<notin> connected 3 [''XXX'', ''XOX'', ''XXX''] then CHR ''X'' else CHR ''O''))"
    by (rule returns_mono [OF solve_correct [OF sq]]) (use c in \<open>auto dest!: bspec [OF _ c(1)]\<close>)
  moreover have "border 3 [''XXX'', ''XOX'', ''XXX''] = {}"
  proof -
    have "cell_of [''XXX'', ''XOX'', ''XXX''] c = CHR ''X''" if "c \<in> cells 3" "fst c = 0 \<or> snd c = 0 \<or> fst c = 2 \<or> snd c = 2" for c
    proof -
      obtain i j where c: "c = (i, j)" by (cases c)
      then have "i \<in> {0, 1, 2}" "j \<in> {0, 1, 2}" using that(1) by (auto simp: cells_def)
      then show ?thesis using that(2) c by (auto simp: cell_of_def)
    qed
    then show ?thesis by (auto simp: border_def)
  qed
  ultimately show ?thesis by (simp add: connected_def)
qed

text \<open>
  On other boards the cells of \<^verbatim>\<open>mark\<close> are confused, since a row has \<^verbatim>\<open>M\<close> cells and the index is computed with \<^verbatim>\<open>N\<close>. With
  more rows than columns the search leaves the array; with more columns than rows the mark of one cell is taken for
  that of another, so that the search stops too early and an \<^verbatim>\<open>O\<close> that is connected to the border is captured.
\<close>

theorem rectangular_boards:
  "solve 20 [''O'', ''O'', ''O''] = Undefined \<and> solve 20 [''OXX''] = Ret [''OXX''] \<and>
   solve 20 [''XXXO'', ''OOXX'', ''XXXX''] = Ret [''XXXO'', ''OXXX'', ''XXXX'']"
  by code_simp

end
