(* ===== verification/Backtracking.thy ===== *)
theory Backtracking
  imports Sperm_Prelude "HOL-Library.Multiset"
begin

text \<open>
  Programs of \<^verbatim>\<open>leetcode\<close> that enumerate by backtracking: \<^verbatim>\<open>generate-parentheses.cc\<close>,
  \<^verbatim>\<open>letter-combinations-of-a-phone-number.cc\<close>, \<^verbatim>\<open>restore-ip-addresses.cc\<close>, \<^verbatim>\<open>subsets-2.cc\<close>; and \<^verbatim>\<open>valid-parentheses.cc\<close>, which decides
  what the first one enumerates. The partial solution that the code extends and cuts back is part of the state; that a call
  leaves it as it was is proved.
\<close>

section \<open>Parentheses\<close>

lemma map_append_Nil [simp]: "map ((@) []) xs = xs"
  by (induction xs) auto

text \<open>\<^verbatim>\<open>isValid\<close>: the stack is a list with its top first. Other characters are skipped.\<close>

definition is_open :: "char \<Rightarrow> bool" where
  "is_open ch \<longleftrightarrow> ch = CHR ''('' \<or> ch = CHR ''{'' \<or> ch = CHR ''[''"

definition is_close :: "char \<Rightarrow> bool" where
  "is_close ch \<longleftrightarrow> ch = CHR '')'' \<or> ch = CHR ''}'' \<or> ch = CHR '']''"

definition matches :: "char \<Rightarrow> char \<Rightarrow> bool" where
  "matches x ch \<longleftrightarrow> (ch = CHR '')'' \<and> x = CHR ''('') \<or> (ch = CHR ''}'' \<and> x = CHR ''{'') \<or> (ch = CHR '']'' \<and> x = CHR ''['')"

fun isValid_loop :: "string \<Rightarrow> string \<Rightarrow> bool" where
  "isValid_loop [] st = (st = [])"
| "isValid_loop (ch # s) st =
     (if is_open ch then isValid_loop s (ch # st)
      else if is_close ch then
        (case st of [] \<Rightarrow> False
         | x # st' \<Rightarrow> if \<not> matches x ch then False else isValid_loop s st')
      else isValid_loop s st)"

definition isValid :: "string \<Rightarrow> bool" where
  "isValid s = isValid_loop s []"

text \<open>\<^verbatim>\<open>generateParenthesis\<close>: the string \<open>s\<close> and the results \<open>rs\<close> are threaded through the calls.\<close>

function paren_R :: "int \<Rightarrow> int \<Rightarrow> int \<Rightarrow> string \<Rightarrow> string list \<Rightarrow> string \<times> string list" where
  "paren_R n l r s rs =
     (if l = n \<and> r = n then (s, rs @ [s])
      else
        let (s, rs) = (if l < n then (let (s, rs) = paren_R n (l + 1) r (s @ ''('') rs in (take (length s - 1) s, rs)) else (s, rs));
            (s, rs) = (if r < l then (let (s, rs) = paren_R n l (r + 1) (s @ '')'') rs in (take (length s - 1) s, rs)) else (s, rs))
        in (s, rs))"
  by auto

termination
  by (relation "measure (\<lambda>(n, l, r, s, rs). 2 * nat (n - l) + nat (l - r))") auto

declare paren_R.simps [simp del]

definition generateParenthesis :: "int \<Rightarrow> string list" where
  "generateParenthesis n = snd (paren_R n 0 0 [] [])"

subsection \<open>Balanced strings\<close>

text \<open>Strings in which every bracket is matched by one of its kind, with anything else between.\<close>

inductive balanced :: "string \<Rightarrow> bool" where
  empty: "balanced []"
| other: "\<lbrakk>\<not> is_open c; \<not> is_close c; balanced w\<rbrakk> \<Longrightarrow> balanced (c # w)"
| pair: "\<lbrakk>matches x ch; balanced u; balanced v\<rbrakk> \<Longrightarrow> balanced (x # u @ ch # v)"

lemma matches_kinds: "matches x ch \<Longrightarrow> is_open x \<and> is_close ch \<and> \<not> is_open ch \<and> \<not> is_close x"
  by (auto simp: matches_def is_open_def is_close_def)

lemma balanced_append: "balanced u \<Longrightarrow> balanced v \<Longrightarrow> balanced (u @ v)"
proof (induction rule: balanced.induct)
  case (pair x ch u w)
  then show ?case using balanced.pair [of x ch u "w @ v"] by simp
qed (auto intro: balanced.intros)

lemma isValid_loop_balanced: "balanced u \<Longrightarrow> isValid_loop (u @ v) st = isValid_loop v st"
  by (induction arbitrary: v st rule: balanced.induct) (auto dest: matches_kinds)

text \<open>What is left to read when the brackets of the stack are open.\<close>

fun closes :: "string \<Rightarrow> string \<Rightarrow> bool" where
  "closes w [] = balanced w"
| "closes w (x # st) = (\<exists>u ch v. w = u @ ch # v \<and> balanced u \<and> matches x ch \<and> closes v st)"

lemma closes_prefix: "balanced p \<Longrightarrow> closes w st \<Longrightarrow> closes (p @ w) st"
proof (cases st)
  case (Cons x st')
  assume *: "balanced p" "closes w st"
  then obtain u ch v where "w = u @ ch # v" "balanced u" "matches x ch" "closes v st'" using Cons by auto
  then have "p @ w = (p @ u) @ ch # v" "balanced (p @ u)" "matches x ch" "closes v st'" using * balanced_append by auto
  then show ?thesis unfolding Cons closes.simps by blast
qed (auto intro: balanced_append)

lemma isValid_loop_closes: "isValid_loop w st \<Longrightarrow> closes w st"
proof (induction w st rule: isValid_loop.induct)
  case (1 st)
  then show ?case by (auto intro: balanced.intros)
next
  case (2 ch s st)
  consider (opn) "is_open ch" | (c) "\<not> is_open ch" "is_close ch" | (n) "\<not> is_open ch" "\<not> is_close ch" by blast
  then show ?case
  proof cases
    case opn
    with 2 obtain u d v where "s = u @ d # v" "balanced u" "matches ch d" "closes v st" by auto
    then show ?thesis using closes_prefix [of "ch # u @ [d]" v st] balanced.pair [of ch d u "[]"] by (auto intro: balanced.intros)
  next
    case c
    then obtain x st' where st: "st = x # st'" "matches x ch" "isValid_loop s st'" using 2 by (auto split: list.splits if_splits)
    then have "closes s st'" using 2 c by simp
    then show ?thesis using st balanced.empty by fastforce
  next
    case n
    then show ?thesis using 2 closes_prefix [of "[ch]" s st] by (auto intro: balanced.intros)
  qed
qed

lemma isValid_balanced: "isValid s \<longleftrightarrow> balanced s"
  using isValid_loop_closes [of s "[]"] isValid_loop_balanced [of s "[]" "[]"] by (auto simp: isValid_def)

subsection \<open>The enumeration\<close>

text \<open>The strings with \<open>a\<close> opening and \<open>b\<close> closing parentheses that close \<open>b - a\<close> open ones, in the order of the program.\<close>

fun parens :: "nat \<Rightarrow> nat \<Rightarrow> string list" where
  "parens 0 0 = [[]]"
| "parens 0 (Suc b) = map ((#) (CHR '')'')) (parens 0 b)"
| "parens (Suc a) 0 = map ((#) (CHR ''('')) (parens a 0)"
| "parens (Suc a) (Suc b) = map ((#) (CHR ''('')) (parens a (Suc b)) @ (if a < b then map ((#) (CHR '')'')) (parens (Suc a) b) else [])"

lemma paren_R_parens:
  "0 \<le> r \<Longrightarrow> r \<le> l \<Longrightarrow> l \<le> n \<Longrightarrow> paren_R n l r s rs = (s, rs @ map ((@) s) (parens (nat (n - l)) (nat (n - r))))"
proof (induction "nat (n - l) + nat (n - r)" arbitrary: l r s rs rule: less_induct)
  case less
  show ?case
  proof (cases "l = n \<and> r = n")
    case True
    then show ?thesis by (simp add: paren_R.simps)
  next
    case False
    then obtain b where b: "nat (n - r) = Suc b" using less.prems by (cases "nat (n - r)") auto
    have b': "nat (n - (r + 1)) = b" using b by simp
    show ?thesis
    proof (cases "l < n")
      case l: True
      then obtain a where a: "nat (n - l) = Suc a" by (cases "nat (n - l)") auto
      have a': "nat (n - (l + 1)) = a" using a by simp
      have ab: "a < b \<longleftrightarrow> r < l" using a b by auto
      have o: "paren_R n (l + 1) r (s @ ''('') rs = (s @ ''('', rs @ map ((@) (s @ ''('')) (parens a (Suc b)))"
        using less.hyps [of "l + 1" r "s @ ''(''" rs] less.prems l a by (simp add: a' b)
      let ?rs = "rs @ map ((@) (s @ ''('')) (parens a (Suc b))"
      have c: "paren_R n l (r + 1) (s @ '')'') ?rs = (s @ '')'', ?rs @ map ((@) (s @ '')'')) (parens (Suc a) b))" if "r < l"
        using less.hyps [of l "r + 1" "s @ '')''" ?rs] less.prems l that b by (simp add: a b')
      show ?thesis using False l o c by (subst paren_R.simps) (simp add: a b ab comp_def)
    next
      case l: False
      then have ln: "l = n" "nat (n - l) = 0" "r < l" using less.prems False by auto
      have c: "paren_R n l (r + 1) (s @ '')'') rs = (s @ '')'', rs @ map ((@) (s @ '')'')) (parens 0 b))"
        using less.hyps [of l "r + 1" "s @ '')''" rs] less.prems ln b by (simp add: b')
      show ?thesis using False l ln(3) c by (subst paren_R.simps) (auto simp: b ln(2) comp_def)
    qed
  qed
qed

text \<open>A string of parentheses that closes \<open>d\<close> open ones.\<close>

fun closed :: "nat \<Rightarrow> string \<Rightarrow> bool" where
  "closed d [] = (d = 0)"
| "closed d (c # w) =
     (if c = CHR ''('' then closed (Suc d) w else if c = CHR '')'' then 0 < d \<and> closed (d - 1) w else False)"

lemma closed_length: "closed d w \<Longrightarrow> length w = 2 * count_list w (CHR ''('') + d"
  by (induction d w rule: closed.induct) (auto split: if_splits)

lemma set_parens: "a \<le> b \<Longrightarrow> set (parens a b) = {w. closed (b - a) w \<and> count_list w (CHR ''('') = a}"
proof (induction a b rule: parens.induct)
  case 1
  have "w = []" if "closed 0 w" "count_list w (CHR ''('') = 0" for w
    using that closed_length [OF that(1)] by simp
  then show ?case by auto
next
  case (2 b)
  have "closed (Suc b) w \<and> count_list w (CHR ''('') = 0 \<longleftrightarrow> (\<exists>v. w = CHR '')'' # v \<and> closed b v \<and> count_list v (CHR ''('') = 0)" for w
    by (cases w) auto
  then show ?case using 2 by auto
next
  case (4 a b)
  have "closed (b - a) w \<and> count_list w (CHR ''('') = Suc a \<longleftrightarrow>
      (\<exists>v. w = CHR ''('' # v \<and> closed (Suc b - a) v \<and> count_list v (CHR ''('') = a) \<or>
      (a < b \<and> (\<exists>v. w = CHR '')'' # v \<and> closed (b - Suc a) v \<and> count_list v (CHR ''('') = Suc a))" for w
    using "4.prems" by (cases w) (auto simp: Suc_diff_le)
  then show ?case using 4 by auto
qed simp

lemma distinct_parens: "distinct (parens a b)"
  by (induction a b rule: parens.induct) (auto simp: distinct_map)

lemma closed_isValid: "set w \<subseteq> {CHR ''('', CHR '')''} \<Longrightarrow> isValid_loop w (replicate d (CHR ''('')) = closed d w"
proof (induction w arbitrary: d)
  case (Cons c w)
  have r: "CHR ''('' # replicate d (CHR ''('') = replicate (Suc d) (CHR ''('')" by simp
  show ?case
  proof (cases "c = CHR ''(''")
    case True
    then show ?thesis using Cons.prems Cons.IH [of "Suc d"] by (simp add: is_open_def r del: replicate_Suc)
  next
    case False
    then have "c = CHR '')''" using Cons.prems by auto
    then show ?thesis using Cons.prems Cons.IH [of "d - 1"] by (cases d) (auto simp: is_open_def is_close_def matches_def)
  qed
qed simp

lemma closed_chars: "closed d w \<Longrightarrow> set w \<subseteq> {CHR ''('', CHR '')''}"
  by (induction d w rule: closed.induct) (auto split: if_splits)

text \<open>
  \<^verbatim>\<open>isValid\<close> decides whether all brackets are matched, and \<^verbatim>\<open>generateParenthesis\<close> lists, each once, the strings of \<open>n\<close> pairs of
  parentheses that \<^verbatim>\<open>isValid\<close> accepts.
\<close>

theorem parentheses_correct:
  "(isValid s \<longleftrightarrow> balanced s) \<and> distinct (generateParenthesis (int n))
   \<and> set (generateParenthesis (int n)) = {w. length w = 2 * n \<and> set w \<subseteq> {CHR ''('', CHR '')''} \<and> isValid w}"
proof (intro conjI)
  have g: "generateParenthesis (int n) = parens n n" using paren_R_parens [of 0 0 "int n" "[]" "[]"] by (simp add: generateParenthesis_def)
  show "isValid s \<longleftrightarrow> balanced s" by (rule isValid_balanced)
  show "distinct (generateParenthesis (int n))" by (simp add: g distinct_parens)
  have "closed 0 w \<and> count_list w (CHR ''('') = n \<longleftrightarrow> length w = 2 * n \<and> set w \<subseteq> {CHR ''('', CHR '')''} \<and> isValid w" for w
    using closed_length [of 0 w] closed_isValid [of w 0] closed_chars [of 0 w] by (auto simp: isValid_def)
  then show "set (generateParenthesis (int n)) = {w. length w = 2 * n \<and> set w \<subseteq> {CHR ''('', CHR '')''} \<and> isValid w}"
    by (simp add: g set_parens)
qed

section \<open>Letter combinations\<close>

definition phone_dict :: "string list" where
  "phone_dict = ['''', '''', ''abc'', ''def'', ''ghi'', ''jkl'', ''mno'', ''pqrs'', ''tuv'', ''wxyz'']"

text \<open>The loop runs over the letters of a digit up to the terminating null.\<close>

fun letter_R :: "nat \<Rightarrow> string \<Rightarrow> string \<times> string list \<Rightarrow> (string \<times> string list) exec" where
  "letter_R 0 ds st = Diverge"
| "letter_R (Suc fuel) ds st = (case st of (s, rs) \<Rightarrow>
     if length s = length ds then Ret (s, rs @ [s])
     else exec_bind (vec_at ds (int (length s))) (\<lambda>ch.
       exec_bind (vec_at phone_dict (int (of_char ch) - 48)) (\<lambda>letters.
         exec_fold (\<lambda>ch (s, rs). exec_bind (letter_R fuel ds (s @ [ch], rs)) (\<lambda>(s, rs). Ret (take (length s - 1) s, rs))) letters (s, rs))))"

definition letterCombinations :: "nat \<Rightarrow> string \<Rightarrow> string list exec" where
  "letterCombinations fuel digits = exec_bind (letter_R fuel digits ([], [])) (\<lambda>(s, rs). Ret rs)"

text \<open>The words that a sequence of digits can stand for, in lexicographic order.\<close>

definition letters_of :: "char \<Rightarrow> string" where
  "letters_of d = phone_dict ! (of_char d - 48)"

fun words_of :: "string \<Rightarrow> string list" where
  "words_of [] = [[]]"
| "words_of (d # ds) = concat (map (\<lambda>c. map ((#) c) (words_of ds)) (letters_of d))"

definition digit :: "char \<Rightarrow> bool" where
  "digit c \<longleftrightarrow> 48 \<le> (of_char c :: nat) \<and> (of_char c :: nat) \<le> 57"

lemma vec_at_phone: "digit c \<Longrightarrow> vec_at phone_dict (int (of_char c) - 48) = Ret (letters_of c)"
  by (auto simp: digit_def vec_at_def phone_dict_def letters_of_def nat_diff_distrib)

lemma letter_R_words:
  assumes "list_all digit ds"
  shows "length s \<le> length ds \<Longrightarrow> length ds - length s < fuel \<Longrightarrow>
    letter_R fuel ds (s, rs) = Ret (s, rs @ map ((@) s) (words_of (drop (length s) ds)))"
proof (induction fuel arbitrary: s rs)
  case (Suc fuel)
  show ?case
  proof (cases "length s = length ds")
    case True
    then show ?thesis by simp
  next
    case False
    then have l: "length s < length ds" using Suc.prems by simp
    let ?d = "ds ! length s" and ?w = "words_of (drop (Suc (length s)) ds)"
    have d: "digit ?d" using assms l by (simp add: list_all_length)
    have loop: "exec_fold (\<lambda>ch (s, rs). exec_bind (letter_R fuel ds (s @ [ch], rs)) (\<lambda>(s, rs). Ret (take (length s - 1) s, rs))) cs (s, rs) =
        Ret (s, rs @ concat (map (\<lambda>c. map ((@) s) (map ((#) c) ?w)) cs))" for cs rs
    proof (induction cs arbitrary: rs)
      case (Cons c cs)
      have "letter_R fuel ds (s @ [c], rs) = Ret (s @ [c], rs @ map ((@) s) (map ((#) c) ?w))"
        using Suc.IH [of "s @ [c]" rs] Suc.prems l by (simp add: comp_def)
      then show ?case using Cons by simp
    qed simp
    have "drop (length s) ds = ?d # drop (Suc (length s)) ds" using l by (rule Cons_nth_drop_Suc [symmetric])
    then have "map ((@) s) (words_of (drop (length s) ds)) = concat (map (\<lambda>c. map ((@) s) (map ((#) c) ?w)) (letters_of ?d))"
      by (simp add: map_concat comp_def)
    then show ?thesis using l loop [of "letters_of ?d" rs] by (simp add: vec_at_phone [OF d])
  qed
qed simp

text \<open>
  \<^verbatim>\<open>letterCombinations\<close> lists the words for a sequence of digits in lexicographic order; a \<^verbatim>\<open>0\<close> or a \<^verbatim>\<open>1\<close> leaves no word.
\<close>

theorem letterCombinations_correct:
  assumes "list_all digit ds" "length ds < fuel"
  shows "letterCombinations fuel ds = Ret (words_of ds)
    \<and> set (words_of ds) = {w. list_all2 (\<lambda>c d. c \<in> set (letters_of d)) w ds}"
proof
  show "letterCombinations fuel ds = Ret (words_of ds)"
    using letter_R_words [OF assms(1), of "[]" fuel "[]"] assms(2) by (simp add: letterCombinations_def)
  show "set (words_of ds) = {w. list_all2 (\<lambda>c d. c \<in> set (letters_of d)) w ds}"
    by (induction ds) (auto simp: list_all2_Cons2)
qed

theorem letterCombinations_correct_witness: "letterCombinations 5 ''23'' = Ret [''ad'', ''ae'', ''af'', ''bd'', ''be'', ''bf'', ''cd'', ''ce'', ''cf'']"
proof -
  have "words_of ''23'' = [''ad'', ''ae'', ''af'', ''bd'', ''be'', ''bf'', ''cd'', ''ce'', ''cf'']" by code_simp
  then show ?thesis using letterCombinations_correct [of "''23''" 5] by (simp add: digit_def)
qed

section \<open>Addresses\<close>

text \<open>
  \<^verbatim>\<open>restoreIpAddresses\<close>: \<open>vs\<close> are the parts found so far, \<open>res\<close> the results. The loop over the end of the next part is left when
  its value exceeds 255; it takes the recursive call as an argument.
\<close>

definition join4 :: "string list \<Rightarrow> string" where
  "join4 vs = vs ! 0 @ ''.'' @ vs ! 1 @ ''.'' @ vs ! 2 @ ''.'' @ vs ! 3"

definition schar :: "char \<Rightarrow> int" where
  "schar c = (if (of_char c :: int) < 128 then of_char c else of_char c - 256)"

fun ip_loop :: "(int \<Rightarrow> string list \<times> string list \<Rightarrow> (string list \<times> string list) exec) \<Rightarrow> string \<Rightarrow> int \<Rightarrow> int \<Rightarrow> int list \<Rightarrow>
    string list \<times> string list \<Rightarrow> (string list \<times> string list) exec" where
  "ip_loop R s idx val [] st = Ret st"
| "ip_loop R s idx val (i # is) st = (case st of (vs, res) \<Rightarrow>
     exec_bind (c_int (val * 10)) (\<lambda>val.
     exec_bind (vec_at s i) (\<lambda>c.
     exec_bind (c_int (val + schar c)) (\<lambda>val.
     exec_bind (c_int (val - 48)) (\<lambda>val.
       if val > 255 then Ret (vs, res)
       else exec_bind (R (i + 1) (vs @ [take (nat (i - idx + 1)) (drop (nat idx) s)], res)) (\<lambda>(vs, res).
         if vs = [] then Undefined else ip_loop R s idx val is (butlast vs, res)))))))"

fun ip_R :: "nat \<Rightarrow> string \<Rightarrow> int \<Rightarrow> string list \<times> string list \<Rightarrow> (string list \<times> string list) exec" where
  "ip_R 0 s idx st = Diverge"
| "ip_R (Suc fuel) s idx st = (case st of (vs, res) \<Rightarrow>
     if idx = int (length s) then Ret (vs, if length vs = 4 then res @ [join4 vs] else res)
     else if length vs = 4 then Ret (vs, res)
     else exec_bind (vec_at s idx) (\<lambda>c.
       let last = (if c = CHR ''0'' then idx else int (length s) - 1) in
       ip_loop (\<lambda>i st. ip_R fuel s i st) s idx 0 [idx..last] (vs, res)))"

definition restoreIpAddresses :: "nat \<Rightarrow> string \<Rightarrow> string list exec" where
  "restoreIpAddresses fuel s = exec_bind (ip_R fuel s 0 ([], [])) (\<lambda>(vs, res). Ret res)"

subsection \<open>The parts of an address\<close>

definition dval :: "string \<Rightarrow> int" where
  "dval w = foldl (\<lambda>v c. v * 10 + (of_char c - 48)) 0 w"

text \<open>A decimal number up to 255 without leading zeros.\<close>

definition octet :: "string \<Rightarrow> bool" where
  "octet w \<longleftrightarrow> w \<noteq> [] \<and> list_all digit w \<and> (hd w = CHR ''0'' \<longrightarrow> length w = 1) \<and> dval w \<le> 255"

text \<open>The ways to cut a string into \<open>k\<close> such numbers, by the length of the first.\<close>

fun splits :: "nat \<Rightarrow> string \<Rightarrow> string list list" where
  "splits 0 w = (if w = [] then [[]] else [])"
| "splits (Suc k) w = concat (map (\<lambda>n. map ((#) (take n w)) (splits k (drop n w))) (filter (\<lambda>n. octet (take n w)) [1..<Suc (length w)]))"

lemma dval_snoc: "dval (w @ [c]) = dval w * 10 + (of_char c - 48)"
  by (simp add: dval_def)

lemma dval_nonneg: "list_all digit w \<Longrightarrow> 0 \<le> dval w"
proof (induction w rule: rev_induct)
  case (snoc c w)
  then have "48 \<le> (of_char c :: nat)" by (simp add: digit_def)
  then have "(48 :: int) \<le> of_char c" by (metis of_nat_le_iff of_nat_numeral of_nat_of_char)
  then show ?case using snoc by (simp add: dval_snoc)
qed (simp add: dval_def)

lemma digit_int: "digit c \<Longrightarrow> (48 :: int) \<le> of_char c \<and> of_char c \<le> (57 :: int)"
  unfolding digit_def by (metis of_nat_le_iff of_nat_numeral of_nat_of_char)

lemma dval_take_mono: "list_all digit w \<Longrightarrow> k \<le> n \<Longrightarrow> dval (take k w) \<le> dval (take n w)"
proof (induction n)
  case (Suc n)
  show ?case
  proof (cases "k = Suc n \<or> length w \<le> n")
    case True
    then show ?thesis using Suc by (cases "k = Suc n") auto
  next
    case False
    then have "take (Suc n) w = take n w @ [w ! n]" "digit (w ! n)" using Suc.prems by (auto simp: take_Suc_conv_app_nth list_all_length)
    moreover have "0 \<le> dval (take n w)" using Suc.prems by (intro dval_nonneg) (auto simp: list_all_iff dest: in_set_takeD)
    ultimately show ?thesis using Suc False digit_int [of "w ! n"] by (auto simp: dval_snoc)
  qed
qed simp

text \<open>The loop, from the end \<open>k\<close> of the next part on: it collects the results for every value up to 255.\<close>

lemma ip_loop_collect:
  assumes "list_all digit w" "w = drop (nat idx) s" "0 \<le> idx" "m \<le> length w" "length vs < 4"
    and "\<And>n rs. n < m \<Longrightarrow> dval (take (Suc n) w) \<le> 255 \<Longrightarrow> R (idx + int n + 1) (vs @ [take (Suc n) w], rs) = Ret (vs @ [take (Suc n) w], rs @ F n)"
  shows "k \<le> m \<Longrightarrow> dval (take k w) \<le> 255 \<Longrightarrow>
    ip_loop R s idx (dval (take k w)) (map (\<lambda>n. idx + int n) [k..<m]) (vs, res) =
      Ret (vs, res @ concat (map F (filter (\<lambda>n. dval (take (Suc n) w) \<le> 255) [k..<m])))"
proof (induction "m - k" arbitrary: k res)
  case 0
  then show ?case by simp
next
  case (Suc d)
  then have k: "k < m" "k < length w" using assms(4) by auto
  let ?v = "dval (take (Suc k) w)"
  have tk: "take (Suc k) w = take k w @ [w ! k]" using k by (simp add: take_Suc_conv_app_nth)
  have at: "vec_at s (idx + int k) = Ret (w ! k)" using assms(2,3) k by (auto simp: vec_at_def nat_add_distrib)
  have dg: "digit (w ! k)" using assms(1) k by (simp add: list_all_length)
  have nn: "0 \<le> dval (take k w)" using assms(1) by (intro dval_nonneg) (auto simp: list_all_iff dest: in_set_takeD)
  have sc: "schar (w ! k) = of_char (w ! k)" using digit_int [OF dg] by (simp add: schar_def)
  have io: "int_ok (dval (take k w) * 10)" "int_ok (dval (take k w) * 10 + of_char (w ! k))" "int_ok ?v"
    using nn Suc.prems(2) digit_int [OF dg] by (auto simp: int_ok_def tk dval_snoc)
  have v: "dval (take k w) * 10 + of_char (w ! k) - 48 = ?v" by (simp add: tk dval_snoc)
  have cons: "[k..<m] = k # [Suc k..<m]" using k by (simp add: upt_conv_Cons)
  have sub: "take (nat (int k + 1)) (drop (nat idx) s) = take (Suc k) w" by (simp add: assms(2) nat_add_distrib)
  show ?case
  proof (cases "?v \<le> 255")
    case True
    have "ip_loop R s idx ?v (map (\<lambda>n. idx + int n) [Suc k..<m]) (vs, res @ F k) =
      Ret (vs, (res @ F k) @ concat (map F (filter (\<lambda>n. dval (take (Suc n) w) \<le> 255) [Suc k..<m])))"
      using Suc.hyps(2) k True by (intro Suc.hyps(1)) auto
    then show ?thesis using True assms(6) [OF k(1) True] io by (simp add: cons at sc v sub)
  next
    case False
    have "filter (\<lambda>n. dval (take (Suc n) w) \<le> 255) [k..<m] = []"
      using False dval_take_mono [OF assms(1), of "Suc k"] by (fastforce simp: filter_empty_conv)
    then show ?thesis using False io by (simp add: cons at sc v)
  qed
qed

text \<open>Which lengths of the next part the loop tries.\<close>

lemma part_lengths:
  assumes "list_all digit w" "w \<noteq> []" "m = (if hd w = CHR ''0'' then 1 else length w)"
  shows "filter (\<lambda>n. octet (take n w)) [1..<Suc (length w)] = map Suc (filter (\<lambda>n. dval (take (Suc n) w) \<le> 255) [0..<m])"
proof -
  have oc: "octet (take (Suc n) w) \<longleftrightarrow> n < m \<and> dval (take (Suc n) w) \<le> 255" if "n < length w" for n
    using assms that by (cases w) (auto simp: octet_def list_all_iff dest: in_set_takeD)
  have "[1..<Suc (length w)] = map Suc [0..<length w]" by (simp add: map_Suc_upt)
  then have "filter (\<lambda>n. octet (take n w)) [1..<Suc (length w)] = map Suc (filter (\<lambda>n. octet (take (Suc n) w)) [0..<length w])"
    by (simp add: filter_map comp_def del: upt_Suc)
  also have "filter (\<lambda>n. octet (take (Suc n) w)) [0..<length w] = filter (\<lambda>n. n < m \<and> dval (take (Suc n) w) \<le> 255) [0..<length w]"
    using oc by (intro filter_cong) auto
  also have "\<dots> = filter (\<lambda>n. dval (take (Suc n) w) \<le> 255) [0..<m]"
  proof -
    have m: "m \<le> length w" using assms(2,3) by (cases w) auto
    then have "[0..<length w] = [0..<m] @ [m..<length w]" by (metis le_add_diff_inverse upt_add_eq_append zero_le)
    moreover have "filter (\<lambda>n. n < m \<and> dval (take (Suc n) w) \<le> 255) [0..<m] = filter (\<lambda>n. dval (take (Suc n) w) \<le> 255) [0..<m]"
      by (intro filter_cong) auto
    ultimately show ?thesis by (simp add: filter_empty_conv)
  qed
  finally show ?thesis .
qed

lemma ip_R_splits:
  assumes "list_all digit s"
  shows "0 \<le> idx \<Longrightarrow> idx \<le> int (length s) \<Longrightarrow> length vs \<le> 4 \<Longrightarrow> 4 - length vs < fuel \<Longrightarrow>
    ip_R fuel s idx (vs, res) = Ret (vs, res @ map (\<lambda>ps. join4 (vs @ ps)) (splits (4 - length vs) (drop (nat idx) s)))"
proof (induction fuel arbitrary: idx vs res)
  case (Suc fuel)
  let ?w = "drop (nat idx) s"
  consider (stop) "idx = int (length s)" | (full) "idx \<noteq> int (length s)" "length vs = 4" | (go) "idx \<noteq> int (length s)" "length vs < 4"
    using Suc.prems by linarith
  then show ?case
  proof cases
    case stop
    then show ?thesis using Suc.prems(3) by (cases "length vs = 4"; cases "4 - length vs") auto
  next
    case full
    then show ?thesis using Suc.prems by auto
  next
    case go
    then have i: "idx < int (length s)" "?w \<noteq> []" using Suc.prems by auto
    obtain k where k: "4 - length vs = Suc k" using go by (cases "4 - length vs") auto
    have dw: "list_all digit ?w" using assms by (auto simp: list_all_iff dest: in_set_dropD)
    have hd: "vec_at s idx = Ret (hd ?w)" using Suc.prems i by (auto simp: vec_at_def hd_drop_conv_nth)
    define m where "m = (if hd ?w = CHR ''0'' then 1 else length ?w)"
    have m: "m \<le> length ?w" using i by (cases ?w) (auto simp: m_def)
    define F where "F n = map (\<lambda>ps. join4 ((vs @ [take (Suc n) ?w]) @ ps)) (splits k (drop (Suc n) ?w))" for n
    have rec: "ip_R fuel s (idx + int n + 1) (vs @ [take (Suc n) ?w], rs) = Ret (vs @ [take (Suc n) ?w], rs @ F n)" if "n < m" for n rs
    proof -
      have "nat (idx + int n + 1) = Suc n + nat idx" using Suc.prems by simp
      moreover have k3: "3 - length vs = k" using k by simp
      moreover have "idx + int n + 1 \<le> int (length s)" using that m i by simp
      ultimately show ?thesis using Suc.IH [of "idx + int n + 1" "vs @ [take (Suc n) ?w]" rs] Suc.prems go that m i k
        by (simp add: F_def k3 add.commute)
    qed
    have ran: "[idx..(if hd ?w = CHR ''0'' then idx else int (length s) - 1)] = map (\<lambda>n. idx + int n) [0..<m]"
    proof (rule nth_equalityI)
      show "length [idx..(if hd ?w = CHR ''0'' then idx else int (length s) - 1)] = length (map (\<lambda>n. idx + int n) [0..<m])"
        using Suc.prems by (auto simp: m_def)
    qed (use i Suc.prems in \<open>auto simp: nth_upto m_def split: if_splits\<close>)
    have "ip_loop (\<lambda>i st. ip_R fuel s i st) s idx (dval (take 0 ?w)) (map (\<lambda>n. idx + int n) [0..<m]) (vs, res) =
        Ret (vs, res @ concat (map F (filter (\<lambda>n. dval (take (Suc n) ?w) \<le> 255) [0..<m])))"
      by (rule ip_loop_collect [OF dw refl Suc.prems(1) m go(2)]) (use rec in \<open>auto simp: dval_def\<close>)
    then have "ip_R (Suc fuel) s idx (vs, res) = Ret (vs, res @ concat (map F (filter (\<lambda>n. dval (take (Suc n) ?w) \<le> 255) [0..<m])))"
      using go hd ran by (simp add: Let_def dval_def)
    also have "concat (map F (filter (\<lambda>n. dval (take (Suc n) ?w) \<le> 255) [0..<m])) = map (\<lambda>ps. join4 (vs @ ps)) (splits (Suc k) ?w)"
      by (simp only: splits.simps part_lengths [OF dw i(2) m_def]) (simp add: F_def [abs_def] map_concat comp_def)
    finally show ?thesis by (simp only: k)
  qed
qed simp

lemma set_splits: "set (splits k w) = {ps. length ps = k \<and> list_all octet ps \<and> concat ps = w}"
proof (induction k arbitrary: w)
  case (Suc k)
  have "ps \<in> set (splits (Suc k) w) \<longleftrightarrow> length ps = Suc k \<and> list_all octet ps \<and> concat ps = w" for ps
  proof
    assume "ps \<in> set (splits (Suc k) w)"
    then show "length ps = Suc k \<and> list_all octet ps \<and> concat ps = w" using Suc by auto
  next
    assume *: "length ps = Suc k \<and> list_all octet ps \<and> concat ps = w"
    then obtain p qs where p: "ps = p # qs" "octet p" "length qs = k" "list_all octet qs" "w = p @ concat qs" by (cases ps) auto
    have "p \<noteq> []" using p(2) by (simp add: octet_def)
    then have "1 \<le> length p" "length p < Suc (length w)" using p(5) by (auto simp: Suc_le_eq)
    then have "length p \<in> set (filter (\<lambda>n. octet (take n w)) [1..<Suc (length w)])" using p(2,5) by (simp del: upt_Suc)
    moreover have "qs \<in> set (splits k (drop (length p) w))" using Suc p by simp
    moreover have "take (length p) w = p" using p(5) by simp
    ultimately have "\<exists>n \<in> set (filter (\<lambda>n. octet (take n w)) [1..<Suc (length w)]). ps \<in> set (map ((#) (take n w)) (splits k (drop n w)))"
      using p(1) by (intro bexI [of _ "length p"]) (simp del: upt_Suc, assumption)
    then show "ps \<in> set (splits (Suc k) w)" by (simp del: upt_Suc)
  qed
  then show ?case by blast
qed auto

text \<open>
  \<^verbatim>\<open>restoreIpAddresses\<close> returns exactly the addresses whose four numbers, each from 0 to 255 and without leading zeros, are
  the given digits in this order; four levels of recursion and one more are enough for digits of any length.
\<close>

theorem restoreIpAddresses_correct:
  assumes "list_all digit s" "4 < fuel"
  shows "returns (restoreIpAddresses fuel s) (\<lambda>res. set res =
    {a @ ''.'' @ b @ ''.'' @ c @ ''.'' @ d |a b c d. a @ b @ c @ d = s \<and> octet a \<and> octet b \<and> octet c \<and> octet d})"
proof -
  have "restoreIpAddresses fuel s = Ret (map join4 (splits 4 s))"
    using ip_R_splits [OF assms(1), of 0 "[]" fuel "[]"] assms(2) by (simp add: restoreIpAddresses_def)
  moreover have "join4 ` {ps. length ps = 4 \<and> list_all octet ps \<and> concat ps = s} =
    {a @ ''.'' @ b @ ''.'' @ c @ ''.'' @ d |a b c d. a @ b @ c @ d = s \<and> octet a \<and> octet b \<and> octet c \<and> octet d}" (is "?L = ?R")
  proof (intro set_eqI iffI)
    fix x assume "x \<in> ?L"
    then obtain ps where ps: "x = join4 ps" "length ps = 4" "list_all octet ps" "concat ps = s" by blast
    then obtain a b c d where "ps = [a, b, c, d]" by (auto simp: numeral_eq_Suc length_Suc_conv)
    with ps show "x \<in> ?R" by (auto simp: join4_def)
  next
    fix x assume "x \<in> ?R"
    then obtain a b c d where "x = a @ ''.'' @ b @ ''.'' @ c @ ''.'' @ d" "a @ b @ c @ d = s" "list_all octet [a, b, c, d]" by auto
    then show "x \<in> ?L" by (intro image_eqI [of _ _ "[a, b, c, d]"]) (auto simp: join4_def)
  qed
  ultimately show ?thesis by (simp add: set_splits)
qed

theorem restoreIpAddresses_correct_witness:
  "returns (restoreIpAddresses 5 ''1111'') (\<lambda>res. set res =
    {a @ ''.'' @ b @ ''.'' @ c @ ''.'' @ d |a b c d. a @ b @ c @ d = ''1111'' \<and> octet a \<and> octet b \<and> octet c \<and> octet d})"
  by (rule restoreIpAddresses_correct) (simp_all add: digit_def)

section \<open>Subsets of a multiset\<close>

text \<open>
  \<^verbatim>\<open>subsetsWithDup\<close>: the equal elements from \<open>idx\<close> on are found by a loop; then none of them is taken, or one, or two, and so
  on, and at the end they are all popped.
\<close>

function run_end :: "int list \<Rightarrow> int \<Rightarrow> int \<Rightarrow> int exec" where
  "run_end S idx e =
     (if e < int (length S)
      then exec_bind (vec_at S e) (\<lambda>x. exec_bind (vec_at S idx) (\<lambda>y. if x = y then run_end S idx (e + 1) else Ret e))
      else Ret e)"
  by auto

termination
  by (relation "measure (\<lambda>(S, idx, e). nat (int (length S) - e))") auto

declare run_end.simps [simp del]

definition pop_back :: "'i \<Rightarrow> 'a list \<times> 'b \<Rightarrow> ('a list \<times> 'b) exec" where
  "pop_back i st = (if fst st = [] then Undefined else Ret (butlast (fst st), snd st))"

fun subsets_R :: "nat \<Rightarrow> int list \<Rightarrow> int \<Rightarrow> int list \<times> int list list \<Rightarrow> (int list \<times> int list list) exec" where
  "subsets_R 0 S idx st = Diverge"
| "subsets_R (Suc fuel) S idx st =
     (if idx = int (length S) then Ret (fst st, snd st @ [fst st])
      else exec_bind (run_end S idx idx) (\<lambda>e.
        exec_bind (subsets_R fuel S e st) (\<lambda>st.
        exec_bind (exec_fold (\<lambda>i st. exec_bind (vec_at S idx) (\<lambda>x. subsets_R fuel S e (fst st @ [x], snd st))) [0..e - idx - 1] st) (\<lambda>st.
        exec_fold pop_back [0..e - idx - 1] st))))"

definition subsetsWithDup :: "nat \<Rightarrow> int list \<Rightarrow> int list list exec" where
  "subsetsWithDup fuel S = exec_bind (subsets_R fuel (sort S) 0 ([], [])) (\<lambda>st. Ret (snd st))"

subsection \<open>The order of the subsets\<close>

definition run_length :: "int list \<Rightarrow> nat" where
  "run_length xs = length (takeWhile (\<lambda>y. y = hd xs) xs)"

lemma run_length_pos: "xs \<noteq> [] \<Longrightarrow> 0 < run_length xs \<and> run_length xs \<le> length xs"
  by (cases xs) (auto simp: run_length_def length_takeWhile_le)

function subs :: "int list \<Rightarrow> int list list" where
  "subs xs = (if xs = [] then [[]]
     else concat (map (\<lambda>j. map ((@) (replicate j (hd xs))) (subs (drop (run_length xs) xs))) [0..<Suc (run_length xs)]))"
  by auto

termination
proof (relation "measure length")
  fix xs :: "int list" and j assume "xs \<noteq> []"
  then show "(drop (run_length xs) xs, xs) \<in> measure length" using run_length_pos [of xs] by auto
qed auto

declare subs.simps [simp del]

lemma run_end_run:
  assumes "0 \<le> idx" "idx < int (length S)"
  shows "run_end S idx idx = Ret (idx + int (run_length (drop (nat idx) S)))"
proof -
  let ?w = "drop (nat idx) S" and ?k = "run_length (drop (nat idx) S)"
  have w: "?w \<noteq> []" "hd ?w = S ! nat idx" using assms by (auto simp: hd_drop_conv_nth)
  have kl: "?k \<le> length ?w" using run_length_pos [OF w(1)] by simp
  have "run_end S idx (idx + int j) = Ret (idx + int ?k)" if "j \<le> ?k" for j
    using that
  proof (induction "?k - j" arbitrary: j)
    case 0
    then have j: "j = ?k" by simp
    show ?case
    proof (cases "?k < length ?w")
      case True
      then have "?w ! ?k \<noteq> hd ?w" unfolding run_length_def by (metis (mono_tags, lifting) nth_length_takeWhile)
      then have "S ! (nat idx + ?k) \<noteq> S ! nat idx" using True w(2) by simp
      then show ?thesis using True assms j by (subst run_end.simps) (auto simp: vec_at_def nat_add_distrib)
    next
      case False
      then have "int ?k = int (length S) - idx" using kl assms by auto
      then show ?thesis using j by (subst run_end.simps) simp
    qed
  next
    case (Suc d)
    then have j: "j < ?k" by simp
    then have "?w ! j = hd ?w" unfolding run_length_def by (metis (mono_tags, lifting) nth_mem set_takeWhileD takeWhile_nth)
    then have "S ! (nat idx + j) = S ! nat idx" using j kl w(2) by simp
    moreover have "run_end S idx (idx + int (Suc j)) = Ret (idx + int ?k)" using Suc j by (intro Suc.hyps(1)) auto
    ultimately show ?case using j kl assms by (subst run_end.simps) (auto simp: vec_at_def nat_add_distrib algebra_simps)
  qed
  from this [of 0] show ?thesis by simp
qed

lemma exec_fold_append: "exec_fold f (xs @ ys) s = exec_bind (exec_fold f xs s) (exec_fold f ys)"
proof (induction xs arbitrary: s)
  case (Cons a xs)
  then have "exec_fold f (xs @ ys) = (\<lambda>x. exec_bind (exec_fold f xs x) (exec_fold f ys))" by blast
  then show ?case by (simp add: exec_bind_assoc)
qed simp

lemma upto_map_int: "[0..int k - 1] = map int [0..<k]"
  by (induction k) (simp_all add: upto_rec2)

lemma pop_all: "exec_fold pop_back (map int [0..<n]) (vi @ replicate n x, res) = Ret (vi, res)"
proof -
  have "length is = n \<Longrightarrow> exec_fold pop_back is (vi @ replicate n x, res) = Ret (vi, res)" for "is" :: "int list" and n
  proof (induction "is" arbitrary: n)
    case (Cons i js)
    then obtain m where n: "n = Suc m" by auto
    have "replicate (Suc m) x = replicate m x @ [x]" by (simp add: replicate_append_same)
    then have "butlast (vi @ replicate n x) = vi @ replicate m x" using n by (simp add: butlast_append del: replicate_Suc)
    then show ?case using Cons n by (simp add: pop_back_def)
  qed simp
  from this [of "map int [0..<n]" n] show ?thesis by simp
qed

lemma subsets_R_subs:
  "0 \<le> idx \<Longrightarrow> idx \<le> int (length S) \<Longrightarrow> nat (int (length S) - idx) < fuel \<Longrightarrow>
   subsets_R fuel S idx (vi, res) = Ret (vi, res @ map ((@) vi) (subs (drop (nat idx) S)))"
proof (induction fuel arbitrary: idx vi res)
  case (Suc fuel)
  let ?w = "drop (nat idx) S"
  show ?case
  proof (cases "idx = int (length S)")
    case True
    then show ?thesis by (simp add: subs.simps)
  next
    case False
    then have i: "idx < int (length S)" "?w \<noteq> []" using Suc.prems by auto
    define k where "k = run_length ?w"
    define x where "x = hd ?w"
    have k: "0 < k" "k \<le> length ?w" using run_length_pos [OF i(2)] by (simp_all add: k_def)
    have x: "vec_at S idx = Ret x" using Suc.prems i by (auto simp: vec_at_def x_def hd_drop_conv_nth)
    define T where "T = subs (drop k ?w)"
    have nk: "nat (idx + int k) = k + nat idx" using Suc.prems by simp
    have rec: "subsets_R fuel S (idx + int k) (us, rs) = Ret (us, rs @ map ((@) us) T)" for us rs
      using Suc.IH [of "idx + int k" us rs] Suc.prems i k by (simp add: T_def nk add.commute) 
    have loop: "exec_fold (\<lambda>i st. exec_bind (vec_at S idx) (\<lambda>x. subsets_R fuel S (idx + int k) (fst st @ [x], snd st))) (map int [0..<m]) (vi, rs) =
        Ret (vi @ replicate m x, rs @ concat (map (\<lambda>j. map ((@) (vi @ replicate (Suc j) x)) T) [0..<m]))" for m rs
    proof (induction m)
      case (Suc m)
      have "vi @ replicate m x @ [x] = vi @ replicate (Suc m) x" by (simp add: replicate_append_same)
      then show ?case using Suc rec by (simp add: x exec_fold_append)
    qed simp
    have "subsets_R (Suc fuel) S idx (vi, res) = Ret (vi, (res @ map ((@) vi) T) @ concat (map (\<lambda>j. map ((@) (vi @ replicate (Suc j) x)) T) [0..<k]))"
      using False i Suc.prems rec [of vi res] loop [of k "res @ map ((@) vi) T"] pop_all [of k vi x]
      by (simp add: run_end_run k_def [symmetric] upto_map_int)
    moreover have "subs ?w = concat (map (\<lambda>j. map ((@) (replicate j x)) T) [0..<Suc k])"
      using i(2) by (subst subs.simps) (simp add: T_def k_def x_def del: upt_Suc)
    moreover have "[0..<Suc k] = 0 # map Suc [0..<k]" by (simp add: map_Suc_upt upt_conv_Cons del: upt_Suc)
    moreover have "(@) (us @ vs) = (\<lambda>ws. us @ vs @ ws)" for us vs :: "int list" by (rule ext) simp
    ultimately show ?thesis by (simp add: map_concat comp_def del: upt_Suc subsets_R.simps)
  qed
qed simp

text \<open>
  The subsets of a sorted list: each sub-multiset once, and sorted.
\<close>

lemma run_split:
  assumes "sorted xs" "xs \<noteq> []"
  shows "xs = replicate (run_length xs) (hd xs) @ drop (run_length xs) xs" "hd xs \<notin> set (drop (run_length xs) xs)"
proof -
  have d: "drop (run_length xs) xs = dropWhile (\<lambda>y. y = hd xs) xs" by (simp add: run_length_def dropWhile_eq_drop)
  have t: "takeWhile (\<lambda>y. y = hd xs) xs = replicate (run_length xs) (hd xs)"
    unfolding run_length_def by (rule replicate_length_same [symmetric]) (auto dest: set_takeWhileD)
  show "xs = replicate (run_length xs) (hd xs) @ drop (run_length xs) xs" using t d by (metis takeWhile_dropWhile_id)
  show "hd xs \<notin> set (drop (run_length xs) xs)"
  proof
    assume h: "hd xs \<in> set (drop (run_length xs) xs)"
    define ys where "ys = drop (run_length xs) xs"
    have ne: "ys \<noteq> []" using h by (auto simp: ys_def)
    then have "hd ys \<noteq> hd xs" using hd_dropWhile [of "\<lambda>y. y = hd xs" xs] unfolding ys_def d by blast
    moreover have "sorted ys" using assms(1) by (simp add: ys_def sorted_wrt_drop)
    moreover have "hd xs \<le> hd ys" 
    proof -
      have "hd ys \<in> set xs" using in_set_dropD [of "hd ys" "run_length xs" xs] hd_in_set [OF ne] by (simp only: ys_def)
      then show ?thesis using assms by (cases xs) auto
    qed
    ultimately show False using h ne unfolding ys_def [symmetric] by (cases ys) auto
  qed
qed

lemma count_subset_split:
  assumes "x \<notin># B" "M \<subseteq># replicate_mset k x + B"
  shows "\<exists>j N. j \<le> k \<and> N \<subseteq># B \<and> M = replicate_mset j x + N"
proof (intro exI conjI)
  show "count M x \<le> k" using mset_subset_eq_count [OF assms(2), of x] assms(1) by (simp add: not_in_iff)
  show "filter_mset (\<lambda>y. y \<noteq> x) M \<subseteq># B"
  proof (rule mset_subset_eqI)
    fix a show "count (filter_mset (\<lambda>y. y \<noteq> x) M) a \<le> count B a" using mset_subset_eq_count [OF assms(2), of a] by auto
  qed
  show "M = replicate_mset (count M x) x + filter_mset (\<lambda>y. y \<noteq> x) M" by (rule multiset_eqI) auto
qed

lemma mset_subs: "sorted xs \<Longrightarrow> mset ` set (subs xs) = {M. M \<subseteq># mset xs} \<and> distinct (map mset (subs xs)) \<and> list_all sorted (subs xs)
    \<and> (\<forall>ys \<in> set (subs xs). set ys \<subseteq> set xs)"
proof (induction xs rule: subs.induct)
  case (1 xs)
  show ?case
  proof (cases "xs = []")
    case True
    then show ?thesis by (simp add: subs.simps)
  next
    case False
    define k where "k = run_length xs"
    define x where "x = hd xs"
    define R where "R = drop k xs"
    note sp = run_split [OF "1.prems" False, folded k_def x_def, folded R_def]
    have sR: "sorted R" using "1.prems" by (simp add: R_def sorted_wrt_drop)
    have IH: "mset ` set (subs R) = {M. M \<subseteq># mset R}" "distinct (map mset (subs R))" "list_all sorted (subs R)" "\<forall>ys \<in> set (subs R). set ys \<subseteq> set R"
    proof -
      have "run_length xs \<in> set [0..<Suc (run_length xs)]" by simp
      note ih = "1.IH" [OF False this, folded k_def, folded R_def, OF sR]
      show "mset ` set (subs R) = {M. M \<subseteq># mset R}" "distinct (map mset (subs R))" "list_all sorted (subs R)" "\<forall>ys \<in> set (subs R). set ys \<subseteq> set R"
        using ih by blast+
    qed
    have S: "subs xs = concat (map (\<lambda>j. map ((@) (replicate j x)) (subs R)) [0..<Suc k])"
      using False by (subst subs.simps) (simp add: R_def k_def x_def del: upt_Suc)
    have le: "x \<le> y" if "y \<in> set R" for y
    proof -
      have "hd xs \<in> set (replicate k x)" using run_length_pos [OF False] by (simp add: k_def x_def)
      moreover have "sorted (replicate k x @ R)" using "1.prems" sp(1) by metis
      ultimately show ?thesis using that unfolding sorted_append x_def by blast
    qed
    have M: "mset xs = replicate_mset k x + mset R" using sp(1) by (metis mset_append mset_replicate)
    have xR: "x \<notin># mset R" using sp(2) by simp
    have m1: "mset ` set (subs xs) = {M. M \<subseteq># mset xs}"
    proof (intro set_eqI iffI)
      fix A assume "A \<in> mset ` set (subs xs)"
      then obtain j t where "j < Suc k" "t \<in> set (subs R)" "A = replicate_mset j x + mset t" by (auto simp: S simp del: upt_Suc)
      then have "j \<le> k" "t \<in> set (subs R)" "A = replicate_mset j x + mset t" by simp_all
      moreover from this have "mset t \<subseteq># mset R" using IH(1) by auto
      ultimately show "A \<in> {M. M \<subseteq># mset xs}" unfolding M
        by (auto intro!: mset_subset_eqI add_mono dest: mset_subset_eq_count)
    next
      fix A assume "A \<in> {M. M \<subseteq># mset xs}"
      then obtain j N where j: "j \<le> k" "N \<subseteq># mset R" "A = replicate_mset j x + N" using count_subset_split [OF xR] unfolding M by blast
      then have "N \<in> mset ` set (subs R)" using IH(1) by simp
      then obtain t where "t \<in> set (subs R)" "mset t = N" by blast
      then have "replicate j x @ t \<in> set (subs xs)" "mset (replicate j x @ t) = A" using j by (auto simp: S simp del: upt_Suc)
      then show "A \<in> mset ` set (subs xs)" by blast
    qed
    have cnt: "count (mset t) x = 0" if "t \<in> set (subs R)" for t using that IH(4) sp(2) by (auto simp: count_eq_zero_iff)
    have d: "distinct (map mset (subs xs))"
    proof -
      have "distinct (concat (map (\<lambda>j. map (\<lambda>t. replicate_mset j x + mset t) (subs R)) [0..<n]))" for n
      proof (induction n)
        case (Suc n)
        have "distinct (map (\<lambda>t. replicate_mset n x + mset t) (subs R))" using IH(2) by (simp add: distinct_map inj_on_def)
        moreover have "replicate_mset j x + mset t \<noteq> replicate_mset n x + mset t'" if "j < n" "t \<in> set (subs R)" "t' \<in> set (subs R)" for j t t'
        proof
          assume "replicate_mset j x + mset t = replicate_mset n x + mset t'"
          from arg_cong [OF this, of "\<lambda>M. count M x"] show False using that cnt by simp
        qed
        ultimately show ?case using Suc by (auto dest: sym)
      qed simp
      from this [of "Suc k"] show ?thesis by (simp add: S map_concat comp_def del: upt_Suc)
    qed
    have s: "list_all sorted (subs xs)" "\<forall>ys \<in> set (subs xs). set ys \<subseteq> set xs"
    proof -
      have "sorted (replicate j x @ t)" if "t \<in> set (subs R)" for j t
        using that IH(3,4) le by (auto simp: sorted_append list_all_iff)
      then show "list_all sorted (subs xs)" by (auto simp: S list_all_iff simp del: upt_Suc)
      have "x \<in> set xs" "set R \<subseteq> set xs" using False by (auto simp: x_def R_def dest: in_set_dropD)
      then show "\<forall>ys \<in> set (subs xs). set ys \<subseteq> set xs" using IH(4) by (auto simp: S simp del: upt_Suc)
    qed
    show ?thesis using m1 d s by blast
  qed
qed

text \<open>
  \<^verbatim>\<open>subsetsWithDup\<close> returns every sub-multiset of its argument exactly once, as a sorted vector.
\<close>

theorem subsetsWithDup_correct:
  assumes "length S < fuel"
  shows "returns (subsetsWithDup fuel S) (\<lambda>res. mset ` set res = {M. M \<subseteq># mset S} \<and> distinct (map mset res) \<and> list_all sorted res)"
proof -
  have "subsetsWithDup fuel S = Ret (subs (sort S))"
    using subsets_R_subs [of 0 "sort S" fuel "[]" "[]"] assms by (simp add: subsetsWithDup_def)
  then show ?thesis using mset_subs [of "sort S"] by simp
qed

theorem subsetsWithDup_correct_witness:
  "returns (subsetsWithDup 9 [2, 1, 2]) (\<lambda>res. mset ` set res = {M. M \<subseteq># {#1, 2, 2#}} \<and> distinct (map mset res) \<and> list_all sorted res)"
  using subsetsWithDup_correct [of "[2, 1, 2]" 9] by (simp add: add_mset_commute)

end
