(* ===== verification/Lexer_Buffer.thy ===== *)
theory Lexer_Buffer
  imports Nasty_Lexer
begin

text \<open>
  The input buffers of the scanner in \<^verbatim>\<open>nasty.l.cc\<close>: the scanner object with its stack of buffers, the memory of
  a buffer cell by cell, \<^verbatim>\<open>YY_INPUT\<close>, the refill of \<^verbatim>\<open>yy_get_next_buffer\<close> with its growing buffer, and \<^verbatim>\<open>yylex\<close>
  as it runs on them. The main result is that the refills cannot be observed: over a file of any length the
  scanner returns the tokens of the whole text, as the scanner of \<open>Nasty_Lexer\<close> does, which has the whole
  text in its buffer.
\<close>

section \<open>Files\<close>

text \<open>
  What a \<^verbatim>\<open>FILE\<close> still delivers: characters, system calls that a signal interrupts (\<^verbatim>\<open>EINTR\<close>) and failing
  system calls; the end of the list is the end of the file. \<open>ferr\<close> is the error indicator that \<^verbatim>\<open>ferror\<close> reads, \<open>tty\<close>
  what \<^verbatim>\<open>isatty\<close> tells of the descriptor.
\<close>

datatype file_event = Ch char | Intr | Err

record cfile =
  evs :: "file_event list"
  ferr :: bool
  tty :: bool

text \<open>\<^verbatim>\<open>fread\<close> stops at \<open>n\<close> characters, at the end of the file and at an error, which it returns as \<^verbatim>\<open>errno\<close>.\<close>

fun fread_events :: "nat \<Rightarrow> file_event list \<Rightarrow> string \<times> file_event list \<times> file_event option" where
  "fread_events 0 es = ([], es, None)"
| "fread_events (Suc n) [] = ([], [], None)"
| "fread_events (Suc n) (Ch c # es) = (case fread_events n es of (s, es', e) \<Rightarrow> (c # s, es', e))"
| "fread_events (Suc n) (e # es) = ([], es, Some e)"

lemma fread_events_length: "fread_events n es = (s, es', Some e) \<Longrightarrow> length es' < length es"
  by (induction n es arbitrary: s es' rule: fread_events.induct) (auto split: prod.splits intro: less_SucI)

text \<open>The branch of \<^verbatim>\<open>YY_INPUT\<close> for files: an interrupted call that read nothing is repeated.\<close>

function input_block :: "nat \<Rightarrow> cfile \<Rightarrow> (string \<times> cfile) exec" where
  "input_block n f =
     (case fread_events n (evs f) of (s, es, e) \<Rightarrow>
      if s = [] \<and> (ferr f \<or> e \<noteq> None)
      then if e \<noteq> Some Intr then Fatal else input_block n (f\<lparr>evs := es, ferr := False\<rparr>)
      else Ret (s, f\<lparr>evs := es, ferr := ferr f \<or> e \<noteq> None\<rparr>))"
  by auto
termination by (relation "measure (\<lambda>(n, f). length (evs f))") (auto dest!: fread_events_length [OF sym])

declare input_block.simps [simp del]

text \<open>The branch for terminals: one line, read by \<^verbatim>\<open>getc\<close>; \<open>None\<close> is \<^verbatim>\<open>EOF\<close>.\<close>

definition file_getc :: "cfile \<Rightarrow> char option \<times> cfile" where
  "file_getc f = (case evs f of
     [] \<Rightarrow> (None, f)
   | Ch c # es \<Rightarrow> (Some c, f\<lparr>evs := es\<rparr>)
   | _ # es \<Rightarrow> (None, f\<lparr>evs := es, ferr := True\<rparr>))"

fun getc_line :: "nat \<Rightarrow> cfile \<Rightarrow> string \<times> char option \<times> cfile" where
  "getc_line 0 f = ([], Some CHR ''*'', f)"
| "getc_line (Suc n) f = (case file_getc f of
     (None, f) \<Rightarrow> ([], None, f)
   | (Some c, f) \<Rightarrow>
       if c = newline_char then ([], Some c, f)
       else (case getc_line n f of (s, r, f) \<Rightarrow> (c # s, if n = 0 then Some c else r, f)))"

definition input_line :: "nat \<Rightarrow> cfile \<Rightarrow> (string \<times> cfile) exec" where
  "input_line n f = (case getc_line n f of (s, c, f) \<Rightarrow>
     let s' = if c = Some newline_char then s @ [newline_char] else s in
     if c = None \<and> ferr f then Fatal else Ret (s', f))"

definition YY_INPUT :: "bool \<Rightarrow> nat \<Rightarrow> cfile \<Rightarrow> (string \<times> cfile) exec" where
  "YY_INPUT interactive n f = (if interactive then input_line n f else input_block n f)"

section \<open>The scanner object\<close>

text \<open>
  Pointers into \<^verbatim>\<open>yy_ch_buf\<close> are offsets; a cell of fresh memory is indeterminate (\<open>None\<close>). Buffers are
  objects on a heap, which the buffer stack names by their addresses; \<^verbatim>\<open>yy_buffer_stack_max\<close> is the length of the
  stack's array. Files are named by numbers, 0 is \<^verbatim>\<open>stdin\<close> and 1 is \<^verbatim>\<open>stdout\<close>.
\<close>

datatype buffer_status = YY_BUFFER_NEW | YY_BUFFER_NORMAL | YY_BUFFER_EOF_PENDING

record yy_buffer_state =
  yy_input_file :: "nat option"
  yy_ch_buf :: "char option list"
  yy_buf_pos :: nat
  yy_buf_size :: nat
  b_n_chars :: nat
  yy_is_our_buffer :: bool
  yy_is_interactive :: bool
  yy_at_bol :: bool
  yy_bs_lineno :: int
  yy_bs_column :: int
  yy_fill_buffer :: bool
  yy_buffer_status :: buffer_status

record scanner =
  yyin_r :: "nat option"
  yyout_r :: "nat option"
  yy_buffer_stack_top :: nat
  yy_buffer_stack :: "nat option list option"
  yy_hold_char :: char
  yy_n_chars :: nat
  yyleng_r :: int
  c_buf_p :: nat
  yy_init :: bool
  yy_start :: nat
  yy_did_buffer_switch_on_eof :: bool
  last_state :: nat
  last_cpos :: nat
  yytext_r :: nat
  buffers :: "nat \<Rightarrow> yy_buffer_state option"
  next_buffer :: nat
  files :: "nat \<Rightarrow> cfile"

definition YY_CURRENT_BUFFER :: "scanner \<Rightarrow> nat option exec" where
  "YY_CURRENT_BUFFER st = (case yy_buffer_stack st of
     None \<Rightarrow> Ret None
   | Some bs \<Rightarrow> if yy_buffer_stack_top st < length bs then Ret (bs ! yy_buffer_stack_top st) else Undefined)"

definition set_current :: "nat option \<Rightarrow> scanner \<Rightarrow> scanner exec" where
  "set_current p st = (case yy_buffer_stack st of
     None \<Rightarrow> Undefined
   | Some bs \<Rightarrow> if yy_buffer_stack_top st < length bs
       then Ret (st\<lparr>yy_buffer_stack := Some (bs[yy_buffer_stack_top st := p])\<rparr>) else Undefined)"

definition buffer_at :: "nat option \<Rightarrow> scanner \<Rightarrow> yy_buffer_state exec" where
  "buffer_at p st = (case p of None \<Rightarrow> Undefined | Some a \<Rightarrow> exec_of_option Undefined (buffers st a))"

definition cur_buf :: "scanner \<Rightarrow> yy_buffer_state exec" where
  "cur_buf st = exec_bind (YY_CURRENT_BUFFER st) (\<lambda>p. buffer_at p st)"

definition put_cur :: "yy_buffer_state \<Rightarrow> scanner \<Rightarrow> scanner exec" where
  "put_cur b st = exec_bind (YY_CURRENT_BUFFER st) (\<lambda>p.
     case p of None \<Rightarrow> Undefined | Some a \<Rightarrow> Ret (st\<lparr>buffers := (buffers st)(a \<mapsto> b)\<rparr>))"

definition cell_at :: "char option list \<Rightarrow> nat \<Rightarrow> char exec" where
  "cell_at m i = (if i < length m then exec_of_option Undefined (m ! i) else Undefined)"

definition get_char :: "nat \<Rightarrow> scanner \<Rightarrow> char exec" where
  "get_char i st = exec_bind (cur_buf st) (\<lambda>b. cell_at (yy_ch_buf b) i)"

definition put_char :: "nat \<Rightarrow> char \<Rightarrow> scanner \<Rightarrow> scanner exec" where
  "put_char i c st = exec_bind (cur_buf st) (\<lambda>b.
     if i < length (yy_ch_buf b) then put_cur (b\<lparr>yy_ch_buf := (yy_ch_buf b)[i := Some c]\<rparr>) st else Undefined)"

section \<open>Buffer management\<close>

text \<open>
  \<open>ok n\<close> tells whether an allocation of \<open>n\<close> bytes succeeds; a \<^verbatim>\<open>yy_buffer_state\<close> has 64 bytes, a pointer 8.
  \<^verbatim>\<open>YY_END_OF_BUFFER_CHAR\<close> is NUL.
\<close>

definition realloc_cells :: "nat \<Rightarrow> char option list \<Rightarrow> char option list" where
  "realloc_cells n m = take n m @ replicate (n - length m) None"

definition yy_load_buffer_state :: "scanner \<Rightarrow> scanner exec" where
  "yy_load_buffer_state st = exec_bind (cur_buf st) (\<lambda>b.
     let st = st\<lparr>yy_n_chars := b_n_chars b, c_buf_p := yy_buf_pos b, yytext_r := yy_buf_pos b, yyin_r := yy_input_file b\<rparr> in
     exec_bind (get_char (c_buf_p st) st) (\<lambda>c. Ret (st\<lparr>yy_hold_char := c\<rparr>)))"

definition yy_flush_buffer :: "nat option \<Rightarrow> scanner \<Rightarrow> scanner exec" where
  "yy_flush_buffer p st = (case p of None \<Rightarrow> Ret st | Some a \<Rightarrow>
     exec_bind (buffer_at p st) (\<lambda>b.
     if 1 < length (yy_ch_buf b) then
       let b = b\<lparr>b_n_chars := 0, yy_ch_buf := (yy_ch_buf b)[0 := Some CHR 0x00, 1 := Some CHR 0x00], yy_buf_pos := 0,
             yy_at_bol := True, yy_buffer_status := YY_BUFFER_NEW\<rparr>;
           st = st\<lparr>buffers := (buffers st)(a \<mapsto> b)\<rparr> in
       exec_bind (YY_CURRENT_BUFFER st) (\<lambda>q. if p = q then yy_load_buffer_state st else Ret st)
     else Undefined))"

definition yy_init_buffer :: "nat option \<Rightarrow> nat option \<Rightarrow> scanner \<Rightarrow> scanner exec" where
  "yy_init_buffer p f st =
     exec_bind (yy_flush_buffer p st) (\<lambda>st.
     exec_bind (buffer_at p st) (\<lambda>b.
     exec_bind (YY_CURRENT_BUFFER st) (\<lambda>q.
     let b = b\<lparr>yy_input_file := f, yy_fill_buffer := True\<rparr>;
         b = (if p \<noteq> q then b\<lparr>yy_bs_lineno := 1, yy_bs_column := 0\<rparr> else b);
         b = b\<lparr>yy_is_interactive := (case f of None \<Rightarrow> False | Some i \<Rightarrow> tty (files st i))\<rparr> in
     Ret (st\<lparr>buffers := (buffers st)(the p \<mapsto> b)\<rparr>))))"

definition yy_create_buffer :: "(nat \<Rightarrow> bool) \<Rightarrow> nat option \<Rightarrow> nat \<Rightarrow> scanner \<Rightarrow> (nat \<times> scanner) exec" where
  "yy_create_buffer ok f sz st =
     (if \<not> ok 64 \<or> \<not> ok (sz + 2) then Fatal
      else let a = next_buffer st;
               b = \<lparr>yy_input_file = None, yy_ch_buf = replicate (sz + 2) None, yy_buf_pos = 0, yy_buf_size = sz,
                    b_n_chars = 0, yy_is_our_buffer = True, yy_is_interactive = False, yy_at_bol = False,
                    yy_bs_lineno = 0, yy_bs_column = 0, yy_fill_buffer = False, yy_buffer_status = YY_BUFFER_NEW\<rparr> in
           exec_bind (yy_init_buffer (Some a) f (st\<lparr>buffers := (buffers st)(a \<mapsto> b), next_buffer := a + 1\<rparr>))
             (\<lambda>st. Ret (a, st)))"

definition yyensure_buffer_stack :: "(nat \<Rightarrow> bool) \<Rightarrow> scanner \<Rightarrow> scanner exec" where
  "yyensure_buffer_stack ok st = (case yy_buffer_stack st of
     None \<Rightarrow> if ok 8 then Ret (st\<lparr>yy_buffer_stack := Some [None], yy_buffer_stack_top := 0\<rparr>) else Fatal
   | Some bs \<Rightarrow>
       if yy_buffer_stack_top st \<ge> length bs - 1 then
         if ok ((length bs + 8) * 8) then Ret (st\<lparr>yy_buffer_stack := Some (bs @ replicate 8 None)\<rparr>) else Fatal
       else Ret st)"

definition yyrestart :: "(nat \<Rightarrow> bool) \<Rightarrow> nat option \<Rightarrow> scanner \<Rightarrow> scanner exec" where
  "yyrestart ok f st =
     exec_bind (YY_CURRENT_BUFFER st) (\<lambda>p.
     exec_bind (if p = None
       then exec_bind (yyensure_buffer_stack ok st) (\<lambda>st.
            exec_bind (yy_create_buffer ok (yyin_r st) 16384 st) (\<lambda>(a, st). set_current (Some a) st))
       else Ret st) (\<lambda>st.
     exec_bind (YY_CURRENT_BUFFER st) (\<lambda>p.
     exec_bind (yy_init_buffer p f st) yy_load_buffer_state)))"

section \<open>Refilling a buffer\<close>

text \<open>The buffer doubles in a turn of \<open>grow\<close>, so 64 turns are enough.\<close>

primrec grow :: "nat \<Rightarrow> (nat \<Rightarrow> bool) \<Rightarrow> nat \<Rightarrow> yy_buffer_state \<Rightarrow> (yy_buffer_state \<times> int) exec" where
  "grow 0 ok move b = Diverge"
| "grow (Suc k) ok move b =
     (let num_to_read = to_int (int (yy_buf_size b) - int move - 1) in
      if num_to_read > 0 then Ret (b, num_to_read)
      else if yy_is_our_buffer b then
        let sz = (if to_int (int (yy_buf_size b) * 2) \<le> 0 then yy_buf_size b + yy_buf_size b div 8 else yy_buf_size b * 2) in
        if ok (sz + 2) then grow k ok move (b\<lparr>yy_buf_size := sz, yy_ch_buf := realloc_cells (sz + 2) (yy_ch_buf b)\<rparr>)
        else Fatal
      else Fatal)"

primrec move_chars :: "nat \<Rightarrow> nat \<Rightarrow> nat \<Rightarrow> char option list \<Rightarrow> char option list exec" where
  "move_chars 0 d s m = Ret m"
| "move_chars (Suc k) d s m =
     (if d < length m \<and> s < length m then move_chars k (d + 1) (s + 1) (m[d := m ! s]) else Undefined)"

definition fill_buffer :: "(nat \<Rightarrow> bool) \<Rightarrow> nat \<Rightarrow> yy_buffer_state \<Rightarrow> scanner \<Rightarrow> (yy_buffer_state \<times> scanner) exec" where
  "fill_buffer ok move b st =
     (if yy_buffer_status b = YY_BUFFER_EOF_PENDING then Ret (b\<lparr>b_n_chars := 0\<rparr>, st\<lparr>yy_n_chars := 0\<rparr>)
      else exec_bind (grow 64 ok move b) (\<lambda>(b, num_to_read).
           case yyin_r st of None \<Rightarrow> Undefined | Some f \<Rightarrow>
           exec_bind (YY_INPUT (yy_is_interactive b) (nat (min num_to_read 8192)) (files st f)) (\<lambda>(s, fl).
           exec_bind (exec_of_option Undefined (mem_write (yy_ch_buf b) move (map Some s))) (\<lambda>m.
           Ret (b\<lparr>yy_ch_buf := m, b_n_chars := length s\<rparr>, st\<lparr>yy_n_chars := length s, files := (files st)(f := fl)\<rparr>)))))"

datatype eob_act = EOB_ACT_CONTINUE_SCAN | EOB_ACT_END_OF_FILE | EOB_ACT_LAST_MATCH

definition classify_fill :: "(nat \<Rightarrow> bool) \<Rightarrow> nat \<Rightarrow> scanner \<Rightarrow> (eob_act \<times> scanner) exec" where
  "classify_fill ok move st =
     (if yy_n_chars st = 0 then
        if move = 0 then exec_bind (yyrestart ok (yyin_r st) st) (\<lambda>st. Ret (EOB_ACT_END_OF_FILE, st))
        else exec_bind (cur_buf st) (\<lambda>b.
             exec_bind (put_cur (b\<lparr>yy_buffer_status := YY_BUFFER_EOF_PENDING\<rparr>) st) (\<lambda>st. Ret (EOB_ACT_LAST_MATCH, st)))
      else Ret (EOB_ACT_CONTINUE_SCAN, st))"

definition extend_buffer :: "(nat \<Rightarrow> bool) \<Rightarrow> nat \<Rightarrow> scanner \<Rightarrow> scanner exec" where
  "extend_buffer ok move st = exec_bind (cur_buf st) (\<lambda>b.
     if yy_n_chars st + move > yy_buf_size b then
       let sz = yy_n_chars st + move + yy_n_chars st div 2 in
       if ok sz then put_cur (b\<lparr>yy_ch_buf := realloc_cells sz (yy_ch_buf b)\<rparr>) st else Fatal
     else Ret st)"

definition mark_end :: "(nat \<Rightarrow> bool) \<Rightarrow> nat \<Rightarrow> scanner \<Rightarrow> scanner exec" where
  "mark_end ok move st =
     exec_bind (extend_buffer ok move st) (\<lambda>st.
     let n = yy_n_chars st + move in
     exec_bind (put_char n CHR 0x00 (st\<lparr>yy_n_chars := n\<rparr>)) (\<lambda>st.
     exec_bind (put_char (n + 1) CHR 0x00 st) (\<lambda>st. Ret (st\<lparr>yytext_r := 0\<rparr>))))"

definition yy_get_next_buffer :: "(nat \<Rightarrow> bool) \<Rightarrow> scanner \<Rightarrow> (eob_act \<times> scanner) exec" where
  "yy_get_next_buffer ok st = exec_bind (cur_buf st) (\<lambda>b.
     if c_buf_p st > yy_n_chars st + 1 then Fatal
     else if \<not> yy_fill_buffer b
     then Ret (if c_buf_p st - yytext_r st = 1 then EOB_ACT_END_OF_FILE else EOB_ACT_LAST_MATCH, st)
     else let move = c_buf_p st - yytext_r st - 1 in
          exec_bind (move_chars move 0 (yytext_r st) (yy_ch_buf b)) (\<lambda>m.
          exec_bind (fill_buffer ok move (b\<lparr>yy_ch_buf := m\<rparr>) st) (\<lambda>(b, st).
          exec_bind (put_cur b st) (\<lambda>st.
          exec_bind (classify_fill ok move st) (\<lambda>(r, st).
          exec_bind (mark_end ok move st) (\<lambda>st. Ret (r, st)))))))"

section \<open>Scanning a buffer\<close>

function mem_match :: "char option list \<Rightarrow> nat \<Rightarrow> nat \<Rightarrow> nat \<Rightarrow> nat \<Rightarrow> (nat \<times> nat \<times> nat \<times> nat) exec" where
  "mem_match m s cp las lac =
     exec_bind (cell_at m cp) (\<lambda>ch. exec_bind (tab_at yy_ec (of_char ch)) (\<lambda>c.
     exec_bind (tab_at yy_accept s) (\<lambda>a.
     let las' = if a \<noteq> 0 then s else las; lac' = if a \<noteq> 0 then cp else lac in
     exec_bind (yy_trans s c) (\<lambda>s. exec_bind (tab_at yy_base s) (\<lambda>b.
     if b \<noteq> 27 then mem_match m s (cp + 1) las' lac' else Ret (s, cp + 1, las', lac'))))))"
  by auto
termination
  by (relation "measure (\<lambda>(m, s, cp, las, lac). length m - cp)") (auto simp: cell_at_def split: if_splits)

function mem_previous :: "char option list \<Rightarrow> nat \<Rightarrow> nat \<Rightarrow> nat \<Rightarrow> nat \<Rightarrow> nat \<Rightarrow> (nat \<times> nat \<times> nat) exec" where
  "mem_previous m s cp e las lac =
     (if cp < e then
        exec_bind (cell_at m cp) (\<lambda>ch.
        exec_bind (if ch \<noteq> CHR 0x00 then tab_at yy_ec (of_char ch) else Ret 1) (\<lambda>c.
        exec_bind (tab_at yy_accept s) (\<lambda>a.
        exec_bind (yy_trans s c) (\<lambda>s'.
        mem_previous m s' (cp + 1) e (if a \<noteq> 0 then s else las) (if a \<noteq> 0 then cp else lac)))))
      else Ret (s, las, lac))"
  by auto
termination by (relation "measure (\<lambda>(m, s, cp, e, las, lac). e - cp)") auto

declare mem_match.simps [simp del] mem_previous.simps [simp del]

definition previous_state :: "scanner \<Rightarrow> (nat \<times> scanner) exec" where
  "previous_state st = exec_bind (cur_buf st) (\<lambda>b.
     exec_bind (mem_previous (yy_ch_buf b) (yy_start st) (yytext_r st) (c_buf_p st) (last_state st) (last_cpos st))
       (\<lambda>(s, las, lac). Ret (s, st\<lparr>last_state := las, last_cpos := lac\<rparr>)))"

definition NUL_trans :: "nat \<Rightarrow> scanner \<Rightarrow> (nat \<times> scanner) exec" where
  "NUL_trans s st =
     exec_bind (yy_try_NUL_trans s (c_buf_p st) (last_state st) (last_cpos st))
       (\<lambda>(s', las, lac). Ret (s', st\<lparr>last_state := las, last_cpos := lac\<rparr>))"

text \<open>The macro \<^verbatim>\<open>YY_DO_BEFORE_ACTION\<close> ends the text of the token by a NUL character and saves what was there.\<close>

definition before_action :: "nat \<Rightarrow> nat \<Rightarrow> scanner \<Rightarrow> scanner exec" where
  "before_action bp cp st = exec_bind (get_char cp st) (\<lambda>c.
     put_char cp CHR 0x00 (st\<lparr>yytext_r := bp, yyleng_r := int cp - int bp, yy_hold_char := c, c_buf_p := cp\<rparr>))"

text \<open>
  The labels of \<^verbatim>\<open>yylex\<close> with the variables \<^verbatim>\<open>yy_current_state\<close> and \<^verbatim>\<open>yy_cp\<close>; \<open>Do_EOF\<close> is \<^verbatim>\<open>do_action\<close> with the action of
  \<^verbatim>\<open>YY_STATE_EOF(INITIAL)\<close>. The option \<^verbatim>\<open>noyywrap\<close> makes \<^verbatim>\<open>yywrap\<close> the constant 1.
\<close>

datatype label = Lmatch nat nat | Lfind nat nat | Do_EOF

definition end_of_buffer :: "(nat \<Rightarrow> bool) \<Rightarrow> nat \<Rightarrow> scanner \<Rightarrow> (label \<times> scanner) exec" where
  "end_of_buffer ok cp st =
     (let amount = cp - yytext_r st - 1 in
      exec_bind (put_char cp (yy_hold_char st) st) (\<lambda>st.
      exec_bind (cur_buf st) (\<lambda>b.
      exec_bind (if yy_buffer_status b = YY_BUFFER_NEW
        then put_cur (b\<lparr>yy_input_file := yyin_r st, yy_buffer_status := YY_BUFFER_NORMAL\<rparr>) (st\<lparr>yy_n_chars := b_n_chars b\<rparr>)
        else Ret st) (\<lambda>st.
      if c_buf_p st \<le> yy_n_chars st then
        exec_bind (previous_state (st\<lparr>c_buf_p := yytext_r st + amount\<rparr>)) (\<lambda>(s, st).
        exec_bind (NUL_trans s st) (\<lambda>(s', st).
        Ret (if s' \<noteq> 0 then (Lmatch s' (c_buf_p st + 1), st\<lparr>c_buf_p := c_buf_p st + 1\<rparr>) else (Lfind s (c_buf_p st), st))))
      else
        exec_bind (yy_get_next_buffer ok st) (\<lambda>(r, st).
        case r of
          EOB_ACT_END_OF_FILE \<Rightarrow> Ret (Do_EOF, st\<lparr>yy_did_buffer_switch_on_eof := False, c_buf_p := yytext_r st\<rparr>)
        | EOB_ACT_CONTINUE_SCAN \<Rightarrow>
            exec_bind (previous_state (st\<lparr>c_buf_p := yytext_r st + amount\<rparr>)) (\<lambda>(s, st). Ret (Lmatch s (c_buf_p st), st))
        | EOB_ACT_LAST_MATCH \<Rightarrow>
            exec_bind (previous_state (st\<lparr>c_buf_p := yy_n_chars st\<rparr>)) (\<lambda>(s, st). Ret (Lfind s (c_buf_p st), st)))))))"

text \<open>
  The code from the labels to the actions of the rules; it returns the number of the action. Every turn
  jumps back to a label, and the fuel bounds the jumps.
\<close>

primrec scan_loop :: "nat \<Rightarrow> (nat \<Rightarrow> bool) \<Rightarrow> label \<Rightarrow> nat \<Rightarrow> scanner \<Rightarrow> (nat \<times> scanner) exec" where
  "scan_loop 0 ok l bp st = Diverge"
| "scan_loop (Suc k) ok l bp st =
     (case l of Do_EOF \<Rightarrow> Ret (11, st) | _ \<Rightarrow>
      exec_bind (case l of
          Lmatch s cp \<Rightarrow> exec_bind (cur_buf st) (\<lambda>b.
            exec_bind (mem_match (yy_ch_buf b) s cp (last_state st) (last_cpos st)) (\<lambda>(s, cp, las, lac).
            Ret (s, cp, st\<lparr>last_state := las, last_cpos := lac\<rparr>)))
        | Lfind s cp \<Rightarrow> Ret (s, cp, st)
        | Do_EOF \<Rightarrow> Diverge) (\<lambda>(s, cp, st).
      exec_bind (tab_at yy_accept s) (\<lambda>act.
      exec_bind (if act = 0 then exec_bind (tab_at yy_accept (last_state st)) (\<lambda>act. Ret (act, last_cpos st))
                 else Ret (act, cp)) (\<lambda>(act, cp).
      exec_bind (before_action bp cp st) (\<lambda>st.
      if act = 0 then exec_bind (put_char cp (yy_hold_char st) st) (scan_loop k ok (Lfind (last_state st) (last_cpos st)) bp)
      else if act = 10 then exec_bind (end_of_buffer ok cp st) (\<lambda>(l, st). scan_loop k ok l (yytext_r st) st)
      else Ret (act, st))))))"

text \<open>The atom that \<^verbatim>\<open>SaveAtom\<close> makes of \<^verbatim>\<open>yytext\<close> and \<^verbatim>\<open>yyleng\<close>.\<close>

definition SaveAtom :: "atom_type \<Rightarrow> int \<times> int \<Rightarrow> scanner \<Rightarrow> atom exec" where
  "SaveAtom ty loc st = exec_bind (cur_buf st) (\<lambda>b.
     exec_bind (exec_of_option Undefined (mem_read (yy_ch_buf b) (yytext_r st) (nat (yyleng_r st)))) (\<lambda>m.
     if None \<in> set m then Undefined else Ret (Atom ty (map the m) (fst loc) (snd loc))))"

primrec scan_tokens :: "nat \<Rightarrow> (nat \<Rightarrow> bool) \<Rightarrow> int \<times> int \<Rightarrow> scanner \<Rightarrow> (int \<times> atom option \<times> scanner) exec" where
  "scan_tokens 0 ok loc st = Diverge"
| "scan_tokens (Suc k) ok loc st =
     exec_bind (put_char (c_buf_p st) (yy_hold_char st) st) (\<lambda>st.
     exec_bind (scan_loop (Suc k) ok (Lmatch (yy_start st) (c_buf_p st)) (c_buf_p st) st) (\<lambda>(act, st).
     let save = (\<lambda>ty code. exec_bind (SaveAtom ty loc st) (\<lambda>a. Ret (code, Some a, st)))
     in if act = 1 then Ret (258, None, st)
        else if act = 2 then Ret (259, None, st)
        else if act = 3 then save T_SR 263
        else if act = 4 then save T_ID 260
        else if act = 5 then save T_DBL 261
        else if act = 6 then save T_INT 262
        else if act = 7 then scan_tokens k ok loc st
        else if act = 8 \<or> act = 11 then Ret (0, None, st)
        else Fatal))"

definition first_call :: "(nat \<Rightarrow> bool) \<Rightarrow> scanner \<Rightarrow> scanner exec" where
  "first_call ok st =
     (let st = st\<lparr>yy_init := True, yy_start := (if yy_start st = 0 then 1 else yy_start st),
            yyin_r := (if yyin_r st = None then Some 0 else yyin_r st),
            yyout_r := (if yyout_r st = None then Some 1 else yyout_r st)\<rparr> in
      exec_bind (YY_CURRENT_BUFFER st) (\<lambda>p.
      exec_bind (if p = None
        then exec_bind (yyensure_buffer_stack ok st) (\<lambda>st.
             exec_bind (yy_create_buffer ok (yyin_r st) 16384 st) (\<lambda>(a, st). set_current (Some a) st))
        else Ret st) yy_load_buffer_state))"

definition file_yylex :: "nat \<Rightarrow> (nat \<Rightarrow> bool) \<Rightarrow> int \<times> int \<Rightarrow> scanner \<Rightarrow> (int \<times> atom option \<times> scanner) exec" where
  "file_yylex k ok loc st =
     exec_bind (if yy_init st then Ret st else first_call ok st) (scan_tokens k ok loc)"

section \<open>The life of a scanner\<close>

definition yy_init_globals :: "scanner \<Rightarrow> scanner" where
  "yy_init_globals st = st\<lparr>yy_buffer_stack := None, yy_buffer_stack_top := 0, c_buf_p := 0, yy_init := False,
     yy_start := 0, yyin_r := None, yyout_r := None\<rparr>"

text \<open>\<open>fs\<close> are the files of the process; the memory of the scanner is filled with zeros.\<close>

definition yylex_init :: "(nat \<Rightarrow> cfile) \<Rightarrow> scanner" where
  "yylex_init fs = yy_init_globals
     \<lparr>yyin_r = None, yyout_r = None, yy_buffer_stack_top = 0, yy_buffer_stack = None, yy_hold_char = CHR 0x00,
      yy_n_chars = 0, yyleng_r = 0, c_buf_p = 0, yy_init = False, yy_start = 0, yy_did_buffer_switch_on_eof = False,
      last_state = 0, last_cpos = 0, yytext_r = 0, buffers = (\<lambda>_. None), next_buffer = 0, files = fs\<rparr>"

definition yyset_in :: "nat option \<Rightarrow> scanner \<Rightarrow> scanner" where
  "yyset_in f st = st\<lparr>yyin_r := f\<rparr>"

definition yy_delete_buffer :: "nat option \<Rightarrow> scanner \<Rightarrow> scanner exec" where
  "yy_delete_buffer p st = (case p of None \<Rightarrow> Ret st | Some a \<Rightarrow>
     exec_bind (YY_CURRENT_BUFFER st) (\<lambda>q.
     exec_bind (if p = q then set_current None st else Ret st) (\<lambda>st.
     exec_bind (buffer_at p st) (\<lambda>b. Ret (st\<lparr>buffers := (buffers st)(a := None)\<rparr>)))))"

definition yypop_buffer_state :: "scanner \<Rightarrow> scanner exec" where
  "yypop_buffer_state st =
     exec_bind (YY_CURRENT_BUFFER st) (\<lambda>p.
     if p = None then Ret st
     else exec_bind (yy_delete_buffer p st) (\<lambda>st.
          exec_bind (set_current None st) (\<lambda>st.
          let st = st\<lparr>yy_buffer_stack_top := yy_buffer_stack_top st - 1\<rparr> in
          exec_bind (YY_CURRENT_BUFFER st) (\<lambda>p.
          if p = None then Ret st
          else exec_bind (yy_load_buffer_state st) (\<lambda>st. Ret (st\<lparr>yy_did_buffer_switch_on_eof := True\<rparr>))))))"

text \<open>What \<^verbatim>\<open>yy_switch_to_buffer\<close> and \<^verbatim>\<open>yypush_buffer_state\<close> save of the current buffer.\<close>

definition save_buffer :: "scanner \<Rightarrow> scanner exec" where
  "save_buffer st =
     exec_bind (YY_CURRENT_BUFFER st) (\<lambda>p.
     if p = None then Ret st
     else exec_bind (put_char (c_buf_p st) (yy_hold_char st) st) (\<lambda>st.
          exec_bind (cur_buf st) (\<lambda>b. put_cur (b\<lparr>yy_buf_pos := c_buf_p st, b_n_chars := yy_n_chars st\<rparr>) st)))"

definition load_switched :: "scanner \<Rightarrow> scanner exec" where
  "load_switched st =
     exec_bind (yy_load_buffer_state st) (\<lambda>st. Ret (st\<lparr>yy_did_buffer_switch_on_eof := True\<rparr>))"

definition yy_switch_to_buffer :: "(nat \<Rightarrow> bool) \<Rightarrow> nat option \<Rightarrow> scanner \<Rightarrow> scanner exec" where
  "yy_switch_to_buffer ok new st =
     exec_bind (yyensure_buffer_stack ok st) (\<lambda>st.
     exec_bind (YY_CURRENT_BUFFER st) (\<lambda>p.
     if p = new then Ret st
     else exec_bind (save_buffer st) (\<lambda>st. exec_bind (set_current new st) load_switched)))"

definition yypush_buffer_state :: "(nat \<Rightarrow> bool) \<Rightarrow> nat option \<Rightarrow> scanner \<Rightarrow> scanner exec" where
  "yypush_buffer_state ok new st =
     (if new = None then Ret st
      else exec_bind (yyensure_buffer_stack ok st) (\<lambda>st.
           exec_bind (save_buffer st) (\<lambda>st.
           exec_bind (YY_CURRENT_BUFFER st) (\<lambda>p.
           exec_bind (set_current new
             (if p \<noteq> None then st\<lparr>yy_buffer_stack_top := yy_buffer_stack_top st + 1\<rparr> else st)) load_switched))))"

text \<open>The memory that the scanner scans in place is the list \<open>base\<close>; \<open>sz\<close> is \<^verbatim>\<open>size\<close>.\<close>

definition yy_scan_buffer :: "(nat \<Rightarrow> bool) \<Rightarrow> char option list \<Rightarrow> nat \<Rightarrow> scanner \<Rightarrow> (nat option \<times> scanner) exec" where
  "yy_scan_buffer ok base sz st =
     (if sz < 2 then Ret (None, st)
      else exec_bind (cell_at base (sz - 2)) (\<lambda>c.
           if c \<noteq> CHR 0x00 then Ret (None, st)
           else exec_bind (cell_at base (sz - 1)) (\<lambda>c.
           if c \<noteq> CHR 0x00 then Ret (None, st)
           else if \<not> ok 64 then Fatal
           else let a = next_buffer st;
                    b = \<lparr>yy_input_file = None, yy_ch_buf = base, yy_buf_pos = 0, yy_buf_size = sz - 2,
                         b_n_chars = sz - 2, yy_is_our_buffer = False, yy_is_interactive = False, yy_at_bol = True,
                         yy_bs_lineno = 0, yy_bs_column = 0, yy_fill_buffer = False, yy_buffer_status = YY_BUFFER_NEW\<rparr> in
                exec_bind (yy_switch_to_buffer ok (Some a) (st\<lparr>buffers := (buffers st)(a \<mapsto> b), next_buffer := a + 1\<rparr>))
                  (\<lambda>st. Ret (Some a, st)))))"

definition yy_scan_bytes :: "(nat \<Rightarrow> bool) \<Rightarrow> string \<Rightarrow> scanner \<Rightarrow> (nat \<times> scanner) exec" where
  "yy_scan_bytes ok bytes st =
     (if \<not> ok (length bytes + 2) then Fatal
      else exec_bind (yy_scan_buffer ok (map Some bytes @ [Some CHR 0x00, Some CHR 0x00]) (length bytes + 2) st) (\<lambda>(p, st).
           case p of None \<Rightarrow> Fatal | Some a \<Rightarrow>
           exec_bind (buffer_at p st) (\<lambda>b.
           Ret (a, st\<lparr>buffers := (buffers st)(a \<mapsto> b\<lparr>yy_is_our_buffer := True\<rparr>)\<rparr>))))"

text \<open>The bytes before the first NUL character are the C string.\<close>

definition yy_scan_string :: "(nat \<Rightarrow> bool) \<Rightarrow> string \<Rightarrow> scanner \<Rightarrow> (nat \<times> scanner) exec" where
  "yy_scan_string ok str st = yy_scan_bytes ok (takeWhile (\<lambda>c. c \<noteq> CHR 0x00) str) st"

text \<open>The stack has less buffers than its array has places, which bounds the turns of the loop of \<^verbatim>\<open>yylex_destroy\<close>.\<close>

primrec destroy_buffers :: "nat \<Rightarrow> scanner \<Rightarrow> scanner exec" where
  "destroy_buffers 0 st = Diverge"
| "destroy_buffers (Suc k) st =
     exec_bind (YY_CURRENT_BUFFER st) (\<lambda>p.
     if p = None then Ret st
     else exec_bind (yy_delete_buffer p st) (\<lambda>st.
          exec_bind (set_current None st) (\<lambda>st.
          exec_bind (yypop_buffer_state st) (destroy_buffers k))))"

definition yylex_destroy :: "scanner \<Rightarrow> scanner exec" where
  "yylex_destroy st =
     exec_bind (destroy_buffers (case yy_buffer_stack st of None \<Rightarrow> 1 | Some bs \<Rightarrow> length bs + 1) st) (\<lambda>st.
     Ret (yy_init_globals (st\<lparr>yy_buffer_stack := None\<rparr>)))"

section \<open>The text in a buffer\<close>

definition mem_ok :: "char option list \<Rightarrow> string \<Rightarrow> bool" where
  "mem_ok m buf \<longleftrightarrow> length buf + 2 \<le> length m \<and> take (length buf + 2) m = map Some (buf @ [CHR 0x00, CHR 0x00])"

lemma mem_ok_nth: "mem_ok m buf \<Longrightarrow> i < length buf + 2 \<Longrightarrow> m ! i = Some ((buf @ [CHR 0x00, CHR 0x00]) ! i)"
proof -
  assume m: "mem_ok m buf" and i: "i < length buf + 2"
  then have "m ! i = take (length buf + 2) m ! i" by simp
  also have "\<dots> = map Some (buf @ [CHR 0x00, CHR 0x00]) ! i" using m by (simp add: mem_ok_def)
  finally show ?thesis using i by (simp del: map_append)
qed

lemma mem_ok_cell: "mem_ok m buf \<Longrightarrow> i < length buf + 2 \<Longrightarrow> cell_at m i = Ret ((buf @ [CHR 0x00, CHR 0x00]) ! i)"
  using mem_ok_nth [of m buf i] by (auto simp: cell_at_def mem_ok_def)

lemma mem_ok_buf_at:
  assumes "mem_ok m buf" "buf_at buf i = Ret ch"
  shows "\<exists>c. cell_at m i = Ret c \<and> ch = of_char c"
proof -
  have "i < length buf + 2" using assms(2) by (auto simp: buf_at_def split: if_splits)
  with mem_ok_cell [OF assms(1)] assms(2) show ?thesis
    by (auto simp: buf_at_def nth_append nth_Cons' split: if_splits)
qed

lemma mem_match_text:
  "mem_ok m buf \<Longrightarrow> yy_match buf s cp las lac = Ret r \<Longrightarrow> mem_match m s cp las lac = Ret r"
proof (induction buf s cp las lac rule: yy_match.induct)
  case (1 buf s cp las lac)
  from "1.prems"(2) obtain ch c a s' b where
    e: "buf_at buf cp = Ret ch" "tab_at yy_ec ch = Ret c" "tab_at yy_accept s = Ret a" "yy_trans s c = Ret s'"
      "tab_at yy_base s' = Ret b"
    by (subst (asm) yy_match.simps) (auto simp: exec_simps Let_def)
  obtain x where x: "cell_at m cp = Ret x" "ch = of_char x" using mem_ok_buf_at [OF "1.prems"(1) e(1)] by blast
  have "yy_match buf s cp las lac = (if b \<noteq> 27 then yy_match buf s' (cp + 1) (if a \<noteq> 0 then s else las) (if a \<noteq> 0 then cp else lac)
      else Ret (s', cp + 1, if a \<noteq> 0 then s else las, if a \<noteq> 0 then cp else lac))"
    by (subst yy_match.simps) (simp add: e Let_def)
  moreover have "mem_match m s cp las lac = (if b \<noteq> 27 then mem_match m s' (cp + 1) (if a \<noteq> 0 then s else las) (if a \<noteq> 0 then cp else lac)
      else Ret (s', cp + 1, if a \<noteq> 0 then s else las, if a \<noteq> 0 then cp else lac))"
    using e x by (subst mem_match.simps) (simp add: Let_def)
  ultimately show ?case using "1.prems" "1.IH" [OF e(1-3) refl refl e(4,5)] by (auto split: if_splits)
qed

text \<open>\<open>run\<close> is what \<^verbatim>\<open>yy_get_previous_state\<close> computes from a part of a token.\<close>

fun run :: "nat \<Rightarrow> string \<Rightarrow> nat \<Rightarrow> nat \<times> nat \<Rightarrow> nat \<times> nat \<times> nat" where
  "run s [] p a = (s, a)"
| "run s (c # u) p a = run (dfa s (cls c)) u (p + 1) (if acc s \<noteq> 0 then (s, p) else a)"

lemma mem_previous_run:
  assumes "mem_ok m buf" "CHR 0x00 \<notin> set buf" "e \<le> length buf"
  shows "1 \<le> s \<Longrightarrow> s \<le> 19 \<Longrightarrow> cp \<le> e \<Longrightarrow>
    mem_previous m s cp e las lac = Ret (run s (take (e - cp) (drop cp buf)) cp (las, lac))"
proof (induction "e - cp" arbitrary: s cp las lac)
  case 0
  then show ?case by (subst mem_previous.simps) simp
next
  case (Suc n)
  then have cp: "cp < e" "cp < length buf" using assms(3) by auto
  define c where "c = buf ! cp"
  have "cell_at m cp = Ret c" using mem_ok_cell [OF assms(1)] cp by (simp add: c_def nth_append)
  moreover have c0: "c \<noteq> CHR 0x00" using assms(2) cp unfolding c_def by (metis nth_mem)
  moreover note yy_ec_cls [OF c0]
  moreover have tr: "yy_trans s (cls c) = Ret (dfa s (cls c))" "1 \<le> dfa s (cls c)" "dfa s (cls c) \<le> 19"
    using yy_trans_dfa [OF Suc.prems(1,2) cls_range(2)] by auto
  ultimately have step: "mem_previous m s cp e las lac =
      mem_previous m (dfa s (cls c)) (cp + 1) e (if acc s \<noteq> 0 then s else las) (if acc s \<noteq> 0 then cp else lac)"
    using cp Suc.prems(2) by (subst mem_previous.simps) simp
  have "take (e - cp) (drop cp buf) = c # take (e - (cp + 1)) (drop (cp + 1) buf)"
    using cp by (simp add: c_def Cons_nth_drop_Suc [symmetric] Suc_diff_Suc take_Suc_Cons [symmetric] del: take_Suc_Cons)
  then show ?case unfolding step using Suc.hyps(1) [of "cp + 1"] Suc.hyps(2) tr cp by (auto simp del: run.simps) (simp_all add: run.simps)
qed

text \<open>A part of a token that reaches the end of the buffer in a live state can be continued.\<close>

lemma live_range: "s' = dfa s (cls c) \<Longrightarrow> 1 \<le> s \<Longrightarrow> s \<le> 18 \<Longrightarrow> s \<noteq> 3 \<Longrightarrow> live s' \<Longrightarrow> 1 \<le> s' \<and> s' \<le> 18 \<and> s' \<noteq> 3"
  using yy_trans_dfa [of s "cls c"] cls_range [of c] dfa_not_3 [of s "cls c"] live_iff [of s'] by auto

lemma run_ends:
  assumes "ends s u" "1 \<le> s" "s \<le> 18" "s \<noteq> 3" "live s" "run s u p (las, lac) = (s', las', lac')" "las \<le> 19"
  shows "1 \<le> s' \<and> s' \<le> 18 \<and> s' \<noteq> 3 \<and> live s' \<and> las' \<le> 19"
    and "munch s (u @ v) p (acc las, lac) = munch s' v (p + length u) (acc las', lac')"
    and "ends s (u @ v) \<longleftrightarrow> ends s' v"
  using assms
proof (induction u arbitrary: s p las lac)
  case (Cons c u)
  { case 1
    have "live (dfa s (cls c))" using "1"(1) by (simp add: Let_def)
    note r = live_range [OF refl "1"(2-4) this] and l = this
    show ?case by (rule Cons(1) [of "dfa s (cls c)" "p + 1" "if acc s \<noteq> 0 then s else las" "if acc s \<noteq> 0 then p else lac"])
      (use 1 r l in \<open>auto simp: Let_def if_split split: if_splits\<close>) }
  { case 2
    have "live (dfa s (cls c))" using "2"(1) by (simp add: Let_def)
    note r = live_range [OF refl "2"(2-4) this] and l = this
    have "munch (dfa s (cls c)) (u @ v) (p + 1) (acc (if acc s \<noteq> 0 then s else las), if acc s \<noteq> 0 then p else lac) =
        munch s' v (p + 1 + length u) (acc las', lac')"
      by (rule Cons(2)) (use 2 r l in \<open>auto simp: Let_def split: if_splits\<close>)
    then show ?case using r by (auto simp: Let_def split: if_splits) }
  { case 3
    have "live (dfa s (cls c))" using "3"(1) by (simp add: Let_def)
    note r = live_range [OF refl "3"(2-4) this] and l = this
    have "ends (dfa s (cls c)) (u @ v) \<longleftrightarrow> ends s' v"
      by (rule Cons(3) [of "dfa s (cls c)" "p + 1" "if acc s \<noteq> 0 then s else las" "if acc s \<noteq> 0 then p else lac"])
        (use 3 r l in \<open>auto simp: Let_def split: if_splits\<close>)
    then show ?case using l by (simp add: Let_def) }
qed auto

lemma munch_not_ends:
  "\<not> ends s u \<Longrightarrow> 1 \<le> s \<Longrightarrow> s \<le> 18 \<Longrightarrow> s \<noteq> 3 \<Longrightarrow> munch s (u @ v) p ak = munch s u p ak"
proof (induction u arbitrary: s p ak)
  case (Cons c u)
  define s' where "s' = dfa s (cls c)"
  show ?case
  proof (cases "live s'")
    case True
    note r = live_range [OF s'_def Cons.prems(2-4) True]
    then show ?thesis using Cons.IH [of s'] Cons.prems True by (simp add: Let_def flip: s'_def)
  next
    case False
    have "1 \<le> s'" "s' \<le> 19" using yy_trans_dfa [of s "cls c"] cls_range [of c] Cons.prems by (auto simp: s'_def)
    then show ?thesis using munch_dead [of s'] False by (simp add: Let_def flip: s'_def)
  qed
qed simp

section \<open>Reading a file\<close>

lemma fread_chars: "fread_events n (map Ch t) = (take n t, map Ch (drop n t), None)"
proof (induction n arbitrary: t)
  case (Suc n)
  then show ?case by (cases t) simp_all
qed simp

lemma input_block_text:
  assumes "evs f = map Ch t" "\<not> ferr f"
  shows "input_block n f = Ret (take n t, f\<lparr>evs := map Ch (drop n t)\<rparr>)"
  using assms by (subst input_block.simps) (cases f; simp add: fread_chars)

lemma getc_line_text:
  assumes "evs f = map Ch t" "\<not> ferr f"
  shows "\<exists>s c t' f'. getc_line n f = (s, c, f') \<and> evs f' = map Ch t' \<and> \<not> ferr f' \<and>
    (c = Some newline_char \<and> t = s @ newline_char # t' \<and> length s < n \<or>
     c \<noteq> Some newline_char \<and> t = s @ t' \<and> length s \<le> n \<and> (0 < n \<and> t \<noteq> [] \<longrightarrow> s \<noteq> []))"
  using assms
proof (induction n arbitrary: f t)
  case (Suc n)
  show ?case
  proof (cases t)
    case Nil
    with Suc.prems show ?thesis by (simp add: file_getc_def)
  next
    case (Cons c u)
    define g where "g = f\<lparr>evs := map Ch u\<rparr>"
    have g: "file_getc f = (Some c, g)" "evs g = map Ch u" "\<not> ferr g" using Suc.prems Cons by (simp_all add: file_getc_def g_def)
    show ?thesis
    proof (cases "c = newline_char")
      case True
      with g Cons show ?thesis by simp
    next
      case False
      obtain s r t' f' where h: "getc_line n g = (s, r, f')" "evs f' = map Ch t'" "\<not> ferr f'"
        "r = Some newline_char \<and> u = s @ newline_char # t' \<and> length s < n \<or> r \<noteq> Some newline_char \<and> u = s @ t' \<and> length s \<le> n"
        using Suc.IH [OF g(2,3)] by metis
      have "getc_line (Suc n) f = (c # s, if n = 0 then Some c else r, f')" using g h(1) False by simp
      moreover have "n = 0 \<Longrightarrow> s = [] \<and> u = t'" using h(4) by auto
      ultimately show ?thesis using h(2-) False Cons
        by (intro exI [of _ "c # s"] exI [of _ "if n = 0 then Some c else r"] exI [of _ t'] exI [of _ f']) auto
    qed
  qed
qed simp

lemma YY_INPUT_text:
  assumes "evs f = map Ch t" "\<not> ferr f" "0 < n"
  shows "\<exists>s t' f'. YY_INPUT i n f = Ret (s, f') \<and> t = s @ t' \<and> evs f' = map Ch t' \<and> \<not> ferr f' \<and> length s \<le> n \<and>
    (s = [] \<longleftrightarrow> t = [])"
proof (cases i)
  case True
  obtain s c t' f' where h: "getc_line n f = (s, c, f')" "evs f' = map Ch t'" "\<not> ferr f'"
    "c = Some newline_char \<and> t = s @ newline_char # t' \<and> length s < n \<or>
     c \<noteq> Some newline_char \<and> t = s @ t' \<and> length s \<le> n \<and> (t \<noteq> [] \<longrightarrow> s \<noteq> [])"
    using getc_line_text [OF assms(1,2), of n] assms(3) by blast
  show ?thesis
  proof (cases "c = Some newline_char")
    case nl: True
    with h True show ?thesis
      by (intro exI [of _ "s @ [newline_char]"] exI [of _ t'] exI [of _ f']) (simp add: YY_INPUT_def input_line_def)
  next
    case False
    then have t: "t = s @ t'" "length s \<le> n" "t \<noteq> [] \<longrightarrow> s \<noteq> []" using h(4) by blast+
    have "YY_INPUT i n f = Ret (s, f')" using h(1,3) True False by (simp add: YY_INPUT_def input_line_def)
    moreover have "s = [] \<longleftrightarrow> t = []" using t(1,3) by blast
    ultimately show ?thesis using t(1,2) h(2,3) by blast
  qed
next
  case False
  then show ?thesis using input_block_text [OF assms(1,2), of n] assms
    by (intro exI [of _ "take n t"] exI [of _ "drop n t"] exI [of _ "f\<lparr>evs := map Ch (drop n t)\<rparr>"]) (auto simp: YY_INPUT_def)
qed

text \<open>
  The error indicator of a file survives a read that returned something, because \<^verbatim>\<open>clearerr\<close> is only called after
  an empty one: at the end of the file \<^verbatim>\<open>errno\<close> is 0 by then, and the scanner gives up.
\<close>

lemma sticky_error: "evs f = [] \<Longrightarrow> ferr f \<Longrightarrow> 0 < n \<Longrightarrow> input_block n f = Fatal"
  by (cases n; subst input_block.simps) simp_all

section \<open>Moving and growing\<close>

lemma move_chars_ok:
  "s + k \<le> length m \<Longrightarrow> d \<le> s \<Longrightarrow> move_chars k d s m = Ret (take d m @ take k (drop s m) @ drop (d + k) m)"
proof (induction k arbitrary: d s m)
  case (Suc k)
  let ?m = "m[d := m ! s]"
  have "move_chars (Suc k) d s m = Ret (take (d + 1) ?m @ take k (drop (s + 1) ?m) @ drop (d + 1 + k) ?m)"
    using Suc.IH [of "s + 1" ?m "d + 1"] Suc.prems by simp
  moreover have "take (d + 1) ?m = take d m @ [m ! s]" using Suc.prems by (simp add: take_Suc_conv_app_nth)
  moreover have "take (Suc k) (drop s m) = m ! s # take k (drop (s + 1) m)"
    using Suc.prems by (simp add: Cons_nth_drop_Suc [symmetric])
  ultimately show ?case using Suc.prems by simp
qed simp

lemma to_int_small: "- (2 ^ 31) \<le> i \<Longrightarrow> i < 2 ^ 31 \<Longrightarrow> to_int i = i"
  by (simp add: int_ok_def)

definition cap :: "nat \<Rightarrow> nat" where
  "cap n = max 16384 (2 * (n + 1))"

definition mem_enough :: "nat \<Rightarrow> (nat \<Rightarrow> bool) \<Rightarrow> bool" where
  "mem_enough n ok \<longleftrightarrow> 2 * (n + 1) < 2 ^ 31 \<and> (\<forall>k \<le> cap n + 2. ok k)"

lemma grow_ok:
  assumes "yy_is_our_buffer b" "length (yy_ch_buf b) = yy_buf_size b + 2" "move \<le> yy_buf_size b" "2 \<le> yy_buf_size b"
    "yy_buf_size b \<le> cap n" "move \<le> n" "mem_enough n ok"
  shows "\<exists>sz m num. grow (Suc (Suc k)) ok move b = Ret (b\<lparr>yy_buf_size := sz, yy_ch_buf := m\<rparr>, num) \<and> 0 < num \<and>
    num = int sz - int move - 1 \<and> yy_buf_size b \<le> sz \<and> sz \<le> cap n \<and> length m = sz + 2 \<and>
    take (yy_buf_size b + 2) m = yy_ch_buf b"
proof -
  let ?s = "yy_buf_size b"
  have n: "2 * (n + 1) < 2 ^ 31" "cap n < 2 ^ 31" using assms(7) by (simp_all add: mem_enough_def cap_def)
  have t: "to_int (int ?s - int move - 1) = int ?s - int move - 1"
    by (rule to_int_small) (use n assms in simp_all)
  show ?thesis
  proof (cases "move + 1 < ?s")
    case True
    then show ?thesis using t assms by (intro exI [of _ ?s] exI [of _ "yy_ch_buf b"] exI [of _ "int ?s - int move - 1"]) simp
  next
    case False
    then have s: "?s * 2 \<le> 2 * (n + 1)" using assms(6) by simp
    have t2: "to_int (int ?s * 2) = int ?s * 2"
      by (rule to_int_small) (use n s in simp_all)
    have t3: "to_int (int (?s * 2) - int move - 1) = int (?s * 2) - int move - 1"
      by (rule to_int_small) (use n s assms in simp_all)
    have ok: "ok (?s * 2 + 2)" using assms(7) s by (simp add: mem_enough_def cap_def)
    show ?thesis using False t t2 t3 ok assms s
      by (intro exI [of _ "?s * 2"] exI [of _ "realloc_cells (?s * 2 + 2) (yy_ch_buf b)"] exI [of _ "int (?s * 2) - int move - 1"])
         (simp add: realloc_cells_def cap_def Let_def)
  qed
qed

lemma mem_ok_put:
  assumes "take (length buf) m = map Some buf" "length buf + 2 \<le> length m"
  shows "mem_ok (m[length buf := Some CHR 0x00, length buf + 1 := Some CHR 0x00]) buf"
proof -
  have "m = map Some buf @ drop (length buf) m" using assms(1) by (metis append_take_drop_id)
  moreover obtain x y r where "drop (length buf) m = x # y # r"
    using assms(2) by (cases "drop (length buf) m"; cases "tl (drop (length buf) m)") (auto dest: arg_cong [of _ _ length])
  ultimately have m: "m = map Some buf @ x # y # r" by simp
  show ?thesis unfolding m mem_ok_def by (simp add: list_update_append)
qed

section \<open>The invariant of the scanner\<close>

lemma current_upd [simp]:
  "YY_CURRENT_BUFFER (st\<lparr>yy_n_chars := x1\<rparr>) = YY_CURRENT_BUFFER st"
  "YY_CURRENT_BUFFER (st\<lparr>c_buf_p := x2\<rparr>) = YY_CURRENT_BUFFER st"
  "YY_CURRENT_BUFFER (st\<lparr>yytext_r := x2\<rparr>) = YY_CURRENT_BUFFER st"
  "YY_CURRENT_BUFFER (st\<lparr>yyleng_r := x3\<rparr>) = YY_CURRENT_BUFFER st"
  "YY_CURRENT_BUFFER (st\<lparr>yy_hold_char := x4\<rparr>) = YY_CURRENT_BUFFER st"
  "YY_CURRENT_BUFFER (st\<lparr>last_state := x2\<rparr>) = YY_CURRENT_BUFFER st"
  "YY_CURRENT_BUFFER (st\<lparr>last_cpos := x2\<rparr>) = YY_CURRENT_BUFFER st"
  "YY_CURRENT_BUFFER (st\<lparr>buffers := x5\<rparr>) = YY_CURRENT_BUFFER st"
  "YY_CURRENT_BUFFER (st\<lparr>next_buffer := x2\<rparr>) = YY_CURRENT_BUFFER st"
  "YY_CURRENT_BUFFER (st\<lparr>files := x6\<rparr>) = YY_CURRENT_BUFFER st"
  "YY_CURRENT_BUFFER (st\<lparr>yyin_r := x7\<rparr>) = YY_CURRENT_BUFFER st"
  "YY_CURRENT_BUFFER (st\<lparr>yyout_r := x7\<rparr>) = YY_CURRENT_BUFFER st"
  "YY_CURRENT_BUFFER (st\<lparr>yy_init := x8\<rparr>) = YY_CURRENT_BUFFER st"
  "YY_CURRENT_BUFFER (st\<lparr>yy_start := x2\<rparr>) = YY_CURRENT_BUFFER st"
  "YY_CURRENT_BUFFER (st\<lparr>yy_did_buffer_switch_on_eof := x8\<rparr>) = YY_CURRENT_BUFFER st"
  by (simp_all add: YY_CURRENT_BUFFER_def split: option.splits)

lemmas buffer_defs = cur_buf_def buffer_at_def put_cur_def get_char_def put_char_def

text \<open>
  The scanner is at buffer \<open>b\<close>, which holds the characters \<open>buf\<close>, and the file still has \<open>rest\<close>; \<open>n\<close> bounds the text that is
  still to be scanned and so the size of the buffer. A buffer without file (\<^verbatim>\<open>yy_scan_bytes\<close>) is never filled.
\<close>

definition filled_from :: "nat \<Rightarrow> scanner \<Rightarrow> yy_buffer_state \<Rightarrow> string \<Rightarrow> string \<Rightarrow> bool" where
  "filled_from n st b buf rest \<longleftrightarrow> yy_is_our_buffer b \<and> length (yy_ch_buf b) = yy_buf_size b + 2 \<and>
     length buf \<le> yy_buf_size b \<and> 2 \<le> yy_buf_size b \<and> yy_buf_size b \<le> cap n \<and>
     (\<exists>f. yyin_r st = Some f \<and> evs (files st f) = map Ch rest \<and> \<not> ferr (files st f)) \<and>
     (yy_buffer_status b = YY_BUFFER_EOF_PENDING \<longrightarrow> rest = [])"

definition sc_inv :: "nat \<Rightarrow> scanner \<Rightarrow> nat \<Rightarrow> yy_buffer_state \<Rightarrow> string \<Rightarrow> string \<Rightarrow> bool" where
  "sc_inv n st a b buf rest \<longleftrightarrow> YY_CURRENT_BUFFER st = Ret (Some a) \<and> buffers st a = Some b \<and>
     yy_init st \<and> yy_start st = 1 \<and> last_state st \<le> 19 \<and> yy_n_chars st = length buf \<and>
     CHR 0x00 \<notin> set buf \<and> CHR 0x00 \<notin> set rest \<and> (yy_buffer_status b = YY_BUFFER_NEW \<longrightarrow> b_n_chars b = length buf) \<and>
     (yy_fill_buffer b \<longrightarrow> filled_from n st b buf rest) \<and> (\<not> yy_fill_buffer b \<longrightarrow> rest = [])"

text \<open>
  What the code between the labels may rely on, with the character at \<^verbatim>\<open>yy_c_buf_p\<close> in place (\<open>at_text\<close>), and
  what holds between two tokens, when it is in \<^verbatim>\<open>yy_hold_char\<close> (\<open>held\<close>). \<open>txt\<close> is the text ahead.
\<close>

definition at_text :: "nat \<Rightarrow> scanner \<Rightarrow> nat \<Rightarrow> yy_buffer_state \<Rightarrow> string \<Rightarrow> string \<Rightarrow> bool" where
  "at_text n st a b buf rest \<longleftrightarrow> sc_inv n st a b buf rest \<and> mem_ok (yy_ch_buf b) buf"

definition held :: "nat \<Rightarrow> scanner \<Rightarrow> string \<Rightarrow> bool" where
  "held n st txt \<longleftrightarrow> (\<exists>a b buf rest. sc_inv n st a b buf rest \<and> c_buf_p st \<le> length buf \<and>
     mem_ok ((yy_ch_buf b)[c_buf_p st := Some (yy_hold_char st)]) buf \<and> txt = drop (c_buf_p st) buf @ rest \<and> length txt \<le> n)"

lemma at_textD:
  assumes "at_text n st a b buf rest"
  shows "YY_CURRENT_BUFFER st = Ret (Some a)" "buffers st a = Some b" "yy_n_chars st = length buf" "last_state st \<le> 19"
    "mem_ok (yy_ch_buf b) buf" "length buf + 2 \<le> length (yy_ch_buf b)" "CHR 0x00 \<notin> set buf" "yy_start st = 1"
    "cur_buf st = Ret b"
  using assms by (simp_all add: at_text_def sc_inv_def mem_ok_def buffer_defs)

lemma at_text_pointers:
  "at_text n st a b buf rest \<Longrightarrow> at_text n (st\<lparr>c_buf_p := x\<rparr>) a b buf rest"
  "at_text n st a b buf rest \<Longrightarrow> at_text n (st\<lparr>yytext_r := x\<rparr>) a b buf rest"
  "at_text n st a b buf rest \<Longrightarrow> x \<le> 19 \<Longrightarrow> at_text n (st\<lparr>last_state := x, last_cpos := y\<rparr>) a b buf rest"
  "at_text n st a b buf rest \<Longrightarrow> at_text n (st\<lparr>yy_did_buffer_switch_on_eof := w\<rparr>) a b buf rest"
  by (simp_all add: at_text_def sc_inv_def filled_from_def)

text \<open>The two ends of an action: \<^verbatim>\<open>YY_DO_BEFORE_ACTION\<close> and the restoration of the held character.\<close>

lemma before_action_ok:
  assumes "at_text n st a b buf rest" "cp \<le> length buf + 1"
  shows "\<exists>st' b'. before_action bp cp st = Ret st' \<and> sc_inv n st' a b' buf rest \<and>
    mem_ok ((yy_ch_buf b')[cp := Some (yy_hold_char st')]) buf \<and> c_buf_p st' = cp \<and> yytext_r st' = bp \<and>
    yyleng_r st' = int cp - int bp \<and> last_state st' = last_state st \<and> last_cpos st' = last_cpos st \<and>
    (\<forall>i < cp. yy_ch_buf b' ! i = yy_ch_buf b ! i) \<and> length (yy_ch_buf b') = length (yy_ch_buf b)"
proof -
  note d = at_textD [OF assms(1)]
  define c where "c = (buf @ [CHR 0x00, CHR 0x00]) ! cp"
  define b' where "b' = b\<lparr>yy_ch_buf := (yy_ch_buf b)[cp := Some CHR 0x00]\<rparr>"
  define st' where "st' = st\<lparr>yytext_r := bp, yyleng_r := int cp - int bp, yy_hold_char := c, c_buf_p := cp,
    buffers := (buffers st)(a \<mapsto> b')\<rparr>"
  have lt: "cp < length (yy_ch_buf b)" "cp < length buf + 2" using assms(2) d(6) by simp_all
  have c: "cell_at (yy_ch_buf b) cp = Ret c" "yy_ch_buf b ! cp = Some c"
    using mem_ok_cell [OF d(5) lt(2)] mem_ok_nth [OF d(5) lt(2)] by (simp_all add: c_def)
  have "before_action bp cp st = Ret st'"
    using d(1,2) c lt by (simp add: before_action_def buffer_defs st'_def b'_def)
  moreover have "mem_ok ((yy_ch_buf b')[cp := Some (yy_hold_char st')]) buf"
    using d(5) c(2) list_update_id [of "yy_ch_buf b" cp] by (simp add: b'_def st'_def)
  moreover have "sc_inv n st' a b' buf rest"
    using assms(1) by (simp add: at_text_def sc_inv_def filled_from_def st'_def b'_def)
  ultimately show ?thesis using lt by (intro exI [of _ st'] exI [of _ b']) (simp add: st'_def b'_def)
qed

lemma restore_hold:
  assumes "sc_inv n st a b buf rest" "mem_ok ((yy_ch_buf b)[cp := Some (yy_hold_char st)]) buf" "cp \<le> length buf + 1"
  shows "\<exists>st' b'. put_char cp (yy_hold_char st) st = Ret st' \<and> at_text n st' a b' buf rest \<and>
    st' = st\<lparr>buffers := (buffers st)(a \<mapsto> b')\<rparr> \<and> yy_buffer_status b' = yy_buffer_status b"
proof -
  have "cp < length (yy_ch_buf b)" using assms(2,3) by (simp add: mem_ok_def)
  then show ?thesis using assms(1,2)
    by (intro exI [of _ "st\<lparr>buffers := (buffers st)(a \<mapsto> b\<lparr>yy_ch_buf := (yy_ch_buf b)[cp := Some (yy_hold_char st)]\<rparr>)\<rparr>"]
          exI [of _ "b\<lparr>yy_ch_buf := (yy_ch_buf b)[cp := Some (yy_hold_char st)]\<rparr>"])
       (simp add: at_text_def sc_inv_def filled_from_def buffer_defs)
qed

section \<open>The refill keeps the text\<close>

lemma fill_buffer_ok:
  assumes "filled_from n st b buf rest" "move \<le> length buf" "take move (yy_ch_buf b) = map Some u" "length u = move"
    "move \<le> n" "mem_enough n ok" "CHR 0x00 \<notin> set rest"
  shows "\<exists>b' st' s rest' fs. fill_buffer ok move b st = Ret (b', st') \<and> rest = s @ rest' \<and> (s = [] \<longleftrightarrow> rest = []) \<and>
    st' = st\<lparr>yy_n_chars := length s, files := fs\<rparr> \<and> yy_is_our_buffer b' \<and> yy_fill_buffer b' = yy_fill_buffer b \<and>
    yy_buffer_status b' = yy_buffer_status b \<and> length (yy_ch_buf b') = yy_buf_size b' + 2 \<and> 2 \<le> yy_buf_size b' \<and>
    yy_buf_size b' \<le> cap n \<and> move + length s \<le> yy_buf_size b' \<and> take (move + length s) (yy_ch_buf b') = map Some (u @ s) \<and>
    (\<exists>f. yyin_r st = Some f \<and> evs (fs f) = map Ch rest' \<and> \<not> ferr (fs f))"
proof (cases "yy_buffer_status b = YY_BUFFER_EOF_PENDING")
  case True
  with assms show ?thesis
    by (intro exI [of _ "b\<lparr>b_n_chars := 0\<rparr>"] exI [of _ "st\<lparr>yy_n_chars := 0\<rparr>"] exI [of _ "[]"] exI [of _ rest] exI [of _ "files st"])
       (auto simp: fill_buffer_def filled_from_def)
next
  case False
  obtain f where f: "yyin_r st = Some f" "evs (files st f) = map Ch rest" "\<not> ferr (files st f)"
    using assms(1) by (auto simp: filled_from_def)
  have "move \<le> yy_buf_size b" using assms(1,2) by (simp add: filled_from_def)
  then obtain sz m num where g: "grow (Suc (Suc 62)) ok move b = Ret (b\<lparr>yy_buf_size := sz, yy_ch_buf := m\<rparr>, num)" "0 < num"
      "num = int sz - int move - 1" "yy_buf_size b \<le> sz" "sz \<le> cap n" "length m = sz + 2" "take (yy_buf_size b + 2) m = yy_ch_buf b"
    using grow_ok [of b move n ok 62] assms(1,5,6) by (auto simp: filled_from_def)
  obtain s rest' fl where i: "YY_INPUT (yy_is_interactive b) (nat (min num 8192)) (files st f) = Ret (s, fl)" "rest = s @ rest'"
      "evs fl = map Ch rest'" "\<not> ferr fl" "length s \<le> nat (min num 8192)" "s = [] \<longleftrightarrow> rest = []"
    using YY_INPUT_text [OF f(2,3), of "nat (min num 8192)" "yy_is_interactive b"] g(2) by auto
  have fit: "move + length s \<le> sz" using i(5) g(2,3) by simp
  let ?m = "take move m @ map Some s @ drop (move + length s) m"
  have w: "mem_write m move (map Some s) = Some ?m" using fit g(6) by (simp add: mem_write_def)
  have tm: "take move m = map Some u"
    using g(7) assms(3) \<open>move \<le> yy_buf_size b\<close> by (metis min.absorb1 take_take trans_le_add1)
  have "fill_buffer ok move b st = Ret (b\<lparr>yy_buf_size := sz, yy_ch_buf := ?m, b_n_chars := length s\<rparr>,
      st\<lparr>yy_n_chars := length s, files := (files st)(f := fl)\<rparr>)"
    using False g(1) i(1) f(1) w by (simp add: fill_buffer_def eval_nat_numeral(3) numeral_eq_Suc)
  then show ?thesis using i(2-4,6) f(1) g fit assms(1,4) tm
    by (intro exI [of _ "b\<lparr>yy_buf_size := sz, yy_ch_buf := ?m, b_n_chars := length s\<rparr>"]
          exI [of _ "st\<lparr>yy_n_chars := length s, files := (files st)(f := fl)\<rparr>"] exI [of _ s] exI [of _ rest']
          exI [of _ "(files st)(f := fl)"])
       (simp add: filled_from_def)
qed

lemma mark_end_ok:
  assumes "YY_CURRENT_BUFFER st = Ret (Some a)" "buffers st a = Some b" "yy_n_chars st + move = length buf"
    "length buf \<le> yy_buf_size b" "length (yy_ch_buf b) = yy_buf_size b + 2" "take (length buf) (yy_ch_buf b) = map Some buf"
  shows "\<exists>m. mark_end ok move st = Ret (st\<lparr>yy_n_chars := length buf, yytext_r := 0, buffers := (buffers st)(a \<mapsto> b\<lparr>yy_ch_buf := m\<rparr>)\<rparr>) \<and>
    mem_ok m buf \<and> length m = yy_buf_size b + 2"
  using mem_ok_put [OF assms(6)] assms(1-5)
  by (intro exI [of _ "(yy_ch_buf b)[length buf := Some CHR 0x00, length buf + 1 := Some CHR 0x00]"])
     (simp add: mark_end_def extend_buffer_def buffer_defs Let_def)

lemma yyrestart_current:
  assumes "YY_CURRENT_BUFFER st = Ret (Some a)" "buffers st a = Some b" "1 < length (yy_ch_buf b)" "yyin_r st = Some f"
  shows "\<exists>b'. yyrestart ok (yyin_r st) st =
      Ret (st\<lparr>buffers := (buffers st)(a \<mapsto> b'), yy_n_chars := 0, c_buf_p := 0, yytext_r := 0, yyin_r := Some f,
        yy_hold_char := CHR 0x00\<rparr>) \<and>
    b_n_chars b' = 0 \<and> yy_ch_buf b' = (yy_ch_buf b)[0 := Some CHR 0x00, 1 := Some CHR 0x00] \<and>
    yy_buf_size b' = yy_buf_size b \<and> yy_is_our_buffer b' = yy_is_our_buffer b \<and> yy_fill_buffer b' \<and>
    yy_buffer_status b' = YY_BUFFER_NEW"
proof -
  have "0 < length (yy_ch_buf b)" "yy_ch_buf b \<noteq> []" using assms(3) by auto
  then show ?thesis using assms
    by (intro exI [of _ "b\<lparr>b_n_chars := 0, yy_ch_buf := (yy_ch_buf b)[0 := Some CHR 0x00, 1 := Some CHR 0x00], yy_buf_pos := 0,
          yy_at_bol := True, yy_buffer_status := YY_BUFFER_NEW, yy_input_file := Some f, yy_fill_buffer := True,
          yy_is_interactive := tty (files st f)\<rparr>"])
       (simp add: yyrestart_def yy_init_buffer_def yy_flush_buffer_def yy_load_buffer_state_def buffer_defs cell_at_def Let_def)
qed

text \<open>
  What \<^verbatim>\<open>yy_get_next_buffer\<close> returns at the end of a buffer: the text ahead is the same, and either there is
  more of it in the buffer, or the file has ended, with or without a token in the buffer.
\<close>

definition refilled :: "nat \<Rightarrow> scanner \<Rightarrow> nat \<Rightarrow> string \<Rightarrow> string \<Rightarrow> nat \<Rightarrow> eob_act \<times> scanner \<Rightarrow> bool" where
  "refilled n st a buf rest bp r = (case r of (act, st') \<Rightarrow>
     last_state st' = last_state st \<and> last_cpos st' = last_cpos st \<and>
     (\<exists>b' buf' rest'. at_text n st' a b' buf' rest' \<and> yytext_r st' \<le> length buf' \<and>
       drop (yytext_r st') buf' @ rest' = drop bp buf @ rest \<and>
       (case act of
          EOB_ACT_CONTINUE_SCAN \<Rightarrow> yytext_r st' = 0 \<and> (\<exists>s. buf' = drop bp buf @ s) \<and> length rest' < length rest
        | EOB_ACT_END_OF_FILE \<Rightarrow> drop bp buf @ rest = [] \<and> yy_hold_char st' \<in> {CHR 0x00, yy_hold_char st}
        | EOB_ACT_LAST_MATCH \<Rightarrow> rest = [] \<and> rest' = [] \<and> drop bp buf \<noteq> [])))"

lemma mem_ok_take: "mem_ok m buf \<Longrightarrow> take (length buf) m = map Some buf"
proof -
  assume "mem_ok m buf"
  then have "take (length buf) (take (length buf + 2) m) = take (length buf) (map Some (buf @ [CHR 0x00, CHR 0x00]))"
    by (simp add: mem_ok_def)
  then show ?thesis by simp
qed

text \<open>The state between the read and the marks at the end: the token \<open>u\<close> so far, followed by the new characters \<open>s\<close>.\<close>

definition moved :: "nat \<Rightarrow> scanner \<Rightarrow> nat \<Rightarrow> yy_buffer_state \<Rightarrow> string \<Rightarrow> string \<Rightarrow> string \<Rightarrow> bool" where
  "moved n st a b u s rest \<longleftrightarrow> YY_CURRENT_BUFFER st = Ret (Some a) \<and> buffers st a = Some b \<and>
     yy_init st \<and> yy_start st = 1 \<and> last_state st \<le> 19 \<and> yy_n_chars st = length s \<and> CHR 0x00 \<notin> set (u @ s @ rest) \<and>
     yy_is_our_buffer b \<and> yy_fill_buffer b \<and> yy_buffer_status b \<noteq> YY_BUFFER_NEW \<and>
     (yy_buffer_status b = YY_BUFFER_EOF_PENDING \<longrightarrow> s @ rest = []) \<and>
     length (yy_ch_buf b) = yy_buf_size b + 2 \<and> 2 \<le> yy_buf_size b \<and> yy_buf_size b \<le> cap n \<and>
     length (u @ s) \<le> yy_buf_size b \<and> take (length (u @ s)) (yy_ch_buf b) = map Some (u @ s) \<and> (s = [] \<longrightarrow> rest = []) \<and>
     (\<exists>f. yyin_r st = Some f \<and> evs (files st f) = map Ch rest \<and> \<not> ferr (files st f))"

lemma refill_moved:
  assumes at: "at_text n st a b buf rest" and p: "c_buf_p st = length buf + 1" "yytext_r st \<le> length buf"
    and len: "length (drop (yytext_r st) buf @ rest) \<le> n" "mem_enough n ok"
    and b: "yy_buffer_status b \<noteq> YY_BUFFER_NEW" "yy_fill_buffer b" and u: "u = drop (yytext_r st) buf"
  shows "\<exists>st' b' s rest'. moved n st' a b' u s rest' \<and> rest = s @ rest' \<and>
    last_state st' = last_state st \<and> last_cpos st' = last_cpos st \<and>
    yy_get_next_buffer ok st =
      exec_bind (classify_fill ok (length u) st') (\<lambda>(r, st). exec_bind (mark_end ok (length u) st) (\<lambda>st. Ret (r, st)))"
proof -
  note d = at_textD [OF at]
  define bp where "bp = yytext_r st"
  define move where "move = length u"
  have fil: "filled_from n st b buf rest" and nul: "CHR 0x00 \<notin> set rest" using at b(2) by (auto simp: at_text_def sc_inv_def)
  have mv: "c_buf_p st - yytext_r st - 1 = move" "move \<le> length buf" "move \<le> n" "bp + move = length buf"
    using p len by (auto simp: move_def u bp_def)
  define m where "m = take move (drop bp (yy_ch_buf b)) @ drop move (yy_ch_buf b)"
  have mc: "move_chars move 0 bp (yy_ch_buf b) = Ret m" using move_chars_ok [of bp move "yy_ch_buf b" 0] d(6) mv by (simp add: m_def)
  have ml: "length m = length (yy_ch_buf b)" using d(6) mv by (simp add: m_def)
  have tk: "take move m = map Some u" using mem_ok_take [OF d(5)] d(6) mv
    by (simp add: m_def u take_drop add.commute drop_map bp_def)
  then have tk': "take move (yy_ch_buf (b\<lparr>yy_ch_buf := m\<rparr>)) = map Some u" by simp
  have fil': "filled_from n st (b\<lparr>yy_ch_buf := m\<rparr>) buf rest" using fil ml by (simp add: filled_from_def)
  obtain b1 st1 s rest1 fs where fb: "fill_buffer ok move (b\<lparr>yy_ch_buf := m\<rparr>) st = Ret (b1, st1)" "rest = s @ rest1"
      "s = [] \<longleftrightarrow> rest = []" "st1 = st\<lparr>yy_n_chars := length s, files := fs\<rparr>" "yy_is_our_buffer b1"
      "yy_fill_buffer b1 = yy_fill_buffer (b\<lparr>yy_ch_buf := m\<rparr>)" "yy_buffer_status b1 = yy_buffer_status (b\<lparr>yy_ch_buf := m\<rparr>)"
      "length (yy_ch_buf b1) = yy_buf_size b1 + 2" "2 \<le> yy_buf_size b1" "yy_buf_size b1 \<le> cap n" "move + length s \<le> yy_buf_size b1"
      "take (move + length s) (yy_ch_buf b1) = map Some (u @ s)"
      "\<exists>f. yyin_r st = Some f \<and> evs (fs f) = map Ch rest1 \<and> \<not> ferr (fs f)"
    using fill_buffer_ok [OF fil' mv(2) tk' move_def [symmetric] mv(3) len(2) nul] by blast
  define st2 where "st2 = st1\<lparr>buffers := (buffers st)(a \<mapsto> b1)\<rparr>"
  have pc: "put_cur b1 st1 = Ret st2" using d(1) by (simp add: put_cur_def st2_def fb(4))
  have "yy_get_next_buffer ok st = exec_bind (classify_fill ok move st2) (\<lambda>(r, st). exec_bind (mark_end ok move st) (\<lambda>st. Ret (r, st)))"
    using b(2) d(3,9) p(1) mv mc fb(1) pc unfolding yy_get_next_buffer_def by (simp add: bp_def)
  note go = this
  have "CHR 0x00 \<notin> set (u @ s @ rest1)" using d(7) nul fb(2) by (auto simp: u dest: in_set_dropD)
  moreover have "s = [] \<longrightarrow> rest1 = []" using fb(2,3) by blast
  moreover have "yy_buffer_status b = YY_BUFFER_EOF_PENDING \<longrightarrow> s @ rest1 = []" using fil fb(2) by (simp add: filled_from_def)
  moreover have "yy_init st" using at by (simp add: at_text_def sc_inv_def)
  ultimately have "moved n st2 a b1 u s rest1"
    using d fb(5-) b by (simp add: moved_def st2_def fb(4) move_def)
  then show ?thesis using fb(2) go
    by (intro exI [of _ st2] exI [of _ b1] exI [of _ s] exI [of _ rest1]) (simp add: st2_def fb(4) move_def)
qed

lemma refill_end:
  assumes "moved n st a b [] [] []"
  shows "returns (exec_bind (classify_fill ok 0 st) (\<lambda>(r, st). exec_bind (mark_end ok 0 st) (\<lambda>st. Ret (r, st))))
    (\<lambda>(r, st'). r = EOB_ACT_END_OF_FILE \<and> yytext_r st' = 0 \<and> yy_hold_char st' = CHR 0x00 \<and> last_state st' = last_state st \<and>
       last_cpos st' = last_cpos st \<and> (\<exists>b'. at_text n st' a b' [] []))"
proof -
  obtain f where f: "yyin_r st = Some f" "evs (files st f) = []" "\<not> ferr (files st f)" using assms by (auto simp: moved_def)
  have c: "YY_CURRENT_BUFFER st = Ret (Some a)" "buffers st a = Some b" "1 < length (yy_ch_buf b)" using assms by (simp_all add: moved_def)
  obtain b' where r: "yyrestart ok (yyin_r st) st = Ret (st\<lparr>buffers := (buffers st)(a \<mapsto> b'), yy_n_chars := 0, c_buf_p := 0,
       yytext_r := 0, yyin_r := Some f, yy_hold_char := CHR 0x00\<rparr>)"
    "b_n_chars b' = 0" "yy_ch_buf b' = (yy_ch_buf b)[0 := Some CHR 0x00, 1 := Some CHR 0x00]" "yy_buf_size b' = yy_buf_size b"
    "yy_is_our_buffer b' = yy_is_our_buffer b" "yy_fill_buffer b'" "yy_buffer_status b' = YY_BUFFER_NEW"
    using yyrestart_current [OF c f(1), of ok] by blast
  define st' where "st' = st\<lparr>buffers := (buffers st)(a \<mapsto> b'), yy_n_chars := 0, c_buf_p := 0,
       yytext_r := 0, yyin_r := Some f, yy_hold_char := CHR 0x00\<rparr>"
  have cf: "classify_fill ok 0 st = Ret (EOB_ACT_END_OF_FILE, st')"
    using assms r(1) by (simp add: classify_fill_def moved_def st'_def)
  obtain m where me: "mark_end ok 0 st' = Ret (st'\<lparr>yy_n_chars := 0, yytext_r := 0, buffers := (buffers st')(a \<mapsto> b'\<lparr>yy_ch_buf := m\<rparr>)\<rparr>)"
      "mem_ok m []" "length m = yy_buf_size b' + 2"
    using mark_end_ok [of st' a b' 0 "[]" ok] assms r(3,4) by (auto simp: st'_def moved_def)
  have "at_text n (st'\<lparr>yy_n_chars := 0, yytext_r := 0, buffers := (buffers st')(a \<mapsto> b'\<lparr>yy_ch_buf := m\<rparr>)\<rparr>) a (b'\<lparr>yy_ch_buf := m\<rparr>) [] []"
    using assms me(2,3) r(2-) f by (simp add: at_text_def sc_inv_def filled_from_def st'_def moved_def)
  then show ?thesis using cf me(1) by (auto simp: st'_def)
qed

lemma refill_more:
  assumes "moved n st a b u s rest" "u @ s \<noteq> []"
  shows "returns (exec_bind (classify_fill ok (length u) st) (\<lambda>(r, st). exec_bind (mark_end ok (length u) st) (\<lambda>st. Ret (r, st))))
    (\<lambda>(r, st'). r = (if s = [] then EOB_ACT_LAST_MATCH else EOB_ACT_CONTINUE_SCAN) \<and> yytext_r st' = 0 \<and>
       last_state st' = last_state st \<and> last_cpos st' = last_cpos st \<and> (\<exists>b'. at_text n st' a b' (u @ s) rest))"
proof -
  define b' where "b' = (if s = [] then b\<lparr>yy_buffer_status := YY_BUFFER_EOF_PENDING\<rparr> else b)"
  define st' where "st' = st\<lparr>buffers := (buffers st)(a \<mapsto> b')\<rparr>"
  have bb: "yy_ch_buf b' = yy_ch_buf b" "yy_buf_size b' = yy_buf_size b" by (simp_all add: b'_def)
  have c: "YY_CURRENT_BUFFER st = Ret (Some a)" "buffers st a = Some b" "yy_n_chars st = length s" using assms(1) by (simp_all add: moved_def)
  then have st': "s \<noteq> [] \<Longrightarrow> st' = st" by (simp add: st'_def b'_def fun_upd_idem)
  have cf: "classify_fill ok (length u) st = Ret (if s = [] then EOB_ACT_LAST_MATCH else EOB_ACT_CONTINUE_SCAN, st')"
    using assms(2) c st' by (auto simp: classify_fill_def st'_def b'_def buffer_defs)
  obtain m where me: "mark_end ok (length u) st' = Ret (st'\<lparr>yy_n_chars := length (u @ s), yytext_r := 0,
        buffers := (buffers st')(a \<mapsto> b'\<lparr>yy_ch_buf := m\<rparr>)\<rparr>)" "mem_ok m (u @ s)" "length m = yy_buf_size b' + 2"
  proof -
    have "YY_CURRENT_BUFFER st' = Ret (Some a)" "buffers st' a = Some b'" "yy_n_chars st' + length u = length (u @ s)"
      using c by (simp_all add: st'_def)
    moreover have "length (u @ s) \<le> yy_buf_size b'" "length (yy_ch_buf b') = yy_buf_size b' + 2"
      "take (length (u @ s)) (yy_ch_buf b') = map Some (u @ s)"
      using assms(1) bb by (simp_all add: moved_def)
    ultimately show thesis using mark_end_ok that by blast
  qed
  have "at_text n (st'\<lparr>yy_n_chars := length (u @ s), yytext_r := 0, buffers := (buffers st')(a \<mapsto> b'\<lparr>yy_ch_buf := m\<rparr>)\<rparr>) a
      (b'\<lparr>yy_ch_buf := m\<rparr>) (u @ s) rest"
    using assms me(2,3) by (auto simp: at_text_def sc_inv_def filled_from_def st'_def b'_def moved_def)
  then show ?thesis using cf me(1) by (auto simp: st'_def)
qed

lemma refilledI:
  assumes "at_text n st' a b' buf' rest'" "last_state st' = last_state st" "last_cpos st' = last_cpos st"
    "yytext_r st' \<le> length buf'" "drop (yytext_r st') buf' @ rest' = drop bp buf @ rest"
    "act = EOB_ACT_CONTINUE_SCAN \<Longrightarrow> yytext_r st' = 0 \<and> (\<exists>s. buf' = drop bp buf @ s) \<and> length rest' < length rest"
    "act = EOB_ACT_END_OF_FILE \<Longrightarrow> drop bp buf @ rest = [] \<and> yy_hold_char st' \<in> {CHR 0x00, yy_hold_char st}"
    "act = EOB_ACT_LAST_MATCH \<Longrightarrow> rest = [] \<and> rest' = [] \<and> drop bp buf \<noteq> []"
  shows "refilled n st a buf rest bp (act, st')"
proof -
  have "case act of
          EOB_ACT_CONTINUE_SCAN \<Rightarrow> yytext_r st' = 0 \<and> (\<exists>s. buf' = drop bp buf @ s) \<and> length rest' < length rest
        | EOB_ACT_END_OF_FILE \<Rightarrow> drop bp buf @ rest = [] \<and> yy_hold_char st' \<in> {CHR 0x00, yy_hold_char st}
        | EOB_ACT_LAST_MATCH \<Rightarrow> rest = [] \<and> rest' = [] \<and> drop bp buf \<noteq> []"
    using assms(6-8) by (cases act) simp_all
  then show ?thesis unfolding refilled_def prod.case using assms(1-5) by blast
qed

lemma yy_get_next_buffer_ok:
  assumes at: "at_text n st a b buf rest" and p: "c_buf_p st = length buf + 1" "yytext_r st \<le> length buf"
    and len: "length (drop (yytext_r st) buf @ rest) \<le> n" "mem_enough n ok" and st: "yy_buffer_status b \<noteq> YY_BUFFER_NEW"
  shows "returns (yy_get_next_buffer ok st) (refilled n st a buf rest (yytext_r st))"
proof (cases "yy_fill_buffer b")
  case False
  then have r: "rest = []" using at by (simp add: at_text_def sc_inv_def)
  note d = at_textD [OF at]
  show ?thesis using False r at p d(1-3)
    by (auto simp: yy_get_next_buffer_def refilled_def buffer_defs intro!: exI [of _ b] exI [of _ buf])
next
  case True
  define u where "u = drop (yytext_r st) buf"
  obtain st' b' s rest' where m: "moved n st' a b' u s rest'" "rest = s @ rest'" "last_state st' = last_state st" "last_cpos st' = last_cpos st"
      and go: "yy_get_next_buffer ok st =
        exec_bind (classify_fill ok (length u) st') (\<lambda>(r, st). exec_bind (mark_end ok (length u) st) (\<lambda>st. Ret (r, st)))"
    using refill_moved [OF at p len st True u_def] by blast
  have sr: "s = [] \<Longrightarrow> rest' = []" using m(1) by (simp add: moved_def)
  show ?thesis
  proof (cases "u @ s = []")
    case True
    with m sr have z: "moved n st' a b' [] [] []" "length u = 0" "rest = []" by simp_all
    show ?thesis unfolding go z(2)
      by (rule returns_mono [OF refill_end [OF z(1)]]) (use z(3) True m(3,4) in \<open>auto simp: refilled_def u_def\<close>)
  next
    case False
    have more: "refilled n st a buf rest (yytext_r st) (if s = [] then EOB_ACT_LAST_MATCH else EOB_ACT_CONTINUE_SCAN, st'')"
      if "yytext_r st'' = 0" "last_state st'' = last_state st'" "last_cpos st'' = last_cpos st'" "at_text n st'' a b'' (u @ s) rest'"
      for st'' b''
      by (rule refilledI [OF that(4)]) (use that m(2-4) sr False in \<open>auto simp flip: u_def split: if_splits\<close>)
    show ?thesis unfolding go
      by (rule returns_mono [OF refill_more [OF m(1) False]]) (use more in auto)
  qed
qed

section \<open>One token\<close>

text \<open>
  The scanner is inside a token that starts at \<open>bp\<close>: the automaton has read the characters before \<open>cp\<close> and is in state \<open>s\<close>.
\<close>

definition matching :: "nat \<Rightarrow> scanner \<Rightarrow> nat \<Rightarrow> nat \<Rightarrow> nat \<Rightarrow> string \<Rightarrow> nat \<Rightarrow> bool" where
  "matching n st bp s cp txt r \<longleftrightarrow> (\<exists>a b buf rest las lac. at_text n st a b buf rest \<and> bp \<le> cp \<and> cp \<le> length buf \<and>
     txt = drop bp buf @ rest \<and> length txt \<le> n \<and> length rest = r \<and> las \<le> 19 \<and> ends 1 (take (cp - bp) (drop bp buf)) \<and>
     run 1 (take (cp - bp) (drop bp buf)) bp (las, lac) = (s, last_state st, last_cpos st))"

definition scanned :: "nat \<Rightarrow> string \<Rightarrow> nat \<times> scanner \<Rightarrow> bool" where
  "scanned n txt r = (case r of (act, st) \<Rightarrow>
     if txt = [] then act = 11 \<and> held n st []
     else (\<exists>k b. token_found txt act k \<and> held n st (drop k txt) \<and> cur_buf st = Ret b \<and>
       mem_read (yy_ch_buf b) (yytext_r st) (nat (yyleng_r st)) = Some (map Some (take k txt))))"

text \<open>What the \<^verbatim>\<open>YY_END_OF_BUFFER\<close> action hands to the label it jumps to.\<close>

definition resumed :: "nat \<Rightarrow> string \<Rightarrow> nat \<Rightarrow> label \<times> scanner \<Rightarrow> bool" where
  "resumed n txt r ls = (case ls of (l, st) \<Rightarrow> (case l of
       Do_EOF \<Rightarrow> txt = [] \<and> held n st []
     | Lmatch s cp \<Rightarrow> (\<exists>r' < r. matching n st (yytext_r st) s cp txt r')
     | Lfind s cp \<Rightarrow> s \<le> 19 \<and> txt \<noteq> [] \<and> (\<exists>a b buf ak. at_text n st a b buf [] \<and> yytext_r st \<le> length buf \<and> length txt \<le> n \<and>
         txt = drop (yytext_r st) buf \<and>
         yy_find_action s cp (last_state st) (last_cpos st) = pick (munch 1 txt (yytext_r st) ak))))"

lemma scan_action_ok:
  assumes at: "at_text n st a b buf rest" and k: "token_found (drop bp buf @ rest) act k" "bp + k \<le> length buf" "bp \<le> length buf"
    and n: "length (drop bp buf @ rest) \<le> n"
  shows "returns (before_action bp (bp + k) st) (\<lambda>st'. scanned n (drop bp buf @ rest) (act, st'))"
proof -
  obtain st' b' where b: "before_action bp (bp + k) st = Ret st'" "sc_inv n st' a b' buf rest"
      "mem_ok ((yy_ch_buf b')[bp + k := Some (yy_hold_char st')]) buf" "c_buf_p st' = bp + k" "yytext_r st' = bp"
      "yyleng_r st' = int (bp + k) - int bp" "\<forall>i < bp + k. yy_ch_buf b' ! i = yy_ch_buf b ! i"
      "length (yy_ch_buf b') = length (yy_ch_buf b)"
    using before_action_ok [OF at, of "bp + k" bp] k(2) by auto
  note d = at_textD [OF at]
  have h: "held n st' (drop k (drop bp buf @ rest))"
    unfolding held_def using b(2-4) k(2) n by (intro exI [of _ a] exI [of _ b'] exI [of _ buf] exI [of _ rest]) (simp add: add.commute)
  have cells: "take k (drop bp (yy_ch_buf b')) = map Some (take k (drop bp buf @ rest))"
  proof (rule nth_equalityI)
    show "length (take k (drop bp (yy_ch_buf b'))) = length (map Some (take k (drop bp buf @ rest)))"
      using d(6) b(8) k(2) by simp
  next
    fix i assume "i < length (take k (drop bp (yy_ch_buf b')))"
    then have i: "i < k" "bp + i < length buf" using k(2) by auto
    then have "yy_ch_buf b' ! (bp + i) = Some (buf ! (bp + i))" using b(7) mem_ok_nth [OF d(5), of "bp + i"] by (simp add: nth_append)
    then show "take k (drop bp (yy_ch_buf b')) ! i = map Some (take k (drop bp buf @ rest)) ! i"
      using i d(6) b(8) k(2) by (simp add: nth_append)
  qed
  have "cur_buf st' = Ret b'" using b(2) by (simp add: sc_inv_def buffer_defs)
  moreover have "mem_read (yy_ch_buf b') (yytext_r st') (nat (yyleng_r st')) = Some (map Some (take k (drop bp buf @ rest)))"
    using b(5,6,8) d(6) k(2) cells by (simp add: mem_read_def)
  moreover have "drop bp buf @ rest \<noteq> []" using k(1) by (auto simp: token_found_def)
  ultimately show ?thesis using h k(1) b(1) by (auto simp: scanned_def)
qed

lemma scan_find_action:
  assumes "yy_find_action s cp (last_state st) (last_cpos st) = Ret (act, cp')"
  shows "exec_bind (tab_at yy_accept s) (\<lambda>act.
      exec_bind (if act = 0 then exec_bind (tab_at yy_accept (last_state st)) (\<lambda>act. Ret (act, last_cpos st))
                 else Ret (act, cp)) (\<lambda>(act, cp). f act cp)) = f act cp'"
  using assms by (auto simp: yy_find_action_def exec_simps split: if_splits)

lemma previous_state_ok:
  assumes "at_text n st a b buf rest" "yytext_r st \<le> c_buf_p st" "c_buf_p st \<le> length buf"
    "run 1 (take (c_buf_p st - yytext_r st) (drop (yytext_r st) buf)) (yytext_r st) (last_state st, last_cpos st) = (s, las, lac)"
  shows "previous_state st = Ret (s, st\<lparr>last_state := las, last_cpos := lac\<rparr>)"
  using mem_previous_run [OF at_textD(5,7) [OF assms(1)] assms(3), of 1 "yytext_r st"] assms(2,4) at_textD [OF assms(1)]
  by (simp add: previous_state_def)

lemma resumed_match:
  assumes at: "at_text n st a b buf rest" and y: "yytext_r st = 0" and u: "buf = u @ s" "ends 1 u" and r: "length rest < r"
    and n: "length (buf @ rest) \<le> n"
  shows "returns (exec_bind (previous_state (st\<lparr>c_buf_p := yytext_r st + length u\<rparr>)) (\<lambda>(s, st). Ret (Lmatch s (c_buf_p st), st)))
    (resumed n (buf @ rest) r)"
proof -
  let ?st = "st\<lparr>c_buf_p := length u\<rparr>"
  obtain q las lac where q: "run 1 u 0 (last_state st, last_cpos st) = (q, las, lac)" by (metis prod_cases3)
  have las: "last_state st \<le> 19" using at_textD [OF at] by simp
  note re = run_ends [OF u(2) _ _ _ _ q las]
  have l19: "las \<le> 19" using re(1) by (simp add: live_iff)
  have p: "previous_state ?st = Ret (q, ?st\<lparr>last_state := las, last_cpos := lac\<rparr>)"
    by (rule previous_state_ok [OF at_text_pointers(1) [OF at]]) (use y u q in simp_all)
  have "at_text n (?st\<lparr>last_state := las, last_cpos := lac\<rparr>) a b buf rest"
    by (intro at_text_pointers at l19)
  then have "matching n (?st\<lparr>last_state := las, last_cpos := lac\<rparr>) 0 q (length u) (buf @ rest) (length rest)"
    unfolding matching_def using u q las n
    by (intro exI [of _ a] exI [of _ b] exI [of _ buf] exI [of _ rest] exI [of _ "last_state st"] exI [of _ "last_cpos st"]) simp
  then show ?thesis using p y r by (auto simp: resumed_def)
qed

lemma resumed_find:
  assumes at: "at_text n st a b buf []" and y: "yytext_r st < length buf" and e: "ends 1 (drop (yytext_r st) buf)"
    and n: "length (drop (yytext_r st) buf) \<le> n"
  shows "returns (exec_bind (previous_state (st\<lparr>c_buf_p := yy_n_chars st\<rparr>)) (\<lambda>(s, st). Ret (Lfind s (c_buf_p st), st)))
    (resumed n (drop (yytext_r st) buf) r)"
proof -
  let ?u = "drop (yytext_r st) buf"
  let ?st = "st\<lparr>c_buf_p := length buf\<rparr>"
  have nc: "yy_n_chars st = length buf" using at_textD [OF at] by simp
  obtain q las lac where q: "run 1 ?u (yytext_r st) (last_state st, last_cpos st) = (q, las, lac)" by (metis prod_cases3)
  have las: "last_state st \<le> 19" using at_textD [OF at] by simp
  have re: "1 \<le> q \<and> q \<le> 18 \<and> q \<noteq> 3 \<and> live q \<and> las \<le> 19"
      "munch 1 (?u @ []) (yytext_r st) (acc (last_state st), last_cpos st) = munch q [] (yytext_r st + length ?u) (acc las, lac)"
    by (rule run_ends(1,2) [OF e _ _ _ _ q las]; simp add: live_iff)+
  have p: "previous_state ?st = Ret (q, ?st\<lparr>last_state := las, last_cpos := lac\<rparr>)"
    by (rule previous_state_ok [OF at_text_pointers(1) [OF at]]) (use y q in simp_all)
  have "yy_find_action q (length buf) las lac = pick (munch 1 ?u (yytext_r st) (acc (last_state st), last_cpos st))"
    using re y by (simp add: find_action_pick)
  moreover have "at_text n (?st\<lparr>last_state := las, last_cpos := lac\<rparr>) a b buf []"
    using re(1) by (intro at_text_pointers at) simp
  ultimately have "resumed n ?u r (Lfind q (length buf), ?st\<lparr>last_state := las, last_cpos := lac\<rparr>)"
    unfolding resumed_def prod.case label.case using re(1) y n
    by (intro conjI exI [of _ a] exI [of _ b] exI [of _ buf] exI [of _ "(acc (last_state st), last_cpos st)"]) simp_all
  then show ?thesis using p nc by simp
qed

lemma end_of_buffer_ok:
  assumes inv: "sc_inv n st a b buf rest" "mem_ok ((yy_ch_buf b)[length buf + 1 := Some (yy_hold_char st)]) buf"
    and p: "c_buf_p st = length buf + 1" "yytext_r st \<le> length buf" and e: "ends 1 (drop (yytext_r st) buf)"
    and n: "length (drop (yytext_r st) buf @ rest) \<le> n" "mem_enough n ok"
  shows "returns (end_of_buffer ok (length buf + 1) st) (resumed n (drop (yytext_r st) buf @ rest) (length rest))"
proof -
  have hold: "yy_hold_char st = CHR 0x00"
    using mem_ok_nth [OF inv(2), of "length buf + 1"] inv(2) by (simp add: mem_ok_def nth_append)
  obtain st1 b1 where r: "put_char (length buf + 1) (yy_hold_char st) st = Ret st1" "at_text n st1 a b1 buf rest"
      "st1 = st\<lparr>buffers := (buffers st)(a \<mapsto> b1)\<rparr>"
    using restore_hold [OF inv] by auto
  define b2 where "b2 = (if yy_buffer_status b1 = YY_BUFFER_NEW
    then b1\<lparr>yy_input_file := yyin_r st1, yy_buffer_status := YY_BUFFER_NORMAL\<rparr> else b1)"
  define st2 where "st2 = st1\<lparr>yy_n_chars := length buf, buffers := (buffers st1)(a \<mapsto> b2)\<rparr>"
  note d = at_textD [OF r(2)]
  have upd: "(if yy_buffer_status b1 = YY_BUFFER_NEW
        then put_cur (b1\<lparr>yy_input_file := yyin_r st1, yy_buffer_status := YY_BUFFER_NORMAL\<rparr>) (st1\<lparr>yy_n_chars := b_n_chars b1\<rparr>)
        else Ret st1) = Ret st2"
    using r(2) by (auto simp: st2_def b2_def at_text_def sc_inv_def put_cur_def fun_upd_idem)
  have at: "at_text n st2 a b2 buf rest"
    using r(2) by (auto simp: st2_def b2_def at_text_def sc_inv_def filled_from_def)
  have s2: "c_buf_p st2 = length buf + 1" "yytext_r st2 = yytext_r st" "yy_n_chars st2 = length buf" "yy_hold_char st2 = CHR 0x00"
    using p hold by (simp_all add: st2_def r(3))
  have "returns (yy_get_next_buffer ok st2) (refilled n st2 a buf rest (yytext_r st2))"
    by (rule yy_get_next_buffer_ok [OF at]) (use s2 p n in \<open>simp_all add: b2_def\<close>)
  then obtain act st3 b3 buf3 rest3 where g: "yy_get_next_buffer ok st2 = Ret (act, st3)" "at_text n st3 a b3 buf3 rest3"
      "yytext_r st3 \<le> length buf3" "drop (yytext_r st3) buf3 @ rest3 = drop (yytext_r st) buf @ rest"
      "case act of
          EOB_ACT_CONTINUE_SCAN \<Rightarrow> yytext_r st3 = 0 \<and> (\<exists>s. buf3 = drop (yytext_r st) buf @ s) \<and> length rest3 < length rest
        | EOB_ACT_END_OF_FILE \<Rightarrow> drop (yytext_r st) buf @ rest = [] \<and> yy_hold_char st3 \<in> {CHR 0x00, yy_hold_char st2}
        | EOB_ACT_LAST_MATCH \<Rightarrow> rest = [] \<and> rest3 = [] \<and> drop (yytext_r st) buf \<noteq> []"
    unfolding returns_iff refilled_def s2(2) by (auto split: prod.splits)
  have go: "end_of_buffer ok (length buf + 1) st = (case act of
          EOB_ACT_END_OF_FILE \<Rightarrow> Ret (Do_EOF, st3\<lparr>yy_did_buffer_switch_on_eof := False, c_buf_p := yytext_r st3\<rparr>)
        | EOB_ACT_CONTINUE_SCAN \<Rightarrow>
            exec_bind (previous_state (st3\<lparr>c_buf_p := yytext_r st3 + length (drop (yytext_r st) buf)\<rparr>)) (\<lambda>(s, st). Ret (Lmatch s (c_buf_p st), st))
        | EOB_ACT_LAST_MATCH \<Rightarrow>
            exec_bind (previous_state (st3\<lparr>c_buf_p := yy_n_chars st3\<rparr>)) (\<lambda>(s, st). Ret (Lfind s (c_buf_p st), st)))"
    unfolding end_of_buffer_def Let_def r(1) exec_bind.simps d(9) upd using s2 p g(1) by (simp split: eob_act.split)
  show ?thesis
  proof (cases act)
    case EOB_ACT_CONTINUE_SCAN
    then obtain s where s: "yytext_r st3 = 0" "buf3 = drop (yytext_r st) buf @ s" "length rest3 < length rest" using g(5) by auto
    have tx: "drop (yytext_r st) buf @ rest = buf3 @ rest3" using g(4) s(1) by simp
    show ?thesis unfolding go EOB_ACT_CONTINUE_SCAN eob_act.case tx
      by (rule resumed_match [OF g(2) s(1,2) e s(3)]) (use n(1) tx in simp)
  next
    case EOB_ACT_END_OF_FILE
    then have z: "drop (yytext_r st) buf @ rest = []" "yy_hold_char st3 = CHR 0x00" using g(5) s2(4) by auto
    have eq: "yytext_r st3 = length buf3" "rest3 = []" using g(3,4) z(1) by simp_all
    let ?st = "st3\<lparr>yy_did_buffer_switch_on_eof := False, c_buf_p := yytext_r st3\<rparr>"
    have "at_text n ?st a b3 buf3 rest3" by (intro at_text_pointers g(2))
    moreover have "(yy_ch_buf b3)[length buf3 := Some CHR 0x00] = yy_ch_buf b3"
      using mem_ok_nth [OF at_textD(5) [OF g(2)], of "length buf3"] by (metis less_add_same_cancel1 list_update_id nth_append_length zero_less_numeral)
    ultimately have "held n ?st []" unfolding held_def using eq z(2)
      by (intro exI [of _ a] exI [of _ b3] exI [of _ buf3] exI [of _ rest3]) (simp add: at_text_def)
    then show ?thesis unfolding go using EOB_ACT_END_OF_FILE z(1) by (simp add: resumed_def)
  next
    case EOB_ACT_LAST_MATCH
    then have z: "rest3 = []" "rest = []" "drop (yytext_r st) buf \<noteq> []" using g(5) by auto
    have tx: "drop (yytext_r st) buf @ rest = drop (yytext_r st3) buf3" using g(4) z(1) by simp
    have l: "length (drop (yytext_r st3) buf3) \<le> n" "drop (yytext_r st3) buf3 \<noteq> []" "ends 1 (drop (yytext_r st3) buf3)"
      using n(1) z e unfolding tx [symmetric] by simp_all
    show ?thesis unfolding go EOB_ACT_LAST_MATCH eob_act.case tx
      by (rule resumed_find) (use g(2) z l in simp_all)
  qed
qed

lemma token_in_buffer:
  assumes "\<not> ends 1 u"
  shows "\<exists>act k. munch 1 u p ak = (act, p + k) \<and> token_found (u @ v) act k \<and> k \<le> length u"
proof -
  obtain c r where u: "u = c # r" using assms by (cases u) auto
  obtain act k where m: "munch 1 u p ak = (act, p + k)" "token_found u act k" using munch_token [of c r p ak] u by blast
  moreover obtain act' k' where m': "munch 1 (u @ v) p ak = (act', p + k')" "token_found (u @ v) act' k'"
    using munch_token [of c "r @ v" p ak] u by auto
  moreover have "munch 1 (u @ v) p ak = munch 1 u p ak" using munch_not_ends [OF assms] by simp
  ultimately show ?thesis by (auto simp: token_found_def)
qed

text \<open>The turn of the loop after the label \<^verbatim>\<open>yy_find_action\<close>.\<close>

definition act_on :: "nat \<Rightarrow> (nat \<Rightarrow> bool) \<Rightarrow> nat \<Rightarrow> nat \<Rightarrow> nat \<Rightarrow> scanner \<Rightarrow> (nat \<times> scanner) exec" where
  "act_on k ok bp act cp st =
     exec_bind (before_action bp cp st) (\<lambda>st.
      if act = 0 then exec_bind (put_char cp (yy_hold_char st) st) (scan_loop k ok (Lfind (last_state st) (last_cpos st)) bp)
      else if act = 10 then exec_bind (end_of_buffer ok cp st) (\<lambda>(l, st). scan_loop k ok l (yytext_r st) st)
      else Ret (act, st))"

lemma scan_loop_find:
  "yy_find_action s cp (last_state st) (last_cpos st) = Ret (act, cp') \<Longrightarrow>
   scan_loop (Suc k) ok (Lfind s cp) bp st = act_on k ok bp act cp' st"
  using scan_find_action [of s cp st act cp' "\<lambda>act cp. act_on k ok bp act cp st"] by (simp add: act_on_def)

lemma scan_loop_match:
  assumes "cur_buf st = Ret b" "mem_match (yy_ch_buf b) s cp (last_state st) (last_cpos st) = Ret (s', cp', las, lac)"
    "yy_find_action s' cp' las lac = Ret (act, cp'')"
  shows "scan_loop (Suc k) ok (Lmatch s cp) bp st = act_on k ok bp act cp'' (st\<lparr>last_state := las, last_cpos := lac\<rparr>)"
  using scan_find_action [of s' cp' "st\<lparr>last_state := las, last_cpos := lac\<rparr>" act cp'' "\<lambda>act cp. act_on k ok bp act cp (st\<lparr>last_state := las, last_cpos := lac\<rparr>)"]
    assms by (simp add: act_on_def)

lemma act_on_token:
  assumes "at_text n st a b buf rest" "token_found (drop bp buf @ rest) act k" "bp + k \<le> length buf" "bp \<le> length buf"
    "length (drop bp buf @ rest) \<le> n"
  shows "returns (act_on j ok bp act (bp + k) st) (scanned n (drop bp buf @ rest))"
proof -
  have "act \<noteq> 0" "act \<noteq> 10" using token_found_act [OF assms(2)] by auto
  then show ?thesis using scan_action_ok [OF assms] by (simp add: act_on_def)
qed

lemma act_on_end:
  assumes at: "at_text n st a b buf rest" and bp: "bp \<le> length buf" and e: "ends 1 (drop bp buf)"
    and n: "length (drop bp buf @ rest) \<le> n" "mem_enough n ok"
    and more: "\<And>l st'. resumed n (drop bp buf @ rest) (length rest) (l, st') \<Longrightarrow>
      returns (scan_loop k ok l (yytext_r st') st') (scanned n (drop bp buf @ rest))"
  shows "returns (act_on k ok bp 10 (length buf + 1) st) (scanned n (drop bp buf @ rest))"
proof -
  obtain st' b' where b: "before_action bp (length buf + 1) st = Ret st'" "sc_inv n st' a b' buf rest"
      "mem_ok ((yy_ch_buf b')[length buf + 1 := Some (yy_hold_char st')]) buf" "c_buf_p st' = length buf + 1" "yytext_r st' = bp"
    using before_action_ok [OF at, of "length buf + 1" bp] by auto
  have "returns (end_of_buffer ok (length buf + 1) st') (resumed n (drop bp buf @ rest) (length rest))"
    using end_of_buffer_ok [OF b(2-4)] b(5) bp e n by simp
  then have "returns (exec_bind (end_of_buffer ok (length buf + 1) st') (\<lambda>(l, st). scan_loop k ok l (yytext_r st) st))
      (scanned n (drop bp buf @ rest))"
    unfolding returns_bind by (rule returns_mono) (use more in auto)
  then show ?thesis unfolding act_on_def b(1) by simp
qed

text \<open>The next two lemmas are the induction over the refills of one token.\<close>

lemma scan_loop_resumed:
  assumes "resumed n txt r (l, st)"
    and more: "\<And>s cp st r'. r' < r \<Longrightarrow> matching n st (yytext_r st) s cp txt r' \<Longrightarrow>
      returns (scan_loop (Suc k) ok (Lmatch s cp) (yytext_r st) st) (scanned n txt)"
  shows "returns (scan_loop (Suc k) ok l (yytext_r st) st) (scanned n txt)"
proof (cases l)
  case (Lmatch s cp)
  with assms show ?thesis by (auto simp: resumed_def simp del: scan_loop.simps)
next
  case Do_EOF
  with assms(1) show ?thesis by (simp add: resumed_def scanned_def)
next
  case (Lfind s cp)
  then obtain a b buf ak where f: "at_text n st a b buf []" "yytext_r st \<le> length buf" "length txt \<le> n" "txt = drop (yytext_r st) buf"
      "txt \<noteq> []" "yy_find_action s cp (last_state st) (last_cpos st) = pick (munch 1 txt (yytext_r st) ak)"
    using assms(1) by (auto simp: resumed_def)
  obtain c u where u: "txt = c # u" using f(5) by (cases "txt") auto
  obtain act j where m: "munch 1 txt (yytext_r st) ak = (act, yytext_r st + j)" "token_found txt act j"
    using munch_token [of c u "yytext_r st" ak] unfolding u by blast
  have "yy_find_action s cp (last_state st) (last_cpos st) = Ret (act, yytext_r st + j)"
    using f(6) m(1) token_found_act [OF m(2)] by (simp add: pick_def)
  note go = scan_loop_find [OF this, of k ok "yytext_r st"]
  have "j \<le> length txt" using m(2) by (simp add: token_found_def)
  then have j: "yytext_r st + j \<le> length buf" using f(2,4) by simp
  show ?thesis unfolding Lfind go using act_on_token [OF f(1) _ j f(2)] m(2) f(3,4) by simp
qed

lemma scan_loop_ok:
  assumes "mem_enough n ok"
  shows "matching n st bp s cp txt r \<Longrightarrow> r + 1 < k \<Longrightarrow> returns (scan_loop k ok (Lmatch s cp) bp st) (scanned n txt)"
proof (induction k arbitrary: st bp s cp r)
  case (Suc k)
  obtain a b buf rest las lac where m: "at_text n st a b buf rest" "bp \<le> cp" "cp \<le> length buf" "txt = drop bp buf @ rest"
      "length txt \<le> n" "length rest = r" "las \<le> 19" "ends 1 (take (cp - bp) (drop bp buf))"
      "run 1 (take (cp - bp) (drop bp buf)) bp (las, lac) = (s, last_state st, last_cpos st)"
    using Suc.prems(1) unfolding matching_def by blast
  define u where "u = take (cp - bp) (drop bp buf)"
  define v where "v = drop cp buf"
  note d = at_textD [OF m(1)]
  have uv: "drop bp buf = u @ v" "bp + length u = cp" using m(2,3) by (simp_all add: u_def v_def take_drop [symmetric])
      (metis append_take_drop_id drop_drop le_add_diff_inverse2)
  have live1: "live 1" by (simp add: live_iff)
  note re = run_ends [OF m(8)[folded u_def] _ _ _ live1 m(9)[folded u_def] m(7)]
  have s: "1 \<le> s" "s \<le> 18" "s \<noteq> 3" "live s" using re(1) by auto
  note ym = yy_match_munch [OF d(7) s m(3) d(4), of "last_cpos st"]
  obtain k' where k: "k = Suc k'" using Suc.prems(2) by (cases k) auto
  show ?case
  proof (cases "ends s v")
    case True
    then have "mem_match (yy_ch_buf b) s cp (last_state st) (last_cpos st) = Ret (19, length buf + 2, 3, length buf + 1)"
      using ym mem_match_text [OF d(5)] by (simp add: v_def)
    moreover have "yy_find_action 19 (length buf + 2) 3 (length buf + 1) = Ret (10, length buf + 1)"
      by (simp add: find_action_pick acc_simps pick_def)
    moreover have "returns (act_on k ok bp 10 (length buf + 1) (st\<lparr>last_state := 3, last_cpos := length buf + 1\<rparr>)) (scanned n txt)"
      unfolding m(4)
    proof (rule act_on_end [OF at_text_pointers(3) [OF m(1)]])
      show "ends 1 (drop bp buf)" using re(3) [of v] True uv by simp
    next
      fix l st' assume "resumed n (drop bp buf @ rest) (length rest) (l, st')"
      then show "returns (scan_loop k ok l (yytext_r st') st') (scanned n (drop bp buf @ rest))"
        unfolding k by (rule scan_loop_resumed) (use Suc.IH Suc.prems(2) m(4,6) k in simp)
    qed (use m assms in simp_all)
    ultimately show ?thesis using scan_loop_match [OF d(9)] by (simp del: scan_loop.simps)
  next
    case False
    then obtain s' cp' las' lac' where f: "yy_match buf s cp (last_state st) (last_cpos st) = Ret (s', cp', las', lac')" "las' \<le> 19"
        "yy_find_action s' cp' las' lac' = pick (munch s v cp (acc (last_state st), last_cpos st))"
      using ym by (auto simp: v_def)
    have ne: "\<not> ends 1 (u @ v)" using re(3) [of v] False by simp
    obtain act j where t: "munch 1 (u @ v) bp (acc las, lac) = (act, bp + j)" "token_found (drop bp buf @ rest) act j" "j \<le> length (u @ v)"
      using token_in_buffer [OF ne, of bp "(acc las, lac)" rest] uv by auto
    have "munch s v cp (acc (last_state st), last_cpos st) = (act, bp + j)" using re(2) [of v] uv(2) t(1) by simp
    then have "yy_find_action s' cp' las' lac' = Ret (act, bp + j)"
      using f(3) token_found_act [OF t(2)] by (simp add: pick_def)
    note go = scan_loop_match [OF d(9) mem_match_text [OF d(5) f(1)] this]
    have j: "bp + j \<le> length buf" "bp \<le> length buf" using t(3) m(2,3) unfolding uv(1) [symmetric] by simp_all
    show ?thesis unfolding go m(4) by (rule act_on_token [OF at_text_pointers(3) [OF m(1) f(2)] t(2) j]) (use m(4,5) in simp)
  qed
qed simp

section \<open>The calls of the parser\<close>

definition lexed :: "nat \<Rightarrow> int \<times> int \<Rightarrow> string \<Rightarrow> int \<times> atom option \<times> scanner \<Rightarrow> bool" where
  "lexed n loc txt r = (case r of (code, lval, st) \<Rightarrow> \<exists>txt'. held n st txt' \<and> length txt' \<le> length txt \<and>
     (case tokens txt of
        [] \<Rightarrow> code = 0 \<and> lval = None
      | t # ts \<Rightarrow> code = tok_code t \<and> lval = tok_lval loc t \<and> tokens txt' = ts))"

lemma held_start:
  assumes "held n st txt"
  shows "returns (put_char (c_buf_p st) (yy_hold_char st) st)
    (\<lambda>st'. yy_start st' = 1 \<and> (\<exists>r. matching n st' (c_buf_p st') 1 (c_buf_p st') txt r \<and> r \<le> length txt))"
proof -
  obtain a b buf rest where h: "sc_inv n st a b buf rest" "c_buf_p st \<le> length buf"
      "mem_ok ((yy_ch_buf b)[c_buf_p st := Some (yy_hold_char st)]) buf" "txt = drop (c_buf_p st) buf @ rest" "length txt \<le> n"
    using assms by (auto simp: held_def)
  obtain st' b' where r: "put_char (c_buf_p st) (yy_hold_char st) st = Ret st'" "at_text n st' a b' buf rest"
      "st' = st\<lparr>buffers := (buffers st)(a \<mapsto> b')\<rparr>"
    using restore_hold [OF h(1,3)] h(2) by auto
  have "matching n st' (c_buf_p st') 1 (c_buf_p st') txt (length rest)"
    unfolding matching_def using r h at_textD(4) [OF r(2)]
    by (intro exI [of _ a] exI [of _ b'] exI [of _ buf] exI [of _ rest] exI [of _ "last_state st'"] exI [of _ "last_cpos st'"]) simp
  then show ?thesis using r(1) at_textD(8) [OF r(2)] h(4) by auto
qed

lemma tok_act_cases:
  "tok_act t = 1 \<and> t = LBRACE \<or> tok_act t = 2 \<and> t = RBRACE \<or>
   (\<exists>x. tok_act t = 3 \<and> t = TokAtom T_SR x \<or> tok_act t = 4 \<and> t = TokAtom T_ID x \<or>
        tok_act t = 5 \<and> t = TokAtom T_DBL x \<or> tok_act t = 6 \<and> t = TokAtom T_INT x)"
  by (cases t; simp add: tok_act_def split: atom_type.splits)

lemma SaveAtom_text:
  "cur_buf st = Ret b \<Longrightarrow> mem_read (yy_ch_buf b) (yytext_r st) (nat (yyleng_r st)) = Some (map Some x) \<Longrightarrow>
   SaveAtom ty loc st = Ret (Atom ty x (fst loc) (snd loc))"
  by (auto simp: SaveAtom_def comp_def)

lemma scan_tokens_ok:
  assumes "mem_enough n ok"
  shows "held n st txt \<Longrightarrow> length txt + 1 < k \<Longrightarrow> returns (scan_tokens k ok loc st) (lexed n loc txt)"
proof (induction k arbitrary: st "txt")
  case (Suc k)
  obtain st1 r where s1: "put_char (c_buf_p st) (yy_hold_char st) st = Ret st1" "yy_start st1 = 1"
      "matching n st1 (c_buf_p st1) 1 (c_buf_p st1) txt r" "r \<le> length txt"
    using held_start [OF Suc.prems(1)] by (auto simp: returns_iff)
  obtain act st2 where s2: "scan_loop (Suc k) ok (Lmatch 1 (c_buf_p st1)) (c_buf_p st1) st1 = Ret (act, st2)" "scanned n txt (act, st2)"
    using scan_loop_ok [OF assms s1(3), of "Suc k"] s1(4) Suc.prems(2) by (auto simp: returns_iff simp del: scan_loop.simps)
  note go = scan_tokens.simps(2) [of k ok loc st, unfolded s1(1) exec_bind.simps s1(2) s2(1) prod.case Let_def]
  show ?case
  proof (cases "txt = []")
    case True
    then show ?thesis using go s2(2) by (auto simp: scanned_def lexed_def tokens.simps)
  next
    case False
    then obtain j b where t: "token_found txt act j" "held n st2 (drop j txt)" "cur_buf st2 = Ret b"
        "mem_read (yy_ch_buf b) (yytext_r st2) (nat (yyleng_r st2)) = Some (map Some (take j txt))"
      using s2(2) by (auto simp: scanned_def)
    note sa = SaveAtom_text [OF t(3,4)]
    from t(1) consider (skip) "act = 7" "tokens txt = tokens (drop j txt)" "0 < j" "j \<le> length txt" | (stop) "act = 8" "tokens txt = []"
      | (tok) t where "act = tok_act t" "tokens txt = t # tokens (drop j txt)" "tok_reads t (take j txt)"
      unfolding token_found_def by blast
    then show ?thesis
    proof cases
      case skip
      have "returns (scan_tokens k ok loc st2) (lexed n loc (drop j txt))"
        by (rule Suc.IH [OF t(2)]) (use Suc.prems(2) skip in simp)
      then have "returns (scan_tokens k ok loc st2) (lexed n loc txt)"
        by (rule returns_mono) (use skip(2) in \<open>auto simp: lexed_def\<close>)
      then show ?thesis unfolding go using skip(1) by simp
    next
      case stop
      then show ?thesis unfolding go using t(2) by (auto simp: lexed_def)
    next
      case (tok u)
      have "lexed n loc txt (tok_code u, tok_lval loc u, st2)"
        unfolding lexed_def prod.case using t(2) tok(2) by (intro exI [of _ "drop j txt"]) simp
      then show ?thesis unfolding go using tok_act_cases [of u] tok(1,3) sa
        by (elim disjE exE conjE) (simp_all add: tok_code_def tok_lval_def tok_reads_def)
    qed
  qed
qed simp

section \<open>The first call\<close>

definition ready :: "nat \<Rightarrow> (nat \<Rightarrow> bool) \<Rightarrow> scanner \<Rightarrow> string \<Rightarrow> bool" where
  "ready n ok st txt \<longleftrightarrow> (if yy_init st then held n st txt else returns (first_call ok st) (\<lambda>st'. held n st' txt))"

lemma file_yylex_ok:
  "mem_enough n ok \<Longrightarrow> ready n ok st txt \<Longrightarrow> length txt + 1 < k \<Longrightarrow> returns (file_yylex k ok loc st) (lexed n loc txt)"
  using scan_tokens_ok [of n ok _ "txt" k loc]
  by (auto simp: file_yylex_def ready_def simp del: scan_tokens.simps elim!: returns_mono split: if_splits)

lemma held_ready: "held n st txt \<Longrightarrow> ready n ok st txt"
  by (auto simp: ready_def held_def sc_inv_def)

lemma create_buffer_ok:
  assumes "ok 64" "ok (sz + 2)" "YY_CURRENT_BUFFER st = Ret None"
  shows "\<exists>b. yy_create_buffer ok (Some f) sz st =
      Ret (next_buffer st, st\<lparr>buffers := (buffers st)(next_buffer st \<mapsto> b), next_buffer := next_buffer st + 1\<rparr>) \<and>
    yy_input_file b = Some f \<and> yy_buf_pos b = 0 \<and> yy_buf_size b = sz \<and> b_n_chars b = 0 \<and> yy_is_our_buffer b \<and> yy_fill_buffer b \<and>
    yy_buffer_status b = YY_BUFFER_NEW \<and> length (yy_ch_buf b) = sz + 2 \<and> mem_ok (yy_ch_buf b) []"
  using assms
  by (intro exI [of _ "\<lparr>yy_input_file = Some f, yy_ch_buf = Some CHR 0x00 # Some CHR 0x00 # replicate sz None, yy_buf_pos = 0,
        yy_buf_size = sz, b_n_chars = 0, yy_is_our_buffer = True, yy_is_interactive = tty (files st f), yy_at_bol = True,
        yy_bs_lineno = 1, yy_bs_column = 0, yy_fill_buffer = True, yy_buffer_status = YY_BUFFER_NEW\<rparr>"])
     (simp add: yy_create_buffer_def yy_init_buffer_def yy_flush_buffer_def buffer_defs Let_def mem_ok_def)

lemma held_loaded:
  assumes "YY_CURRENT_BUFFER st = Ret (Some a)" "buffers st a = Some b" "mem_ok (yy_ch_buf b) buf" "b_n_chars b = length buf"
    "yy_buf_pos b = 0" "yy_init st" "yy_start st = 1" "last_state st \<le> 19" "CHR 0x00 \<notin> set (buf @ rest)" "length (buf @ rest) \<le> n"
    "yy_fill_buffer b \<longrightarrow> filled_from n (st\<lparr>yyin_r := yy_input_file b\<rparr>) b buf rest" "\<not> yy_fill_buffer b \<longrightarrow> rest = []"
  shows "returns (yy_load_buffer_state st) (\<lambda>st'. held n st' (buf @ rest))"
proof -
  let ?c = "(buf @ [CHR 0x00, CHR 0x00]) ! 0"
  have c: "cell_at (yy_ch_buf b) 0 = Ret ?c" "yy_ch_buf b ! 0 = Some ?c"
    using mem_ok_cell [OF assms(3), of 0] mem_ok_nth [OF assms(3), of 0] by simp_all
  define st' where "st' = st\<lparr>yy_n_chars := length buf, c_buf_p := 0, yytext_r := 0, yyin_r := yy_input_file b, yy_hold_char := ?c\<rparr>"
  have "yy_load_buffer_state st = Ret st'"
    using assms c(1) by (simp add: yy_load_buffer_state_def buffer_defs Let_def st'_def)
  moreover have "sc_inv n st' a b buf rest"
    using assms by (auto simp: sc_inv_def st'_def filled_from_def)
  moreover have "(yy_ch_buf b)[0 := Some ?c] = yy_ch_buf b" using c(2) by (metis list_update_id)
  ultimately have "held n st' (buf @ rest)" unfolding held_def using assms(3,10)
    by (intro exI [of _ a] exI [of _ b] exI [of _ buf] exI [of _ rest]) (simp add: st'_def)
  then show ?thesis using \<open>yy_load_buffer_state st = Ret st'\<close> by simp
qed

lemma file_ready:
  assumes "mem_enough (length txt) ok" "CHR 0x00 \<notin> set txt" "evs (fs f) = map Ch txt" "\<not> ferr (fs f)"
  shows "ready (length txt) ok (yyset_in (Some f) (yylex_init fs)) txt"
proof -
  define st where "st = yyset_in (Some f) (yylex_init fs)\<lparr>yy_init := True, yy_start := 1, yyout_r := Some 1,
    yy_buffer_stack := Some [None]\<rparr>"
  have ok: "ok 8" "ok 64" "ok (16384 + 2)" using assms(1) by (simp_all add: mem_enough_def cap_def)
  have "YY_CURRENT_BUFFER st = Ret None"
    by (simp add: st_def YY_CURRENT_BUFFER_def yyset_in_def yylex_init_def yy_init_globals_def)
  then obtain b where b: "yy_create_buffer ok (Some f) 16384 st =
      Ret (next_buffer st, st\<lparr>buffers := (buffers st)(next_buffer st \<mapsto> b), next_buffer := next_buffer st + 1\<rparr>)"
    "yy_input_file b = Some f" "yy_buf_pos b = 0" "yy_buf_size b = 16384" "b_n_chars b = 0" "yy_is_our_buffer b" "yy_fill_buffer b"
    "yy_buffer_status b = YY_BUFFER_NEW" "length (yy_ch_buf b) = 16384 + 2" "mem_ok (yy_ch_buf b) []"
    using create_buffer_ok [OF ok(2,3)] by blast
  define st' where "st' = st\<lparr>buffers := (buffers st)(0 \<mapsto> b), next_buffer := 1, yy_buffer_stack := Some [Some 0]\<rparr>"
  have "first_call ok (yyset_in (Some f) (yylex_init fs)) = yy_load_buffer_state st'"
    using b(1) ok(1)
    by (simp add: first_call_def st'_def st_def YY_CURRENT_BUFFER_def yyset_in_def yylex_init_def yy_init_globals_def
          yyensure_buffer_stack_def set_current_def Let_def)
  moreover have "returns (yy_load_buffer_state st') (\<lambda>st''. held (length txt) st'' ([] @ txt))"
    by (rule held_loaded [of _ 0 b])
       (use b(2-) assms(2-) in \<open>simp_all add: st'_def st_def YY_CURRENT_BUFFER_def yyset_in_def yylex_init_def yy_init_globals_def
          filled_from_def cap_def\<close>)
  ultimately show ?thesis by (simp add: ready_def yyset_in_def yylex_init_def yy_init_globals_def)
qed

lemma string_ready:
  assumes "mem_enough (length txt) ok" "CHR 0x00 \<notin> set txt"
  shows "returns (yy_scan_bytes ok txt (yylex_init fs)) (\<lambda>(a, st). ready (length txt) ok st txt)"
proof -
  define b where "b = \<lparr>yy_input_file = None, yy_ch_buf = map Some txt @ [Some CHR 0x00, Some CHR 0x00], yy_buf_pos = 0,
    yy_buf_size = length txt, b_n_chars = length txt, yy_is_our_buffer = True, yy_is_interactive = False, yy_at_bol = True,
    yy_bs_lineno = 0, yy_bs_column = 0, yy_fill_buffer = False, yy_buffer_status = YY_BUFFER_NEW\<rparr>"
  have ok: "ok 8" "ok 64" "ok (length txt + 2)" using assms(1) by (simp_all add: mem_enough_def cap_def)
  have c0: "cell_at (map Some txt @ [Some CHR 0x00, Some CHR 0x00]) 0 = Ret ((txt @ [CHR 0x00, CHR 0x00]) ! 0)"
    by (cases "txt") (simp_all add: cell_at_def)
  have c1: "cell_at (map Some txt @ [Some CHR 0x00, Some CHR 0x00]) (length txt) = Ret CHR 0x00"
    "cell_at (map Some txt @ [Some CHR 0x00, Some CHR 0x00]) (Suc (length txt)) = Ret CHR 0x00"
    by (simp_all add: cell_at_def nth_append)
  define st where "st = (yylex_init fs)\<lparr>buffers := (buffers (yylex_init fs))(0 \<mapsto> b), next_buffer := 1, yy_buffer_stack := Some [Some 0],
     yy_n_chars := length txt, c_buf_p := 0, yytext_r := 0, yy_hold_char := (txt @ [CHR 0x00, CHR 0x00]) ! 0,
     yy_did_buffer_switch_on_eof := True\<rparr>"
  have sb: "yy_scan_bytes ok txt (yylex_init fs) = Ret (0, st)"
    using ok c0 c1
    by (simp add: yy_scan_bytes_def yy_scan_buffer_def yy_switch_to_buffer_def yyensure_buffer_stack_def save_buffer_def load_switched_def
          yy_load_buffer_state_def set_current_def YY_CURRENT_BUFFER_def buffer_defs Let_def yylex_init_def yy_init_globals_def st_def b_def)
  define st' where "st' = st\<lparr>yy_init := True, yy_start := 1, yyin_r := Some 0, yyout_r := Some 1\<rparr>"
  have "first_call ok st = yy_load_buffer_state st'"
    by (simp add: first_call_def YY_CURRENT_BUFFER_def st'_def st_def yylex_init_def yy_init_globals_def)
  moreover have "returns (yy_load_buffer_state st') (\<lambda>st''. held (length txt) st'' (txt @ []))"
    by (rule held_loaded [of _ 0 b])
       (use assms(2) in \<open>simp_all add: YY_CURRENT_BUFFER_def b_def mem_ok_def st'_def st_def yylex_init_def yy_init_globals_def\<close>)
  ultimately show ?thesis unfolding sb by (simp add: ready_def st_def yylex_init_def yy_init_globals_def)
qed

section \<open>All tokens of a file\<close>

text \<open>The calls of a parser up to the first 0, on a file and on a text in memory.\<close>

primrec file_lex_all :: "nat \<Rightarrow> nat \<Rightarrow> (nat \<Rightarrow> bool) \<Rightarrow> int \<times> int \<Rightarrow> scanner \<Rightarrow> (int \<times> atom option) list exec" where
  "file_lex_all 0 k ok loc st = Diverge"
| "file_lex_all (Suc j) k ok loc st =
     exec_bind (file_yylex k ok loc st) (\<lambda>(code, lval, st).
     if code = 0 then Ret [] else exec_bind (file_lex_all j k ok loc st) (\<lambda>r. Ret ((code, lval) # r)))"

primrec text_lex_all :: "nat \<Rightarrow> string \<Rightarrow> int \<times> int \<Rightarrow> yyguts \<Rightarrow> (int \<times> atom option) list exec" where
  "text_lex_all 0 inp loc g = Diverge"
| "text_lex_all (Suc j) inp loc g =
     exec_bind (yylex inp loc g) (\<lambda>(code, lval, g).
     if code = 0 then Ret [] else exec_bind (text_lex_all j inp loc g) (\<lambda>r. Ret ((code, lval) # r)))"

abbreviation tok_result :: "int \<times> int \<Rightarrow> tok \<Rightarrow> int \<times> atom option" where
  "tok_result loc t \<equiv> (tok_code t, tok_lval loc t)"

lemma tok_code_nonzero [simp]: "tok_code t \<noteq> 0"
  by (cases t) (auto simp: tok_code_def split: atom_type.splits)

lemma file_lex_all_ok:
  assumes "mem_enough n ok"
  shows "ready n ok st txt \<Longrightarrow> length (tokens txt) < j \<Longrightarrow> length txt + 1 < k \<Longrightarrow>
    file_lex_all j k ok loc st = Ret (map (tok_result loc) (tokens txt))"
proof (induction j arbitrary: st "txt")
  case (Suc j)
  obtain code lval st' txt' where y: "file_yylex k ok loc st = Ret (code, lval, st')" "held n st' txt'" "length txt' \<le> length txt"
      "case tokens txt of [] \<Rightarrow> code = 0 \<and> lval = None | t # ts \<Rightarrow> code = tok_code t \<and> lval = tok_lval loc t \<and> tokens txt' = ts"
    using file_yylex_ok [OF assms Suc.prems(1,3), of loc] unfolding returns_iff lexed_def by auto
  show ?case
  proof (cases "tokens txt")
    case Nil
    with y show ?thesis by simp
  next
    case (Cons t ts)
    then have "file_lex_all j k ok loc st' = Ret (map (tok_result loc) (tokens txt'))"
      using Suc.IH [OF held_ready [OF y(2)]] y(3,4) Suc.prems by simp
    with y Cons show ?thesis by simp
  qed
qed simp

lemma text_lex_all_ok:
  assumes "CHR 0x00 \<notin> set inp"
  shows "lex_inv inp g \<Longrightarrow> length (rest_tokens inp g) < j \<Longrightarrow> text_lex_all j inp loc g = Ret (map (tok_result loc) (rest_tokens inp g))"
proof (induction j arbitrary: g)
  case (Suc j)
  obtain code lval g' where y: "yylex inp loc g = Ret (code, lval, g')" "lex_step inp loc g (code, lval, g')"
    using yylex_steps [OF assms Suc.prems(1), of loc] by (auto simp: returns_iff)
  show ?case
  proof (cases "rest_tokens inp g")
    case Nil
    with y show ?thesis by (simp add: lex_step_def)
  next
    case (Cons t ts)
    then have "text_lex_all j inp loc g' = Ret (map (tok_result loc) (rest_tokens inp g'))"
      using Suc.IH [of g'] y Suc.prems by (simp add: lex_step_def)
    with y Cons show ?thesis by (simp add: lex_step_def)
  qed
qed simp

text \<open>
  C17. The refills of the buffer cannot be observed: on a file of less than \<open>2 ^ 30 - 1\<close> characters, none of
  them NUL, read in blocks or line by line from a terminal, and when the allocations of the buffer
  succeed, the calls of \<^verbatim>\<open>yylex\<close> return without leaving the memory of the buffer, and they return what they return with
  the whole text in the buffer, the tokens of the text. Below that length the buffer stays smaller than
  \<open>2 ^ 31\<close>, so that the \<^verbatim>\<open>int\<close>s that count its characters (\<^verbatim>\<open>number_to_move\<close>, \<^verbatim>\<open>yy_n_chars\<close>, \<^verbatim>\<open>yyleng\<close>) hold what they count.
\<close>

theorem refills_refine_text:
  assumes "CHR 0x00 \<notin> set txt" "length txt < 2 ^ 30 - 1" "evs (fs f) = map Ch txt" "\<not> ferr (fs f)"
    and "\<forall>k \<le> max 16384 (2 * (length txt + 1)) + 2. ok k"
  shows "file_lex_all (length txt + 1) (length txt + 2) ok loc (yyset_in (Some f) (yylex_init fs)) =
      text_lex_all (length txt + 1) txt loc lex_start \<and>
    text_lex_all (length txt + 1) txt loc lex_start = Ret (map (tok_result loc) (tokens txt))"
proof -
  have m: "mem_enough (length txt) ok" using assms(2,5) by (simp add: mem_enough_def cap_def)
  have "file_lex_all (length txt + 1) (length txt + 2) ok loc (yyset_in (Some f) (yylex_init fs)) = Ret (map (tok_result loc) (tokens txt))"
    by (rule file_lex_all_ok [OF m file_ready [of "txt" ok fs f, OF m assms(1,3,4)]]) (use length_tokens [of "txt"] in simp_all)
  moreover have "text_lex_all (length txt + 1) txt loc lex_start = Ret (map (tok_result loc) (rest_tokens txt lex_start))"
    by (rule text_lex_all_ok [OF assms(1)]) (use length_tokens [of "txt"] in \<open>simp_all add: lex_inv_def lex_start_def rest_tokens_def\<close>)
  ultimately show ?thesis by (simp add: rest_tokens_def lex_start_def)
qed

theorem refills_refine_text_witness:
  "file_lex_all (length ''(a 1)'' + 1) (length ''(a 1)'' + 2) (\<lambda>n. True) (1, 1)
      (yyset_in (Some 2) (yylex_init (\<lambda>i. \<lparr>evs = map Ch ''(a 1)'', ferr = False, tty = True\<rparr>))) =
    text_lex_all (length ''(a 1)'' + 1) ''(a 1)'' (1, 1) lex_start \<and>
   text_lex_all (length ''(a 1)'' + 1) ''(a 1)'' (1, 1) lex_start = Ret (map (tok_result (1, 1)) (tokens ''(a 1)''))"
  by (rule refills_refine_text) simp_all

text \<open>
  A scanner that \<^verbatim>\<open>yy_scan_string\<close> starts returns the tokens of the C string, the characters before the first NUL.
\<close>

theorem scan_string_tokens:
  assumes "txt = takeWhile (\<lambda>c. c \<noteq> CHR 0x00) str" "mem_enough (length txt) ok"
  shows "returns (yy_scan_string ok str (yylex_init fs))
    (\<lambda>(a, st). file_lex_all (length txt + 1) (length txt + 2) ok loc st = Ret (map (tok_result loc) (tokens txt)))"
proof -
  have "CHR 0x00 \<notin> set txt" using assms(1) by (auto dest: set_takeWhileD)
  then have "returns (yy_scan_string ok str (yylex_init fs)) (\<lambda>(a, st). ready (length txt) ok st txt)"
    using string_ready [OF assms(2)] by (simp add: yy_scan_string_def flip: assms(1))
  then show ?thesis
  proof (rule returns_mono, clarify)
    fix a st assume "ready (length txt) ok st txt"
    then show "file_lex_all (length txt + 1) (length txt + 2) ok loc st = Ret (map (tok_result loc) (tokens txt))"
      by (rule file_lex_all_ok [OF assms(2)]) (use length_tokens [of "txt"] in simp_all)
  qed
qed

theorem scan_string_tokens_witness:
  "returns (yy_scan_string (\<lambda>n. True) ''x'' (yylex_init (\<lambda>i. \<lparr>evs = [], ferr = False, tty = False\<rparr>)))
    (\<lambda>(a, st). file_lex_all (length ''x'' + 1) (length ''x'' + 2) (\<lambda>n. True) (1, 1) st = Ret (map (tok_result (1, 1)) (tokens ''x'')))"
  by (rule scan_string_tokens) (simp_all add: mem_enough_def)

section \<open>Flaws of the generated code\<close>

text \<open>
  A signal that interrupts a read after its first characters ends the process at the end of the file: the error
  indicator of the \<^verbatim>\<open>FILE\<close> stays set, and \<^verbatim>\<open>errno\<close>, which the loop of \<^verbatim>\<open>YY_INPUT\<close> sets to 0 before the read, is not
  \<^verbatim>\<open>EINTR\<close> then. An interrupted read that returned nothing is repeated.
\<close>

theorem interrupted_read_fatal:
  "t \<noteq> [] \<Longrightarrow> length t < n \<Longrightarrow>
     input_block n \<lparr>evs = map Ch t @ [Intr], ferr = False, tty = b\<rparr> = Ret (t, \<lparr>evs = [], ferr = True, tty = b\<rparr>) \<and>
     input_block n \<lparr>evs = [], ferr = True, tty = b\<rparr> = Fatal \<and>
     input_block n \<lparr>evs = Intr # map Ch t, ferr = False, tty = b\<rparr> = Ret (t, \<lparr>evs = [], ferr = False, tty = b\<rparr>)"
proof -
  assume t: "t \<noteq> []" "length t < n"
  have "fread_events n (map Ch t @ [Intr]) = (t, [], Some Intr)" using t(2)
  proof (induction t arbitrary: n)
    case Nil
    then show ?case by (cases n) simp_all
  next
    case (Cons c t)
    then show ?case by (cases n) simp_all
  qed
  moreover have "input_block n \<lparr>evs = [], ferr = True, tty = b\<rparr> = Fatal" using t by (intro sticky_error) simp_all
  moreover have "input_block n \<lparr>evs = map Ch t, ferr = False, tty = b\<rparr> = Ret (t, \<lparr>evs = [], ferr = False, tty = b\<rparr>)"
    using input_block_text [of "\<lparr>evs = map Ch t, ferr = False, tty = b\<rparr>" t n] t by simp
  moreover have "fread_events n (Intr # map Ch t) = ([], map Ch t, Some Intr)" using t(2) by (cases n) simp_all
  ultimately show ?thesis using t(1) by (simp add: input_block.simps [of n "\<lparr>evs = map Ch t @ [Intr], ferr = False, tty = b\<rparr>"]
      input_block.simps [of n "\<lparr>evs = Intr # map Ch t, ferr = False, tty = b\<rparr>"])
qed

text \<open>
  \<^verbatim>\<open>yylex_destroy\<close> deletes the buffer on the top of the stack and no other: the loop sets the top to null before
  \<^verbatim>\<open>yypop_buffer_state\<close>, which then returns at once, and ends. Buffers that were pushed before are lost.
\<close>

theorem yylex_destroy_top:
  assumes "YY_CURRENT_BUFFER st = Ret (Some a)" "buffers st a = Some b"
  shows "yylex_destroy st = Ret (yy_init_globals (st\<lparr>buffers := (buffers st)(a := None)\<rparr>))"
proof -
  obtain bs where bs: "yy_buffer_stack st = Some bs" "yy_buffer_stack_top st < length bs" "bs ! yy_buffer_stack_top st = Some a"
    using assms(1) by (auto simp: YY_CURRENT_BUFFER_def split: option.splits if_splits)
  then obtain m where m: "length bs = Suc m" by (cases "length bs") auto
  show ?thesis using assms(2) bs(1,3) bs(2) [unfolded m] m
    by (simp add: yylex_destroy_def yy_delete_buffer_def yypop_buffer_state_def set_current_def YY_CURRENT_BUFFER_def buffer_at_def
          yy_init_globals_def)
qed

end
