(* ===== verification/Nasty_File.thy ===== *)
theory Nasty_File
  imports Nasty Lexer_Buffer
begin

text \<open>
  \<^verbatim>\<open>Parser::run\<close> on a stream: the generated parser over the scanner that reads a \<^verbatim>\<open>FILE\<close> block by block into its buffer.
  The scanner of \<open>Lexer_Buffer\<close> is a second implementation of the interface \<open>token_source\<close>, so that what was proved of
  the parser holds of it, and the round trip of \<open>Nasty\<close> holds of the file that is really read.
\<close>

section \<open>The scanner as a source of tokens\<close>

lemma mem_ok_unique:
  assumes "mem_ok m buf" "mem_ok m buf'" "length buf = length buf'"
  shows "buf = buf'"
proof -
  have "map Some buf = map Some buf'" using mem_ok_take [OF assms(1)] mem_ok_take [OF assms(2), folded assms(3)] by (rule trans [OF sym])
  then show ?thesis by (simp add: inj_map_eq_map [OF inj_Some])
qed

lemma map_Ch_eq [simp]: "map Ch x = map Ch y \<longleftrightarrow> x = y"
  by (rule inj_map_eq_map) (simp add: inj_on_def)

lemma sc_inv_unique:
  assumes "sc_inv n st a b buf rest" "sc_inv n st a' b' buf' rest'"
  shows "a = a' \<and> b = b' \<and> length buf = length buf' \<and> rest = rest'"
  using assms by (cases "yy_fill_buffer b") (auto simp: sc_inv_def filled_from_def)

lemma held_unique:
  assumes "held n st txt" "held n st txt'"
  shows "txt = txt'"
proof -
  obtain a b buf rest where h: "sc_inv n st a b buf rest" "mem_ok ((yy_ch_buf b)[c_buf_p st := Some (yy_hold_char st)]) buf"
      "txt = drop (c_buf_p st) buf @ rest"
    using assms(1) by (auto simp: held_def)
  obtain a' b' buf' rest' where h': "sc_inv n st a' b' buf' rest'" "mem_ok ((yy_ch_buf b')[c_buf_p st := Some (yy_hold_char st)]) buf'"
      "txt' = drop (c_buf_p st) buf' @ rest'"
    using assms(2) by (auto simp: held_def)
  note u = sc_inv_unique [OF h(1) h'(1)]
  then have "buf = buf'" using h(2) h'(2) by (intro mem_ok_unique) simp_all
  with u h(3) h'(3) show ?thesis by simp
qed

lemma ready_unique: "ready n ok st txt \<Longrightarrow> ready n ok st txt' \<Longrightarrow> txt = txt'"
  by (auto simp: ready_def returns_iff split: if_splits intro: held_unique)

text \<open>The text that a scanner has ahead of it, in its buffer and in its file.\<close>

definition text_ahead :: "nat \<Rightarrow> (nat \<Rightarrow> bool) \<Rightarrow> scanner \<Rightarrow> string" where
  "text_ahead n ok st = (THE txt. ready n ok st txt)"

lemma text_ahead_ready: "ready n ok st txt \<Longrightarrow> text_ahead n ok st = txt"
  unfolding text_ahead_def by (rule the_equality) (auto intro: ready_unique)

definition readable :: "nat \<Rightarrow> (nat \<Rightarrow> bool) \<Rightarrow> nat \<Rightarrow> scanner \<Rightarrow> bool" where
  "readable n ok k st \<longleftrightarrow> mem_enough n ok \<and> (\<exists>txt. ready n ok st txt \<and> length txt + 1 < k)"

lemma file_yylex_step:
  assumes "readable n ok k st"
  shows "returns (file_yylex k ok loc st) (\<lambda>(code, lval, st'). readable n ok k st' \<and>
    (case tokens (text_ahead n ok st) of
       [] \<Rightarrow> code = 0 \<and> lval = None
     | t # ts \<Rightarrow> code = tok_code t \<and> lval = tok_lval loc t \<and> tokens (text_ahead n ok st') = ts))"
proof -
  obtain "txt" where t: "mem_enough n ok" "ready n ok st txt" "length txt + 1 < k" using assms by (auto simp: readable_def)
  show ?thesis unfolding text_ahead_ready [OF t(2)]
  proof (rule returns_mono [OF file_yylex_ok [OF t]], clarify)
    fix code lval st' assume "lexed n loc txt (code, lval, st')"
    then obtain txt' where l: "held n st' txt'" "length txt' \<le> length txt"
        "case tokens txt of [] \<Rightarrow> code = 0 \<and> lval = None | t # ts \<Rightarrow> code = tok_code t \<and> lval = tok_lval loc t \<and> tokens txt' = ts"
      by (auto simp: lexed_def)
    have "readable n ok k st'" unfolding readable_def using t l(2) held_ready [OF l(1), of ok] by (meson add_le_mono1 le_less_trans)
    then show "readable n ok k st' \<and> (case tokens txt of [] \<Rightarrow> code = 0 \<and> lval = None
       | t # ts \<Rightarrow> code = tok_code t \<and> lval = tok_lval loc t \<and> tokens (text_ahead n ok st') = ts)"
      using l(3) text_ahead_ready [OF held_ready [OF l(1), of ok]] by (cases "tokens txt") simp_all
  qed
qed

interpretation stream: token_source "file_yylex k ok loc" "\<lambda>st. tokens (text_ahead n ok st)" "readable n ok k" loc
proof
  fix st t ts
  assume "readable n ok k st" "tokens (text_ahead n ok st) = t # ts"
  then show "\<exists>st'. file_yylex k ok loc st = Ret (tok_code t, tok_lval loc t, st') \<and> readable n ok k st' \<and> tokens (text_ahead n ok st') = ts"
    using file_yylex_step [of n ok k st loc] by (auto simp: returns_iff)
next
  fix st
  assume "readable n ok k st" "tokens (text_ahead n ok st) = []"
  then show "\<exists>st'. file_yylex k ok loc st = Ret (0, None, st')"
    using file_yylex_step [of n ok k st loc] by (auto simp: returns_iff)
qed

section \<open>Running the parser on a file\<close>

text \<open>
  \<open>fopen\<close> maps the name of a file to the number of the \<^verbatim>\<open>FILE\<close> that \<^verbatim>\<open>fopen\<close> opens, \<open>fs\<close> are the open files, \<open>ok\<close> and \<open>mal\<close> tell
  which allocations of the scanner and of the parser succeed. \<open>k\<close> is fuel for the scanner and the parser.
\<close>

definition run_file :: "(string \<Rightarrow> nat option) \<Rightarrow> (nat \<Rightarrow> cfile) \<Rightarrow> (nat \<Rightarrow> bool) \<Rightarrow> (nat \<Rightarrow> bool) \<Rightarrow> nat \<Rightarrow> parser \<Rightarrow>
    (atom list option \<times> parser \<times> nat) exec" where
  "run_file fopen fs ok mal k p =
     (let sc = yylex_init fs in
      case fopen (file_name p) of
        None \<Rightarrow> Ret (None, p, 0)
      | Some f \<Rightarrow>
          exec_bind (yyparse (3 * k + 2) mal (file_yylex k ok (1, 1)) (yyset_in (Some f) sc)) (\<lambda>(res, ex).
          let p = p\<lparr>expr_ptr := (case ex of None \<Rightarrow> expr_ptr p | Some e \<Rightarrow> Some e)\<rparr>
          in if res \<noteq> 0 then Ret (None, parser_free p, 0)
             else Ret (expr_ptr p, p, 1)))"

text \<open>A file that delivers the characters of a text, without NUL characters and errors, and memory for the buffer.\<close>

definition delivers :: "(nat \<Rightarrow> cfile) \<Rightarrow> (nat \<Rightarrow> bool) \<Rightarrow> nat \<Rightarrow> string \<Rightarrow> bool" where
  "delivers fs ok f txt \<longleftrightarrow> CHR 0x00 \<notin> set txt \<and> evs (fs f) = map Ch txt \<and> \<not> ferr (fs f) \<and> mem_enough (length txt) ok"

lemma file_verdict:
  assumes "delivers fs ok f txt" "length txt + 2 \<le> k"
  shows "verdict (build loc (tokens txt) [[]]) (too_deep mal (nesting (tokens txt) 1))
    (yyparse (3 * k + 2) mal (file_yylex k ok loc) (yyset_in (Some f) (yylex_init fs)))"
proof -
  let ?st = "yyset_in (Some f) (yylex_init fs)"
  have r: "ready (length txt) ok ?st txt" using assms(1) by (intro file_ready) (simp_all add: delivers_def)
  have "readable (length txt) ok k ?st" unfolding readable_def using r assms by (auto simp: delivers_def)
  moreover have "3 * length (tokens (text_ahead (length txt) ok ?st)) + 2 \<le> 3 * k + 2"
    using length_tokens [of "txt"] assms(2) by (simp add: text_ahead_ready [OF r])
  ultimately show ?thesis
    using stream.parse_tokens [of "length txt" ok k ?st "3 * k + 2" loc mal] by (simp add: text_ahead_ready [OF r])
qed

text \<open>
  C14. The round trip through a file: an expression whose printed form is the content of the file is read back by
  \<^verbatim>\<open>Parser::run\<close>, through the buffer of the scanner with its refills, the tables of the scanner and the
  automaton of the parser.
\<close>

theorem file_roundtrip:
  assumes "wf_expr e" "expr_depth e < 4998" "\<forall>n. mal n" "fopen (file_name p) = Some f" "delivers fs ok f (toString e)"
    "length (toString e) + 2 \<le> k"
  shows "run_file fopen fs ok mal k p = Ret (Some e, p\<lparr>expr_ptr := Some e\<rparr>, 1)"
proof -
  have tk: "tokens (toString e) = concat (map atom_toks e)" using toString_tokens [OF assms(1)] by simp
  have "expr_of (1, 1) (concat (map atom_toks e)) e"
    using assms(1) atom_of_toks by (intro expr_of_list) (auto simp: wf_expr_def list_all_iff)
  then have "build (1, 1) (tokens (toString e)) [[]] = Some e" "\<not> too_deep mal (nesting (tokens (toString e)) 1)"
    using build_grammar nesting_expr [of e] assms(2,3) tk by (simp_all add: too_deep_def)
  then have "yyparse (3 * k + 2) mal (file_yylex k ok (1, 1)) (yyset_in (Some f) (yylex_init fs)) = Ret (0, Some e)"
    using file_verdict [OF assms(5,6), of "(1, 1)" mal] by (simp add: verdict_def)
  then show ?thesis using assms(4) by (simp add: run_file_def)
qed

theorem file_roundtrip_witness:
  "run_file (\<lambda>n. Some 3) (\<lambda>i. \<lparr>evs = map Ch (toString [Atom T_ID ''a'' 1 1]), ferr = False, tty = False\<rparr>) (\<lambda>n. True) (\<lambda>n. True)
     (length (toString [Atom T_ID ''a'' 1 1]) + 2) \<lparr>file_name = ''f'', expr_ptr = None\<rparr>
   = Ret (Some [Atom T_ID ''a'' 1 1], \<lparr>file_name = ''f'', expr_ptr = None\<rparr>\<lparr>expr_ptr := Some [Atom T_ID ''a'' 1 1]\<rparr>, 1)"
proof (rule file_roundtrip)
  show "delivers (\<lambda>i. \<lparr>evs = map Ch (toString [Atom T_ID ''a'' 1 1]), ferr = False, tty = False\<rparr>) (\<lambda>n. True) 3 (toString [Atom T_ID ''a'' 1 1])"
    by (simp add: delivers_def mem_enough_def toString_def repeat_char_def)
qed (simp_all add: wf_expr_def is_C_def is_D_def code_C_def expr_depth_def)

text \<open>
  C24. What \<^verbatim>\<open>Parser::run\<close> returns. For a file that cannot be opened it returns null. From a file whose text
  (without NUL, shorter than \<open>2 ^ 30 - 1\<close> characters, read without error) is derived by the grammar, nested less than 4999
  deep, it returns that expression, which is well formed, provided the allocations of the parser succeed; its file is
  left open. A text the grammar does not derive ends the process (\<^verbatim>\<open>yyerror\<close> aborts), so the branch of
  \<^verbatim>\<open>run\<close> that handles a failed parse is dead. Nothing else happens: in particular only one expression is derived.
\<close>

theorem run_file_outcomes:
  assumes "fopen (file_name p) = Some f" "delivers fs ok f txt" "length txt + 2 \<le> k"
  shows "(\<forall>e. expr_of (1, 1) (tokens txt) e \<and> nesting (tokens txt) 1 < 4999 \<and> (\<forall>n. mal n) \<longrightarrow>
         run_file fopen fs ok mal k p = Ret (Some e, p\<lparr>expr_ptr := Some e\<rparr>, 1) \<and> wf_expr e)
    \<and> ((\<nexists>e. expr_of (1, 1) (tokens txt) e) \<longrightarrow> run_file fopen fs ok mal k p = Fatal)
    \<and> (\<forall>r. run_file fopen fs ok mal k p = Ret r \<longrightarrow>
         (\<exists>e. expr_of (1, 1) (tokens txt) e \<and> r = (Some e, p\<lparr>expr_ptr := Some e\<rparr>, 1)))
    \<and> run_file (\<lambda>_. None) fs ok mal k p = Ret (None, p, 0)"
proof -
  let ?r = "yyparse (3 * k + 2) mal (file_yylex k ok (1, 1)) (yyset_in (Some f) (yylex_init fs))"
  note v = verdict_grammar [OF file_verdict [OF assms(2,3), of "(1, 1)" mal] build_grammar]
  have wf: "wf_expr e" if "expr_of (1, 1) (tokens txt) e" for e
    using expr_of_wf(1) [OF that] tokens_text_ok [of "txt"] assms(2) by (auto simp: delivers_def)
  have run: "run_file fopen fs ok mal k p = exec_bind ?r (\<lambda>(res, ex).
      let p = p\<lparr>expr_ptr := (case ex of None \<Rightarrow> expr_ptr p | Some e \<Rightarrow> Some e)\<rparr>
      in if res \<noteq> 0 then Ret (None, parser_free p, 0) else Ret (expr_ptr p, p, 1))"
    using assms(1) by (simp add: run_file_def)
  have "run_file fopen fs ok mal k p = Ret (Some e, p\<lparr>expr_ptr := Some e\<rparr>, 1) \<and> wf_expr e"
    if "expr_of (1, 1) (tokens txt) e" "nesting (tokens txt) 1 < 4999" "\<forall>n. mal n" for e
  proof -
    have "\<not> too_deep mal (nesting (tokens txt) 1)" using that by (simp add: too_deep_def)
    with v that(1) have "?r = Ret (0, Some e)" by blast
    then show ?thesis using wf [OF that(1)] by (simp add: run)
  qed
  moreover have "run_file fopen fs ok mal k p = Fatal" if "\<nexists>e. expr_of (1, 1) (tokens txt) e"
  proof -
    have "?r = Fatal" using v that by blast
    then show ?thesis by (simp add: run)
  qed
  moreover have "\<exists>e. expr_of (1, 1) (tokens txt) e \<and> r = (Some e, p\<lparr>expr_ptr := Some e\<rparr>, 1)"
    if "run_file fopen fs ok mal k p = Ret r" for r
  proof -
    have "?r \<noteq> Fatal" using that by (auto simp: run)
    then obtain e where "?r = Ret (0, Some e)" "expr_of (1, 1) (tokens txt) e" using v by blast
    then show ?thesis using that by (auto simp: run)
  qed
  moreover have "run_file (\<lambda>_. None) fs ok mal k p = Ret (None, p, 0)" by (simp add: run_file_def)
  ultimately show ?thesis by blast
qed

text \<open>A file that holds an expression, and one that holds a parenthesis that is never closed.\<close>

definition sample_file :: "string \<Rightarrow> cfile" where
  "sample_file txt = \<lparr>evs = map Ch txt, ferr = False, tty = False\<rparr>"

lemma no_open_paren: "\<not> expr_of (1, 1) [LBRACE] e" "\<not> atom_of (1, 1) [LBRACE] a"
proof -
  have "expr_of loc ts e \<Longrightarrow> ts \<noteq> [] \<and> ts \<noteq> [LBRACE]" "atom_of loc us a \<Longrightarrow> us \<noteq> [] \<and> us \<noteq> [LBRACE]" for loc ts us e a
    by (induction rule: expr_of_atom_of.inducts) (auto simp: Cons_eq_append_conv append_eq_Cons_conv)
  then show "\<not> expr_of (1, 1) [LBRACE] e" "\<not> atom_of (1, 1) [LBRACE] a" by blast+
qed

theorem run_file_outcomes_witness:
  "run_file (\<lambda>n. Some 3) (\<lambda>i. sample_file ''(a 1)'') (\<lambda>n. True) (\<lambda>n. True) 9 \<lparr>file_name = ''f'', expr_ptr = None\<rparr>
     = Ret (Some [AtomEx [Atom T_ID ''a'' 1 1, Atom T_INT ''1'' 1 1]],
         \<lparr>file_name = ''f'', expr_ptr = Some [AtomEx [Atom T_ID ''a'' 1 1, Atom T_INT ''1'' 1 1]]\<rparr>, 1)
   \<and> run_file (\<lambda>n. Some 3) (\<lambda>i. sample_file ''('') (\<lambda>n. True) (\<lambda>n. True) 9 \<lparr>file_name = ''f'', expr_ptr = None\<rparr> = Fatal"
proof -
  let ?p = "\<lparr>file_name = ''f'', expr_ptr = None\<rparr>"
  have t: "tokens ''(a 1)'' = [LBRACE, TokAtom T_ID ''a'', TokAtom T_INT ''1'', RBRACE]"
    using sample_tokens by (simp add: rest_tokens_def lex_start_def)
  have "delivers (\<lambda>i. sample_file ''(a 1)'') (\<lambda>n. True) 3 ''(a 1)''" "delivers (\<lambda>i. sample_file ''('') (\<lambda>n. True) 3 ''(''"
    by (simp_all add: delivers_def sample_file_def mem_enough_def)
  note o = run_file_outcomes [where p = ?p and fopen = "\<lambda>n. Some 3" and k = 9 and mal = "\<lambda>n. True", OF refl this(1)]
    run_file_outcomes [where p = ?p and fopen = "\<lambda>n. Some 3" and k = 9 and mal = "\<lambda>n. True", OF refl this(2)]
  have "tokens ''('' = [LBRACE]" by (simp add: tokens.simps is_space_def)
  then have "run_file (\<lambda>n. Some 3) (\<lambda>i. sample_file ''('') (\<lambda>n. True) (\<lambda>n. True) 9 ?p = Fatal"
    using o(2) no_open_paren by simp
  moreover have "nesting (tokens ''(a 1)'') 1 < 4999" by (simp add: t)
  then have "run_file (\<lambda>n. Some 3) (\<lambda>i. sample_file ''(a 1)'') (\<lambda>n. True) (\<lambda>n. True) 9 ?p
      = Ret (Some [AtomEx [Atom T_ID ''a'' 1 1, Atom T_INT ''1'' 1 1]],
          ?p\<lparr>expr_ptr := Some [AtomEx [Atom T_ID ''a'' 1 1, Atom T_INT ''1'' 1 1]]\<rparr>, 1)"
    using o(1) sample_derivation by (simp add: t)
  ultimately show ?thesis by simp
qed

end
