(* ===== verification/Numbers.thy ===== *)
theory Numbers
  imports Sperm_Prelude "HOL-Library.Signed_Division"
begin

text \<open>
  Three programs of \<^verbatim>\<open>leetcode\<close> on machine integers: \<^verbatim>\<open>reverse-integer.cc\<close>, \<^verbatim>\<open>palindrome-number.cc\<close> and
  \<^verbatim>\<open>divide-two-integers.cc\<close>. An \<^verbatim>\<open>int\<close> or a \<^verbatim>\<open>long long\<close> is an integer; arithmetic that leaves the range of the type is
  \<open>Undefined\<close>. Division and remainder truncate.
\<close>

section \<open>Signed arithmetic\<close>

definition chk32 :: "int \<Rightarrow> int exec" where
  "chk32 i = (if - (2 ^ 31) \<le> i \<and> i < 2 ^ 31 then Ret i else Undefined)"

definition chk64 :: "int \<Rightarrow> int exec" where
  "chk64 i = (if - (2 ^ 63) \<le> i \<and> i < 2 ^ 63 then Ret i else Undefined)"

lemma chk_simps:
  "- (2 ^ 31) \<le> i \<Longrightarrow> i < 2 ^ 31 \<Longrightarrow> chk32 i = Ret i" "2 ^ 31 \<le> i \<Longrightarrow> chk32 i = Undefined"
  "- (2 ^ 63) \<le> i \<Longrightarrow> i < 2 ^ 63 \<Longrightarrow> chk64 i = Ret i"
  by (simp_all add: chk32_def chk64_def)

lemma trunc_nonneg: "0 \<le> x \<Longrightarrow> 0 < y \<Longrightarrow> x sdiv y = x div (y::int)" "0 \<le> x \<Longrightarrow> 0 < y \<Longrightarrow> x smod y = x mod (y::int)"
  by (cases "x = 0"; simp add: signed_divide_int_def signed_modulo_int_def sgn_if minus_div_mult_eq_mod)+

lemma sdiv_10_less: "x \<noteq> 0 \<Longrightarrow> \<bar>x sdiv 10\<bar> < \<bar>x :: int\<bar>"
  by (auto simp: signed_divide_int_def abs_mult sgn_if)

section \<open>Reversing digits\<close>

function digit_string :: "int \<Rightarrow> int list" where
  "digit_string x = (if x = 0 then [] else (x smod 10 + 48) # digit_string (x sdiv 10))"
  by auto
termination by (relation "measure (\<lambda>x. nat \<bar>x\<bar>)") (simp_all add: sdiv_10_less)

fun digits_value :: "int list \<Rightarrow> int \<Rightarrow> int exec" where
  "digits_value [] v = Ret v"
| "digits_value (c # s) v = exec_bind (chk32 (v * 10)) (\<lambda>t. exec_bind (chk32 (t + (c - 48))) (digits_value s))"

definition reverse_int :: "int \<Rightarrow> int exec" where
  "reverse_int x =
     exec_bind (if x < 0 then exec_bind (chk32 (- x)) (\<lambda>x. Ret (True, x)) else Ret (False, x)) (\<lambda>(flip, x).
     exec_bind (digits_value (digit_string x) 0) (\<lambda>v. if flip then chk32 (- v) else Ret v))"

section \<open>Palindromes\<close>

function palindrome_loop :: "int \<Rightarrow> int \<Rightarrow> int option exec" where
  "palindrome_loop x v =
     (if x = 0 then Ret (Some v)
      else let b = x smod 10 in
           exec_bind (chk32 (2 ^ 31 - 1 - b)) (\<lambda>m.
           if v > m sdiv 10 then Ret None
           else exec_bind (chk32 (v * 10)) (\<lambda>t. exec_bind (chk32 (t + b)) (palindrome_loop (x sdiv 10)))))"
  by auto
termination by (relation "measure (\<lambda>(x, v). nat \<bar>x\<bar>)") (simp_all add: sdiv_10_less)

declare digit_string.simps [simp del] palindrome_loop.simps [simp del]

definition isPalindrome_int :: "int \<Rightarrow> bool exec" where
  "isPalindrome_int x =
     (if x < 0 then Ret False
      else exec_bind (palindrome_loop x 0) (\<lambda>r. Ret (case r of None \<Rightarrow> False | Some v \<Rightarrow> v = x)))"

section \<open>Division by shifts\<close>

primrec msb_loop :: "nat \<Rightarrow> nat \<Rightarrow> int \<Rightarrow> nat \<Rightarrow> nat" where
  "msb_loop 0 i d n = n"
| "msb_loop (Suc k) i d n = msb_loop k (i + 1) (drop_bit 1 d) (if d AND 1 \<noteq> 0 then i else n)"

definition msb_LL :: "int \<Rightarrow> nat" where
  "msb_LL d = msb_loop 63 0 d 0"

primrec shift_loop :: "nat \<Rightarrow> int \<Rightarrow> int \<Rightarrow> (int \<times> int) exec" where
  "shift_loop 0 saved base = Ret (saved, base)"
| "shift_loop (Suc j) saved base =
     exec_bind (chk64 (push_bit 1 saved)) (\<lambda>saved. exec_bind (chk64 (push_bit 1 base)) (shift_loop j saved))"

primrec divide_loop :: "nat \<Rightarrow> int \<Rightarrow> int \<Rightarrow> int \<Rightarrow> (int \<times> int) exec" where
  "divide_loop 0 divisor dividend res = Ret (dividend, res)"
| "divide_loop (Suc i) divisor dividend res =
     exec_bind (shift_loop i divisor 1) (\<lambda>(saved, base).
     if dividend \<ge> saved
     then exec_bind (chk64 (dividend - saved)) (\<lambda>dividend. exec_bind (chk64 (res + base)) (divide_loop i divisor dividend))
     else divide_loop i divisor dividend res)"

definition divide_LL :: "int \<Rightarrow> int \<Rightarrow> (int \<times> bool) exec" where
  "divide_LL dividend divisor =
     exec_bind (divide_loop (63 - msb_LL divisor) divisor dividend 0) (\<lambda>(dividend, res). Ret (res, dividend = 0))"

definition divide_int :: "int \<Rightarrow> int \<Rightarrow> int exec" where
  "divide_int dividend divisor =
     exec_bind (if dividend < 0 then exec_bind (chk64 (- dividend)) (\<lambda>a. Ret (a, True)) else Ret (dividend, False)) (\<lambda>(a, minus).
     exec_bind (if divisor < 0 then exec_bind (chk64 (- divisor)) (\<lambda>b. Ret (b, \<not> minus)) else Ret (divisor, minus)) (\<lambda>(b, minus).
     exec_bind (divide_LL a b) (\<lambda>(c, clear).
     exec_bind (if minus then chk64 (- c) else Ret c) (\<lambda>c. Ret (signed_take_bit 31 c)))))"

section \<open>Decimal digits\<close>

fun digits :: "nat \<Rightarrow> nat list" where
  "digits n = (if n = 0 then [] else n mod 10 # digits (n div 10))"

declare digits.simps [simp del]

primrec digits_nat :: "nat list \<Rightarrow> nat" where
  "digits_nat [] = 0"
| "digits_nat (d # ds) = d + 10 * digits_nat ds"

lemma digits_nat_digits: "digits_nat (digits n) = n"
  by (induction n rule: digits.induct) (subst digits.simps, simp)

lemma digits_less: "d \<in> set (digits n) \<Longrightarrow> d < 10"
  by (induction n rule: digits.induct) (subst (asm) (2) digits.simps, auto split: if_splits)

lemma digits_nat_append: "digits_nat (ds @ [d]) = digits_nat ds + d * 10 ^ length ds"
  by (induction ds) auto

lemma digits_nat_rev: "digits_nat (rev ds) = foldl (\<lambda>v d. 10 * v + d) 0 ds"
proof -
  have "foldl (\<lambda>v d. 10 * v + d) v ds = v * 10 ^ length ds + digits_nat (rev ds)" for v
    by (induction ds arbitrary: v) (simp_all add: digits_nat_append algebra_simps)
  then show ?thesis by simp
qed

lemma foldl_ge: "v \<le> foldl (\<lambda>v d. 10 * v + d) v (ds :: nat list)"
proof (induction ds arbitrary: v)
  case (Cons d ds)
  have "v \<le> 10 * v + d" by simp
  also have "\<dots> \<le> foldl (\<lambda>v d. 10 * v + d) (10 * v + d) ds" by (rule Cons)
  finally show ?case by simp
qed simp

lemma digits_nat_inj:
  "length ds = length es \<Longrightarrow> \<forall>d \<in> set ds. d < 10 \<Longrightarrow> \<forall>d \<in> set es. d < 10 \<Longrightarrow> digits_nat ds = digits_nat es \<Longrightarrow> ds = es"
proof (induction ds es rule: list_induct2)
  case (Cons d ds e es)
  then have e: "d + 10 * digits_nat ds = e + 10 * digits_nat es" "d < 10" "e < 10" by simp_all
  then have "d = e" by presburger
  with e have "digits_nat ds = digits_nat es" by simp
  with Cons \<open>d = e\<close> show ?case by simp
qed simp

section \<open>The programs compute on digits\<close>

lemma digit_string_digits: "digit_string (int n) = map (\<lambda>d. int d + 48) (digits n)"
proof (induction n rule: digits.induct)
  case (1 n)
  have "digit_string (int n) = (if n = 0 then [] else (int n mod 10 + 48) # digit_string (int n div 10))"
    by (subst digit_string.simps) (simp add: trunc_nonneg)
  moreover have "int n mod 10 = int (n mod 10)" "int n div 10 = int (n div 10)" by (simp_all add: zmod_int zdiv_int)
  ultimately show ?case using 1 by (subst digits.simps) simp
qed

lemma digits_value_ok:
  "v < 2 ^ 31 \<Longrightarrow> digits_value (map (\<lambda>d. int d + 48) ds) (int v) =
     (let r = foldl (\<lambda>v d. 10 * v + d) v ds in if r < 2 ^ 31 then Ret (int r) else Undefined)"
proof (induction ds arbitrary: v)
  case (Cons d ds)
  let ?w = "10 * v + d"
  have ge: "?w \<le> foldl (\<lambda>v d. 10 * v + d) ?w ds" by (rule foldl_ge)
  show ?case
  proof (cases "?w < 2 ^ 31")
    case True
    then have "chk32 (int v * 10) = Ret (int v * 10)" "chk32 (int v * 10 + int d) = Ret (int ?w)"
      by (simp_all add: chk32_def)
    then show ?thesis using Cons.IH [OF True] by simp
  next
    case False
    then have "chk32 (int v * 10) = Ret (int v * 10) \<Longrightarrow> chk32 (int v * 10 + int d) = Undefined"
      "chk32 (int v * 10) = Undefined \<or> chk32 (int v * 10) = Ret (int v * 10)" by (simp_all add: chk32_def)
    moreover have "\<not> foldl (\<lambda>v d. 10 * v + d) ?w ds < 2 ^ 31" using False ge by linarith
    ultimately show ?thesis by (auto simp: Let_def)
  qed
qed simp

text \<open>
  \<^verbatim>\<open>reverse\<close> returns the number with the digits in the opposite order and the same sign if it fits in an \<^verbatim>\<open>int\<close>; if it does
  not, the arithmetic overflows, and so does the negation of \<^verbatim>\<open>INT_MIN\<close>.
\<close>

theorem reverse_int_correct:
  assumes "- (2 ^ 31) \<le> x" "x < 2 ^ 31"
  shows "reverse_int x = (let r = digits_nat (rev (digits (nat \<bar>x\<bar>))) in
    if x = - (2 ^ 31) \<or> r \<ge> 2 ^ 31 then Undefined else Ret (sgn x * int r))"
proof (cases "x = - (2 ^ 31)")
  case True
  then show ?thesis by (simp add: reverse_int_def chk32_def)
next
  case False
  define n where "n = nat \<bar>x\<bar>"
  have v: "digits_value (digit_string (int n)) 0 =
      (let r = digits_nat (rev (digits n)) in if r < 2 ^ 31 then Ret (int r) else Undefined)"
    using digits_value_ok [of 0 "digits n"] by (simp add: digit_string_digits digits_nat_rev)
  show ?thesis
  proof (cases "x < 0")
    case True
    then have x: "x = - int n" "n \<noteq> 0" by (simp_all add: n_def)
    have "int n < 2 ^ 31" using assms False x by simp
    then show ?thesis using v x False by (simp add: reverse_int_def Let_def chk32_def)
  next
    case nonneg: False
    then have "x = int n" by (simp add: n_def)
    then show ?thesis using v nonneg False
      by (cases "n = 0") (simp_all add: reverse_int_def Let_def digits.simps [of 0])
  qed
qed

lemma overflow_guard: "int v > (2 ^ 31 - 1 - int b) div 10 \<longleftrightarrow> \<not> 10 * v + b < 2 ^ 31"
proof -
  define q where "q = (2147483647 - int b) div 10"
  have "10 * q \<le> 2147483647 - int b" "2147483647 - int b < 10 * q + 10"
    using mult_div_mod_eq [of 10 "2147483647 - int b"] pos_mod_bound [of 10 "2147483647 - int b"]
      pos_mod_sign [of 10 "2147483647 - int b"] unfolding q_def by linarith+
  then have "int v > q \<longleftrightarrow> \<not> 10 * v + b < 2147483648" by linarith
  then show ?thesis by (simp add: q_def)
qed

lemma palindrome_loop_ok:
  "v < 2 ^ 31 \<Longrightarrow> palindrome_loop (int n) (int v) =
     Ret (let r = foldl (\<lambda>v d. 10 * v + d) v (digits n) in if r < 2 ^ 31 then Some (int r) else None)"
proof (induction n arbitrary: v rule: digits.induct)
  case (1 n)
  show ?case
  proof (cases "n = 0")
    case True
    then show ?thesis using 1 by (simp add: palindrome_loop.simps [of 0] digits.simps [of 0])
  next
    case False
    let ?w = "10 * v + n mod 10"
    have b: "int n smod 10 = int (n mod 10)" "int n sdiv 10 = int (n div 10)" by (simp_all add: trunc_nonneg zmod_int zdiv_int)
    have m: "chk32 (2 ^ 31 - 1 - int (n mod 10)) = Ret (2 ^ 31 - 1 - int (n mod 10))"
      "(2 ^ 31 - 1 - int (n mod 10)) sdiv 10 = (2 ^ 31 - 1 - int (n mod 10)) div 10"
      using mod_less_divisor [of 10 n] by (simp_all add: chk32_def trunc_nonneg)
    note guard = overflow_guard [of "n mod 10" v]
    have ds: "digits n = n mod 10 # digits (n div 10)" using False by (subst digits.simps) simp
    have ge: "?w \<le> foldl (\<lambda>v d. 10 * v + d) ?w (digits (n div 10))" by (rule foldl_ge)
    show ?thesis
    proof (cases "?w < 2 ^ 31")
      case True
      then have "chk32 (int v * 10) = Ret (int v * 10)" "chk32 (int v * 10 + int (n mod 10)) = Ret (int ?w)"
        by (simp_all add: chk32_def)
      then have "palindrome_loop (int n) (int v) = palindrome_loop (int (n div 10)) (int ?w)"
        using False True guard m by (subst palindrome_loop.simps) (simp add: b Let_def)
      then show ?thesis using "1.IH" [OF False True] by (simp add: ds)
    next
      case over: False
      then have "palindrome_loop (int n) (int v) = Ret None"
        using False guard m by (subst palindrome_loop.simps) (simp add: b Let_def)
      moreover have "\<not> foldl (\<lambda>v d. 10 * v + d) ?w (digits (n div 10)) < 2 ^ 31" using over ge by linarith
      ultimately show ?thesis by (simp add: ds Let_def)
    qed
  qed
qed

text \<open>
  \<^verbatim>\<open>isPalindrome\<close> never overflows, and it decides whether the digits of a number that is not negative read the same in
  both directions: the guard with \<^verbatim>\<open>INT_MAX\<close> only fires on numbers that are no palindromes.
\<close>

theorem isPalindrome_int_correct:
  assumes "x < 2 ^ 31"
  shows "isPalindrome_int x = Ret (0 \<le> x \<and> rev (digits (nat x)) = digits (nat x))"
proof (cases "x < 0")
  case False
  define n where "n = nat x"
  have x: "x = int n" "n < 2 ^ 31" using False assms by (simp_all add: n_def)
  have p: "palindrome_loop (int n) 0 = Ret (let r = digits_nat (rev (digits n)) in if r < 2 ^ 31 then Some (int r) else None)"
    using palindrome_loop_ok [of 0 n] by (simp add: digits_nat_rev)
  have "digits_nat (rev (digits n)) = n \<longleftrightarrow> rev (digits n) = digits n"
    using digits_nat_inj [of "rev (digits n)" "digits n"] digits_less [of _ n] digits_nat_digits [of n] by auto
  then show ?thesis using False p x by (auto simp: isPalindrome_int_def n_def [symmetric] Let_def)
qed (simp add: isPalindrome_int_def)

section \<open>Division\<close>

lemma msb_loop_zero: "msb_loop k i 0 n = n"
  by (induction k arbitrary: i) simp_all

lemma msb_loop_bounds:
  "0 < d \<Longrightarrow> d < 2 ^ k \<Longrightarrow> i \<le> msb_loop k i d n \<and> msb_loop k i d n < i + k \<and>
     2 ^ (msb_loop k i d n - i) \<le> d \<and> d < 2 ^ (msb_loop k i d n - i + 1)"
proof (induction k arbitrary: i d n)
  case (Suc k)
  define e where "e = d div 2"
  have d: "drop_bit 1 d = e" "d AND 1 = d mod 2" by (simp_all add: drop_bit_eq_div and_one_eq e_def)
  show ?case
  proof (cases "e = 0")
    case True
    then have "d = 1" using Suc.prems unfolding e_def by presburger
    then show ?thesis using True d by (simp add: msb_loop_zero)
  next
    case False
    define m where "m = msb_loop (Suc k) i d n"
    define j where "j = m - (i + 1)"
    have e: "0 < e" "e < 2 ^ k" using False Suc.prems unfolding e_def by simp_all
    have m: "m = msb_loop k (i + 1) e (if d AND 1 \<noteq> 0 then i else n)" unfolding m_def msb_loop.simps d(1) ..
    have h: "i + 1 \<le> m" "m < i + Suc k" "2 ^ j \<le> e" "e < 2 ^ (j + 1)"
      using Suc.IH [OF e, of "i + 1" "if d AND 1 \<noteq> 0 then i else n"] unfolding m [symmetric] j_def by simp_all
    have "m - i = j + 1" using h(1) by (simp add: j_def)
    moreover have "2 * 2 ^ j \<le> d" "d < 2 * (2 * 2 ^ j)" using h(3,4) unfolding e_def power_add by simp_all
    ultimately show ?thesis using h(1,2) unfolding m_def [symmetric] by (simp add: power_add)
  qed
qed simp

lemma shift_loop_ok:
  assumes "0 \<le> saved" "0 < base" "saved * 2 ^ j < 2 ^ 63" "base * 2 ^ j < 2 ^ 63"
  shows "shift_loop j saved base = Ret (saved * 2 ^ j, base * 2 ^ j)"
  using assms
proof (induction j arbitrary: saved base)
  case (Suc j)
  have one: "(1::int) \<le> 2 ^ j" by simp
  have "saved * 2 \<le> saved * 2 * 2 ^ j" "base * 2 \<le> base * 2 * 2 ^ j"
    using mult_left_mono [OF one, of "saved * 2"] mult_left_mono [OF one, of "base * 2"] Suc.prems by simp_all
  then have lt: "saved * 2 < 2 ^ 63" "base * 2 < 2 ^ 63" using Suc.prems(3,4) unfolding power_Suc by linarith+
  have "push_bit 1 saved = saved * 2" "push_bit 1 base = base * 2" by (simp_all add: push_bit_eq_mult)
  then have "shift_loop (Suc j) saved base = shift_loop j (saved * 2) (base * 2)"
    using lt Suc.prems(1,2) by (simp add: chk64_def)
  also have "\<dots> = Ret (saved * 2 * 2 ^ j, base * 2 * 2 ^ j)"
    using Suc.prems by (intro Suc.IH) (simp_all add: mult.assoc)
  finally show ?case by (simp add: mult.assoc)
qed simp

lemma divide_loop_ok:
  assumes "0 < b"
  shows "0 \<le> a \<Longrightarrow> a < 2 ^ 63 \<Longrightarrow> a < b * 2 ^ i \<Longrightarrow> b * 2 ^ i < 2 ^ 64 \<Longrightarrow> 0 \<le> r \<Longrightarrow> r + 2 ^ i \<le> 2 ^ 63 \<Longrightarrow>
    divide_loop i b a r = Ret (a mod b, r + a div b)"
proof (induction i arbitrary: a r)
  case 0
  then show ?case by simp
next
  case (Suc i)
  have le: "(2::int) ^ i \<le> b * 2 ^ i" using assms by simp
  have half: "b * 2 ^ i < 2 ^ 63" using Suc.prems(4) by (simp add: mult.left_commute)
  then have sh: "shift_loop i b 1 = Ret (b * 2 ^ i, 2 ^ i)"
    using shift_loop_ok [of b 1 i] assms le by simp
  show ?case
  proof (cases "a \<ge> b * 2 ^ i")
    case True
    have nn: "0 \<le> b * 2 ^ i" using assms by simp
    have "0 < (2::int) ^ i" by simp
    then have r: "r + 2 ^ i < 2 ^ 63" using Suc.prems(6) unfolding power_Suc by linarith
    have rr: "- (2 ^ 63) \<le> r + 2 ^ i" by (rule order.trans [of _ 0]) (use Suc.prems(5) in simp_all)
    have c: "chk64 (a - b * 2 ^ i) = Ret (a - b * 2 ^ i)" "chk64 (r + 2 ^ i) = Ret (r + 2 ^ i)"
      using True Suc.prems(1,2,5) r nn rr by (auto simp: chk64_def)
    have "divide_loop i b (a - b * 2 ^ i) (r + 2 ^ i) = Ret ((a - b * 2 ^ i) mod b, r + 2 ^ i + (a - b * 2 ^ i) div b)"
      using True Suc.prems half by (intro Suc.IH) (simp_all add: algebra_simps)
    moreover have "(a - b * 2 ^ i) mod b = a mod b" "(a - b * 2 ^ i) div b = a div b - 2 ^ i"
      using assms mod_mult_self2 [of a b "- (2 ^ i)"] div_mult_self2 [of b a "- (2 ^ i)"] by simp_all
    ultimately show ?thesis using True sh c by simp
  next
    case False
    have "0 < (2::int) ^ i" by simp
    then have "r + 2 ^ i \<le> 2 ^ 63" using Suc.prems(6) unfolding power_Suc by linarith
    then show ?thesis using False sh Suc.IH [of a r] Suc.prems(1-3,5) half by simp
  qed
qed

lemma divide_LL_ok:
  assumes "0 \<le> a" "a < 2 ^ 32" "0 < b" "b < 2 ^ 32"
  shows "divide_LL a b = Ret (a div b, a mod b = 0)"
proof -
  define m where "m = msb_LL b"
  have b63: "b < 2 ^ 63" using assms(4) by simp
  have m: "m < 63" "2 ^ m \<le> b" "b < 2 ^ (m + 1)" using msb_loop_bounds [OF assms(3) b63, of 0 0] by (simp_all add: m_def msb_LL_def)
  have s: "(2::int) ^ m * 2 ^ (63 - m) = 2 ^ 63" using m(1) by (simp flip: power_add)
  have "(2::int) ^ 63 \<le> b * 2 ^ (63 - m)" using mult_right_mono [OF m(2), of "2 ^ (63 - m)"] s by simp
  then have lo: "a < b * 2 ^ (63 - m)" using assms(2) by simp
  have hi: "b * 2 ^ (63 - m) < 2 ^ 64"
  proof -
    have "b * 2 ^ (63 - m) < 2 ^ (m + 1) * 2 ^ (63 - m)" by (rule mult_strict_right_mono [OF m(3)]) simp
    also have "\<dots> = 2 * (2 ^ m * 2 ^ (63 - m))" by simp
    finally show ?thesis unfolding s by simp
  qed
  have "(2::int) ^ (63 - m) \<le> 2 ^ 63" by (rule power_increasing) simp_all
  then have "divide_loop (63 - m) b a 0 = Ret (a mod b, 0 + a div b)"
    using lo hi assms by (intro divide_loop_ok) simp_all
  then show ?thesis by (simp add: divide_LL_def m_def)
qed

lemma divide_loop_zero:
  "0 \<le> a \<Longrightarrow> a < 2 ^ 63 \<Longrightarrow> 0 \<le> r \<Longrightarrow> r + 2 ^ i \<le> 2 ^ 63 \<Longrightarrow> divide_loop i 0 a r = Ret (a, r + 2 ^ i - 1)"
proof (induction i arbitrary: r)
  case (Suc i)
  have p: "0 < (2::int) ^ i" by simp
  have r: "r + 2 ^ i < 2 ^ 63" using Suc.prems(4) p unfolding power_Suc by linarith
  have rr: "- (2 ^ 63) \<le> r + 2 ^ i" by (rule order.trans [of _ 0]) (use Suc.prems(3) in simp_all)
  have "shift_loop i 0 1 = Ret (0, 2 ^ i)" using shift_loop_ok [of 0 1 i] r Suc.prems(3) by simp
  moreover have "chk64 (r + 2 ^ i) = Ret (r + 2 ^ i)" "chk64 a = Ret a" using r rr Suc.prems(1,2) by (auto simp: chk64_def)
  moreover have "divide_loop i 0 a (r + 2 ^ i) = Ret (a, r + 2 ^ i + 2 ^ i - 1)"
    using Suc.prems p by (intro Suc.IH) (simp_all add: algebra_simps)
  ultimately show ?case using Suc.prems(1) by simp
qed simp

text \<open>
  \<^verbatim>\<open>divide\<close> never overflows; it returns the truncated quotient, converted to \<^verbatim>\<open>int\<close>, which changes the quotient of \<^verbatim>\<open>INT_MIN\<close>
  and -1 only. A division by zero is not detected: it returns -1, or 1 if the dividend is negative.
\<close>

theorem divide_int_correct:
  assumes "- (2 ^ 31) \<le> a" "a < 2 ^ 31" "- (2 ^ 31) \<le> b" "b < 2 ^ 31"
  shows "divide_int a b = Ret (if b = 0 then if a < 0 then 1 else - 1
    else if a = - (2 ^ 31) \<and> b = - 1 then - (2 ^ 31) else a sdiv b)"
proof (cases "b = 0")
  case True
  have "divide_LL \<bar>a\<bar> 0 = Ret (2 ^ 63 - 1, \<bar>a\<bar> = 0)"
    using divide_loop_zero [of "\<bar>a\<bar>" 0 63] assms by (simp add: divide_LL_def msb_LL_def msb_loop_zero)
  then show ?thesis using True assms by (auto simp: divide_int_def chk64_def signed_take_bit_eq_if_negative abs_if)
next
  case False
  have q: "divide_LL \<bar>a\<bar> \<bar>b\<bar> = Ret (\<bar>a\<bar> div \<bar>b\<bar>, \<bar>a\<bar> mod \<bar>b\<bar> = 0)" using assms False by (intro divide_LL_ok) auto
  have s: "a sdiv b = (if (a < 0) \<noteq> (b < 0) then - (\<bar>a\<bar> div \<bar>b\<bar>) else \<bar>a\<bar> div \<bar>b\<bar>)"
    using False by (auto simp: signed_divide_int_def sgn_if)
  have le: "\<bar>a\<bar> div \<bar>b\<bar> \<le> \<bar>a\<bar>" "0 \<le> \<bar>a\<bar> div \<bar>b\<bar>" using False by (simp_all add: zdiv_mono2 [of "\<bar>a\<bar>" 1, simplified] pos_imp_zdiv_nonneg_iff)
  have d: "divide_int a b = Ret (signed_take_bit 31 (a sdiv b))"
    using q s le assms by (auto simp: divide_int_def chk64_def abs_if split: if_splits)
  show ?thesis
  proof (cases "a = - (2 ^ 31) \<and> b = - 1")
    case True
    then show ?thesis using d s by (simp add: signed_take_bit_eq_if_negative)
  next
    case False
    have "\<bar>a\<bar> div \<bar>b\<bar> < 2 ^ 31 \<or> (a < 0) \<noteq> (b < 0) \<and> \<bar>a\<bar> div \<bar>b\<bar> = 2 ^ 31"
    proof (cases "a = - (2 ^ 31) \<and> b \<noteq> 1")
      case True
      then have "\<bar>a\<bar> div \<bar>b\<bar> \<le> \<bar>a\<bar> div 2" using False \<open>b \<noteq> 0\<close> by (intro zdiv_mono2) auto
      then show ?thesis using True by simp
    next
      case False
      then show ?thesis using le assms by (auto simp: abs_if split: if_splits)
    qed
    then have "signed_take_bit 31 (a sdiv b) = a sdiv b" using le s by (intro signed_take_bit_int_eq_self) auto
    then show ?thesis using d False \<open>b \<noteq> 0\<close> by simp
  qed
qed

theorem reverse_int_correct_witness: "reverse_int 1999999999 = Undefined \<and> reverse_int (- 120) = Ret (- 21)"
proof -
  have "digits 1999999999 = [9, 9, 9, 9, 9, 9, 9, 9, 9, 1]" "digits 120 = [0, 2, 1]" by (simp_all add: digits.simps)
  then show ?thesis using reverse_int_correct [of 1999999999] reverse_int_correct [of "- 120"] by (simp add: Let_def)
qed

theorem isPalindrome_int_correct_witness: "isPalindrome_int 12321 = Ret True"
proof -
  have "digits 12321 = [1, 2, 3, 2, 1]" by (simp add: digits.simps)
  then show ?thesis using isPalindrome_int_correct [of 12321] by simp
qed

theorem divide_int_correct_witness: "divide_int 5 (- 2) = Ret (- 2) \<and> divide_int 7 0 = Ret (- 1)"
  using divide_int_correct [of 5 "- 2"] divide_int_correct [of 7 0] by (simp add: signed_divide_int_def)

end
