(* ===== verification/Spec2Isabelle.thy ===== *)
theory Spec2Isabelle
  imports Blocking_Steps Semaphores Locks Utils Async_Socket Handlers Rpc Tree_Builders
    Array_Problems Array_Scans Array_Inplace Nasty_Heap
    Lock_Free Proto_Rpc Rpc_Client List_Merge Graph_Copy
    Dp_Problems Regions Backtracking Nasty_File Numbers
begin

text \<open>
  A verification library for \<^verbatim>\<open>sperm\<close>, a collection of C++ infrastructure (\<^verbatim>\<open>code/cc\<close>) and of
  algorithm programs (\<^verbatim>\<open>code/leetcode\<close>). The C++ code is translated definition by definition into HOL;
  this theory imports the whole library.

  \<^bold>\<open>The program.\<close> \<^verbatim>\<open>common\<close> is the base: byte arrays (\<^verbatim>\<open>byte_array\<close>), the variable-length integer
  code (\<^verbatim>\<open>compress.h\<close>), serialisers over them (\<^verbatim>\<open>serializer.h\<close>, \<^verbatim>\<open>proto_serializer.h\<close>), copying
  (\<^verbatim>\<open>fast_memcpy.h\<close>), locks, conditions, atomics and intrusive or blocking queues (\<^verbatim>\<open>lock\<close>, \<^verbatim>\<open>cond\<close>,
  \<^verbatim>\<open>atomic.h\<close>, \<^verbatim>\<open>queue.h\<close>) and small helpers (\<^verbatim>\<open>utils.h\<close>). \<^verbatim>\<open>itachi\<close> is an asynchronous reactor on top of the
  blocking intrusive queues: contexts travel between CPU threads and poll threads, and sockets
  exchange length-prefixed messages. \<^verbatim>\<open>sasuke\<close> is a remote procedure call layer over ZeroMQ that uses
  the serialisers. \<^verbatim>\<open>nasty\<close> reads and prints S-expressions with a generated scanner and parser.

  \<^bold>\<open>Conventions.\<close> \<open>Sperm_Prelude\<close> has the outcome type \<open>exec\<close>: code returns (\<open>Ret\<close>), aborts
  (\<open>Fatal\<close>: \<^verbatim>\<open>SPERM_FATAL\<close>, a failed \<^verbatim>\<open>assert\<close>), runs into undefined behaviour (\<open>Undefined\<close>) or never
  ends (\<open>Diverge\<close>); \<open>returns m P\<close> is total correctness, so a property of a result never holds of code
  that does not return. Sizes and bit patterns are words; \<^verbatim>\<open>int\<close> arithmetic that leaves 32 bits is
  undefined (\<open>c_int\<close>) and a wider integer that becomes an \<^verbatim>\<open>int\<close> is cut to 32 bits (\<open>to_int\<close>); undefined is also an index outside an array (\<open>vec_at\<close>, \<open>vec_put\<close>, \<open>mem_read\<close>, \<open>mem_write\<close>).
  Counting loops are \<open>exec_fold\<close> over the values of the loop variable, other loops recursive functions
  with a termination proof or with fuel. Threads are step relations whose steps are the places
  where the code can be interrupted. Results of system calls and of libraries that are not part of
  the repository are arguments.

  \<^bold>\<open>Theories and sources.\<close>
  \<^item> \<open>Fast_Memcpy\<close>: \<^verbatim>\<open>common/fast_memcpy.h\<close>; the jump table and the labels entry by entry; every size copies
    like \<^verbatim>\<open>memcpy\<close>, out of bounds included.
  \<^item> \<open>Compress\<close>: the buffer functions of \<^verbatim>\<open>common/compress.h\<close>; round trip, length, over-reading.
  \<^item> \<open>Byte_Array\<close>: \<^verbatim>\<open>common/byte_array.h\<close>, \<^verbatim>\<open>byte_array.cc\<close>; the locale \<open>sink\<close> states what a writer
    promises and is interpreted on both writers; growth that diverges or corrupts after a failure.
  \<^item> \<open>Serializer\<close>: \<^verbatim>\<open>serializer.h\<close>, \<^verbatim>\<open>proto_serializer.h\<close>, the stream half of \<^verbatim>\<open>compress.h\<close>; the locale
    \<open>codec\<close> (encode, decode, prefix freedom) is interpreted for every type and both sinks.
  \<^item> \<open>Linked_Queue\<close>: the sequential queues of \<^verbatim>\<open>common/queue.h\<close> on a heap of nodes; the locale
    \<open>deque_impl\<close> gives refinement of lists for whole runs.
  \<^item> \<open>Blocking_Queue\<close>: the blocking queues as monitors; the locales \<open>monitor\<close> and \<open>fair_monitor\<close> give
    invariants under all interleavings and absence of lost wake-ups, interpreted for five classes.
  \<^item> \<open>Blocking_Steps\<close>: the same queues statement by statement, with a mutex that is taken and released; the locales
    \<open>statements\<close> and \<open>monitor_statements\<close> show that every run is a run of \<open>Blocking_Queue\<close>, whose steps are whole
    critical sections.
  \<^item> \<open>Semaphores\<close>: \<^verbatim>\<open>FutexCondition\<close>, \<^verbatim>\<open>FileDescriptorCondition\<close>, \<^verbatim>\<open>SyncedQueue\<close>. \<open>Locks\<close>: the lock
    classes, \<^verbatim>\<open>Condition\<close>, atomics, \<^verbatim>\<open>RefCount\<close>. \<open>Utils\<close>: the pure helpers of \<^verbatim>\<open>utils.h\<close>.
  \<^item> \<open>Itachi\<close>: \<^verbatim>\<open>itachi/itachi.cc\<close> and \<^verbatim>\<open>handler.cc\<close>; 32-bit reference counts are exact under all
    interleavings, and \<^verbatim>\<open>stop\<close> leaks exactly what its queues still hold. \<open>Async_Message\<close>: \<^verbatim>\<open>Message::read\<close> and \<^verbatim>\<open>write\<close>. \<open>Async_Socket\<close>: \<^verbatim>\<open>AsyncSocket\<close> over the reactor.
  \<^item> \<open>Rpc\<close>: \<^verbatim>\<open>sasuke/rpc.h\<close>, \<^verbatim>\<open>rpc.cc\<close>; a call returns what the service computes, the dispatcher frees what it
    allocates on every path, and a worker answers every request of a socket that keeps the protocol of ZeroMQ.
  \<^item> \<open>Nasty_Lexer\<close>, \<open>Nasty_Parser\<close>, \<open>Nasty\<close>: the reader of S-expressions, \<^verbatim>\<open>nasty\<close>. The tables of flex and bison
    (\<^verbatim>\<open>nasty.l.cc\<close>, \<^verbatim>\<open>nasty.y.cc\<close>) and the loops that interpret them are modelled as they are generated and
    proved equivalent to the rules of \<^verbatim>\<open>nasty.lexer\<close> and the grammar of \<^verbatim>\<open>nasty.parser\<close>; the locale
    \<open>token_source\<close> is what the parser needs of the scanner. \<^verbatim>\<open>nasty.cc\<close>: printing.
  \<^item> \<open>Tree_Problems\<close>, \<open>Tree_Builders\<close>: the binary tree programs of \<^verbatim>\<open>leetcode\<close>; traversals, paths, depths,
    reconstruction, balanced and enumerated search trees.
  \<^item> \<open>Array_Problems\<close>, \<open>Array_Scans\<close>, \<open>Array_Inplace\<close>: the array programs of \<^verbatim>\<open>leetcode\<close>; optima (\<^verbatim>\<open>candy\<close>,
    stock prices, containers, gas stations), merging, compaction and searching in place.
  \<^item> \<open>Lock_Free\<close>: the free list of \<^verbatim>\<open>common/lkfree.h\<close> under every interleaving; safe if allocations are
    serialised, and the schedule that breaks it otherwise (ABA).
  \<^item> \<open>Proto_Rpc\<close>: \<^verbatim>\<open>sasuke/proto_rpc.h\<close>; the protobuf framing is a codec, so remote calls with protobuf messages
    deliver the answer of \<^verbatim>\<open>handleRequest\<close>.
  \<^item> \<open>List_Problems\<close>, \<open>List_Merge\<close>, \<open>Graph_Copy\<close>: the programs of \<^verbatim>\<open>leetcode\<close> that relink lists and copy graphs, on explicit heaps.
    List segments with frames describe what a program does to the nodes of a list; the locale \<open>completeness\<close>
    is what both copying programs need of a finished copy.
  \<^item> \<open>Dp_Problems\<close>: the programs of \<^verbatim>\<open>leetcode\<close> that fill tables; cells of local arrays are undefined until they
    are written. Two of the programs write behind their arrays on every run.
  \<^item> \<open>Regions\<close>: \<^verbatim>\<open>surrounded-regions.cc\<close>, a recursive search on a board; what it marks is the closure of the border
    cells under the steps of the search.
  \<^item> \<open>Sockets\<close>: \<^verbatim>\<open>common/socket.h\<close>, \<^verbatim>\<open>common/fs.h\<close> and the descriptors of \<^verbatim>\<open>FileDescriptorCondition\<close>, over the results of the
    system calls; \<open>Async_Socket\<close> composes \<^verbatim>\<open>tcp_connect\<close> with the reactor.
  \<^item> \<open>Rpc_Client\<close>: the context of \<^verbatim>\<open>sasuke/rpc.cc\<close>, the calls of \<^verbatim>\<open>Client\<close> on bytes, requests and messages, and the names of
    internal sockets.
  \<^item> \<open>Nasty_Heap\<close>: the objects of \<^verbatim>\<open>nasty.h\<close> on a heap; the actions of the grammar build what they build in \<open>Nasty_Parser\<close>, and
    the destructors delete exactly the tree.
  \<^item> \<open>Handlers\<close>: the thread pools of \<^verbatim>\<open>itachi/handler.cc\<close> and the life of the reactor: what \<^verbatim>\<open>start\<close> creates \<^verbatim>\<open>stop\<close> releases.
  \<^item> \<open>Backtracking\<close>: programs of \<^verbatim>\<open>leetcode\<close> that enumerate parentheses, words, addresses and subsets; each lists exactly the
    solutions, and cuts its partial solution back to what it was.
  \<^item> \<open>Lexer_Buffer\<close>: the scanner of \<^verbatim>\<open>nasty.l.cc\<close> on its buffers, cell by cell: \<^verbatim>\<open>YY_INPUT\<close>, the refill of \<^verbatim>\<open>yy_get_next_buffer\<close>, the buffer
    stack and \<^verbatim>\<open>yylex\<close>. It refines the scanner of \<open>Nasty_Lexer\<close>, which has the whole text in its buffer; the fuel of
    \<open>file_yylex\<close> is the length of the text plus 2, because every jump back to a label follows a refill that read a character.
  \<^item> \<open>Numbers\<close>: programs of \<^verbatim>\<open>leetcode\<close> on machine integers, in which signed overflow is undefined.
  \<^item> \<open>Nasty_File\<close>: \<^verbatim>\<open>Parser::run\<close> over the scanner of \<open>Lexer_Buffer\<close>, a second implementation of the interface \<open>token_source\<close> of the
    parser: the round trip of printing and reading, and the exact outcome of reading any file without NUL.

  \<^bold>\<open>Bounds and fuel.\<close> Byte strings are below \<open>2 ^ 31\<close> or \<open>2 ^ 64\<close> bytes where the code converts sizes;
  each theorem states the bound. \<open>grow_size\<close> in \<open>Byte_Array\<close> is a \<open>while_option\<close>, without fuel: \<open>None\<close>
  is the loop that never ends. \<open>buildTree_post\<close> in \<open>Tree_Builders\<close> uses the number of nodes
  plus one, the greatest depth of the recursion. \<open>yyrun\<close> in \<open>Nasty_Parser\<close> needs three turns for a token and
  two at the end, \<open>yy_trans_loop\<close> follows at most three defaults, \<open>yy_scan\<close> and \<open>yylex_loop\<close> are bounded by the
  length of the text.

  \<^bold>\<open>Not modelled.\<close> Vendored code (\<^verbatim>\<open>astyle\<close>, \<^verbatim>\<open>vmtouch\<close>), the inline assembly of \<^verbatim>\<open>atomic_x86_64.h\<close> and
  \<^verbatim>\<open>atomic_i386.h\<close>, \<^verbatim>\<open>zhelpers.h\<close>, protobuf reflection (\<^verbatim>\<open>proto_dynamic.h\<close>), the logging macros, the parts of the generated
  scanner and parser that no rule reaches (\<^verbatim>\<open>yyunput\<close>, \<^verbatim>\<open>yyinput\<close>, \<^verbatim>\<open>yyless\<close>, error recovery, locations),
  \<^verbatim>\<open>SyncedQueue::empty\<close>, which does not compile, the remaining programs of \<^verbatim>\<open>leetcode\<close>, benchmarks, tests, and the Java,
  Scala and shell code of the repository. System calls, ZeroMQ, protobuf and the priority queue of the C++
  library are arguments of the definitions that use them.
\<close>

end
